(* ===== verification/X_Prelude.thy ===== *)
theory X_Prelude
  imports Main "HOL-Library.Word"
begin

text \<open>
  Prelude of the development: the machine types of the server, the status codes of the X
  protocol, byte-level memory operations, and the generic lemmas on lists and words that the
  component theories share. Nothing here is specific to one component.
\<close>

unbundle bit_operations_syntax

section \<open>Machine types\<close>

type_synonym byte = "8 word"
type_synonym u16 = "16 word"
type_synonym u32 = "32 word"
type_synonym u64 = "64 word"

text \<open>
  The collections the component theories fill: \<open>x_defs\<close> holds the defining equations
  of straight-line helpers that proofs unfold together, \<open>x_inv\<close> the preservation lemmas
  of the state invariants, \<open>x_frame\<close> the lemmas that say which fields an operation
  leaves alone.
\<close>

named_theorems x_defs
named_theorems x_inv
named_theorems x_frame

section \<open>Status codes\<close>

text \<open>
  The error codes of the core protocol that the modelled code returns, in the order of their
  numbers. Extensions allocate further codes at run time; \<open>ExtError n\<close> stands for those.
\<close>

datatype x_status =
    Success
  | BadRequest
  | BadValue
  | BadWindow
  | BadPixmap
  | BadAtom
  | BadCursor
  | BadFont
  | BadMatch
  | BadDrawable
  | BadAccess
  | BadAlloc
  | BadColor
  | BadGC
  | BadIDChoice
  | BadName
  | BadLength
  | BadImplementation
  | ExtError nat

section \<open>Memory as byte lists\<close>

text \<open>
  \<open>poke off bs mem\<close> is the memory after \<open>memcpy\<close> of \<open>bs\<close> to offset \<open>off\<close>; it is used
  where \<open>off + length bs\<close> does not exceed the length of the memory.
\<close>

definition poke :: "nat \<Rightarrow> byte list \<Rightarrow> byte list \<Rightarrow> byte list" where
  "poke off bs mem = take off mem @ bs @ drop (off + length bs) mem"

lemma length_poke [simp]:
  "off + length bs \<le> length mem \<Longrightarrow> length (poke off bs mem) = length mem"
  by (simp add: poke_def)

lemma take_poke_upto:
  "off + length bs \<le> length mem \<Longrightarrow> take (off + length bs) (poke off bs mem) = take off mem @ bs"
  by (simp add: poke_def)

lemma poke_Nil [simp]: "poke off [] mem = mem"
  by (simp add: poke_def)

lemma poke_poke_adjacent:
  "off + length bs + length cs \<le> length mem \<Longrightarrow>
   poke (off + length bs) cs (poke off bs mem) = poke off (bs @ cs) mem"
  by (simp add: poke_def ac_simps)

section \<open>Words\<close>

lemma unat_lt2p: "unat (w :: 'a::len word) < 2 ^ LENGTH('a)"
  by (rule unsigned_less)

lemma unat_u32_lt: "unat (w :: u32) < 2 ^ 32" "unat (w :: u32) < 4294967296"
  using unat_lt2p [of w] by simp_all

lemma word_eq_unat: "w = v \<longleftrightarrow> unat w = unat (v :: 'a::len word)"
  by (simp add: word_unat_eq_iff)

section \<open>Lists\<close>

text \<open>
  Removing the first element that satisfies a predicate: what the server's unlink loops over
  singly linked lists do (\<open>while (q = *prev) ... *prev = q->next; break\<close>).
\<close>

fun remove_first :: "('a \<Rightarrow> bool) \<Rightarrow> 'a list \<Rightarrow> 'a list" where
  "remove_first P [] = []"
| "remove_first P (x # xs) = (if P x then xs else x # remove_first P xs)"

lemma remove_first_none: "\<forall>x \<in> set xs. \<not> P x \<Longrightarrow> remove_first P xs = xs"
  by (induction xs) auto

lemma remove_first_length:
  "length (remove_first P xs) = (if \<exists>x \<in> set xs. P x then length xs - 1 else length xs)"
  by (induction xs) (auto dest: length_pos_if_in_set)

lemma set_remove_first_subset: "set (remove_first P xs) \<subseteq> set xs"
  by (induction xs) auto

lemma filter_remove_first:
  "\<forall>x. P x \<longrightarrow> \<not> Q x \<Longrightarrow> filter Q (remove_first P xs) = filter Q xs"
  by (induction xs) auto

lemma find_remove_first_other:
  "\<forall>x. P x \<longrightarrow> \<not> Q x \<Longrightarrow> find Q (remove_first P xs) = find Q xs"
  by (induction xs) auto

lemma distinct_map_remove_first:
  "distinct (map f xs) \<Longrightarrow> distinct (map f (remove_first P xs))"
  by (induction xs) (use set_remove_first_subset in fastforce)+

lemma find_append:
  "find P (xs @ ys) = (case find P xs of None \<Rightarrow> find P ys | Some x \<Rightarrow> Some x)"
  by (induction xs) auto

lemma find_filter_absorb: "\<forall>x. P x \<longrightarrow> Q x \<Longrightarrow> find P (filter Q xs) = find P xs"
  by (induction xs) auto

lemma find_None_iff_set: "find P xs = None \<longleftrightarrow> (\<forall>x \<in> set xs. \<not> P x)"
  by (auto simp: find_None_iff)

lemma find_SomeD: "find P xs = Some x \<Longrightarrow> x \<in> set xs \<and> P x"
  by (auto simp: find_Some_iff)

end
