(* ===== verification/Wire_Words.thy ===== *)
theory Wire_Words
  imports X_Prelude
begin

text \<open>
  The size and byte-order helpers of \<^verbatim>\<open>include/misc.h\<close>: rounding byte counts to the 32-bit
  units of the protocol and byte-swapping 16-, 32- and 64-bit quantities for clients of the
  other byte order. C's \<open>int\<close> is a 32-bit word here, so the rounding functions wrap as the
  compiled code does.
\<close>

section \<open>Sizes in protocol units\<close>

definition bits_to_bytes :: "u32 \<Rightarrow> u32" where
  "bits_to_bytes bits = signed_drop_bit 3 (bits + 7)"

definition bytes_to_int32 :: "u64 \<Rightarrow> u32" where
  "bytes_to_int32 bytes = ucast (drop_bit 2 (bytes + 3))"

definition pad_to_int32 :: "u32 \<Rightarrow> u32" where
  "pad_to_int32 bytes = (bytes + 3) AND NOT 3"

definition padding_for_int32 :: "u32 \<Rightarrow> u32" where
  "padding_for_int32 bytes = (- bytes) AND 3"

section \<open>Byte swapping\<close>

definition bswap_64 :: "u64 \<Rightarrow> u64" where
  "bswap_64 x =
     (drop_bit 56 (x AND 0xFF00000000000000) OR
      drop_bit 40 (x AND 0x00FF000000000000) OR
      drop_bit 24 (x AND 0x0000FF0000000000) OR
      drop_bit 8 (x AND 0x000000FF00000000) OR
      push_bit 8 (x AND 0x00000000FF000000) OR
      push_bit 24 (x AND 0x0000000000FF0000) OR
      push_bit 40 (x AND 0x000000000000FF00) OR
      push_bit 56 (x AND 0x00000000000000FF))"

definition bswap_32 :: "u32 \<Rightarrow> u32" where
  "bswap_32 x =
     (drop_bit 24 (x AND 0xFF000000) OR
      drop_bit 8 (x AND 0x00FF0000) OR
      push_bit 8 (x AND 0x0000FF00) OR
      push_bit 24 (x AND 0x000000FF))"

definition bswap_16 :: "u16 \<Rightarrow> u16" where
  "bswap_16 x = (drop_bit 8 (x AND 0xFF00) OR push_bit 8 (x AND 0x00FF))"

section \<open>The bytes of a quantity in memory\<close>

text \<open>
  The server's host is little endian in this development: byte \<open>i\<close> of a quantity in memory
  holds its bits \<open>8 * i\<close> and up.
\<close>

definition le_bytes :: "nat \<Rightarrow> 'a::len word \<Rightarrow> byte list" where
  "le_bytes n w = map (\<lambda>i. ucast (drop_bit (8 * i) w)) [0..<n]"

definition le_word :: "byte list \<Rightarrow> 'a::len word" where
  "le_word bs = foldr (\<lambda>b w. ucast b OR push_bit 8 w) bs 0"

lemma length_le_bytes [simp]: "length (le_bytes n w) = n"
  by (simp add: le_bytes_def)


text \<open>
  Each term of a swap moves one byte: \<open>lane b y\<close> is byte \<open>y\<close> put at byte position \<open>b\<close>.
\<close>

definition lane :: "nat \<Rightarrow> 'a::len word \<Rightarrow> 'a word" where
  "lane b y = push_bit (8 * b) (take_bit 8 y)"

lemma byte_of_lane:
  "8 * Suc k \<le> LENGTH('a) \<Longrightarrow>
   ucast (drop_bit (8 * k) (lane b (y :: 'a::len word))) = (if k = b then ucast y else 0 :: byte)"
  by (rule bit_word_eqI) (auto simp: lane_def bit_simps)

lemma byte_of_or:
  "ucast (drop_bit n (v OR w)) = (ucast (drop_bit n v) OR ucast (drop_bit n w) :: byte)"
  by (rule bit_word_eqI) (auto simp: bit_simps)


lemma byte_masks:
  "(0xFF :: 'a::len word) = mask 8"
  "(0xFF00 :: 'a::len word) = push_bit 8 (mask 8)"
  "(0xFF0000 :: 'a::len word) = push_bit 16 (mask 8)"
  "(0xFF000000 :: 'a::len word) = push_bit 24 (mask 8)"
  "(0xFF00000000 :: 'a::len word) = push_bit 32 (mask 8)"
  "(0xFF0000000000 :: 'a::len word) = push_bit 40 (mask 8)"
  "(0xFF000000000000 :: 'a::len word) = push_bit 48 (mask 8)"
  "(0xFF00000000000000 :: 'a::len word) = push_bit 56 (mask 8)"
  by (simp_all add: mask_eq_exp_minus_1 push_bit_eq_mult)


lemma lane_down:
  "drop_bit (8 * d) (x AND push_bit (8 * (d + e)) (mask 8)) = lane e (drop_bit (8 * (d + e)) x)"
proof (rule bit_word_eqI)
  fix n
  show "bit (drop_bit (8 * d) (x AND push_bit (8 * (d + e)) (mask 8))) n
      = bit (lane e (drop_bit (8 * (d + e)) x)) n" if "n < LENGTH('a)"
  proof (cases "8 * e \<le> n")
    case True
    then obtain j where "n = 8 * e + j" using le_Suc_ex by blast
    with that show ?thesis
      by (auto simp: lane_def bit_simps algebra_simps dest: bit_imp_le_length)
  next
    case False
    then show ?thesis by (auto simp: lane_def bit_simps)
  qed
qed

lemma lane_up:
  "push_bit (8 * u) (x AND push_bit (8 * m) (mask 8)) = lane (m + u) (drop_bit (8 * m) x)"
  by (rule bit_word_eqI) (auto simp: lane_def bit_simps)

lemma lanes_16:
  "bswap_16 x = lane 0 (drop_bit 8 x) OR lane 1 x"
  using lane_down [where d = 1 and e = 0 and x = x] lane_up [where u = 1 and m = 0 and x = x]
  by (simp add: bswap_16_def byte_masks numeral_2_eq_2)

lemma lanes_32:
  "bswap_32 x = lane 0 (drop_bit 24 x) OR lane 1 (drop_bit 16 x) OR lane 2 (drop_bit 8 x) OR lane 3 x"
  using lane_down [where d = 3 and e = 0 and x = x] lane_down [where d = 1 and e = 1 and x = x] lane_up [where u = 1 and m = 1 and x = x] lane_up [where u = 3 and m = 0 and x = x]
  by (simp add: bswap_32_def byte_masks numeral_2_eq_2)

lemma lanes_64:
  "bswap_64 x = lane 0 (drop_bit 56 x) OR lane 1 (drop_bit 48 x) OR lane 2 (drop_bit 40 x) OR
     lane 3 (drop_bit 32 x) OR lane 4 (drop_bit 24 x) OR lane 5 (drop_bit 16 x) OR
     lane 6 (drop_bit 8 x) OR lane 7 x"
  using lane_down [where d = 7 and e = 0 and x = x] lane_down [where d = 5 and e = 1 and x = x] lane_down [where d = 3 and e = 2 and x = x] lane_down [where d = 1 and e = 3 and x = x] lane_up [where u = 1 and m = 3 and x = x] lane_up [where u = 3 and m = 2 and x = x] lane_up [where u = 5 and m = 1 and x = x] lane_up [where u = 7 and m = 0 and x = x]
  by (simp add: bswap_64_def byte_masks numeral_2_eq_2)

lemma le_bytes_rev_laneI:
  assumes "\<And>k. k < n \<Longrightarrow> ucast (drop_bit (8 * k) w) = (ucast (drop_bit (8 * (n - 1 - k)) v) :: byte)"
  shows "le_bytes n w = rev (le_bytes n v)"
  by (rule nth_equalityI) (use assms in \<open>auto simp: le_bytes_def rev_nth\<close>)


lemma less_cases:
  "(k::nat) < 2 \<Longrightarrow> k = 0 \<or> k = 1"
  "(k::nat) < 4 \<Longrightarrow> k = 0 \<or> k = 1 \<or> k = 2 \<or> k = 3"
  "(k::nat) < 8 \<Longrightarrow> k = 0 \<or> k = 1 \<or> k = 2 \<or> k = 3 \<or> k = 4 \<or> k = 5 \<or> k = 6 \<or> k = 7"
  by auto

lemma bswap_16_bytes: "le_bytes 2 (bswap_16 x) = rev (le_bytes 2 x)"
proof (rule le_bytes_rev_laneI)
  fix k :: nat
  assume k: "k < 2"
  then have "8 * Suc k \<le> LENGTH(16)" by simp
  note byte = byte_of_lane [OF this]
  from less_cases(1) [OF k]
  show "ucast (drop_bit (8 * k) (bswap_16 x)) = (ucast (drop_bit (8 * (2 - 1 - k)) x) :: byte)"
    unfolding lanes_16 byte_of_or byte by (elim disjE) simp_all
qed

lemma bswap_32_bytes: "le_bytes 4 (bswap_32 x) = rev (le_bytes 4 x)"
proof (rule le_bytes_rev_laneI)
  fix k :: nat
  assume k: "k < 4"
  then have "8 * Suc k \<le> LENGTH(32)" by simp
  note byte = byte_of_lane [OF this]
  from less_cases(2) [OF k]
  show "ucast (drop_bit (8 * k) (bswap_32 x)) = (ucast (drop_bit (8 * (4 - 1 - k)) x) :: byte)"
    unfolding lanes_32 byte_of_or byte by (elim disjE) simp_all
qed

lemma bswap_64_bytes: "le_bytes 8 (bswap_64 x) = rev (le_bytes 8 x)"
proof (rule le_bytes_rev_laneI)
  fix k :: nat
  assume k: "k < 8"
  then have "8 * Suc k \<le> LENGTH(64)" by simp
  note byte = byte_of_lane [OF this]
  from less_cases(3) [OF k]
  show "ucast (drop_bit (8 * k) (bswap_64 x)) = (ucast (drop_bit (8 * (8 - 1 - k)) x) :: byte)"
    unfolding lanes_64 byte_of_or byte by (elim disjE) simp_all
qed

lemma le_bytes_inject:
  assumes "LENGTH('a::len) = 8 * n" and "le_bytes n v = le_bytes n (w :: 'a word)"
  shows "v = w"
proof (rule bit_word_eqI)
  fix i assume "i < LENGTH('a)"
  with assms(1) have "i div 8 < n" by auto
  with assms(2) have "ucast (drop_bit (8 * (i div 8)) v) = (ucast (drop_bit (8 * (i div 8)) w) :: byte)"
    by (simp add: le_bytes_def)
  then have "bit (ucast (drop_bit (8 * (i div 8)) v) :: byte) (i mod 8)
      = bit (ucast (drop_bit (8 * (i div 8)) w) :: byte) (i mod 8)"
    by simp
  then show "bit v i = bit w i"
    by (simp add: bit_simps)
qed

lemma bswap_16_involutive: "bswap_16 (bswap_16 x) = x"
  by (rule le_bytes_inject [where n = 2]) (simp_all add: bswap_16_bytes)

lemma bswap_32_involutive: "bswap_32 (bswap_32 x) = x"
  by (rule le_bytes_inject [where n = 4]) (simp_all add: bswap_32_bytes)

lemma bswap_64_involutive: "bswap_64 (bswap_64 x) = x"
  by (rule le_bytes_inject [where n = 8]) (simp_all add: bswap_64_bytes)

section \<open>Swapping arrays\<close>

text \<open>
  The array swaps of \<^verbatim>\<open>dix/swapreq.c\<close> and \<^verbatim>\<open>dix/dix_priv.h\<close> are unrolled: 16 (or 8)
  elements a round, then the rest one by one.
\<close>

fun swap_rest :: "('a \<Rightarrow> 'a) \<Rightarrow> 'a list \<Rightarrow> 'a list" where
  "swap_rest sw [] = []"
| "swap_rest sw (x # xs) = sw x # swap_rest sw xs"

function SwapShorts :: "u16 list \<Rightarrow> u16 list" where
  "SwapShorts xs =
     (if 16 \<le> length xs
      then [bswap_16 (xs ! 0), bswap_16 (xs ! 1), bswap_16 (xs ! 2), bswap_16 (xs ! 3),
            bswap_16 (xs ! 4), bswap_16 (xs ! 5), bswap_16 (xs ! 6), bswap_16 (xs ! 7),
            bswap_16 (xs ! 8), bswap_16 (xs ! 9), bswap_16 (xs ! 10), bswap_16 (xs ! 11),
            bswap_16 (xs ! 12), bswap_16 (xs ! 13), bswap_16 (xs ! 14), bswap_16 (xs ! 15)]
           @ SwapShorts (drop 16 xs)
      else swap_rest bswap_16 xs)"
  by pat_completeness auto
termination
  by (relation "measure length") auto

function SwapLongs :: "u32 list \<Rightarrow> u32 list" where
  "SwapLongs xs =
     (if 8 \<le> length xs
      then [bswap_32 (xs ! 0), bswap_32 (xs ! 1), bswap_32 (xs ! 2), bswap_32 (xs ! 3),
            bswap_32 (xs ! 4), bswap_32 (xs ! 5), bswap_32 (xs ! 6), bswap_32 (xs ! 7)]
           @ SwapLongs (drop 8 xs)
      else swap_rest bswap_32 xs)"
  by pat_completeness auto
termination
  by (relation "measure length") auto

declare SwapShorts.simps [simp del] SwapLongs.simps [simp del]

lemma swap_rest_map: "swap_rest sw xs = map sw xs"
  by (induction xs) auto

lemma map_unrolled:
  assumes "k \<le> length xs"
  shows "map f xs = map (\<lambda>i. f (xs ! i)) [0..<k] @ map f (drop k xs)"
proof -
  have "map (\<lambda>i. f (xs ! i)) [0..<k] = map f (take k xs)"
    using assms by (auto intro: nth_equalityI)
  then show ?thesis
    by (metis append_take_drop_id map_append)
qed

lemma upt_8: "[0..<8] = [0, 1, 2, 3, 4, 5, 6, 7::nat]"
  by (simp add: upt_conv_Cons)

lemma upt_16: "[0..<16] = [0, 1, 2, 3, 4, 5, 6, 7, 8, 9, 10, 11, 12, 13, 14, 15::nat]"
  by (simp add: upt_conv_Cons)

lemma SwapShorts_map: "SwapShorts xs = map bswap_16 xs"
proof (induction xs rule: SwapShorts.induct)
  case (1 xs)
  show ?case
  proof (cases "16 \<le> length xs")
    case True
    with 1 map_unrolled [OF True, of bswap_16] show ?thesis
      by (subst SwapShorts.simps) (simp only: upt_16 list.map if_True)
  next
    case False
    then show ?thesis by (subst SwapShorts.simps) (simp add: swap_rest_map)
  qed
qed

lemma SwapLongs_map: "SwapLongs xs = map bswap_32 xs"
proof (induction xs rule: SwapLongs.induct)
  case (1 xs)
  show ?case
  proof (cases "8 \<le> length xs")
    case True
    with 1 map_unrolled [OF True, of bswap_32] show ?thesis
      by (subst SwapLongs.simps) (simp only: upt_8 list.map if_True)
  next
    case False
    then show ?thesis by (subst SwapLongs.simps) (simp add: swap_rest_map)
  qed
qed

section \<open>Padding\<close>

lemma unat_clear_low2: "unat (w AND NOT 3 :: u32) = unat w div 4 * 4"
proof -
  have "w AND NOT 3 = push_bit 2 (drop_bit 2 w)"
  proof (rule bit_word_eqI)
    fix n
    have three: "(3 :: u32) = mask 2" by (simp add: mask_eq_exp_minus_1)
    show "bit (w AND NOT 3) n = bit (push_bit 2 (drop_bit 2 w)) n" if "n < LENGTH(32)"
    proof (cases "n < 2")
      case False
      then obtain k where "n = 2 + k" using le_Suc_ex not_less by blast
      with that show ?thesis unfolding three by (simp add: bit_simps)
    qed (use that in \<open>simp add: three bit_simps\<close>)
  qed
  also have "unat \<dots> = unat w div 4 * 4"
    using unsigned_less [of w, where ?'a = nat]
    by (simp add: push_bit_eq_mult unat_drop_bit_eq drop_bit_eq_div unat_word_ariths)
  finally show ?thesis .
qed

lemma pad_to_int32_nat:
  assumes "unat b + 3 < 2 ^ 32"
  shows "unat (pad_to_int32 b) = (unat b + 3) div 4 * 4"
  unfolding pad_to_int32_def unat_clear_low2 using assms by (simp add: unat_word_ariths)

lemma unat_and_three: "unat (w AND 3 :: u32) = unat w mod 4"
proof -
  have "w AND 3 = take_bit 2 w" by (simp add: take_bit_eq_mask mask_eq_exp_minus_1)
  then have "unat (w AND 3) = take_bit 2 (unat w)" by (simp only: unsigned_take_bit_eq)
  then show ?thesis by (simp only: take_bit_eq_mod) simp
qed

lemma complement_mod_4:
  assumes "n < 4 * m"
  shows "(4 * m - n) mod 4 = (4 - n mod 4) mod (4 :: nat)"
proof -
  obtain q r where q: "q = n div 4" and r_def: "r = n mod 4" by blast
  then have n: "n = 4 * q + r" and r: "r < 4" by simp_all
  with assms have q: "q < m" by linarith
  then have "4 * m - n = 4 * (m - q - 1) + (4 - r)" using n r by (simp add: algebra_simps)
  then have "(4 * m - n) mod 4 = (4 - r) mod 4" by simp
  then show ?thesis by (simp add: r_def)
qed

lemma round_up_4: "(n + 3) div 4 * 4 = n + (4 - n mod 4) mod (4 :: nat)"
proof -
  obtain q r where q: "q = n div 4" and r_def: "r = n mod 4" by blast
  then have n: "n = 4 * q + r" and r: "r < 4" by simp_all
  then consider "r = 0" | "r = 1" | "r = 2" | "r = 3" by linarith
  then have "(4 * q + r + 3) div 4 * 4 = 4 * q + r + (4 - r) mod 4" by cases simp_all
  then show ?thesis by (simp add: n [symmetric] r_def [symmetric])
qed

lemma padding_for_int32_nat: "unat (padding_for_int32 b) = (4 - unat b mod 4) mod 4"
proof -
  have "unat (- b) mod 4 = (4 - unat b mod 4) mod 4"
  proof (cases "b = 0")
    case False
    have "uint (- b) = 2 ^ 32 - uint b"
      using False uint_lt2p [of b] by (simp add: uint_word_ariths zmod_zminus1_eq_if uint_0_iff)
    then have "int (unat (- b)) = 4294967296 - int (unat b)" by simp
    then have "unat (- b) = 4294967296 - unat b" by linarith
    moreover have "unat b < 4 * 1073741824" using unsigned_less [of b, where ?'a = nat] by simp
    ultimately show ?thesis using complement_mod_4 [of "unat b" 1073741824] by simp
  qed simp
  then show ?thesis by (simp add: padding_for_int32_def unat_and_three)
qed

lemma bytes_to_int32_nat:
  assumes "unat b + 3 < 2 ^ 34"
  shows "unat (bytes_to_int32 b) = (unat b + 3) div 4"
proof -
  have "unat (b + 3) = unat b + 3" using assms by (simp add: unat_word_ariths)
  then have "unat (drop_bit 2 (b + 3)) = (unat b + 3) div 4"
    by (simp only: unat_drop_bit_eq) (simp add: drop_bit_eq_div)
  moreover have "(unat b + 3) div 4 < 2 ^ 32" using assms by simp
  ultimately show ?thesis 
    by (simp add: bytes_to_int32_def unsigned_ucast_eq take_bit_nat_eq_self)
qed

text \<open>Rounding agrees everywhere it is done: for byte counts below 4 GiB - 3 the three helpers
  give the number of 32-bit units, the padded byte count and the number of pad bytes of one and
  the same rounding up.\<close>

theorem rounding_helpers_agree:
  assumes "unat b + 3 < 2 ^ 32"
  shows "unat (pad_to_int32 b) = 4 * unat (bytes_to_int32 (ucast b)) \<and>
    unat (pad_to_int32 b) = unat b + unat (padding_for_int32 b) \<and> unat (padding_for_int32 b) < 4"
proof -
  have "unat (ucast b :: u64) = unat b" 
    using unsigned_less [of b, where ?'a = nat] by (simp add: unsigned_ucast_eq take_bit_nat_eq_self)
  then have "unat (bytes_to_int32 (ucast b)) = (unat b + 3) div 4"
    using bytes_to_int32_nat [of "ucast b"] assms by simp
  then show ?thesis
    using pad_to_int32_nat [OF assms] padding_for_int32_nat [of b] round_up_4 [of "unat b"]
    by simp
qed

theorem rounding_helpers_agree_witness: "unat (pad_to_int32 5) = 5 + unat (padding_for_int32 5)"
  using rounding_helpers_agree [of 5] by simp

text \<open>Byte-swapping an array reverses the bytes of each element in memory and nothing else,
  for the unrolled loops as for a plain loop, and swapping twice restores the array.\<close>

theorem array_swaps_reverse_elements:
  "concat (map (le_bytes 2) (SwapShorts xs)) = concat (map (rev \<circ> le_bytes 2) xs) \<and>
   concat (map (le_bytes 4) (SwapLongs ys)) = concat (map (rev \<circ> le_bytes 4) ys) \<and>
   SwapShorts (SwapShorts xs) = xs \<and> SwapLongs (SwapLongs ys) = ys"
  by (simp add: SwapShorts_map SwapLongs_map comp_def bswap_16_bytes bswap_32_bytes
      bswap_16_involutive bswap_32_involutive)

end
