(* ===== verification/Rpc_Buf.thy ===== *)
theory Rpc_Buf
  imports Wire_Words
begin

text \<open>
  The reply buffer of \<^verbatim>\<open>dix/rpcbuf.c\<close> and the reply writers of
  \<^verbatim>\<open>dix/request_priv.h\<close>. A request handler appends typed values without looking at the
  return codes and tests the buffer's sticky error flag once at the end; the locale
  \<open>rpc_writer\<close> states what that pattern needs of a write operation, and every write operation
  of the file is shown to provide it.
\<close>

section \<open>State\<close>

text \<open>
  \<open>realloc_ok n\<close> says whether a \<open>realloc\<close> to \<open>n\<close> bytes succeeds, \<open>heap_junk i\<close> is the byte
  that fresh heap memory happens to hold at offset \<open>i\<close>. Both are the environment's choice.
\<close>

record heap_env =
  realloc_ok :: "nat \<Rightarrow> bool"
  heap_junk :: "nat \<Rightarrow> byte"

record x_rpcbuf =
  rb_size :: nat
  rb_wpos :: nat
  rb_buffer :: "byte list option"
  rb_swapped :: bool
  rb_error :: bool
  rb_err_clear :: bool

definition XLIBRE_RPCBUF_CHUNK_SIZE :: nat where
  "XLIBRE_RPCBUF_CHUNK_SIZE = 4096"

text \<open>Sums and products of type \<open>size_t\<close> wrap around.\<close>

definition size_t :: "nat \<Rightarrow> nat" where
  "size_t n = n mod 2 ^ 64"

definition x_rpcbuf_zero :: x_rpcbuf where
  "x_rpcbuf_zero = \<lparr>rb_size = 0, rb_wpos = 0, rb_buffer = None, rb_swapped = False,
     rb_error = False, rb_err_clear = False\<rparr>"

definition rb_bytes :: "x_rpcbuf \<Rightarrow> byte list" where
  "rb_bytes b = (case rb_buffer b of None \<Rightarrow> [] | Some bs \<Rightarrow> bs)"

section \<open>Operations\<close>

definition x_rpcbuf_makeroom :: "heap_env \<Rightarrow> x_rpcbuf \<Rightarrow> nat \<Rightarrow> bool \<times> x_rpcbuf" where
  "x_rpcbuf_makeroom h b needed =
     (if rb_error b then (False, b)
      else if size_t (rb_wpos b + needed) < rb_size b then (True, b)
      else
        let newsize = size_t ((size_t (rb_wpos b + needed) div XLIBRE_RPCBUF_CHUNK_SIZE + 1)
                        * XLIBRE_RPCBUF_CHUNK_SIZE)
        in if realloc_ok h newsize
           then (True, b\<lparr>rb_buffer := Some (take newsize (rb_bytes b)
                            @ map (heap_junk h) [length (rb_bytes b)..<newsize]),
                         rb_size := newsize\<rparr>)
           else (False, if rb_err_clear b then b\<lparr>rb_error := True, rb_buffer := None\<rparr>
                        else b\<lparr>rb_error := True\<rparr>))"

definition x_rpcbuf_clear :: "x_rpcbuf \<Rightarrow> x_rpcbuf" where
  "x_rpcbuf_clear b = x_rpcbuf_zero"

definition x_rpcbuf_reset :: "x_rpcbuf \<Rightarrow> x_rpcbuf" where
  "x_rpcbuf_reset b =
     (if rb_buffer b = None \<or> rb_size b = 0 \<or> rb_wpos b = 0 then b else b\<lparr>rb_wpos := 0\<rparr>)"

text \<open>The reserved region is returned as its offset in the buffer, NULL as \<open>None\<close>.\<close>

definition x_rpcbuf_reserve :: "heap_env \<Rightarrow> x_rpcbuf \<Rightarrow> nat \<Rightarrow> nat option \<times> x_rpcbuf" where
  "x_rpcbuf_reserve h b needed =
     (case x_rpcbuf_makeroom h b needed of
        (False, b') \<Rightarrow> (None, b')
      | (True, b') \<Rightarrow> (Some (rb_wpos b'), b'\<lparr>rb_wpos := size_t (rb_wpos b' + needed)\<rparr>))"

text \<open>Storing through the pointer that \<open>x_rpcbuf_reserve\<close> returned.\<close>

definition rb_store :: "nat \<Rightarrow> byte list \<Rightarrow> x_rpcbuf \<Rightarrow> x_rpcbuf" where
  "rb_store pos bs b = b\<lparr>rb_buffer := map_option (poke pos bs) (rb_buffer b)\<rparr>"

definition x_rpcbuf_reserve0 :: "heap_env \<Rightarrow> x_rpcbuf \<Rightarrow> nat \<Rightarrow> nat option \<times> x_rpcbuf" where
  "x_rpcbuf_reserve0 h b needed =
     (case x_rpcbuf_reserve h b needed of
        (None, b') \<Rightarrow> (None, b')
      | (Some pos, b') \<Rightarrow> (Some pos, rb_store pos (replicate needed 0) b'))"

text \<open>Reserve as many bytes as the value takes, then copy it there.\<close>

definition rb_write :: "heap_env \<Rightarrow> x_rpcbuf \<Rightarrow> byte list \<Rightarrow> bool \<times> x_rpcbuf" where
  "rb_write h b bs =
     (case x_rpcbuf_reserve h b (size_t (length bs)) of
        (None, b') \<Rightarrow> (False, b')
      | (Some pos, b') \<Rightarrow> (True, rb_store pos bs b'))"

definition x_rpcbuf_write_bin_pad :: "heap_env \<Rightarrow> x_rpcbuf \<Rightarrow> byte list \<Rightarrow> bool \<times> x_rpcbuf" where
  "x_rpcbuf_write_bin_pad h b val =
     (let len = length val;
          blen = unat (scast (pad_to_int32 (word_of_nat len)) :: u64)
      in case x_rpcbuf_reserve h b blen of
           (None, b') \<Rightarrow> (False, b')
         | (Some pos, b') \<Rightarrow>
             (True, rb_store (pos + len) (replicate (blen - len) 0) (rb_store pos val b')))"

definition x_rpcbuf_write_string_pad ::
    "heap_env \<Rightarrow> x_rpcbuf \<Rightarrow> byte list option \<Rightarrow> bool \<times> x_rpcbuf" where
  "x_rpcbuf_write_string_pad h b str =
     (case str of None \<Rightarrow> (True, b) | Some s \<Rightarrow> x_rpcbuf_write_bin_pad h b s)"

definition x_rpcbuf_write_CARD8 :: "heap_env \<Rightarrow> x_rpcbuf \<Rightarrow> byte \<Rightarrow> bool \<times> x_rpcbuf" where
  "x_rpcbuf_write_CARD8 h b value = rb_write h b [value]"

definition x_rpcbuf_write_CARD16 :: "heap_env \<Rightarrow> x_rpcbuf \<Rightarrow> u16 \<Rightarrow> bool \<times> x_rpcbuf" where
  "x_rpcbuf_write_CARD16 h b value =
     rb_write h b (le_bytes 2 (if rb_swapped b then bswap_16 value else value))"

definition x_rpcbuf_write_CARD32 :: "heap_env \<Rightarrow> x_rpcbuf \<Rightarrow> u32 \<Rightarrow> bool \<times> x_rpcbuf" where
  "x_rpcbuf_write_CARD32 h b value =
     rb_write h b (le_bytes 4 (if rb_swapped b then bswap_32 value else value))"

definition x_rpcbuf_write_CARD64 :: "heap_env \<Rightarrow> x_rpcbuf \<Rightarrow> u64 \<Rightarrow> bool \<times> x_rpcbuf" where
  "x_rpcbuf_write_CARD64 h b value =
     rb_write h b (le_bytes 8 (if rb_swapped b then bswap_64 value else value))"

definition x_rpcbuf_write_string_0t_pad ::
    "heap_env \<Rightarrow> x_rpcbuf \<Rightarrow> byte list option \<Rightarrow> bool \<times> x_rpcbuf" where
  "x_rpcbuf_write_string_0t_pad h b str =
     (case str of None \<Rightarrow> x_rpcbuf_write_CARD32 h b 0
      | Some s \<Rightarrow> x_rpcbuf_write_bin_pad h b (s @ [0]))"

text \<open>
  The array writers take a pointer, which may be NULL, and a count: here an optional list,
  whose length is the count.
\<close>

definition x_rpcbuf_write_CARD8s ::
    "heap_env \<Rightarrow> x_rpcbuf \<Rightarrow> byte list option \<Rightarrow> bool \<times> x_rpcbuf" where
  "x_rpcbuf_write_CARD8s h b values =
     (case values of None \<Rightarrow> (True, b)
      | Some vs \<Rightarrow> if vs = [] then (True, b) else rb_write h b vs)"

definition x_rpcbuf_write_CARD16s ::
    "heap_env \<Rightarrow> x_rpcbuf \<Rightarrow> u16 list option \<Rightarrow> bool \<times> x_rpcbuf" where
  "x_rpcbuf_write_CARD16s h b values =
     (case values of None \<Rightarrow> (True, b)
      | Some vs \<Rightarrow> if vs = [] then (True, b)
          else rb_write h b (concat (map (le_bytes 2) (if rb_swapped b then SwapShorts vs else vs))))"

definition x_rpcbuf_write_CARD32s ::
    "heap_env \<Rightarrow> x_rpcbuf \<Rightarrow> u32 list option \<Rightarrow> bool \<times> x_rpcbuf" where
  "x_rpcbuf_write_CARD32s h b values =
     (case values of None \<Rightarrow> (True, b)
      | Some vs \<Rightarrow> if vs = [] then (True, b)
          else rb_write h b (concat (map (le_bytes 4) (if rb_swapped b then SwapLongs vs else vs))))"

definition x_rpcbuf_write_CARD64s ::
    "heap_env \<Rightarrow> x_rpcbuf \<Rightarrow> u64 list option \<Rightarrow> bool \<times> x_rpcbuf" where
  "x_rpcbuf_write_CARD64s h b values =
     (case values of None \<Rightarrow> (True, b)
      | Some vs \<Rightarrow> if vs = [] then (True, b)
          else rb_write h b (concat (map (le_bytes 8) (if rb_swapped b then map bswap_64 vs else vs))))"

definition x_rpcbuf_write_binary_pad ::
    "heap_env \<Rightarrow> x_rpcbuf \<Rightarrow> byte list option \<Rightarrow> bool \<times> x_rpcbuf" where
  "x_rpcbuf_write_binary_pad h b values =
     (case values of None \<Rightarrow> (True, b)
      | Some vs \<Rightarrow> if vs = [] then (True, b) else x_rpcbuf_write_bin_pad h b vs)"

text \<open>
  The composite writers of \<^verbatim>\<open>dix/rpcbuf_priv.h\<close>. They return nothing; a 16-bit signed
  coordinate is its two's complement word. \<open>None\<close> for the source buffer is the NULL pointer.
\<close>

definition x_rpcbuf_pad :: "heap_env \<Rightarrow> x_rpcbuf \<Rightarrow> x_rpcbuf" where
  "x_rpcbuf_pad h b =
     snd (x_rpcbuf_reserve0 h b (size_t (size_t (rb_wpos b + 3) div 4 * 4 + (2 ^ 64 - rb_wpos b))))"

definition x_rpcbuf_write_counted_string_pad ::
    "heap_env \<Rightarrow> x_rpcbuf \<Rightarrow> byte list option \<Rightarrow> x_rpcbuf" where
  "x_rpcbuf_write_counted_string_pad h b str =
     (let len = (case str of None \<Rightarrow> 0 | Some s \<Rightarrow> (word_of_nat (length s) :: u16));
          b1 = snd (x_rpcbuf_write_CARD16 h b len);
          b2 = (if len \<noteq> 0
                then snd (x_rpcbuf_write_CARD8s h b1 (map_option (take (unat len)) str)) else b1)
      in x_rpcbuf_pad h b2)"

definition x_rpcbuf_write_rpcbuf_pad ::
    "heap_env \<Rightarrow> x_rpcbuf \<Rightarrow> x_rpcbuf option \<Rightarrow> x_rpcbuf \<times> x_rpcbuf option" where
  "x_rpcbuf_write_rpcbuf_pad h b source =
     (case source of
        None \<Rightarrow> (b, None)
      | Some src \<Rightarrow>
          (if rb_error src
           then (if rb_err_clear b then b\<lparr>rb_error := True, rb_buffer := None\<rparr>
                 else b\<lparr>rb_error := True\<rparr>)
           else snd (x_rpcbuf_write_binary_pad h b
                  (map_option (take (rb_wpos src)) (rb_buffer src))),
           Some (x_rpcbuf_clear src)))"

definition x_rpcbuf_write_rect ::
    "heap_env \<Rightarrow> x_rpcbuf \<Rightarrow> u16 \<Rightarrow> u16 \<Rightarrow> u16 \<Rightarrow> u16 \<Rightarrow> x_rpcbuf" where
  "x_rpcbuf_write_rect h b x y width height =
     (let b1 = snd (x_rpcbuf_write_CARD16 h b x);
          b2 = snd (x_rpcbuf_write_CARD16 h b1 y);
          b3 = snd (x_rpcbuf_write_CARD16 h b2 width)
      in snd (x_rpcbuf_write_CARD16 h b3 height))"

section \<open>Sending a reply\<close>

text \<open>
  A reply header is the bytes of its struct: type at offset 0, sequence number at 2, length at
  4. The calls of \<open>dixWriteToClient\<close> are returned in order, each with its count, which the
  code casts to \<open>int\<close>, and the memory its pointer points to.
\<close>

definition x_rpcbuf_wsize_units :: "x_rpcbuf \<Rightarrow> u32" where
  "x_rpcbuf_wsize_units b = word_of_nat (size_t (rb_wpos b + 3) div 4)"

definition sizeof_xGenericReply :: nat where
  "sizeof_xGenericReply = 32"

definition reply_header :: "bool \<Rightarrow> u32 \<Rightarrow> u32 \<Rightarrow> byte list \<Rightarrow> byte list" where
  "reply_header swapped sequence len hdr =
     (let seq = (ucast sequence :: u16)
      in poke 4 (le_bytes 4 (if swapped then bswap_32 len else len))
           (poke 2 (le_bytes 2 (if swapped then bswap_16 seq else seq))
             (poke 0 [1] hdr)))"

definition int_of_size :: "nat \<Rightarrow> int" where
  "int_of_size n = sint (word_of_nat n :: u32)"

definition WriteRpcbufToClient :: "x_rpcbuf \<Rightarrow> (int \<times> byte list) \<times> x_rpcbuf" where
  "WriteRpcbufToClient b = ((int_of_size (rb_wpos b), rb_bytes b), x_rpcbuf_clear b)"

definition write_reply_hdr_and_rpcbuf ::
    "bool \<Rightarrow> u32 \<Rightarrow> byte list \<Rightarrow> x_rpcbuf \<Rightarrow> x_status \<times> (int \<times> byte list) list \<times> x_rpcbuf" where
  "write_reply_hdr_and_rpcbuf swapped sequence hdr b =
     (if rb_error b then (BadAlloc, [], b)
      else
        let len = bytes_to_int32 (word_of_nat (length hdr) - word_of_nat sizeof_xGenericReply)
                    + x_rpcbuf_wsize_units b;
            (payload, b') = WriteRpcbufToClient b
        in (Success, [(int_of_size (length hdr), reply_header swapped sequence len hdr), payload], b'))"

definition write_reply_hdr_simple ::
    "bool \<Rightarrow> u32 \<Rightarrow> byte list \<Rightarrow> x_status \<times> (int \<times> byte list) list" where
  "write_reply_hdr_simple swapped sequence hdr =
     (let len = bytes_to_int32 (word_of_nat (length hdr) - word_of_nat sizeof_xGenericReply)
      in (Success, [(int_of_size (length hdr), reply_header swapped sequence len hdr)]))"

section \<open>The buffer invariant\<close>

definition rb_inv :: "x_rpcbuf \<Rightarrow> bool" where
  "rb_inv b \<longleftrightarrow> rb_error b \<or> (rb_size b = length (rb_bytes b) \<and> rb_wpos b \<le> rb_size b \<and> rb_size b < 2 ^ 63)"

definition rb_contents :: "x_rpcbuf \<Rightarrow> byte list" where
  "rb_contents b = take (rb_wpos b) (rb_bytes b)"

text \<open>No allocation is larger than a pointer difference can be: \<open>realloc\<close> refuses.\<close>

definition malloc_limit :: "heap_env \<Rightarrow> bool" where
  "malloc_limit h \<longleftrightarrow> (\<forall>n. realloc_ok h n \<longrightarrow> n < 2 ^ 63)"

lemma size_t_id [simp]: "n < 2 ^ 64 \<Longrightarrow> size_t n = n"
  by (simp add: size_t_def)

lemma rb_inv_zero [x_inv]: "rb_inv x_rpcbuf_zero"
  by (simp add: rb_inv_def x_rpcbuf_zero_def rb_bytes_def)

lemma rb_contents_zero [simp]: "rb_contents x_rpcbuf_zero = []"
  by (simp add: rb_contents_def x_rpcbuf_zero_def rb_bytes_def)

text \<open>
  What makeroom guarantees: on success the data is untouched and there is strictly more room
  than asked for; on failure the error flag is set.
\<close>

lemma makeroom_sizes:
  assumes "rb_inv b" "\<not> rb_error b" "n < 2 ^ 62"
  shows "size_t (rb_wpos b + n) = rb_wpos b + n"
    "size_t (((rb_wpos b + n) div XLIBRE_RPCBUF_CHUNK_SIZE + 1) * XLIBRE_RPCBUF_CHUNK_SIZE) =
       ((rb_wpos b + n) div XLIBRE_RPCBUF_CHUNK_SIZE + 1) * XLIBRE_RPCBUF_CHUNK_SIZE"
proof -
  have w: "rb_wpos b + n < 2 ^ 63 + 2 ^ 62" using assms by (auto simp: rb_inv_def)
  then show "size_t (rb_wpos b + n) = rb_wpos b + n" by (intro size_t_id) simp
  have "(rb_wpos b + n) div 4096 * 4096 \<le> rb_wpos b + n" by (rule div_times_less_eq_dividend)
  then have "((rb_wpos b + n) div 4096 + 1) * 4096 < 2 ^ 64" using w by simp
  then show "size_t (((rb_wpos b + n) div XLIBRE_RPCBUF_CHUNK_SIZE + 1) * XLIBRE_RPCBUF_CHUNK_SIZE) =
       ((rb_wpos b + n) div XLIBRE_RPCBUF_CHUNK_SIZE + 1) * XLIBRE_RPCBUF_CHUNK_SIZE"
    unfolding XLIBRE_RPCBUF_CHUNK_SIZE_def by (rule size_t_id)
qed

lemma makeroom_success:
  assumes "rb_inv b" and "malloc_limit h" and "n < 2 ^ 62" and "x_rpcbuf_makeroom h b n = (True, b')"
  shows "rb_wpos b + n < rb_size b' \<and> rb_size b' = length (rb_bytes b') \<and> rb_size b' < 2 ^ 63 \<and>
    rb_contents b' = rb_contents b \<and> rb_wpos b' = rb_wpos b \<and> \<not> rb_error b' \<and> \<not> rb_error b \<and>
    rb_swapped b' = rb_swapped b \<and> rb_err_clear b' = rb_err_clear b \<and> rb_buffer b' \<noteq> None"
proof -
  define m where "m = ((rb_wpos b + n) div XLIBRE_RPCBUF_CHUNK_SIZE + 1) * XLIBRE_RPCBUF_CHUNK_SIZE"
  have m: "rb_wpos b + n < m"
    by (simp add: m_def XLIBRE_RPCBUF_CHUNK_SIZE_def dividend_less_div_times)
  from assms(4) have err: "\<not> rb_error b"
    by (auto simp: x_rpcbuf_makeroom_def)
  with assms(1) have inv: "rb_size b = length (rb_bytes b)" "rb_wpos b \<le> length (rb_bytes b)" "rb_size b < 2 ^ 63"
    by (simp_all add: rb_inv_def)
  note sz = makeroom_sizes [OF assms(1) err assms(3), folded m_def]
  note mk = assms(4) [unfolded x_rpcbuf_makeroom_def sz(1) m_def [symmetric] sz(2) Let_def]
  show ?thesis
  proof (cases "rb_wpos b + n < rb_size b")
    case True
    with mk err have "b' = b" by simp
    moreover have "rb_buffer b \<noteq> None"
      using True inv by (cases "rb_buffer b") (simp_all add: rb_bytes_def)
    ultimately show ?thesis
      using True inv err by simp
  next
    case False
    with mk err have b': "b' = b\<lparr>rb_buffer := Some (take m (rb_bytes b)
                            @ map (heap_junk h) [length (rb_bytes b)..<m]), rb_size := m\<rparr>" "realloc_ok h m"
      by (auto split: if_splits)
    have m63: "m < 2 ^ 63" using b'(2) assms(2) by (simp add: malloc_limit_def)
    have bytes: "rb_bytes b' = take m (rb_bytes b) @ map (heap_junk h) [length (rb_bytes b)..<m]"
      by (simp add: b' rb_bytes_def)
    have "length (rb_bytes b) \<le> m" using False inv m by linarith
    then have "length (rb_bytes b') = m" "take (rb_wpos b) (rb_bytes b') = take (rb_wpos b) (rb_bytes b)"
      using inv by (simp_all add: bytes)
    with m m63 err show ?thesis
      unfolding rb_contents_def by (simp add: b')
  qed
qed

lemma makeroom_failure:
  assumes "x_rpcbuf_makeroom h b n = (False, b')"
  shows "rb_error b'" and "rb_swapped b' = rb_swapped b"
  using assms by (auto simp: x_rpcbuf_makeroom_def Let_def split: if_splits)

lemma reserve_success:
  assumes "rb_inv b" and "malloc_limit h" and "n < 2 ^ 62" and "x_rpcbuf_reserve h b n = (Some pos, b')"
  shows "pos = rb_wpos b \<and> rb_wpos b' = rb_wpos b + n \<and> rb_wpos b' < rb_size b' \<and>
    rb_size b' = length (rb_bytes b') \<and> rb_size b' < 2 ^ 63 \<and> take (rb_wpos b) (rb_bytes b') = rb_contents b \<and>
    \<not> rb_error b' \<and> \<not> rb_error b \<and> rb_swapped b' = rb_swapped b \<and>
    rb_err_clear b' = rb_err_clear b \<and> rb_buffer b' \<noteq> None"
proof -
  obtain ok b1 where mk: "x_rpcbuf_makeroom h b n = (ok, b1)" by fastforce
  with assms(4) have ok: "ok" and b': "b' = b1\<lparr>rb_wpos := size_t (rb_wpos b1 + n)\<rparr>" and pos: "pos = rb_wpos b1"
    by (auto simp: x_rpcbuf_reserve_def split: bool.splits)
  have "rb_bytes b' = rb_bytes b1" by (simp add: b' rb_bytes_def)
  moreover have "size_t (rb_wpos b + n) = rb_wpos b + n"
    using makeroom_sizes(1) [OF assms(1) _ assms(3)] mk ok by (cases "rb_error b") (auto simp: x_rpcbuf_makeroom_def)
  ultimately show ?thesis using makeroom_success [OF assms(1-3), of b1] mk ok
    by (auto simp: b' pos rb_contents_def)
qed

lemma reserve_failure:
  assumes "x_rpcbuf_reserve h b n = (None, b')"
  shows "rb_error b'" and "rb_swapped b' = rb_swapped b"
  using assms makeroom_failure [of h b n]
  by (auto simp: x_rpcbuf_reserve_def split: prod.splits bool.splits)

lemma rb_bytes_store:
  "rb_bytes (rb_store pos bs b) = (if rb_buffer b = None then [] else poke pos bs (rb_bytes b))"
  by (auto simp: rb_store_def rb_bytes_def)

lemma rb_store_frame [simp]:
  "rb_wpos (rb_store pos bs b) = rb_wpos b" "rb_size (rb_store pos bs b) = rb_size b"
  "rb_error (rb_store pos bs b) = rb_error b" "rb_swapped (rb_store pos bs b) = rb_swapped b"
  "rb_err_clear (rb_store pos bs b) = rb_err_clear b"
  "rb_buffer (rb_store pos bs b) = None \<longleftrightarrow> rb_buffer b = None"
  by (simp_all add: rb_store_def)

lemma rb_store_store:
  assumes "pos + length bs + length cs \<le> length (rb_bytes b)"
  shows "rb_store (pos + length bs) cs (rb_store pos bs b) = rb_store pos (bs @ cs) b"
  using assms by (auto simp: rb_store_def rb_bytes_def poke_poke_adjacent split: option.splits)

text \<open>The common shape of the writers: what a successful write of given bytes does.\<close>

definition appends :: "x_rpcbuf \<Rightarrow> byte list \<Rightarrow> x_rpcbuf \<Rightarrow> bool" where
  "appends b bs b' \<longleftrightarrow> rb_inv b' \<and> \<not> rb_error b' \<and> rb_contents b' = rb_contents b @ bs \<and>
     rb_swapped b' = rb_swapped b \<and> rb_err_clear b' = rb_err_clear b"

lemma appends_refl: "rb_inv b \<Longrightarrow> \<not> rb_error b \<Longrightarrow> appends b [] b"
  by (simp add: appends_def)

lemma appends_trans: "appends a bs b \<Longrightarrow> appends b cs c \<Longrightarrow> appends a (bs @ cs) c"
  by (simp add: appends_def)

lemma reserve_store_appends:
  assumes "rb_inv b" and "malloc_limit h" and "length bs < 2 ^ 62" and "x_rpcbuf_reserve h b (length bs) = (Some pos, b')"
  shows "appends b bs (rb_store pos bs b')"
proof -
  note r = reserve_success [OF assms]
  from r have "poke pos bs (rb_bytes b') = rb_contents b @ bs @ drop (rb_wpos b + length bs) (rb_bytes b')"
    by (simp add: poke_def)
  moreover have "length (rb_contents b) = rb_wpos b"
    using assms(1) r by (auto simp: rb_contents_def rb_inv_def)
  ultimately have "rb_contents (rb_store pos bs b') = rb_contents b @ bs"
    using r unfolding rb_contents_def [of "rb_store pos bs b'"] by (auto simp: rb_bytes_store)
  with r show ?thesis
    by (auto simp: appends_def rb_inv_def rb_bytes_store)
qed

lemma rb_write_appends:
  assumes "rb_write h b bs = (True, b')" and "rb_inv b" and "malloc_limit h" and "length bs < 2 ^ 62"
  shows "appends b bs b'"
  using assms(1) reserve_store_appends [OF assms(2-4)] assms(4)
  by (auto simp: rb_write_def split: prod.splits option.splits)

lemma rb_write_failure:
  assumes "rb_write h b bs = (False, b')"
  shows "rb_error b'"
  using assms reserve_failure by (auto simp: rb_write_def split: prod.splits option.splits)

lemma rb_write_sticky: "rb_error b \<Longrightarrow> rb_write h b bs = (False, b)"
  by (simp add: rb_write_def x_rpcbuf_reserve_def x_rpcbuf_makeroom_def)

text \<open>
  Writing a padded block: the data, then zeros up to the next multiple of four. The C code
  passes the length through \<open>int\<close>, so it must stay below \<open>2 ^ 31 - 3\<close>.
\<close>

definition pad_zeros :: "nat \<Rightarrow> byte list" where
  "pad_zeros n = replicate ((n + 3) div 4 * 4 - n) 0"

lemma blen_nat:
  assumes "n + 3 < 2 ^ 31"
  shows "unat (scast (pad_to_int32 (word_of_nat n)) :: u64) = (n + 3) div 4 * 4"
proof -
  have n: "unat (word_of_nat n :: u32) = n"
    using assms by (simp add: unat_of_nat)
  then have u: "unat (pad_to_int32 (word_of_nat n)) = (n + 3) div 4 * 4"
    using assms by (subst pad_to_int32_nat) simp_all
  then have "uint (pad_to_int32 (word_of_nat n)) = int ((n + 3) div 4 * 4)"
    by (metis uint_nat)
  then have "sint (pad_to_int32 (word_of_nat n)) = int ((n + 3) div 4 * 4)"
    using assms by (simp add: sint_uint signed_take_bit_int_eq_self)
  then have "(scast (pad_to_int32 (word_of_nat n)) :: u64) = word_of_nat ((n + 3) div 4 * 4)"
    by (metis of_int_of_nat_eq scast_eq)
  moreover have "(n + 3) div 4 * 4 \<le> n + 3" by (rule div_times_less_eq_dividend)
  with assms have "unat (word_of_nat ((n + 3) div 4 * 4) :: u64) = (n + 3) div 4 * 4"
    unfolding unat_of_nat by (intro mod_less) simp
  ultimately show ?thesis by (simp only:)
qed

lemma bin_pad_appends:
  assumes "rb_inv b" and "malloc_limit h" and "x_rpcbuf_write_bin_pad h b val = (True, b')"
    and "length val + 3 < 2 ^ 31"
  shows "appends b (val @ pad_zeros (length val)) b'"
proof -
  let ?z = "pad_zeros (length val)"
  have len: "length (val @ ?z) = (length val + 3) div 4 * 4"
    by (simp add: pad_zeros_def)
  have small: "length (val @ ?z) < 2 ^ 62"
    unfolding len using div_times_less_eq_dividend [of "length val + 3" 4] assms(4) by simp
  obtain p b1 where r: "x_rpcbuf_reserve h b (length (val @ ?z)) = (p, b1)" by fastforce
  with assms(3) obtain pos where p: "p = Some pos"
      and b': "b' = rb_store (pos + length val) ?z (rb_store pos val b1)"
    unfolding x_rpcbuf_write_bin_pad_def Let_def blen_nat [OF assms(4)] len
    by (auto simp: pad_zeros_def split: option.splits)
  note res = reserve_success [OF assms(1,2) small r [unfolded p]]
  have "b' = rb_store pos (val @ ?z) b1"
    unfolding b' using res by (subst rb_store_store) auto
  with reserve_store_appends [OF assms(1,2) small r [unfolded p]] show ?thesis by simp
qed

lemma bin_pad_failure:
  assumes "x_rpcbuf_write_bin_pad h b val = (False, b')"
  shows "rb_error b'"
  using assms reserve_failure
  by (auto simp: x_rpcbuf_write_bin_pad_def Let_def split: prod.splits option.splits)

lemma bin_pad_sticky: "rb_error b \<Longrightarrow> x_rpcbuf_write_bin_pad h b val = (False, b)"
  by (simp add: x_rpcbuf_write_bin_pad_def Let_def x_rpcbuf_reserve_def x_rpcbuf_makeroom_def)

section \<open>The contract of a write operation\<close>

text \<open>
  \<open>enc swapped v\<close> is what the client is to receive for \<open>v\<close>; \<open>fits v\<close> bounds the value's size.
  Allocations are limited as \<open>malloc_limit\<close> says.
  A write that reports success has appended exactly that; a write that reports failure has set
  the error flag; once set, the flag stays.
\<close>

locale rpc_writer =
  fixes wr :: "heap_env \<Rightarrow> x_rpcbuf \<Rightarrow> 'a \<Rightarrow> bool \<times> x_rpcbuf"
    and enc :: "bool \<Rightarrow> 'a \<Rightarrow> byte list"
    and fits :: "'a \<Rightarrow> bool"
  assumes wr_appends: "malloc_limit h \<Longrightarrow> rb_inv b \<Longrightarrow> \<not> rb_error b \<Longrightarrow> fits v \<Longrightarrow> wr h b v = (True, b') \<Longrightarrow>
      appends b (enc (rb_swapped b) v) b'"
    and wr_failure: "wr h b v = (False, b') \<Longrightarrow> rb_error b'"
    and wr_sticky: "rb_error b \<Longrightarrow> rb_error (snd (wr h b v))"
begin

lemma run_sticky: "rb_error b \<Longrightarrow> rb_error (fold (\<lambda>v b. snd (wr h b v)) vs b)"
  by (induction vs arbitrary: b) (simp_all add: wr_sticky)

text \<open>
  The pattern of the request handlers: a loop of writes whose return codes are ignored, then one
  test of the error flag.
\<close>

lemma run_appends:
  assumes "malloc_limit h" and "rb_inv b" and "\<forall>v \<in> set vs. fits v"
    and "\<not> rb_error (fold (\<lambda>v b. snd (wr h b v)) vs b)"
  shows "appends b (concat (map (enc (rb_swapped b)) vs)) (fold (\<lambda>v b. snd (wr h b v)) vs b)"
  using assms
proof (induction vs arbitrary: b)
  case Nil
  then show ?case by (simp add: appends_refl)
next
  case (Cons v vs)
  obtain ok b1 where w: "wr h b v = (ok, b1)" by fastforce
  have noerr: "\<not> rb_error b" "\<not> rb_error b1"
    using Cons.prems(4) run_sticky [of b1 h vs] wr_sticky [of b h v] w run_sticky [of "snd (wr h b v)" h vs]
    by auto
  with w wr_failure have "ok" by (cases ok) auto
  with Cons.prems(1-3) noerr w have step: "appends b (enc (rb_swapped b) v) b1"
    by (auto intro: wr_appends)
  then have "rb_inv b1" "rb_swapped b1 = rb_swapped b"
    by (simp_all add: appends_def)
  with Cons.IH [of b1] Cons.prems(1,3,4) w
  have "appends b1 (concat (map (enc (rb_swapped b)) vs)) (fold (\<lambda>v b. snd (wr h b v)) vs b1)"
    by simp
  with step appends_trans show ?case by (fastforce simp: w)
qed

end

text \<open>Every write operation of the file provides the contract.\<close>

definition enc8 :: "bool \<Rightarrow> byte \<Rightarrow> byte list" where
  "enc8 sw v = [v]"

definition enc16 :: "bool \<Rightarrow> u16 \<Rightarrow> byte list" where
  "enc16 sw v = (if sw then rev (le_bytes 2 v) else le_bytes 2 v)"

definition enc32 :: "bool \<Rightarrow> u32 \<Rightarrow> byte list" where
  "enc32 sw v = (if sw then rev (le_bytes 4 v) else le_bytes 4 v)"

definition enc64 :: "bool \<Rightarrow> u64 \<Rightarrow> byte list" where
  "enc64 sw v = (if sw then rev (le_bytes 8 v) else le_bytes 8 v)"

definition enc_array :: "(bool \<Rightarrow> 'a \<Rightarrow> byte list) \<Rightarrow> bool \<Rightarrow> 'a list option \<Rightarrow> byte list" where
  "enc_array e sw vs = (case vs of None \<Rightarrow> [] | Some xs \<Rightarrow> concat (map (e sw) xs))"

definition enc_padded :: "bool \<Rightarrow> byte list option \<Rightarrow> byte list" where
  "enc_padded sw vs = (case vs of None \<Rightarrow> [] | Some xs \<Rightarrow> xs @ pad_zeros (length xs))"

definition enc_string_0t :: "bool \<Rightarrow> byte list option \<Rightarrow> byte list" where
  "enc_string_0t sw str =
     (case str of None \<Rightarrow> replicate 4 0 | Some s \<Rightarrow> (s @ [0]) @ pad_zeros (length s + 1))"

definition fits_padded :: "byte list option \<Rightarrow> bool" where
  "fits_padded vs = (case vs of None \<Rightarrow> True | Some xs \<Rightarrow> length xs + 4 < 2 ^ 31)"

definition fits_array :: "nat \<Rightarrow> 'a list option \<Rightarrow> bool" where
  "fits_array k vs = (case vs of None \<Rightarrow> True | Some xs \<Rightarrow> k * length xs < 2 ^ 62)"

lemma length_enc:
  "length (enc8 sw v) = 1" "length (enc16 sw w) = 2" "length (enc32 sw x) = 4" "length (enc64 sw y) = 8"
  by (simp_all add: enc8_def enc16_def enc32_def enc64_def)

lemma length_enc_array:
  "length (concat (map (enc8 sw) us)) = length us" "length (concat (map (enc16 sw) vs)) = 2 * length vs"
  "length (concat (map (enc32 sw) ws)) = 4 * length ws" "length (concat (map (enc64 sw) xs)) = 8 * length xs"
  by (simp_all add: length_concat comp_def length_enc sum_list_triv)

lemmas rb_write_facts = rb_write_appends rb_write_failure

lemma concat_enc8: "concat (map (enc8 sw) vs) = vs"
  by (induction vs) (simp_all add: enc8_def)

lemma swap_bytes_eq:
  "le_bytes 2 (if sw then bswap_16 v else v) = enc16 sw v"
  "le_bytes 4 (if sw then bswap_32 w else w) = enc32 sw w"
  "le_bytes 8 (if sw then bswap_64 x else x) = enc64 sw x"
  by (simp_all add: enc16_def enc32_def enc64_def bswap_16_bytes bswap_32_bytes bswap_64_bytes)

lemma swap_array_eq:
  "concat (map (le_bytes 2) (if sw then SwapShorts vs else vs)) = concat (map (enc16 sw) vs)"
  "concat (map (le_bytes 4) (if sw then SwapLongs ws else ws)) = concat (map (enc32 sw) ws)"
  "concat (map (le_bytes 8) (if sw then map bswap_64 xs else xs)) = concat (map (enc64 sw) xs)"
  by (cases sw; simp add: enc16_def [abs_def] enc32_def [abs_def] enc64_def [abs_def]
        SwapShorts_map SwapLongs_map bswap_16_bytes bswap_32_bytes bswap_64_bytes comp_def)+

interpretation card8: rpc_writer x_rpcbuf_write_CARD8 enc8 "\<lambda>_. True"
  by unfold_locales (auto simp: x_rpcbuf_write_CARD8_def enc8_def rb_write_sticky intro!: rb_write_appends dest: rb_write_failure)

interpretation card16: rpc_writer x_rpcbuf_write_CARD16 enc16 "\<lambda>_. True"
  by unfold_locales (auto simp: x_rpcbuf_write_CARD16_def swap_bytes_eq length_enc rb_write_sticky intro!: rb_write_appends dest: rb_write_failure)

interpretation card32: rpc_writer x_rpcbuf_write_CARD32 enc32 "\<lambda>_. True"
  by unfold_locales (auto simp: x_rpcbuf_write_CARD32_def swap_bytes_eq length_enc rb_write_sticky intro!: rb_write_appends dest: rb_write_failure)

interpretation card64: rpc_writer x_rpcbuf_write_CARD64 enc64 "\<lambda>_. True"
  by unfold_locales (auto simp: x_rpcbuf_write_CARD64_def swap_bytes_eq length_enc rb_write_sticky intro!: rb_write_appends dest: rb_write_failure)

interpretation card8s: rpc_writer x_rpcbuf_write_CARD8s "enc_array enc8" "fits_array 1"
  by unfold_locales
    (auto simp: x_rpcbuf_write_CARD8s_def enc_array_def fits_array_def concat_enc8 appends_refl rb_write_sticky
      split: option.splits if_splits intro!: rb_write_appends dest: rb_write_failure)

interpretation card16s: rpc_writer x_rpcbuf_write_CARD16s "enc_array enc16" "fits_array 2"
  by unfold_locales
    (auto simp: x_rpcbuf_write_CARD16s_def enc_array_def fits_array_def length_enc_array swap_array_eq appends_refl rb_write_sticky
      split: option.splits if_splits intro!: rb_write_appends dest: rb_write_failure)

interpretation card32s: rpc_writer x_rpcbuf_write_CARD32s "enc_array enc32" "fits_array 4"
  by unfold_locales
    (auto simp: x_rpcbuf_write_CARD32s_def enc_array_def fits_array_def length_enc_array swap_array_eq appends_refl rb_write_sticky
      split: option.splits if_splits intro!: rb_write_appends dest: rb_write_failure)

interpretation card64s: rpc_writer x_rpcbuf_write_CARD64s "enc_array enc64" "fits_array 8"
  by unfold_locales
    (auto simp: x_rpcbuf_write_CARD64s_def enc_array_def fits_array_def length_enc_array swap_array_eq appends_refl rb_write_sticky
      split: option.splits if_splits intro!: rb_write_appends dest: rb_write_failure)

interpretation binary_pad: rpc_writer x_rpcbuf_write_binary_pad enc_padded fits_padded
  by unfold_locales
    (auto simp: x_rpcbuf_write_binary_pad_def enc_padded_def fits_padded_def appends_refl
      pad_zeros_def [of 0] bin_pad_sticky
      split: option.splits if_splits dest: bin_pad_appends bin_pad_failure)

interpretation string_pad: rpc_writer x_rpcbuf_write_string_pad enc_padded fits_padded
  by unfold_locales
    (auto simp: x_rpcbuf_write_string_pad_def enc_padded_def fits_padded_def appends_refl
      bin_pad_sticky
      split: option.splits dest: bin_pad_appends bin_pad_failure)

lemma enc32_zero: "enc32 sw 0 = replicate 4 0"
  by (simp add: enc32_def le_bytes_def numeral_eq_Suc)

interpretation string_0t_pad: rpc_writer x_rpcbuf_write_string_0t_pad enc_string_0t fits_padded
proof unfold_locales
  fix b b' :: x_rpcbuf and v h
  assume "malloc_limit h" "rb_inv b" "\<not> rb_error b" "fits_padded v" "x_rpcbuf_write_string_0t_pad h b v = (True, b')"
  then show "appends b (enc_string_0t (rb_swapped b) v) b'"
    using card32.wr_appends [where v = 0 and b = b and b' = b' and h = h] bin_pad_appends [of b h "the v @ [0]" b']
    by (auto simp: x_rpcbuf_write_string_0t_pad_def enc_string_0t_def fits_padded_def enc32_zero
          split: option.splits)
next
  fix b b' :: x_rpcbuf and h v
  assume "x_rpcbuf_write_string_0t_pad h b v = (False, b')"
  then show "rb_error b'"
    by (auto simp: x_rpcbuf_write_string_0t_pad_def split: option.splits
          dest: card32.wr_failure bin_pad_failure)
next
  fix b :: x_rpcbuf and h v
  assume "rb_error b"
  then show "rb_error (snd (x_rpcbuf_write_string_0t_pad h b v))"
    by (auto simp: x_rpcbuf_write_string_0t_pad_def card32.wr_sticky bin_pad_sticky split: option.splits)
qed

section \<open>A handler's whole reply\<close>

text \<open>
  A reply body as the handlers build it: any sequence of the write operations. \<open>rpc_run_op\<close>
  performs one, \<open>rpc_enc\<close> is what the client is to receive for it.
\<close>

datatype rpc_op =
    Card8 byte | Card16 u16 | Card32 u32 | Card64 u64
  | Card8s "byte list option" | Card16s "u16 list option"
  | Card32s "u32 list option" | Card64s "u64 list option"
  | BinaryPad "byte list option" | StringPad "byte list option" | String0tPad "byte list option"

fun rpc_run_op :: "heap_env \<Rightarrow> x_rpcbuf \<Rightarrow> rpc_op \<Rightarrow> bool \<times> x_rpcbuf" where
  "rpc_run_op h b (Card8 v) = x_rpcbuf_write_CARD8 h b v"
| "rpc_run_op h b (Card16 v) = x_rpcbuf_write_CARD16 h b v"
| "rpc_run_op h b (Card32 v) = x_rpcbuf_write_CARD32 h b v"
| "rpc_run_op h b (Card64 v) = x_rpcbuf_write_CARD64 h b v"
| "rpc_run_op h b (Card8s v) = x_rpcbuf_write_CARD8s h b v"
| "rpc_run_op h b (Card16s v) = x_rpcbuf_write_CARD16s h b v"
| "rpc_run_op h b (Card32s v) = x_rpcbuf_write_CARD32s h b v"
| "rpc_run_op h b (Card64s v) = x_rpcbuf_write_CARD64s h b v"
| "rpc_run_op h b (BinaryPad v) = x_rpcbuf_write_binary_pad h b v"
| "rpc_run_op h b (StringPad v) = x_rpcbuf_write_string_pad h b v"
| "rpc_run_op h b (String0tPad v) = x_rpcbuf_write_string_0t_pad h b v"

fun rpc_enc :: "bool \<Rightarrow> rpc_op \<Rightarrow> byte list" where
  "rpc_enc sw (Card8 v) = enc8 sw v"
| "rpc_enc sw (Card16 v) = enc16 sw v"
| "rpc_enc sw (Card32 v) = enc32 sw v"
| "rpc_enc sw (Card64 v) = enc64 sw v"
| "rpc_enc sw (Card8s v) = enc_array enc8 sw v"
| "rpc_enc sw (Card16s v) = enc_array enc16 sw v"
| "rpc_enc sw (Card32s v) = enc_array enc32 sw v"
| "rpc_enc sw (Card64s v) = enc_array enc64 sw v"
| "rpc_enc sw (BinaryPad v) = enc_padded sw v"
| "rpc_enc sw (StringPad v) = enc_padded sw v"
| "rpc_enc sw (String0tPad v) = enc_string_0t sw v"

fun rpc_fits :: "rpc_op \<Rightarrow> bool" where
  "rpc_fits (BinaryPad v) = fits_padded v"
| "rpc_fits (StringPad v) = fits_padded v"
| "rpc_fits (String0tPad v) = fits_padded v"
| "rpc_fits (Card8s v) = fits_array 1 v"
| "rpc_fits (Card16s v) = fits_array 2 v"
| "rpc_fits (Card32s v) = fits_array 4 v"
| "rpc_fits (Card64s v) = fits_array 8 v"
| "rpc_fits _ = True"

definition rpc_run :: "heap_env \<Rightarrow> rpc_op list \<Rightarrow> x_rpcbuf \<Rightarrow> x_rpcbuf" where
  "rpc_run h ops b = fold (\<lambda>op b. snd (rpc_run_op h b op)) ops b"

text \<open>The contract extended: while memory for the data and one chunk more can be had, no write fails.\<close>

definition memory_up_to :: "heap_env \<Rightarrow> nat \<Rightarrow> bool" where
  "memory_up_to h k \<longleftrightarrow> (\<forall>n \<le> k + XLIBRE_RPCBUF_CHUNK_SIZE. realloc_ok h n)"

lemma memory_up_to_less: "memory_up_to h k \<Longrightarrow> j \<le> k \<Longrightarrow> memory_up_to h j"
  by (simp add: memory_up_to_def)

locale rpc_writer_total = rpc_writer wr enc fits
  for wr :: "heap_env \<Rightarrow> x_rpcbuf \<Rightarrow> 'a \<Rightarrow> bool \<times> x_rpcbuf"
    and enc :: "bool \<Rightarrow> 'a \<Rightarrow> byte list"
    and fits :: "'a \<Rightarrow> bool" +
  assumes wr_ok: "rb_inv b \<Longrightarrow> \<not> rb_error b \<Longrightarrow> fits v \<Longrightarrow>
      memory_up_to h (length (rb_contents b) + length (enc (rb_swapped b) v)) \<Longrightarrow> \<not> rb_error (snd (wr h b v))"
begin

lemma run_ok:
  "malloc_limit h \<Longrightarrow> rb_inv b \<Longrightarrow> \<forall>v \<in> set vs. fits v \<Longrightarrow>
    memory_up_to h (length (rb_contents b) + length (concat (map (enc (rb_swapped b)) vs))) \<Longrightarrow> \<not> rb_error b \<Longrightarrow>
    \<not> rb_error (fold (\<lambda>v b. snd (wr h b v)) vs b)"
proof (induction vs arbitrary: b)
  case (Cons v vs)
  obtain ok b1 where w: "wr h b v = (ok, b1)" by fastforce
  have ok1: "\<not> rb_error b1"
    using wr_ok [OF Cons.prems(2,5), of v h] Cons.prems(3) memory_up_to_less [OF Cons.prems(4)] w by simp
  with w wr_failure have "ok" by (cases ok) auto
  then have a: "appends b (enc (rb_swapped b) v) b1" using wr_appends [OF Cons.prems(1,2,5)] Cons.prems(3) w by simp
  then show ?case using Cons.IH [OF Cons.prems(1), of b1] Cons.prems(3,4) w ok1 by (simp add: appends_def add.assoc)
qed simp

end

lemma wpos_contents: "rb_inv b \<Longrightarrow> \<not> rb_error b \<Longrightarrow> length (rb_contents b) = rb_wpos b"
  by (simp add: rb_inv_def rb_contents_def)

lemma reserve_ok:
  assumes "rb_inv b" "\<not> rb_error b" "n < 2 ^ 62" "memory_up_to h (length (rb_contents b) + n)"
  shows "\<not> rb_error (snd (x_rpcbuf_reserve h b n))"
proof -
  let ?m = "((rb_wpos b + n) div XLIBRE_RPCBUF_CHUNK_SIZE + 1) * XLIBRE_RPCBUF_CHUNK_SIZE"
  note sz = makeroom_sizes [OF assms(1-3)]
  have "(rb_wpos b + n) div XLIBRE_RPCBUF_CHUNK_SIZE * XLIBRE_RPCBUF_CHUNK_SIZE \<le> rb_wpos b + n" by (rule div_times_less_eq_dividend)
  then have "realloc_ok h ?m" using assms(4) wpos_contents [OF assms(1,2)] by (simp add: memory_up_to_def)
  then show ?thesis unfolding x_rpcbuf_reserve_def x_rpcbuf_makeroom_def sz(1) Let_def sz(2) using assms(2) by simp
qed

lemma rb_write_ok:
  "rb_inv b \<Longrightarrow> \<not> rb_error b \<Longrightarrow> length bs < 2 ^ 62 \<Longrightarrow> memory_up_to h (length (rb_contents b) + length bs) \<Longrightarrow>
    \<not> rb_error (snd (rb_write h b bs))"
  using reserve_ok [of b "length bs" h] by (auto simp: rb_write_def split: prod.splits option.splits)

lemma bin_pad_ok:
  assumes "rb_inv b" "\<not> rb_error b" "length bs + 3 < 2 ^ 31"
    "memory_up_to h (length (rb_contents b) + length (bs @ pad_zeros (length bs)))"
  shows "\<not> rb_error (snd (x_rpcbuf_write_bin_pad h b bs))"
proof -
  have len: "length (bs @ pad_zeros (length bs)) = (length bs + 3) div 4 * 4" by (simp add: pad_zeros_def)
  have "(length bs + 3) div 4 * 4 < 2 ^ 62" using div_times_less_eq_dividend [of "length bs + 3" 4] assms(3) by simp
  from reserve_ok [OF assms(1,2) this, of h] assms(4)
  show ?thesis unfolding len x_rpcbuf_write_bin_pad_def Let_def blen_nat [OF assms(3)]
    by (auto split: prod.splits option.splits)
qed

lemmas write_fails = rb_write_ok [THEN notE, rotated -1] bin_pad_ok [THEN notE, rotated -1]

lemmas rpc_writers_def =
  x_rpcbuf_write_CARD8_def x_rpcbuf_write_CARD16_def x_rpcbuf_write_CARD32_def
  x_rpcbuf_write_CARD64_def x_rpcbuf_write_CARD8s_def x_rpcbuf_write_CARD16s_def
  x_rpcbuf_write_CARD32s_def x_rpcbuf_write_CARD64s_def x_rpcbuf_write_binary_pad_def
  x_rpcbuf_write_string_pad_def x_rpcbuf_write_string_0t_pad_def

interpretation any_op: rpc_writer_total rpc_run_op rpc_enc rpc_fits
proof unfold_locales
  fix b b' :: x_rpcbuf and h v
  assume "malloc_limit h" "rb_inv b" "\<not> rb_error b" "rpc_fits v" "rpc_run_op h b v = (True, b')"
  then show "appends b (rpc_enc (rb_swapped b) v) b'"
    by (cases v)
      (auto intro: card8.wr_appends card16.wr_appends card32.wr_appends card64.wr_appends
        card8s.wr_appends card16s.wr_appends card32s.wr_appends card64s.wr_appends
        binary_pad.wr_appends string_pad.wr_appends string_0t_pad.wr_appends)
next
  fix b b' :: x_rpcbuf and h v
  assume "rpc_run_op h b v = (False, b')"
  then show "rb_error b'"
    by (cases v)
      (auto dest: card8.wr_failure card16.wr_failure card32.wr_failure card64.wr_failure
        card8s.wr_failure card16s.wr_failure card32s.wr_failure card64s.wr_failure
        binary_pad.wr_failure string_pad.wr_failure string_0t_pad.wr_failure)
next
  fix b :: x_rpcbuf and h v
  assume "rb_error b"
  then show "rb_error (snd (rpc_run_op h b v))"
    by (cases v)
      (auto intro: card8.wr_sticky card16.wr_sticky card32.wr_sticky card64.wr_sticky
        card8s.wr_sticky card16s.wr_sticky card32s.wr_sticky card64s.wr_sticky
        binary_pad.wr_sticky string_pad.wr_sticky string_0t_pad.wr_sticky)
next
  fix b :: x_rpcbuf and h :: heap_env and v
  assume "rb_inv b" "\<not> rb_error b" "rpc_fits v" "memory_up_to h (length (rb_contents b) + length (rpc_enc (rb_swapped b) v))"
  then show "\<not> rb_error (snd (rpc_run_op h b v))"
    by (cases v)
      (auto simp: rpc_writers_def enc_array_def enc_padded_def enc_string_0t_def fits_array_def fits_padded_def
        length_enc length_enc_array swap_array_eq swap_bytes_eq elim!: write_fails split: option.splits if_splits)
qed

text \<open>
  The composite writers, from the contract: a rectangle is four 16-bit values; padding appends
  zeros up to a multiple of four of the whole buffer; a counted string carries its length.
\<close>

lemma rect_appends:
  assumes "malloc_limit h" "rb_inv b" and "\<not> rb_error (x_rpcbuf_write_rect h b x y w ht)"
  shows "appends b (concat (map (enc16 (rb_swapped b)) [x, y, w, ht])) (x_rpcbuf_write_rect h b x y w ht)"
  using card16.run_appends [OF assms(1,2), of "[x, y, w, ht]"] assms(3)
  by (simp add: x_rpcbuf_write_rect_def Let_def)

lemma reserve0_appends:
  assumes "malloc_limit h" "rb_inv b" "n < 2 ^ 62" and "x_rpcbuf_reserve0 h b n = (Some pos, b')"
  shows "appends b (replicate n 0) b'"
  using assms(3,4) reserve_store_appends [OF assms(2,1), of "replicate n 0"]
  by (auto simp: x_rpcbuf_reserve0_def split: prod.splits option.splits)

lemma reserve0_failure:
  assumes "x_rpcbuf_reserve0 h b n = (None, b')"
  shows "rb_error b'"
  using assms reserve_failure(1)
  by (auto simp: x_rpcbuf_reserve0_def split: prod.splits option.splits)

lemma pad_size:
  assumes "rb_inv b" "\<not> rb_error b"
  shows "size_t (size_t (rb_wpos b + 3) div 4 * 4 + (2 ^ 64 - rb_wpos b)) = (rb_wpos b + 3) div 4 * 4 - rb_wpos b"
proof -
  have w: "rb_wpos b < 2 ^ 63" using assms by (auto simp: rb_inv_def)
  let ?m = "(rb_wpos b + 3) div 4 * 4"
  have "rb_wpos b \<le> ?m" by presburger
  then obtain k where k: "?m = rb_wpos b + k" by (auto simp: le_iff_add)
  have "k < 4" using k by presburger
  moreover have "rb_wpos b + k + (2 ^ 64 - rb_wpos b) = k + 2 ^ 64" using w by simp
  ultimately have "size_t (?m + (2 ^ 64 - rb_wpos b)) = ?m - rb_wpos b" unfolding size_t_def k by simp
  moreover have "size_t (rb_wpos b + 3) = rb_wpos b + 3" using w by (intro size_t_id) simp
  ultimately show ?thesis by simp
qed

lemma pad_appends:
  assumes "malloc_limit h" "rb_inv b" and "\<not> rb_error (x_rpcbuf_pad h b)"
  shows "appends b (pad_zeros (length (rb_contents b))) (x_rpcbuf_pad h b)"
proof -
  let ?n = "(rb_wpos b + 3) div 4 * 4 - rb_wpos b"
  have err: "\<not> rb_error b"
    using assms(3) by (auto simp: x_rpcbuf_pad_def x_rpcbuf_reserve0_def x_rpcbuf_reserve_def x_rpcbuf_makeroom_def)
  obtain p b' where r: "x_rpcbuf_reserve0 h b ?n = (p, b')" by fastforce
  have e: "x_rpcbuf_pad h b = b'" using r by (simp only: x_rpcbuf_pad_def pad_size [OF assms(2) err] snd_conv)
  with assms(3) r reserve0_failure obtain pos where p: "p = Some pos" by (cases p) auto
  have "?n < 2 ^ 62" by simp
  from reserve0_appends [OF assms(1,2) this r [unfolded p]] show ?thesis
    using wpos_contents [OF assms(2) err] by (simp add: pad_zeros_def e)
qed

lemma pad_sticky: "rb_error b \<Longrightarrow> rb_error (x_rpcbuf_pad h b)"
  by (simp add: x_rpcbuf_pad_def x_rpcbuf_reserve0_def x_rpcbuf_reserve_def x_rpcbuf_makeroom_def)

lemma counted_string_appends:
  assumes "malloc_limit h" "rb_inv b" and "length s < 2 ^ 16"
    and "\<not> rb_error (x_rpcbuf_write_counted_string_pad h b (Some s))"
  shows "\<exists>z. appends b (enc16 (rb_swapped b) (word_of_nat (length s)) @ s @ pad_zeros z)
           (x_rpcbuf_write_counted_string_pad h b (Some s))"
proof -
  let ?n = "word_of_nat (length s) :: u16"
  have n: "unat ?n = length s" using assms(3) by (simp add: unat_of_nat)
  then have nz: "?n = 0 \<longleftrightarrow> s = []" by (metis length_0_conv unat_eq_zero)
  obtain ok1 b1 where w1: "x_rpcbuf_write_CARD16 h b ?n = (ok1, b1)" by fastforce
  obtain ok2 b2 where w2: "x_rpcbuf_write_CARD8s h b1 (Some s) = (ok2, b2)" by fastforce
  have whole: "x_rpcbuf_write_counted_string_pad h b (Some s) = x_rpcbuf_pad h b2"
    using w1 w2 n nz by (auto simp: x_rpcbuf_write_counted_string_pad_def Let_def x_rpcbuf_write_CARD8s_def)
  with assms(4) pad_sticky have ne2: "\<not> rb_error b2" by metis
  then have ok2 and ne1: "\<not> rb_error b1"
    using w2 card8s.wr_failure card8s.wr_sticky by (metis (full_types) snd_conv)+
  then have ok1 and ne: "\<not> rb_error b"
    using w1 card16.wr_failure card16.wr_sticky by (metis (full_types) snd_conv)+
  with w1 have a1: "appends b (enc16 (rb_swapped b) ?n) b1"
    using card16.wr_appends [OF assms(1,2)] by simp
  then have "rb_inv b1" by (simp add: appends_def)
  with w2 \<open>ok2\<close> ne1 have a2: "appends b1 s b2"
    using card8s.wr_appends [where b = b1 and v = "Some s" and h = h and b' = b2] assms(1,3)
    by (simp add: enc_array_def fits_array_def concat_enc8)
  then have "rb_inv b2" by (simp add: appends_def)
  from pad_appends [OF assms(1) this] assms(4) whole
  have "appends b2 (pad_zeros (length (rb_contents b2))) (x_rpcbuf_pad h b2)" by simp
  with appends_trans [OF appends_trans [OF a1 a2]] show ?thesis
    unfolding whole by (metis append_assoc)
qed

lemma reply_header_fields:
  assumes "8 \<le> length hdr"
  shows "length (reply_header sw sq len hdr) = length hdr \<and>
    reply_header sw sq len hdr ! 0 = 1 \<and>
    take 2 (drop 2 (reply_header sw sq len hdr)) = enc16 sw (ucast sq) \<and>
    take 4 (drop 4 (reply_header sw sq len hdr)) = enc32 sw len \<and>
    drop 8 (reply_header sw sq len hdr) = drop 8 hdr"
proof -
  let ?q = "enc16 sw (ucast sq)" and ?l = "enc32 sw len"
  have len: "length ?q = 2" "length ?l = 4" by (simp_all add: enc16_def enc32_def)
  obtain a0 a1 a2 a3 a4 a5 a6 a7 rest where
    hdr: "hdr = a0 # a1 # a2 # a3 # a4 # a5 # a6 # a7 # rest"
    using assms by (auto simp: numeral_eq_Suc Suc_le_length_iff)
  obtain q0 q1 where q: "?q = [q0, q1]" using len(1) by (auto simp: numeral_eq_Suc length_Suc_conv)
  obtain l0 l1 l2 l3 where l: "?l = [l0, l1, l2, l3]"
    using len(2) by (auto simp: numeral_eq_Suc length_Suc_conv)
  show ?thesis
    unfolding reply_header_def Let_def swap_bytes_eq q l hdr
    by (simp add: poke_def numeral_eq_Suc)
qed

lemma hdr_units:
  assumes "sizeof_xGenericReply \<le> n" and "n < 2 ^ 32"
  shows "bytes_to_int32 (word_of_nat n - word_of_nat sizeof_xGenericReply) =
    word_of_nat ((n - sizeof_xGenericReply + 3) div 4)"
proof -
  have "(word_of_nat n - word_of_nat sizeof_xGenericReply :: u64) = word_of_nat (n - sizeof_xGenericReply)"
    using assms(1) by (simp add: of_nat_diff)
  moreover have "unat (word_of_nat (n - sizeof_xGenericReply) :: u64) = n - sizeof_xGenericReply"
    using assms(2) by (simp add: unat_of_nat)
  ultimately have "unat (bytes_to_int32 (word_of_nat n - word_of_nat sizeof_xGenericReply))
      = (n - sizeof_xGenericReply + 3) div 4"
    using bytes_to_int32_nat [of "word_of_nat n - word_of_nat sizeof_xGenericReply"] assms by simp
  then show ?thesis by (metis of_nat_unat ucast_id)
qed

lemma fits_of_encoding: "length (rpc_enc sw op) + 8 < 2 ^ 31 \<Longrightarrow> rpc_fits op"
  by (cases op)
    (auto simp: enc_array_def enc_padded_def enc_string_0t_def fits_array_def fits_padded_def length_enc_array split: option.splits)

lemma int_of_size_id: "n < 2 ^ 31 \<Longrightarrow> int_of_size n = int n"
  by (simp add: int_of_size_def signed_of_nat signed_take_bit_int_eq_self)

text \<open>C25: A request handler that appends any sequence of values to a fresh reply buffer without
  looking at return codes and then sends the reply, sends either nothing and reports BadAlloc,
  or the header with type, sequence number and length filled in (in the client's byte order,
  the length counting exactly the 32-bit units after the generic reply) followed by exactly
  the encodings of the values in order, and leaves the buffer empty. It fails only if a
  reallocation to at most one chunk more than the size of the data failed. This holds for header
  and data of less than 2 to the 31 (minus 8) bytes, which the casts of both counts to \<open>int\<close>
  need, and a \<open>realloc\<close> that gives no block of 2 to the 63 bytes or more.\<close>

theorem reply_is_header_and_encodings:
  assumes "malloc_limit h" and "length payload + 8 < 2 ^ 31"
    and "sizeof_xGenericReply \<le> length hdr" and "length hdr < 2 ^ 31"
    and "b = rpc_run h ops (x_rpcbuf_zero\<lparr>rb_swapped := sw\<rparr>)"
    and "payload = concat (map (rpc_enc sw) ops)"
  shows "(if rb_error b
     then write_reply_hdr_and_rpcbuf sw sq hdr b = (BadAlloc, [], b) \<and>
       (\<exists>n \<le> length payload + XLIBRE_RPCBUF_CHUNK_SIZE. \<not> realloc_ok h n)
     else \<exists>hd mem. write_reply_hdr_and_rpcbuf sw sq hdr b =
         (Success, [(int (length hdr), hd), (int (length payload), mem)], x_rpcbuf_zero) \<and>
       take (length payload) mem = payload \<and>
       length hd = length hdr \<and> hd ! 0 = 1 \<and> take 2 (drop 2 hd) = enc16 sw (ucast sq) \<and>
       take 4 (drop 4 hd) = enc32 sw (word_of_nat
         ((length hdr - sizeof_xGenericReply + 3) div 4 + (length payload + 3) div 4)) \<and>
       drop 8 hd = drop 8 hdr)"
proof -
  let ?b0 = "x_rpcbuf_zero\<lparr>rb_swapped := sw\<rparr>"
  have b0: "rb_inv ?b0" "rb_swapped ?b0 = sw" "rb_contents ?b0 = []" "\<not> rb_error ?b0"
    by (simp_all add: x_rpcbuf_zero_def rb_inv_def rb_contents_def rb_bytes_def)
  have "length (rpc_enc sw op) \<le> length payload" if "op \<in> set ops" for op
    unfolding assms(6) length_concat using that by (simp add: member_le_sum_list)
  then have fits: "\<forall>op \<in> set ops. rpc_fits op" using fits_of_encoding [of sw] assms(2) by fastforce
  show ?thesis
  proof (cases "rb_error b")
    case True
    then have "\<not> memory_up_to h (length payload)"
      using any_op.run_ok [OF assms(1) b0(1) fits _ b0(4)] assms(5,6) b0(2,3) by (auto simp: rpc_run_def)
    then show ?thesis using True by (simp add: write_reply_hdr_and_rpcbuf_def memory_up_to_def)
  next
    case False
    have "appends ?b0 payload b"
      using any_op.run_appends [OF assms(1) b0(1) fits] False assms(5,6) b0(2) by (simp add: rpc_run_def)
    then have b: "rb_contents b = payload" "rb_inv b" using b0(3) by (simp_all add: appends_def)
    have wpos: "rb_wpos b = length payload" using wpos_contents [OF b(2) False] b(1) by simp
    have p: "take (length payload) (rb_bytes b) = payload" using b(1) by (simp add: rb_contents_def wpos)
    have sz: "size_t (length payload + 3) = length payload + 3"
      "int_of_size (length payload) = int (length payload)" "int_of_size (length hdr) = int (length hdr)"
      using assms(2,4) by (simp_all add: int_of_size_id)
    have hdr: "8 \<le> length hdr" "length hdr < 2 ^ 32" using assms(3,4) by (simp_all add: sizeof_xGenericReply_def)
    show ?thesis
      using False p reply_header_fields [OF hdr(1)]
      unfolding write_reply_hdr_and_rpcbuf_def Let_def hdr_units [OF assms(3) hdr(2)] x_rpcbuf_wsize_units_def
        wpos x_rpcbuf_clear_def WriteRpcbufToClient_def sz
      by (simp flip: of_nat_add)
  qed
qed

lemma small_heap: "malloc_limit \<lparr>realloc_ok = \<lambda>n. n < 2 ^ 63, heap_junk = \<lambda>_. 7\<rparr>"
  by (simp add: malloc_limit_def)

theorem reply_is_header_and_encodings_witness:
  "\<exists>b. b = rpc_run \<lparr>realloc_ok = \<lambda>n. n < 2 ^ 63, heap_junk = \<lambda>_. 7\<rparr> [Card16 1, StringPad (Some [65])]
        (x_rpcbuf_zero\<lparr>rb_swapped := True\<rparr>) \<and> \<not> rb_error b"
proof -
  have "\<not> (\<exists>n \<le> k + XLIBRE_RPCBUF_CHUNK_SIZE. \<not> realloc_ok \<lparr>realloc_ok = \<lambda>n. n < 2 ^ 63, heap_junk = \<lambda>_. 7\<rparr> n)"
    if "k < 10" for k using that by (auto simp: XLIBRE_RPCBUF_CHUNK_SIZE_def)
  moreover have "length (concat (map (rpc_enc True) [Card16 1, StringPad (Some [65])])) < 10"
    by (simp add: enc_padded_def pad_zeros_def length_enc)
  ultimately show ?thesis
    using reply_is_header_and_encodings [OF small_heap _ _ _ refl refl, of True "[Card16 1, StringPad (Some [65])]" "replicate 32 0"]
    by (fastforce simp: sizeof_xGenericReply_def simp del: rpc_enc.simps split: if_splits)
qed

text \<open>C26: Memory safety of the buffer: when a region is reserved it lies inside the allocation, it
  starts where the data ends, the data already written is untouched, and the buffer stays well
  formed; when it is not, the error flag is set and every later write is refused. This holds for
  requests below 2 to the 62 bytes and a \<open>realloc\<close> that gives no block of 2 to the 63 bytes
  or more. It is false for sizes near 2 to the 64: there the sum of position and size wraps around, and
  the request is granted without room for it.\<close>

theorem reserve_is_in_bounds:
  assumes "rb_inv b" and "malloc_limit h"
  shows "(n < 2 ^ 62 \<longrightarrow> (case x_rpcbuf_reserve h b n of
      (Some pos, b') \<Rightarrow> pos = rb_wpos b \<and> pos + n < length (rb_bytes b') \<and> rb_inv b' \<and>
        take pos (rb_bytes b') = rb_contents b
    | (None, b') \<Rightarrow> rb_error b' \<and> rb_inv b' \<and> (\<forall>m. x_rpcbuf_reserve h b' m = (None, b')))) \<and>
    (\<not> rb_error b \<and> 0 < rb_wpos b \<longrightarrow> x_rpcbuf_reserve h b (2 ^ 64 - rb_wpos b) = (Some (rb_wpos b), b\<lparr>rb_wpos := 0\<rparr>))"
proof -
  obtain p b' where r: "x_rpcbuf_reserve h b n = (p, b')" by fastforce
  have "case (p, b') of
      (Some pos, b') \<Rightarrow> pos = rb_wpos b \<and> pos + n < length (rb_bytes b') \<and> rb_inv b' \<and>
        take pos (rb_bytes b') = rb_contents b
    | (None, b') \<Rightarrow> rb_error b' \<and> rb_inv b' \<and> (\<forall>m. x_rpcbuf_reserve h b' m = (None, b'))" if n: "n < 2 ^ 62"
  proof (cases p)
    case None
    with reserve_failure(1) r have "rb_error b'" by simp
    with r None show ?thesis
      by (simp add: rb_inv_def x_rpcbuf_reserve_def [of h b'] x_rpcbuf_makeroom_def)
  next
    case (Some pos)
    with reserve_success [OF assms n] r show ?thesis by (fastforce simp: rb_inv_def)
  qed
  moreover have "x_rpcbuf_reserve h b (2 ^ 64 - rb_wpos b) = (Some (rb_wpos b), b\<lparr>rb_wpos := 0\<rparr>)"
    if e: "\<not> rb_error b" "0 < rb_wpos b"
  proof -
    have "rb_wpos b \<le> rb_size b" "rb_size b < 2 ^ 63" using assms(1) e(1) by (simp_all add: rb_inv_def)
    then have "rb_wpos b + (2 ^ 64 - rb_wpos b) = 2 ^ 64" "0 < rb_size b" using e(2) by simp_all
    then show ?thesis using e(1) by (simp add: x_rpcbuf_reserve_def x_rpcbuf_makeroom_def size_t_def)
  qed
  ultimately show ?thesis unfolding r by blast
qed

theorem reserve_is_in_bounds_witness:
  "case x_rpcbuf_reserve \<lparr>realloc_ok = \<lambda>n. n < 2 ^ 63, heap_junk = \<lambda>_. 7\<rparr> x_rpcbuf_zero 5 of
     (Some pos, b') \<Rightarrow> pos + 5 < length (rb_bytes b') | (None, b') \<Rightarrow> rb_error b'"
  using reserve_is_in_bounds [OF rb_inv_zero small_heap, of 5]
  by (auto split: prod.splits option.splits)

end
