(* ===== verification/Atoms.thy ===== *)
theory Atoms
  imports X_Prelude "HOL-Library.List_Lexorder" "HOL-Library.Product_Lexorder"
begin

text \<open>
  The atom table of \<^verbatim>\<open>dix/atom.c\<close>: a binary search tree ordered by fingerprint and name
  that maps names to atoms, and the array \<open>nodeTable\<close> that maps atoms back to names. The
  abstract view is the list of names in the order they were interned.
\<close>

section \<open>C strings\<close>

text \<open>
  A \<open>char *\<close> is the list of bytes it points at; beyond its end the list reads as NUL.
\<close>

definition c_string :: "byte list \<Rightarrow> byte list" where
  "c_string s = takeWhile (\<lambda>c. c \<noteq> 0) s"

definition strlen :: "byte list \<Rightarrow> nat" where
  "strlen s = length (c_string s)"

definition c_head :: "byte list \<Rightarrow> byte" where
  "c_head s = (case s of [] \<Rightarrow> 0 | c # _ \<Rightarrow> c)"

text \<open>The C library's \<open>strncmp\<close>, which compares as unsigned characters.\<close>

fun strncmp :: "byte list \<Rightarrow> byte list \<Rightarrow> nat \<Rightarrow> int" where
  "strncmp s t 0 = 0"
| "strncmp s t (Suc n) =
     (if c_head s < c_head t then -1
      else if c_head t < c_head s then 1
      else if c_head s = 0 then 0
      else strncmp (tl s) (tl t) n)"

text \<open>\<^verbatim>\<open>os/strndup.c\<close>: the loop stops at the n-th byte or at NUL.\<close>

fun strndup_len :: "byte list \<Rightarrow> nat \<Rightarrow> nat" where
  "strndup_len s 0 = 0"
| "strndup_len s (Suc n) = (if c_head s \<noteq> 0 then Suc (strndup_len (tl s) n) else 0)"

definition strndup :: "bool \<Rightarrow> byte list \<Rightarrow> nat \<Rightarrow> byte list option" where
  "strndup alloc_ok s n = (if alloc_ok then Some (take (strndup_len s n) s) else None)"

definition nul_free :: "byte list \<Rightarrow> bool" where
  "nul_free s \<longleftrightarrow> 0 \<notin> set s"

section \<open>State\<close>

datatype atom_node =
    NullNode
  | NodeRec (left: atom_node) (right: atom_node) (node_atom: nat) (fingerPrint: u32) (node_string: "byte list")

record atom_state =
  lastAtom :: nat
  atomRoot :: atom_node
  tableLength :: nat
  nodeTable :: "nat \<Rightarrow> byte list option"

definition XA_LAST_PREDEFINED :: nat where
  "XA_LAST_PREDEFINED = 68"

definition InitialTableSize :: nat where
  "InitialTableSize = 256"

definition BAD_RESOURCE :: nat where
  "BAD_RESOURCE = 0xe0000000"

text \<open>The allocations of \<open>MakeAtom\<close>, each of which may fail.\<close>

datatype atom_alloc = AllocNode | AllocString | AllocTable

section \<open>Operations\<close>

text \<open>
  The fingerprint folds the name from both ends; \<open>char\<close> is signed, so a byte above 127 is
  sign-extended before it is added.
\<close>

definition atom_fingerprint :: "byte list \<Rightarrow> nat \<Rightarrow> u32" where
  "atom_fingerprint string len =
     foldl (\<lambda>fp i. (fp * 27 + scast (string ! i)) * 27 + scast (string ! (len - 1 - i)))
       0 [0..<(len + 1) div 2]"

datatype step = GoLeft | GoRight | Found

definition node_step :: "u32 \<Rightarrow> byte list \<Rightarrow> nat \<Rightarrow> u32 \<Rightarrow> byte list \<Rightarrow> step" where
  "node_step fp string len nfp nstring =
     (if fp < nfp then GoLeft
      else if nfp < fp then GoRight
      else
        let comp = strncmp string nstring len
        in if comp < 0 \<or> (comp = 0 \<and> len < strlen nstring) then GoLeft
           else if 0 < comp then GoRight
           else Found)"

fun find_node :: "u32 \<Rightarrow> byte list \<Rightarrow> nat \<Rightarrow> atom_node \<Rightarrow> nat option" where
  "find_node fp string len NullNode = None"
| "find_node fp string len (NodeRec l r a nfp nstring) =
     (case node_step fp string len nfp nstring of
        GoLeft \<Rightarrow> find_node fp string len l
      | GoRight \<Rightarrow> find_node fp string len r
      | Found \<Rightarrow> Some a)"

text \<open>Storing the new node through the pointer \<open>np\<close> at which the search ended.\<close>

fun link_node :: "u32 \<Rightarrow> byte list \<Rightarrow> nat \<Rightarrow> atom_node \<Rightarrow> atom_node \<Rightarrow> atom_node" where
  "link_node fp string len nd NullNode = nd"
| "link_node fp string len nd (NodeRec l r a nfp nstring) =
     (case node_step fp string len nfp nstring of
        GoLeft \<Rightarrow> NodeRec (link_node fp string len nd l) r a nfp nstring
      | GoRight \<Rightarrow> NodeRec l (link_node fp string len nd r) a nfp nstring
      | Found \<Rightarrow> NodeRec l r a nfp nstring)"

text \<open>The counter is a 32-bit \<open>Atom\<close>.\<close>

definition next_atom :: "atom_state \<Rightarrow> nat" where
  "next_atom s = unat (word_of_nat (lastAtom s + 1) :: u32)"

definition MakeAtom ::
    "(atom_alloc \<Rightarrow> bool) \<Rightarrow> byte list \<Rightarrow> nat \<Rightarrow> bool \<Rightarrow> atom_state \<Rightarrow> nat \<times> atom_state" where
  "MakeAtom mem string len makeit s =
     (let fp = atom_fingerprint string len
      in case find_node fp string len (atomRoot s) of
           Some a \<Rightarrow> (a, s)
         | None \<Rightarrow>
             if \<not> makeit then (0, s)
             else if \<not> mem AllocNode then (BAD_RESOURCE, s)
             else
               (case (if lastAtom s < XA_LAST_PREDEFINED then Some (c_string string)
                      else strndup (mem AllocString) string len) of
                  None \<Rightarrow> (BAD_RESOURCE, s)
                | Some str \<Rightarrow>
                    if tableLength s \<le> next_atom s \<and> \<not> mem AllocTable then (BAD_RESOURCE, s)
                    else
                      let tl' = (if tableLength s \<le> next_atom s then 2 * tableLength s
                                 else tableLength s);
                          a = next_atom s;
                          nd = NodeRec NullNode NullNode a fp str
                      in (a, s\<lparr>lastAtom := a,
                               atomRoot := link_node fp string len nd (atomRoot s),
                               tableLength := tl',
                               nodeTable := (nodeTable s)(a := Some str)\<rparr>)))"

definition ValidAtom :: "atom_state \<Rightarrow> nat \<Rightarrow> bool" where
  "ValidAtom s atom \<longleftrightarrow> atom \<noteq> 0 \<and> atom \<le> lastAtom s"

definition NameForAtom :: "atom_state \<Rightarrow> nat \<Rightarrow> byte list option" where
  "NameForAtom s atom = (if lastAtom s < atom then None else nodeTable s atom)"

text \<open>
  \<open>FreeAtom\<close> frees the strings that \<open>MakeAtom\<close> copied; it returns the atoms whose string it
  frees, in order.
\<close>

fun FreeAtom :: "atom_node \<Rightarrow> nat list" where
  "FreeAtom NullNode = []"
| "FreeAtom (NodeRec l r a nfp nstring) =
     (if l = NullNode then [] else FreeAtom l) @ (if r = NullNode then [] else FreeAtom r) @
     (if XA_LAST_PREDEFINED < a then [a] else [])"

definition FreeAllAtoms :: "atom_state \<Rightarrow> atom_state" where
  "FreeAllAtoms s =
     (if atomRoot s = NullNode then s
      else s\<lparr>atomRoot := NullNode, nodeTable := (\<lambda>_. None), lastAtom := 0\<rparr>)"

text \<open>
  \<open>MakePredeclaredAtoms\<close> is generated by the build from \<^verbatim>\<open>dix/BuiltInAtoms\<close>: one checked
  \<open>MakeAtom\<close> a line. The list of names and expected atoms is a parameter; \<open>None\<close> is the
  \<open>FatalError\<close>.
\<close>

fun MakePredeclaredAtoms ::
    "(atom_alloc \<Rightarrow> bool) \<Rightarrow> (byte list \<times> nat) list \<Rightarrow> atom_state \<Rightarrow> atom_state option" where
  "MakePredeclaredAtoms mem [] s = Some s"
| "MakePredeclaredAtoms mem ((name, xa) # rest) s =
     (case MakeAtom mem name (length name) True s of
        (a, s') \<Rightarrow> if a \<noteq> xa then None else MakePredeclaredAtoms mem rest s')"

definition InitAtoms ::
    "(atom_alloc \<Rightarrow> bool) \<Rightarrow> (byte list \<times> nat) list \<Rightarrow> bool \<Rightarrow> atom_state \<Rightarrow> atom_state option" where
  "InitAtoms mem builtin table_ok s =
     (let s1 = (FreeAllAtoms s)\<lparr>tableLength := InitialTableSize\<rparr>
      in if \<not> table_ok then None
         else case MakePredeclaredAtoms mem builtin (s1\<lparr>nodeTable := (\<lambda>_. None)\<rparr>) of
                None \<Rightarrow> None
              | Some s2 \<Rightarrow> if lastAtom s2 \<noteq> XA_LAST_PREDEFINED then None else Some s2)"

section \<open>The search order\<close>

text \<open>
  For names without NUL the search compares pairs of fingerprint and name lexicographically,
  so the tree is a search tree for the library's order on such pairs.
\<close>

lemma c_string_nul_free: "nul_free s \<Longrightarrow> c_string s = s"
  by (auto simp: c_string_def nul_free_def takeWhile_eq_all_conv)

lemma strlen_nul_free: "nul_free s \<Longrightarrow> strlen s = length s"
  by (simp add: strlen_def c_string_nul_free)

lemma strncmp_order:
  assumes "len \<le> length s" and "nul_free (take len s)" and "nul_free t"
  shows "(strncmp s t len < 0 \<or> strncmp s t len = 0 \<and> len < length t \<longleftrightarrow> take len s < t) \<and>
         (0 < strncmp s t len \<longleftrightarrow> t < take len s)"
  using assms
proof (induction s t len rule: strncmp.induct)
  case (1 s t)
  then show ?case by (cases t) (simp_all add: Nil_less_Cons)
next
  case (2 s t n)
  from "2.prems"(1) obtain c s' where s: "s = c # s'" by (cases s) auto
  with "2.prems" have c: "c \<noteq> 0" "n \<le> length s'" "nul_free (take n s')"
    by (auto simp: nul_free_def)
  show ?case
  proof (cases t)
    case Nil
    with s c show ?thesis by (simp add: c_head_def word_gt_0 Nil_less_Cons)
  next
    case (Cons d t')
    with "2.prems"(3) have d: "d \<noteq> 0" "nul_free t'" by (auto simp: nul_free_def)
    show ?thesis
    proof (cases "c = d")
      case True
      with "2.IH" s Cons c d show ?thesis by (simp add: c_head_def)
    next
      case False
      with s Cons show ?thesis by (auto simp: c_head_def)
    qed
  qed
qed

lemma node_step_order:
  assumes "len \<le> length s" and "nul_free (take len s)" and "nul_free t"
  shows "node_step fp s len nfp t =
     (if (fp, take len s) < (nfp, t) then GoLeft
      else if (nfp, t) < (fp, take len s) then GoRight else Found)"
  using strncmp_order [OF assms] strlen_nul_free [OF assms(3)]
  by (auto simp: node_step_def Let_def less_prod_simp)

lemma node_step_Found:
  assumes "len \<le> length s" and "nul_free (take len s)" and "nul_free t"
  shows "node_step fp s len nfp t = Found \<longleftrightarrow> (nfp, t) = (fp, take len s)"
  using node_step_order [OF assms, of fp nfp] by (metis linorder_cases step.distinct order_less_irrefl)

section \<open>The search tree\<close>

fun node_set :: "atom_node \<Rightarrow> ((u32 \<times> byte list) \<times> nat) set" where
  "node_set NullNode = {}"
| "node_set (NodeRec l r a f t) = insert ((f, t), a) (node_set l \<union> node_set r)"

fun node_ordered :: "atom_node \<Rightarrow> bool" where
  "node_ordered NullNode = True"
| "node_ordered (NodeRec l r a f t) =
     (node_ordered l \<and> node_ordered r \<and> nul_free t \<and>
      (\<forall>k \<in> fst ` node_set l. k < (f, t)) \<and> (\<forall>k \<in> fst ` node_set r. (f, t) < k))"

lemma find_node_iff:
  assumes "node_ordered t" and "len \<le> length s" and "nul_free (take len s)"
    and k: "k = (fp, take len s)"
  shows "find_node fp s len t = Some a \<longleftrightarrow> (k, a) \<in> node_set t"
  using assms(1)
proof (induction t)
  case NullNode
  then show ?case by simp
next
  case (NodeRec l r b f u)
  obtain k' where k': "(f, u) = k'" by simp
  have ord: "\<forall>x \<in> fst ` node_set l. x < k'" "\<forall>x \<in> fst ` node_set r. k' < x"
    using NodeRec.prems k' by simp_all
  have st: "node_step fp s len f u = (if k < k' then GoLeft else if k' < k then GoRight else Found)"
    using node_step_order [OF assms(2,3), of u fp f] NodeRec.prems k k' by simp
  have mem: "(k, a) \<in> node_set l \<Longrightarrow> k < k'" "(k, a) \<in> node_set r \<Longrightarrow> k' < k"
    using ord by (metis fst_conv image_eqI)+
  show ?case
  proof (cases k k' rule: linorder_cases)
    case less
    then show ?thesis
      using NodeRec mem st by (auto simp: k' dest: less_asym)
  next
    case equal
    then show ?thesis
      using mem st by (auto simp: k')
  next
    case greater
    then show ?thesis
      using NodeRec mem st by (auto simp: k' dest: less_asym)
  qed
qed

lemma link_node_set:
  assumes "node_ordered t" and "len \<le> length s" and "nul_free (take len s)"
    and k: "k = (fp, take len s)" and "k \<notin> fst ` node_set t"
    and nd: "node_set nd = {(k, a)}" "node_ordered nd"
  shows "node_set (link_node fp s len nd t) = insert (k, a) (node_set t) \<and>
         node_ordered (link_node fp s len nd t)"
  using assms(1,5)
proof (induction t)
  case NullNode
  then show ?case using nd by simp
next
  case (NodeRec l r b f u)
  obtain k' where k': "(f, u) = k'" by simp
  have ord: "\<forall>x \<in> fst ` node_set l. x < k'" "\<forall>x \<in> fst ` node_set r. k' < x" "nul_free u"
    "node_ordered l" "node_ordered r" "k \<noteq> k'" "k \<notin> fst ` node_set l" "k \<notin> fst ` node_set r"
    using NodeRec.prems k' by auto
  have st: "node_step fp s len f u = (if k < k' then GoLeft else if k' < k then GoRight else Found)"
    using node_step_order [OF assms(2,3), of u fp f] NodeRec.prems k k' by simp
  show ?case
  proof (cases "k < k'")
    case True
    then show ?thesis using NodeRec.IH(1) st ord by (simp add: k' insert_commute)
  next
    case False
    with ord have "k' < k" by (metis linorder_cases)
    then show ?thesis using NodeRec.IH(2) st ord False by (simp add: k' insert_commute)
  qed
qed

section \<open>The invariant and the abstract view\<close>

definition atom_inv :: "atom_state \<Rightarrow> bool" where
  "atom_inv s \<longleftrightarrow>
     node_ordered (atomRoot s) \<and>
     node_set (atomRoot s) =
       {((atom_fingerprint str (length str), str), a) | a str. nodeTable s a = Some str} \<and>
     (\<forall>str \<in> ran (nodeTable s). nul_free str) \<and>
     dom (nodeTable s) = {1..lastAtom s} \<and>
     lastAtom s < tableLength s"

definition abs_names :: "atom_state \<Rightarrow> byte list list" where
  "abs_names s = map (\<lambda>a. the (nodeTable s a)) [1..<Suc (lastAtom s)]"

fun index_of :: "'a \<Rightarrow> 'a list \<Rightarrow> nat option" where
  "index_of x [] = None"
| "index_of x (y # ys) = (if x = y then Some 0 else map_option Suc (index_of x ys))"

text \<open>Interning over the list of names: an atom is the position of its name, from 1.\<close>

definition spec_intern :: "byte list list \<Rightarrow> byte list \<Rightarrow> bool \<Rightarrow> nat \<times> byte list list" where
  "spec_intern names name makeit =
     (case index_of name names of
        Some i \<Rightarrow> (i + 1, names)
      | None \<Rightarrow> if makeit then (length names + 1, names @ [name]) else (0, names))"

text \<open>
  The names a client can give: the buffer holds \<open>len\<close> bytes, none of them NUL, and while the
  predefined atoms are made the buffer is the whole string, which the node then shares.
\<close>

definition good_name :: "byte list \<Rightarrow> nat \<Rightarrow> atom_state \<Rightarrow> bool" where
  "good_name string len s \<longleftrightarrow>
     len \<le> length string \<and> nul_free (take len string) \<and>
     (lastAtom s < XA_LAST_PREDEFINED \<longrightarrow> strlen string = len)"

lemma index_of_Some: "index_of x ys = Some i \<Longrightarrow> i < length ys \<and> ys ! i = x"
  by (induction ys arbitrary: i) (auto split: if_splits)

lemma index_of_None: "index_of x ys = None \<longleftrightarrow> x \<notin> set ys"
  by (induction ys) auto

lemma index_of_distinct: "distinct ys \<Longrightarrow> i < length ys \<Longrightarrow> index_of (ys ! i) ys = Some i"
  by (induction ys arbitrary: i) (auto simp: nth_Cons split: nat.splits)

lemma strndup_len_nul_free:
  "len \<le> length s \<Longrightarrow> nul_free (take len s) \<Longrightarrow> strndup_len s len = len"
proof (induction s len rule: strndup_len.induct)
  case (2 s n)
  then show ?case by (cases s) (auto simp: nul_free_def c_head_def)
qed simp

lemma c_string_take: "len \<le> length s \<Longrightarrow> strlen s = len \<Longrightarrow> c_string s = take len s"
  unfolding strlen_def c_string_def by (metis takeWhile_eq_take)

lemma foldl_cong_set:
  "(\<And>acc x. x \<in> set xs \<Longrightarrow> f acc x = g acc x) \<Longrightarrow> foldl f a xs = foldl g a xs"
  by (induction xs arbitrary: a) auto

lemma atom_fingerprint_take:
  "len \<le> length s \<Longrightarrow> atom_fingerprint (take len s) len = atom_fingerprint s len"
  unfolding atom_fingerprint_def by (rule foldl_cong_set) (auto simp: nth_take)

lemma node_set_functional:
  assumes "node_ordered t" "((f, u), a) \<in> node_set t" "((f, u), b) \<in> node_set t" "nul_free u"
  shows "a = b"
  using find_node_iff [OF assms(1), of "length u" u "(f, u)" f a]
    find_node_iff [OF assms(1), of "length u" u "(f, u)" f b] assms by simp

lemma atom_inv_dom:
  assumes "atom_inv s"
  shows "(\<exists>str. nodeTable s a = Some str) \<longleftrightarrow> 1 \<le> a \<and> a \<le> lastAtom s"
  using assms unfolding atom_inv_def by (metis atLeastAtMost_iff domD domI)

lemma atom_inv_inj:
  assumes inv: "atom_inv s" and "nodeTable s a = Some u" "nodeTable s b = Some u"
  shows "a = b"
proof -
  let ?f = "atom_fingerprint u (length u)"
  have "((?f, u), a) \<in> node_set (atomRoot s)" "((?f, u), b) \<in> node_set (atomRoot s)"
    using assms by (auto simp: atom_inv_def)
  moreover have "nul_free u" using assms by (auto simp: atom_inv_def ran_def)
  ultimately show ?thesis
    using node_set_functional [of "atomRoot s" ?f u a b] inv by (simp only: atom_inv_def)
qed

lemma length_abs_names [simp]: "length (abs_names s) = lastAtom s"
  by (simp add: abs_names_def)

lemma abs_names_nth: "i < lastAtom s \<Longrightarrow> abs_names s ! i = the (nodeTable s (Suc i))"
  by (simp add: abs_names_def del: upt_Suc)

lemma abs_names_table:
  assumes "atom_inv s" and "i < lastAtom s"
  shows "nodeTable s (Suc i) = Some (abs_names s ! i)"
  using atom_inv_dom [OF assms(1), of "Suc i"] assms(2) abs_names_nth by auto

lemma abs_names_distinct:
  assumes "atom_inv s"
  shows "distinct (abs_names s)"
  unfolding distinct_conv_nth
  using abs_names_table [OF assms] atom_inv_inj [OF assms]
  by (metis length_abs_names nat.inject)

lemma index_of_abs_names:
  assumes "atom_inv s"
  shows "index_of u (abs_names s) = Some i \<longleftrightarrow> nodeTable s (Suc i) = Some u"
proof
  assume "index_of u (abs_names s) = Some i"
  then show "nodeTable s (Suc i) = Some u"
    using index_of_Some abs_names_table [OF assms] by fastforce
next
  assume t: "nodeTable s (Suc i) = Some u"
  then have "Suc i \<le> lastAtom s" using atom_inv_dom [OF assms, of "Suc i"] by simp
  then show "index_of u (abs_names s) = Some i"
    using index_of_distinct [OF abs_names_distinct [OF assms], of i] abs_names_table [OF assms] t
    by simp
qed

lemma find_node_table:
  assumes "atom_inv s" and "len \<le> length string" and "nul_free (take len string)"
  shows "find_node (atom_fingerprint string len) string len (atomRoot s) = Some a \<longleftrightarrow>
         nodeTable s a = Some (take len string)"
  using assms find_node_iff [of "atomRoot s" len string, OF _ _ _ refl]
    atom_fingerprint_take [OF assms(2)]
  by (auto simp: atom_inv_def min_absorb2)

lemma index_of_abs_names_None:
  assumes "atom_inv s"
  shows "index_of u (abs_names s) = None \<longleftrightarrow> (\<forall>a. nodeTable s a \<noteq> Some u)"
proof
  assume "\<forall>a. nodeTable s a \<noteq> Some u"
  then show "index_of u (abs_names s) = None"
    using index_of_abs_names [OF assms, of u] by (metis not_Some_eq)
next
  assume none: "index_of u (abs_names s) = None"
  show "\<forall>a. nodeTable s a \<noteq> Some u"
  proof (intro allI notI)
    fix a assume t: "nodeTable s a = Some u"
    then obtain i where "a = Suc i"
      using atom_inv_dom [OF assms, of a] by (metis not0_implies_Suc not_one_le_zero)
    with t none index_of_abs_names [OF assms, of u i] show False by simp
  qed
qed

section \<open>Making an atom\<close>

text \<open>The state after a new node is linked, whatever happened to the table.\<close>

definition add_atom :: "byte list \<Rightarrow> nat \<Rightarrow> byte list \<Rightarrow> nat \<Rightarrow> atom_state \<Rightarrow> atom_state" where
  "add_atom string len str tl' s =
     (let fp = atom_fingerprint string len; a = lastAtom s + 1
      in s\<lparr>lastAtom := a,
           atomRoot := link_node fp string len (NodeRec NullNode NullNode a fp str) (atomRoot s),
           tableLength := tl', nodeTable := (nodeTable s)(a := Some str)\<rparr>)"

lemma MakeAtom_found:
  assumes "atom_inv s" "good_name string len s" "nodeTable s a = Some (take len string)"
  shows "MakeAtom mem string len makeit s = (a, s)"
  using assms find_node_table [of s len string a]
  by (simp add: MakeAtom_def good_name_def Let_def)

lemma next_atom_Suc [simp]: "lastAtom s < 2 ^ 32 - 1 \<Longrightarrow> next_atom s = lastAtom s + 1"
  by (simp add: next_atom_def unat_of_nat del: of_nat_Suc of_nat_add)

lemma MakeAtom_new:
  assumes "lastAtom s < 2 ^ 32 - 1" "atom_inv s" "good_name string len s" "\<forall>a. nodeTable s a \<noteq> Some (take len string)"
  shows "MakeAtom mem string len makeit s =
     (if \<not> makeit then (0, s)
      else if mem AllocNode \<and> (mem AllocString \<or> lastAtom s < XA_LAST_PREDEFINED) \<and>
              (mem AllocTable \<or> lastAtom s + 1 < tableLength s)
      then (lastAtom s + 1,
            add_atom string len (take len string)
              (if tableLength s \<le> lastAtom s + 1 then 2 * tableLength s else tableLength s) s)
      else (BAD_RESOURCE, s))"
proof -
  have "find_node (atom_fingerprint string len) string len (atomRoot s) = None"
    using assms(2-4) find_node_table [of s len string] by (metis good_name_def not_Some_eq)
  moreover have "strndup_len string len = len" "lastAtom s < XA_LAST_PREDEFINED \<Longrightarrow> c_string string = take len string"
    using assms(3) strndup_len_nul_free c_string_take by (auto simp: good_name_def)
  ultimately show ?thesis
    unfolding MakeAtom_def next_atom_Suc [OF assms(1)]
    by (auto simp: add_atom_def Let_def strndup_def)
qed

lemma add_atom_inv:
  assumes inv: "atom_inv s" and good: "good_name string len s"
    and new: "\<forall>a. nodeTable s a \<noteq> Some (take len string)" and tl: "lastAtom s + 1 < tl'"
  shows "atom_inv (add_atom string len (take len string) tl' s)"
proof -
  let ?str = "take len string" and ?fp = "atom_fingerprint string len" and ?a = "lastAtom s + 1"
  have g: "len \<le> length string" "nul_free ?str" using good by (simp_all add: good_name_def)
  have fp: "atom_fingerprint ?str (length ?str) = ?fp"
    using atom_fingerprint_take [OF g(1)] g(1) by (simp add: min_absorb2)
  have fresh: "nodeTable s ?a = None"
    using atom_inv_dom [OF inv, of ?a] by (metis not_less_eq_eq not_Some_eq order_refl Suc_eq_plus1)
  have "(?fp, ?str) \<notin> fst ` node_set (atomRoot s)"
    using inv new by (auto simp: atom_inv_def)
  then have link: "node_set (link_node ?fp string len (NodeRec NullNode NullNode ?a ?fp ?str) (atomRoot s))
        = insert ((?fp, ?str), ?a) (node_set (atomRoot s))"
      "node_ordered (link_node ?fp string len (NodeRec NullNode NullNode ?a ?fp ?str) (atomRoot s))"
    using link_node_set [OF _ g refl, of "atomRoot s" ?fp "NodeRec NullNode NullNode ?a ?fp ?str" ?a]
      inv g by (simp_all add: atom_inv_def)
  have set: "insert ((?fp, ?str), ?a) (node_set (atomRoot s)) =
    {((atom_fingerprint str (length str), str), a) | a str. ((nodeTable s)(?a := Some ?str)) a = Some str}"
  proof (rule set_eqI)
    fix x :: "(u32 \<times> byte list) \<times> nat"
    obtain f u b where x: "x = ((f, u), b)" by (metis prod.exhaust)
    show "(x \<in> insert ((?fp, ?str), ?a) (node_set (atomRoot s))) \<longleftrightarrow> (x \<in>
      {((atom_fingerprint str (length str), str), a) | a str. ((nodeTable s)(?a := Some ?str)) a = Some str})"
      using inv fresh fp unfolding x by (cases "b = ?a") (auto simp: atom_inv_def)
  qed
  have ran: "\<forall>str \<in> ran ((nodeTable s)(?a := Some ?str)). nul_free str"
    using inv g fresh by (auto simp: atom_inv_def)
  have dom: "dom ((nodeTable s)(?a := Some ?str)) = {1..?a}"
    using inv by (auto simp: atom_inv_def)
  show ?thesis
    using link set ran dom tl unfolding atom_inv_def add_atom_def Let_def by simp
qed

lemma add_atom_names:
  assumes "atom_inv s"
  shows "abs_names (add_atom string len str tl' s) = abs_names s @ [str]"
  by (auto simp: abs_names_def add_atom_def Let_def)

lemma MakeAtom_spec:
  assumes "atom_inv s" and "good_name string len s" and "MakeAtom mem string len makeit s = (a, s')"
    and room: "lastAtom s < 2 ^ 32 - 1"
  shows "atom_inv s' \<and>
    ((a, abs_names s') = spec_intern (abs_names s) (take len string) makeit \<or>
     a = BAD_RESOURCE \<and> s' = s \<and> makeit \<and> \<not> (mem AllocNode \<and> mem AllocString \<and> mem AllocTable))"
proof (cases "\<exists>b. nodeTable s b = Some (take len string)")
  case True
  then obtain b where b: "nodeTable s b = Some (take len string)" by blast
  with assms MakeAtom_found have "a = b" "s' = s" by fastforce+
  moreover obtain i where "b = Suc i"
    using atom_inv_dom [OF assms(1), of b] b by (metis not0_implies_Suc not_one_le_zero)
  ultimately show ?thesis
    using b assms(1) index_of_abs_names [OF assms(1), of "take len string" i]
    by (simp add: spec_intern_def)
next
  case False
  then have none: "\<forall>b. nodeTable s b \<noteq> Some (take len string)" by blast
  have lt: "lastAtom s < tableLength s" using assms(1) by (simp add: atom_inv_def)
  have "index_of (take len string) (abs_names s) = None"
    using none index_of_abs_names_None [OF assms(1)] by simp
  then have sp: "spec_intern (abs_names s) (take len string) makeit =
      (if makeit then (lastAtom s + 1, abs_names s @ [take len string]) else (0, abs_names s))"
    by (simp add: spec_intern_def)
  show ?thesis
    using MakeAtom_new [OF room assms(1,2) none, of mem makeit] assms(1,3) lt sp
      add_atom_inv [OF assms(1,2) none] add_atom_names [OF assms(1)]
    by (auto split: if_splits)
qed

lemma spec_intern_lookup:
  "spec_intern names u True = (a, names') \<Longrightarrow>
   1 \<le> a \<and> a \<le> length names' \<and> names' ! (a - 1) = u \<and> (\<exists>extra. names' = names @ extra)"
  by (auto simp: spec_intern_def split: option.splits dest: index_of_Some)

lemma NameForAtom_abs:
  assumes "atom_inv s"
  shows "NameForAtom s a = (if 1 \<le> a \<and> a \<le> lastAtom s then Some (abs_names s ! (a - 1)) else None)"
proof (cases a)
  case 0
  then show ?thesis using atom_inv_dom [OF assms, of 0] by (auto simp: NameForAtom_def)
next
  case (Suc i)
  then show ?thesis using abs_names_table [OF assms, of i] by (auto simp: NameForAtom_def)
qed

text \<open>A table with one atom, at which the properties below are evaluated.\<close>

definition small_table :: atom_state where
  "small_table = \<lparr>lastAtom = 1,
     atomRoot = NodeRec NullNode NullNode 1 (atom_fingerprint [97] 1) [97],
     tableLength = 256, nodeTable = [1 \<mapsto> [97]]\<rparr>"

lemma empty_table_inv:
  "0 < n \<Longrightarrow> atom_inv \<lparr>lastAtom = 0, atomRoot = NullNode, tableLength = n, nodeTable = (\<lambda>_. None)\<rparr>"
  by (simp add: atom_inv_def)

lemma small_table_inv: "atom_inv small_table"
  by (auto simp: small_table_def atom_inv_def nul_free_def)

lemma small_table_name: "good_name [98, 97] 2 small_table"
  by (simp add: good_name_def nul_free_def strlen_def c_string_def)

lemma small_table_intern: "fst (MakeAtom (\<lambda>_. True) [98, 97] 2 True small_table) = 2"
  using MakeAtom_new [OF _ small_table_inv small_table_name]
  by (simp add: small_table_def)

text \<open>C5: Interning a name without a NUL byte: from a well-formed table with fewer than 2^32 - 1 atoms, for every
  outcome of the three allocations, \<open>MakeAtom\<close> either does exactly what interning into the list of
  names does (the old atom when the name is known, None when it is not and \<open>makeit\<close> is false, else the
  next atom), or an allocation failed, the result is \<open>BAD_RESOURCE\<close> and the table is as it was. The
  table stays well formed: search tree, array and counter agree. While the predefined atoms are made
  the name is the whole string. A client may send a name with a NUL byte; the table then keeps the part
  before it, two atoms get one name, and nothing is promised (the lemma on colliding names shows it).\<close>

theorem MakeAtom_refines_intern:
  assumes "atom_inv s" and "good_name string len s" and "lastAtom s < 2 ^ 32 - 1"
  shows "case MakeAtom mem string len makeit s of (a, s') \<Rightarrow>
    atom_inv s' \<and>
    ((a, abs_names s') = spec_intern (abs_names s) (take len string) makeit \<or>
     a = BAD_RESOURCE \<and> s' = s \<and> makeit \<and> \<not> (mem AllocNode \<and> mem AllocString \<and> mem AllocTable))"
  using MakeAtom_spec [OF assms(1,2) _ assms(3)] by (auto split: prod.split)

theorem MakeAtom_refines_intern_witness:
  "atom_inv (snd (MakeAtom (\<lambda>_. True) [98, 97] 2 True small_table))"
  using MakeAtom_refines_intern [where s = small_table and string = "[98, 97]" and len = 2 and
      mem = "\<lambda>_. True" and makeit = True] small_table_inv
    small_table_name
  by (simp add: small_table_def split: prod.splits)

text \<open>C23: The round trip a client relies on, for a name without a NUL byte and a table of fewer than 2^32 - 1
  atoms: when interning the name with \<open>makeit\<close> set does not fail, the atom is valid, its name is the
  interned name, asking again (with or without \<open>makeit\<close>, whatever the allocator does) gives the same atom
  and changes nothing, and every atom that was valid before keeps its name. A name with a NUL byte
  comes back cut off before it, as the lemma on colliding names shows.\<close>

theorem intern_name_round_trip:
  assumes "atom_inv s" and "good_name string len s"
    and "MakeAtom mem string len True s = (a, s')" and "a \<noteq> BAD_RESOURCE" and "lastAtom s < 2 ^ 32 - 1"
  shows "ValidAtom s' a \<and> NameForAtom s' a = Some (take len string) \<and>
    (\<forall>mem' makeit. MakeAtom mem' string len makeit s' = (a, s')) \<and>
    (\<forall>b. ValidAtom s b \<longrightarrow> NameForAtom s' b = NameForAtom s b)"
proof (intro conjI allI impI)
  have sp: "atom_inv s'" "spec_intern (abs_names s) (take len string) True = (a, abs_names s')"
    using MakeAtom_spec [OF assms(1-3,5)] assms(4) by auto
  note look = spec_intern_lookup [OF sp(2)]
  show "ValidAtom s' a" using look by (simp add: ValidAtom_def)
  show name: "NameForAtom s' a = Some (take len string)"
    using look by (simp add: NameForAtom_abs [OF sp(1)])
  have le: "lastAtom s \<le> lastAtom s'" using look by (metis le_add1 length_abs_names length_append)
  then have good: "good_name string len s'" using assms(2) by (auto simp: good_name_def)
  have "nodeTable s' a = Some (take len string)"
    using name by (auto simp: NameForAtom_def split: if_splits)
  with good sp show "MakeAtom mem' string len makeit s' = (a, s')" for mem' makeit
    by (simp add: MakeAtom_found)
  from look obtain extra where e: "abs_names s' = abs_names s @ extra" by blast
  show "NameForAtom s' b = NameForAtom s b" if "ValidAtom s b" for b
    using that le
    by (auto simp: ValidAtom_def NameForAtom_abs [OF sp(1)] NameForAtom_abs [OF assms(1)] e nth_append)
qed

theorem intern_name_round_trip_witness:
  "NameForAtom (snd (MakeAtom (\<lambda>_. True) [98, 97] 2 True small_table))
     (fst (MakeAtom (\<lambda>_. True) [98, 97] 2 True small_table)) = Some [98, 97]"
  using intern_name_round_trip [OF small_table_inv small_table_name
      prod.collapse [symmetric], of "\<lambda>_. True"]
    small_table_intern
  by (simp add: BAD_RESOURCE_def small_table_def)

text \<open>Atoms and names correspond one to one: exactly the valid atoms have a name, and two
  atoms with the same name are the same atom.\<close>

theorem valid_atoms_have_distinct_names:
  assumes "atom_inv s"
  shows "(NameForAtom s a \<noteq> None \<longleftrightarrow> ValidAtom s a) \<and>
         (ValidAtom s a \<and> NameForAtom s a = NameForAtom s b \<longrightarrow> a = b)"
  using atom_inv_inj [OF assms, of a _ b] NameForAtom_abs [OF assms, of a]
  by (auto simp: ValidAtom_def NameForAtom_def split: if_splits)

theorem valid_atoms_have_distinct_names_witness: "NameForAtom small_table 1 \<noteq> None"
  using valid_atoms_have_distinct_names [of small_table 1 1] small_table_inv
  by (simp add: ValidAtom_def small_table_def)

section \<open>Tearing the table down and building it\<close>

lemma node_set_FreeAtom: "set (FreeAtom t) = {a. XA_LAST_PREDEFINED < a \<and> a \<in> snd ` node_set t}"
  by (induction t) auto

lemma FreeAtom_distinct:
  "node_ordered t \<Longrightarrow> inj_on snd (node_set t) \<Longrightarrow> distinct (FreeAtom t)"
proof (induction t)
  case NullNode
  then show ?case by simp
next
  case (NodeRec l r b f u)
  have inj: "inj_on snd (node_set l)" "inj_on snd (node_set r)"
    using NodeRec.prems(2) by (auto intro: inj_on_subset)
  have keys: "k < (f, u) \<and> (f, u) < k' \<longrightarrow> k \<noteq> k'" for k k' :: "u32 \<times> byte list"
    by (metis order_less_asym)
  have disj: "a \<notin> snd ` node_set r" if "a \<in> snd ` node_set l" for a
  proof
    assume "a \<in> snd ` node_set r"
    with that obtain k k' where kk: "(k, a) \<in> node_set l" "(k', a) \<in> node_set r" by auto
    then have "k < (f, u)" "(f, u) < k'"
      using NodeRec.prems(1) by (metis fst_conv image_eqI node_ordered.simps(2))+
    moreover have "(k, a) = (k', a)"
      using kk by (intro inj_onD [OF NodeRec.prems(2)]) auto
    ultimately show False using keys by blast
  qed
  have not_k: "(k, b) \<notin> node_set l \<union> node_set r" for k
  proof
    assume k: "(k, b) \<in> node_set l \<union> node_set r"
    then have "(k, b) = ((f, u), b)"
      by (intro inj_onD [OF NodeRec.prems(2)]) auto
    moreover have "k < (f, u) \<or> (f, u) < k"
      using k NodeRec.prems(1) by (metis Un_iff fst_conv image_eqI node_ordered.simps(2))
    ultimately show False by (metis order_less_irrefl prod.inject)
  qed
  then have top: "b \<notin> snd ` node_set l \<union> snd ` node_set r" by force
  show ?case
    using NodeRec.IH NodeRec.prems(1) inj disj top by (auto simp: node_set_FreeAtom)
qed

text \<open>C24: Freeing the table frees each string the server copied exactly once: the strings of
  the atoms above the predefined ones, each atom once, and no shared string of a predefined
  atom.\<close>

theorem FreeAtom_frees_each_copy_once:
  assumes "atom_inv s"
  shows "distinct (FreeAtom (atomRoot s)) \<and>
         set (FreeAtom (atomRoot s)) = {XA_LAST_PREDEFINED + 1..lastAtom s}"
proof -
  have ns: "node_set (atomRoot s) =
      {((atom_fingerprint str (length str), str), a) | a str. nodeTable s a = Some str}"
    and ord: "node_ordered (atomRoot s)" using assms by (auto simp: atom_inv_def)
  have "inj_on snd (node_set (atomRoot s))"
    unfolding ns inj_on_def by auto
  moreover have "snd ` node_set (atomRoot s) = dom (nodeTable s)"
    unfolding ns by (auto simp: dom_def image_iff)
  then have "snd ` node_set (atomRoot s) = {1..lastAtom s}"
    using assms by (simp add: atom_inv_def)
  ultimately show ?thesis
    using FreeAtom_distinct [OF ord] by (auto simp: node_set_FreeAtom)
qed

theorem FreeAtom_frees_each_copy_once_witness: "distinct (FreeAtom (atomRoot small_table))"
  using FreeAtom_frees_each_copy_once [of small_table] small_table_inv by simp

lemma MakePredeclaredAtoms_spec:
  assumes "atom_inv s" and "lastAtom s + length builtin \<le> XA_LAST_PREDEFINED"
    and "map snd builtin = [Suc (lastAtom s)..<Suc (lastAtom s) + length builtin]"
    and "distinct (abs_names s @ map fst builtin)" and "\<forall>n \<in> set (map fst builtin). nul_free n"
    and "\<And>k. mem k"
  shows "\<exists>s'. MakePredeclaredAtoms mem builtin s = Some s' \<and> atom_inv s' \<and>
    abs_names s' = abs_names s @ map fst builtin"
  using assms(1-5)
proof (induction builtin arbitrary: s)
  case Nil
  then show ?case by simp
next
  case (Cons b rest)
  obtain name xa where b: "b = (name, xa)" by fastforce
  obtain a s' where mk: "MakeAtom mem name (length name) True s = (a, s')" by fastforce
  have "xa # map snd rest = Suc (lastAtom s) # [Suc (Suc (lastAtom s))..<Suc (lastAtom s) + length (b # rest)]"
    using Cons.prems(3) b by (simp add: upt_conv_Cons del: upt_Suc)
  then have xa: "xa = Suc (lastAtom s)" and
    rest: "map snd rest = [Suc (Suc (lastAtom s))..<Suc (Suc (lastAtom s)) + length rest]"
    by (simp_all del: upt_Suc)
  have good: "good_name name (length name) s"
    using Cons.prems(5) b by (simp add: good_name_def strlen_nul_free)
  have "index_of name (abs_names s) = None"
    using Cons.prems(4) b by (auto simp: index_of_None)
  have room: "lastAtom s < 2 ^ 32 - 1" using Cons.prems(2) by (simp add: XA_LAST_PREDEFINED_def)
  then have sp: "spec_intern (abs_names s) name True = (Suc (lastAtom s), abs_names s @ [name])"
    using \<open>index_of name (abs_names s) = None\<close> by (simp add: spec_intern_def)
  have "atom_inv s' \<and> (a, abs_names s') = (Suc (lastAtom s), abs_names s @ [name])"
    using MakeAtom_spec [OF Cons.prems(1) good mk room] assms(6) sp by simp
  then have s': "atom_inv s'" "a = Suc (lastAtom s)" "abs_names s' = abs_names s @ [name]" by simp_all
  from arg_cong [OF s'(3), of length] have last: "lastAtom s' = Suc (lastAtom s)" by simp
  have "\<exists>s''. MakePredeclaredAtoms mem rest s' = Some s'' \<and> atom_inv s'' \<and>
    abs_names s'' = abs_names s' @ map fst rest"
    using Cons.prems b by (intro Cons.IH) (auto simp: s' last rest simp del: upt_Suc)
  with mk s' xa b show ?case by simp
qed

text \<open>Start-up: given the list of distinct built-in names numbered 1 to 68 and no allocation
  failure, \<open>InitAtoms\<close> (also when an older table is first freed) does not reach a
  \<open>FatalError\<close> and leaves a well-formed table that holds exactly those names, in order.\<close>

theorem InitAtoms_predefines:
  assumes "atomRoot s = NullNode \<longrightarrow> lastAtom s = 0" and "\<And>k. mem k"
    and "map snd builtin = [1..<Suc XA_LAST_PREDEFINED]"
    and "distinct (map fst builtin)" and "\<forall>n \<in> set (map fst builtin). nul_free n"
  shows "\<exists>s'. InitAtoms mem builtin True s = Some s' \<and> atom_inv s' \<and>
    abs_names s' = map fst builtin"
proof -
  let ?s1 = "(FreeAllAtoms s)\<lparr>tableLength := InitialTableSize, nodeTable := (\<lambda>_. None)\<rparr>"
  have s1: "?s1 = \<lparr>lastAtom = 0, atomRoot = NullNode, tableLength = InitialTableSize, nodeTable = (\<lambda>_. None)\<rparr>"
    using assms(1) by (simp add: FreeAllAtoms_def)
  have len: "length builtin = XA_LAST_PREDEFINED"
    using arg_cong [OF assms(3), of length] by (simp del: upt_Suc)
  have abs: "abs_names ?s1 = []" unfolding s1 by (simp add: abs_names_def)
  have "\<exists>s'. MakePredeclaredAtoms mem builtin ?s1 = Some s' \<and> atom_inv s' \<and>
    abs_names s' = abs_names ?s1 @ map fst builtin"
    unfolding s1 using assms(2-) len
    by (intro MakePredeclaredAtoms_spec)
      (simp_all add: empty_table_inv abs_names_def InitialTableSize_def XA_LAST_PREDEFINED_def)
  then obtain s' where s': "MakePredeclaredAtoms mem builtin ?s1 = Some s'" "atom_inv s'"
    "abs_names s' = map fst builtin" unfolding abs by auto
  from arg_cong [OF s'(3), of length] len have "lastAtom s' = XA_LAST_PREDEFINED" by simp
  with s' show ?thesis by (simp add: InitAtoms_def Let_def)
qed

theorem InitAtoms_predefines_witness:
  "\<exists>s'. InitAtoms (\<lambda>_. True) (map (\<lambda>n. (replicate n 65, n)) [1..<Suc XA_LAST_PREDEFINED]) True small_table = Some s'"
proof -
  let ?b = "map (\<lambda>n. (replicate n (65 :: byte), n)) [1..<Suc XA_LAST_PREDEFINED]"
  have fst: "map fst ?b = map (\<lambda>n. replicate n 65) [1..<Suc XA_LAST_PREDEFINED]" by simp
  have "inj_on (\<lambda>n. replicate n (65 :: byte)) A" for A by (rule inj_onI) (metis length_replicate)
  then have "distinct (map fst ?b)" unfolding fst by (simp add: distinct_map del: upt_Suc)
  moreover have "\<forall>n \<in> set (map fst ?b). nul_free n" by (auto simp: nul_free_def)
  moreover have "map snd ?b = [1..<Suc XA_LAST_PREDEFINED]" by (simp add: comp_def del: upt_Suc)
  moreover have "atomRoot small_table = NullNode \<longrightarrow> lastAtom small_table = 0"
    by (simp add: small_table_def)
  ultimately show ?thesis
    using InitAtoms_predefines [of small_table "\<lambda>_. True" ?b] by blast
qed

section \<open>Names with a NUL byte\<close>

text \<open>
  Outside \<open>good_name\<close>: the fingerprint covers all \<open>len\<close> bytes but \<open>strndup\<close> stops at a NUL,
  so two requested names become two atoms with one stored name.
\<close>

lemma nul_names_collide:
  "let s0 = \<lparr>lastAtom = 68, atomRoot = NullNode, tableLength = 256, nodeTable = (\<lambda>_. None)\<rparr>;
       (a, s1) = MakeAtom (\<lambda>_. True) [97] 1 True s0;
       (b, s2) = MakeAtom (\<lambda>_. True) [97, 0, 98] 3 True s1
   in a = 69 \<and> b = 70 \<and> NameForAtom s2 a = Some [97] \<and> NameForAtom s2 b = Some [97]"
  by code_simp

end
