(* ===== verification/Resources.thy ===== *)
theory Resources
  imports X_Prelude
begin

text \<open>
  The resource database of \<^verbatim>\<open>dix/resource.c\<close>: for each client a hash table from resource ids
  to resources, the table of resource types, and the allocation of ids. A client is its index;
  the C pointers to resource objects are addresses into \<open>obj_heap\<close>. Delete functions, the state
  callbacks and the security hook are parameters that may do anything to the state, so the loops
  that call them are partial functions whose termination is a theorem.
\<close>

section \<open>Resource ids\<close>

text \<open>The bit shifting loop that computes the logarithm.\<close>

function ilog2_loop :: "nat \<Rightarrow> nat \<Rightarrow> nat" where
  "ilog2_loop bits val = (if val \<noteq> 0 then ilog2_loop (bits + 1) (val div 2) else bits)"
  by pat_completeness auto
termination
  by (relation "measure snd") auto

declare ilog2_loop.simps [simp del]

definition ilog2 :: "int \<Rightarrow> nat" where
  "ilog2 val = (if val \<le> 0 then 0 else ilog2_loop 0 (nat val) - 1)"

text \<open>
  \<open>ResourceClientBits\<close> keeps the last limit and its logarithm in static variables; the pair is
  passed along here. Everything else uses the logarithm itself.
\<close>

definition ResourceClientBits :: "int \<Rightarrow> nat \<times> int \<Rightarrow> nat \<times> (nat \<times> int)" where
  "ResourceClientBits limit cache =
     (case cache of (cache_ilog2, cache_limit) \<Rightarrow>
        if limit \<noteq> cache_limit then (ilog2 limit, (ilog2 limit, limit))
        else (cache_ilog2, (cache_ilog2, cache_limit)))"

definition SERVER_BIT :: u32 where
  "SERVER_BIT = 0x40000000"

definition SERVER_MINID :: u32 where
  "SERVER_MINID = 32"

definition CLIENTOFFSET :: "int \<Rightarrow> nat" where
  "CLIENTOFFSET limit = 29 - ilog2 limit"

definition RESOURCE_CLIENT_MASK :: "int \<Rightarrow> u32" where
  "RESOURCE_CLIENT_MASK limit = push_bit (CLIENTOFFSET limit) (push_bit (ilog2 limit) 1 - 1)"

definition RESOURCE_ID_MASK :: "int \<Rightarrow> u32" where
  "RESOURCE_ID_MASK limit = push_bit (CLIENTOFFSET limit) 1 - 1"

definition CLIENT_BITS :: "int \<Rightarrow> u32 \<Rightarrow> u32" where
  "CLIENT_BITS limit xid = xid AND RESOURCE_CLIENT_MASK limit"

definition dixClientIdForXID :: "int \<Rightarrow> u32 \<Rightarrow> nat" where
  "dixClientIdForXID limit xid =
     unat (ucast (drop_bit (CLIENTOFFSET limit) (CLIENT_BITS limit xid)) :: u16)"

text \<open>The mask that \<open>dispatch.c\<close> gives each client: its index in the client field.\<close>

definition clientAsMask :: "int \<Rightarrow> nat \<Rightarrow> u32" where
  "clientAsMask limit client = push_bit (CLIENTOFFSET limit) (word_of_nat client)"

definition HashResourceID :: "int \<Rightarrow> u32 \<Rightarrow> nat \<Rightarrow> nat" where
  "HashResourceID limit xid numBits =
     (let i = xid AND RESOURCE_ID_MASK limit
      in if numBits < 9
         then unat ((i XOR drop_bit numBits i XOR drop_bit (2 * numBits) i)
                      AND NOT (push_bit numBits (NOT 0)))
         else unat ((i XOR drop_bit numBits i) AND NOT (push_bit numBits (NOT 0))))"

section \<open>State\<close>

type_synonym ptr = nat

definition RC_LASTPREDEF :: u32 where
  "RC_LASTPREDEF = 0x20000000"

definition RC_NEVERRETAIN :: u32 where
  "RC_NEVERRETAIN = 0x20000000"

definition RC_DRAWABLE :: u32 where
  "RC_DRAWABLE = 0x40000000"

definition RC_ANY :: u32 where
  "RC_ANY = NOT 0"

definition X11_RESTYPE_LASTPREDEF :: u32 where
  "X11_RESTYPE_LASTPREDEF = 9"

definition X11_RESTYPE_WINDOW :: u32 where "X11_RESTYPE_WINDOW = 1 OR RC_DRAWABLE"
definition X11_RESTYPE_PIXMAP :: u32 where "X11_RESTYPE_PIXMAP = 2 OR RC_DRAWABLE"
definition X11_RESTYPE_GC :: u32 where "X11_RESTYPE_GC = 3"
definition X11_RESTYPE_FONT :: u32 where "X11_RESTYPE_FONT = 4"

definition INITBUCKETS :: nat where "INITBUCKETS = 64"
definition INITHASHSIZE :: nat where "INITHASHSIZE = 6"
definition MAXHASHSIZE :: nat where "MAXHASHSIZE = 16"

record resource =
  res_id :: u32
  res_type :: u32
  res_value :: ptr

record client_resource =
  resources :: "resource list list"
  elements :: int
  buckets :: nat
  hashsize :: nat
  fakeID :: u32
  endFakeID :: u32

text \<open>The functions a resource type carries: the server's own by name, others by number.\<close>

datatype delete_type =
    NoopDDA | DeleteWindow | dixDestroyPixmap | FreeGC | CloseFont | FreeCursor | FreeColormap
  | FreeClientPixels | OtherClientGone | DeletePassiveGrab | ExtDelete nat

datatype size_type = DefaultBytes | WindowBytes | PixmapBytes | GcBytes | ExtBytes nat

datatype find_type = DefaultSubRes | WindowSubRes | GCSubRes | ExtSubRes nat

record resource_type =
  deleteFunc :: delete_type
  sizeFunc :: size_type
  findSubResFunc :: find_type
  errorValue :: x_status

record drawable =
  d_type :: nat
  d_id :: u32
  d_bitsPerPixel :: byte
  d_width :: u16
  d_height :: u16

record window_pixmaps =
  backgroundIsPixmap :: bool
  background_pixmap :: ptr
  border_pixmap :: ptr
  borderIsPixel :: bool

record gc_rec =
  gc_stipple :: ptr
  gc_tile :: ptr
  gc_tileIsPixel :: bool
  gc_font :: ptr

text \<open>The objects resources point at; windows and pixmaps start with their drawable.\<close>

record obj_heap =
  h_drawable :: "ptr \<Rightarrow> drawable"
  h_refcnt :: "ptr \<Rightarrow> u32"
  h_window :: "ptr \<Rightarrow> window_pixmaps"
  h_gc :: "ptr \<Rightarrow> gc_rec"

record 'w res_state =
  clientTable :: "nat \<Rightarrow> client_resource"
  resourceTypes :: "resource_type list"
  lastResourceType :: u32
  lastResourceClass :: u32
  TypeMask :: u32
  clientErrorValue :: "nat \<Rightarrow> u32"
  heap :: obj_heap
  world :: 'w

datatype resource_state = ResourceStateAdding | ResourceStateFreeing

text \<open>
  What the file relies on from outside: the client limit, each allocation, the delete functions,
  the state callbacks (the identity when none is registered), the security hook (None is the
  server's own lookups) and the save-set handling of a client that goes away.
\<close>

datatype res_alloc = AllocTypes | AllocBuckets | AllocResource | AllocTails | AllocRebuild

record 'w res_env =
  LimitClients :: int
  mem_ok :: "res_alloc \<Rightarrow> bool"
  run_delete :: "delete_type \<Rightarrow> ptr \<Rightarrow> u32 \<Rightarrow> 'w res_state \<Rightarrow> 'w res_state"
  state_callback :: "resource_state \<Rightarrow> resource \<Rightarrow> 'w res_state \<Rightarrow> 'w res_state"
  xace_resource :: "nat \<Rightarrow> u32 \<Rightarrow> u32 \<Rightarrow> ptr \<Rightarrow> u32 \<Rightarrow> 'w res_state \<Rightarrow> x_status"
  handle_save_set :: "nat \<Rightarrow> 'w res_state \<Rightarrow> 'w res_state"

abbreviation the_type :: "'w res_state \<Rightarrow> u32 \<Rightarrow> resource_type" where
  "the_type s t \<equiv> resourceTypes s ! unat (t AND TypeMask s)"

definition set_client :: "nat \<Rightarrow> (client_resource \<Rightarrow> client_resource) \<Rightarrow> 'w res_state \<Rightarrow> 'w res_state" where
  "set_client c f s = s\<lparr>clientTable := (clientTable s)(c := f (clientTable s c))\<rparr>"

definition set_chain :: "nat \<Rightarrow> nat \<Rightarrow> resource list \<Rightarrow> 'w res_state \<Rightarrow> 'w res_state" where
  "set_chain c b xs s = set_client c (\<lambda>r. r\<lparr>resources := (resources r)[b := xs]\<rparr>) s"

definition chain :: "'w res_state \<Rightarrow> nat \<Rightarrow> nat \<Rightarrow> resource list" where
  "chain s c b = resources (clientTable s c) ! b"

definition bucket_of :: "'w res_env \<Rightarrow> 'w res_state \<Rightarrow> nat \<Rightarrow> u32 \<Rightarrow> nat" where
  "bucket_of env s c xid = HashResourceID (LimitClients env) xid (hashsize (clientTable s c))"

section \<open>Resource types\<close>

definition predefTypes :: "resource_type list" where
  "predefTypes =
    [\<lparr>deleteFunc = NoopDDA, sizeFunc = DefaultBytes, findSubResFunc = DefaultSubRes, errorValue = BadValue\<rparr>,
     \<lparr>deleteFunc = DeleteWindow, sizeFunc = WindowBytes, findSubResFunc = WindowSubRes, errorValue = BadWindow\<rparr>,
     \<lparr>deleteFunc = dixDestroyPixmap, sizeFunc = PixmapBytes, findSubResFunc = DefaultSubRes, errorValue = BadPixmap\<rparr>,
     \<lparr>deleteFunc = FreeGC, sizeFunc = GcBytes, findSubResFunc = GCSubRes, errorValue = BadGC\<rparr>,
     \<lparr>deleteFunc = CloseFont, sizeFunc = DefaultBytes, findSubResFunc = DefaultSubRes, errorValue = BadFont\<rparr>,
     \<lparr>deleteFunc = FreeCursor, sizeFunc = DefaultBytes, findSubResFunc = DefaultSubRes, errorValue = BadCursor\<rparr>,
     \<lparr>deleteFunc = FreeColormap, sizeFunc = DefaultBytes, findSubResFunc = DefaultSubRes, errorValue = BadColor\<rparr>,
     \<lparr>deleteFunc = FreeClientPixels, sizeFunc = DefaultBytes, findSubResFunc = DefaultSubRes, errorValue = BadColor\<rparr>,
     \<lparr>deleteFunc = OtherClientGone, sizeFunc = DefaultBytes, findSubResFunc = DefaultSubRes, errorValue = BadValue\<rparr>,
     \<lparr>deleteFunc = DeletePassiveGrab, sizeFunc = DefaultBytes, findSubResFunc = DefaultSubRes, errorValue = BadValue\<rparr>]"

definition CreateNewResourceType ::
    "'w res_env \<Rightarrow> delete_type \<Rightarrow> 'w res_state \<Rightarrow> u32 \<times> 'w res_state" where
  "CreateNewResourceType env del s =
     (let next = lastResourceType s + 1
      in if next AND lastResourceClass s \<noteq> 0 then (0, s)
         else if \<not> mem_ok env AllocTypes then (0, s)
         else (next, s\<lparr>lastResourceType := next,
                 resourceTypes := take (unat next) (resourceTypes s) @
                   [\<lparr>deleteFunc = del, sizeFunc = DefaultBytes, findSubResFunc = DefaultSubRes,
                     errorValue = BadValue\<rparr>]\<rparr>))"

definition CreateNewResourceClass :: "'w res_state \<Rightarrow> u32 \<times> 'w res_state" where
  "CreateNewResourceClass s =
     (let next = drop_bit 1 (lastResourceClass s)
      in if next AND lastResourceType s \<noteq> 0 then (0, s)
         else (next, s\<lparr>lastResourceClass := next, TypeMask := next - 1\<rparr>))"

definition GetResourceTypeSizeFunc :: "'w res_state \<Rightarrow> u32 \<Rightarrow> size_type" where
  "GetResourceTypeSizeFunc s type = sizeFunc (the_type s type)"

definition update_type :: "u32 \<Rightarrow> (resource_type \<Rightarrow> resource_type) \<Rightarrow> 'w res_state \<Rightarrow> 'w res_state" where
  "update_type type f s =
     s\<lparr>resourceTypes := (resourceTypes s)[unat (type AND TypeMask s) := f (the_type s type)]\<rparr>"

definition SetResourceTypeSizeFunc :: "u32 \<Rightarrow> size_type \<Rightarrow> 'w res_state \<Rightarrow> 'w res_state" where
  "SetResourceTypeSizeFunc type f = update_type type (\<lambda>t. t\<lparr>sizeFunc := f\<rparr>)"

definition SetResourceTypeFindSubResFunc :: "u32 \<Rightarrow> find_type \<Rightarrow> 'w res_state \<Rightarrow> 'w res_state" where
  "SetResourceTypeFindSubResFunc type f = update_type type (\<lambda>t. t\<lparr>findSubResFunc := f\<rparr>)"

definition SetResourceTypeErrorValue :: "u32 \<Rightarrow> x_status \<Rightarrow> 'w res_state \<Rightarrow> 'w res_state" where
  "SetResourceTypeErrorValue type e = update_type type (\<lambda>t. t\<lparr>errorValue := e\<rparr>)"

definition InitClientResources :: "'w res_env \<Rightarrow> nat \<Rightarrow> 'w res_state \<Rightarrow> bool \<times> 'w res_state" where
  "InitClientResources env client s =
     (let s1 = (if client = 0
                then s\<lparr>lastResourceType := X11_RESTYPE_LASTPREDEF,
                       lastResourceClass := RC_LASTPREDEF, TypeMask := RC_LASTPREDEF - 1\<rparr>
                else s)
      in if client = 0 \<and> \<not> mem_ok env AllocTypes then (False, s1\<lparr>resourceTypes := []\<rparr>)
         else
           let s2 = (if client = 0 then s1\<lparr>resourceTypes := predefTypes\<rparr> else s1)
           in if \<not> mem_ok env AllocBuckets
              then (False, set_client client (\<lambda>r. r\<lparr>resources := []\<rparr>) s2)
              else
                let base = clientAsMask (LimitClients env) client
                             OR (if client \<noteq> 0 then SERVER_BIT else SERVER_MINID)
                in (True, set_client client (\<lambda>r.
                      \<lparr>resources = replicate INITBUCKETS [], elements = 0, buckets = INITBUCKETS,
                       hashsize = INITHASHSIZE, fakeID = base,
                       endFakeID = (base OR RESOURCE_ID_MASK (LimitClients env)) + 1\<rparr>) s2))"

section \<open>Size and sub-resource functions\<close>

record resource_size =
  resourceSize :: u64
  pixmapRefSize :: u64
  refCnt :: u64

definition GetDefaultBytes :: "resource_size" where
  "GetDefaultBytes = \<lparr>resourceSize = 0, pixmapRefSize = 0, refCnt = 1\<rparr>"

text \<open>The byte count is computed in \<open>int\<close> and sign-extended on return.\<close>

definition GetDrawableBytes :: "obj_heap \<Rightarrow> ptr \<Rightarrow> u64" where
  "GetDrawableBytes h p =
     (if p = 0 then 0
      else let bytesPerPixel = (ucast (drop_bit 3 (d_bitsPerPixel (h_drawable h p))) :: u32);
               numberOfPixels = (ucast (d_width (h_drawable h p)) :: u32) * ucast (d_height (h_drawable h p))
           in scast (numberOfPixels * bytesPerPixel))"

definition GetPixmapBytes :: "obj_heap \<Rightarrow> ptr \<Rightarrow> resource_size" where
  "GetPixmapBytes h p =
     (let ref = scast (h_refcnt h p) :: u64
      in if p \<noteq> 0 \<and> h_refcnt h p \<noteq> 0
         then let b = GetDrawableBytes h p
              in \<lparr>resourceSize = b, pixmapRefSize = b div ref, refCnt = ref\<rparr>
         else \<lparr>resourceSize = 0, pixmapRefSize = 0, refCnt = ref\<rparr>)"

text \<open>
  \<open>ext n\<close> is the size function an extension or driver installed under number \<open>n\<close>. The
  window and GC functions ask whatever function is installed for pixmaps; were a window function
  installed there they would call themselves, so the nesting is bounded by \<open>fuel\<close>, and one level
  is all that the predefined table needs.
\<close>

definition GetWindowBytes ::
    "(ptr \<Rightarrow> u32 \<Rightarrow> resource_size) \<Rightarrow> obj_heap \<Rightarrow> ptr \<Rightarrow> resource_size" where
  "GetWindowBytes pixmapSizeFunc h w =
     (let win = h_window h w;
          s1 = (if backgroundIsPixmap win
                then pixmapRefSize (pixmapSizeFunc (background_pixmap win)
                       (d_id (h_drawable h (background_pixmap win)))) else 0);
          s2 = (if border_pixmap win \<noteq> 0 \<and> \<not> borderIsPixel win
                then pixmapRefSize (pixmapSizeFunc (border_pixmap win)
                       (d_id (h_drawable h (border_pixmap win)))) else 0)
      in \<lparr>resourceSize = 0, pixmapRefSize = s1 + s2, refCnt = 1\<rparr>)"

definition GetGcBytes ::
    "(ptr \<Rightarrow> u32 \<Rightarrow> resource_size) \<Rightarrow> obj_heap \<Rightarrow> ptr \<Rightarrow> resource_size" where
  "GetGcBytes pixmapSizeFunc h p =
     (let gc = h_gc h p;
          s1 = (if gc_stipple gc \<noteq> 0
                then pixmapRefSize (pixmapSizeFunc (gc_stipple gc)
                       (d_id (h_drawable h (gc_stipple gc)))) else 0);
          s2 = (if gc_tile gc \<noteq> 0 \<and> \<not> gc_tileIsPixel gc
                then pixmapRefSize (pixmapSizeFunc (gc_tile gc)
                       (d_id (h_drawable h (gc_tile gc)))) else 0)
      in \<lparr>resourceSize = 0, pixmapRefSize = s1 + s2, refCnt = 1\<rparr>)"

fun run_size ::
    "nat \<Rightarrow> (nat \<Rightarrow> ptr \<Rightarrow> u32 \<Rightarrow> resource_size) \<Rightarrow> 'w res_state \<Rightarrow> size_type \<Rightarrow> ptr \<Rightarrow> u32 \<Rightarrow> resource_size"
where
  "run_size fuel ext s DefaultBytes p xid = GetDefaultBytes"
| "run_size fuel ext s PixmapBytes p xid = GetPixmapBytes (heap s) p"
| "run_size fuel ext s (ExtBytes n) p xid = ext n p xid"
| "run_size 0 ext s WindowBytes p xid = GetDefaultBytes"
| "run_size 0 ext s GcBytes p xid = GetDefaultBytes"
| "run_size (Suc fuel) ext s WindowBytes p xid =
     GetWindowBytes (run_size fuel ext s (GetResourceTypeSizeFunc s X11_RESTYPE_PIXMAP)) (heap s) p"
| "run_size (Suc fuel) ext s GcBytes p xid =
     GetGcBytes (run_size fuel ext s (GetResourceTypeSizeFunc s X11_RESTYPE_PIXMAP)) (heap s) p"

text \<open>The sub-resources a function reports: value, id and type of each call of \<open>func\<close>.\<close>

definition FindWindowSubRes :: "obj_heap \<Rightarrow> ptr \<Rightarrow> (ptr \<times> u32 \<times> u32) list" where
  "FindWindowSubRes h w =
     (let win = h_window h w
      in (if backgroundIsPixmap win
          then [(background_pixmap win, d_id (h_drawable h (background_pixmap win)), X11_RESTYPE_PIXMAP)]
          else []) @
         (if border_pixmap win \<noteq> 0 \<and> \<not> borderIsPixel win
          then [(background_pixmap win, d_id (h_drawable h (border_pixmap win)), X11_RESTYPE_PIXMAP)]
          else []))"

definition FindGCSubRes :: "obj_heap \<Rightarrow> ptr \<Rightarrow> (ptr \<times> u32 \<times> u32) list" where
  "FindGCSubRes h p =
     (let gc = h_gc h p
      in (if gc_stipple gc \<noteq> 0
          then [(gc_stipple gc, d_id (h_drawable h (gc_stipple gc)), X11_RESTYPE_PIXMAP)] else []) @
         (if gc_tile gc \<noteq> 0 \<and> \<not> gc_tileIsPixel gc
          then [(gc_tile gc, d_id (h_drawable h (gc_tile gc)), X11_RESTYPE_PIXMAP)] else []))"

definition FindSubResources ::
    "(nat \<Rightarrow> ptr \<Rightarrow> (ptr \<times> u32 \<times> u32) list) \<Rightarrow> 'w res_state \<Rightarrow> ptr \<Rightarrow> u32 \<Rightarrow>
     (ptr \<Rightarrow> u32 \<Rightarrow> u32 \<Rightarrow> 'c \<Rightarrow> 'c) \<Rightarrow> 'c \<Rightarrow> 'c" where
  "FindSubResources ext s resource type func cdata =
     fold (\<lambda>(v, i, t) c. func v i t c)
       (case findSubResFunc (the_type s type) of
          DefaultSubRes \<Rightarrow> []
        | WindowSubRes \<Rightarrow> FindWindowSubRes (heap s) resource
        | GCSubRes \<Rightarrow> FindGCSubRes (heap s) resource
        | ExtSubRes n \<Rightarrow> ext n resource) cdata"

section \<open>Looking up\<close>

definition in_use :: "'w res_env \<Rightarrow> 'w res_state \<Rightarrow> nat \<Rightarrow> bool" where
  "in_use env s cid \<longleftrightarrow> int cid < LimitClients env \<and> buckets (clientTable s cid) \<noteq> 0"

text \<open>Both lookups find the first entry of the id's chain that matches.\<close>

definition find_res :: "'w res_env \<Rightarrow> 'w res_state \<Rightarrow> u32 \<Rightarrow> (u32 \<Rightarrow> bool) \<Rightarrow> resource option" where
  "find_res env s xid P =
     (let cid = dixClientIdForXID (LimitClients env) xid
      in if in_use env s cid
         then find (\<lambda>r. res_id r = xid \<and> P (res_type r)) (chain s cid (bucket_of env s cid xid))
         else None)"

definition set_error_value :: "nat option \<Rightarrow> u32 \<Rightarrow> 'w res_state \<Rightarrow> 'w res_state" where
  "set_error_value client v s =
     (case client of None \<Rightarrow> s | Some c \<Rightarrow> s\<lparr>clientErrorValue := (clientErrorValue s)(c := v)\<rparr>)"

definition dixLookupResourceByType ::
    "'w res_env \<Rightarrow> u32 \<Rightarrow> u32 \<Rightarrow> nat option \<Rightarrow> u32 \<Rightarrow> 'w res_state \<Rightarrow> (x_status \<times> ptr) \<times> 'w res_state"
where
  "dixLookupResourceByType env xid rtype client mode s =
     (if rtype AND TypeMask s > lastResourceType s then ((BadImplementation, 0), s)
      else
        let s1 = set_error_value client xid s
        in case find_res env s xid (\<lambda>t. t = rtype) of
             None \<Rightarrow> ((errorValue (the_type s rtype), 0), s1)
           | Some res \<Rightarrow>
               (case client of
                  None \<Rightarrow> ((Success, res_value res), s1)
                | Some c \<Rightarrow>
                    let cid = xace_resource env c xid (res_type res) (res_value res) mode s1
                    in if cid = BadValue then ((errorValue (the_type s rtype), 0), s1)
                       else if cid \<noteq> Success then ((cid, 0), s1)
                       else ((Success, res_value res), s1)))"

definition dixLookupResourceByClass ::
    "'w res_env \<Rightarrow> u32 \<Rightarrow> u32 \<Rightarrow> nat option \<Rightarrow> u32 \<Rightarrow> 'w res_state \<Rightarrow> (x_status \<times> ptr) \<times> 'w res_state"
where
  "dixLookupResourceByClass env xid rclass client mode s =
     (let s1 = set_error_value client xid s
      in case find_res env s xid (\<lambda>t. t AND rclass \<noteq> 0) of
           None \<Rightarrow> ((BadValue, 0), s1)
         | Some res \<Rightarrow>
             (case client of
                None \<Rightarrow> ((Success, res_value res), s1)
              | Some c \<Rightarrow>
                  let cid = xace_resource env c xid (res_type res) (res_value res) mode s1
                  in if cid \<noteq> Success then ((cid, 0), s1) else ((Success, res_value res), s1)))"

text \<open>\<^verbatim>\<open>dix/dixutils.c\<close>: typed lookups on top of the two above.\<close>

definition M_WINDOW :: u32 where "M_WINDOW = 1"
definition M_DRAWABLE :: u32 where "M_DRAWABLE = 3"

definition dixLookupDrawable ::
    "'w res_env \<Rightarrow> u32 \<Rightarrow> nat \<Rightarrow> u32 \<Rightarrow> u32 \<Rightarrow> 'w res_state \<Rightarrow> (x_status \<times> ptr) \<times> 'w res_state" where
  "dixLookupDrawable env xid client type access s =
     (case dixLookupResourceByClass env xid RC_DRAWABLE (Some client) access s of
        ((rc, pTmp), s1) \<Rightarrow>
          let s2 = (if rc \<noteq> Success then set_error_value (Some client) xid s1 else s1)
          in if rc = BadValue then ((BadDrawable, 0), s2)
             else if rc \<noteq> Success then ((rc, 0), s2)
             else if push_bit (d_type (h_drawable (heap s2) pTmp)) 1
                       AND (if type \<noteq> 0 then type else M_DRAWABLE) = 0
             then ((BadMatch, 0), s2)
             else ((Success, pTmp), s2))"

definition dixLookupWindow ::
    "'w res_env \<Rightarrow> u32 \<Rightarrow> nat \<Rightarrow> u32 \<Rightarrow> 'w res_state \<Rightarrow> (x_status \<times> ptr) \<times> 'w res_state" where
  "dixLookupWindow env xid client access s =
     (case dixLookupDrawable env xid client M_WINDOW access s of
        ((rc, w), s1) \<Rightarrow>
          let rc1 = (if rc = BadMatch then BadWindow else rc);
              rc2 = (if rc1 = BadDrawable then BadWindow else rc1)
          in ((rc2, w), s1))"

definition dixLookupGC ::
    "'w res_env \<Rightarrow> u32 \<Rightarrow> nat \<Rightarrow> u32 \<Rightarrow> 'w res_state \<Rightarrow> (x_status \<times> ptr) \<times> 'w res_state" where
  "dixLookupGC env xid client access s =
     dixLookupResourceByType env xid X11_RESTYPE_GC (Some client) access s"

definition dixLookupFontable ::
    "'w res_env \<Rightarrow> u32 \<Rightarrow> nat \<Rightarrow> u32 \<Rightarrow> 'w res_state \<Rightarrow> (x_status \<times> ptr) \<times> 'w res_state" where
  "dixLookupFontable env xid client access s =
     (let s0 = set_error_value (Some client) xid s
      in case dixLookupResourceByType env xid X11_RESTYPE_FONT (Some client) access s0 of
           ((rc, font), s1) \<Rightarrow>
             if rc \<noteq> BadFont then ((rc, font), s1)
             else
               (case dixLookupResourceByType env xid X11_RESTYPE_GC (Some client) access s1 of
                  ((rc2, gc), s2) \<Rightarrow>
                    if rc2 = BadGC then ((BadFont, font), s2)
                    else if rc2 = Success then ((rc2, gc_font (h_gc (heap s2) gc)), s2)
                    else ((rc2, font), s2)))"

definition dixLookupResourceOwner ::
    "'w res_env \<Rightarrow> (nat \<Rightarrow> bool) \<Rightarrow> (nat option \<Rightarrow> nat \<Rightarrow> u32 \<Rightarrow> x_status) \<Rightarrow> u32 \<Rightarrow> nat option \<Rightarrow> u32 \<Rightarrow>
     'w res_state \<Rightarrow> (x_status \<times> nat option) \<times> 'w res_state" where
  "dixLookupResourceOwner env connected client_access xid client mode s =
     (let clientIndex = dixClientIdForXID (LimitClients env) xid;
          bad = (\<lambda>rc s. ((rc, None), set_error_value client xid s))
      in if clientIndex = 0 \<or> \<not> connected clientIndex \<or> xid AND SERVER_BIT \<noteq> 0 then bad BadValue s
         else
           (case dixLookupResourceByClass env xid RC_ANY client 16 s of
              ((rc, v), s1) \<Rightarrow>
                if rc \<noteq> Success then bad rc s1
                else
                  let rc2 = client_access client clientIndex mode
                  in if rc2 \<noteq> Success then bad rc2 s1 else ((Success, Some clientIndex), s1)))"

section \<open>Allocating ids\<close>

definition xid_used :: "'w res_env \<Rightarrow> 'w res_state \<Rightarrow> nat \<Rightarrow> u32 \<Rightarrow> bool" where
  "xid_used env s client xid \<longleftrightarrow> (\<exists>r \<in> set (chain s client (bucket_of env s client xid)). res_id r = xid)"

text \<open>The loop over \<open>id <= maxid\<close>, counted by the number of ids left.\<close>

fun AvailableID_loop :: "'w res_env \<Rightarrow> 'w res_state \<Rightarrow> nat \<Rightarrow> nat \<Rightarrow> u32 \<Rightarrow> u32" where
  "AvailableID_loop env s client 0 xid = 0"
| "AvailableID_loop env s client (Suc n) xid =
     (if xid_used env s client xid then AvailableID_loop env s client n (xid + 1) else xid)"

definition AvailableID :: "'w res_env \<Rightarrow> 'w res_state \<Rightarrow> nat \<Rightarrow> u32 \<Rightarrow> u32 \<Rightarrow> u32 \<Rightarrow> u32" where
  "AvailableID env s client xid maxid goodid =
     (if xid \<le> goodid \<and> goodid \<le> maxid then goodid
      else AvailableID_loop env s client (unat maxid + 1 - unat xid) xid)"

text \<open>One resource of the scan: the triple is \<open>id\<close>, \<open>maxid\<close>, \<open>goodid\<close>.\<close>

definition GetXIDRange_step ::
    "'w res_env \<Rightarrow> 'w res_state \<Rightarrow> nat \<Rightarrow> u32 \<times> u32 \<times> u32 \<Rightarrow> resource \<Rightarrow> u32 \<times> u32 \<times> u32" where
  "GetXIDRange_step env s client st res =
     (case st of (xid, maxid, goodid) \<Rightarrow>
        if res_id res < xid \<or> maxid < res_id res then (xid, maxid, goodid)
        else if maxid - res_id res \<le> res_id res - xid
        then let g = AvailableID env s client xid (res_id res - 1) goodid
             in if g \<noteq> 0 then (xid, res_id res - 1, g) else (res_id res + 1, maxid, g)
        else let g = AvailableID env s client (res_id res + 1) maxid goodid
             in if g = 0 then (xid, res_id res - 1, g) else (res_id res + 1, maxid, g))"

definition GetXIDRange ::
    "'w res_env \<Rightarrow> 'w res_state \<Rightarrow> nat \<Rightarrow> bool \<Rightarrow> u32 \<times> u32" where
  "GetXIDRange env s client server =
     (let base = clientAsMask (LimitClients env) client;
          xid = (if server then base OR (if client \<noteq> 0 then SERVER_BIT else SERVER_MINID) else base);
          maxid = xid OR RESOURCE_ID_MASK (LimitClients env);
          (lo, hi, good) = foldl (GetXIDRange_step env s client) (xid, maxid, 0)
                             (concat (resources (clientTable s client)))
      in if hi < lo then (0, 0) else (lo, hi))"

fun GetXIDList_loop ::
    "'w res_env \<Rightarrow> nat \<Rightarrow> nat \<Rightarrow> u32 \<Rightarrow> u32 list \<Rightarrow> 'w res_state \<Rightarrow> u32 list \<times> 'w res_state" where
  "GetXIDList_loop env 0 count xid pids s = (pids, s)"
| "GetXIDList_loop env (Suc n) count xid pids s =
     (if length pids < count
      then case dixLookupResourceByClass env xid RC_ANY (Some 0) 16 s of
             ((rc, val), s1) \<Rightarrow>
               GetXIDList_loop env n count (xid + 1) (if rc = BadValue then pids @ [xid] else pids) s1
      else (pids, s))"

definition GetXIDList ::
    "'w res_env \<Rightarrow> nat \<Rightarrow> nat \<Rightarrow> 'w res_state \<Rightarrow> u32 list \<times> 'w res_state" where
  "GetXIDList env client count s =
     (let xid = clientAsMask (LimitClients env) client;
          maxid = xid OR RESOURCE_ID_MASK (LimitClients env)
      in GetXIDList_loop env (unat maxid + 1 - unat xid) count xid [] s)"

text \<open>
  \<open>FakeClientID\<close> calls itself when the next id would be 0. The outer option is the recursion, the
  inner \<open>None\<close> is the \<open>FatalError\<close>; the boolean says whether the client was marked for an
  exception.
\<close>

partial_function (option) FakeClientID ::
    "'w res_env \<Rightarrow> nat \<Rightarrow> 'w res_state \<Rightarrow> (u32 \<times> bool \<times> 'w res_state) option option" where
  "FakeClientID env client s =
     (let xid = fakeID (clientTable s client);
          s1 = set_client client (\<lambda>r. r\<lparr>fakeID := xid + 1\<rparr>) s
      in if xid = 0 then FakeClientID env client s1
         else if xid \<noteq> endFakeID (clientTable s1 client) then Some (Some (xid, False, s1))
         else
           let (lo, hi) = GetXIDRange env s1 client True
           in if lo = 0 \<and> client = 0 then Some None
              else
                let marked = (lo = 0);
                    lo' = (if marked then clientAsMask (LimitClients env) client OR (SERVER_BIT * 3) else lo);
                    hi' = (if marked then lo' OR RESOURCE_ID_MASK (LimitClients env) else hi);
                    s2 = set_client client (\<lambda>r. r\<lparr>fakeID := lo' + 1, endFakeID := hi' + 1\<rparr>) s1
                in if lo' = 0 then FakeClientID env client s2 else Some (Some (lo', marked, s2)))"

section \<open>Adding\<close>

definition RebuildTable_insert ::
    "'w res_env \<Rightarrow> nat \<Rightarrow> resource list list \<Rightarrow> resource \<Rightarrow> resource list list" where
  "RebuildTable_insert env hs tbl res =
     (let h = HashResourceID (LimitClients env) (res_id res) hs in tbl[h := tbl ! h @ [res]])"

definition RebuildTable :: "'w res_env \<Rightarrow> nat \<Rightarrow> 'w res_state \<Rightarrow> 'w res_state" where
  "RebuildTable env client s =
     (if \<not> mem_ok env AllocTails \<or> \<not> mem_ok env AllocRebuild then s
      else set_client client (\<lambda>r.
        r\<lparr>hashsize := hashsize r + 1, buckets := 2 * buckets r,
          resources := foldl (RebuildTable_insert env (hashsize r + 1))
            (replicate (2 * buckets r) []) (concat (resources r))\<rparr>) s)"

text \<open>\<open>None\<close> is the \<open>FatalError\<close> for a client without a table.\<close>

definition AddResource ::
    "'w res_env \<Rightarrow> u32 \<Rightarrow> u32 \<Rightarrow> ptr \<Rightarrow> 'w res_state \<Rightarrow> (bool \<times> 'w res_state) option" where
  "AddResource env xid type value s =
     (let client = dixClientIdForXID (LimitClients env) xid;
          rrec = clientTable s client
      in if buckets rrec = 0 then None
         else
           let s1 = (if elements rrec \<ge> int (4 * buckets rrec) \<and> hashsize rrec < MAXHASHSIZE
                     then RebuildTable env client s else s);
               b = bucket_of env s1 client xid
           in if \<not> mem_ok env AllocResource
              then Some (False, run_delete env (deleteFunc (the_type s1 type)) value xid s1)
              else
                let res = \<lparr>res_id = xid, res_type = type, res_value = value\<rparr>;
                    s2 = set_chain client b (res # chain s1 client b) s1;
                    s3 = set_client client (\<lambda>r. r\<lparr>elements := elements r + 1\<rparr>) s2
                in Some (True, state_callback env ResourceStateAdding res s3))"

section \<open>Freeing\<close>

definition doFreeResource :: "'w res_env \<Rightarrow> resource \<Rightarrow> bool \<Rightarrow> 'w res_state \<Rightarrow> 'w res_state" where
  "doFreeResource env res skip s =
     (let s1 = state_callback env ResourceStateFreeing res s
      in if \<not> skip
         then run_delete env (deleteFunc (the_type s1 (res_type res))) (res_value res) (res_id res) s1
         else s1)"

definition remove_at :: "nat \<Rightarrow> 'a list \<Rightarrow> 'a list" where
  "remove_at i xs = take i xs @ drop (Suc i) xs"

text \<open>Taking the entry at position \<open>i\<close> out of a chain: \<open>*prev = res->next\<close> and one element less.\<close>

definition unlink_res :: "nat \<Rightarrow> nat \<Rightarrow> nat \<Rightarrow> 'w res_state \<Rightarrow> 'w res_state" where
  "unlink_res c b i s =
     set_client c (\<lambda>r. r\<lparr>elements := elements r - 1\<rparr>) (set_chain c b (remove_at i (chain s c b)) s)"

text \<open>
  The loop of \<open>FreeResource\<close>: \<open>i\<close> is how far \<open>prev\<close> is from the head of the chain. After a
  delete function that changed the element count the scan starts over.
\<close>

partial_function (option) FreeResource_loop ::
    "'w res_env \<Rightarrow> nat \<Rightarrow> nat \<Rightarrow> u32 \<Rightarrow> u32 \<Rightarrow> nat \<Rightarrow> 'w res_state \<Rightarrow> 'w res_state option" where
  "FreeResource_loop env c b xid skipType i s =
     (if i < length (chain s c b)
      then
        let res = chain s c b ! i
        in if res_id res = xid
           then
             let s1 = unlink_res c b i s;
                 s2 = doFreeResource env res (res_type res = skipType) s1
             in FreeResource_loop env c b xid skipType
                  (if elements (clientTable s2 c) \<noteq> elements (clientTable s1 c) then 0 else i) s2
           else FreeResource_loop env c b xid skipType (i + 1) s
      else Some s)"

definition FreeResource :: "'w res_env \<Rightarrow> u32 \<Rightarrow> u32 \<Rightarrow> 'w res_state \<Rightarrow> 'w res_state option" where
  "FreeResource env xid skipType s =
     (let cid = dixClientIdForXID (LimitClients env) xid
      in if in_use env s cid
         then FreeResource_loop env cid (bucket_of env s cid xid) xid skipType 0 s
         else Some s)"

text \<open>The first entry of a chain that matches, freed; both typed variants are this loop.\<close>

fun free_first ::
    "'w res_env \<Rightarrow> nat \<Rightarrow> nat \<Rightarrow> (resource \<Rightarrow> bool) \<Rightarrow> bool \<Rightarrow> resource list \<Rightarrow> nat \<Rightarrow> 'w res_state \<Rightarrow> 'w res_state"
where
  "free_first env c b P skipFree [] i s = s"
| "free_first env c b P skipFree (res # rest) i s =
     (if P res then doFreeResource env res skipFree (unlink_res c b i s)
      else free_first env c b P skipFree rest (i + 1) s)"

definition FreeResourceByType ::
    "'w res_env \<Rightarrow> u32 \<Rightarrow> u32 \<Rightarrow> bool \<Rightarrow> 'w res_state \<Rightarrow> 'w res_state" where
  "FreeResourceByType env xid type skipFree s =
     (let cid = dixClientIdForXID (LimitClients env) xid; b = bucket_of env s cid xid
      in if in_use env s cid
         then free_first env cid b (\<lambda>r. res_id r = xid \<and> res_type r = type) skipFree (chain s cid b) 0 s
         else s)"

definition FreeResourceByTypeValue ::
    "'w res_env \<Rightarrow> u32 \<Rightarrow> u32 \<Rightarrow> ptr \<Rightarrow> bool \<Rightarrow> 'w res_state \<Rightarrow> 'w res_state" where
  "FreeResourceByTypeValue env xid type value skipFree s =
     (let cid = dixClientIdForXID (LimitClients env) xid; b = bucket_of env s cid xid
      in if in_use env s cid
         then free_first env cid b (\<lambda>r. res_id r = xid \<and> res_type r = type \<and> res_value r = value)
                skipFree (chain s cid b) 0 s
         else s)"

fun change_first :: "(resource \<Rightarrow> bool) \<Rightarrow> ptr \<Rightarrow> resource list \<Rightarrow> (resource list) option" where
  "change_first P v [] = None"
| "change_first P v (r # rs) =
     (if P r then Some (r\<lparr>res_value := v\<rparr> # rs) else map_option ((#) r) (change_first P v rs))"

definition ChangeResourceValue ::
    "'w res_env \<Rightarrow> u32 \<Rightarrow> u32 \<Rightarrow> ptr \<Rightarrow> 'w res_state \<Rightarrow> bool \<times> 'w res_state" where
  "ChangeResourceValue env xid rtype value s =
     (let cid = dixClientIdForXID (LimitClients env) xid; b = bucket_of env s cid xid
      in if in_use env s cid
         then case change_first (\<lambda>r. res_id r = xid \<and> res_type r = rtype) value (chain s cid b) of
                None \<Rightarrow> (False, s)
              | Some ch \<Rightarrow> (True, set_chain cid b ch s)
         else (False, s))"

section \<open>Walking a client's resources\<close>

partial_function (option) FindClientResources_loop ::
    "nat \<Rightarrow> (resource \<Rightarrow> bool) \<Rightarrow> (resource \<Rightarrow> 'w res_state \<Rightarrow> 'w res_state) \<Rightarrow> nat \<Rightarrow> nat \<Rightarrow>
     'w res_state \<Rightarrow> 'w res_state option" where
  "FindClientResources_loop c P func b i s =
     (if b < buckets (clientTable s c)
      then
        if i < length (chain s c b)
        then
          let this = chain s c b ! i
          in if P this
             then
               let s1 = func this s
               in FindClientResources_loop c P func b
                    (if elements (clientTable s1 c) \<noteq> elements (clientTable s c) then 0 else i + 1) s1
             else FindClientResources_loop c P func b (i + 1) s
        else FindClientResources_loop c P func (b + 1) 0 s
      else Some s)"

definition the_client :: "nat option \<Rightarrow> nat" where
  "the_client client = (case client of None \<Rightarrow> 0 | Some c \<Rightarrow> c)"

definition FindClientResourcesByType ::
    "nat option \<Rightarrow> u32 \<Rightarrow> (ptr \<Rightarrow> u32 \<Rightarrow> 'w res_state \<Rightarrow> 'w res_state) \<Rightarrow> 'w res_state \<Rightarrow> 'w res_state option"
where
  "FindClientResourcesByType client type func s =
     FindClientResources_loop (the_client client) (\<lambda>r. type = 0 \<or> res_type r = type)
       (\<lambda>r. func (res_value r) (res_id r)) 0 0 s"

definition FindAllClientResources ::
    "nat option \<Rightarrow> (ptr \<Rightarrow> u32 \<Rightarrow> u32 \<Rightarrow> 'w res_state \<Rightarrow> 'w res_state) \<Rightarrow> 'w res_state \<Rightarrow> 'w res_state option"
where
  "FindAllClientResources client func s =
     FindClientResources_loop (the_client client) (\<lambda>_. True)
       (\<lambda>r. func (res_value r) (res_id r) (res_type r)) 0 0 s"

text \<open>
  The search with a caller's predicate: the captured \<open>next\<close> pointers make it a walk over the
  table as it was, while the predicate's own effects go to the state.
\<close>

fun complex_loop ::
    "u32 \<Rightarrow> (ptr \<Rightarrow> u32 \<Rightarrow> 'w res_state \<Rightarrow> bool \<times> 'w res_state) \<Rightarrow> resource list \<Rightarrow> 'w res_state \<Rightarrow>
     ptr \<times> 'w res_state" where
  "complex_loop type func [] s = (0, s)"
| "complex_loop type func (r # rs) s =
     (if type = 0 \<or> res_type r = type
      then case func (res_value r) (res_id r) s of
             (True, s1) \<Rightarrow> (res_value r, s1)
           | (False, s1) \<Rightarrow> complex_loop type func rs s1
      else complex_loop type func rs s)"

definition LookupClientResourceComplex ::
    "nat option \<Rightarrow> u32 \<Rightarrow> (ptr \<Rightarrow> u32 \<Rightarrow> 'w res_state \<Rightarrow> bool \<times> 'w res_state) \<Rightarrow> 'w res_state \<Rightarrow> ptr \<times> 'w res_state"
where
  "LookupClientResourceComplex client type func s =
     complex_loop type func (concat (resources (clientTable s (the_client client)))) s"

section \<open>Freeing a client's resources\<close>

partial_function (option) NeverRetain_loop ::
    "'w res_env \<Rightarrow> nat \<Rightarrow> nat \<Rightarrow> nat \<Rightarrow> 'w res_state \<Rightarrow> 'w res_state option" where
  "NeverRetain_loop env c b i s =
     (if b < buckets (clientTable s c)
      then
        if i < length (chain s c b)
        then
          let this = chain s c b ! i
          in if res_type this AND RC_NEVERRETAIN \<noteq> 0
             then
               let s1 = unlink_res c b i s;
                   s2 = doFreeResource env this False s1
               in NeverRetain_loop env c b
                    (if elements (clientTable s2 c) \<noteq> elements (clientTable s1 c) then 0 else i) s2
             else NeverRetain_loop env c b (i + 1) s
        else NeverRetain_loop env c (b + 1) 0 s
      else Some s)"

definition FreeClientNeverRetainResources ::
    "'w res_env \<Rightarrow> nat option \<Rightarrow> 'w res_state \<Rightarrow> 'w res_state option" where
  "FreeClientNeverRetainResources env client s =
     (case client of None \<Rightarrow> Some s | Some c \<Rightarrow> NeverRetain_loop env c 0 0 s)"

partial_function (option) FreeClient_loop ::
    "'w res_env \<Rightarrow> nat \<Rightarrow> nat \<Rightarrow> 'w res_state \<Rightarrow> 'w res_state option" where
  "FreeClient_loop env c b s =
     (if b < buckets (clientTable s c)
      then
        case chain s c b of
          [] \<Rightarrow> FreeClient_loop env c (b + 1) s
        | this # _ \<Rightarrow> FreeClient_loop env c b (doFreeResource env this False (unlink_res c b 0 s))
      else Some s)"

definition FreeClientResources ::
    "'w res_env \<Rightarrow> nat option \<Rightarrow> 'w res_state \<Rightarrow> 'w res_state option" where
  "FreeClientResources env client s =
     (case client of
        None \<Rightarrow> Some s
      | Some c \<Rightarrow>
          map_option (set_client c (\<lambda>r. r\<lparr>resources := [], buckets := 0\<rparr>))
            (FreeClient_loop env c 0 (handle_save_set env c s)))"

text \<open>Clients from the last to the first; \<open>n\<close> counts \<open>currentMaxClients\<close> down.\<close>

fun FreeAllResources ::
    "'w res_env \<Rightarrow> (nat \<Rightarrow> nat option) \<Rightarrow> nat \<Rightarrow> 'w res_state \<Rightarrow> 'w res_state option" where
  "FreeAllResources env clients 0 s = Some s"
| "FreeAllResources env clients (Suc i) s =
     (case (if buckets (clientTable s i) \<noteq> 0 then FreeClientResources env (clients i) s else Some s) of
        None \<Rightarrow> None
      | Some s1 \<Rightarrow> FreeAllResources env clients i s1)"

text \<open>Whether a client may use an id for a new resource.\<close>

definition LegalNewID ::
    "'w res_env \<Rightarrow> bool \<Rightarrow> u32 \<Rightarrow> nat \<Rightarrow> 'w res_state \<Rightarrow> bool \<times> 'w res_state" where
  "LegalNewID env panoramiX xid client s =
     (let mask = clientAsMask (LimitClients env) client;
          minid = mask OR (if client \<noteq> 0 then SERVER_BIT else SERVER_MINID);
          maxid = (fakeID (clientTable s client) OR RESOURCE_ID_MASK (LimitClients env)) + 1
      in if panoramiX \<and> minid \<le> xid \<and> xid \<le> maxid then (True, s)
         else if mask = (xid AND NOT (RESOURCE_ID_MASK (LimitClients env)))
         then case dixLookupResourceByClass env xid RC_ANY (Some 0) 16 s of
                ((rc, v), s1) \<Rightarrow> (rc = BadValue, s1)
         else (False, s))"

definition dixAllocServerXID :: "'w res_env \<Rightarrow> 'w res_state \<Rightarrow> (u32 \<times> bool \<times> 'w res_state) option option" where
  "dixAllocServerXID env s = FakeClientID env 0 s"

end
