(* ===== verification/Resource_Laws.thy ===== *)
theory Resource_Laws
  imports Resources "HOL-Library.Multiset"
begin

text \<open>
  What the resource database promises: the table invariant and its preservation, the abstract
  view of a table as the list of entries of each id, and the laws of adding, looking up, freeing
  and allocating ids over that view. When a client goes, the books of what is due and what was
  disposed of balance, whatever the delete functions do in between.
\<close>

section \<open>The invariant and the abstract view\<close>

definition table_inv :: "int \<Rightarrow> nat \<Rightarrow> client_resource \<Rightarrow> bool" where
  "table_inv L c r \<longleftrightarrow> buckets r \<noteq> 0 \<longrightarrow>
     length (resources r) = buckets r \<and> buckets r = 2 ^ hashsize r \<and>
     elements r = int (length (concat (resources r))) \<and>
     (\<forall>b < buckets r. \<forall>res \<in> set (resources r ! b).
        dixClientIdForXID L (res_id res) = c \<and> HashResourceID L (res_id res) (hashsize r) = b)"

definition res_inv :: "'w res_env \<Rightarrow> 'w res_state \<Rightarrow> bool" where
  "res_inv env s \<longleftrightarrow> (\<forall>c. table_inv (LimitClients env) c (clientTable s c))"

text \<open>The entries of an id, the most recently added first.\<close>

definition entries :: "'w res_env \<Rightarrow> 'w res_state \<Rightarrow> u32 \<Rightarrow> resource list" where
  "entries env s xid =
     (let c = dixClientIdForXID (LimitClients env) xid
      in if buckets (clientTable s c) = 0 then []
         else filter (\<lambda>r. res_id r = xid) (chain s c (bucket_of env s c xid)))"

section \<open>Hashing and tables\<close>

lemma not_push_not: "NOT (push_bit n (NOT 0)) = (mask n :: u32)"
  by (rule bit_word_eqI) (auto simp: bit_simps)

lemma unat_and_low: "unat (x AND NOT (push_bit n (NOT 0)) :: u32) < 2 ^ n"
proof -
  have "unat (take_bit n x) < 2 ^ n"
    by (simp add: unsigned_take_bit_eq take_bit_nat_less_exp)
  then show ?thesis by (simp add: not_push_not take_bit_eq_mask)
qed

lemma HashResourceID_less: "HashResourceID L xid n < 2 ^ n"
  unfolding HashResourceID_def Let_def by (cases "n < 9") (simp_all only: if_True if_False unat_and_low)

lemma clientTable_set_client [simp]:
  "clientTable (set_client c f s) = (clientTable s)(c := f (clientTable s c))"
  by (simp add: set_client_def)

lemma res_state_set_client [simp]:
  "resourceTypes (set_client c f s) = resourceTypes s" "TypeMask (set_client c f s) = TypeMask s"
  "lastResourceType (set_client c f s) = lastResourceType s" "heap (set_client c f s) = heap s"
  "lastResourceClass (set_client c f s) = lastResourceClass s" "world (set_client c f s) = world s"
  by (simp_all add: set_client_def)

lemma set_chain_simps [simp]:
  "resourceTypes (set_chain c b xs s) = resourceTypes s" "TypeMask (set_chain c b xs s) = TypeMask s"
  "lastResourceType (set_chain c b xs s) = lastResourceType s" "world (set_chain c b xs s) = world s"
  "heap (set_chain c b xs s) = heap s"
  by (simp_all add: set_chain_def)

lemma table_invD:
  assumes "res_inv env s" and "buckets (clientTable s c) \<noteq> 0"
  shows "length (resources (clientTable s c)) = buckets (clientTable s c)"
    and "buckets (clientTable s c) = 2 ^ hashsize (clientTable s c)"
    and "elements (clientTable s c) = int (length (concat (resources (clientTable s c))))"
    and "bucket_of env s c xid < length (resources (clientTable s c))"
    and "b < buckets (clientTable s c) \<Longrightarrow> res \<in> set (chain s c b) \<Longrightarrow>
           dixClientIdForXID (LimitClients env) (res_id res) = c \<and> bucket_of env s c (res_id res) = b"
  using assms HashResourceID_less [of "LimitClients env" xid "hashsize (clientTable s c)"]
  by (auto simp: res_inv_def table_inv_def bucket_of_def chain_def)

lemma length_concat_update:
  assumes "b < length xss"
  shows "length (concat (xss[b := ys])) + length (xss ! b) = length (concat xss) + length ys"
  using assms
proof (induction xss arbitrary: b)
  case (Cons xs xss)
  then show ?case by (cases b) auto
qed simp

lemma length_nth_le_concat: "b < length xss \<Longrightarrow> length (xss ! b) \<le> length (concat xss)"
proof (induction xss arbitrary: b)
  case (Cons xs xss)
  then show ?case by (cases b) (auto simp: trans_le_add2)
qed simp

text \<open>Replacing one chain and adjusting the count keeps the invariant.\<close>

lemma res_inv_set_chain:
  assumes "res_inv env s" and "buckets (clientTable s c) \<noteq> 0" and "b < buckets (clientTable s c)"
    and "\<forall>res \<in> set xs. dixClientIdForXID (LimitClients env) (res_id res) = c \<and>
           bucket_of env s c (res_id res) = b"
    and "d = int (length xs) - int (length (chain s c b))"
  shows "res_inv env (set_client c (\<lambda>r. r\<lparr>elements := elements r + d\<rparr>) (set_chain c b xs s))"
proof -
  have len: "b < length (resources (clientTable s c))"
    using assms(3) table_invD(1) [OF assms(1,2)] by simp
  have "int (length (concat ((resources (clientTable s c))[b := xs]))) =
      elements (clientTable s c) + d"
    using length_concat_update [OF len, of xs] table_invD(3) [OF assms(1,2)] assms(5)
    by (simp add: chain_def)
  moreover have "table_inv (LimitClients env) c (clientTable s c)"
    using assms(1) by (simp add: res_inv_def)
  ultimately have "table_inv (LimitClients env) c
      ((clientTable s c)\<lparr>resources := (resources (clientTable s c))[b := xs],
        elements := elements (clientTable s c) + d\<rparr>)"
    using assms(2,4) len
    by (auto simp: table_inv_def bucket_of_def nth_list_update)
  then show ?thesis
    using assms(1) by (simp add: res_inv_def set_chain_def)
qed

lemma chain_set_chain:
  "b < length (resources (clientTable s c)) \<Longrightarrow>
   chain (set_chain c b xs s) c' b' = (if c' = c \<and> b' = b then xs else chain s c' b')"
  by (auto simp: chain_def set_chain_def)

lemma chain_set_elements [simp]:
  "chain (set_client c (\<lambda>r. r\<lparr>elements := f r\<rparr>) s) c' b' = chain s c' b'"
  by (simp add: chain_def)

lemma bucket_of_simps [simp]:
  "bucket_of env (set_chain c b xs s) c' xid = bucket_of env s c' xid"
  "bucket_of env (set_client c (\<lambda>r. r\<lparr>elements := f r\<rparr>) s) c' xid = bucket_of env s c' xid"
  by (simp_all add: bucket_of_def set_chain_def)

lemma buckets_simps [simp]:
  "buckets (clientTable (set_chain c b xs s) c') = buckets (clientTable s c')"
  "hashsize (clientTable (set_chain c b xs s) c') = hashsize (clientTable s c')"
  "elements (clientTable (set_chain c b xs s) c') = elements (clientTable s c')"
  by (simp_all add: set_chain_def)

lemma entries_set_chain:
  assumes "res_inv env s" and "buckets (clientTable s c) \<noteq> 0" and "b < buckets (clientTable s c)"
  shows "entries env (set_client c (\<lambda>r. r\<lparr>elements := f r\<rparr>) (set_chain c b xs s)) xid =
    (if dixClientIdForXID (LimitClients env) xid = c \<and> bucket_of env s c xid = b
     then filter (\<lambda>r. res_id r = xid) xs else entries env s xid)"
  using assms table_invD(1) [OF assms(1,2)]
  by (auto simp: entries_def Let_def chain_set_chain)

section \<open>Rebuilding a table\<close>

lemma foldl_insert:
  assumes "\<forall>r \<in> set items. HashResourceID (LimitClients env) (res_id r) hs < length tbl"
  shows "length (foldl (RebuildTable_insert env hs) tbl items) = length tbl \<and>
    (\<forall>b < length tbl. foldl (RebuildTable_insert env hs) tbl items ! b =
       tbl ! b @ filter (\<lambda>r. HashResourceID (LimitClients env) (res_id r) hs = b) items)"
  using assms
proof (induction items arbitrary: tbl)
  case (Cons r items)
  have "length (RebuildTable_insert env hs tbl r) = length tbl"
    by (simp add: RebuildTable_insert_def Let_def)
  with Cons show ?case
    by (auto simp: RebuildTable_insert_def Let_def nth_list_update)
qed simp

lemma filter_concat_single:
  assumes "b < length xss" and "\<forall>b' < length xss. b' \<noteq> b \<longrightarrow> (\<forall>x \<in> set (xss ! b'). \<not> P x)"
  shows "filter P (concat xss) = filter P (xss ! b)"
  using assms
proof (induction xss arbitrary: b)
  case (Cons xs xss)
  show ?case
  proof (cases b)
    case 0
    have "filter P (concat xss) = []"
      using Cons.prems(2) 0 by (force simp: filter_empty_conv in_set_conv_nth)
    then show ?thesis using 0 by simp
  next
    case (Suc b')
    have "filter P xs = []"
      using Cons.prems(2) Suc by (force simp: filter_empty_conv)
    moreover have "filter P (concat xss) = filter P (xss ! b')"
      using Cons.prems Suc by (intro Cons.IH) auto
    ultimately show ?thesis using Suc by simp
  qed
qed simp

lemma length_concat_filter_partition:
  assumes "\<forall>x \<in> set xs. f x < m"
  shows "sum_list (map (\<lambda>b. length (filter (\<lambda>x. f x = b) xs)) [0..<m]) = length xs"
  using assms
proof (induction xs)
  case (Cons x xs)
  have "sum_list (map (\<lambda>b. length (filter (\<lambda>y. f y = b) (x # xs))) [0..<m]) =
    sum_list (map (\<lambda>b. (if f x = b then 1 else 0) + length (filter (\<lambda>y. f y = b) xs)) [0..<m])"
    by (intro arg_cong [where f = sum_list] map_cong) auto
  also have "\<dots> = (\<Sum>b\<leftarrow>[0..<m]. if f x = b then 1 else 0) + length xs"
    using Cons by (simp add: sum_list_addf)
  also have "(\<Sum>b\<leftarrow>[0..<m]. if f x = b then 1 else (0::nat)) = 1"
    using Cons.prems by (simp add: sum_list_distinct_conv_sum_set)
  finally show ?case by simp
qed simp

lemma concat_entry:
  assumes "res_inv env s" and "buckets (clientTable s c) \<noteq> 0"
  shows "r \<in> set (concat (resources (clientTable s c))) \<longleftrightarrow>
    (\<exists>b < buckets (clientTable s c). r \<in> set (chain s c b))"
  unfolding chain_def set_concat UN_iff by (metis table_invD(1) [OF assms] in_set_conv_nth)

lemma entries_concat:
  assumes "res_inv env s" and c: "c = dixClientIdForXID (LimitClients env) xid"
    and "buckets (clientTable s c) \<noteq> 0"
  shows "entries env s xid = filter (\<lambda>r. res_id r = xid) (concat (resources (clientTable s c)))"
proof -
  let ?rs = "resources (clientTable s c)"
  have "filter (\<lambda>r. res_id r = xid) (concat ?rs) = filter (\<lambda>r. res_id r = xid) (?rs ! bucket_of env s c xid)"
    using table_invD(1,4,5) [OF assms(1,3)] unfolding chain_def
    by (intro filter_concat_single) fastforce+
  then show ?thesis using assms(3) c by (simp add: entries_def Let_def chain_def)
qed

lemma RebuildTable_spec:
  assumes "res_inv env s" and "buckets (clientTable s c) \<noteq> 0"
  shows "res_inv env (RebuildTable env c s) \<and>
    (\<forall>xid. entries env (RebuildTable env c s) xid = entries env s xid) \<and>
    buckets (clientTable (RebuildTable env c s) c) \<noteq> 0 \<and>
    elements (clientTable (RebuildTable env c s) c) = elements (clientTable s c)"
proof (cases "mem_ok env AllocTails \<and> mem_ok env AllocRebuild")
  case False
  then show ?thesis using assms by (auto simp: RebuildTable_def)
next
  case True
  let ?r = "clientTable s c" and ?L = "LimitClients env"
  let ?items = "concat (resources ?r)" and ?m = "2 * buckets ?r" and ?hs = "hashsize ?r + 1"
  define new where "new = foldl (RebuildTable_insert env ?hs) (replicate ?m []) ?items"
  define r' where "r' = ?r\<lparr>hashsize := ?hs, buckets := ?m, resources := new\<rparr>"
  have s': "RebuildTable env c s = s\<lparr>clientTable := (clientTable s)(c := r')\<rparr>"
    using True by (simp add: RebuildTable_def set_client_def r'_def new_def)
  have m: "?m = 2 ^ ?hs" using table_invD(2) [OF assms] by simp
  have hash: "\<forall>r \<in> set ?items. HashResourceID ?L (res_id r) ?hs < ?m"
    unfolding m by (intro ballI HashResourceID_less)
  have len: "length new = ?m" and
    nth: "\<And>b. b < ?m \<Longrightarrow> new ! b = filter (\<lambda>r. HashResourceID ?L (res_id r) ?hs = b) ?items"
    using foldl_insert [of ?items env ?hs "replicate ?m []"] hash by (simp_all add: new_def)
  have new: "new = map (\<lambda>b. filter (\<lambda>r. HashResourceID ?L (res_id r) ?hs = b) ?items) [0..<?m]"
    by (rule nth_equalityI) (simp_all add: len nth)
  have count: "length (concat new) = length ?items"
    using length_concat_filter_partition [OF hash] by (subst new) (simp only: length_concat [of "map _ _"] map_map comp_def)
  have client: "\<And>r. r \<in> set ?items \<Longrightarrow> dixClientIdForXID ?L (res_id r) = c"
    using concat_entry [OF assms] table_invD(5) [OF assms] by blast
  have "table_inv ?L c r'"
    using assms(2) count len nth client m table_invD(3) [OF assms]
    by (auto simp: table_inv_def r'_def)
  then have inv: "res_inv env (RebuildTable env c s)"
    using assms(1) by (simp add: s' res_inv_def)
  have "entries env (RebuildTable env c s) xid = entries env s xid" for xid
  proof (cases "dixClientIdForXID ?L xid = c")
    case False
    then show ?thesis by (simp add: s' entries_def Let_def chain_def bucket_of_def)
  next
    case True
    have h: "HashResourceID ?L xid ?hs < ?m" unfolding m by (rule HashResourceID_less)
    have "entries env (RebuildTable env c s) xid = filter (\<lambda>r. res_id r = xid) (new ! HashResourceID ?L xid ?hs)"
      using True assms(2) by (simp add: s' entries_def Let_def chain_def bucket_of_def r'_def)
    also have "\<dots> = filter (\<lambda>r. res_id r = xid) ?items"
      unfolding nth [OF h] filter_filter by (rule filter_cong) auto
    also have "\<dots> = entries env s xid"
      using entries_concat [OF assms(1)] True assms(2) by simp
    finally show ?thesis .
  qed
  then show ?thesis using inv assms(2) by (simp add: s' r'_def)
qed

section \<open>Callbacks that keep out of the table\<close>

text \<open>
  Most delete functions and all state callbacks only work on their own objects: they change the
  world beyond the database (and a client's error value), not the table. \<open>tame\<close> is the weaker
  promise that the comments in the file ask for: they may free other resources, but add none.
\<close>

definition same_db :: "'w res_state \<Rightarrow> 'w res_state \<Rightarrow> bool" where
  "same_db s s' \<longleftrightarrow> clientTable s' = clientTable s \<and> resourceTypes s' = resourceTypes s \<and>
     lastResourceType s' = lastResourceType s \<and> lastResourceClass s' = lastResourceClass s \<and>
     TypeMask s' = TypeMask s"

definition quiet :: "'w res_env \<Rightarrow> bool" where
  "quiet env \<longleftrightarrow> (\<forall>d p x s. same_db s (run_delete env d p x s)) \<and>
     (\<forall>e r s. same_db s (state_callback env e r s)) \<and> (\<forall>c s. same_db s (handle_save_set env c s))"

definition frees_table :: "client_resource \<Rightarrow> client_resource \<Rightarrow> bool" where
  "frees_table t t' \<longleftrightarrow> buckets t' = buckets t \<and> hashsize t' = hashsize t \<and>
     elements t' \<le> elements t \<and> (elements t' = elements t \<longrightarrow> resources t' = resources t) \<and>
     (\<forall>b. set (resources t' ! b) \<subseteq> set (resources t ! b))"

definition frees_only :: "'w res_env \<Rightarrow> 'w res_state \<Rightarrow> 'w res_state \<Rightarrow> bool" where
  "frees_only env s s' \<longleftrightarrow>
     res_inv env s' \<and> (\<forall>c. frees_table (clientTable s c) (clientTable s' c))"

definition tame :: "'w res_env \<Rightarrow> bool" where
  "tame env \<longleftrightarrow> (\<forall>d p x s. res_inv env s \<longrightarrow> frees_only env s (run_delete env d p x s)) \<and>
     (\<forall>e r s. res_inv env s \<longrightarrow> frees_only env s (state_callback env e r s)) \<and>
     (\<forall>c s. res_inv env s \<longrightarrow> frees_only env s (handle_save_set env c s))"

lemma same_db_inv: "same_db s s' \<Longrightarrow> res_inv env s' \<longleftrightarrow> res_inv env s"
  by (simp add: same_db_def res_inv_def)

lemma same_db_entries: "same_db s s' \<Longrightarrow> entries env s' xid = entries env s xid"
  by (simp add: same_db_def entries_def Let_def chain_def bucket_of_def)

lemma same_db_refl [simp]: "same_db s s"
  by (simp add: same_db_def)

lemma same_db_trans: "same_db a b \<Longrightarrow> same_db b c \<Longrightarrow> same_db a c"
  by (simp add: same_db_def)

lemma same_db_frees_only: "same_db s s' \<Longrightarrow> res_inv env s \<Longrightarrow> frees_only env s s'"
  by (simp add: frees_only_def same_db_inv) (simp add: same_db_def frees_table_def)

lemma quiet_tame: "quiet env \<Longrightarrow> tame env"
  by (simp add: quiet_def tame_def same_db_frees_only)

lemma quiet_doFree: "quiet env \<Longrightarrow> same_db s (doFreeResource env res skip s)"
  by (cases skip) (simp_all add: quiet_def doFreeResource_def Let_def same_db_trans [where b = "state_callback env ResourceStateFreeing res s"])

lemma frees_table_trans:
  assumes "frees_table a b" and "frees_table b c"
  shows "frees_table a c"
proof -
  note ab = assms(1) [unfolded frees_table_def] and bc = assms(2) [unfolded frees_table_def]
  have "resources c = resources a" if "elements c = elements a"
  proof -
    have "elements c \<le> elements b" "elements b \<le> elements a" using ab bc by blast+
    with that have "elements c = elements b" "elements b = elements a" by linarith+
    with ab bc have "resources c = resources b" "resources b = resources a" by blast+
    then show ?thesis by (rule trans)
  qed
  moreover have "elements c \<le> elements a" using ab bc order_trans by blast
  moreover have "buckets c = buckets a" "hashsize c = hashsize a"
    using ab bc by simp_all
  moreover have "set (resources c ! i) \<subseteq> set (resources a ! i)" for i
    using ab bc subset_trans by blast
  ultimately show ?thesis unfolding frees_table_def by blast
qed

lemma frees_only_trans:
  assumes "frees_only env a b" and "frees_only env b c"
  shows "frees_only env a c"
  using assms frees_table_trans unfolding frees_only_def by blast

lemma frees_only_refl: "res_inv env s \<Longrightarrow> frees_only env s s"
  by (simp add: frees_only_def frees_table_def)

lemma tame_doFree:
  assumes "tame env" and "res_inv env s"
  shows "frees_only env s (doFreeResource env res skip s)"
proof -
  let ?s1 = "state_callback env ResourceStateFreeing res s"
  have s1: "frees_only env s ?s1" using assms by (simp add: tame_def)
  then have "res_inv env ?s1" by (simp add: frees_only_def)
  with assms(1) have "\<And>d p x. frees_only env ?s1 (run_delete env d p x ?s1)" by (simp add: tame_def)
  with frees_only_trans [OF s1] s1 show ?thesis
    by (simp only: doFreeResource_def Let_def split: if_split) simp
qed

section \<open>Unlinking\<close>

lemma set_remove_at: "set (remove_at i xs) \<subseteq> set xs"
  by (auto simp: remove_at_def dest: in_set_takeD in_set_dropD)

lemma length_remove_at: "i < length xs \<Longrightarrow> length (remove_at i xs) = length xs - 1"
  by (simp add: remove_at_def)

lemma filter_remove_at:
  assumes "i < length xs" and "\<not> P (xs ! i)"
  shows "filter P (remove_at i xs) = filter P xs"
proof -
  have "filter P xs = filter P (take i xs @ xs ! i # drop (Suc i) xs)"
    using assms(1) by (simp add: id_take_nth_drop [symmetric])
  with assms(2) show ?thesis by (simp add: remove_at_def)
qed

lemma nth_remove_at: "j < i \<Longrightarrow> i < length xs \<Longrightarrow> remove_at i xs ! j = xs ! j"
  by (simp add: remove_at_def nth_append)

lemma unlink_inv:
  assumes "res_inv env s" and "buckets (clientTable s c) \<noteq> 0" and "b < buckets (clientTable s c)"
    and "i < length (chain s c b)"
  shows "res_inv env (unlink_res c b i s)"
proof -
  have "unlink_res c b i s = set_client c (\<lambda>r. r\<lparr>elements := elements r + (- 1)\<rparr>)
      (set_chain c b (remove_at i (chain s c b)) s)"
    by (simp add: unlink_res_def)
  moreover have "res_inv env \<dots>"
    using assms table_invD(5) [OF assms(1,2,3)] set_remove_at [of i "chain s c b"]
    by (intro res_inv_set_chain) (auto simp: length_remove_at)
  ultimately show ?thesis by simp
qed

lemma chain_unlink:
  assumes "res_inv env s" and "buckets (clientTable s c) \<noteq> 0" and "b < buckets (clientTable s c)"
  shows "chain (unlink_res c b i s) c' b' =
    (if c' = c \<and> b' = b then remove_at i (chain s c b) else chain s c' b')"
  using assms table_invD(1) [OF assms(1,2)] by (simp add: unlink_res_def chain_set_chain)

lemma unlink_fields [simp]:
  "buckets (clientTable (unlink_res c b i s) c') = buckets (clientTable s c')"
  "hashsize (clientTable (unlink_res c b i s) c') = hashsize (clientTable s c')"
  "elements (clientTable (unlink_res c b i s) c') = elements (clientTable s c') - (if c' = c then 1 else 0)"
  "bucket_of env (unlink_res c b i s) c' xid = bucket_of env s c' xid"
  by (auto simp: unlink_res_def bucket_of_def)

lemma unlink_frees_only:
  assumes "res_inv env s" and "buckets (clientTable s c) \<noteq> 0" and "b < buckets (clientTable s c)"
    and "i < length (chain s c b)"
  shows "frees_only env s (unlink_res c b i s)"
proof -
  have "set (chain (unlink_res c b i s) c' b') \<subseteq> set (chain s c' b')" for c' b'
    using chain_unlink [OF assms(1-3)] set_remove_at by (metis order_refl)
  moreover have "resources (clientTable (unlink_res c b i s) c') = resources (clientTable s c')" if "c' \<noteq> c" for c'
    using that by (simp add: unlink_res_def set_chain_def)
  ultimately show ?thesis
    using unlink_inv [OF assms] by (auto simp: frees_only_def frees_table_def chain_def)
qed

lemma unlink_entries:
  assumes "res_inv env s" and "buckets (clientTable s c) \<noteq> 0" and "b < buckets (clientTable s c)"
    and "i < length (chain s c b)" and "res_id (chain s c b ! i) \<noteq> y"
  shows "entries env (unlink_res c b i s) y = entries env s y"
  using assms filter_remove_at [OF assms(4), of "\<lambda>r. res_id r = y"]
  by (auto simp: entries_def Let_def chain_unlink [OF assms(1-3)])

lemma elements_pos:
  assumes "res_inv env s" and "buckets (clientTable s c) \<noteq> 0" and "b < buckets (clientTable s c)"
    and "i < length (chain s c b)"
  shows "0 < elements (clientTable s c)"
proof -
  have "length (chain s c b) \<le> length (concat (resources (clientTable s c)))"
    using length_nth_le_concat [of b "resources (clientTable s c)"] assms(3)
      table_invD(1) [OF assms(1,2)] by (simp add: chain_def)
  with assms(4) table_invD(3) [OF assms(1,2)] show ?thesis by linarith
qed

lemma frees_onlyD:
  assumes "frees_only env s s'"
  shows "res_inv env s'" "buckets (clientTable s' c) = buckets (clientTable s c)"
    "hashsize (clientTable s' c) = hashsize (clientTable s c)"
    "elements (clientTable s' c) \<le> elements (clientTable s c)"
    "elements (clientTable s' c) = elements (clientTable s c) \<Longrightarrow> chain s' c b = chain s c b"
    "set (chain s' c b) \<subseteq> set (chain s c b)"
    "bucket_of env s' c y = bucket_of env s c y"
  using assms by (auto simp: frees_only_def frees_table_def chain_def bucket_of_def)

text \<open>
  The scan of \<open>FreeResource\<close> ends: each entry it frees makes the table smaller, and between two
  of them it moves on.
\<close>

lemma FreeResource_loop_spec:
  assumes "tame env"
    and "res_inv env s" and "buckets (clientTable s c) \<noteq> 0" and "b < buckets (clientTable s c)"
    and "i \<le> length (chain s c b)" and "\<forall>j < i. res_id (chain s c b ! j) \<noteq> xid"
  shows "\<exists>s'. FreeResource_loop env c b xid sk i s = Some s' \<and> frees_only env s s' \<and>
    (\<forall>r \<in> set (chain s' c b). res_id r \<noteq> xid) \<and>
    (quiet env \<longrightarrow> (\<forall>y. y \<noteq> xid \<longrightarrow> entries env s' y = entries env s y))"
  using assms(2-)
proof (induction "nat (elements (clientTable s c))" arbitrary: s i rule: less_induct)
  case (less s)
  note outer = less.hyps
  show ?case
    using less.prems(4,5)
  proof (induction "length (chain s c b) - i" arbitrary: i rule: less_induct)
    case (less i)
    note inv = \<open>res_inv env s\<close> \<open>buckets (clientTable s c) \<noteq> 0\<close> \<open>b < buckets (clientTable s c)\<close>
    show ?case
    proof (cases "i < length (chain s c b)")
      case False
      with less.prems have "\<forall>r \<in> set (chain s c b). res_id r \<noteq> xid"
        by (auto simp: in_set_conv_nth)
      moreover have "FreeResource_loop env c b xid sk i s = Some s"
        using False by (simp add: FreeResource_loop.simps)
      ultimately show ?thesis using frees_only_refl [OF inv(1)] by blast
    next
      case i: True
      let ?res = "chain s c b ! i"
      show ?thesis
      proof (cases "res_id ?res = xid")
        case False
        then have "FreeResource_loop env c b xid sk i s = FreeResource_loop env c b xid sk (i + 1) s"
          using i by (subst FreeResource_loop.simps) (simp add: Let_def)
        then show ?thesis
          using less.hyps [of "i + 1"] i False less.prems by (auto simp: less_Suc_eq)
      next
        case True
        define s1 where "s1 = unlink_res c b i s"
        define s2 where "s2 = doFreeResource env ?res (res_type ?res = sk) s1"
        define i' where "i' = (if elements (clientTable s2 c) \<noteq> elements (clientTable s1 c) then 0 else i)"
        have f1: "frees_only env s s1" unfolding s1_def by (rule unlink_frees_only [OF inv i])
        have f2: "frees_only env s1 s2"
          unfolding s2_def by (rule tame_doFree [OF \<open>tame env\<close> frees_onlyD(1) [OF f1]])
        have f: "frees_only env s s2" by (rule frees_only_trans [OF f1 f2])
        have "elements (clientTable s2 c) \<le> elements (clientTable s c) - 1"
          using frees_onlyD(4) [OF f2, of c] by (simp add: s1_def)
        then have dec: "nat (elements (clientTable s2 c)) < nat (elements (clientTable s c))"
          using elements_pos [OF inv i] by linarith
        have ch1: "chain s1 c b = remove_at i (chain s c b)"
          unfolding s1_def by (simp add: chain_unlink [OF inv])
        have "i' \<le> length (chain s2 c b) \<and> (\<forall>j < i'. res_id (chain s2 c b ! j) \<noteq> xid)"
        proof (cases "i' = 0")
          case False
          then have "i' = i" "chain s2 c b = remove_at i (chain s c b)"
            using frees_onlyD(5) [OF f2] ch1 by (auto simp: i'_def split: if_splits)
          then show ?thesis
            using i less.prems by (auto simp: length_remove_at nth_remove_at)
        qed simp
        then obtain s' where s': "FreeResource_loop env c b xid sk i' s2 = Some s'"
            "frees_only env s2 s'" "\<forall>r \<in> set (chain s' c b). res_id r \<noteq> xid"
            "quiet env \<longrightarrow> (\<forall>y. y \<noteq> xid \<longrightarrow> entries env s' y = entries env s2 y)"
          using outer [of s2 i'] dec inv frees_onlyD(1,2) [OF f] by metis
        have "FreeResource_loop env c b xid sk i s = FreeResource_loop env c b xid sk i' s2"
          using i True by (subst FreeResource_loop.simps) (simp add: Let_def i'_def s1_def s2_def)
        moreover have "entries env s2 y = entries env s y" if "quiet env" "y \<noteq> xid" for y
          using same_db_entries [OF quiet_doFree [OF that(1)]] unlink_entries [OF inv i] True that(2)
          by (simp add: s2_def s1_def)
        ultimately show ?thesis using s' frees_only_trans [OF f s'(2)] by simp
      qed
    qed
  qed
qed

section \<open>Clients and ids\<close>

text \<open>The limits the command line accepts.\<close>

definition good_limit :: "int \<Rightarrow> bool" where
  "good_limit L \<longleftrightarrow> L = 64 \<or> L = 128 \<or> L = 256 \<or> L = 512 \<or> L = 1024 \<or> L = 2048"

lemma ilog2_values:
  "ilog2 64 = 6" "ilog2 128 = 7" "ilog2 256 = 8" "ilog2 512 = 9" "ilog2 1024 = 10" "ilog2 2048 = 11"
  by (simp_all add: ilog2_def ilog2_loop.simps)

lemma good_limit_log: "good_limit L \<Longrightarrow> L = 2 ^ ilog2 L \<and> 6 \<le> ilog2 L \<and> ilog2 L \<le> 11"
  by (auto simp: good_limit_def ilog2_values)

text \<open>The cache of \<open>ResourceClientBits\<close> never changes what it returns.\<close>

lemma ResourceClientBits_cache:
  assumes "cache_ilog2 = ilog2 cache_limit \<or> cache_limit = 0 \<and> cache_ilog2 = 0"
  shows "fst (ResourceClientBits limit (cache_ilog2, cache_limit)) = ilog2 limit \<and>
    snd (ResourceClientBits limit (cache_ilog2, cache_limit)) = (ilog2 limit, limit)"
  using assms by (auto simp: ResourceClientBits_def ilog2_def)

lemma client_bits_take:
  assumes "good_limit L"
  shows "drop_bit (CLIENTOFFSET L) (CLIENT_BITS L xid) = take_bit (ilog2 L) (drop_bit (CLIENTOFFSET L) xid)"
proof -
  have "push_bit (ilog2 L) 1 - 1 = (mask (ilog2 L) :: u32)"
    by (simp add: mask_eq_exp_minus_1 push_bit_eq_mult)
  moreover have "CLIENTOFFSET L + ilog2 L \<le> 32"
    using good_limit_log [OF assms] by (simp add: CLIENTOFFSET_def)
  ultimately show ?thesis
    unfolding CLIENT_BITS_def RESOURCE_CLIENT_MASK_def
    by (intro bit_word_eqI) (auto simp: bit_simps)
qed

lemma dixClientIdForXID_eq:
  assumes "good_limit L"
  shows "dixClientIdForXID L xid = unat (take_bit (ilog2 L) (drop_bit (CLIENTOFFSET L) xid))"
proof -
  have "unat (take_bit (ilog2 L) (drop_bit (CLIENTOFFSET L) xid)) < 2 ^ ilog2 L"
    by (simp add: unsigned_take_bit_eq take_bit_nat_less_exp)
  also have "(2::nat) ^ ilog2 L \<le> 2 ^ 11"
    using good_limit_log [OF assms] by (intro power_increasing) auto
  finally show ?thesis
    by (simp add: dixClientIdForXID_def client_bits_take [OF assms] unsigned_ucast_eq take_bit_nat_eq_self)
qed

lemma dixClientIdForXID_less:
  assumes "good_limit L"
  shows "int (dixClientIdForXID L xid) < L"
proof -
  have "unat (take_bit (ilog2 L) (drop_bit (CLIENTOFFSET L) xid)) < 2 ^ ilog2 L"
    by (simp add: unsigned_take_bit_eq take_bit_nat_less_exp)
  then have "int (dixClientIdForXID L xid) < int (2 ^ ilog2 L)"
    unfolding dixClientIdForXID_eq [OF assms] by (simp only: of_nat_less_iff)
  then show ?thesis using good_limit_log [OF assms] by simp
qed

section \<open>Looking up\<close>

lemma find_res_entries:
  assumes "good_limit (LimitClients env)"
  shows "find_res env s xid P = find (\<lambda>r. P (res_type r)) (entries env s xid)"
proof -
  have "find (\<lambda>r. res_id r = xid \<and> P (res_type r)) xs =
      find (\<lambda>r. P (res_type r)) (filter (\<lambda>r. res_id r = xid) xs)" for xs
    by (induction xs) auto
  then show ?thesis
    using dixClientIdForXID_less [OF assms]
    by (auto simp: find_res_def entries_def Let_def in_use_def)
qed

lemma set_error_value_db: "same_db s (set_error_value client v s)"
  by (auto simp: set_error_value_def same_db_def split: option.splits)

lemma lookup_None:
  assumes "good_limit (LimitClients env)"
  shows "fst (dixLookupResourceByType env xid rtype None mode s) =
      (if rtype AND TypeMask s > lastResourceType s then (BadImplementation, 0)
       else case find (\<lambda>r. res_type r = rtype) (entries env s xid) of
              None \<Rightarrow> (errorValue (the_type s rtype), 0) | Some r \<Rightarrow> (Success, res_value r))"
    and "fst (dixLookupResourceByClass env xid rclass None mode s) =
      (case find (\<lambda>r. res_type r AND rclass \<noteq> 0) (entries env s xid) of
         None \<Rightarrow> (BadValue, 0) | Some r \<Rightarrow> (Success, res_value r))"
  by (simp_all add: dixLookupResourceByType_def dixLookupResourceByClass_def Let_def
      find_res_entries [OF assms] set_error_value_def split: option.split)

section \<open>Adding\<close>

lemma RebuildTable_types:
  "resourceTypes (RebuildTable env c s) = resourceTypes s"
  "TypeMask (RebuildTable env c s) = TypeMask s"
  "lastResourceType (RebuildTable env c s) = lastResourceType s"
  by (simp_all add: RebuildTable_def)

text \<open>
  State callbacks leave the tables alone; the one in the server, that of SELinux, labels windows with
  properties.
\<close>

definition quiet_callbacks :: "'w res_env \<Rightarrow> bool" where
  "quiet_callbacks env \<longleftrightarrow> (\<forall>e r s. same_db s (state_callback env e r s))"

lemma AddResource_spec:
  assumes "res_inv env s" and "quiet_callbacks env" and c: "c = dixClientIdForXID (LimitClients env) xid"
    and "buckets (clientTable s c) \<noteq> 0" and True: "mem_ok env AllocResource"
  shows "\<exists>s'. AddResource env xid type v s = Some (True, s') \<and> res_inv env s' \<and>
    (\<forall>y. entries env s' y =
       (if y = xid
        then \<lparr>res_id = xid, res_type = type, res_value = v\<rparr> # entries env s xid
        else entries env s y)) \<and>
    resourceTypes s' = resourceTypes s \<and> TypeMask s' = TypeMask s \<and>
    lastResourceType s' = lastResourceType s"
proof -
  let ?r = "\<lparr>res_id = xid, res_type = type, res_value = v\<rparr>"
  define s1 where "s1 = (if elements (clientTable s c) \<ge> int (4 * buckets (clientTable s c)) \<and>
    hashsize (clientTable s c) < MAXHASHSIZE then RebuildTable env c s else s)"
  have s1: "res_inv env s1" "\<And>y. entries env s1 y = entries env s y" "buckets (clientTable s1 c) \<noteq> 0"
    "resourceTypes s1 = resourceTypes s" "TypeMask s1 = TypeMask s" "lastResourceType s1 = lastResourceType s"
    using RebuildTable_spec [OF assms(1,4)] assms(1,4) by (auto simp: s1_def RebuildTable_types)
  let ?b = "bucket_of env s1 c xid"
  define s3 where "s3 = set_client c (\<lambda>r. r\<lparr>elements := elements r + 1\<rparr>)
    (set_chain c ?b (?r # chain s1 c ?b) s1)"
  define s' where "s' = state_callback env ResourceStateAdding ?r s3"
  have add: "AddResource env xid type v s = Some (True, s')"
    unfolding AddResource_def Let_def c [symmetric] s1_def [symmetric] s'_def s3_def
    using assms(4) True by simp
  have b: "?b < buckets (clientTable s1 c)"
    using table_invD(1,4) [OF s1(1,3)] by simp
  have inv: "res_inv env s3"
    unfolding s3_def using s1(1,3) b table_invD(5) [OF s1(1,3) b] c
    by (intro res_inv_set_chain) auto
  have "entries env s3 y = (if y = xid then ?r # entries env s1 xid else entries env s1 y)" for y
    unfolding s3_def entries_set_chain [OF s1(1,3) b]
    using s1(3) c by (auto simp: entries_def Let_def)
  moreover have db: "same_db s3 s'" using assms(2) by (simp add: s'_def quiet_callbacks_def)
  moreover have "same_db s3 s' \<Longrightarrow> resourceTypes s' = resourceTypes s \<and> TypeMask s' = TypeMask s \<and>
      lastResourceType s' = lastResourceType s"
    using s1(4-6) by (simp add: same_db_def s3_def)
  ultimately show ?thesis
    using add inv True s1(2) same_db_inv [OF db] same_db_entries [OF db] by simp
qed

text \<open>C14: When state callbacks leave the tables alone and the node can be allocated, adding a resource of a
  registered type for a client that has a table makes it the one its id and type (or any of its classes)
  look up to in the server's own lookups, whether or not the table is rebuilt on the way and whether or
  not the rebuild finds memory; every lookup of another id, or of another type under the same id, is as
  before, and the tables stay well formed. Nothing is asked of the delete functions: none is called.\<close>

theorem AddResource_then_lookup:
  assumes "res_inv env s" and "quiet_callbacks env" and "good_limit (LimitClients env)"
    and "buckets (clientTable s (dixClientIdForXID (LimitClients env) xid)) \<noteq> 0"
    and "mem_ok env AllocResource" and "type AND TypeMask s \<le> lastResourceType s"
  shows "\<exists>s'. AddResource env xid type v s = Some (True, s') \<and> res_inv env s' \<and>
    fst (dixLookupResourceByType env xid type None mode s') = (Success, v) \<and>
    (type AND rclass \<noteq> 0 \<longrightarrow> fst (dixLookupResourceByClass env xid rclass None mode s') = (Success, v)) \<and>
    (y \<noteq> xid \<or> t \<noteq> type \<longrightarrow>
       fst (dixLookupResourceByType env y t None mode s') = fst (dixLookupResourceByType env y t None mode s))"
proof -
  obtain s' where s': "AddResource env xid type v s = Some (True, s')" "res_inv env s'"
    "\<And>y. entries env s' y = (if y = xid then \<lparr>res_id = xid, res_type = type, res_value = v\<rparr> # entries env s xid
       else entries env s y)"
    "resourceTypes s' = resourceTypes s" "TypeMask s' = TypeMask s" "lastResourceType s' = lastResourceType s"
    using AddResource_spec [OF assms(1,2) refl assms(4,5), of type v] by auto
  then show ?thesis
    using assms(6) unfolding lookup_None [OF assms(3)] by (intro exI [of _ s']) (auto split: option.split)
qed

section \<open>Freeing\<close>

text \<open>C22: Freeing an id ends and leaves no resource under it, for any delete functions and
  callbacks that only ever free resources in turn (each scan that they disturb starts over); the
  tables stay well formed. If they leave the tables alone, no other id is affected.\<close>

theorem FreeResource_frees_all:
  assumes "res_inv env s" and "tame env" and "good_limit (LimitClients env)"
  shows "\<exists>s'. FreeResource env xid skipType s = Some s' \<and> frees_only env s s' \<and>
    entries env s' xid = [] \<and>
    (quiet env \<longrightarrow> (\<forall>y. y \<noteq> xid \<longrightarrow> entries env s' y = entries env s y))"
proof -
  let ?c = "dixClientIdForXID (LimitClients env) xid"
  show ?thesis
  proof (cases "buckets (clientTable s ?c) = 0")
    case True
    then show ?thesis
      using frees_only_refl [OF assms(1)] by (simp add: FreeResource_def Let_def in_use_def entries_def)
  next
    case False
    let ?b = "bucket_of env s ?c xid"
    have b: "?b < buckets (clientTable s ?c)" using table_invD(1,4) [OF assms(1) False] by simp
    obtain s' where s': "FreeResource_loop env ?c ?b xid skipType 0 s = Some s'" "frees_only env s s'"
      "\<forall>r \<in> set (chain s' ?c ?b). res_id r \<noteq> xid"
      "quiet env \<longrightarrow> (\<forall>y. y \<noteq> xid \<longrightarrow> entries env s' y = entries env s y)"
      using FreeResource_loop_spec [OF assms(2,1) False b, of 0 xid skipType] by auto
    have "entries env s' xid = []"
      using s'(3) frees_onlyD(7) [OF s'(2)] by (simp add: entries_def Let_def filter_empty_conv)
    then show ?thesis
      using s' False dixClientIdForXID_less [OF assms(3)]
      by (simp add: FreeResource_def Let_def in_use_def)
  qed
qed

lemma free_first_spec:
  assumes "quiet env" and "res_inv env s" and "buckets (clientTable s c) \<noteq> 0"
    and "b < buckets (clientTable s c)" and "drop i (chain s c b) = rest"
  shows "res_inv env (free_first env c b P skip rest i s) \<and>
    chain (free_first env c b P skip rest i s) c' b' =
      (if c' = c \<and> b' = b then take i (chain s c b) @ remove_first P rest else chain s c' b') \<and>
    buckets (clientTable (free_first env c b P skip rest i s) c') = buckets (clientTable s c') \<and>
    hashsize (clientTable (free_first env c b P skip rest i s) c') = hashsize (clientTable s c')"
  using assms(5)
proof (induction rest arbitrary: i)
  case Nil
  then show ?case using assms(2) by simp
next
  case (Cons r rest)
  then have i: "i < length (chain s c b)" and r: "chain s c b ! i = r" and
    rest: "drop (Suc i) (chain s c b) = rest"
    by (metis drop_eq_Nil list.discI not_le, metis nth_via_drop, metis drop_Suc list.sel(3) tl_drop)
  show ?case
  proof (cases "P r")
    case True
    let ?s1 = "unlink_res c b i s"
    have db: "same_db ?s1 (doFreeResource env r skip ?s1)" by (rule quiet_doFree [OF assms(1)])
    then show ?thesis
      using True rest unlink_inv [OF assms(2-4) i] same_db_inv [OF db] chain_unlink [OF assms(2-4), of i]
      by (simp add: same_db_def chain_def remove_at_def)
  next
    case False
    then show ?thesis
      using Cons.IH [of "i + 1"] rest i r by (simp add: take_Suc_conv_app_nth)
  qed
qed

lemma FreeResourceByType_like:
  assumes "quiet env" and "res_inv env s" and "good_limit (LimitClients env)"
    and F: "F = (let cid = dixClientIdForXID (LimitClients env) xid; b = bucket_of env s cid xid
      in if in_use env s cid
         then free_first env cid b (\<lambda>r. res_id r = xid \<and> Q r) skip (chain s cid b) 0 s else s)"
  shows "res_inv env F \<and>
    entries env F y = (if y = xid then remove_first Q (entries env s xid) else entries env s y)"
proof -
  let ?c = "dixClientIdForXID (LimitClients env) xid"
  let ?b = "bucket_of env s ?c xid"
  show ?thesis
  proof (cases "buckets (clientTable s ?c) = 0")
    case True
    then show ?thesis using assms(2) F by (simp add: in_use_def entries_def)
  next
    case False
    let ?P = "\<lambda>r. res_id r = xid \<and> Q r"
    have b: "?b < buckets (clientTable s ?c)" using table_invD(1,4) [OF assms(2) False] by simp
    have F': "F = free_first env ?c ?b ?P skip (chain s ?c ?b) 0 s"
      using F False dixClientIdForXID_less [OF assms(3)] by (simp add: Let_def in_use_def)
    note spec = free_first_spec [OF assms(1,2) False b drop_0, of ?P skip, folded F', simplified]
    have bk: "bucket_of env F c' z = bucket_of env s c' z" for c' z
      using spec by (simp add: bucket_of_def)
    have "filter (\<lambda>r. res_id r = xid) (remove_first ?P xs) =
        remove_first Q (filter (\<lambda>r. res_id r = xid) xs)" for xs
      by (induction xs) auto
    moreover have "filter (\<lambda>r. res_id r = y) (remove_first ?P xs) = filter (\<lambda>r. res_id r = y) xs"
      if "y \<noteq> xid" for xs
      using that by (intro filter_remove_first) auto
    ultimately show ?thesis
      using spec False by (auto simp: entries_def Let_def bk)
  qed
qed

text \<open>Freeing by id and type (or by id, type and value) removes exactly the entry that the
  lookup of that id and type finds first (with that value), and nothing else; the tables stay
  well formed.\<close>

theorem FreeResourceByType_frees_one:
  assumes "quiet env" and "res_inv env s" and "good_limit (LimitClients env)"
  shows "(let s' = FreeResourceByType env xid type skip s
     in res_inv env s' \<and> (\<forall>y. entries env s' y =
       (if y = xid then remove_first (\<lambda>r. res_type r = type) (entries env s xid) else entries env s y))) \<and>
   (let s' = FreeResourceByTypeValue env xid type value skip s
     in res_inv env s' \<and> (\<forall>y. entries env s' y =
       (if y = xid then remove_first (\<lambda>r. res_type r = type \<and> res_value r = value) (entries env s xid)
        else entries env s y)))"
  using FreeResourceByType_like [OF assms FreeResourceByType_def]
    FreeResourceByType_like [OF assms FreeResourceByTypeValue_def]
  by (simp add: Let_def)

section \<open>A client that goes away\<close>

text \<open>
  What is disposed of: the function that a resource is due to, its value and id. A delete function may
  free other resources; destroying a window takes the windows below it out of the table and destroys
  them with it. \<open>disposed\<close> reads from the world what was disposed of up to now. The books balance when what
  a table loses is disposed of, each resource once, and no resource comes to a table.
\<close>

type_synonym delete_call = "delete_type \<times> ptr \<times> u32"

type_synonym delete_log = "delete_call list"

definition delete_call :: "'w res_state \<Rightarrow> resource \<Rightarrow> delete_call" where
  "delete_call s r = (deleteFunc (the_type s (res_type r)), res_value r, res_id r)"

definition due :: "'w res_state \<Rightarrow> nat \<Rightarrow> delete_call multiset" where
  "due s c = (if buckets (clientTable s c) = 0 then {#}
     else mset (map (delete_call s) (concat (resources (clientTable s c)))))"

definition of_client :: "'w res_env \<Rightarrow> nat \<Rightarrow> delete_call multiset \<Rightarrow> delete_call multiset" where
  "of_client env c M = filter_mset (\<lambda>(d, p, x). dixClientIdForXID (LimitClients env) x = c) M"

definition balanced ::
    "'w res_env \<Rightarrow> ('w \<Rightarrow> delete_call multiset) \<Rightarrow> delete_call multiset \<Rightarrow> 'w res_state \<Rightarrow> 'w res_state \<Rightarrow> bool" where
  "balanced env disposed M s s' \<longleftrightarrow> frees_only env s s' \<and> resourceTypes s' = resourceTypes s \<and> TypeMask s' = TypeMask s \<and>
     (\<forall>c. of_client env c (disposed (world s')) + due s' c =
        of_client env c (disposed (world s)) + due s c + of_client env c M)"

definition accounts :: "'w res_env \<Rightarrow> ('w \<Rightarrow> delete_call multiset) \<Rightarrow> bool" where
  "accounts env disposed \<longleftrightarrow>
     (\<forall>d p x s. res_inv env s \<longrightarrow> balanced env disposed {#(d, p, x)#} s (run_delete env d p x s)) \<and>
     (\<forall>e r s. res_inv env s \<longrightarrow> balanced env disposed {#} s (state_callback env e r s)) \<and>
     (\<forall>c s. res_inv env s \<longrightarrow> balanced env disposed {#} s (handle_save_set env c s))"

lemma of_client_simps [simp]:
  "of_client env c {#} = {#}"
  "of_client env c (M + N) = of_client env c M + of_client env c N"
  "of_client env c (add_mset (d, p, x) M) =
     (if dixClientIdForXID (LimitClients env) x = c then add_mset (d, p, x) (of_client env c M) else of_client env c M)"
  by (simp_all add: of_client_def)

lemma balanced_trans:
  assumes "balanced env disposed M s s1" "balanced env disposed N s1 s2"
  shows "balanced env disposed (M + N) s s2"
  using assms frees_only_trans [of env s s1 s2] by (auto simp: balanced_def ac_simps)

lemma balancedD:
  assumes "balanced env disposed M s s'"
  shows "frees_only env s s'" "res_inv env s'" "delete_call s' = delete_call s" "buckets (clientTable s' c) = buckets (clientTable s c)"
  using assms frees_onlyD(1,2) by (auto simp: balanced_def delete_call_def fun_eq_iff)

lemma balanced_doFree:
  assumes "accounts env disposed" "res_inv env s"
  shows "balanced env disposed {#delete_call s r#} s (doFreeResource env r False s)"
proof -
  let ?s1 = "state_callback env ResourceStateFreeing r s"
  have b: "balanced env disposed {#} s ?s1" using assms by (simp add: accounts_def)
  have "balanced env disposed {#delete_call ?s1 r#} ?s1 (doFreeResource env r False s)"
    using assms(1) balancedD(2) [OF b] by (simp add: accounts_def doFreeResource_def Let_def delete_call_def)
  from balanced_trans [OF b this] show ?thesis by (simp add: balancedD(3) [OF b])
qed

lemma mset_concat_replace:
  "b < length xss \<Longrightarrow> mset (concat (xss[b := ys])) + mset (xss ! b) = mset (concat xss) + mset ys"
proof (induction xss arbitrary: b)
  case (Cons xs xss)
  show ?case
  proof (cases b)
    case (Suc k)
    then have "mset (concat (xss[k := ys])) + mset (xss ! k) = mset (concat xss) + mset ys" using Cons by simp
    then show ?thesis using Suc by (simp del: mset_concat)
  qed simp
qed simp

text \<open>A resource that is taken out of its chain is due no more.\<close>

lemma due_unlink:
  assumes inv: "res_inv env s" "buckets (clientTable s c) \<noteq> 0" "b < buckets (clientTable s c)" and ch: "chain s c b = r # rs"
  shows "due s c = due (unlink_res c b 0 s) c + {#delete_call s r#}" "c' \<noteq> c \<Longrightarrow> due (unlink_res c b 0 s) c' = due s c'"
    "dixClientIdForXID (LimitClients env) (res_id r) = c"
proof -
  let ?s1 = "unlink_res c b 0 s"
  have dc: "delete_call ?s1 = delete_call s" by (simp add: fun_eq_iff delete_call_def unlink_res_def)
  have b: "b < length (resources (clientTable s c))" using inv(3) table_invD(1) [OF inv(1,2)] by simp
  have rs: "resources (clientTable ?s1 c) = (resources (clientTable s c))[b := rs]"
    using ch by (simp add: unlink_res_def set_chain_def remove_at_def)
  have "mset (concat ((resources (clientTable s c))[b := rs])) + mset (r # rs) = mset (concat (resources (clientTable s c))) + mset rs"
    using mset_concat_replace [OF b, of rs] ch by (simp add: chain_def)
  then have "mset (concat (resources (clientTable s c))) = mset (concat (resources (clientTable ?s1 c))) + {#r#}"
    by (simp add: rs)
  then have "image_mset (delete_call s) (mset (concat (resources (clientTable s c)))) =
      image_mset (delete_call s) (mset (concat (resources (clientTable ?s1 c))) + {#r#})" by simp
  then show "due s c = due ?s1 c + {#delete_call s r#}" using inv(2) by (simp add: due_def dc del: mset_concat)
  show "due ?s1 c' = due s c'" if "c' \<noteq> c"
    using that by (simp add: due_def dc) (simp add: unlink_res_def set_chain_def)
  show "dixClientIdForXID (LimitClients env) (res_id r) = c"
    using table_invD(5) [OF inv(1,2,3), of r] ch by simp
qed

lemma free_head_balanced:
  assumes acc: "accounts env disposed" and inv: "res_inv env s" "buckets (clientTable s c) \<noteq> 0" "b < buckets (clientTable s c)"
    and ch: "chain s c b = r # rs"
  shows "balanced env disposed {#} s (doFreeResource env r False (unlink_res c b 0 s))"
    "elements (clientTable (doFreeResource env r False (unlink_res c b 0 s)) c) < elements (clientTable s c)"
proof -
  let ?s1 = "unlink_res c b 0 s" and ?s2 = "doFreeResource env r False (unlink_res c b 0 s)"
  have i: "0 < length (chain s c b)" using ch by simp
  have f1: "frees_only env s ?s1" by (rule unlink_frees_only [OF inv i])
  have b2: "balanced env disposed {#delete_call ?s1 r#} ?s1 ?s2" by (rule balanced_doFree [OF acc frees_onlyD(1) [OF f1]])
  have dc: "delete_call ?s1 = delete_call s" by (simp add: fun_eq_iff delete_call_def unlink_res_def)
  have w: "world ?s1 = world s" "resourceTypes ?s1 = resourceTypes s" "TypeMask ?s1 = TypeMask s"
    by (simp_all add: unlink_res_def set_chain_def set_client_def)
  have call: "delete_call s r = (deleteFunc (the_type s (res_type r)), res_value r, res_id r)" by (simp add: delete_call_def)
  note d = due_unlink [OF inv ch]
  have "of_client env c' (disposed (world ?s2)) + due ?s2 c' = of_client env c' (disposed (world s)) + due s c'" for c'
  proof -
    have "of_client env c' (disposed (world ?s2)) + due ?s2 c' =
        of_client env c' (disposed (world s)) + due ?s1 c' + of_client env c' {#delete_call s r#}"
      using b2 by (simp add: balanced_def w dc)
    also have "\<dots> = of_client env c' (disposed (world s)) + due s c'"
      using d by (cases "c' = c") (simp_all add: call)
    finally show ?thesis .
  qed
  moreover have "frees_only env s ?s2" by (rule frees_only_trans [OF f1 balancedD(1) [OF b2]])
  ultimately show "balanced env disposed {#} s ?s2" using b2 by (simp add: balanced_def w)
  have "elements (clientTable ?s2 c) \<le> elements (clientTable ?s1 c)" by (rule frees_onlyD(4) [OF balancedD(1) [OF b2]])
  then show "elements (clientTable ?s2 c) < elements (clientTable s c)" by simp
qed

text \<open>The loop of \<open>FreeClientResources\<close> ends with all chains empty, whatever is freed in between.\<close>

lemma FreeClient_loop_balanced:
  assumes acc: "accounts env disposed"
  shows "res_inv env s \<Longrightarrow> buckets (clientTable s c) \<noteq> 0 \<Longrightarrow> b \<le> buckets (clientTable s c) \<Longrightarrow> \<forall>b' < b. chain s c b' = [] \<Longrightarrow>
    \<exists>s'. FreeClient_loop env c b s = Some s' \<and> balanced env disposed {#} s s' \<and>
      (\<forall>b' < buckets (clientTable s c). chain s' c b' = [])"
proof (induction "nat (elements (clientTable s c)) + (buckets (clientTable s c) - b)" arbitrary: s b rule: less_induct)
  case less
  note inv = less.prems(1,2)
  show ?case
  proof (cases "b < buckets (clientTable s c)")
    case False
    have "balanced env disposed {#} s s" using frees_only_refl [OF inv(1)] by (simp add: balanced_def)
    then show ?thesis using False less.prems(3,4) by (simp add: FreeClient_loop.simps)
  next
    case True
    show ?thesis
    proof (cases "chain s c b")
      case Nil
      then have "FreeClient_loop env c b s = FreeClient_loop env c (Suc b) s"
        using True by (subst FreeClient_loop.simps) simp
      then show ?thesis using less.hyps [of s "Suc b"] less.prems True Nil by (auto simp: less_Suc_eq)
    next
      case (Cons r rest)
      let ?s1 = "doFreeResource env r False (unlink_res c b 0 s)"
      note f = free_head_balanced [OF acc inv True Cons]
      note fb = balancedD [OF f(1)]
      have step: "FreeClient_loop env c b s = FreeClient_loop env c b ?s1"
        using True Cons by (subst FreeClient_loop.simps) simp
      have "0 < elements (clientTable s c)" by (rule elements_pos [OF inv True, of 0]) (simp add: Cons)
      then have dec: "nat (elements (clientTable ?s1 c)) < nat (elements (clientTable s c))" using f(2) by linarith
      have "chain ?s1 c b' = []" if "b' < b" for b'
        using frees_onlyD(6) [OF fb(1), of c b'] less.prems(4) that by simp
      then obtain s' where s': "FreeClient_loop env c b ?s1 = Some s'" "balanced env disposed {#} ?s1 s'"
          "\<forall>b' < buckets (clientTable ?s1 c). chain s' c b' = []"
      proof -
        have m: "nat (elements (clientTable ?s1 c)) + (buckets (clientTable ?s1 c) - b) <
            nat (elements (clientTable s c)) + (buckets (clientTable s c) - b)" using dec fb(4) [of c] by simp
        have p: "buckets (clientTable ?s1 c) \<noteq> 0" "b \<le> buckets (clientTable ?s1 c)" "\<forall>b' < b. chain ?s1 c b' = []"
          using fb(4) [of c] less.prems(2,3) \<open>\<And>b'. b' < b \<Longrightarrow> chain ?s1 c b' = []\<close> by simp_all
        show ?thesis using that less.hyps [OF m fb(2) p] by blast
      qed
      show ?thesis using s' balanced_trans [OF f(1) s'(2)] fb(4) unfolding step by auto
    qed
  qed
qed

text \<open>C2: A client goes away, and the delete functions of its resources may free other resources in turn, of this
  client or of others, as long as the books balance: a delete function disposes of what it is called
  for and of each resource that it takes out of a table, once, and adds none; state callbacks and the
  handling of save sets take none out. Then freeing the client's resources ends; each resource it had is
  disposed of exactly once, none is forgotten; the client's table is gone; what the table of another
  client loses on the way is disposed of as well; and the tables stay well formed.\<close>

theorem FreeClientResources_deletes_each_once:
  assumes "accounts env disposed" and "res_inv env s" and "buckets (clientTable s c) \<noteq> 0"
  shows "\<exists>s'. FreeClientResources env (Some c) s = Some s' \<and>
    of_client env c (disposed (world s')) =
      of_client env c (disposed (world s)) + mset (map (delete_call s) (concat (resources (clientTable s c)))) \<and>
    buckets (clientTable s' c) = 0 \<and> resources (clientTable s' c) = [] \<and> res_inv env s' \<and>
    (\<forall>c'. c' \<noteq> c \<longrightarrow> of_client env c' (disposed (world s')) + due s' c' = of_client env c' (disposed (world s)) + due s c')"
proof -
  let ?s0 = "handle_save_set env c s" and ?close = "set_client c (\<lambda>r. r\<lparr>resources := [], buckets := 0\<rparr>)"
  have b0: "balanced env disposed {#} s ?s0" using assms(1,2) by (simp add: accounts_def)
  note d0 = balancedD [OF b0]
  obtain s1 where s1: "FreeClient_loop env c 0 ?s0 = Some s1" "balanced env disposed {#} ?s0 s1"
    "\<forall>b < buckets (clientTable ?s0 c). chain s1 c b = []"
    using FreeClient_loop_balanced [OF assms(1) d0(2), of c 0] d0(4) assms(3) by auto
  have b1: "balanced env disposed {#} s s1" using balanced_trans [OF b0 s1(2)] by simp
  note d1 = balancedD [OF b1]
  have ne: "buckets (clientTable s1 c) \<noteq> 0" using d1(4) assms(3) by simp
  have "\<forall>r. r \<notin> set (concat (resources (clientTable s1 c)))"
    using concat_entry [OF d1(2) ne] s1(3) d1(4) d0(4) by simp
  then have "concat (resources (clientTable s1 c)) = []" by (metis last_in_set)
  then have "due s1 c = {#}" unfolding due_def by (simp del: concat_eq_Nil_conv)
  moreover have "of_client env c (disposed (world s1)) + due s1 c = of_client env c (disposed (world s)) + due s c"
    using b1 by (simp add: balanced_def)
  ultimately have "of_client env c (disposed (world s1)) = of_client env c (disposed (world s)) + due s c" by simp
  then have log: "of_client env c (disposed (world s1)) =
      of_client env c (disposed (world s)) + mset (map (delete_call s) (concat (resources (clientTable s c))))"
    unfolding due_def if_not_P [OF assms(3)] .
  have w: "world (?close s1) = world s1" "\<And>c'. c' \<noteq> c \<Longrightarrow> due (?close s1) c' = due s1 c'"
    by (simp_all add: due_def delete_call_def cong: map_cong)
  have "res_inv env (?close s1)" using d1(2) by (auto simp: res_inv_def table_inv_def)
  then show ?thesis
    using s1(1) log w b1 by (intro exI [of _ "?close s1"]) (simp add: FreeClientResources_def balanced_def)
qed

section \<open>Finding free ids\<close>

text \<open>
  The ids of a client that are taken in a range. The scan assumes that the range stays below the
  top of the 32-bit space and above 0, which the client field and \<open>SERVER_MINID\<close> ensure.
\<close>

lemma xid_used_entries:
  assumes "res_inv env s" and "buckets (clientTable s c) \<noteq> 0"
  shows "xid_used env s c xid \<longleftrightarrow> (\<exists>r \<in> set (concat (resources (clientTable s c))). res_id r = xid)"
proof
  assume "xid_used env s c xid"
  then obtain r where r: "r \<in> set (chain s c (bucket_of env s c xid))" "res_id r = xid"
    by (auto simp: xid_used_def)
  moreover have "bucket_of env s c xid < buckets (clientTable s c)"
    using table_invD(1,4) [OF assms] by simp
  ultimately show "\<exists>r \<in> set (concat (resources (clientTable s c))). res_id r = xid"
    using concat_entry [OF assms] by blast
next
  assume "\<exists>r \<in> set (concat (resources (clientTable s c))). res_id r = xid"
  then obtain r b where "r \<in> set (chain s c b)" "b < buckets (clientTable s c)" "res_id r = xid"
    using concat_entry [OF assms] by blast
  then show "xid_used env s c xid"
    using table_invD(5) [OF assms] by (force simp: xid_used_def)
qed

lemma AvailableID_loop_spec:
  assumes "unat xid + n < 2 ^ 32"
  shows "(AvailableID_loop env s c n xid \<noteq> 0 \<longrightarrow>
      unat xid \<le> unat (AvailableID_loop env s c n xid) \<and>
      unat (AvailableID_loop env s c n xid) < unat xid + n \<and>
      \<not> xid_used env s c (AvailableID_loop env s c n xid)) \<and>
    (AvailableID_loop env s c n xid = 0 \<longrightarrow> 0 < xid \<longrightarrow>
      (\<forall>y. unat xid \<le> unat y \<and> unat y < unat xid + n \<longrightarrow> xid_used env s c y))"
  using assms
proof (induction n arbitrary: xid)
  case (Suc n)
  have suc: "unat (xid + 1) = unat xid + 1" "0 < xid + 1"
    using Suc.prems by (simp_all add: unat_word_ariths word_less_nat_alt)
  show ?case
  proof (cases "xid_used env s c xid")
    case True
    have "xid_used env s c y"
      if all: "\<forall>y. unat (xid + 1) \<le> unat y \<and> unat y < unat (xid + 1) + n \<longrightarrow> xid_used env s c y"
        and y: "unat xid \<le> unat y" "unat y < unat xid + Suc n" for y
    proof (cases "unat y = unat xid")
      case eq: True
      then have "y = xid" by (simp add: word_unat_eq_iff)
      with True show ?thesis by simp
    next
      case False
      with y suc have "unat (xid + 1) \<le> unat y \<and> unat y < unat (xid + 1) + n" by simp
      with all show ?thesis by blast
    qed
    with Suc.IH [of "xid + 1"] suc Suc.prems True show ?thesis by auto
  next
    case False
    then show ?thesis by (auto simp: word_less_nat_alt)
  qed
qed auto

lemma word_or_greater: "x \<le> x OR (y :: u32)"
  using or_greater_eq [of "uint y" "uint x"] by (simp add: word_le_def unsigned_or_eq)

lemma AvailableID_spec:
  assumes "unat b + 1 < 2 ^ 32" and "0 < a" and "unat a \<le> unat b + 1"
    and g: "g \<noteq> 0 \<longrightarrow> \<not> xid_used env s c g"
  shows "(AvailableID env s c a b g \<noteq> 0 \<longrightarrow>
      unat a \<le> unat (AvailableID env s c a b g) \<and> unat (AvailableID env s c a b g) \<le> unat b \<and>
      \<not> xid_used env s c (AvailableID env s c a b g)) \<and>
    (AvailableID env s c a b g = 0 \<longrightarrow>
      (\<forall>y. unat a \<le> unat y \<and> unat y \<le> unat b \<longrightarrow> xid_used env s c y))"
proof (cases "a \<le> g \<and> g \<le> b")
  case True
  then have "g \<noteq> 0" using assms(2) by (auto simp: word_le_nat_alt word_less_nat_alt)
  with True g show ?thesis by (simp add: AvailableID_def word_le_nat_alt)
next
  case False
  have range: "unat a + (unat b + 1 - unat a) = unat b + 1" using assms(3) by simp
  then have "unat a + (unat b + 1 - unat a) < 2 ^ 32" using assms(1) by simp
  from AvailableID_loop_spec [OF this, of env s c] range assms(2)
  show ?thesis using False by (auto simp: AvailableID_def)
qed

definition range_inv ::
    "'w res_env \<Rightarrow> 'w res_state \<Rightarrow> nat \<Rightarrow> u32 \<Rightarrow> u32 \<Rightarrow> resource set \<Rightarrow> u32 \<times> u32 \<times> u32 \<Rightarrow> bool" where
  "range_inv env s c lo0 hi0 seen st = (case st of (lo, hi, g) \<Rightarrow>
     unat lo0 \<le> unat lo \<and> unat hi \<le> unat hi0 \<and> unat lo \<le> unat hi + 1 \<and>
     (\<forall>r \<in> seen. \<not> (unat lo \<le> unat (res_id r) \<and> unat (res_id r) \<le> unat hi)) \<and>
     (g \<noteq> 0 \<longrightarrow> \<not> xid_used env s c g) \<and>
     ((\<exists>y. unat lo0 \<le> unat y \<and> unat y \<le> unat hi0 \<and> \<not> xid_used env s c y) \<longrightarrow>
      (\<exists>y. unat lo \<le> unat y \<and> unat y \<le> unat hi \<and> \<not> xid_used env s c y)))"

lemma GetXIDRange_step_inv:
  assumes lo0: "0 < lo0" and hi0: "unat hi0 + 1 < 2 ^ 32"
    and used: "xid_used env s c (res_id r)"
    and inv: "range_inv env s c lo0 hi0 seen st"
  shows "range_inv env s c lo0 hi0 (insert r seen) (GetXIDRange_step env s c st r)"
proof -
  obtain lo hi g where st: "st = (lo, hi, g)" by (cases st) auto
  let ?i = "res_id r"
  note I = inv [unfolded range_inv_def st, simplified]
  have I0: "unat lo0 \<le> unat lo" "unat hi \<le> unat hi0" and
    seen: "\<And>x. x \<in> seen \<Longrightarrow> \<not> (unat lo \<le> unat (res_id x) \<and> unat (res_id x) \<le> unat hi)" and
    old: "(\<exists>y. unat lo0 \<le> unat y \<and> unat y \<le> unat hi0 \<and> \<not> xid_used env s c y) \<longrightarrow>
      (\<exists>y. unat lo \<le> unat y \<and> unat y \<le> unat hi \<and> \<not> xid_used env s c y)"
    using inv by (simp_all add: range_inv_def st)
  show ?thesis
  proof (cases "?i < lo \<or> hi < ?i")
    case True
    then show ?thesis
      using I by (auto simp: range_inv_def GetXIDRange_step_def st word_less_nat_alt)
  next
    case False
    then have i: "unat lo \<le> unat ?i" "unat ?i \<le> unat hi" by (simp_all add: word_less_nat_alt)
    have pos: "0 < unat lo" using I lo0 by (simp add: word_less_nat_alt)
    have lo: "0 < lo" using pos by (simp add: word_less_nat_alt)
    have up: "unat (?i + 1) = unat ?i + 1" using i I hi0 by (simp add: unat_word_ariths)
    have down: "unat (?i - 1) = unat ?i - 1"
      using i pos by (metis One_nat_def Suc_pred' unat_gt_0 unat_minus_one le_zero_eq not_gr_zero)
    have up0: "0 < ?i + 1" using up by (simp add: word_less_nat_alt)
    have bounds: "unat (?i - 1) + 1 < 2 ^ 32" "unat lo \<le> unat (?i - 1) + 1"
      "unat hi + 1 < 2 ^ 32" "unat (?i + 1) \<le> unat hi + 1"
      using i I hi0 pos by (simp_all add: up down)
    have g: "g \<noteq> 0 \<longrightarrow> \<not> xid_used env s c g" using I by blast
    define below where "below = AvailableID env s c lo (?i - 1) g"
    define above where "above = AvailableID env s c (?i + 1) hi g"
    note B = AvailableID_spec [OF bounds(1) lo bounds(2) g, folded below_def]
    note A = AvailableID_spec [OF bounds(3) up0 bounds(4) g, folded above_def]
    have split: "unat y < unat ?i \<or> y = ?i \<or> unat ?i < unat y" for y
      by (metis linorder_neqE_nat word_unat_eq_iff)
    have keep_below: "range_inv env s c lo0 hi0 (insert r seen) (lo, ?i - 1, h)"
      if h: "h \<noteq> 0 \<longrightarrow> \<not> xid_used env s c h"
        and free: "(\<exists>y. unat lo \<le> unat y \<and> unat y \<le> unat hi \<and> \<not> xid_used env s c y) \<longrightarrow>
         (\<exists>y. unat lo \<le> unat y \<and> unat y \<le> unat (?i - 1) \<and> \<not> xid_used env s c y)" for h
    proof -
      have "unat (?i - 1) \<le> unat hi" "unat (?i - 1) \<le> unat hi0" "unat (?i - 1) < unat ?i"
        using i conjunct1 [OF conjunct2 [OF I]] pos unfolding down by linarith+
      then show ?thesis
        unfolding range_inv_def prod.case
      proof (intro conjI ballI)
        show "\<not> (unat lo \<le> unat (res_id x) \<and> unat (res_id x) \<le> unat (?i - 1))"
          if "x \<in> insert r seen" for x
          using that \<open>unat (?i - 1) \<le> unat hi\<close> \<open>unat (?i - 1) < unat ?i\<close> seen
          by (metis insertE leD order_trans)
        show "(\<exists>y. unat lo0 \<le> unat y \<and> unat y \<le> unat hi0 \<and> \<not> xid_used env s c y) \<longrightarrow>
            (\<exists>y. unat lo \<le> unat y \<and> unat y \<le> unat (?i - 1) \<and> \<not> xid_used env s c y)"
          using old free by (intro impI) (rule free [THEN mp, OF old [THEN mp]])
      qed (use I0 h bounds(2) in simp_all)
    qed
    have keep_above: "range_inv env s c lo0 hi0 (insert r seen) (?i + 1, hi, h)"
      if h: "h \<noteq> 0 \<longrightarrow> \<not> xid_used env s c h"
        and free: "(\<exists>y. unat lo \<le> unat y \<and> unat y \<le> unat hi \<and> \<not> xid_used env s c y) \<longrightarrow>
         (\<exists>y. unat (?i + 1) \<le> unat y \<and> unat y \<le> unat hi \<and> \<not> xid_used env s c y)" for h
    proof -
      have "unat lo \<le> unat (?i + 1)" "unat lo0 \<le> unat (?i + 1)" "unat ?i < unat (?i + 1)"
        using i I by (simp_all add: up)
      then show ?thesis
        unfolding range_inv_def prod.case
      proof (intro conjI ballI)
        show "\<not> (unat (?i + 1) \<le> unat (res_id x) \<and> unat (res_id x) \<le> unat hi)"
          if "x \<in> insert r seen" for x
          using that \<open>unat lo \<le> unat (?i + 1)\<close> \<open>unat ?i < unat (?i + 1)\<close> seen
          by (metis insertE leD order_trans)
        show "(\<exists>y. unat lo0 \<le> unat y \<and> unat y \<le> unat hi0 \<and> \<not> xid_used env s c y) \<longrightarrow>
            (\<exists>y. unat (?i + 1) \<le> unat y \<and> unat y \<le> unat hi \<and> \<not> xid_used env s c y)"
          using old free by (intro impI) (rule free [THEN mp, OF old [THEN mp]])
      qed (use I0 h bounds(4) in simp_all)
    qed
    have below_free: "(\<exists>y. unat lo \<le> unat y \<and> unat y \<le> unat (?i - 1) \<and> \<not> xid_used env s c y)"
      if "below \<noteq> 0" using B that by blast
    have above_free: "(\<exists>y. unat (?i + 1) \<le> unat y \<and> unat y \<le> unat hi \<and> \<not> xid_used env s c y)"
      if "above \<noteq> 0" using A that by blast
    have other: "unat y \<le> unat (?i - 1) \<or> unat (?i + 1) \<le> unat y"
      if "\<not> xid_used env s c y" for y
    proof -
      have "y \<noteq> ?i" using that used by blast
      then have "unat y \<noteq> unat ?i" by (simp add: word_unat_eq_iff)
      then show ?thesis using i pos by (simp add: up down) linarith
    qed
    have kb: "range_inv env s c lo0 hi0 (insert r seen) (lo, ?i - 1, h)"
      if "below \<noteq> 0 \<and> h = below \<or> above = 0 \<and> h = above" for h
    proof (rule keep_below)
      show "h \<noteq> 0 \<longrightarrow> \<not> xid_used env s c h" using that A B by blast
      show "(\<exists>y. unat lo \<le> unat y \<and> unat y \<le> unat hi \<and> \<not> xid_used env s c y) \<longrightarrow>
         (\<exists>y. unat lo \<le> unat y \<and> unat y \<le> unat (?i - 1) \<and> \<not> xid_used env s c y)"
        using that below_free A other by blast
    qed
    have ka: "range_inv env s c lo0 hi0 (insert r seen) (?i + 1, hi, h)"
      if "above \<noteq> 0 \<and> h = above \<or> below = 0 \<and> h = below" for h
    proof (rule keep_above)
      show "h \<noteq> 0 \<longrightarrow> \<not> xid_used env s c h" using that A B by blast
      show "(\<exists>y. unat lo \<le> unat y \<and> unat y \<le> unat hi \<and> \<not> xid_used env s c y) \<longrightarrow>
         (\<exists>y. unat (?i + 1) \<le> unat y \<and> unat y \<le> unat hi \<and> \<not> xid_used env s c y)"
        using that above_free B other by blast
    qed
    show ?thesis
      using kb ka False
      by (simp add: GetXIDRange_step_def st below_def [symmetric] above_def [symmetric] Let_def)
  qed
qed

lemma GetXIDRange_spec:
  assumes "res_inv env s" and "buckets (clientTable s c) \<noteq> 0"
    and base: "base = (if server then clientAsMask (LimitClients env) c OR (if c \<noteq> 0 then SERVER_BIT else SERVER_MINID)
      else clientAsMask (LimitClients env) c)" and base0: "0 < base"
    and final: "final = base OR RESOURCE_ID_MASK (LimitClients env)" "unat final + 1 < 2 ^ 32"
    and "GetXIDRange env s c server = (lo, hi)"
  shows "(lo = 0 \<longrightarrow> (\<forall>y. base \<le> y \<and> y \<le> final \<longrightarrow> xid_used env s c y)) \<and>
    (lo \<noteq> 0 \<longrightarrow> base \<le> lo \<and> lo \<le> hi \<and> hi \<le> final \<and> (\<forall>y. lo \<le> y \<and> y \<le> hi \<longrightarrow> \<not> xid_used env s c y))"
proof -
  let ?all = "concat (resources (clientTable s c))"
  have le: "unat base \<le> unat final"
    unfolding final(1) using word_or_greater by (simp only: word_le_nat_alt [symmetric])
  have fold: "range_inv env s c base final (seen \<union> set rs) (foldl (GetXIDRange_step env s c) st rs)"
    if "range_inv env s c base final seen st" "\<forall>r \<in> set rs. xid_used env s c (res_id r)" for seen st rs
    using that
  proof (induction rs arbitrary: seen st)
    case (Cons r rs)
    then show ?case
      using GetXIDRange_step_inv [OF base0 final(2), of env s c r seen st]
        Cons.IH [of "insert r seen"] by simp
  qed simp
  have used: "\<forall>r \<in> set ?all. xid_used env s c (res_id r)"
    using xid_used_entries [OF assms(1,2)] by blast
  have "range_inv env s c base final {} (base, final, 0)" using le by (auto simp: range_inv_def)
  from fold [OF this used] obtain l h g where
    st: "foldl (GetXIDRange_step env s c) (base, final, 0) ?all = (l, h, g)"
    and inv: "range_inv env s c base final (set ?all) (l, h, g)" by (metis prod_cases3 sup_bot_left)
  have res: "(lo, hi) = (if h < l then (0, 0) else (l, h))"
    using assms(7) base final(1) st by (simp add: GetXIDRange_def Let_def)
  have l0: "l \<noteq> 0" using inv base0 by (auto simp: range_inv_def word_less_nat_alt)
  show ?thesis
  proof (cases "h < l")
    case True
    then have "\<not> (\<exists>y. unat l \<le> unat y \<and> unat y \<le> unat h \<and> \<not> xid_used env s c y)"
      by (auto simp: word_less_nat_alt)
    with inv have "\<forall>y. base \<le> y \<and> y \<le> final \<longrightarrow> xid_used env s c y"
      by (auto simp: range_inv_def word_le_nat_alt)
    with True res show ?thesis by simp
  next
    case False
    then have "lo = l" "hi = h" using res by simp_all
    moreover have "\<not> xid_used env s c y" if "l \<le> y" "y \<le> h" for y
      using that inv xid_used_entries [OF assms(1,2), of y]
      by (auto simp: range_inv_def word_le_nat_alt)
    ultimately show ?thesis
      using False inv l0 by (auto simp: range_inv_def word_le_nat_alt word_less_nat_alt)
  qed
qed

text \<open>The parts of the id space: below 2^31, and the parts of clients do not start at 0.\<close>

lemma client_part:
  assumes L: "good_limit L" and c: "int c < L" "b < 31"
  shows "unat (clientAsMask L c OR RESOURCE_ID_MASK L OR push_bit b 1) + 1 < 2 ^ 32"
    "c \<noteq> 0 \<Longrightarrow> 0 < clientAsMask L c"
proof -
  let ?k = "ilog2 L"
  have "int c < int (2 ^ ?k)" using good_limit_log [OF L] c(1) by simp
  then have k: "?k \<le> 11" "c < 2 ^ ?k" using good_limit_log [OF L] by (simp_all only: of_nat_less_iff)
  have tc: "take_bit ?k c = c" using k(2) by (rule take_bit_nat_eq_self)
  have bc: "m < ?k" if "bit c m" for m
  proof -
    have "bit (take_bit ?k c) m" using that by (simp only: tc)
    then show ?thesis by (simp only: bit_take_bit_iff)
  qed
  have b1: "n < 31" if "bit (clientAsMask L c) n" for n
  proof -
    have "CLIENTOFFSET L \<le> n" "bit c (n - CLIENTOFFSET L)"
      using that by (simp_all add: clientAsMask_def bit_push_bit_iff bit_simps)
    then have "n - CLIENTOFFSET L < ?k" using bc by blast
    then show ?thesis using k(1) \<open>CLIENTOFFSET L \<le> n\<close> by (simp add: CLIENTOFFSET_def)
  qed
  have m: "RESOURCE_ID_MASK L = mask (CLIENTOFFSET L)"
    by (simp add: RESOURCE_ID_MASK_def mask_eq_exp_minus_1 push_bit_eq_mult)
  have b2: "n < 31" if "bit (RESOURCE_ID_MASK L) n" for n
    using that unfolding m bit_mask_iff CLIENTOFFSET_def by linarith
  have b3: "n = b" if "bit (push_bit b 1 :: u32) n" for n using that by (simp add: bit_exp_iff)
  have bits: "n < 31" if "bit (clientAsMask L c OR RESOURCE_ID_MASK L OR push_bit b (1 :: u32)) n" for n
    using that b1 b2 b3 c(2) unfolding bit_or_iff by blast
  have "take_bit 31 (clientAsMask L c OR RESOURCE_ID_MASK L OR push_bit b 1) = clientAsMask L c OR RESOURCE_ID_MASK L OR push_bit b (1 :: u32)"
  proof (rule bit_word_eqI)
    fix n
    show "bit (take_bit 31 (clientAsMask L c OR RESOURCE_ID_MASK L OR push_bit b (1 :: u32))) n =
        bit (clientAsMask L c OR RESOURCE_ID_MASK L OR push_bit b (1 :: u32)) n"
      unfolding bit_take_bit_iff using bits [of n] by blast
  qed
  then have "unat (clientAsMask L c OR RESOURCE_ID_MASK L OR push_bit b 1) < 2 ^ 31"
    by (metis take_bit_nat_less_exp unsigned_take_bit_eq)
  then show "unat (clientAsMask L c OR RESOURCE_ID_MASK L OR push_bit b 1) + 1 < 2 ^ 32" by simp
  assume "c \<noteq> 0"
  then obtain m where m: "bit c m" by (metis bit_eqI bit_0_eq bot_apply bot_bool_def)
  then have "bit (clientAsMask L c) (m + CLIENTOFFSET L)"
    using m bc [OF m] k(1) by (simp add: clientAsMask_def bit_push_bit_iff bit_simps) (simp add: CLIENTOFFSET_def)
  then show "0 < clientAsMask L c" by (metis bit_0_eq bot_apply bot_bool_def word_gt_0)
qed

text \<open>C27: When a client asks for ids because it has run out of them (\<open>server\<close> is false, as XC-MISC asks), or
  the server needs some for itself or in a client's name, the range it is given lies in its own part of
  the id space and contains no id in use; and the scan finds such a range whenever any id of that part
  is free (0, 0 is returned only when all are taken). The client limit is one the command line accepts,
  the client has a table, and for ids without the server's bits it is not the server.\<close>

theorem GetXIDRange_is_free:
  assumes "res_inv env s" and "buckets (clientTable s c) \<noteq> 0"
    and "good_limit (LimitClients env)" and "int c < LimitClients env" and "server \<or> c \<noteq> 0"
    and base: "base = (if server then clientAsMask (LimitClients env) c OR (if c \<noteq> 0 then SERVER_BIT else SERVER_MINID)
      else clientAsMask (LimitClients env) c)"
    and final: "final = base OR RESOURCE_ID_MASK (LimitClients env)"
    and "GetXIDRange env s c server = (lo, hi)"
  shows "(lo = 0 \<longrightarrow> (\<forall>y. base \<le> y \<and> y \<le> final \<longrightarrow> xid_used env s c y)) \<and>
    (lo \<noteq> 0 \<longrightarrow> base \<le> lo \<and> lo \<le> hi \<and> hi \<le> final \<and> (\<forall>y. lo \<le> y \<and> y \<le> hi \<longrightarrow> \<not> xid_used env s c y))"
proof (rule GetXIDRange_spec [OF assms(1,2) base _ final _ assms(8)])
  let ?L = "LimitClients env"
  note part = client_part [OF assms(3,4)]
  show "0 < base" using part(2) [of 0] assms(5) unfolding base
    by (auto simp: SERVER_BIT_def SERVER_MINID_def word_gt_0 or_eq_0_iff)
  have "SERVER_BIT = push_bit 30 1" "SERVER_MINID = push_bit 5 1" by (simp_all add: SERVER_BIT_def SERVER_MINID_def)
  then have f: "unat (clientAsMask ?L c OR RESOURCE_ID_MASK ?L OR b) + 1 < 2 ^ 32" if "b = SERVER_BIT \<or> b = SERVER_MINID" for b
    using part(1) [of 30] part(1) [of 5] that by auto
  have "unat (clientAsMask ?L c OR RESOURCE_ID_MASK ?L) \<le> unat (clientAsMask ?L c OR RESOURCE_ID_MASK ?L OR SERVER_BIT)"
    unfolding word_le_nat_alt [symmetric] or.assoc [symmetric] by (rule word_or_greater)
  then show "unat final + 1 < 2 ^ 32"
    using f [of SERVER_BIT] f [of SERVER_MINID] unfolding final base
    by (cases server; cases "c = 0"; simp add: or.assoc or.commute or.left_commute)
qed

section \<open>Fake ids\<close>

definition set_fake :: "nat \<Rightarrow> u32 \<Rightarrow> u32 \<Rightarrow> 'w res_state \<Rightarrow> 'w res_state" where
  "set_fake c f e = set_client c (\<lambda>r. r\<lparr>fakeID := f, endFakeID := e\<rparr>)"

lemma set_fake_db:
  "res_inv env (set_fake c f e s) \<longleftrightarrow> res_inv env s"
  "xid_used env (set_fake c f e s) c' y \<longleftrightarrow> xid_used env s c' y"
  "buckets (clientTable (set_fake c f e s) c') = buckets (clientTable s c')"
  "entries env (set_fake c f e s) y = entries env s y"
  by (auto simp: set_fake_def res_inv_def table_inv_def xid_used_def chain_def bucket_of_def
      entries_def Let_def)

lemma set_fake_fields:
  "fakeID (clientTable (set_fake c f e s) c) = f" "endFakeID (clientTable (set_fake c f e s) c) = e"
  "set_client c (\<lambda>r. r\<lparr>fakeID := f\<rparr>) s = set_fake c f (endFakeID (clientTable s c)) s"
  "set_fake c f' e' (set_fake c f e s) = set_fake c f' e' s"
  "set_client c (\<lambda>r. r\<lparr>fakeID := f', endFakeID := e'\<rparr>) (set_fake c f e s) = set_fake c f' e' s"
  by (simp_all add: set_fake_def set_client_def)

lemma FakeClientID_unfold:
  assumes "fakeID (clientTable s c) \<noteq> 0"
  shows "FakeClientID env c s =
    (let x = fakeID (clientTable s c); e = endFakeID (clientTable s c); s1 = set_fake c (x + 1) e s
     in if x \<noteq> e then Some (Some (x, False, s1))
        else
          let (lo, hi) = GetXIDRange env s1 c True
          in if lo \<noteq> 0 then Some (Some (lo, False, set_fake c (lo + 1) (hi + 1) s))
             else if c = 0 then Some None
             else
               let lo' = clientAsMask (LimitClients env) c OR (SERVER_BIT * 3)
               in Some (Some (lo', True, set_fake c (lo' + 1) ((lo' OR RESOURCE_ID_MASK (LimitClients env)) + 1) s)))"
proof -
  have nz: "clientAsMask (LimitClients env) c OR (SERVER_BIT * 3) \<noteq> 0"
    by (simp add: SERVER_BIT_def or_eq_0_iff)
  then show ?thesis
    using assms
    by (subst FakeClientID.simps)
      (auto simp: Let_def set_fake_fields split: prod.split)
qed

text \<open>A fake id for the server or a client never collides: as long as the current range is
  unused, \<open>FakeClientID\<close> returns (it does not recurse for ever), with an id that is not 0 and not
  in use, and leaves a current range that is again unused and does not hold the id just given
  out; only when every id of the client's part is taken does the server stop (for its own ids)
  or mark the client.\<close>

theorem FakeClientID_fresh:
  assumes "res_inv env s" and "buckets (clientTable s c) \<noteq> 0"
    and "base = clientAsMask (LimitClients env) c OR (if c \<noteq> 0 then SERVER_BIT else SERVER_MINID)"
    and "final = base OR RESOURCE_ID_MASK (LimitClients env)" and "unat final + 1 < 2 ^ 32"
    and "fakeID (clientTable s c) \<noteq> 0" and "fakeID (clientTable s c) \<le> endFakeID (clientTable s c)"
    and free: "\<forall>y. fakeID (clientTable s c) \<le> y \<and> y < endFakeID (clientTable s c) \<longrightarrow> \<not> xid_used env s c y"
  shows "\<exists>r. FakeClientID env c s = Some r \<and>
    (case r of
       None \<Rightarrow> c = 0 \<and> (\<forall>y. base \<le> y \<and> y \<le> final \<longrightarrow> xid_used env s c y)
     | Some (xid, marked, s') \<Rightarrow>
         xid \<noteq> 0 \<and> res_inv env s' \<and>
         (if marked then (\<forall>y. base \<le> y \<and> y \<le> final \<longrightarrow> xid_used env s c y)
          else \<not> xid_used env s c xid \<and> xid < fakeID (clientTable s' c) \<and>
            fakeID (clientTable s' c) \<le> endFakeID (clientTable s' c) \<and>
            (\<forall>y. fakeID (clientTable s' c) \<le> y \<and> y < endFakeID (clientTable s' c) \<longrightarrow>
               \<not> xid_used env s' c y)))"
proof -
  let ?x = "fakeID (clientTable s c)" and ?e = "endFakeID (clientTable s c)"
  show ?thesis
  proof (cases "?x = ?e")
    case False
    with assms(7) have lt: "?x < ?e" by simp
    then have next_x: "?x < ?x + 1" "?x + 1 \<le> ?e"
      using unsigned_less [of ?e, where ?'a = nat]
      by (simp_all add: word_less_nat_alt word_le_nat_alt unat_word_ariths)
    have "\<forall>y. ?x + 1 \<le> y \<and> y < ?e \<longrightarrow> \<not> xid_used env s c y"
      using free order_trans [OF less_imp_le [OF next_x(1)]] by blast
    with free lt next_x show ?thesis
      using assms(1,6) False by (simp add: FakeClientID_unfold Let_def set_fake_db set_fake_fields)
  next
    case True
    let ?s1 = "set_fake c (?x + 1) ?e s"
    obtain lo hi where range: "GetXIDRange env ?s1 c True = (lo, hi)" by fastforce
    have s1: "res_inv env ?s1" "buckets (clientTable ?s1 c) \<noteq> 0"
      using assms(1,2) by (simp_all add: set_fake_db)
    have base0: "0 < base" unfolding assms(3)
      by (cases "c = 0") (simp_all add: SERVER_BIT_def SERVER_MINID_def word_gt_0 or_eq_0_iff)
    have base: "base = (if True then clientAsMask (LimitClients env) c OR (if c \<noteq> 0 then SERVER_BIT else SERVER_MINID)
        else clientAsMask (LimitClients env) c)" using assms(3) by simp
    note spec = GetXIDRange_spec [OF s1 base base0 assms(4,5) range, unfolded set_fake_db]
    have nz: "clientAsMask (LimitClients env) c OR (SERVER_BIT * 3) \<noteq> 0"
      by (simp add: SERVER_BIT_def or_eq_0_iff)
    show ?thesis
    proof (cases "lo = 0")
      case lo0: True
      then show ?thesis
        using spec True nz assms(1,6) range
        by (auto simp: FakeClientID_unfold Let_def set_fake_db)
    next
      case False
      with spec have lohi: "lo \<le> hi" "hi \<le> final" and free': "\<And>y. lo \<le> y \<Longrightarrow> y \<le> hi \<Longrightarrow> \<not> xid_used env s c y"
        by auto
      have hi: "unat (hi + 1) = unat hi + 1" and lo: "unat (lo + 1) = unat lo + 1"
        using lohi assms(5) by (simp_all add: word_le_nat_alt unat_word_ariths)
      then have "lo < lo + 1" "lo + 1 \<le> hi + 1"
        using lohi by (simp_all add: word_le_nat_alt word_less_nat_alt)
      moreover have "\<not> xid_used env s c y" if "lo + 1 \<le> y" "y < hi + 1" for y
        using that lo hi by (intro free') (simp_all add: word_le_nat_alt word_less_nat_alt)
      ultimately show ?thesis
        using False True assms(1,6) range free' [of lo] lohi
        by (simp add: FakeClientID_unfold Let_def set_fake_db set_fake_fields)
    qed
  qed
qed

section \<open>The type registry\<close>

text \<open>
  Types count up from the predefined ones, classes are single bits that come down from
  \<open>RC_LASTPREDEF\<close>; the two must never meet, and every type indexes the table.
\<close>

definition types_inv :: "'w res_state \<Rightarrow> bool" where
  "types_inv s \<longleftrightarrow> length (resourceTypes s) = unat (lastResourceType s) + 1 \<and>
     9 \<le> unat (lastResourceType s) \<and> (\<exists>k < 31. lastResourceClass s = push_bit k 1 \<and> TypeMask s = mask k \<and>
        unat (lastResourceType s) < 2 ^ k)"

lemma and_class_zero:
  assumes "unat x < 2 ^ Suc k" and "k < 31"
  shows "(x :: u32) AND push_bit k 1 = 0 \<longleftrightarrow> unat x < 2 ^ k"
proof -
  have "unat x div 2 ^ k < 2" using assms(1) by (simp add: less_mult_imp_div_less)
  then have "odd (unat x div 2 ^ k) \<longleftrightarrow> unat x div 2 ^ k \<noteq> 0"
    by (cases "unat x div 2 ^ k") auto
  then have "bit (unat x) k \<longleftrightarrow> \<not> unat x < 2 ^ k"
    by (simp add: bit_iff_odd div_eq_0_iff)
  then have "bit x k \<longleftrightarrow> \<not> unat x < 2 ^ k"
    using assms(2) by (simp add: bit_unsigned_iff)
  moreover have "x AND push_bit k 1 = 0 \<longleftrightarrow> \<not> bit x k"
    using bit_iff_and_push_bit_not_eq_0 [of x k] by blast
  ultimately show ?thesis by simp
qed

lemma and_mask_index:
  assumes "unat t < 2 ^ k" and "k < 31"
  shows "(t :: u32) AND mask k = t"
proof -
  have "take_bit k t = t"
    using assms by (simp add: word_unat_eq_iff unsigned_take_bit_eq take_bit_nat_eq_self)
  then show ?thesis by (simp add: take_bit_eq_mask)
qed

text \<open>The registry of resource types never lets types and classes collide: a new type is the
  next number, indexes the new entry of the table (with the default functions and BadValue) and
  leaves every older entry alone; a new class is a single bit that no existing type number
  contains, and afterwards every type still indexes its own entry; when there is no room, 0 is
  returned and nothing changes.\<close>

theorem new_types_and_classes_stay_apart:
  assumes "types_inv s"
  shows "(case CreateNewResourceType env del s of (t, s') \<Rightarrow>
      types_inv s' \<and> (t = 0 \<and> s' = s \<or>
        unat t = unat (lastResourceType s) + 1 \<and> t AND TypeMask s' = t \<and>
        the_type s' t = \<lparr>deleteFunc = del, sizeFunc = DefaultBytes, findSubResFunc = DefaultSubRes,
          errorValue = BadValue\<rparr> \<and>
        (\<forall>u. unat u \<le> unat (lastResourceType s) \<longrightarrow> the_type s' u = the_type s u))) \<and>
    (case CreateNewResourceClass s of (cl, s') \<Rightarrow>
      types_inv s' \<and> (cl = 0 \<and> s' = s \<or>
        cl \<noteq> 0 \<and> (\<exists>k. cl = push_bit k 1) \<and>
        (\<forall>u. unat u \<le> unat (lastResourceType s) \<longrightarrow> u AND cl = 0 \<and> the_type s' u = the_type s u)))"
proof -
  let ?last = "lastResourceType s"
  obtain k where k: "k < 31" "lastResourceClass s = push_bit k 1" "TypeMask s = mask k"
      "unat ?last < 2 ^ k"
    and len: "length (resourceTypes s) = unat ?last + 1" and nine: "9 \<le> unat ?last"
    using assms by (auto simp: types_inv_def)
  have "(2::nat) ^ k < 2 ^ 31" using k(1) by (intro power_strict_increasing) auto
  then have nxt: "unat (?last + 1) = unat ?last + 1"
    using k(4) by (simp add: unat_word_ariths)
  have idx: "u AND mask k = u" if "unat u \<le> unat ?last" for u :: u32
    using and_mask_index [of u k] that k(1,4) by linarith
  have types: "case CreateNewResourceType env del s of (t, s') \<Rightarrow>
      types_inv s' \<and> (t = 0 \<and> s' = s \<or>
        unat t = unat ?last + 1 \<and> t AND TypeMask s' = t \<and>
        the_type s' t = \<lparr>deleteFunc = del, sizeFunc = DefaultBytes, findSubResFunc = DefaultSubRes,
          errorValue = BadValue\<rparr> \<and>
        (\<forall>u. unat u \<le> unat ?last \<longrightarrow> the_type s' u = the_type s u))"
  proof (cases "(?last + 1) AND lastResourceClass s \<noteq> 0 \<or> \<not> mem_ok env AllocTypes")
    case True
    then show ?thesis using assms by (auto simp: CreateNewResourceType_def Let_def)
  next
    case False
    then have lt: "unat (?last + 1) < 2 ^ k"
      using and_class_zero [of "?last + 1" k] k nxt by simp
    have "types_inv (snd (CreateNewResourceType env del s))"
      unfolding types_inv_def using False k lt nxt len nine
      by (auto simp: CreateNewResourceType_def Let_def intro!: exI [of _ k])
    then show ?thesis
      using False k(3) len nxt idx and_mask_index [OF lt k(1)]
      by (simp add: CreateNewResourceType_def Let_def nth_append)
  qed
  have classes: "case CreateNewResourceClass s of (cl, s') \<Rightarrow>
      types_inv s' \<and> (cl = 0 \<and> s' = s \<or>
        cl \<noteq> 0 \<and> (\<exists>k. cl = push_bit k 1) \<and>
        (\<forall>u. unat u \<le> unat ?last \<longrightarrow> u AND cl = 0 \<and> the_type s' u = the_type s u))"
  proof -
    have "k \<noteq> 0" using k(4) nine by (cases k) auto
    then obtain j where j: "k = Suc j" by (cases k) auto
    have half: "drop_bit 1 (lastResourceClass s) = push_bit j 1"
      unfolding k(2) j using k(1) by (intro bit_word_eqI) (auto simp: bit_simps j)
    show ?thesis
    proof (cases "push_bit j 1 AND ?last = 0")
      case False
      then show ?thesis
        unfolding CreateNewResourceClass_def Let_def half using assms by simp
    next
      case True
      have lt: "unat ?last < 2 ^ j"
        using and_class_zero [of ?last j] True k(1,4) j by (simp add: and.commute)
      have "(push_bit j 1 :: u32) \<noteq> 0" using j k(1) by simp
      moreover have "push_bit j 1 - 1 = (mask j :: u32)"
        by (simp add: mask_eq_exp_minus_1 push_bit_eq_mult)
      moreover have "u AND mask j = u" "u AND push_bit j 1 = 0" if "unat u \<le> unat ?last" for u :: u32
        using that lt j k(1) and_mask_index [of u j] and_class_zero [of u j] by simp_all
      moreover have "\<exists>i < 31. (push_bit j 1 :: u32) = push_bit i 1 \<and>
          (mask j :: u32) = mask i \<and> unat ?last < 2 ^ i"
        using lt j k(1) by (intro exI [of _ j]) simp
      ultimately show ?thesis
        unfolding CreateNewResourceClass_def Let_def half types_inv_def
        using True len nine idx k(3) by auto
    qed
  qed
  from types classes show ?thesis by blast
qed

section \<open>A concrete database\<close>

text \<open>
  The state and environment at which the laws above are applied: the server client with a
  graphics context under id 18, delete functions that record their calls.
\<close>

definition demo_env :: "delete_log res_env" where
  "demo_env = \<lparr>LimitClients = 64, mem_ok = \<lambda>_. True,
     run_delete = \<lambda>d p x s. s\<lparr>world := world s @ [(d, p, x)]\<rparr>,
     state_callback = \<lambda>_ _ s. s, xace_resource = \<lambda>_ _ _ _ _ _. Success,
     handle_save_set = \<lambda>_ s. s\<rparr>"

definition demo_table :: client_resource where
  "demo_table = \<lparr>resources = (replicate 64 [])[18 := [\<lparr>res_id = 18, res_type = X11_RESTYPE_GC, res_value = 5\<rparr>]],
     elements = 1, buckets = 64, hashsize = 6, fakeID = 32, endFakeID = 0x800000\<rparr>"

definition no_table :: client_resource where
  "no_table = \<lparr>resources = [], elements = 0, buckets = 0, hashsize = 0, fakeID = 0, endFakeID = 0\<rparr>"

definition demo_state :: "delete_log res_state" where
  "demo_state = \<lparr>clientTable = (\<lambda>_. no_table)(0 := demo_table), resourceTypes = predefTypes,
     lastResourceType = X11_RESTYPE_LASTPREDEF, lastResourceClass = RC_LASTPREDEF,
     TypeMask = RC_LASTPREDEF - 1, clientErrorValue = \<lambda>_. 0,
     heap = \<lparr>h_drawable = \<lambda>_. \<lparr>d_type = 0, d_id = 0, d_bitsPerPixel = 32, d_width = 1, d_height = 1\<rparr>,
       h_refcnt = \<lambda>_. 1,
       h_window = \<lambda>_. \<lparr>backgroundIsPixmap = False, background_pixmap = 0, border_pixmap = 0, borderIsPixel = True\<rparr>,
       h_gc = \<lambda>_. \<lparr>gc_stipple = 0, gc_tile = 0, gc_tileIsPixel = True, gc_font = 0\<rparr>\<rparr>,
     world = []\<rparr>"

lemma demo_hash: "HashResourceID 64 18 6 = 18" and demo_client: "dixClientIdForXID 64 18 = 0"
  by code_simp+

lemma demo_limit: "good_limit (LimitClients demo_env)"
  by (simp add: good_limit_def demo_env_def)

lemma demo_env_kinds: "quiet demo_env"
  by (simp add: quiet_def same_db_def demo_env_def)

lemma demo_callbacks: "quiet_callbacks demo_env"
  by (simp add: quiet_callbacks_def same_db_def demo_env_def)

lemma demo_count: "length (concat (resources demo_table)) = 1"
  using length_concat_update [of 18 "replicate 64 []" "[\<lparr>res_id = 18, res_type = X11_RESTYPE_GC, res_value = 5\<rparr>]"]
  by (simp add: demo_table_def)

lemma demo_inv: "res_inv demo_env demo_state"
proof -
  have "table_inv 64 0 demo_table"
    unfolding table_inv_def demo_count
    by (simp add: demo_table_def nth_list_update demo_hash demo_client)
  moreover have "table_inv 64 c no_table" for c by (simp add: table_inv_def no_table_def)
  ultimately show ?thesis by (simp add: res_inv_def demo_state_def demo_env_def)
qed

lemma demo_tables:
  "clientTable demo_state 0 = demo_table" "buckets demo_table = 64" "hashsize demo_table = 6"
  "fakeID demo_table = 32" "endFakeID demo_table = 0x800000" "LimitClients demo_env = 64"
  "buckets (clientTable demo_state 0) = 64" "mem_ok demo_env m"
  by (simp_all add: demo_state_def demo_table_def demo_env_def)

lemma demo_used: "xid_used demo_env demo_state 0 y \<longleftrightarrow> y = 18"
proof -
  have set: "set (concat (resources demo_table)) = {\<lparr>res_id = 18, res_type = X11_RESTYPE_GC, res_value = 5\<rparr>}"
    by (auto simp: demo_table_def dest: set_update_subset_insert [THEN subsetD]
        intro!: bexI [OF _ set_update_memI])
  show ?thesis
    using xid_used_entries [OF demo_inv, of 0 y] by (simp add: demo_tables set del: set_concat)
      (metis resource.select_convs(1))?
qed

theorem AddResource_then_lookup_witness:
  "\<exists>s'. AddResource demo_env 18 X11_RESTYPE_FONT 7 demo_state = Some (True, s') \<and>
     fst (dixLookupResourceByType demo_env 18 X11_RESTYPE_FONT None 0 s') = (Success, 7)"
proof -
  have "buckets (clientTable demo_state (dixClientIdForXID (LimitClients demo_env) 18)) \<noteq> 0"
    "mem_ok demo_env AllocResource"
    "X11_RESTYPE_FONT AND TypeMask demo_state \<le> lastResourceType demo_state"
    by (simp_all add: demo_tables demo_client) (simp add: demo_state_def X11_RESTYPE_FONT_def
        X11_RESTYPE_LASTPREDEF_def RC_LASTPREDEF_def)
  from AddResource_then_lookup [OF demo_inv demo_callbacks demo_limit this]
  show ?thesis by blast
qed

theorem FreeResource_frees_all_witness:
  "\<exists>s'. FreeResource demo_env 18 0 demo_state = Some s' \<and> entries demo_env s' 18 = []"
  using FreeResource_frees_all [OF demo_inv quiet_tame [OF demo_env_kinds] demo_limit] by blast

theorem FreeResourceByType_frees_one_witness:
  "entries demo_env (FreeResourceByType demo_env 18 X11_RESTYPE_GC False demo_state) 18
     = remove_first (\<lambda>r. res_type r = X11_RESTYPE_GC) (entries demo_env demo_state 18)"
  using FreeResourceByType_frees_one [OF demo_env_kinds demo_inv demo_limit] by (simp add: Let_def)

text \<open>Delete functions that free in turn: deleting a context frees the first resource of bucket 0 as well.\<close>

definition free_in_turn :: "delete_type \<Rightarrow> ptr \<Rightarrow> u32 \<Rightarrow> delete_log res_state \<Rightarrow> delete_log res_state" where
  "free_in_turn d p x s =
     (let s1 = s\<lparr>world := world s @ [(d, p, x)]\<rparr>
      in if d = FreeGC \<and> buckets (clientTable s 0) \<noteq> 0 \<and> chain s 0 0 \<noteq> []
         then (unlink_res 0 0 0 s1)\<lparr>world := world s1 @ [delete_call s (hd (chain s 0 0))]\<rparr>
         else s1)"

definition turn_env :: "delete_log res_env" where
  "turn_env = demo_env\<lparr>run_delete := free_in_turn\<rparr>"

lemma turn_balanced:
  assumes inv: "res_inv turn_env s"
  shows "balanced turn_env mset {#(d, p, x)#} s (free_in_turn d p x s)"
proof -
  let ?s1 = "s\<lparr>world := world s @ [(d, p, x)]\<rparr>"
  have db: "same_db s ?s1" by (simp add: same_db_def)
  have due1: "due ?s1 c = due s c" for c by (simp add: due_def delete_call_def cong: map_cong)
  have b1: "balanced turn_env mset {#(d, p, x)#} s ?s1"
    using same_db_frees_only [OF db inv] by (simp add: balanced_def due1)
  show ?thesis
  proof (cases "d = FreeGC \<and> buckets (clientTable s 0) \<noteq> 0 \<and> chain s 0 0 \<noteq> []")
    case False
    then show ?thesis using b1 unfolding free_in_turn_def Let_def if_not_P [OF False] by simp
  next
    case True
    then obtain r rs where ch: "chain s 0 0 = r # rs" by (cases "chain s 0 0") auto
    have b: "buckets (clientTable s 0) \<noteq> 0" "0 < buckets (clientTable s 0)" using True by simp_all
    note u = due_unlink [OF inv b ch]
    define s2 where "s2 = (unlink_res 0 0 0 ?s1)\<lparr>world := world ?s1 @ [delete_call s r]\<rparr>"
    have e: "free_in_turn d p x s = s2" using True ch by (simp add: free_in_turn_def Let_def s2_def)
    have w: "mset (world s2) = mset (world s) + {#(d, p, x)#} + {#delete_call s r#}" by (simp add: s2_def)
    have db2: "same_db (unlink_res 0 0 0 s) s2"
      by (simp add: s2_def same_db_def unlink_res_def set_chain_def set_client_def chain_def)
    have f: "frees_only turn_env s (unlink_res 0 0 0 s)" by (rule unlink_frees_only [OF inv b]) (simp add: ch)
    have f2: "frees_only turn_env s s2"
      by (rule frees_only_trans [OF f same_db_frees_only [OF db2 frees_onlyD(1) [OF f]]])
    have due2: "due s2 c = due (unlink_res 0 0 0 s) c" for c
      using db2 by (simp add: due_def delete_call_def same_db_def cong: map_cong)
    have call: "delete_call s r = (deleteFunc (the_type s (res_type r)), res_value r, res_id r)" by (simp add: delete_call_def)
    have "of_client turn_env c (mset (world s2)) + due s2 c =
        of_client turn_env c (mset (world s)) + due s c + of_client turn_env c {#(d, p, x)#}" for c
      using u by (cases "c = 0") (simp_all add: due2 w call)
    moreover have "resourceTypes s2 = resourceTypes s" "TypeMask s2 = TypeMask s"
      by (simp_all add: s2_def unlink_res_def)
    ultimately show ?thesis using f2 unfolding e balanced_def by blast
  qed
qed

lemma turn_accounts: "accounts turn_env mset"
  using turn_balanced frees_only_refl [of turn_env]
  by (simp add: accounts_def turn_env_def) (simp add: demo_env_def balanced_def)

theorem FreeClientResources_deletes_each_once_witness:
  "\<exists>s'. FreeClientResources turn_env (Some 0) demo_state = Some s' \<and> buckets (clientTable s' 0) = 0"
proof -
  have "res_inv turn_env demo_state" using demo_inv by (simp add: res_inv_def turn_env_def)
  from FreeClientResources_deletes_each_once [OF turn_accounts this, of 0] show ?thesis
    by (auto simp: demo_tables)
qed

lemma demo_base:
  "clientAsMask 64 0 OR (if (0::nat) \<noteq> 0 then SERVER_BIT else SERVER_MINID) = 32"
  "32 OR RESOURCE_ID_MASK 64 = 0x7FFFFF"
  by code_simp+

theorem GetXIDRange_is_free_witness:
  "case GetXIDRange demo_env demo_state 0 True of (lo, hi) \<Rightarrow> 32 \<le> lo \<and> lo \<le> hi \<and> hi \<le> 0x7FFFFF"
proof -
  obtain lo hi where r: "GetXIDRange demo_env demo_state 0 True = (lo, hi)" by fastforce
  show ?thesis
    using GetXIDRange_is_free [OF demo_inv _ demo_limit, of 0 True 32 "0x7FFFFF" lo hi] demo_base r
    by (auto simp: demo_tables demo_used)
qed

theorem FakeClientID_fresh_witness:
  "\<exists>r. FakeClientID demo_env 0 demo_state = Some r"
proof -
  have free: "\<forall>y. fakeID (clientTable demo_state 0) \<le> y \<and> y < endFakeID (clientTable demo_state 0) \<longrightarrow>
      \<not> xid_used demo_env demo_state 0 y"
    by (auto simp: demo_tables demo_used)
  from FakeClientID_fresh [OF demo_inv _ _ _ _ _ _ free] demo_base
  show ?thesis by (force simp: demo_tables)
qed

theorem new_types_and_classes_stay_apart_witness:
  "case CreateNewResourceType demo_env FreeGC demo_state of (t, s') \<Rightarrow> types_inv s'"
proof -
  have "RC_LASTPREDEF = push_bit 29 1" "RC_LASTPREDEF - 1 = mask 29"
    by (simp_all add: RC_LASTPREDEF_def mask_eq_exp_minus_1)
  then have "types_inv demo_state"
    by (auto simp: types_inv_def demo_state_def predefTypes_def X11_RESTYPE_LASTPREDEF_def
        intro!: exI [of _ 29])
  from new_types_and_classes_stay_apart [OF this, where env = demo_env and del = FreeGC]
  show ?thesis by (simp split: prod.splits)
qed

text \<open>
  The window sub-resource walk: a window whose border is a pixmap and whose background is none
  reports the border's id together with the background's (null) pointer.
\<close>

lemma FindWindowSubRes_border:
  "\<not> backgroundIsPixmap (h_window h w) \<Longrightarrow> border_pixmap (h_window h w) \<noteq> 0 \<Longrightarrow>
   \<not> borderIsPixel (h_window h w) \<Longrightarrow>
   FindWindowSubRes h w = [(background_pixmap (h_window h w),
     d_id (h_drawable h (border_pixmap (h_window h w))), X11_RESTYPE_PIXMAP)]"
  by (simp add: FindWindowSubRes_def Let_def)

end
