(* ===== verification/Requests.thy ===== *)
theory Requests
  imports Rpc_Buf
begin

text \<open>
  What the request handlers share: the access modes of \<^verbatim>\<open>include/dixaccess.h\<close>, the request
  length checks of \<^verbatim>\<open>include/dix.h\<close>, and fields in the client's byte order.
\<close>

section \<open>Access modes\<close>

definition DixReadAccess :: u32 where "DixReadAccess = 0x1"
definition DixWriteAccess :: u32 where "DixWriteAccess = 0x2"
definition DixDestroyAccess :: u32 where "DixDestroyAccess = 0x4"
definition DixCreateAccess :: u32 where "DixCreateAccess = 0x8"
definition DixGetAttrAccess :: u32 where "DixGetAttrAccess = 0x10"
definition DixSetAttrAccess :: u32 where "DixSetAttrAccess = 0x20"
definition DixListPropAccess :: u32 where "DixListPropAccess = 0x40"
definition DixGetPropAccess :: u32 where "DixGetPropAccess = 0x80"
definition DixSetPropAccess :: u32 where "DixSetPropAccess = 0x100"
definition DixRemoveAccess :: u32 where "DixRemoveAccess = 0x2000"
definition DixBlendAccess :: u32 where "DixBlendAccess = 0x10000"
definition DixGrabAccess :: u32 where "DixGrabAccess = 0x20000"
definition DixPostAccess :: u32 where "DixPostAccess = 0x10000000"

section \<open>Request lengths\<close>

text \<open>Sizes are in bytes, \<open>req_len\<close> is in units of four.\<close>

definition REQUEST_SIZE_MATCH :: "nat \<Rightarrow> nat \<Rightarrow> bool" where
  "REQUEST_SIZE_MATCH sz req_len \<longleftrightarrow> sz div 4 = req_len"

definition REQUEST_AT_LEAST_SIZE :: "nat \<Rightarrow> nat \<Rightarrow> bool" where
  "REQUEST_AT_LEAST_SIZE sz req_len \<longleftrightarrow> \<not> sz div 4 > req_len"

definition REQUEST_FIXED_SIZE :: "nat \<Rightarrow> nat \<Rightarrow> nat \<Rightarrow> bool" where
  "REQUEST_FIXED_SIZE sz n req_len \<longleftrightarrow>
     \<not> (req_len < sz div 4 \<or> req_len \<le> n div 4 \<or> (sz + n + 3) div 4 \<noteq> req_len)"

section \<open>Fields of replies\<close>

definition card16 :: "bool \<Rightarrow> u16 \<Rightarrow> byte list" where
  "card16 sw v = le_bytes 2 (if sw then bswap_16 v else v)"

definition card32 :: "bool \<Rightarrow> u32 \<Rightarrow> byte list" where
  "card32 sw v = le_bytes 4 (if sw then bswap_32 v else v)"

end
