(* ===== verification/Properties.thy ===== *)
theory Properties
  imports Requests
begin

text \<open>
  Window properties, \<^verbatim>\<open>dix/property.c\<close>: the list of named, typed values that hangs off each
  window, and the protocol requests that change, read, list, rotate and delete them. Requests
  are their fields after the byte order has been corrected; the trailing data is the raw bytes.
  The security hook, the property filter callback, the window lookup and the atom table are
  parameters.
\<close>

section \<open>State\<close>

record property =
  p_addr :: nat
  propertyName :: u32
  p_type :: u32
  p_format :: u32
  p_size :: u32
  p_data :: "byte list"

record window =
  w_id :: u32
  w_properties :: "property list"
  w_optional :: bool

datatype notify_state = PropertyNewValue | PropertyDelete

record prop_event =
  e_window :: u32
  e_state :: notify_state
  e_atom :: u32
  e_time :: u32

record prop_state =
  windows :: "u32 \<Rightarrow> window"
  error_value :: u32
  events :: "prop_event list"
  vrr_calls :: "(u32 \<times> u32) list"

text \<open>The parameter block that \<open>PropertyFilterCallback\<close> may rewrite.\<close>

record filter_param =
  f_client :: nat
  f_window :: u32
  f_property :: u32
  f_type :: u32
  f_atoms :: "u32 list"
  f_nPositions :: int
  f_skip :: bool
  f_status :: x_status
  f_access_mode :: u32
  f_format :: u32
  f_mode :: u32
  f_len :: nat
  f_value :: "byte list"
  f_sendevent :: bool
  f_delete :: bool
  f_longOffset :: u32
  f_longLength :: u32

datatype prop_alloc = AllocOptional | AllocProperty | AllocData | AllocProps | AllocSaved

text \<open>
  \<open>lookup_window\<close> gives the status and the id of the window (a failing lookup leaves the
  requested id in the client's \<open>errorValue\<close>); \<open>xace_property\<close> gets the
  client, the window's properties, the property and the access mode, and returns a status and
  the address of the property to use instead (a hook redirects lookups only: for a property that
  is being created or checked after a change the address is ignored). \<open>xinerama\<close> says whether the extension is built
  in, \<open>panoramiX\<close> whether it is running, \<open>screen_windows\<close> what the per-screen window lookups of a
  window's id give (\<open>None\<close> when the id is no Xinerama window).
\<close>

record prop_env =
  valid_atom :: "u32 \<Rightarrow> bool"
  atom_name :: "u32 \<Rightarrow> byte list option"
  lookup_window :: "u32 \<Rightarrow> nat \<Rightarrow> u32 \<Rightarrow> x_status \<times> u32"
  xace_property :: "nat \<Rightarrow> property list \<Rightarrow> property \<Rightarrow> u32 \<Rightarrow> x_status \<times> nat"
  property_filter :: "filter_param \<Rightarrow> filter_param"
  prop_mem :: "prop_alloc \<Rightarrow> bool"
  new_addr :: "property list \<Rightarrow> nat"
  optional_needed :: "window \<Rightarrow> bool"
  now :: u32
  xinerama :: bool
  panoramiX :: bool
  screen_windows :: "u32 \<Rightarrow> (u32 option) list option"
  screen_vrr :: bool
  reply_heap :: heap_env

definition PropModeReplace :: u32 where "PropModeReplace = 0"
definition PropModePrepend :: u32 where "PropModePrepend = 1"
definition PropModeAppend :: u32 where "PropModeAppend = 2"

definition AnyPropertyType :: u32 where "AnyPropertyType = 0"

definition set_window :: "u32 \<Rightarrow> (window \<Rightarrow> window) \<Rightarrow> prop_state \<Rightarrow> prop_state" where
  "set_window w f s = s\<lparr>windows := (windows s)(w := f (windows s w))\<rparr>"

definition set_props :: "u32 \<Rightarrow> property list \<Rightarrow> prop_state \<Rightarrow> prop_state" where
  "set_props w ps = set_window w (\<lambda>win. win\<lparr>w_properties := ps\<rparr>)"

abbreviation props_of :: "prop_state \<Rightarrow> u32 \<Rightarrow> property list" where
  "props_of s w \<equiv> w_properties (windows s w)"

definition prop_at :: "property list \<Rightarrow> nat \<Rightarrow> property option" where
  "prop_at ps a = find (\<lambda>p. p_addr p = a) ps"

text \<open>Writing to the property an address points at.\<close>

definition update_prop :: "nat \<Rightarrow> (property \<Rightarrow> property) \<Rightarrow> property list \<Rightarrow> property list" where
  "update_prop a f ps = map (\<lambda>p. if p_addr p = a then f p else p) ps"

section \<open>Looking up and notifying\<close>

definition dixLookupProperty ::
    "prop_env \<Rightarrow> u32 \<Rightarrow> u32 \<Rightarrow> nat \<Rightarrow> u32 \<Rightarrow> prop_state \<Rightarrow> (x_status \<times> nat) \<times> prop_state" where
  "dixLookupProperty env w name client mode s =
     (let s1 = s\<lparr>error_value := name\<rparr>
      in case find (\<lambda>p. propertyName p = name) (props_of s w) of
           None \<Rightarrow> ((BadMatch, 0), s1)
         | Some p \<Rightarrow> (xace_property env client (props_of s w) p mode, s1))"

definition setVRRMode :: "prop_env \<Rightarrow> u32 \<Rightarrow> u32 \<Rightarrow> prop_state \<Rightarrow> prop_state" where
  "setVRRMode env w mode s =
     (if screen_vrr env then s\<lparr>vrr_calls := vrr_calls s @ [(w, mode)]\<rparr> else s)"

definition VARIABLE_REFRESH :: "byte list" where
  "VARIABLE_REFRESH = map (\<lambda>c. of_nat c)
     [95, 86, 65, 82, 73, 65, 66, 76, 69, 95, 82, 69, 70, 82, 69, 83, 72]"

definition notifyVRRMode ::
    "prop_env \<Rightarrow> u32 \<Rightarrow> notify_state \<Rightarrow> property \<Rightarrow> prop_state \<Rightarrow> prop_state" where
  "notifyVRRMode env w state prop s =
     (if atom_name env (propertyName prop) \<noteq> Some VARIABLE_REFRESH \<or> p_format prop \<noteq> 32
         \<or> p_size prop \<noteq> 1
      then s
      else
        let mode = (if state = PropertyNewValue then le_word (take 4 (p_data prop)) else 0)
        in if xinerama env
           then if panoramiX env
                then case screen_windows env w of
                       None \<Rightarrow> setVRRMode env w mode s
                     | Some wins \<Rightarrow>
                         fold (\<lambda>win s. case win of None \<Rightarrow> s | Some v \<Rightarrow> setVRRMode env v mode s)
                           (rev wins) s
                else s
           else setVRRMode env w mode s)"

definition deliverPropertyNotifyEvent ::
    "prop_env \<Rightarrow> u32 \<Rightarrow> notify_state \<Rightarrow> property \<Rightarrow> prop_state \<Rightarrow> prop_state" where
  "deliverPropertyNotifyEvent env w state prop s =
     s\<lparr>events := events s @ [\<lparr>e_window = w_id (windows s w), e_state = state,
         e_atom = propertyName prop, e_time = now env\<rparr>]\<rparr>"

definition notify :: "prop_env \<Rightarrow> u32 \<Rightarrow> notify_state \<Rightarrow> property \<Rightarrow> prop_state \<Rightarrow> prop_state" where
  "notify env w state prop s =
     notifyVRRMode env w state prop (deliverPropertyNotifyEvent env w state prop s)"

section \<open>Changing\<close>

definition MakeWindowOptional :: "prop_env \<Rightarrow> u32 \<Rightarrow> prop_state \<Rightarrow> bool \<times> prop_state" where
  "MakeWindowOptional env w s =
     (if w_optional (windows s w) then (True, s)
      else if \<not> prop_mem env AllocOptional then (False, s)
      else (True, set_window w (\<lambda>win. win\<lparr>w_optional := True\<rparr>) s))"

definition CheckWindowOptionalNeed :: "prop_env \<Rightarrow> u32 \<Rightarrow> prop_state \<Rightarrow> prop_state" where
  "CheckWindowOptionalNeed env w s =
     (if w_optional (windows s w) \<and> \<not> optional_needed env (windows s w)
      then set_window w (\<lambda>win. win\<lparr>w_optional := False\<rparr>) s else s)"

text \<open>
  The number of bytes is an \<open>int\<close> in the code. An allocation of a negative number of bytes, which is a
  huge one, fails.
\<close>

definition total_size :: "nat \<Rightarrow> nat \<Rightarrow> int" where
  "total_size len sizeInBytes = sint (word_of_nat (len * sizeInBytes) :: u32)"

definition data_allocated :: "prop_env \<Rightarrow> int \<Rightarrow> bool" where
  "data_allocated env totalSize \<longleftrightarrow> totalSize = 0 \<or> 0 < totalSize \<and> prop_mem env AllocData"

text \<open>
  A block for the old and the new data, filled with both; the size of the old data is computed in 32
  bits. \<open>None\<close> is a copy of a negative, that is a huge, number of bytes.
\<close>

definition join_data :: "bool \<Rightarrow> nat \<Rightarrow> property \<Rightarrow> nat \<Rightarrow> byte list \<Rightarrow> byte list option" where
  "join_data at_end sizeInBytes p len value =
     (let totalSize = total_size len sizeInBytes; n = nat totalSize;
          oldSize = unat (p_size p * word_of_nat sizeInBytes);
          block = replicate ((unat (p_size p) + len) * sizeInBytes) 0
      in if totalSize < 0 then None
         else if at_end then Some (poke oldSize (take n value) (poke 0 (take oldSize (p_data p)) block))
         else Some (poke 0 (take n value) (poke n (take oldSize (p_data p)) block)))"

text \<open>The new content of an existing property; \<open>Some None\<close> is an allocation that failed.\<close>

definition change_data ::
    "prop_env \<Rightarrow> property \<Rightarrow> u32 \<Rightarrow> u32 \<Rightarrow> u32 \<Rightarrow> nat \<Rightarrow> byte list \<Rightarrow> property option option" where
  "change_data env p type format mode len value =
     (let sizeInBytes = unat format div 8; totalSize = total_size len sizeInBytes;
          grown = (\<lambda>at_end.
            if \<not> prop_mem env AllocData then Some None
            else map_option (\<lambda>d. Some (p\<lparr>p_data := d, p_size := p_size p + word_of_nat len\<rparr>))
                   (join_data at_end sizeInBytes p len value))
      in if mode = PropModeReplace
         then if \<not> data_allocated env totalSize then Some None
              else Some (Some (p\<lparr>p_data := take (nat totalSize) value, p_size := word_of_nat len,
                                 p_type := type, p_format := format\<rparr>))
         else if len = 0 then Some (Some p)
         else if mode = PropModeAppend then grown True
         else if mode = PropModePrepend then grown False
         else Some (Some p))"

text \<open>
  \<open>value\<close> holds the \<open>len\<close> units the caller passes. The result \<open>None\<close> is the memory fault
  of \<open>join_data\<close>.
\<close>

definition dixChangeWindowProperty ::
    "prop_env \<Rightarrow> nat \<Rightarrow> u32 \<Rightarrow> u32 \<Rightarrow> u32 \<Rightarrow> u32 \<Rightarrow> u32 \<Rightarrow> nat \<Rightarrow> byte list \<Rightarrow> bool \<Rightarrow>
     prop_state \<Rightarrow> (x_status \<times> prop_state) option" where
  "dixChangeWindowProperty env client w name type format mode len value sendevent s =
     (let totalSize = total_size len (unat format div 8);
          access_mode = (if mode = PropModeReplace then DixWriteAccess else DixBlendAccess);
          finish = (\<lambda>a s. (Success,
             if sendevent
             then (case prop_at (props_of s w) a of
                     None \<Rightarrow> s | Some p \<Rightarrow> notify env w PropertyNewValue p s)
             else s))
      in case dixLookupProperty env w name client access_mode s of
           ((rc, a), s1) \<Rightarrow>
             if rc = BadMatch
             then Some
               (case MakeWindowOptional env w s1 of
                  (False, s2) \<Rightarrow> (BadAlloc, s2)
                | (True, s2) \<Rightarrow>
                    if \<not> prop_mem env AllocProperty then (BadAlloc, s2)
                    else if \<not> data_allocated env totalSize then (BadAlloc, s2)
                    else
                      let p = \<lparr>p_addr = new_addr env (props_of s2 w), propertyName = name, p_type = type,
                               p_format = format, p_size = word_of_nat len,
                               p_data = take (nat totalSize) value\<rparr>
                      in case xace_property env client (props_of s2 w) p (DixCreateAccess OR DixWriteAccess) of
                           (rc2, a2) \<Rightarrow>
                             if rc2 \<noteq> Success then (rc2, s2\<lparr>error_value := name\<rparr>)
                             else finish (p_addr p) (set_props w (p # props_of s2 w) s2))
             else if rc = Success
             then
               (case prop_at (props_of s1 w) a of
                  None \<Rightarrow> Some (Success, s1)
                | Some p \<Rightarrow>
                    if format \<noteq> p_format p \<and> mode \<noteq> PropModeReplace then Some (BadMatch, s1)
                    else if p_type p \<noteq> type \<and> mode \<noteq> PropModeReplace then Some (BadMatch, s1)
                    else
                      case change_data env p type format mode len value of
                        None \<Rightarrow> None
                      | Some None \<Rightarrow> Some (BadAlloc, s1)
                      | Some (Some p') \<Rightarrow>
                          let ps = update_prop a (\<lambda>_. p') (props_of s1 w)
                          in case xace_property env client ps p' (access_mode OR DixPostAccess) of
                               (rc2, a2) \<Rightarrow>
                                 if rc2 = Success then Some (finish a (set_props w ps s1))
                                 else Some (rc2, s1))
             else Some (rc, s1))"

section \<open>Deleting\<close>

definition unlink_property :: "prop_env \<Rightarrow> u32 \<Rightarrow> nat \<Rightarrow> prop_state \<Rightarrow> prop_state" where
  "unlink_property env w a s =
     (let ps = props_of s w;
          s1 = set_props w (remove_first (\<lambda>p. p_addr p = a) ps) s
      in if ps \<noteq> [] \<and> p_addr (hd ps) = a \<and> tl ps = [] then CheckWindowOptionalNeed env w s1 else s1)"

definition DeleteProperty ::
    "prop_env \<Rightarrow> nat \<Rightarrow> u32 \<Rightarrow> u32 \<Rightarrow> prop_state \<Rightarrow> x_status \<times> prop_state" where
  "DeleteProperty env client w name s =
     (case dixLookupProperty env w name client DixDestroyAccess s of
        ((rc, a), s1) \<Rightarrow>
          if rc = BadMatch then (Success, s1)
          else if rc = Success
          then (case prop_at (props_of s1 w) a of
                  None \<Rightarrow> (Success, s1)
                | Some p \<Rightarrow> (Success, notify env w PropertyDelete p (unlink_property env w a s1)))
          else (rc, s1))"

definition DeleteAllWindowProperties :: "prop_env \<Rightarrow> u32 \<Rightarrow> prop_state \<Rightarrow> prop_state" where
  "DeleteAllWindowProperties env w s =
     set_props w [] (fold (deliverPropertyNotifyEvent env w PropertyDelete) (props_of s w) s)"

section \<open>Requests\<close>

definition units_of :: "nat \<Rightarrow> byte list \<Rightarrow> byte list list" where
  "units_of n bs = map (\<lambda>i. take n (drop (n * i) bs)) [0..<length bs div n]"

definition words_of :: "nat \<Rightarrow> byte list \<Rightarrow> 'a::len word list" where
  "words_of n bs = map le_word (units_of n bs)"

record change_property_req =
  cp_mode :: byte
  cp_window :: u32
  cp_property :: u32
  cp_type :: u32
  cp_format :: byte
  cp_nUnits :: u32
  cp_data :: "byte list"

definition sizeof_xChangePropertyReq :: nat where
  "sizeof_xChangePropertyReq = 24"

text \<open>A client of the other byte order sends 16- and 32-bit data byte-swapped.\<close>

definition swap_property_data :: "bool \<Rightarrow> u32 \<Rightarrow> byte list \<Rightarrow> byte list" where
  "swap_property_data swapped format bs =
     (if \<not> swapped then bs
      else if format = 16 then concat (map (le_bytes 2) (SwapShorts (words_of 2 bs)))
      else if format = 32 then concat (map (le_bytes 4) (SwapLongs (words_of 4 bs)))
      else bs)"

definition no_filter_param :: filter_param where
  "no_filter_param = \<lparr>f_client = 0, f_window = 0, f_property = 0, f_type = 0, f_atoms = [],
     f_nPositions = 0, f_skip = False, f_status = Success, f_access_mode = 0, f_format = 0,
     f_mode = 0, f_len = 0, f_value = [], f_sendevent = False, f_delete = False,
     f_longOffset = 0, f_longLength = 0\<rparr>"

definition ProcChangeProperty ::
    "prop_env \<Rightarrow> nat \<Rightarrow> bool \<Rightarrow> nat \<Rightarrow> change_property_req \<Rightarrow> prop_state \<Rightarrow>
     (x_status \<times> prop_state) option" where
  "ProcChangeProperty env client swapped req_len stuff s =
     (let data = swap_property_data swapped (ucast (cp_format stuff)) (cp_data stuff);
          format = (scast (cp_format stuff) :: u32); mode = (scast (cp_mode stuff) :: u32); len = unat (cp_nUnits stuff);
          totalSize = len * (unat format div 8)
      in if req_len < sizeof_xChangePropertyReq div 4 then Some (BadLength, s)
         else if mode \<noteq> PropModeReplace \<and> mode \<noteq> PropModeAppend \<and> mode \<noteq> PropModePrepend
         then Some (BadValue, s\<lparr>error_value := mode\<rparr>)
         else if format \<noteq> 8 \<and> format \<noteq> 16 \<and> format \<noteq> 32
         then Some (BadValue, s\<lparr>error_value := format\<rparr>)
         else if unat (bytes_to_int32 (0xffffffff - word_of_nat sizeof_xChangePropertyReq)) < len
         then Some (BadLength, s)
         else if \<not> REQUEST_FIXED_SIZE sizeof_xChangePropertyReq totalSize req_len then Some (BadLength, s)
         else if \<not> valid_atom env (cp_property stuff)
         then Some (BadAtom, s\<lparr>error_value := cp_property stuff\<rparr>)
         else if \<not> valid_atom env (cp_type stuff) then Some (BadAtom, s\<lparr>error_value := cp_type stuff\<rparr>)
         else
           let p = property_filter env (no_filter_param\<lparr>f_client := client, f_window := cp_window stuff,
                     f_property := cp_property stuff, f_type := cp_type stuff, f_format := format,
                     f_mode := mode, f_len := len, f_value := data, f_sendevent := True,
                     f_access_mode := DixWriteAccess\<rparr>)
           in if f_skip p then Some (f_status p, s)
              else case lookup_window env (f_window p) (f_client p) DixSetPropAccess of
                     (err, w) \<Rightarrow>
                       if err \<noteq> Success then Some (err, s\<lparr>error_value := f_window p\<rparr>)
                       else dixChangeWindowProperty env (f_client p) w (f_property p) (f_type p)
                              (f_format p) (f_mode p) (f_len p) (f_value p) (f_sendevent p) s)"

definition ProcDeleteProperty ::
    "prop_env \<Rightarrow> nat \<Rightarrow> nat \<Rightarrow> u32 \<Rightarrow> u32 \<Rightarrow> prop_state \<Rightarrow> x_status \<times> prop_state" where
  "ProcDeleteProperty env client req_len win name s =
     (if \<not> REQUEST_SIZE_MATCH 12 req_len then (BadLength, s)
      else if \<not> valid_atom env name then (BadAtom, s\<lparr>error_value := name\<rparr>)
      else
        let p = property_filter env (no_filter_param\<lparr>f_client := client, f_window := win,
                  f_property := name, f_access_mode := DixRemoveAccess\<rparr>)
        in if f_skip p then (f_status p, s)
           else case lookup_window env (f_window p) (f_client p) DixSetPropAccess of
                  (result, w) \<Rightarrow>
                    if result \<noteq> Success then (result, s\<lparr>error_value := f_window p\<rparr>)
                    else DeleteProperty env (f_client p) w (f_property p) s)"

text \<open>Replies: 32 bytes of header, then the buffered data.\<close>

definition get_property_header :: "bool \<Rightarrow> u32 \<Rightarrow> u32 \<Rightarrow> u32 \<Rightarrow> u32 \<Rightarrow> byte list" where
  "get_property_header sw format type bytesAfter nItems =
     [0, ucast format, 0, 0, 0, 0, 0, 0] @ card32 sw type @ card32 sw bytesAfter @ card32 sw nItems
       @ replicate 12 0"

record get_property_req =
  gp_delete :: nat
  gp_window :: u32
  gp_property :: u32
  gp_type :: u32
  gp_longOffset :: u32
  gp_longLength :: u32

text \<open>The reply's data: the property's units in the client's byte order.\<close>

definition write_property_data ::
    "heap_env \<Rightarrow> x_rpcbuf \<Rightarrow> u32 \<Rightarrow> nat \<Rightarrow> byte list \<Rightarrow> x_rpcbuf" where
  "write_property_data h b format len data =
     snd (if format = 32 then x_rpcbuf_write_CARD32s h b (Some (words_of 4 (take (len div 4 * 4) data)))
          else if format = 16 then x_rpcbuf_write_CARD16s h b (Some (words_of 2 (take (len div 2 * 2) data)))
          else x_rpcbuf_write_CARD8s h b (Some (take len data)))"

text \<open>
  The part of \<open>ProcGetProperty\<close> from where the property is known to match the requested type.
  Offset and length are 32-bit and are multiplied by four as such.
\<close>

definition get_property_data ::
    "prop_env \<Rightarrow> u32 \<Rightarrow> bool \<Rightarrow> u32 \<Rightarrow> filter_param \<Rightarrow> nat \<Rightarrow> property \<Rightarrow> prop_state \<Rightarrow>
     (x_status \<times> (int \<times> byte list) list) \<times> prop_state" where
  "get_property_data env w sw sequence p a pProp s1 =
     (let n = unat ((p_format pProp div 8) * p_size pProp);
          ind = unat (push_bit 2 (f_longOffset p))
      in if n < ind then ((BadValue, []), s1\<lparr>error_value := f_longOffset p\<rparr>)
         else
           let len = min (n - ind) (unat (4 * f_longLength p));
               bytesAfter = (word_of_nat (n - (ind + len)) :: u32);
               nItems = word_of_nat (len div unat (p_format pProp div 8));
               del = (f_delete p \<and> bytesAfter = 0);
               s2 = (if del then notify env w PropertyDelete pProp s1 else s1);
               buf = write_property_data (reply_heap env)
                       (x_rpcbuf_zero\<lparr>rb_swapped := sw, rb_err_clear := True\<rparr>)
                       (p_format pProp) len (drop ind (p_data pProp))
           in if rb_error buf then ((BadAlloc, []), s2)
              else
                let s3 = (if del then unlink_property env w a s2 else s2)
                in case write_reply_hdr_and_rpcbuf sw sequence
                          (get_property_header sw (p_format pProp) (p_type pProp) bytesAfter nItems)
                          buf of
                     (st, bytes, _) \<Rightarrow> ((st, bytes), s3))"

definition ProcGetProperty ::
    "prop_env \<Rightarrow> nat \<Rightarrow> nat \<Rightarrow> bool \<Rightarrow> u32 \<Rightarrow> get_property_req \<Rightarrow> prop_state \<Rightarrow>
     (x_status \<times> (int \<times> byte list) list) \<times> prop_state" where
  "ProcGetProperty env client req_len sw sequence stuff s =
     (if \<not> REQUEST_SIZE_MATCH 24 req_len then ((BadLength, []), s)
      else if \<not> valid_atom env (gp_property stuff)
      then ((BadAtom, []), s\<lparr>error_value := gp_property stuff\<rparr>)
      else if gp_delete stuff \<noteq> 1 \<and> gp_delete stuff \<noteq> 0
      then ((BadValue, []), s\<lparr>error_value := word_of_nat (gp_delete stuff)\<rparr>)
      else if gp_type stuff \<noteq> AnyPropertyType \<and> \<not> valid_atom env (gp_type stuff)
      then ((BadAtom, []), s\<lparr>error_value := gp_type stuff\<rparr>)
      else
        let p = property_filter env (no_filter_param\<lparr>f_client := client, f_window := gp_window stuff,
                  f_property := gp_property stuff, f_type := gp_type stuff,
                  f_delete := (gp_delete stuff \<noteq> 0), f_access_mode := DixReadAccess,
                  f_longOffset := gp_longOffset stuff, f_longLength := gp_longLength stuff\<rparr>);
            win_mode = (if f_delete p then DixGetPropAccess OR DixSetPropAccess else DixGetPropAccess);
            prop_mode = (if f_delete p then DixReadAccess OR DixDestroyAccess else DixReadAccess)
        in if f_skip p then ((f_status p, []), s)
           else case lookup_window env (f_window p) (f_client p) win_mode of
             (rc, w) \<Rightarrow>
               if rc \<noteq> Success then ((rc, []), s\<lparr>error_value := f_window p\<rparr>)
               else case dixLookupProperty env w (f_property p) (f_client p) prop_mode s of
                 ((rc, a), s1) \<Rightarrow>
                   if rc = BadMatch
                   then (write_reply_hdr_simple sw sequence (get_property_header sw 0 0 0 0), s1)
                   else if rc \<noteq> Success then ((rc, []), s1)
                   else case prop_at (props_of s1 w) a of
                     None \<Rightarrow> ((Success, []), s1)
                   | Some pProp \<Rightarrow>
                     if f_type p \<noteq> p_type pProp \<and> f_type p \<noteq> AnyPropertyType
                     then (write_reply_hdr_simple sw sequence
                             (get_property_header sw (p_format pProp) (p_type pProp) (p_size pProp) 0), s1)
                     else get_property_data env w sw sequence p a pProp s1)"

definition list_properties_header :: "bool \<Rightarrow> u16 \<Rightarrow> byte list" where
  "list_properties_header sw n = replicate 8 0 @ card16 sw n @ replicate 22 0"

definition ProcListProperties ::
    "prop_env \<Rightarrow> nat \<Rightarrow> nat \<Rightarrow> bool \<Rightarrow> u32 \<Rightarrow> u32 \<Rightarrow> prop_state \<Rightarrow>
     (x_status \<times> (int \<times> byte list) list) \<times> prop_state" where
  "ProcListProperties env client req_len sw sequence win s =
     (if \<not> REQUEST_SIZE_MATCH 8 req_len then ((BadLength, []), s) else
      case lookup_window env win client DixListPropAccess of
        (rc, w) \<Rightarrow>
          if rc \<noteq> Success then ((rc, []), s\<lparr>error_value := win\<rparr>)
          else
            let names = map propertyName (filter (\<lambda>p.
                  xace_property env client (props_of s w) p DixGetAttrAccess = (Success, p_addr p))
                  (props_of s w));
                buf = fold (\<lambda>n b. snd (x_rpcbuf_write_CARD32 (reply_heap env) b n)) names
                        (x_rpcbuf_zero\<lparr>rb_swapped := sw, rb_err_clear := True\<rparr>)
            in case write_reply_hdr_and_rpcbuf sw sequence
                      (list_properties_header sw (word_of_nat (length names))) buf of
                 (st, bytes, _) \<Rightarrow> ((st, bytes), s))"

text \<open>
  Rotation: first every atom of the request is checked in turn, collecting the addresses of the
  properties, then the saved values move. \<open>Inl\<close> is an error status.
\<close>

fun rotate_collect ::
    "prop_env \<Rightarrow> nat \<Rightarrow> u32 \<Rightarrow> u32 list \<Rightarrow> nat list \<Rightarrow> prop_state \<Rightarrow> (x_status + nat list) \<times> prop_state"
where
  "rotate_collect env client w [] acc s = (Inr acc, s)"
| "rotate_collect env client w (atom # atoms) acc s =
     (if \<not> valid_atom env atom then (Inl BadAtom, s\<lparr>error_value := atom\<rparr>)
      else if atom \<in> set atoms then (Inl BadMatch, s)
      else case dixLookupProperty env w atom client (DixReadAccess OR DixWriteAccess) s of
             ((rc, a), s1) \<Rightarrow>
               if rc \<noteq> Success then (Inl rc, s1)
               else rotate_collect env client w atoms (acc @ [a]) s1)"

text \<open>One turn of the loop: the event for property \<open>i\<close>, then property \<open>j\<close> gets the saved value.\<close>

definition rotate_step ::
    "prop_env \<Rightarrow> u32 \<Rightarrow> nat list \<Rightarrow> property list \<Rightarrow> nat \<Rightarrow> nat \<Rightarrow> prop_state \<Rightarrow> prop_state" where
  "rotate_step env w addrs saved delta i s =
     (let j = (i + delta) mod length addrs;
          s1 = (case prop_at (props_of s w) (addrs ! i) of
                  None \<Rightarrow> s | Some p \<Rightarrow> notify env w PropertyNewValue p s);
          sv = saved ! i
      in set_props w (update_prop (addrs ! j)
           (\<lambda>p. p\<lparr>p_type := p_type sv, p_format := p_format sv, p_size := p_size sv,
                  p_data := p_data sv\<rparr>) (props_of s1 w)) s1)"

definition ProcRotateProperties ::
    "prop_env \<Rightarrow> nat \<Rightarrow> nat \<Rightarrow> u32 \<Rightarrow> u32 list \<Rightarrow> int \<Rightarrow> prop_state \<Rightarrow> x_status \<times> prop_state" where
  "ProcRotateProperties env client req_len win atoms nPositions s =
     (if \<not> REQUEST_FIXED_SIZE 12 (4 * length atoms) req_len then (BadLength, s)
      else
        let p = property_filter env (no_filter_param\<lparr>f_client := client, f_window := win,
                  f_access_mode := DixWriteAccess, f_atoms := atoms, f_nPositions := nPositions\<rparr>)
        in if f_skip p then (f_status p, s)
           else case lookup_window env (f_window p) (f_client p) DixSetPropAccess of
             (rc, w) \<Rightarrow>
               if rc \<noteq> Success then (rc, s\<lparr>error_value := f_window p\<rparr>)
               else if atoms = [] then (rc, s)
               else if \<not> prop_mem env AllocProps \<or> \<not> prop_mem env AllocSaved then (BadAlloc, s)
               else case rotate_collect env (f_client p) w (f_atoms p) [] s of
                 (Inl err, s1) \<Rightarrow> (err, s1)
               | (Inr addrs, s1) \<Rightarrow>
                   let saved = map (\<lambda>a. the (prop_at (props_of s1 w) a)) addrs; n = length addrs
                   in if \<bar>f_nPositions p\<bar> mod int n = 0 then (Success, s1)
                      else (Success, fold (rotate_step env w addrs saved (nat (f_nPositions p mod int n)))
                              [0..<n] s1))"

end
