(* ===== verification/Property_Laws.thy ===== *)
theory Property_Laws
  imports Properties
begin

text \<open>
  The laws of window properties: a window is a map from names to typed values, changing one is
  an update of that map, reading is a window into its bytes, and rotation permutes values.
\<close>

section \<open>The abstract view\<close>

definition prop_map :: "property list \<Rightarrow> u32 \<Rightarrow> (u32 \<times> u32 \<times> byte list) option" where
  "prop_map ps name =
     map_option (\<lambda>p. (p_type p, p_format p, p_data p)) (find (\<lambda>p. propertyName p = name) ps)"

definition prop_ok :: "property \<Rightarrow> bool" where
  "prop_ok p \<longleftrightarrow> (p_format p = 8 \<or> p_format p = 16 \<or> p_format p = 32) \<and>
     length (p_data p) = unat (p_size p) * (unat (p_format p) div 8)"

definition props_inv :: "property list \<Rightarrow> bool" where
  "props_inv ps \<longleftrightarrow> distinct (map p_addr ps) \<and> distinct (map propertyName ps) \<and> (\<forall>p \<in> set ps. prop_ok p)"

text \<open>
  An environment that neither refuses nor rewrites anything: the hook allows every access, no
  filter is registered, memory is available (blocks below 2 to the 63 bytes), new properties get a
  fresh address.
\<close>

definition permissive :: "prop_env \<Rightarrow> bool" where
  "permissive env \<longleftrightarrow> (\<forall>c ps p m. xace_property env c ps p m = (Success, p_addr p)) \<and>
     (\<forall>k. prop_mem env k) \<and> (\<forall>ps. new_addr env ps \<notin> p_addr ` set ps) \<and>
     (\<forall>q. property_filter env q = q) \<and> (\<forall>n. realloc_ok (reply_heap env) n = (n < 2 ^ 63))"

text \<open>What changing a property means: the new map, or \<open>None\<close> for a mismatch.\<close>

definition spec_change ::
    "(u32 \<Rightarrow> (u32 \<times> u32 \<times> byte list) option) \<Rightarrow> u32 \<Rightarrow> u32 \<Rightarrow> u32 \<Rightarrow> u32 \<Rightarrow> byte list \<Rightarrow>
     (u32 \<Rightarrow> (u32 \<times> u32 \<times> byte list) option) option" where
  "spec_change m name type format mode value =
     (case m name of
        None \<Rightarrow> Some (m(name \<mapsto> (type, format, value)))
      | Some (t, f, old) \<Rightarrow>
          if mode = PropModeReplace then Some (m(name \<mapsto> (type, format, value)))
          else if f \<noteq> format \<or> t \<noteq> type then None
          else if mode = PropModeAppend then Some (m(name \<mapsto> (t, f, old @ value)))
          else Some (m(name \<mapsto> (t, f, value @ old))))"

section \<open>Frames\<close>

lemma windows_vrr [simp]: "windows (setVRRMode env w mode s) = windows s"
  by (simp add: setVRRMode_def)

lemma windows_vrr_fold [simp]:
  "windows (fold (\<lambda>win s. case win of None \<Rightarrow> s | Some v \<Rightarrow> setVRRMode env v mode s) wins s) = windows s"
  by (induction wins arbitrary: s) (simp_all split: option.split)

lemma windows_notifyVRR [simp]: "windows (notifyVRRMode env w st p s) = windows s"
  by (simp add: notifyVRRMode_def Let_def split: option.split)

lemma events_vrr [simp]:
  "events (setVRRMode env w mode s) = events s" "error_value (setVRRMode env w mode s) = error_value s"
  by (simp_all add: setVRRMode_def)

lemma events_vrr_fold [simp]:
  "events (fold (\<lambda>win s. case win of None \<Rightarrow> s | Some v \<Rightarrow> setVRRMode env v mode s) wins s) = events s"
  by (induction wins arbitrary: s) (simp_all split: option.split)

lemma events_notifyVRR [simp]: "events (notifyVRRMode env w st p s) = events s"
  by (simp add: notifyVRRMode_def Let_def split: option.split)

lemma windows_notify [simp]: "windows (notify env w st p s) = windows s"
  by (simp add: notify_def deliverPropertyNotifyEvent_def)

lemma events_notify [simp]:
  "events (notify env w st p s) =
     events s @ [\<lparr>e_window = w_id (windows s w), e_state = st, e_atom = propertyName p, e_time = now env\<rparr>]"
  by (simp add: notify_def deliverPropertyNotifyEvent_def)

lemma windows_set_props [simp]:
  "props_of (set_props w ps s) w' = (if w' = w then ps else props_of s w')"
  "events (set_props w ps s) = events s" "w_id (windows (set_props w ps s) w') = w_id (windows s w')"
  by (simp_all add: set_props_def set_window_def)

section \<open>Property lists\<close>

lemma find_nameD: "find (\<lambda>p. propertyName p = n) ps = Some p \<Longrightarrow> p \<in> set ps \<and> propertyName p = n"
  by (auto simp: find_Some_iff)

lemma prop_at_addr:
  "distinct (map p_addr ps) \<Longrightarrow> p \<in> set ps \<Longrightarrow> prop_at ps (p_addr p) = Some p"
  by (induction ps) (auto simp: prop_at_def)

lemma update_prop_other: "a \<notin> p_addr ` set ps \<Longrightarrow> update_prop a f ps = ps"
  by (induction ps) (auto simp: update_prop_def)

lemma find_update_prop:
  assumes "distinct (map p_addr ps)" and "find (\<lambda>p. propertyName p = n) ps = Some p"
    and "propertyName p' = n"
  shows "find (\<lambda>p. propertyName p = m) (update_prop (p_addr p) (\<lambda>_. p') ps) =
    (if m = n then Some p' else find (\<lambda>p. propertyName p = m) ps)"
  using assms(1,2)
proof (induction ps)
  case (Cons q ps)
  show ?case
  proof (cases "propertyName q = n")
    case True
    with Cons.prems have "p = q" by simp
    with Cons.prems True show ?thesis
      using update_prop_other [of "p_addr q" ps "\<lambda>_. p'"] assms(3)
      by (simp add: update_prop_def)
  next
    case False
    with Cons.prems have f: "find (\<lambda>p. propertyName p = n) ps = Some p" by simp
    with Cons.prems have "p_addr q \<noteq> p_addr p" by (auto dest: find_nameD)
    with Cons f False show ?thesis by (auto simp: update_prop_def split: if_splits)
  qed
qed simp

lemma map_update_prop:
  "g p' = g p \<Longrightarrow> distinct (map p_addr ps) \<Longrightarrow> p \<in> set ps \<Longrightarrow>
   map g (update_prop (p_addr p) (\<lambda>_. p') ps) = map g ps"
  by (auto simp: update_prop_def distinct_map inj_on_def)

lemma props_inv_update:
  assumes "props_inv ps" and "p \<in> set ps" and "p_addr p' = p_addr p"
    and "propertyName p' = propertyName p" and "prop_ok p'"
  shows "props_inv (update_prop (p_addr p) (\<lambda>_. p') ps)"
  using assms map_update_prop [of p_addr p' p ps] map_update_prop [of propertyName p' p ps]
  by (auto simp: props_inv_def) (auto simp: update_prop_def)

lemma format_bytes:
  "f = 8 \<or> f = 16 \<or> f = (32 :: u32) \<Longrightarrow> unat f div 8 = 1 \<or> unat f div 8 = 2 \<or> unat f div 8 = 4"
  by auto

section \<open>Changing a property\<close>

lemma lookup_permissive:
  assumes "permissive env"
  shows "dixLookupProperty env w name client mode s =
    (case find (\<lambda>p. propertyName p = name) (props_of s w) of
       None \<Rightarrow> ((BadMatch, 0), s\<lparr>error_value := name\<rparr>)
     | Some p \<Rightarrow> ((Success, p_addr p), s\<lparr>error_value := name\<rparr>))"
  using assms by (simp add: dixLookupProperty_def Let_def permissive_def split: option.split)

lemma spec_change_new:
  "prop_map ps name = None \<Longrightarrow> propertyName p = name \<Longrightarrow>
   spec_change (prop_map ps) name (p_type p) (p_format p) mode (p_data p) = Some (prop_map (p # ps))"
  by (auto simp: spec_change_def prop_map_def fun_eq_iff)

lemma prop_map_update:
  assumes "props_inv ps" and "find (\<lambda>p. propertyName p = n) ps = Some p" and "propertyName p' = n"
  shows "prop_map (update_prop (p_addr p) (\<lambda>_. p') ps) = (prop_map ps)(n \<mapsto> (p_type p', p_format p', p_data p'))"
  using find_update_prop [OF _ assms(2,3)] assms(1)
  by (auto simp: prop_map_def fun_eq_iff props_inv_def)

text \<open>The property that replaces an existing one.\<close>

definition changed_property ::
    "property \<Rightarrow> u32 \<Rightarrow> u32 \<Rightarrow> u32 \<Rightarrow> nat \<Rightarrow> byte list \<Rightarrow> property" where
  "changed_property p type format mode len value =
     (if mode = PropModeReplace
      then p\<lparr>p_data := value, p_size := word_of_nat len, p_type := type, p_format := format\<rparr>
      else if len = 0 then p
      else if mode = PropModeAppend
      then p\<lparr>p_data := p_data p @ value, p_size := p_size p + word_of_nat len\<rparr>
      else p\<lparr>p_data := value @ p_data p, p_size := p_size p + word_of_nat len\<rparr>)"

lemma changed_property_ok:
  assumes "prop_ok p" and "format = 8 \<or> format = 16 \<or> format = 32"
    and "mode \<noteq> PropModeReplace \<Longrightarrow> format = p_format p \<and> unat (p_size p) + len < 2 ^ 32"
    and "length value = len * (unat format div 8)" and "len < 2 ^ 32"
  shows "prop_ok (changed_property p type format mode len value)"
proof -
  have "unat (p_size p + word_of_nat len) = unat (p_size p) + len" if "mode \<noteq> PropModeReplace"
    using assms(3) [OF that] by (simp add: unat_word_ariths unat_of_nat)
  moreover have "unat (word_of_nat len :: u32) = len" using assms(5) by (simp add: unat_of_nat)
  ultimately show ?thesis
    using assms(1-4) by (auto simp: prop_ok_def changed_property_def algebra_simps)
qed

text \<open>Sizes that the 32-bit arithmetic of the code holds.\<close>

definition sizes_fit :: "property list \<Rightarrow> byte list \<Rightarrow> bool" where
  "sizes_fit ps value \<longleftrightarrow> length value < 2 ^ 31 \<and> (\<forall>p \<in> set ps. length (p_data p) + length value < 2 ^ 32)"

lemma total_size_id: "len * u < 2 ^ 31 \<Longrightarrow> total_size len u = int (len * u)"
  by (simp add: total_size_def signed_of_nat signed_take_bit_int_eq_self del: of_nat_mult)

lemma grown_size:
  assumes "prop_ok p" "length value = len * (unat (p_format p) div 8)" "length (p_data p) + length value < 2 ^ 32"
  shows "unat (p_size p) + len < 2 ^ 32"
proof -
  have "0 < unat (p_format p) div 8" using assms(1) by (auto simp: prop_ok_def)
  then have "unat (p_size p) + len \<le> (unat (p_size p) + len) * (unat (p_format p) div 8)" by simp
  also have "\<dots> = length (p_data p) + length value" using assms(1,2) by (simp add: prop_ok_def add_mult_distrib)
  finally show ?thesis using assms(3) by simp
qed

lemma join_data_eq:
  assumes ok: "prop_ok p" and u: "u = unat (p_format p) div 8" "length value = len * u"
    and fits: "length value < 2 ^ 31" "length (p_data p) + length value < 2 ^ 32"
  shows "join_data at_end u p len value = Some (if at_end then p_data p @ value else value @ p_data p)"
proof -
  have d: "length (p_data p) = unat (p_size p) * u" using ok u(1) by (simp add: prop_ok_def)
  have t: "total_size len u = int (length value)" unfolding u(2) by (rule total_size_id) (use fits(1) u(2) in simp)
  have "unat (word_of_nat u :: u32) = u" using ok u(1) by (auto simp: prop_ok_def)
  then have o: "unat (p_size p * word_of_nat u) = length (p_data p)" using d fits(2) by (simp add: unat_word_ariths)
  have b: "(unat (p_size p) + len) * u = length (p_data p) + length value" using d u(2) by (simp add: add_mult_distrib)
  show ?thesis unfolding join_data_def Let_def t o b by (simp add: poke_def)
qed

lemma change_data_eq:
  assumes mem: "\<And>k. prop_mem env k" and ok: "prop_ok p"
    and same: "mode \<noteq> PropModeReplace \<Longrightarrow> format = p_format p"
    and len: "length value = len * (unat format div 8)"
    and fits: "length value < 2 ^ 31" "length (p_data p) + length value < 2 ^ 32"
    and mode: "mode = PropModeReplace \<or> mode = PropModeAppend \<or> mode = PropModePrepend"
  shows "change_data env p type format mode len value = Some (Some (changed_property p type format mode len value))"
proof -
  have t: "total_size len (unat format div 8) = int (length value)" unfolding len by (rule total_size_id) (use fits(1) len in simp)
  have m: "data_allocated env (int k)" for k using mem by (auto simp: data_allocated_def)
  have j: "join_data at_end (unat format div 8) p len value = Some (if at_end then p_data p @ value else value @ p_data p)"
    if "mode \<noteq> PropModeReplace" for at_end
    by (rule join_data_eq [OF ok]) (use same [OF that] len fits in simp_all)
  show ?thesis
    using mode mem j by (auto simp: change_data_def changed_property_def Let_def t m PropModeReplace_def PropModeAppend_def PropModePrepend_def)
qed

lemma change_existing:
  assumes env: "permissive env" and inv: "props_inv (props_of s w)"
    and p: "find (\<lambda>p. propertyName p = name) (props_of s w) = Some p"
    and len: "length value = len * (unat format div 8)"
    and mode: "mode = PropModeReplace \<or> mode = PropModeAppend \<or> mode = PropModePrepend"
    and fits: "sizes_fit (props_of s w) value"
  shows "dixChangeWindowProperty env client w name type format mode len value sendevent s = Some
    (if mode \<noteq> PropModeReplace \<and> (format \<noteq> p_format p \<or> p_type p \<noteq> type)
     then (BadMatch, s\<lparr>error_value := name\<rparr>)
     else
       let p' = changed_property p type format mode len value;
           s2 = set_props w (update_prop (p_addr p) (\<lambda>_. p') (props_of s w)) (s\<lparr>error_value := name\<rparr>)
       in (Success, if sendevent then notify env w PropertyNewValue p' s2 else s2))"
proof -
  let ?s1 = "s\<lparr>error_value := name\<rparr>"
  have pin: "p \<in> set (props_of s w)" using find_nameD [OF p] by simp
  have at: "prop_at (props_of s w) (p_addr p) = Some p"
    using prop_at_addr inv pin by (simp add: props_inv_def)
  have pok: "prop_ok p" using inv pin by (simp add: props_inv_def)
  have upd_at: "prop_at (update_prop (p_addr p) (\<lambda>_. p') (props_of s w)) (p_addr p) = Some p'"
    if "p_addr p' = p_addr p" for p'
  proof -
    have "distinct (map p_addr (update_prop (p_addr p) (\<lambda>_. p') (props_of s w)))"
      using map_update_prop [of p_addr p' p] that inv pin by (simp add: props_inv_def)
    moreover have "p' \<in> set (update_prop (p_addr p) (\<lambda>_. p') (props_of s w))"
      using pin by (auto simp: update_prop_def)
    ultimately show ?thesis using prop_at_addr that by metis
  qed
  have perm: "\<And>c ps p m. xace_property env c ps p m = (Success, p_addr p)" "\<And>k. prop_mem env k"
    using env by (simp_all add: permissive_def)
  have ch: "p_addr (changed_property p type format mode len value) = p_addr p"
    by (simp add: changed_property_def)
  have lk: "dixLookupProperty env w name client m s = ((Success, p_addr p), ?s1)" for m
    by (simp add: lookup_permissive [OF env] p)
  show ?thesis
  proof (cases "mode \<noteq> PropModeReplace \<and> (format \<noteq> p_format p \<or> p_type p \<noteq> type)")
    case True
    then show ?thesis
      by (auto simp: dixChangeWindowProperty_def Let_def lk at)
  next
    case False
    have "change_data env p type format mode len value = Some (Some (changed_property p type format mode len value))"
      by (rule change_data_eq [OF perm(2) pok _ len _ _ mode]) (use False fits pin in \<open>auto simp: sizes_fit_def\<close>)
    then show ?thesis
      using False perm upd_at [OF ch]
      by (auto simp: dixChangeWindowProperty_def Let_def lk at)
  qed
qed

lemma change_new:
  assumes env: "permissive env" and p: "find (\<lambda>p. propertyName p = name) (props_of s w) = None"
    and len: "length value = len * (unat format div 8)" "length value < 2 ^ 31"
  shows "\<exists>s1 a. windows s1 = (windows s)(w := (windows s w)\<lparr>w_optional := True\<rparr>) \<and>
      events s1 = events s \<and> a \<notin> p_addr ` set (props_of s w) \<and>
    dixChangeWindowProperty env client w name type format mode len value sendevent s = Some
    (let p' = \<lparr>p_addr = a, propertyName = name, p_type = type, p_format = format,
               p_size = word_of_nat len, p_data = value\<rparr>;
         s2 = set_props w (p' # props_of s w) s1
     in (Success, if sendevent then notify env w PropertyNewValue p' s2 else s2))"
proof -
  have perm: "\<And>c ps p m. xace_property env c ps p m = (Success, p_addr p)" "\<And>k. prop_mem env k"
    "new_addr env (props_of s w) \<notin> p_addr ` set (props_of s w)"
    using env by (simp_all add: permissive_def)
  let ?s1 = "(if w_optional (windows s w) then s\<lparr>error_value := name\<rparr>
    else set_window w (\<lambda>win. win\<lparr>w_optional := True\<rparr>) (s\<lparr>error_value := name\<rparr>))"
  have mk: "MakeWindowOptional env w (s\<lparr>error_value := name\<rparr>) = (True, ?s1)"
    using perm(2) by (simp add: MakeWindowOptional_def)
  have lk: "dixLookupProperty env w name client m s = ((BadMatch, 0), s\<lparr>error_value := name\<rparr>)" for m
    by (simp add: lookup_permissive [OF env] p)
  have t: "total_size len (unat format div 8) = int (length value)" unfolding len(1) by (rule total_size_id) (use len in simp)
  have da: "data_allocated env (int (length value))" using perm(2) by (auto simp: data_allocated_def)
  have pr: "props_of ?s1 w = props_of s w" by (simp add: set_window_def)
  have "windows ?s1 = (windows s)(w := (windows s w)\<lparr>w_optional := True\<rparr>)"
    "events ?s1 = events s"
    by (auto simp: set_window_def fun_eq_iff)
  moreover have "dixChangeWindowProperty env client w name type format mode len value sendevent s = Some
    (let p' = \<lparr>p_addr = new_addr env (props_of s w), propertyName = name, p_type = type, p_format = format,
               p_size = word_of_nat len, p_data = value\<rparr>;
         s2 = set_props w (p' # props_of s w) ?s1
     in (Success, if sendevent then notify env w PropertyNewValue p' s2 else s2))"
    unfolding dixChangeWindowProperty_def Let_def lk mk prod.case bool.case pr
    unfolding t nat_int using perm da by (simp add: prop_at_def)
  ultimately show ?thesis using perm(3) by blast
qed

lemma change_spec:
  assumes env: "permissive env" and inv: "props_inv (props_of s w)"
    and format: "format = 8 \<or> format = 16 \<or> format = 32"
    and mode: "mode = PropModeReplace \<or> mode = PropModeAppend \<or> mode = PropModePrepend"
    and len: "length value = len * (unat format div 8)"
    and fits: "sizes_fit (props_of s w) value"
  shows "\<exists>st s'. dixChangeWindowProperty env client w name type format mode len value sendevent s = Some (st, s') \<and>
        (case spec_change (prop_map (props_of s w)) name type format mode value of
           None \<Rightarrow> st = BadMatch \<and> windows s' = windows s \<and> events s' = events s
         | Some m \<Rightarrow> st = Success \<and> prop_map (props_of s' w) = m \<and>
             (\<forall>w'. w' \<noteq> w \<longrightarrow> windows s' w' = windows s w') \<and>
             events s' = events s @ (if sendevent then [\<lparr>e_window = w_id (windows s w),
               e_state = PropertyNewValue, e_atom = name, e_time = now env\<rparr>] else [])) \<and>
        props_inv (props_of s' w)"
proof -
  have v31: "length value < 2 ^ 31" using fits by (simp add: sizes_fit_def)
  have "0 < unat format div 8" using format by auto
  then have "len \<le> length value" using len by simp
  then have l32: "len < 2 ^ 32" using v31 by simp
  show ?thesis
proof (cases "find (\<lambda>p. propertyName p = name) (props_of s w)")
  case None
  obtain s1 a where w1: "windows s1 = (windows s)(w := (windows s w)\<lparr>w_optional := True\<rparr>)"
    and s1: "events s1 = events s" "a \<notin> p_addr ` set (props_of s w)"
    and ch: "dixChangeWindowProperty env client w name type format mode len value sendevent s = Some
    (let p' = \<lparr>p_addr = a, propertyName = name, p_type = type, p_format = format,
               p_size = word_of_nat len, p_data = value\<rparr>;
         s2 = set_props w (p' # props_of s w) s1
     in (Success, if sendevent then notify env w PropertyNewValue p' s2 else s2))"
    using change_new [OF env None len v31, of client type mode sendevent] by blast
  let ?p = "\<lparr>p_addr = a, propertyName = name, p_type = type, p_format = format,
               p_size = word_of_nat len, p_data = value\<rparr>"
  have "prop_ok ?p" using format len l32 by (auto simp: prop_ok_def unat_of_nat)
  moreover have "name \<notin> propertyName ` set (props_of s w)"
    using None by (auto simp: find_None_iff)
  ultimately have "props_inv (?p # props_of s w)"
    using inv s1(2) by (simp add: props_inv_def)
  moreover have "prop_map (props_of s w) name = None" by (simp add: prop_map_def None)
  from spec_change_new [OF this, of ?p mode]
  have "spec_change (prop_map (props_of s w)) name type format mode value = Some (prop_map (?p # props_of s w))"
    by simp
  ultimately show ?thesis
    unfolding ch Let_def using s1(1) w1 by (simp add: set_props_def set_window_def)
next
  case (Some p)
  let ?s1 = "s\<lparr>error_value := name\<rparr>"
  let ?p' = "changed_property p type format mode len value"
  have pin: "p \<in> set (props_of s w)" and nm: "propertyName p = name" using find_nameD [OF Some] by simp_all
  have pok: "prop_ok p" using inv pin by (simp add: props_inv_def)
  have map: "prop_map (props_of s w) name = Some (p_type p, p_format p, p_data p)"
    by (simp add: prop_map_def Some)
  note ch = change_existing [OF env inv Some len mode fits, of client type sendevent]
  show ?thesis
  proof (cases "mode \<noteq> PropModeReplace \<and> (format \<noteq> p_format p \<or> p_type p \<noteq> type)")
    case True
    then show ?thesis unfolding ch using inv map by (auto simp: spec_change_def)
  next
    case False
    have "prop_ok ?p'"
      using False pok format len l32 fits pin grown_size [OF pok, of "value" len]
      by (intro changed_property_ok) (auto simp: sizes_fit_def)
    moreover have nm': "p_addr ?p' = p_addr p" "propertyName ?p' = name"
      using nm by (simp_all add: changed_property_def)
    ultimately have inv': "props_inv (update_prop (p_addr p) (\<lambda>_. ?p') (props_of s w))"
      using props_inv_update [OF inv pin] nm by simp
    have val0: "len = 0 \<Longrightarrow> value = []" using len by simp
    have "spec_change (prop_map (props_of s w)) name type format mode value =
        Some ((prop_map (props_of s w))(name \<mapsto> (p_type ?p', p_format ?p', p_data ?p')))"
      using False mode val0 map
      by (auto simp: spec_change_def changed_property_def PropModeReplace_def PropModeAppend_def
          PropModePrepend_def)
    then show ?thesis
      unfolding ch Let_def
      using False inv' prop_map_update [OF inv Some nm'(2)] nm'(2)
      by (simp add: set_props_def set_window_def)
  qed
qed
qed

text \<open>C6: Where memory can be had and neither a security module nor a filter intervenes, changing a
  property is an update of the window's map from names to typed values, in every
  mode: a new name is added, Replace overwrites type, format and data, Append and Prepend
  extend the data of a property of the same format and type, and a mismatch is BadMatch and
  changes nothing. Exactly one PropertyNotify event is sent for a change (if asked for), other
  windows are untouched, and names stay unique with data lengths that agree with size and
  format. The value is shorter than 2 to the 31 bytes and, together with any property of the
  window, than 2 to the 32, so that the sums and products of the code, which are of 32 bits, do not
  wrap around.\<close>

theorem dixChangeWindowProperty_refines:
  assumes "permissive env" and "props_inv (props_of s w)"
    and "format = 8 \<or> format = 16 \<or> format = 32"
    and "mode = PropModeReplace \<or> mode = PropModeAppend \<or> mode = PropModePrepend"
    and "length value = len * (unat format div 8)"
    and "length value < 2 ^ 31" "\<forall>p \<in> set (props_of s w). length (p_data p) + length value < 2 ^ 32"
  shows "\<exists>st s'. dixChangeWindowProperty env client w name type format mode len value sendevent s = Some (st, s') \<and>
        (case spec_change (prop_map (props_of s w)) name type format mode value of
           None \<Rightarrow> st = BadMatch \<and> windows s' = windows s \<and> events s' = events s
         | Some m \<Rightarrow> st = Success \<and> prop_map (props_of s' w) = m \<and>
             (\<forall>w'. w' \<noteq> w \<longrightarrow> windows s' w' = windows s w') \<and>
             events s' = events s @ (if sendevent then [\<lparr>e_window = w_id (windows s w),
               e_state = PropertyNewValue, e_atom = name, e_time = now env\<rparr>] else [])) \<and>
        props_inv (props_of s' w)"
  by (rule change_spec [OF assms(1-5)]) (use assms(6,7) in \<open>simp add: sizes_fit_def\<close>)

text \<open>Beyond these sizes the code leaves the block it allocated.\<close>

lemma huge_append_faults:
  "prop_mem env AllocData \<Longrightarrow> change_data env p type 32 PropModeAppend (2 ^ 29) value = None"
  by (simp add: change_data_def join_data_def total_size_def Let_def PropModeAppend_def PropModeReplace_def)

section \<open>Units and byte order\<close>

lemma bit_le_word:
  "bit (le_word bs :: 'a::len word) i \<longleftrightarrow> i < LENGTH('a) \<and> i div 8 < length bs \<and> bit (bs ! (i div 8)) (i mod 8)"
proof (induction bs arbitrary: i)
  case Nil
  then show ?case by (simp add: le_word_def)
next
  case (Cons b bs)
  have step: "le_word (b # bs) = (ucast b OR push_bit 8 (le_word bs) :: 'a word)"
    by (simp add: le_word_def)
  show ?case
  proof (cases "i < 8")
    case True
    then show ?thesis by (auto simp: step bit_simps)
  next
    case False
    then obtain j where j: "i = j + 8" by (metis add.commute le_Suc_ex not_less)
    have "bit (ucast b :: 'a word) i = False"
      using False by (auto simp: bit_simps dest: bit_imp_le_length)
    moreover have "(j + 8) div 8 = Suc (j div 8)" by simp
    ultimately show ?thesis
      using Cons [of j] by (auto simp: step bit_simps j)
  qed
qed

lemma le_bytes_le_word:
  assumes "LENGTH('a::len) = 8 * length bs"
  shows "le_bytes (length bs) (le_word bs :: 'a word) = bs"
proof (rule nth_equalityI)
  fix i assume "i < length (le_bytes (length bs) (le_word bs :: 'a word))"
  then have i: "i < length bs" by simp
  show "le_bytes (length bs) (le_word bs :: 'a word) ! i = bs ! i"
  proof (rule bit_word_eqI)
    fix n assume n: "n < LENGTH(8)"
    then have "(8 * i + n) div 8 = i" "(8 * i + n) mod 8 = n" by simp_all
    then show "bit (le_bytes (length bs) (le_word bs :: 'a word) ! i) n = bit (bs ! i) n"
      using i n assms by (simp add: le_bytes_def bit_simps bit_le_word)
  qed
qed simp

lemma concat_units:
  assumes "0 < n" and "length bs = n * k"
  shows "concat (units_of n bs) = bs"
  using assms(2)
proof (induction k arbitrary: bs)
  case 0
  then show ?case by (simp add: units_of_def)
next
  case (Suc k)
  have "units_of n bs = take n bs # units_of n (drop n bs)"
  proof -
    have "length bs div n = Suc k" "length (drop n bs) div n = k" using Suc.prems assms(1) by simp_all
    then show ?thesis
      by (simp add: units_of_def upt_conv_Cons map_Suc_upt [symmetric] del: upt_Suc)
        (simp add: add.commute)
  qed
  with Suc.IH [of "drop n bs"] Suc.prems show ?case by simp
qed

lemma length_units:
  "0 < n \<Longrightarrow> length bs = n * k \<Longrightarrow> u \<in> set (units_of n bs) \<Longrightarrow> length u = n"
proof -
  assume n: "0 < n" and len: "length bs = n * k" and u: "u \<in> set (units_of n bs)"
  then obtain i where i: "i < k" and u: "u = take n (drop (n * i) bs)" by (auto simp: units_of_def)
  have "n * Suc i \<le> n * k" using i by (intro mult_le_mono2) simp
  then show "length u = n" using u len by simp
qed

lemma bytes_of_words:
  assumes "LENGTH('a::len) = 8 * n" and "0 < n" and "length bs = n * k"
  shows "concat (map (le_bytes n) (words_of n bs :: 'a word list)) = bs"
proof -
  have "map (le_bytes n) (words_of n bs :: 'a word list) = units_of n bs"
    unfolding words_of_def map_map
    by (rule map_idI) (use length_units [OF assms(2,3)] le_bytes_le_word [where ?'a = 'a] assms(1) in fastforce)
  then show ?thesis using concat_units [OF assms(2,3)] by simp
qed

lemma le_word_le_bytes:
  "LENGTH('a::len) = 8 * n \<Longrightarrow> le_word (le_bytes n (w :: 'a word)) = w"
  by (rule le_bytes_inject [where n = n]) (use le_bytes_le_word [of "le_bytes n w", where ?'a = 'a] in simp_all)

lemma words_of_bytes:
  assumes "LENGTH('a::len) = 8 * n" and "0 < n"
  shows "words_of n (concat (map (le_bytes n) (ws :: 'a word list))) = ws"
proof (induction ws)
  case Nil
  then show ?case by (simp add: words_of_def units_of_def)
next
  case (Cons w ws)
  let ?rest = "concat (map (le_bytes n) ws)"
  have len: "length (concat (map (le_bytes n) us)) = n * length us" for us :: "'a word list"
    by (induction us) simp_all
  have "units_of n (le_bytes n w @ ?rest) = le_bytes n w # units_of n ?rest"
    using assms(2) by (simp add: units_of_def len upt_conv_Cons map_Suc_upt [symmetric] del: upt_Suc)
  then show ?case
    using Cons le_word_le_bytes [OF assms(1)] by (simp add: words_of_def)
qed

text \<open>Swapping the data of a property twice restores it, and sending it is swapping it.\<close>

lemma words_of_mapped:
  "words_of 2 (concat (map (\<lambda>x. le_bytes 2 (f x)) us)) = map (f :: _ \<Rightarrow> u16) us"
  "words_of 4 (concat (map (\<lambda>x. le_bytes 4 (g x)) vs)) = map (g :: _ \<Rightarrow> u32) vs"
  using words_of_bytes [of 2 "map f us"] words_of_bytes [of 4 "map g vs"] by (simp_all add: comp_def)

lemma length_words_of [simp]: "length (words_of n bs) = length bs div n"
  by (simp add: words_of_def units_of_def)

lemma length_concat_le_bytes [simp]: "length (concat (map (\<lambda>x. le_bytes n (f x)) us)) = n * length us"
  by (induction us) simp_all

lemma swap_property_data_twice:
  assumes "format = 8 \<or> format = 16 \<or> format = 32" and "length bs = k * (unat format div 8)"
  shows "swap_property_data sw format (swap_property_data sw format bs) = bs"
  using assms bytes_of_words [where ?'a = 16 and n = 2 and bs = bs and k = k]
    bytes_of_words [where ?'a = 32 and n = 4 and bs = bs and k = k]
  by (auto simp: swap_property_data_def words_of_mapped SwapShorts_map SwapLongs_map comp_def
      bswap_16_involutive bswap_32_involutive mult.commute)

lemma length_swap_property_data:
  assumes "format = 8 \<or> format = 16 \<or> format = 32" and "length bs = k * (unat format div 8)"
  shows "length (swap_property_data sw format bs) = length bs"
  using assms by (auto simp: swap_property_data_def SwapShorts_map SwapLongs_map comp_def)

lemma array_encodings:
  assumes "length bs = k * (unat format div 8)"
  shows "format = 32 \<Longrightarrow> concat (map (enc32 sw) (words_of 4 bs)) = swap_property_data sw format bs"
    and "format = 16 \<Longrightarrow> concat (map (enc16 sw) (words_of 2 bs)) = swap_property_data sw format bs"
    and "format = 8 \<Longrightarrow> bs = swap_property_data sw format bs"
  using assms bytes_of_words [where ?'a = 16 and n = 2 and bs = bs and k = k]
    bytes_of_words [where ?'a = 32 and n = 4 and bs = bs and k = k]
    swap_array_eq(1) [of sw "words_of 2 bs"] swap_array_eq(2) [of sw "words_of 4 bs"]
  by (auto simp: swap_property_data_def mult.commute split: if_splits)

section \<open>Reading\<close>

lemma write_op_contents:
  assumes h: "\<And>n. realloc_ok h n = (n < 2 ^ 63)" and fits: "rpc_fits op" "length (rpc_enc sw op) < 2 ^ 32"
    and b0: "b = x_rpcbuf_zero\<lparr>rb_swapped := sw, rb_err_clear := e\<rparr>"
  shows "rb_inv (snd (rpc_run_op h b op)) \<and> \<not> rb_error (snd (rpc_run_op h b op)) \<and> rb_contents (snd (rpc_run_op h b op)) = rpc_enc sw op"
proof -
  have b: "rb_inv b" "\<not> rb_error b" "rb_swapped b = sw" "rb_contents b = []"
    by (simp_all add: b0 x_rpcbuf_zero_def rb_inv_def rb_contents_def rb_bytes_def)
  have m: "malloc_limit h" "memory_up_to h (length (rb_contents b) + length (rpc_enc (rb_swapped b) op))"
    using fits(2) by (auto simp: malloc_limit_def memory_up_to_def h b XLIBRE_RPCBUF_CHUNK_SIZE_def)
  obtain ok b' where run: "rpc_run_op h b op = (ok, b')" by fastforce
  have ne: "\<not> rb_error b'" using any_op.wr_ok [OF b(1,2) fits(1) m(2)] run by simp
  with run any_op.wr_failure have ok by (cases ok) auto
  with run b fits(1) have "appends b (rpc_enc sw op) b'"
    using any_op.wr_appends [OF m(1), of b op b'] by simp
  then show ?thesis using run ne b(4) by (simp add: appends_def)
qed

lemma property_payload:
  assumes "\<And>n. realloc_ok h n = (n < 2 ^ 63)" and "format = 8 \<or> format = 16 \<or> format = 32"
    and len: "length (take len bs) = k * (unat format div 8)" "len \<le> length bs" "len < 2 ^ 31"
    and b: "b = x_rpcbuf_zero\<lparr>rb_swapped := sw, rb_err_clear := e\<rparr>"
  shows "rb_inv (write_property_data h b format len bs) \<and> \<not> rb_error (write_property_data h b format len bs) \<and>
    rb_contents (write_property_data h b format len bs) = swap_property_data sw format (take len bs)"
proof -
  have "format = 32 \<Longrightarrow> len div 4 * 4 = len" "format = 16 \<Longrightarrow> len div 2 * 2 = len"
    using len by auto
  moreover have "4 * (len div 4) \<le> len" "2 * (len div 2) \<le> len" by simp_all
  ultimately show ?thesis
    using assms(2) len(3) write_op_contents [OF assms(1) _ _ b, of "Card32s (Some (words_of 4 (take len bs)))"]
      write_op_contents [OF assms(1) _ _ b, of "Card16s (Some (words_of 2 (take len bs)))"]
      write_op_contents [OF assms(1) _ _ b, of "Card8s (Some (take len bs))"]
      array_encodings [OF len(1), of sw] len(2)
    by (auto simp: write_property_data_def enc_array_def concat_enc8 fits_array_def length_enc_array)
qed

text \<open>A reply: the header, then the payload, which is the start of the memory written from.\<close>

definition reply_sent :: "byte list \<Rightarrow> byte list \<Rightarrow> (int \<times> byte list) list \<Rightarrow> bool" where
  "reply_sent header payload out \<longleftrightarrow>
     (\<exists>mem. out = [(int (length header), header), (int (length payload), mem)] \<and> take (length payload) mem = payload)"

lemma reply_written:
  assumes "rb_inv b" "\<not> rb_error b" "8 \<le> length hdr" "length hdr < 2 ^ 31" "length (rb_contents b) < 2 ^ 31"
  shows "\<exists>hd out. write_reply_hdr_and_rpcbuf sw sq hdr b = (Success, out, x_rpcbuf_zero) \<and>
     reply_sent hd (rb_contents b) out \<and> length hd = length hdr \<and> drop 8 hd = drop 8 hdr"
proof -
  have w: "rb_wpos b = length (rb_contents b)" using wpos_contents [OF assms(1,2)] by simp
  have c: "take (length (rb_contents b)) (rb_bytes b) = rb_contents b" unfolding w [symmetric] by (simp only: rb_contents_def)
  show ?thesis
    using reply_header_fields [OF assms(3), of sw sq] assms(2) c
    unfolding write_reply_hdr_and_rpcbuf_def Let_def WriteRpcbufToClient_def x_rpcbuf_clear_def w
      int_of_size_id [OF assms(4)] int_of_size_id [OF assms(5)]
    by (auto simp: reply_sent_def)
qed

lemma get_property_header_fields:
  assumes "drop 8 hdr = drop 8 (get_property_header sw fmt type after items)"
  shows "take 4 (drop 8 hdr) = enc32 sw type \<and> take 4 (drop 12 hdr) = enc32 sw after \<and>
    take 4 (drop 16 hdr) = enc32 sw items"
proof -
  have len: "length (card32 sw v) = 4" for v by (simp add: card32_def)
  have d: "drop (8 + n) hdr = drop n (drop 8 hdr)" for n by (simp add: add.commute)
  have body: "drop 8 hdr = card32 sw type @ card32 sw after @ card32 sw items @ replicate 12 0"
    unfolding assms get_property_header_def by simp
  show ?thesis
    using d [of 4] d [of 8] by (simp add: body len) (simp add: card32_def swap_bytes_eq)
qed

lemma prop_map_remove:
  assumes "props_inv ps" and "find (\<lambda>p. propertyName p = n) ps = Some p"
  shows "prop_map (remove_first (\<lambda>q. p_addr q = p_addr p) ps) = (prop_map ps)(n := None) \<and>
    props_inv (remove_first (\<lambda>q. p_addr q = p_addr p) ps)"
proof -
  have find: "find (\<lambda>p. propertyName p = m) (remove_first (\<lambda>q. p_addr q = p_addr p) ps) =
      (if m = n then None else find (\<lambda>p. propertyName p = m) ps)" for m
    using assms unfolding props_inv_def
  proof (induction ps)
    case (Cons q ps)
    show ?case
    proof (cases "p_addr q = p_addr p")
      case True
      have pn: "p \<in> set (q # ps)" "propertyName p = n"
        using Cons.prems(2) find_nameD by blast+
      then have "q = p" using Cons.prems(1) True by auto
      moreover have "find (\<lambda>p. propertyName p = n) ps = None"
        using Cons.prems(1) pn \<open>q = p\<close> by (simp add: find_None_iff) (metis imageI)
      ultimately show ?thesis using pn by auto
    next
      case False
      with Cons show ?thesis by (auto split: if_splits)
    qed
  qed simp
  show ?thesis
    using assms(1) set_remove_first_subset [of "\<lambda>q. p_addr q = p_addr p" ps]
      distinct_map_remove_first [of p_addr ps] distinct_map_remove_first [of propertyName ps]
    by (auto simp: prop_map_def fun_eq_iff find props_inv_def)
qed

lemma unlink_property_frame:
  "props_of (unlink_property env w a s) w' =
     (if w' = w then remove_first (\<lambda>p. p_addr p = a) (props_of s w) else props_of s w')"
  "events (unlink_property env w a s) = events s"
  "w' \<noteq> w \<Longrightarrow> windows (unlink_property env w a s) w' = windows s w'"
  by (auto simp: unlink_property_def Let_def CheckWindowOptionalNeed_def set_window_def set_props_def)

lemma word_div_8:
  assumes "format = 8 \<or> format = 16 \<or> format = (32 :: u32)"
  shows "unat (format div 8) = unat format div 8" "0 < unat format div 8"
  using assms by auto

lemma get_spec:
  assumes env: "permissive env" and inv: "props_inv (props_of s w)"
    and p: "find (\<lambda>p. propertyName p = gp_property stuff) (props_of s w) = Some p"
    and req: "valid_atom env (gp_property stuff)" "gp_delete stuff = 0 \<or> gp_delete stuff = 1"
      "gp_type stuff = AnyPropertyType \<or> valid_atom env (gp_type stuff) \<and> gp_type stuff = p_type p"
      "\<And>m. lookup_window env (gp_window stuff) client m = (Success, w)"
    and range: "unat (gp_longOffset stuff) < 2 ^ 30" "unat (gp_longLength stuff) < 2 ^ 30"
      "n = length (p_data p)" "n < 2 ^ 32" "ind = 4 * unat (gp_longOffset stuff)" "ind \<le> n"
      "len = min (n - ind) (4 * unat (gp_longLength stuff))" "len < 2 ^ 31"
  shows "\<exists>hd out s'. ProcGetProperty env client 6 sw sq stuff s = ((Success, out), s') \<and>
    reply_sent hd (swap_property_data sw (p_format p) (take len (drop ind (p_data p)))) out \<and>
    take 4 (drop 8 hd) = enc32 sw (p_type p) \<and>
    take 4 (drop 12 hd) = enc32 sw (word_of_nat (n - (ind + len))) \<and>
    take 4 (drop 16 hd) = enc32 sw (word_of_nat (len div (unat (p_format p) div 8))) \<and>
    prop_map (props_of s' w) = (if gp_delete stuff = 1 \<and> ind + len = n
      then (prop_map (props_of s w))(gp_property stuff := None) else prop_map (props_of s w)) \<and>
    props_inv (props_of s' w) \<and>
    events s' = events s @ (if gp_delete stuff = 1 \<and> ind + len = n
      then [\<lparr>e_window = w_id (windows s w), e_state = PropertyDelete, e_atom = gp_property stuff,
             e_time = now env\<rparr>] else [])"
proof -
  let ?f = "p_format p" and ?u = "unat (p_format p) div 8"
  have pin: "p \<in> set (props_of s w)" and nm: "propertyName p = gp_property stuff"
    using find_nameD [OF p] by simp_all
  have at: "prop_at (props_of s w) (p_addr p) = Some p"
    using prop_at_addr inv pin by (simp add: props_inv_def)
  have fmt: "?f = 8 \<or> ?f = 16 \<or> ?f = 32" and plen: "n = unat (p_size p) * ?u"
    using inv pin range(3) by (auto simp: props_inv_def prop_ok_def)
  note u = word_div_8 [OF fmt]
  have n: "unat ((?f div 8) * p_size p) = n"
    using range(4) plen u by (simp add: unat_word_ariths mult.commute)
  have ind: "unat (push_bit 2 (gp_longOffset stuff)) = ind"
    using range(1,5) by (simp add: push_bit_eq_mult unat_word_ariths)
  have ll: "unat (4 * gp_longLength stuff) = 4 * unat (gp_longLength stuff)"
    using range(2) by (simp add: unat_word_ariths)
  have "?u dvd n" "?u dvd ind" "?u dvd 4 * unat (gp_longLength stuff)"
    using fmt plen range(5) by auto
  then have dvd: "?u dvd len"
    unfolding range(7) by (auto simp: min_def dvd_diff_nat)
  then obtain k where k: "len = k * ?u" by (metis dvd_def mult.commute)
  have lenb: "length (take len (drop ind (p_data p))) = k * ?u"
    using k range(3,7) by simp
  have after0: "(word_of_nat (n - (ind + len)) :: u32) = 0 \<longleftrightarrow> ind + len = n"
  proof -
    have small: "(word_of_nat d :: u32) = 0 \<longleftrightarrow> d = 0" if "d < 2 ^ 32" for d :: nat
      using that by (auto simp: word_of_nat_eq_0_iff dest: dvd_imp_le)
    have "ind + len \<le> n" using range(6,7) by simp
    with small [of "n - (ind + len)"] range(4) show ?thesis by linarith
  qed
  let ?del = "gp_delete stuff = 1 \<and> ind + len = n"
  let ?s1 = "s\<lparr>error_value := gp_property stuff\<rparr>"
  let ?s2 = "if ?del then notify env w PropertyDelete p ?s1 else ?s1"
  let ?s3 = "if ?del then unlink_property env w (p_addr p) ?s2 else ?s2"
  let ?bs = "take len (drop ind (p_data p))"
  define b' where "b' = write_property_data (reply_heap env)
    (x_rpcbuf_zero\<lparr>rb_swapped := sw, rb_err_clear := True\<rparr>) ?f len (drop ind (p_data p))"
  have "len \<le> length (drop ind (p_data p))" using range(3,7) by simp
  then have b': "rb_inv b'" "\<not> rb_error b'" "rb_contents b' = swap_property_data sw ?f ?bs"
    using property_payload [OF _ fmt lenb _ range(8) refl] env by (simp_all add: b'_def permissive_def)
  have pay: "length (rb_contents b') < 2 ^ 31"
    unfolding b'(3) length_swap_property_data [OF fmt lenb] using range(8) by simp
  let ?hdr = "get_property_header sw ?f (p_type p) (word_of_nat (n - (ind + len))) (word_of_nat (len div ?u))"
  have "8 \<le> length ?hdr" "length ?hdr < 2 ^ 31" by (simp_all add: get_property_header_def card32_def)
  from reply_written [OF b'(1,2) this pay, of sw sq] obtain h0 out where
    h0: "write_reply_hdr_and_rpcbuf sw sq ?hdr b' = (Success, out, x_rpcbuf_zero)"
      "drop 8 h0 = drop 8 ?hdr" and out: "reply_sent h0 (rb_contents b') out" by blast
  have core: "get_property_data env w sw sq q (p_addr p) p ?s1 = ((Success, out), ?s3)"
    if "f_longOffset q = gp_longOffset stuff" "f_longLength q = gp_longLength stuff"
      "f_delete q = (gp_delete stuff \<noteq> 0)" for q
    unfolding get_property_data_def that n ind ll u(1) Let_def range(7) [symmetric] b'_def [symmetric] after0
    using range(6) b'(2) h0(1) req(2) by auto
  have filter: "property_filter env q = q" for q using env by (simp add: permissive_def)
  have "ProcGetProperty env client 6 sw sq stuff s = ((Success, out), ?s3)"
    unfolding ProcGetProperty_def filter using req
    by (auto simp: Let_def REQUEST_SIZE_MATCH_def no_filter_param_def lookup_permissive [OF env] p at core
        simp del: One_nat_def)
  moreover have "prop_map (props_of ?s3 w) = (if ?del then (prop_map (props_of s w))(gp_property stuff := None)
      else prop_map (props_of s w)) \<and> props_inv (props_of ?s3 w)"
    using prop_map_remove [OF inv p] inv by (auto simp: unlink_property_frame)
  moreover have "events ?s3 = events s @ (if ?del then [\<lparr>e_window = w_id (windows s w),
      e_state = PropertyDelete, e_atom = gp_property stuff, e_time = now env\<rparr>] else [])"
    using nm by (auto simp: unlink_property_frame)
  ultimately show ?thesis
    using get_property_header_fields [OF h0(2)] b'(3) out by (intro exI [of _ h0] exI [of _ out] exI [of _ ?s3]) simp
qed

text \<open>C28: Where memory can be had and neither a security module nor a filter intervenes, reading a
  property of the type asked for (or of any type) from an offset within it returns exactly the
  requested window of its bytes: from four times the offset, at most four times the length, in
  units of the property's format and in the reader's byte order, with the header's type, unit count
  and number of bytes left; the property is deleted (and a delete event sent) if and only if that was
  asked for and nothing is left. Offset and length must be below 2 to the 30, where the 32-bit
  multiplications do not wrap, the property below 2 to the 32 bytes and the part that is read below
  2 to the 31, which the cast of the count to \<open>int\<close> needs.\<close>

theorem ProcGetProperty_reads_window:
  assumes "permissive env" and "props_inv (props_of s w)"
    and "find (\<lambda>p. propertyName p = gp_property stuff) (props_of s w) = Some p"
    and "valid_atom env (gp_property stuff)" "gp_delete stuff = 0 \<or> gp_delete stuff = 1"
      "gp_type stuff = AnyPropertyType \<or> valid_atom env (gp_type stuff) \<and> gp_type stuff = p_type p"
      "\<And>m. lookup_window env (gp_window stuff) client m = (Success, w)"
    and "unat (gp_longOffset stuff) < 2 ^ 30" "unat (gp_longLength stuff) < 2 ^ 30"
      "n = length (p_data p)" "n < 2 ^ 32" "ind = 4 * unat (gp_longOffset stuff)" "ind \<le> n"
      "len = min (n - ind) (4 * unat (gp_longLength stuff))" "len < 2 ^ 31"
  shows "\<exists>hd out s'. ProcGetProperty env client 6 sw sq stuff s = ((Success, out), s') \<and>
    reply_sent hd (swap_property_data sw (p_format p) (take len (drop ind (p_data p)))) out \<and>
    take 4 (drop 8 hd) = enc32 sw (p_type p) \<and>
    take 4 (drop 12 hd) = enc32 sw (word_of_nat (n - (ind + len))) \<and>
    take 4 (drop 16 hd) = enc32 sw (word_of_nat (len div (unat (p_format p) div 8))) \<and>
    prop_map (props_of s' w) = (if gp_delete stuff = 1 \<and> ind + len = n
      then (prop_map (props_of s w))(gp_property stuff := None) else prop_map (props_of s w)) \<and>
    props_inv (props_of s' w) \<and>
    events s' = events s @ (if gp_delete stuff = 1 \<and> ind + len = n
      then [\<lparr>e_window = w_id (windows s w), e_state = PropertyDelete, e_atom = gp_property stuff,
             e_time = now env\<rparr>] else [])"
  by (rule get_spec [OF assms])

text \<open>
  Beyond that bound the multiplication wraps: an offset of 2 to the 30 units reads from the
  start of the property, instead of the BadValue that an offset past the end is to give.
\<close>

lemma offset_wraps:
  "get_property_data env w sw sq (q\<lparr>f_longOffset := 0x40000000\<rparr>) a p s =
   get_property_data env w sw sq (q\<lparr>f_longOffset := 0\<rparr>) a p s"
  by (simp add: get_property_data_def Let_def)

section \<open>Writing and reading back\<close>

lemma swap_data_pair:
  assumes "format = 8 \<or> format = 16 \<or> format = 32" and "length bs = k * (unat format div 8)"
  shows "swap_property_data sw' format (swap_property_data sw format bs) =
    (if sw = sw' then bs else swap_property_data True format bs)"
  using swap_property_data_twice [OF assms, of sw]
  by (cases sw; cases sw') (simp_all add: swap_property_data_def)

lemma scast_format:
  "f = 8 \<or> f = 16 \<or> f = (32 :: byte) \<Longrightarrow> (scast f :: u32) = ucast f \<and>
   ((ucast f :: u32) = 8 \<or> (ucast f :: u32) = 16 \<or> (ucast f :: u32) = 32)"
  by auto

lemma spec_change_replace:
  "spec_change m name type format PropModeReplace v = Some (m(name \<mapsto> (type, format, v)))"
  by (auto simp: spec_change_def split: option.split)

text \<open>C29: What one client stores another reads: where memory can be had and neither a security
  module nor a filter intervenes, after a ChangeProperty request in Replace mode with
  8-, 16- or 32-bit data on valid atoms, a GetProperty of the whole property returns the very bytes that were
  sent to a client of the sender's byte order, and the same units with their bytes reversed to
  a client of the other byte order. The data are fewer than 2 to the 28 units and, together with any
  property of the window, below 2 to the 32 bytes.\<close>

theorem property_round_trip:
  assumes env: "permissive env" and inv: "props_inv (props_of s w)"
    and f: "cp_format stuff = 8 \<or> cp_format stuff = 16 \<or> cp_format stuff = 32"
      "cp_mode stuff = 0"
    and len: "len = unat (cp_nUnits stuff)" "len < 2 ^ 28"
      "length (cp_data stuff) = len * (unat (cp_format stuff) div 8)"
      "REQUEST_FIXED_SIZE sizeof_xChangePropertyReq (length (cp_data stuff)) req_len"
    and fits: "\<forall>p \<in> set (props_of s w). length (p_data p) + length (cp_data stuff) < 2 ^ 32"
    and atoms: "valid_atom env (cp_property stuff)" "valid_atom env (cp_type stuff)"
    and look: "\<And>c m. lookup_window env (cp_window stuff) c m = (Success, w)"
  shows "\<exists>s1 hd out s2. ProcChangeProperty env c sw req_len stuff s = Some (Success, s1) \<and>
    ProcGetProperty env c' 6 sw' sq \<lparr>gp_delete = 0, gp_window = cp_window stuff,
        gp_property = cp_property stuff, gp_type = AnyPropertyType, gp_longOffset = 0,
        gp_longLength = word_of_nat len\<rparr> s1 =
      ((Success, out), s2) \<and>
    reply_sent hd (if sw = sw' then cp_data stuff
                   else swap_property_data True (ucast (cp_format stuff)) (cp_data stuff)) out"
proof -
  let ?F = "ucast (cp_format stuff) :: u32" and ?T = "cp_type stuff" and ?N = "cp_property stuff"
  let ?V = "swap_property_data sw ?F (cp_data stuff)"
  note F = scast_format [OF f(1)]
  have unit: "unat ?F div 8 = unat (cp_format stuff) div 8" using f(1) by auto
  have unit4: "unat ?F div 8 \<le> 4" using F by auto
  have lenF: "length (cp_data stuff) = len * (unat ?F div 8)" using len(3) unit by simp
  have V: "length ?V = len * (unat ?F div 8)"
    using length_swap_property_data [OF conjunct2 [OF F] lenF] lenF by simp
  have "unat (bytes_to_int32 (0xffffffff - word_of_nat sizeof_xChangePropertyReq)) = 0x3ffffffa"
    by (subst bytes_to_int32_nat) (simp_all add: sizeof_xChangePropertyReq_def)
  then have short: "\<not> unat (bytes_to_int32 (0xffffffff - word_of_nat sizeof_xChangePropertyReq)) < len"
    using len(2) by simp
  have filter: "property_filter env q = q" for q using env by (simp add: permissive_def)
  have six: "\<not> req_len < sizeof_xChangePropertyReq div 4"
    using len(4) by (auto simp: REQUEST_FIXED_SIZE_def)
  have size: "REQUEST_FIXED_SIZE sizeof_xChangePropertyReq (len * (unat ?F div 8)) req_len"
    using len(4) lenF by simp
  have change: "ProcChangeProperty env c sw req_len stuff s =
      dixChangeWindowProperty env c w ?N ?T ?F PropModeReplace len ?V True s"
    unfolding ProcChangeProperty_def Let_def conjunct1 [OF F] len(1) [symmetric] filter
    using f(2) atoms look short six size F
    by (auto simp: no_filter_param_def PropModeReplace_def)
  have lenV: "length ?V \<le> 4 * len" unfolding V using unit4 by (simp add: mult.commute)
  have "4 * len < 2 ^ 31" using len(2) by simp
  with lenV have "length ?V < 2 ^ 31" by linarith
  moreover have "length ?V = length (cp_data stuff)" using V lenF by (simp only:)
  ultimately have "sizes_fit (props_of s w) ?V" using fits unfolding sizes_fit_def by simp
  from change_spec [OF env inv conjunct2 [OF F] _ V this, where mode = PropModeReplace
      and client = c and name = ?N and type = ?T and sendevent = True]
  obtain s1 where s1: "dixChangeWindowProperty env c w ?N ?T ?F PropModeReplace len ?V True s = Some (Success, s1)"
    and inv1: "props_inv (props_of s1 w)" and map: "prop_map (props_of s1 w) ?N = Some (?T, ?F, ?V)"
    by (auto simp: spec_change_replace)
  from map obtain p where p: "find (\<lambda>p. propertyName p = ?N) (props_of s1 w) = Some p"
    "p_type p = ?T" "p_format p = ?F" "p_data p = ?V"
    by (auto simp: prop_map_def)
  let ?req = "\<lparr>gp_delete = 0, gp_window = cp_window stuff, gp_property = ?N, gp_type = AnyPropertyType,
    gp_longOffset = 0, gp_longLength = word_of_nat len\<rparr>"
  have ll: "unat (word_of_nat len :: u32) = len" using len(2) by (simp add: unat_of_nat)
  obtain hd out s2 where get: "ProcGetProperty env c' 6 sw' sq ?req s1 = ((Success, out), s2)"
    "reply_sent hd (swap_property_data sw' (p_format p) (take (length ?V) (drop 0 (p_data p)))) out"
    using get_spec [OF env inv1, of ?req p c' "length ?V" 0 "length ?V" sw' sq] p atoms(1) look lenV len(2)
    by (auto simp: ll)
  have "swap_property_data sw' ?F ?V =
      (if sw = sw' then cp_data stuff else swap_property_data True ?F (cp_data stuff))"
    by (rule swap_data_pair [OF conjunct2 [OF F] lenF])
  then show ?thesis
    using change s1 get p by auto
qed

section \<open>Rotating\<close>

lemma rotate_collect_permissive:
  assumes "permissive env" and "\<forall>a \<in> set atoms. valid_atom env a" and "distinct atoms"
    and "\<forall>a \<in> set atoms. \<exists>p \<in> set (props_of s w). propertyName p = a"
    and "distinct (map propertyName (props_of s w))"
  shows "\<exists>e. rotate_collect env client w atoms acc s =
    (Inr (acc @ map (\<lambda>a. p_addr (the (find (\<lambda>p. propertyName p = a) (props_of s w)))) atoms),
     s\<lparr>error_value := e\<rparr>)"
  using assms(2-4)
proof (induction atoms arbitrary: acc s)
  case Nil
  then show ?case by (intro exI [of _ "error_value s"]) simp
next
  case (Cons a atoms)
  from Cons.prems(3) have "find (\<lambda>p. propertyName p = a) (props_of s w) \<noteq> None"
    by (auto simp: find_None_iff)
  then obtain p where p: "find (\<lambda>p. propertyName p = a) (props_of s w) = Some p" by blast
  have "rotate_collect env client w (a # atoms) acc s =
      rotate_collect env client w atoms (acc @ [p_addr p]) (s\<lparr>error_value := a\<rparr>)"
    using Cons.prems(1,2) by (simp add: lookup_permissive [OF assms(1)] p)
  with Cons.IH [of "s\<lparr>error_value := a\<rparr>" "acc @ [p_addr p]"] Cons.prems p show ?case by simp
qed

lemma update_prop_at:
  assumes "distinct (map p_addr ps)" and "p \<in> set ps"
  shows "update_prop (p_addr p) f ps = update_prop (p_addr p) (\<lambda>_. f p) ps"
  using assms by (auto simp: update_prop_def distinct_map inj_on_def)

text \<open>One step of the loop, over the map of the window.\<close>

definition prop_key :: "property \<Rightarrow> nat \<times> u32" where
  "prop_key p = (p_addr p, propertyName p)"

lemma rotate_step_spec:
  assumes inv: "props_inv (props_of s w)" and j: "j = (i + delta) mod length addrs"
    and q: "find (\<lambda>p. propertyName p = name) (props_of s w) = Some q" "addrs ! j = p_addr q"
    and sv: "prop_ok (saved ! i)"
  shows "prop_map (props_of (rotate_step env w addrs saved delta i s) w) = (prop_map (props_of s w))
      (name \<mapsto> (p_type (saved ! i), p_format (saved ! i), p_data (saved ! i))) \<and>
    props_inv (props_of (rotate_step env w addrs saved delta i s) w) \<and>
    map prop_key (props_of (rotate_step env w addrs saved delta i s) w) = map prop_key (props_of s w)"
proof -
  let ?sv = "saved ! i"
  let ?q = "q\<lparr>p_type := p_type ?sv, p_format := p_format ?sv, p_size := p_size ?sv, p_data := p_data ?sv\<rparr>"
  have qin: "q \<in> set (props_of s w)" "propertyName q = name" using find_nameD [OF q(1)] by simp_all
  have addr: "distinct (map p_addr (props_of s w))" using inv by (simp add: props_inv_def)
  have "props_of (rotate_step env w addrs saved delta i s) w =
      update_prop (p_addr q) (\<lambda>p. p\<lparr>p_type := p_type ?sv, p_format := p_format ?sv, p_size := p_size ?sv,
        p_data := p_data ?sv\<rparr>) (props_of s w)"
    using q(2) by (simp add: rotate_step_def Let_def j [symmetric] split: option.split)
  also have "\<dots> = update_prop (p_addr q) (\<lambda>_. ?q) (props_of s w)"
    by (rule update_prop_at [OF addr qin(1)])
  finally have ps: "props_of (rotate_step env w addrs saved delta i s) w = \<dots>" .
  have "prop_ok ?q" using sv by (simp add: prop_ok_def)
  then have "props_inv (update_prop (p_addr q) (\<lambda>_. ?q) (props_of s w))"
    by (intro props_inv_update [OF inv qin(1)]) simp_all
  then show ?thesis
    unfolding ps using prop_map_update [OF inv q(1), of ?q] qin map_update_prop [OF _ addr qin(1), of prop_key ?q]
    by (simp add: prop_key_def)
qed

lemma rotation_injective:
  assumes "i < n" and "k < n" and "(i + d) mod n = (k + d) mod (n :: nat)"
  shows "i = k"
proof -
  have "(int i + int d) mod int n = (int k + int d) mod int n"
    using assms(3) by (metis of_nat_add of_nat_mod)
  then have "int n dvd (int i - int k)" by (metis add_diff_cancel_right mod_eq_dvd_iff)
  then have "int i mod int n = int k mod int n" by (simp add: mod_eq_dvd_iff)
  with assms(1,2) show ?thesis by simp
qed

lemma rotate_fold_spec:
  fixes atoms :: "u32 list" and saved :: "property list"
  assumes inv: "props_inv (props_of s w)" and n: "n = length atoms" "length addrs = n"
    and names: "set atoms \<subseteq> propertyName ` set (props_of s w)"
    and addrs: "\<And>j q. j < n \<Longrightarrow> q \<in> set (props_of s w) \<Longrightarrow> propertyName q = atoms ! j \<Longrightarrow> addrs ! j = p_addr q"
    and saved: "\<And>i. i < n \<Longrightarrow> prop_ok (saved ! i)" and k: "k \<le> n" and dist: "distinct atoms"
    and s': "s' = fold (rotate_step env w addrs saved d) [0..<k] s"
  shows "props_inv (props_of s' w) \<and> map prop_key (props_of s' w) = map prop_key (props_of s w) \<and>
       (\<forall>i < k. prop_map (props_of s' w) (atoms ! ((i + d) mod n)) =
          Some (p_type (saved ! i), p_format (saved ! i), p_data (saved ! i))) \<and>
       (\<forall>a. a \<notin> set atoms \<longrightarrow> prop_map (props_of s' w) a = prop_map (props_of s w) a)"
  using k s'
proof (induction k arbitrary: s')
  case 0
  then show ?case using inv by simp
next
  case (Suc k)
  let ?t = "fold (rotate_step env w addrs saved d) [0..<k] s"
  let ?j = "(k + d) mod n" and ?v = "\<lambda>i. (p_type (saved ! i), p_format (saved ! i), p_data (saved ! i))"
  have n0: "0 < n" using Suc.prems(1) by simp
  then have j: "?j < n" by simp
  have IH: "props_inv (props_of ?t w)" "map prop_key (props_of ?t w) = map prop_key (props_of s w)"
       "\<And>i. i < k \<Longrightarrow> prop_map (props_of ?t w) (atoms ! ((i + d) mod n)) = Some (?v i)"
       "\<And>a. a \<notin> set atoms \<Longrightarrow> prop_map (props_of ?t w) a = prop_map (props_of s w) a"
    using Suc.IH [OF _ refl] Suc.prems(1) by auto
  have keys: "prop_key ` set (props_of ?t w) = prop_key ` set (props_of s w)"
    using IH(2) by (metis list.set_map)
  have "atoms ! ?j \<in> snd ` prop_key ` set (props_of ?t w)"
    unfolding keys using names j n(1) by (force simp: prop_key_def image_image)
  then have "find (\<lambda>p. propertyName p = atoms ! ?j) (props_of ?t w) \<noteq> None"
    by (auto simp: find_None_iff prop_key_def)
  then obtain q where q: "find (\<lambda>p. propertyName p = atoms ! ?j) (props_of ?t w) = Some q" by blast
  then have "prop_key q \<in> prop_key ` set (props_of s w)" using find_nameD keys by blast
  then obtain q0 where "q0 \<in> set (props_of s w)" "propertyName q0 = atoms ! ?j" "p_addr q0 = p_addr q"
    using find_nameD [OF q] by (auto simp: prop_key_def)
  with addrs j have qa: "addrs ! ?j = p_addr q" by metis
  have st: "s' = rotate_step env w addrs saved d k ?t" using Suc.prems(2) by simp
  have "k < n" using Suc.prems(1) by simp
  note step = rotate_step_spec [OF IH(1) _ q qa saved [OF this], of d env, folded st]
  have j': "?j = (k + d) mod length addrs" using n(2) by simp
  have step': "prop_map (props_of s' w) = (prop_map (props_of ?t w))(atoms ! ?j \<mapsto> ?v k)"
    "props_inv (props_of s' w)" "map prop_key (props_of s' w) = map prop_key (props_of ?t w)"
    using step [OF j'] by simp_all
  have "prop_map (props_of s' w) (atoms ! ((i + d) mod n)) = Some (?v i)" if "i < Suc k" for i
  proof (cases "i = k")
    case False
    then have "(i + d) mod n \<noteq> ?j" using rotation_injective [of i n k d] that Suc.prems(1) by auto
    then have "atoms ! ((i + d) mod n) \<noteq> atoms ! ?j"
      using nth_eq_iff_index_eq [OF dist, of "(i + d) mod n" ?j] j n(1) mod_less_divisor [OF n0, of "i + d"]
      by auto
    then show ?thesis using step'(1) IH(3) [of i] that False by simp
  qed (simp add: step'(1))
  moreover have "prop_map (props_of s' w) a = prop_map (props_of s w) a" if "a \<notin> set atoms" for a
    using step'(1) IH(4) [OF that] that j n(1) by (auto dest: nth_mem)
  ultimately show ?case using step'(2,3) IH(2) by simp
qed

text \<open>C30: Where memory can be had and neither a security module nor a filter intervenes, rotating
  properties moves the values and only the values: for distinct valid atoms (at least one) that all
  name properties of the window, the property at position i's place plus delta (modulo the number of
  atoms, for positive and negative deltas alike) ends up with the type, format and data that
  the property at position i had, every other property is as before, and the list stays well
  formed.\<close>

theorem ProcRotateProperties_permutes:
  assumes env: "permissive env" and inv: "props_inv (props_of s w)"
    and atoms: "\<forall>a \<in> set atoms. valid_atom env a" "distinct atoms" "n = length atoms" "0 < n"
      "set atoms \<subseteq> propertyName ` set (props_of s w)"
    and req: "REQUEST_FIXED_SIZE 12 (4 * n) req_len" "\<And>m. lookup_window env win client m = (Success, w)"
  shows "\<exists>s'. ProcRotateProperties env client req_len win atoms delta s = (Success, s') \<and>
    (\<forall>i < n. prop_map (props_of s' w) (atoms ! nat ((int i + delta) mod int n)) =
       prop_map (props_of s w) (atoms ! i)) \<and>
    (\<forall>a. a \<notin> set atoms \<longrightarrow> prop_map (props_of s' w) a = prop_map (props_of s w) a) \<and>
    props_inv (props_of s' w)"
proof -
  let ?ps = "props_of s w"
  let ?get = "\<lambda>a. the (find (\<lambda>p. propertyName p = a) ?ps)"
  let ?addrs = "map (\<lambda>a. p_addr (?get a)) atoms"
  have get: "?get a \<in> set ?ps \<and> propertyName (?get a) = a \<and>
      find (\<lambda>p. propertyName p = a) ?ps = Some (?get a)" if "a \<in> set atoms" for a
  proof -
    have "find (\<lambda>p. propertyName p = a) ?ps \<noteq> None" using that atoms(5) by (auto simp: find_None_iff)
    then show ?thesis using find_nameD by (metis option.collapse)
  qed
  have ex: "\<forall>a \<in> set atoms. \<exists>p \<in> set ?ps. propertyName p = a" using atoms(5) by auto
  have dn: "distinct (map propertyName ?ps)" "distinct (map p_addr ?ps)" using inv by (simp_all add: props_inv_def)
  obtain e where coll: "rotate_collect env client w atoms [] s = (Inr ?addrs, s\<lparr>error_value := e\<rparr>)"
    using rotate_collect_permissive [OF env atoms(1,2) ex dn(1), of client "[]"] by auto
  let ?s1 = "s\<lparr>error_value := e\<rparr>"
  let ?saved = "map (\<lambda>a. the (prop_at ?ps a)) ?addrs"
  have saved: "?saved ! i = ?get (atoms ! i)" if "i < n" for i
    using get [of "atoms ! i"] that atoms(3) prop_at_addr [OF dn(2)] by simp
  have filter: "property_filter env q = q" for q using env by (simp add: permissive_def)
  have mem: "prop_mem env k" for k using env by (simp add: permissive_def)
  let ?d = "nat (delta mod int n)"
  let ?s' = "if \<bar>delta\<bar> mod int n = 0 then ?s1
             else fold (rotate_step env w ?addrs ?saved ?d) [0..<n] ?s1"
  have run: "ProcRotateProperties env client req_len win atoms delta s = (Success, ?s')"
    unfolding ProcRotateProperties_def filter
    using req atoms(3,4) mem by (auto simp: no_filter_param_def coll Let_def comp_def)
  have shift: "nat ((int i + delta) mod int n) = (i + ?d) mod n" for i
    using atoms(4) by (simp add: nat_eq_iff zmod_int mod_add_right_eq)
  have val: "prop_map ?ps (atoms ! i) = Some (p_type (?saved ! i), p_format (?saved ! i), p_data (?saved ! i))"
    if "i < n" for i
    using get [of "atoms ! i"] saved [OF that] that atoms(3)
    by (auto simp: prop_map_def intro!: exI [of _ "?get (atoms ! i)"])
  show ?thesis
  proof (cases "\<bar>delta\<bar> mod int n = 0")
    case True
    then have d0: "delta mod int n = 0" by auto
    have "(i + ?d) mod n = i" if "i < n" for i using that by (simp add: d0)
    then show ?thesis using run True inv by (simp add: shift)
  next
    case False
    have "prop_ok (?saved ! i)" if "i < n" for i
      using saved [OF that] get [of "atoms ! i"] that atoms(3) inv by (simp add: props_inv_def)
    moreover have "?addrs ! j = p_addr q"
      if "j < n" "q \<in> set (props_of ?s1 w)" "propertyName q = atoms ! j" for j q
    proof -
      have "q = ?get (atoms ! j)"
        using that get [of "atoms ! j"] atoms(3) dn(1) by (auto simp: distinct_map inj_on_def)
      then show ?thesis using that(1) atoms(3) by simp
    qed
    ultimately have "props_inv (props_of ?s' w) \<and> map prop_key (props_of ?s' w) = map prop_key (props_of ?s1 w) \<and>
       (\<forall>i < n. prop_map (props_of ?s' w) (atoms ! ((i + ?d) mod n)) =
          Some (p_type (?saved ! i), p_format (?saved ! i), p_data (?saved ! i))) \<and>
       (\<forall>a. a \<notin> set atoms \<longrightarrow> prop_map (props_of ?s' w) a = prop_map (props_of ?s1 w) a)"
      using False inv atoms(2,3,5)
      by (intro rotate_fold_spec [where addrs = ?addrs and saved = ?saved and d = ?d and env = env]) simp_all
    then show ?thesis using run False val by (simp add: shift)
  qed
qed

section \<open>A concrete window\<close>

definition demo_prop_env :: prop_env where
  "demo_prop_env = \<lparr>valid_atom = \<lambda>a. a \<noteq> 0, atom_name = \<lambda>_. None,
     lookup_window = \<lambda>_ _ _. (Success, 1), xace_property = \<lambda>_ _ p _. (Success, p_addr p),
     property_filter = id, prop_mem = \<lambda>_. True, new_addr = \<lambda>ps. Suc (sum_list (map p_addr ps)),
     optional_needed = \<lambda>_. True, now = 0, xinerama = False, panoramiX = False,
     screen_windows = \<lambda>_. None, screen_vrr = True,
     reply_heap = \<lparr>realloc_ok = \<lambda>n. n < 2 ^ 63, heap_junk = \<lambda>_. 0\<rparr>\<rparr>"

definition demo_prop :: "nat \<Rightarrow> u32 \<Rightarrow> property" where
  "demo_prop a name = \<lparr>p_addr = a, propertyName = name, p_type = 31, p_format = 16, p_size = 2,
     p_data = [1, 2, 3, 4]\<rparr>"

definition demo_windows :: prop_state where
  "demo_windows = \<lparr>windows = \<lambda>_. \<lparr>w_id = 1, w_properties = [demo_prop 1 70, demo_prop 2 71, demo_prop 3 72],
       w_optional = True\<rparr>,
     error_value = 0, events = [], vrr_calls = []\<rparr>"

lemma demo_prop_facts:
  "permissive demo_prop_env" "props_inv (props_of demo_windows w)"
  "lookup_window demo_prop_env win c m = (Success, 1)"
  "valid_atom demo_prop_env a \<longleftrightarrow> a \<noteq> 0"
proof -
  have "p_addr p \<le> sum_list (map p_addr ps)" if "p \<in> set ps" for p ps
    using that by (induction ps) auto
  then show "permissive demo_prop_env"
    by (force simp: permissive_def demo_prop_env_def)
qed (simp_all add: props_inv_def prop_ok_def demo_windows_def demo_prop_def demo_prop_env_def)

theorem dixChangeWindowProperty_refines_witness:
  "\<exists>s'. dixChangeWindowProperty demo_prop_env 0 1 70 31 16 PropModeAppend 1 [9, 9] True demo_windows = Some (Success, s')"
proof -
  have map: "prop_map (props_of demo_windows 1) 70 = Some (31, 16, [1, 2, 3, 4])"
    by (simp add: prop_map_def demo_windows_def demo_prop_def)
  have "\<forall>p \<in> set (props_of demo_windows 1). length (p_data p) + length [9, 9 :: byte] < 2 ^ 32"
    by (simp add: demo_windows_def demo_prop_def)
  from dixChangeWindowProperty_refines [OF demo_prop_facts(1,2), of 16 PropModeAppend "[9, 9]" 1,
      OF _ _ _ _ this, where client = 0 and name = 70 and type = 31 and sendevent = True]
  show ?thesis
    by (auto simp: spec_change_def map PropModeAppend_def PropModeReplace_def split: prod.splits)
qed

theorem ProcGetProperty_reads_window_witness:
  "\<exists>hd out s'. ProcGetProperty demo_prop_env 0 6 True 5 \<lparr>gp_delete = 1, gp_window = 1, gp_property = 71,
      gp_type = AnyPropertyType, gp_longOffset = 0, gp_longLength = 1\<rparr> demo_windows =
    ((Success, out), s') \<and> reply_sent hd [2, 1, 4, 3] out \<and> prop_map (props_of s' 1) 71 = None"
proof -
  let ?req = "\<lparr>gp_delete = 1, gp_window = 1, gp_property = 71, gp_type = AnyPropertyType,
    gp_longOffset = 0, gp_longLength = 1\<rparr>"
  have p: "find (\<lambda>p. propertyName p = gp_property ?req) (props_of demo_windows 1) = Some (demo_prop 2 71)"
    by (simp add: demo_windows_def demo_prop_def)
  have data: "swap_property_data True 16 [1, 2, 3, 4] = [2, 1, 4, 3]"
    by code_simp
  have req: "valid_atom demo_prop_env (gp_property ?req)" "gp_delete ?req = 0 \<or> gp_delete ?req = 1"
      "gp_type ?req = AnyPropertyType \<or> valid_atom demo_prop_env (gp_type ?req) \<and> gp_type ?req = p_type (demo_prop 2 71)"
      "unat (gp_longOffset ?req) < 2 ^ 30" "unat (gp_longLength ?req) < 2 ^ 30"
      "4 = length (p_data (demo_prop 2 71))" "4 < (2 ^ 32 :: nat)" "0 = 4 * unat (gp_longOffset ?req)" "0 \<le> (4 :: nat)"
      "4 = min (4 - 0) (4 * unat (gp_longLength ?req))" "4 < (2 ^ 31 :: nat)"
    by (simp_all add: demo_prop_facts demo_prop_def)
  have fields: "p_format (demo_prop 2 71) = 16" "take 4 (drop 0 (p_data (demo_prop 2 71))) = [1, 2, 3, 4]"
    by (simp_all add: demo_prop_def)
  from ProcGetProperty_reads_window [OF demo_prop_facts(1,2) p req(1,2,3) demo_prop_facts(3) req(4-11),
      of 0 True 5]
  show ?thesis unfolding fields data by fastforce
qed

theorem property_round_trip_witness:
  "\<exists>s1 hd out s2. ProcGetProperty demo_prop_env 0 6 True 5 \<lparr>gp_delete = 0, gp_window = 1, gp_property = 70,
      gp_type = AnyPropertyType, gp_longOffset = 0, gp_longLength = 1\<rparr> s1 =
    ((Success, out), s2) \<and> reply_sent hd [1, 2, 3, 4] out"
proof -
  let ?req = "\<lparr>cp_mode = 0, cp_window = 1, cp_property = 70, cp_type = 31, cp_format = 32, cp_nUnits = 1,
    cp_data = [1, 2, 3, 4]\<rparr>"
  have "REQUEST_FIXED_SIZE sizeof_xChangePropertyReq (length (cp_data ?req)) 7"
    by (simp add: REQUEST_FIXED_SIZE_def sizeof_xChangePropertyReq_def)
  moreover have "\<forall>p \<in> set (props_of demo_windows 1). length (p_data p) + length (cp_data ?req) < 2 ^ 32"
    by (simp add: demo_windows_def demo_prop_def)
  ultimately show ?thesis
    using property_round_trip [OF demo_prop_facts(1,2), of ?req 1 7 1 0 True 0 True 5]
    by (auto simp: demo_prop_facts)
qed

theorem ProcRotateProperties_permutes_witness:
  "\<exists>s'. ProcRotateProperties demo_prop_env 0 6 1 [70, 71, 72] (- 1) demo_windows = (Success, s')"
proof -
  let ?atoms = "[70, 71, 72] :: u32 list"
  have a: "\<forall>a \<in> set ?atoms. valid_atom demo_prop_env a" by (simp add: demo_prop_facts)
  have d: "distinct ?atoms" "3 = length ?atoms" "0 < (3 :: nat)" by simp_all
  have m: "set ?atoms \<subseteq> propertyName ` set (props_of demo_windows 1)"
    by (simp add: demo_windows_def demo_prop_def)
  have l: "REQUEST_FIXED_SIZE 12 (4 * 3) 6" by (simp add: REQUEST_FIXED_SIZE_def)
  from ProcRotateProperties_permutes [OF demo_prop_facts(1,2) a d m l demo_prop_facts(3)]
  show ?thesis by blast
qed

end
