(* ===== verification/Server_Time.thy ===== *)
theory Server_Time
  imports X_Prelude
begin

text \<open>
  Server time: the 64-bit time stamps of \<^verbatim>\<open>dix/dixutils.c\<close> (a \<open>month\<close> of 2^32
  milliseconds and the milliseconds within it), their comparison, the conversion of the 32-bit
  times clients send, and the update of the current time of \<^verbatim>\<open>dix/dispatch.c\<close>.
\<close>

section \<open>Time stamps\<close>

datatype TimeStamp = TimeStamp (months: u32) (milliseconds: u32)

datatype time_order = EARLIER | SAMETIME | LATER

definition CompareTimeStamps :: "TimeStamp \<Rightarrow> TimeStamp \<Rightarrow> time_order" where
  "CompareTimeStamps a b =
     (if months a < months b then EARLIER
      else if months a > months b then LATER
      else if milliseconds a < milliseconds b then EARLIER
      else if milliseconds a > milliseconds b then LATER
      else SAMETIME)"

text \<open>The absolute time a stamp stands for, in milliseconds.\<close>

definition abs_time :: "TimeStamp \<Rightarrow> nat" where
  "abs_time t = unat (months t) * 2 ^ 32 + unat (milliseconds t)"

lemma abs_time_bound: "abs_time t < 2 ^ 64"
  using unat_lt2p [of "months t"] unat_lt2p [of "milliseconds t"] by (simp add: abs_time_def)

lemma abs_time_div_mod:
  "abs_time t div 2 ^ 32 = unat (months t)" "abs_time t mod 2 ^ 32 = unat (milliseconds t)"
  using unat_lt2p [of "milliseconds t"] by (simp_all add: abs_time_def)

lemma abs_time_inject [simp]: "abs_time a = abs_time b \<longleftrightarrow> a = b"
  by (metis TimeStamp.expand abs_time_div_mod word_eq_unat)

text \<open>The stamps form a linear order, the one the comparison decides.\<close>

instantiation TimeStamp :: linorder
begin

definition less_eq_TimeStamp :: "TimeStamp \<Rightarrow> TimeStamp \<Rightarrow> bool" where
  "a \<le> b \<longleftrightarrow> abs_time a \<le> abs_time b"

definition less_TimeStamp :: "TimeStamp \<Rightarrow> TimeStamp \<Rightarrow> bool" where
  "a < b \<longleftrightarrow> abs_time a < abs_time b"

instance
  by standard (auto simp: less_eq_TimeStamp_def less_TimeStamp_def simp flip: abs_time_inject)

end

lemma abs_time_less:
  "abs_time a < abs_time b \<longleftrightarrow>
     months a < months b \<or> months a = months b \<and> milliseconds a < milliseconds b"
proof -
  have l: "unat (milliseconds a) < 2 ^ 32" "unat (milliseconds b) < 2 ^ 32"
    using unat_lt2p [of "milliseconds a"] unat_lt2p [of "milliseconds b"] by simp_all
  have eq: "months a = months b \<longleftrightarrow> unat (months a) = unat (months b)"
    by (simp add: word_eq_unat)
  show ?thesis
    using l unfolding abs_time_def word_less_nat_alt eq by auto
qed

lemma CompareTimeStamps_order [simp]:
  "CompareTimeStamps a b = EARLIER \<longleftrightarrow> a < b"
  "CompareTimeStamps a b = LATER \<longleftrightarrow> b < a"
  "CompareTimeStamps a b = SAMETIME \<longleftrightarrow> a = b"
  by (auto simp: CompareTimeStamps_def less_TimeStamp_def abs_time_less intro: TimeStamp.expand)

section \<open>Client times\<close>

definition HALFMONTH :: nat where "HALFMONTH = 2 ^ 31"

definition CurrentTime :: u32 where "CurrentTime = 0"

definition ClientTimeToServerTime :: "TimeStamp \<Rightarrow> u32 \<Rightarrow> TimeStamp" where
  "ClientTimeToServerTime currentTime c =
     (if c = CurrentTime then currentTime
      else if c > milliseconds currentTime
      then if unat c - unat (milliseconds currentTime) > HALFMONTH
           then TimeStamp (months currentTime - 1) c else TimeStamp (months currentTime) c
      else if c < milliseconds currentTime
      then if unat (milliseconds currentTime) - unat c > HALFMONTH
           then TimeStamp (months currentTime + 1) c else TimeStamp (months currentTime) c
      else TimeStamp (months currentTime) c)"

section \<open>The current time\<close>

definition UpdateCurrentTimeIf :: "u32 \<Rightarrow> TimeStamp \<Rightarrow> TimeStamp" where
  "UpdateCurrentTimeIf GetTimeInMillis currentTime =
     (let systime = TimeStamp (if GetTimeInMillis < milliseconds currentTime
                               then months currentTime + 1 else months currentTime)
                      GetTimeInMillis
      in if CompareTimeStamps systime currentTime = LATER then systime else currentTime)"

text \<open>
  \<open>process\<close> is what the pending input does to the current time (nothing when no input is pending).
\<close>

definition UpdateCurrentTime ::
    "(TimeStamp \<Rightarrow> TimeStamp) \<Rightarrow> bool \<Rightarrow> u32 \<Rightarrow> TimeStamp \<Rightarrow> TimeStamp" where
  "UpdateCurrentTime process pending GetTimeInMillis currentTime =
     (let systime = TimeStamp (if GetTimeInMillis < milliseconds currentTime
                               then months currentTime + 1 else months currentTime)
                      GetTimeInMillis;
          now = (if pending then process currentTime else currentTime)
      in if CompareTimeStamps systime now = LATER then systime else now)"

lemma UpdateCurrentTime_no_input:
  "UpdateCurrentTime process False ms t = UpdateCurrentTimeIf ms t"
  by (simp add: UpdateCurrentTime_def UpdateCurrentTimeIf_def)

lemma UpdateCurrentTimeIf_mono: "t \<le> UpdateCurrentTimeIf ms t"
  by (simp add: UpdateCurrentTimeIf_def Let_def less_imp_le)

lemma UpdateCurrentTime_mono:
  "(\<And>u. u \<le> process u) \<Longrightarrow> t \<le> UpdateCurrentTime process pending ms t"
  using order_trans [of t "process t"]
  by (auto simp: UpdateCurrentTime_def Let_def less_imp_le)

lemma month_succ: "unat (m :: u32) < 2 ^ 32 - 1 \<Longrightarrow> unat (m + 1) = unat m + 1"
  by (simp add: unat_word_ariths)

lemma month_pred: "0 < unat (m :: u32) \<Longrightarrow> unat (m - 1) = unat m - 1"
  by (metis One_nat_def Suc_pred unat_1 unat_gt_0 unat_minus_one)

text \<open>The word arithmetic on months, read on natural numbers.\<close>

lemma of_nat_time:
  assumes "k < 2 ^ 64"
  shows "abs_time (TimeStamp (word_of_nat (k div 2 ^ 32)) (word_of_nat k)) = k"
proof -
  have "k div 2 ^ 32 < 2 ^ 32" using assms by (simp add: div_less_iff_less_mult)
  then show ?thesis by (simp add: abs_time_def unat_of_nat)
qed

lemma UpdateCurrentTimeIf_eq:
  assumes "unat (months t) < 2 ^ 32 - 1"
  shows "abs_time (UpdateCurrentTimeIf ms t) =
    abs_time t + unat (ms - milliseconds t)"
proof (cases "ms < milliseconds t")
  case True
  then have "unat (ms - milliseconds t) = 2 ^ 32 + unat ms - unat (milliseconds t)"
    using unat_lt2p [of "milliseconds t"] by (simp add: unat_sub_if' word_less_nat_alt)
  moreover have "unat (milliseconds t) < 2 ^ 32" using unat_lt2p [of "milliseconds t"] by simp
  ultimately show ?thesis
    using True assms month_succ [OF assms]
    by (simp add: UpdateCurrentTimeIf_def less_TimeStamp_def abs_time_def)
next
  case False
  then have "unat (ms - milliseconds t) = unat ms - unat (milliseconds t)"
    by (simp add: unat_sub not_less)
  moreover have "unat (milliseconds t) \<le> unat ms" using False by (simp add: word_less_nat_alt)
  ultimately show ?thesis
    using False by (simp add: UpdateCurrentTimeIf_def less_TimeStamp_def abs_time_def)
qed

text \<open>C31: A clock that is read at least once per 2^32 milliseconds is followed exactly: updating
  the current time adds the milliseconds that have passed since the last update, also across the
  wrap of the 32-bit clock, until the 64-bit time itself is exhausted.\<close>
theorem UpdateCurrentTimeIf_follows_clock:
  assumes "abs_time t mod 2 ^ 32 = clock mod 2 ^ 32" "passed < 2 ^ 32"
    and "unat (months t) < 2 ^ 32 - 1"
  shows "abs_time (UpdateCurrentTimeIf (word_of_nat (clock + passed)) t) = abs_time t + passed"
proof -
  have "unat (milliseconds t) = clock mod 2 ^ 32"
    using assms(1) by (simp only: abs_time_div_mod)
  then have "milliseconds t = word_of_nat clock" by (simp add: word_eq_unat unat_of_nat)
  then have "word_of_nat (clock + passed) - milliseconds t = word_of_nat passed" by simp
  then show ?thesis
    using assms(2) UpdateCurrentTimeIf_eq [OF assms(3)] by (simp add: unat_of_nat)
qed

text \<open>C32: Client times round-trip: a time stamp less than half a month (about 24.9 days) away
  from the current time, in either direction, is recovered from the 32-bit time the client sends
  back, unless that time happens to be the reserved value \<open>CurrentTime\<close>.\<close>
theorem client_time_round_trip:
  assumes "milliseconds t \<noteq> CurrentTime"
    and "abs_time t < abs_time now + HALFMONTH" "abs_time now < abs_time t + HALFMONTH"
  shows "ClientTimeToServerTime now (milliseconds t) = t"
proof -
  have b: "unat (milliseconds t) < 2 ^ 32" "unat (milliseconds now) < 2 ^ 32"
    "unat (months t) < 2 ^ 32" "unat (months now) < 2 ^ 32"
    using unat_lt2p [of "milliseconds t"] unat_lt2p [of "milliseconds now"]
      unat_lt2p [of "months t"] unat_lt2p [of "months now"] by simp_all
  have d: "unat (months t) * 2 ^ 32 + unat (milliseconds t) <
      unat (months now) * 2 ^ 32 + unat (milliseconds now) + 2 ^ 31"
    "unat (months now) * 2 ^ 32 + unat (milliseconds now) <
      unat (months t) * 2 ^ 32 + unat (milliseconds t) + 2 ^ 31"
    using assms(2,3) by (simp_all add: abs_time_def HALFMONTH_def)
  have later: "months now - 1 = months t"
    if "unat (months now) = Suc (unat (months t))"
    using that month_pred [of "months now"] by (simp add: word_eq_unat)
  have earlier: "months now + 1 = months t"
    if "unat (months t) = Suc (unat (months now))"
    using that b month_succ [of "months now"] by (simp add: word_eq_unat)
  have same: "months now = months t" if "unat (months t) = unat (months now)"
    using that by (simp add: word_eq_unat)
  have fields: "ClientTimeToServerTime now (milliseconds t) = TimeStamp m c \<Longrightarrow>
      m = months t \<Longrightarrow> c = milliseconds t \<Longrightarrow> ?thesis" for m c by simp
  consider (down) "unat (months now) = Suc (unat (months t))" | (up) "unat (months t) = Suc (unat (months now))"
    | (level) "unat (months t) = unat (months now)"
  proof -
    have "unat (months now) < unat (months t) + 2" "unat (months t) < unat (months now) + 2"
      using d b by simp_all
    then show thesis using down up level by linarith
  qed
  then show ?thesis
  proof cases
    case down
    then have "unat (milliseconds now) < unat (milliseconds t)"
      "2 ^ 31 < unat (milliseconds t) - unat (milliseconds now)" using d b by simp_all
    then show ?thesis
      using later [OF down] assms(1)
      by (simp add: ClientTimeToServerTime_def HALFMONTH_def word_less_nat_alt)
  next
    case up
    then have "unat (milliseconds t) < unat (milliseconds now)"
      "2 ^ 31 < unat (milliseconds now) - unat (milliseconds t)" using d b by simp_all
    then show ?thesis
      using earlier [OF up] assms(1)
      by (simp add: ClientTimeToServerTime_def HALFMONTH_def word_less_nat_alt)
  next
    case level
    then have "\<not> 2 ^ 31 < unat (milliseconds t) - unat (milliseconds now)"
      "\<not> 2 ^ 31 < unat (milliseconds now) - unat (milliseconds t)" using d b by simp_all
    then show ?thesis
      using same [OF level] assms(1)
      by (simp add: ClientTimeToServerTime_def HALFMONTH_def word_less_nat_alt)
  qed
qed

theorem UpdateCurrentTimeIf_follows_clock_witness:
  "abs_time (UpdateCurrentTimeIf (word_of_nat (2 ^ 32 - 5 + 12)) (TimeStamp 3 (2 ^ 32 - 5))) =
     3 * 2 ^ 32 + (2 ^ 32 - 5) + 12"
  using UpdateCurrentTimeIf_follows_clock [of "TimeStamp 3 (2 ^ 32 - 5)" "2 ^ 32 - 5" 12]
  by (simp add: abs_time_def)

theorem client_time_round_trip_witness:
  "ClientTimeToServerTime (TimeStamp 4 20) (0xfffffff0) = TimeStamp 3 0xfffffff0"
  using client_time_round_trip [of "TimeStamp 3 0xfffffff0" "TimeStamp 4 20"]
  by (simp add: CurrentTime_def HALFMONTH_def abs_time_def)

end
