(* ===== verification/Selections.thy ===== *)
theory Selections
  imports Requests Server_Time
begin

text \<open>
  Selections, \<^verbatim>\<open>dix/selection.c\<close>: the list of selections and their owners, the three
  requests on it, and what happens to it when a window or a client goes away. The security hook,
  the selection filter callback, the window lookup, the atom table, the allocator and the clock
  are parameters; events and notifications of extensions are recorded in the order they are sent.
\<close>

section \<open>State\<close>

text \<open>Clients are their indices; \<open>serverClient\<close> is client 0.\<close>

record selection =
  sel_addr :: nat
  sel_atom :: u32
  lastTimeChanged :: TimeStamp
  sel_window :: u32
  sel_pWin :: "u32 option"
  sel_client :: "nat option"

datatype sel_kind = SelectionSetOwner | SelectionWindowDestroy | SelectionClientClose

datatype filter_op = FILTER_GETOWNER | FILTER_SETOWNER | FILTER_CONVERT | FILTER_LISTEN
  | FILTER_EV_REQUEST | FILTER_EV_CLEAR | FILTER_NOTIFY

record sel_param =
  sp_op :: filter_op
  sp_skip :: bool
  sp_status :: x_status
  sp_selection :: u32
  sp_client :: nat
  sp_recvClient :: "nat option"
  sp_time :: u32
  sp_requestor :: u32
  sp_owner :: u32
  sp_property :: u32
  sp_target :: u32

datatype sel_event =
    SelectionClear (ev_time: u32) (ev_window: u32) (ev_atom: u32)
  | SelectionRequest (ev_time: u32) (ev_window: u32) (ev_requestor: u32) (ev_atom: u32)
      (ev_target: u32) (ev_property: u32)
  | SelectionNotify (ev_time: u32) (ev_requestor: u32) (ev_atom: u32) (ev_target: u32)
      (ev_property: u32)

text \<open>
  \<open>sel_log\<close> holds what \<open>SelectionCallback\<close> was called with: the selection as it was at the call,
  the client and the kind.
\<close>

record sel_state =
  CurrentSelections :: "selection list"
  currentTime :: TimeStamp
  errorValue :: "nat \<Rightarrow> u32"
  sent :: "(nat option \<times> sel_event) list"
  sel_log :: "(selection \<times> nat option \<times> sel_kind) list"

text \<open>
  \<open>sel_xace\<close> gets the client, the selections, the selection and the access mode, and returns a
  status and the address of the selection to use instead. A failing \<open>sel_lookup_window\<close> leaves
  the id in \<open>errorValue\<close>. \<open>sel_process_input\<close> is what processing pending input does to the
  current time.
\<close>

record sel_env =
  sel_valid_atom :: "u32 \<Rightarrow> bool"
  sel_lookup_window :: "u32 \<Rightarrow> nat \<Rightarrow> u32 \<Rightarrow> x_status \<times> u32"
  sel_xace :: "nat \<Rightarrow> selection list \<Rightarrow> selection \<Rightarrow> u32 \<Rightarrow> x_status \<times> nat"
  sel_filter :: "sel_param \<Rightarrow> sel_param"
  sel_mem :: bool
  sel_new_addr :: "selection list \<Rightarrow> nat"
  sel_clock :: u32
  sel_input_pending :: bool
  sel_process_input :: "TimeStamp \<Rightarrow> TimeStamp"
  sel_client_gone :: "nat \<Rightarrow> bool"

definition None_id :: u32 where "None_id = 0"

definition serverClient :: nat where "serverClient = 0"

definition no_sel_param :: sel_param where
  "no_sel_param = \<lparr>sp_op = FILTER_GETOWNER, sp_skip = False, sp_status = Success, sp_selection = 0,
     sp_client = 0, sp_recvClient = None, sp_time = 0, sp_requestor = 0, sp_owner = 0,
     sp_property = 0, sp_target = 0\<rparr>"

definition set_error :: "nat \<Rightarrow> u32 \<Rightarrow> sel_state \<Rightarrow> sel_state" where
  "set_error c v s = s\<lparr>errorValue := (errorValue s)(c := v)\<rparr>"

definition sel_at :: "selection list \<Rightarrow> nat \<Rightarrow> selection option" where
  "sel_at ss a = find (\<lambda>x. sel_addr x = a) ss"

definition update_sel :: "nat \<Rightarrow> (selection \<Rightarrow> selection) \<Rightarrow> sel_state \<Rightarrow> sel_state" where
  "update_sel a f s =
     s\<lparr>CurrentSelections := map (\<lambda>x. if sel_addr x = a then f x else x) (CurrentSelections s)\<rparr>"

definition send_event :: "nat option \<Rightarrow> sel_event \<Rightarrow> sel_state \<Rightarrow> sel_state" where
  "send_event c e s = s\<lparr>sent := sent s @ [(c, e)]\<rparr>"

definition sel_update_time :: "sel_env \<Rightarrow> sel_state \<Rightarrow> sel_state" where
  "sel_update_time env s = s\<lparr>currentTime :=
     UpdateCurrentTime (sel_process_input env) (sel_input_pending env) (sel_clock env) (currentTime s)\<rparr>"

section \<open>Operations\<close>

definition dixLookupSelection ::
    "sel_env \<Rightarrow> u32 \<Rightarrow> nat \<Rightarrow> u32 \<Rightarrow> sel_state \<Rightarrow> (x_status \<times> nat) \<times> sel_state" where
  "dixLookupSelection env name client access_mode s =
     (let s1 = set_error client name s;
          check = (\<lambda>p s. (sel_xace env client (CurrentSelections s) p (access_mode OR DixCreateAccess), s))
      in case find (\<lambda>x. sel_atom x = name) (CurrentSelections s1) of
           Some p \<Rightarrow> check p s1
         | None \<Rightarrow>
             if \<not> sel_mem env then ((BadAlloc, 0), s1)
             else
               let p = \<lparr>sel_addr = sel_new_addr env (CurrentSelections s1), sel_atom = name,
                        lastTimeChanged = TimeStamp 0 0, sel_window = 0, sel_pWin = None,
                        sel_client = None\<rparr>
               in check p (s1\<lparr>CurrentSelections := p # CurrentSelections s1\<rparr>))"

definition InitSelections :: "sel_state \<Rightarrow> sel_state" where
  "InitSelections s = s\<lparr>CurrentSelections := []\<rparr>"

definition CallSelectionCallback ::
    "selection \<Rightarrow> nat option \<Rightarrow> sel_kind \<Rightarrow> sel_state \<Rightarrow> sel_state" where
  "CallSelectionCallback p client kind s = s\<lparr>sel_log := sel_log s @ [(p, client, kind)]\<rparr>"

definition drop_owner :: "selection \<Rightarrow> selection" where
  "drop_owner p = p\<lparr>sel_pWin := None, sel_window := None_id, sel_client := None\<rparr>"

text \<open>One pass over the list: the callback for an affected selection, then its owner is cleared.\<close>

fun clear_owners ::
    "(selection \<Rightarrow> bool) \<Rightarrow> sel_kind \<Rightarrow> selection list \<Rightarrow> sel_state \<Rightarrow> sel_state" where
  "clear_owners P kind [] s = s"
| "clear_owners P kind (p # ps) s =
     (if P p
      then clear_owners P kind ps (update_sel (sel_addr p) drop_owner (CallSelectionCallback p None kind s))
      else clear_owners P kind ps s)"

definition DeleteWindowFromAnySelections :: "u32 \<Rightarrow> sel_state \<Rightarrow> sel_state" where
  "DeleteWindowFromAnySelections w s =
     clear_owners (\<lambda>p. sel_pWin p = Some w) SelectionWindowDestroy (CurrentSelections s) s"

definition DeleteClientFromAnySelections :: "nat \<Rightarrow> sel_state \<Rightarrow> sel_state" where
  "DeleteClientFromAnySelections c s =
     clear_owners (\<lambda>p. sel_client p = Some c) SelectionClientClose (CurrentSelections s) s"

section \<open>Requests\<close>

text \<open>
  From where the owner's window is known. The test after the second filter call is on the first
  call's parameter block, whose \<open>skip\<close> is false here: the event is sent whatever the second
  call says.
\<close>

definition set_owner ::
    "sel_env \<Rightarrow> nat \<Rightarrow> u32 \<Rightarrow> TimeStamp \<Rightarrow> sel_param \<Rightarrow> u32 option \<Rightarrow> sel_state \<Rightarrow> x_status \<times> sel_state"
where
  "set_owner env client selection time param pWin s =
     (if \<not> sel_valid_atom env (sp_selection param) then (BadAtom, set_error client selection s)
      else case dixLookupSelection env (sp_selection param) client DixSetAttrAccess s of
        ((rc, a), s1) \<Rightarrow>
          if rc \<noteq> Success then (rc, set_error client selection s1)
          else case sel_at (CurrentSelections s1) a of
            None \<Rightarrow> (Success, s1)
          | Some p \<Rightarrow>
            if CompareTimeStamps time (lastTimeChanged p) = EARLIER then (Success, s1)
            else
              let s2 = (if sel_client p \<noteq> None \<and> (pWin = None \<or> sel_client p \<noteq> Some client)
                        then
                          let eventParam = sel_filter env (no_sel_param\<lparr>sp_client := client,
                                sp_recvClient := sel_client p, sp_owner := sel_window p,
                                sp_selection := selection, sp_op := FILTER_EV_CLEAR\<rparr>)
                          in if \<not> sp_skip param
                             then send_event (sp_recvClient eventParam)
                                    (SelectionClear (milliseconds time) (sp_owner eventParam)
                                       (sp_selection eventParam)) s1
                             else s1
                        else s1);
                  p' = p\<lparr>lastTimeChanged := time, sel_window := sp_owner param, sel_pWin := pWin,
                         sel_client := (if pWin = None then None else Some client)\<rparr>
              in (Success, CallSelectionCallback p' (Some client) SelectionSetOwner
                    (update_sel a (\<lambda>_. p') s2)))"

definition ProcSetSelectionOwner ::
    "sel_env \<Rightarrow> nat \<Rightarrow> nat \<Rightarrow> u32 \<Rightarrow> u32 \<Rightarrow> u32 \<Rightarrow> sel_state \<Rightarrow> x_status \<times> sel_state" where
  "ProcSetSelectionOwner env client req_len window selection time s =
     (if \<not> REQUEST_SIZE_MATCH 16 req_len then (BadLength, s)
      else
        let s0 = sel_update_time env s;
            ts = ClientTimeToServerTime (currentTime s0) time
        in if CompareTimeStamps ts (currentTime s0) = LATER then (Success, s0)
           else
             let param = sel_filter env (no_sel_param\<lparr>sp_client := client, sp_selection := selection,
                           sp_owner := window, sp_op := FILTER_SETOWNER\<rparr>)
             in if sp_skip param
                then (sp_status param,
                      if sp_status param \<noteq> Success then set_error client selection s0 else s0)
                else if sp_owner param \<noteq> None_id
                then case sel_lookup_window env (sp_owner param) client DixSetAttrAccess of
                       (rc, pWin) \<Rightarrow>
                         if rc \<noteq> Success then (rc, set_error client (sp_owner param) s0)
                         else set_owner env client selection ts param (Some pWin) s0
                else set_owner env client selection ts param None s0)"

definition selection_owner_reply :: "bool \<Rightarrow> u32 \<Rightarrow> byte list" where
  "selection_owner_reply sw owner = replicate 8 0 @ card32 sw owner @ replicate 20 0"

definition ProcGetSelectionOwner ::
    "sel_env \<Rightarrow> nat \<Rightarrow> nat \<Rightarrow> bool \<Rightarrow> u32 \<Rightarrow> u32 \<Rightarrow> sel_state \<Rightarrow>
     (x_status \<times> (int \<times> byte list) list) \<times> sel_state" where
  "ProcGetSelectionOwner env client req_len swapped sequence name s =
     (if \<not> REQUEST_SIZE_MATCH 8 req_len then ((BadLength, []), s)
      else
        let param = sel_filter env (no_sel_param\<lparr>sp_client := client, sp_selection := name,
                      sp_op := FILTER_GETOWNER\<rparr>);
            out = (\<lambda>st s. ((st, []), if st \<noteq> Success then set_error client name s else s));
            answer = (\<lambda>owner s. (write_reply_hdr_simple swapped sequence
                                   (selection_owner_reply swapped owner), s))
        in if sp_skip param then out (sp_status param) s
           else if \<not> sel_valid_atom env (sp_selection param) then out BadAtom s
           else case dixLookupSelection env (sp_selection param) (sp_client param) DixGetAttrAccess s of
             ((rc, a), s1) \<Rightarrow>
               if rc = Success
               then answer (case sel_at (CurrentSelections s1) a of None \<Rightarrow> 0 | Some p \<Rightarrow> sel_window p) s1
               else if rc = BadMatch then answer None_id s1
               else out rc s1)"

record convert_req =
  cv_requestor :: u32
  cv_selection :: u32
  cv_target :: u32
  cv_property :: u32
  cv_time :: u32

text \<open>The event that goes to the selection's owner.\<close>

definition request_from_owner ::
    "sel_env \<Rightarrow> nat \<Rightarrow> convert_req \<Rightarrow> selection \<Rightarrow> sel_state \<Rightarrow> x_status \<times> sel_state" where
  "request_from_owner env client stuff p s =
     (let evParam = sel_filter env (no_sel_param\<lparr>sp_client := client,
            sp_selection := cv_selection stuff, sp_op := FILTER_EV_REQUEST, sp_owner := sel_window p,
            sp_requestor := cv_requestor stuff, sp_property := cv_property stuff,
            sp_target := cv_target stuff, sp_time := cv_time stuff, sp_recvClient := sel_client p\<rparr>)
      in if sp_skip evParam
         then (sp_status evParam,
               if sp_status evParam \<noteq> Success then set_error client (cv_selection stuff) s else s)
         else (Success, send_event (sp_recvClient evParam)
                 (SelectionRequest (sp_time evParam) (sp_owner evParam) (sp_requestor evParam)
                    (sp_selection evParam) (sp_target evParam) (sp_property evParam)) s))"

text \<open>The event that tells the requestor there is no owner.\<close>

definition notify_no_owner ::
    "sel_env \<Rightarrow> nat \<Rightarrow> convert_req \<Rightarrow> sel_param \<Rightarrow> sel_state \<Rightarrow> x_status \<times> sel_state" where
  "notify_no_owner env client stuff param s =
     (let p = sel_filter env (param\<lparr>sp_property := None_id\<rparr>)
      in if sp_skip p
         then (sp_status p,
               if sp_status p \<noteq> Success then set_error client (cv_selection stuff) s else s)
         else (Success, send_event (Some client)
                 (SelectionNotify (sp_time p) (sp_requestor p) (sp_selection p) (sp_target p)
                    (sp_property p)) s))"

definition ProcConvertSelection ::
    "sel_env \<Rightarrow> nat \<Rightarrow> nat \<Rightarrow> convert_req \<Rightarrow> sel_state \<Rightarrow> x_status \<times> sel_state" where
  "ProcConvertSelection env client req_len stuff s =
     (if \<not> REQUEST_SIZE_MATCH 24 req_len then (BadLength, s)
      else
        let param = sel_filter env (no_sel_param\<lparr>sp_client := client,
              sp_selection := cv_selection stuff, sp_op := FILTER_CONVERT,
              sp_requestor := cv_requestor stuff, sp_property := cv_property stuff,
              sp_target := cv_target stuff, sp_time := cv_time stuff\<rparr>)
        in if sp_skip param
           then (sp_status param,
                 if sp_status param \<noteq> Success then set_error client (cv_selection stuff) s else s)
           else case sel_lookup_window env (sp_requestor param) client DixSetAttrAccess of
             (rc, _) \<Rightarrow>
               if rc \<noteq> Success then (rc, set_error client (sp_requestor param) s)
               else if \<not> (sel_valid_atom env (sp_selection param) \<and> sel_valid_atom env (sp_target param) \<and>
                          (sp_property param = None_id \<or> sel_valid_atom env (sp_property param)))
               then (BadAtom, set_error client (cv_property stuff) s)
               else
                 let s0 = (if cv_time stuff = CurrentTime then sel_update_time env s else s)
                 in case dixLookupSelection env (sp_selection param) client DixReadAccess s0 of
                      ((rc, a), s1) \<Rightarrow>
                        if rc \<noteq> Success \<and> rc \<noteq> BadMatch then (rc, s1)
                        else case (if rc = Success then sel_at (CurrentSelections s1) a else None) of
                          None \<Rightarrow> notify_no_owner env client stuff param s1
                        | Some p \<Rightarrow>
                            if sel_window p \<noteq> None_id \<and>
                               (case sel_client p of None \<Rightarrow> False
                                | Some c \<Rightarrow> c \<noteq> serverClient \<and> \<not> sel_client_gone env c)
                            then request_from_owner env client stuff p s1
                            else notify_no_owner env client stuff param s1)"

end
