(* ===== verification/Selection_Laws.thy ===== *)
theory Selection_Laws
  imports Selections
begin

text \<open>
  The selections of \<^theory_text>\<open>Selections\<close> as a state machine: its steps, the invariant of every reachable
  state, the map from atoms to owners it implements, and the properties of the requests.
\<close>

section \<open>Lookups in the list\<close>

lemma find_atomD: "find (\<lambda>x. sel_atom x = name) ss = Some p \<Longrightarrow> p \<in> set ss \<and> sel_atom p = name"
  by (auto simp: find_Some_iff)

lemma sel_at_SomeD: "sel_at ss a = Some p \<Longrightarrow> p \<in> set ss \<and> sel_addr p = a"
  by (auto simp: sel_at_def find_Some_iff)

lemma find_distinct:
  "distinct (map f ss) \<Longrightarrow> p \<in> set ss \<Longrightarrow> find (\<lambda>x. f x = f p) ss = Some p"
  by (induction ss) auto

lemma sel_at_addr: "distinct (map sel_addr ss) \<Longrightarrow> p \<in> set ss \<Longrightarrow> sel_at ss (sel_addr p) = Some p"
  unfolding sel_at_def by (rule find_distinct)

section \<open>The invariant\<close>

text \<open>
  Each selection is listed once, is owned by a window and a client or by neither, and was last
  changed no later than now.
\<close>

definition sel_ok :: "TimeStamp \<Rightarrow> selection \<Rightarrow> bool" where
  "sel_ok now p \<longleftrightarrow> (sel_pWin p = None \<longleftrightarrow> sel_window p = None_id) \<and>
     (sel_client p = None \<longleftrightarrow> sel_pWin p = None) \<and> lastTimeChanged p \<le> now"

definition sel_inv :: "sel_state \<Rightarrow> bool" where
  "sel_inv s \<longleftrightarrow> distinct (map sel_atom (CurrentSelections s)) \<and>
     distinct (map sel_addr (CurrentSelections s)) \<and>
     (\<forall>p \<in> set (CurrentSelections s). sel_ok (currentTime s) p)"

text \<open>
  What the code relies on: the allocator returns memory that is not in use, and time does not run
  backwards while input is processed.
\<close>

definition sel_sane :: "sel_env \<Rightarrow> bool" where
  "sel_sane env \<longleftrightarrow> (\<forall>ss. sel_new_addr env ss \<notin> sel_addr ` set ss) \<and>
     (\<forall>t. t \<le> sel_process_input env t)"

lemma zero_time_least: "TimeStamp 0 0 \<le> t"
  by (simp add: less_eq_TimeStamp_def abs_time_def)

lemma sel_ok_later: "sel_ok now p \<Longrightarrow> now \<le> now' \<Longrightarrow> sel_ok now' p"
  by (auto simp: sel_ok_def)

lemma sel_update_time_frame [simp, x_frame]:
  "CurrentSelections (sel_update_time env s) = CurrentSelections s"
  "errorValue (sel_update_time env s) = errorValue s"
  "sent (sel_update_time env s) = sent s"
  "sel_log (sel_update_time env s) = sel_log s"
  by (simp_all add: sel_update_time_def)

lemma small_step_frame [simp, x_frame]:
  "CurrentSelections (set_error c v s) = CurrentSelections s" "currentTime (set_error c v s) = currentTime s"
  "sent (set_error c v s) = sent s" "sel_log (set_error c v s) = sel_log s"
  "CurrentSelections (send_event d e s) = CurrentSelections s" "currentTime (send_event d e s) = currentTime s"
  "sel_log (send_event d e s) = sel_log s" "sent (send_event d e s) = sent s @ [(d, e)]"
  "CurrentSelections (CallSelectionCallback p d k s) = CurrentSelections s"
  "currentTime (CallSelectionCallback p d k s) = currentTime s"
  "sent (CallSelectionCallback p d k s) = sent s"
  "currentTime (update_sel a f s) = currentTime s"
  "sent (update_sel a f s) = sent s" "sel_log (update_sel a f s) = sel_log s"
  by (simp_all add: set_error_def send_event_def CallSelectionCallback_def update_sel_def)

lemma sel_inv_frame [x_inv]:
  "sel_inv s \<Longrightarrow> CurrentSelections s' = CurrentSelections s \<Longrightarrow> currentTime s' = currentTime s \<Longrightarrow> sel_inv s'"
  by (simp add: sel_inv_def)

lemma sel_inv_small [x_inv]:
  "sel_inv s \<Longrightarrow> sel_inv (set_error c v s)"
  "sel_inv s \<Longrightarrow> sel_inv (send_event d e s)"
  "sel_inv s \<Longrightarrow> sel_inv (CallSelectionCallback p d k s)"
  by (erule sel_inv_frame; simp)+

lemma sel_update_time_mono: "sel_sane env \<Longrightarrow> currentTime s \<le> currentTime (sel_update_time env s)"
  by (simp add: sel_update_time_def sel_sane_def UpdateCurrentTime_mono)

lemma sel_inv_update_time [x_inv]: "sel_sane env \<Longrightarrow> sel_inv s \<Longrightarrow> sel_inv (sel_update_time env s)"
  using sel_update_time_mono [of env s] by (auto simp: sel_inv_def intro: sel_ok_later)

text \<open>Replacing the selection at an address by one of the same atom and address.\<close>

lemma sel_inv_update_sel [x_inv]:
  assumes "sel_inv s"
    and "\<And>p. p \<in> set (CurrentSelections s) \<Longrightarrow> sel_addr p = a \<Longrightarrow>
      sel_addr (f p) = a \<and> sel_atom (f p) = sel_atom p \<and> sel_ok (currentTime s) (f p)"
  shows "sel_inv (update_sel a f s)"
proof -
  let ?g = "\<lambda>p. if sel_addr p = a then f p else p"
  have "map sel_atom (map ?g (CurrentSelections s)) = map sel_atom (CurrentSelections s)"
    "map sel_addr (map ?g (CurrentSelections s)) = map sel_addr (CurrentSelections s)"
    using assms(2) by auto
  then show ?thesis
    using assms by (auto simp: sel_inv_def update_sel_def simp del: map_map)
qed

section \<open>Looking up\<close>

text \<open>What a lookup does to the list: nothing, or one unowned selection in front.\<close>

lemma dixLookupSelection_cases:
  obtains (same) rc a where "dixLookupSelection env name c m s = ((rc, a), set_error c name s)"
  | (new) rc a p where "dixLookupSelection env name c m s =
        ((rc, a), (set_error c name s)\<lparr>CurrentSelections := p # CurrentSelections s\<rparr>)"
      "p = \<lparr>sel_addr = sel_new_addr env (CurrentSelections s), sel_atom = name,
         lastTimeChanged = TimeStamp 0 0, sel_window = 0, sel_pWin = None, sel_client = None\<rparr>"
      "find (\<lambda>x. sel_atom x = name) (CurrentSelections s) = None"
proof (cases "find (\<lambda>x. sel_atom x = name) (CurrentSelections s)")
  case None
  then show ?thesis
    using same new by (cases "sel_mem env") (auto simp: dixLookupSelection_def Let_def prod_eq_iff)
next
  case (Some p)
  then show ?thesis using same by (auto simp: dixLookupSelection_def Let_def prod_eq_iff)
qed

lemma sel_inv_new:
  assumes "sel_sane env" "sel_inv s" "find (\<lambda>x. sel_atom x = name) (CurrentSelections s) = None"
    and "CurrentSelections s' = \<lparr>sel_addr = sel_new_addr env (CurrentSelections s), sel_atom = name,
         lastTimeChanged = TimeStamp 0 0, sel_window = 0, sel_pWin = None, sel_client = None\<rparr> #
         CurrentSelections s" "currentTime s' = currentTime s"
  shows "sel_inv s'"
  using assms
  by (auto simp: sel_inv_def sel_sane_def find_None_iff sel_ok_def None_id_def zero_time_least image_iff)

lemma dixLookupSelection_inv [x_inv]:
  "sel_sane env \<Longrightarrow> sel_inv s \<Longrightarrow> dixLookupSelection env name c m s = (r, s') \<Longrightarrow> sel_inv s'"
  by (rule dixLookupSelection_cases [of env name c m s])
    (auto intro: sel_inv_small sel_inv_new)

lemma dixLookupSelection_frame:
  "dixLookupSelection env name c m s = (r, s') \<Longrightarrow>
     currentTime s' = currentTime s \<and> sent s' = sent s \<and> sel_log s' = sel_log s"
  by (rule dixLookupSelection_cases [of env name c m s]) auto

lemma dixLookupSelection_keeps:
  "dixLookupSelection env name c m s = (r, s') \<Longrightarrow>
     set (CurrentSelections s) \<subseteq> set (CurrentSelections s')"
  by (rule dixLookupSelection_cases [of env name c m s]) auto

section \<open>Windows and clients that go away\<close>

lemma update_sel_one:
  "distinct (map sel_addr (xs @ p # ps)) \<Longrightarrow> CurrentSelections s = xs @ p # ps \<Longrightarrow>
   CurrentSelections (update_sel (sel_addr p) f s) = xs @ f p # ps"
  by (auto simp: update_sel_def image_iff intro!: map_idI) (metis+)?

lemma clear_owners_eq_aux:
  "distinct (map sel_addr (xs @ ps)) \<Longrightarrow> CurrentSelections s = xs @ ps \<Longrightarrow>
   clear_owners P kind ps s =
     s\<lparr>CurrentSelections := xs @ map (\<lambda>p. if P p then drop_owner p else p) ps,
       sel_log := sel_log s @ map (\<lambda>p. (p, None, kind)) (filter P ps)\<rparr>"
proof (induction ps arbitrary: xs s)
  case (Cons p ps)
  let ?s = "update_sel (sel_addr p) drop_owner (CallSelectionCallback p None kind s)"
  have s: "?s = s\<lparr>CurrentSelections := xs @ drop_owner p # ps, sel_log := sel_log s @ [(p, None, kind)]\<rparr>"
    using update_sel_one [OF Cons.prems(1), of "CallSelectionCallback p None kind s" drop_owner] Cons.prems(2)
    by (simp add: update_sel_def CallSelectionCallback_def)
  have "distinct (map sel_addr ((xs @ [drop_owner p]) @ ps))" "distinct (map sel_addr ((xs @ [p]) @ ps))"
    using Cons.prems(1) by (auto simp: drop_owner_def)
  then show ?case
    using Cons.IH [of "xs @ [drop_owner p]" ?s] Cons.IH [of "xs @ [p]" s] Cons.prems(2)
    by (simp add: s)
qed simp

lemma clear_owners_eq:
  "distinct (map sel_addr (CurrentSelections s)) \<Longrightarrow>
   clear_owners P kind (CurrentSelections s) s =
     s\<lparr>CurrentSelections := map (\<lambda>p. if P p then drop_owner p else p) (CurrentSelections s),
       sel_log := sel_log s @ map (\<lambda>p. (p, None, kind)) (filter P (CurrentSelections s))\<rparr>"
  using clear_owners_eq_aux [of "[]" "CurrentSelections s" s P kind] by simp

lemma clear_owners_inv [x_inv]:
  assumes "sel_inv s"
  shows "sel_inv (clear_owners P kind (CurrentSelections s) s)"
proof -
  let ?g = "\<lambda>p. if P p then drop_owner p else p"
  have "map sel_atom (map ?g (CurrentSelections s)) = map sel_atom (CurrentSelections s)"
    "map sel_addr (map ?g (CurrentSelections s)) = map sel_addr (CurrentSelections s)"
    by (simp_all add: drop_owner_def)
  moreover have "sel_ok now (drop_owner p)" if "sel_ok now p" for now p
    using that by (simp add: sel_ok_def drop_owner_def)
  ultimately show ?thesis
    using assms clear_owners_eq [of s P kind] by (auto simp: sel_inv_def simp del: map_map)
qed

section \<open>The requests keep the invariant\<close>

lemma set_owner_inv [x_inv]:
  assumes sane: "sel_sane env" and inv: "sel_inv s" and time: "time \<le> currentTime s"
    and win: "pWin = None \<longleftrightarrow> sp_owner param = None_id"
  shows "sel_inv (snd (set_owner env client selection time param pWin s))"
proof (cases "sel_valid_atom env (sp_selection param)")
  case True
  obtain rc a s1 where l:
      "dixLookupSelection env (sp_selection param) client DixSetAttrAccess s = ((rc, a), s1)"
    by (metis surj_pair)
  have inv1: "sel_inv s1" and t1: "currentTime s1 = currentTime s"
    using dixLookupSelection_inv [OF sane inv l] dixLookupSelection_frame [OF l] by simp_all
  show ?thesis
  proof (cases "rc = Success \<and> (\<exists>p. sel_at (CurrentSelections s1) a = Some p)")
    case False
    then show ?thesis
      using inv1 True l by (auto simp: set_owner_def intro: sel_inv_small split: option.split)
  next
    case ok: True
    then obtain p where p: "sel_at (CurrentSelections s1) a = Some p" by blast
    let ?p = "p\<lparr>lastTimeChanged := time, sel_window := sp_owner param, sel_pWin := pWin,
                sel_client := (if pWin = None then None else Some client)\<rparr>"
    have "sel_inv (update_sel a (\<lambda>_. ?p) s2)"
      if "CurrentSelections s2 = CurrentSelections s1" "currentTime s2 = currentTime s1" for s2
    proof (rule sel_inv_update_sel)
      show "sel_inv s2" using sel_inv_frame [OF inv1 that] .
      fix q assume "q \<in> set (CurrentSelections s2)" "sel_addr q = a"
      then have "q = p"
        using p that sel_at_addr [of "CurrentSelections s1" q] inv1 by (auto simp: sel_inv_def)
      then show "sel_addr ?p = a \<and> sel_atom ?p = sel_atom q \<and> sel_ok (currentTime s2) ?p"
        using sel_at_SomeD [OF p] time win that t1 by (auto simp: sel_ok_def)
    qed
    then show ?thesis
      using inv1 True l p ok
      by (auto simp: set_owner_def Let_def intro!: sel_inv_small(3))
  qed
qed (simp add: set_owner_def sel_inv_small inv)

lemma ProcSetSelectionOwner_inv [x_inv]:
  assumes "sel_sane env" "sel_inv s"
  shows "sel_inv (snd (ProcSetSelectionOwner env client req_len window selection time s))"
proof -
  have "sel_inv (sel_update_time env s)" using assms by (rule sel_inv_update_time)
  then show ?thesis
    using assms
    by (auto simp: ProcSetSelectionOwner_def Let_def not_less split: prod.split
        intro!: sel_inv_small set_owner_inv)
qed

lemma ProcGetSelectionOwner_inv [x_inv]:
  "sel_sane env \<Longrightarrow> sel_inv s \<Longrightarrow> sel_inv (snd (ProcGetSelectionOwner env client req_len sw sequence name s))"
  by (auto simp: ProcGetSelectionOwner_def Let_def intro: sel_inv_small dixLookupSelection_inv split: prod.split)

lemma convert_end_inv [x_inv]:
  "sel_inv s \<Longrightarrow> sel_inv (snd (request_from_owner env client stuff p s))"
  "sel_inv s \<Longrightarrow> sel_inv (snd (notify_no_owner env client stuff param s))"
  by (simp_all add: request_from_owner_def notify_no_owner_def Let_def sel_inv_small)

lemma ProcConvertSelection_inv [x_inv]:
  assumes sane: "sel_sane env" and inv: "sel_inv s"
  shows "sel_inv (snd (ProcConvertSelection env client req_len stuff s))"
proof -
  define param where "param = sel_filter env (no_sel_param\<lparr>sp_client := client,
              sp_selection := cv_selection stuff, sp_op := FILTER_CONVERT,
              sp_requestor := cv_requestor stuff, sp_property := cv_property stuff,
              sp_target := cv_target stuff, sp_time := cv_time stuff\<rparr>)"
  define s0 where "s0 = (if cv_time stuff = CurrentTime then sel_update_time env s else s)"
  obtain rc a s1 where l: "dixLookupSelection env (sp_selection param) client DixReadAccess s0 = ((rc, a), s1)"
    by (metis surj_pair)
  have "sel_inv s0" using inv sane by (simp add: s0_def sel_inv_update_time)
  then have s1: "sel_inv s1" using dixLookupSelection_inv [OF sane _ l] by blast
  show ?thesis
    unfolding ProcConvertSelection_def Let_def param_def [symmetric] s0_def [symmetric] l prod.case
    using inv s1 by (simp add: sel_inv_small convert_end_inv split: prod.split option.split)
qed

section \<open>The state machine\<close>

text \<open>
  A step is a request of some client, the end of a window or a client, or the passing of time,
  in any sane environment.
\<close>

datatype sel_action =
    SetOwner nat nat u32 u32 u32
  | GetOwner nat nat bool u32 u32
  | Convert nat nat convert_req
  | WindowGone u32
  | ClientGone nat
  | Tick

inductive sel_step :: "sel_state \<Rightarrow> sel_action \<Rightarrow> sel_state \<Rightarrow> bool" where
  step_set: "sel_sane env \<Longrightarrow>
     sel_step s (SetOwner c n w a t) (snd (ProcSetSelectionOwner env c n w a t s))"
| step_get: "sel_sane env \<Longrightarrow>
     sel_step s (GetOwner c n sw sq a) (snd (ProcGetSelectionOwner env c n sw sq a s))"
| step_convert: "sel_sane env \<Longrightarrow> sel_step s (Convert c n r) (snd (ProcConvertSelection env c n r s))"
| step_window: "sel_step s (WindowGone w) (DeleteWindowFromAnySelections w s)"
| step_client: "sel_step s (ClientGone c) (DeleteClientFromAnySelections c s)"
| step_tick: "sel_sane env \<Longrightarrow> sel_step s Tick (sel_update_time env s)"

inductive_cases sel_step_SetOwnerE: "sel_step s (SetOwner c n w a t) s'"
inductive_cases sel_step_ClientGoneE [elim!]: "sel_step s (ClientGone c) s'"
inductive_simps sel_step_WindowGone: "sel_step s (WindowGone w) s'"

inductive sel_reachable :: "sel_state \<Rightarrow> bool" where
  reach_init: "CurrentSelections s = [] \<Longrightarrow> sel_reachable s"
| reach_step: "sel_reachable s \<Longrightarrow> sel_step s act s' \<Longrightarrow> sel_reachable s'"

lemma sel_step_inv [x_inv]: "sel_step s act s' \<Longrightarrow> sel_inv s \<Longrightarrow> sel_inv s'"
  by (induction rule: sel_step.induct)
    (simp_all add: ProcSetSelectionOwner_inv ProcGetSelectionOwner_inv ProcConvertSelection_inv
      DeleteWindowFromAnySelections_def DeleteClientFromAnySelections_def clear_owners_inv
      sel_inv_update_time)

lemma sel_reachable_inv: "sel_reachable s \<Longrightarrow> sel_inv s"
proof (induction rule: sel_reachable.induct)
  case (reach_init s)
  then show ?case by (simp add: sel_inv_def)
qed (rule sel_step_inv)


section \<open>The owner map\<close>

text \<open>What a client can know of a selection: when it last changed, its window and its client.\<close>

definition owner_of :: "sel_state \<Rightarrow> u32 \<Rightarrow> TimeStamp \<times> u32 \<times> nat option" where
  "owner_of s a = (case find (\<lambda>x. sel_atom x = a) (CurrentSelections s) of
     None \<Rightarrow> (TimeStamp 0 0, None_id, None)
   | Some p \<Rightarrow> (lastTimeChanged p, sel_window p, sel_client p))"

text \<open>An environment without security module or filter, in which memory does not run out.\<close>

definition sel_plain :: "sel_env \<Rightarrow> bool" where
  "sel_plain env \<longleftrightarrow> sel_sane env \<and> (\<forall>c ss p m. sel_xace env c ss p m = (Success, sel_addr p)) \<and>
     (\<forall>q. sel_filter env q = q) \<and> sel_mem env"

text \<open>Setting an owner in the map, and the event the previous owner gets.\<close>

definition spec_set_owner ::
    "TimeStamp \<Rightarrow> u32 \<Rightarrow> nat \<Rightarrow> u32 \<Rightarrow> (u32 \<Rightarrow> TimeStamp \<times> u32 \<times> nat option) \<Rightarrow>
     (u32 \<Rightarrow> TimeStamp \<times> u32 \<times> nat option) \<times> (nat option \<times> sel_event) list" where
  "spec_set_owner time window client a m =
     (case m a of (changed, oldwin, oldclient) \<Rightarrow>
        if time < changed then (m, [])
        else (m(a := (time, window, if window = None_id then None else Some client)),
              if oldclient \<noteq> None \<and> (window = None_id \<or> oldclient \<noteq> Some client)
              then [(oldclient, SelectionClear (milliseconds time) oldwin a)] else []))"

lemma owner_of_frame: "CurrentSelections s' = CurrentSelections s \<Longrightarrow> owner_of s' = owner_of s"
  by (simp add: owner_of_def fun_eq_iff)

lemma dixLookupSelection_plain:
  assumes "sel_plain env"
  shows "\<exists>p s1. dixLookupSelection env name c m s = ((Success, sel_addr p), s1) \<and>
    p \<in> set (CurrentSelections s1) \<and> sel_atom p = name \<and> owner_of s1 = owner_of s \<and>
    (sel_inv s \<longrightarrow> sel_inv s1) \<and> currentTime s1 = currentTime s \<and> sent s1 = sent s \<and>
    owner_of s name = (lastTimeChanged p, sel_window p, sel_client p)"
proof (cases "find (\<lambda>x. sel_atom x = name) (CurrentSelections s)")
  case None
  let ?p = "\<lparr>sel_addr = sel_new_addr env (CurrentSelections s), sel_atom = name,
    lastTimeChanged = TimeStamp 0 0, sel_window = 0, sel_pWin = None, sel_client = None\<rparr>"
  let ?s = "(set_error c name s)\<lparr>CurrentSelections := ?p # CurrentSelections s\<rparr>"
  have "dixLookupSelection env name c m s = ((Success, sel_addr ?p), ?s)"
    using assms None by (simp add: dixLookupSelection_def sel_plain_def)
  moreover have "owner_of ?s = owner_of s"
    using None by (auto simp: owner_of_def fun_eq_iff None_id_def)
  moreover have "sel_inv s \<longrightarrow> sel_inv ?s"
    using sel_inv_new [of env s name ?s] assms None by (simp add: sel_plain_def)
  moreover have "owner_of s name = (lastTimeChanged ?p, sel_window ?p, sel_client ?p)"
    using None by (simp add: owner_of_def None_id_def)
  ultimately show ?thesis by (intro exI [of _ ?p] exI [of _ ?s]) simp
next
  case (Some p)
  then have "dixLookupSelection env name c m s = ((Success, sel_addr p), set_error c name s)"
    using assms by (simp add: dixLookupSelection_def sel_plain_def)
  then show ?thesis
    using Some find_atomD [OF Some] sel_inv_small(1)
    by (intro exI [of _ p] exI [of _ "set_error c name s"])
      (simp add: owner_of_def fun_eq_iff)
qed

lemma owner_of_update_sel:
  assumes "sel_inv s" "p \<in> set (CurrentSelections s)"
    "sel_addr p' = sel_addr p" "sel_atom p' = sel_atom p"
  shows "owner_of (update_sel (sel_addr p) (\<lambda>_. p') s) =
    (owner_of s)(sel_atom p := (lastTimeChanged p', sel_window p', sel_client p'))"
proof
  fix a
  have "find (\<lambda>x. sel_atom x = a) (map (\<lambda>x. if sel_addr x = sel_addr p then p' else x) ss) =
      (if a = sel_atom p then Some p' else find (\<lambda>x. sel_atom x = a) ss)"
    if "distinct (map sel_atom ss)" "distinct (map sel_addr ss)" "p \<in> set ss" for ss
    using that
  proof (induction ss)
    case (Cons x ss)
    show ?case
    proof (cases "x = p")
      case True
      then have "map (\<lambda>x. if sel_addr x = sel_addr p then p' else x) ss = ss"
        using Cons.prems by (intro map_idI) (auto simp: image_iff)
      then show ?thesis using True assms(3,4) by simp
    next
      case False
      then have "p \<in> set ss" "sel_addr x \<noteq> sel_addr p" "sel_atom x \<noteq> sel_atom p"
        using Cons.prems by (auto simp: image_iff)
      then show ?thesis using Cons by (cases "a = sel_atom p") simp_all
    qed
  qed simp
  then show "owner_of (update_sel (sel_addr p) (\<lambda>_. p') s) a =
      ((owner_of s)(sel_atom p := (lastTimeChanged p', sel_window p', sel_client p'))) a"
    using assms(1,2) by (simp add: owner_of_def update_sel_def sel_inv_def)
qed

text \<open>C15: Without a security module or filter, \<open>ProcSetSelectionOwner\<close> is the update of the owner map
  the protocol describes: a time in the future or before the selection's last change leaves
  everything alone, otherwise the selection belongs to the window and its client (or to nobody)
  from that time on; the client that loses it, and nobody else, gets one \<open>SelectionClear\<close> with its
  old window.\<close>
theorem ProcSetSelectionOwner_refines:
  assumes env: "sel_plain env" and inv: "sel_inv s" and len: "REQUEST_SIZE_MATCH 16 req_len"
    and atom: "sel_valid_atom env selection"
    and look: "window \<noteq> None_id \<Longrightarrow> fst (sel_lookup_window env window client DixSetAttrAccess) = Success"
    and now: "now = currentTime (sel_update_time env s)" "t = ClientTimeToServerTime now time"
    and spec: "spec_set_owner t window client selection (owner_of s) = (m, evs)"
  shows "\<exists>s'. ProcSetSelectionOwner env client req_len window selection time s = (Success, s') \<and>
    (if now < t then owner_of s' = owner_of s \<and> sent s' = sent s
     else owner_of s' = m \<and> sent s' = sent s @ evs)"
proof (cases "now < t")
  case True
  then show ?thesis
    using len now owner_of_frame [of "sel_update_time env s" s] by (simp add: ProcSetSelectionOwner_def)
next
  case False
  let ?s0 = "sel_update_time env s"
  have sane: "sel_sane env" and flt: "\<And>q. sel_filter env q = q" using env by (simp_all add: sel_plain_def)
  define pWin where "pWin = (if window = None_id then None
    else Some (snd (sel_lookup_window env window client DixSetAttrAccess)))"
  define param where "param = no_sel_param\<lparr>sp_client := client, sp_selection := selection,
    sp_owner := window, sp_op := FILTER_SETOWNER\<rparr>"
  have param [simp]: "sp_selection param = selection" "sp_owner param = window" "\<not> sp_skip param"
    by (simp_all add: param_def no_sel_param_def)
  have run: "ProcSetSelectionOwner env client req_len window selection time s =
      set_owner env client selection t param pWin ?s0"
    using False len look now flt
    by (cases "sel_lookup_window env window client DixSetAttrAccess")
      (auto simp: ProcSetSelectionOwner_def Let_def pWin_def simp flip: param_def)
  obtain p s1 where l: "dixLookupSelection env selection client DixSetAttrAccess ?s0 = ((Success, sel_addr p), s1)"
      "p \<in> set (CurrentSelections s1)" "sel_atom p = selection" "owner_of s1 = owner_of ?s0" "sel_inv s1"
      "sent s1 = sent ?s0" "owner_of ?s0 selection = (lastTimeChanged p, sel_window p, sel_client p)"
    using dixLookupSelection_plain [OF env, of selection client DixSetAttrAccess ?s0]
      sel_inv_update_time [OF sane inv] by blast
  have p: "sel_at (CurrentSelections s1) (sel_addr p) = Some p"
    using l(2,5) by (simp add: sel_inv_def sel_at_addr)
  have o: "owner_of ?s0 = owner_of s" by (rule owner_of_frame) simp
  let ?p = "p\<lparr>lastTimeChanged := t, sel_window := window, sel_pWin := pWin,
                sel_client := (if pWin = None then None else Some client)\<rparr>"
  have upd: "owner_of (CallSelectionCallback ?p c k (update_sel (sel_addr p) (\<lambda>_. ?p) s2)) =
      (owner_of s)(selection := (t, window, if window = None_id then None else Some client))"
    if "CurrentSelections s2 = CurrentSelections s1" "currentTime s2 = currentTime s1" for s2 c k
  proof -
    have "owner_of (update_sel (sel_addr p) (\<lambda>_. ?p) s2) =
        (owner_of s2)(sel_atom p := (lastTimeChanged ?p, sel_window ?p, sel_client ?p))"
      using sel_inv_frame [OF l(5) that] l(2) that by (intro owner_of_update_sel) simp_all
    moreover have "owner_of s2 = owner_of s" using owner_of_frame [OF that(1)] l(4) o by simp
    moreover have "sel_client ?p = (if window = None_id then None else Some client)"
      by (simp add: pWin_def)
    ultimately have "owner_of (update_sel (sel_addr p) (\<lambda>_. ?p) s2) =
        (owner_of s)(selection := (t, window, if window = None_id then None else Some client))"
      using l(3) by simp
    then show ?thesis using owner_of_frame [of "CallSelectionCallback ?p c k (update_sel (sel_addr p) (\<lambda>_. ?p) s2)"]
      by simp
  qed
  have m: "owner_of s selection = (lastTimeChanged p, sel_window p, sel_client p)" using l(7) o by simp
  show ?thesis
  proof (cases "t < lastTimeChanged p")
    case True
    then have "set_owner env client selection t param pWin ?s0 = (Success, s1)"
      using atom l(1) p by (simp add: set_owner_def)
    moreover have "m = owner_of s" "evs = []" using True spec m by (simp_all add: spec_set_owner_def)
    ultimately show ?thesis using False run l(4,6) o by simp
  next
    case keep: False
    let ?lose = "sel_client p \<noteq> None \<and> (window = None_id \<or> sel_client p \<noteq> Some client)"
    let ?s2 = "if ?lose then send_event (sel_client p)
                 (SelectionClear (milliseconds t) (sel_window p) selection) s1 else s1"
    have "set_owner env client selection t param pWin ?s0 =
        (Success, CallSelectionCallback ?p (Some client) SelectionSetOwner
           (update_sel (sel_addr p) (\<lambda>_. ?p) ?s2))"
      using atom l(1) p keep flt
      by (auto simp: set_owner_def Let_def pWin_def no_sel_param_def)
    moreover have "m = (owner_of s)(selection := (t, window, if window = None_id then None else Some client))"
      "evs = (if ?lose then [(sel_client p, SelectionClear (milliseconds t) (sel_window p) selection)] else [])"
      using keep spec m by (auto simp: spec_set_owner_def)
    moreover have "CurrentSelections ?s2 = CurrentSelections s1" "currentTime ?s2 = currentTime s1" by simp_all
    ultimately show ?thesis using False run upd [of ?s2] l(6) by simp
  qed
qed

text \<open>C33: Without a security module or filter, a valid \<open>ProcConvertSelection\<close> sends exactly one event and
  changes no owner: a \<open>SelectionRequest\<close> to the owner when the selection has a living owner other
  than the server, otherwise a \<open>SelectionNotify\<close> with property None to the requesting client.\<close>
theorem ProcConvertSelection_sends_one_event:
  assumes env: "sel_plain env" and inv: "sel_inv s" and len: "REQUEST_SIZE_MATCH 24 req_len"
    and atoms: "sel_valid_atom env (cv_selection r)" "sel_valid_atom env (cv_target r)"
      "cv_property r = None_id \<or> sel_valid_atom env (cv_property r)"
    and look: "fst (sel_lookup_window env (cv_requestor r) client DixSetAttrAccess) = Success"
  shows "\<exists>s'. ProcConvertSelection env client req_len r s = (Success, s') \<and> owner_of s' = owner_of s \<and>
    sent s' = sent s @
      [case owner_of s (cv_selection r) of (_, w, owner) \<Rightarrow>
         if w \<noteq> None_id \<and> owner \<noteq> None \<and> owner \<noteq> Some serverClient \<and> \<not> sel_client_gone env (the owner)
         then (owner, SelectionRequest (cv_time r) w (cv_requestor r) (cv_selection r) (cv_target r) (cv_property r))
         else (Some client, SelectionNotify (cv_time r) (cv_requestor r) (cv_selection r) (cv_target r) None_id)]"
proof -
  have flt: "\<And>q. sel_filter env q = q" using env by (simp add: sel_plain_def)
  define s0 where "s0 = (if cv_time r = CurrentTime then sel_update_time env s else s)"
  have o: "owner_of s0 = owner_of s" "sent s0 = sent s"
    using owner_of_frame [of "sel_update_time env s" s] by (simp_all add: s0_def)
  obtain w where w: "sel_lookup_window env (cv_requestor r) client DixSetAttrAccess = (Success, w)"
    using look by (metis prod.collapse)
  have "sel_inv s0" using env inv by (simp add: s0_def sel_plain_def sel_inv_update_time)
  then obtain p s1 where l: "dixLookupSelection env (cv_selection r) client DixReadAccess s0 = ((Success, sel_addr p), s1)"
      "p \<in> set (CurrentSelections s1)" "owner_of s1 = owner_of s0" "sent s1 = sent s0" "sel_inv s1"
      "owner_of s0 (cv_selection r) = (lastTimeChanged p, sel_window p, sel_client p)"
    using dixLookupSelection_plain [OF env, of "cv_selection r" client DixReadAccess s0] by blast
  have p: "sel_at (CurrentSelections s1) (sel_addr p) = Some p"
    using l(2,5) by (simp add: sel_inv_def sel_at_addr)
  have m: "owner_of s (cv_selection r) = (lastTimeChanged p, sel_window p, sel_client p)"
    using l(6) o by simp
  define param where "param = no_sel_param\<lparr>sp_client := client, sp_selection := cv_selection r,
    sp_op := FILTER_CONVERT, sp_requestor := cv_requestor r, sp_property := cv_property r,
    sp_target := cv_target r, sp_time := cv_time r\<rparr>"
  have param: "sp_selection param = cv_selection r" "sp_requestor param = cv_requestor r"
      "sp_property param = cv_property r" "sp_target param = cv_target r" "sp_time param = cv_time r"
      "\<not> sp_skip param"
    by (simp_all add: param_def no_sel_param_def)
  let ?owned = "sel_window p \<noteq> None_id \<and>
    (case sel_client p of None \<Rightarrow> False | Some c \<Rightarrow> c \<noteq> serverClient \<and> \<not> sel_client_gone env c)"
  have run: "ProcConvertSelection env client req_len r s =
      (if ?owned then request_from_owner env client r p s1 else notify_no_owner env client r param s1)"
    unfolding ProcConvertSelection_def Let_def flt param_def [symmetric] s0_def [symmetric]
    using len atoms by (simp add: param w l(1) p)
  have owned: "?owned \<longleftrightarrow> sel_window p \<noteq> None_id \<and> sel_client p \<noteq> None \<and> sel_client p \<noteq> Some serverClient \<and>
      \<not> sel_client_gone env (the (sel_client p))"
    by (auto split: option.split)
  have "owner_of (send_event c e s1) = owner_of s" for c e
    using owner_of_frame [of "send_event c e s1" s1] l(3) o by simp
  then show ?thesis
    unfolding run m owned prod.case
    using l(4) o by (simp add: request_from_owner_def notify_no_owner_def Let_def flt param no_sel_param_def)
qed

text \<open>When a client closes, the extensions are told once, in the order of the list, of every
  selection it owns, while the selection still names its owner; then exactly these selections
  have no owner and all others are untouched.\<close>
theorem client_close_disowns:
  assumes "sel_reachable s" "sel_step s (ClientGone c) s'"
  shows "sel_log s' = sel_log s @ map (\<lambda>p. (p, None, SelectionClientClose))
      (filter (\<lambda>p. sel_client p = Some c) (CurrentSelections s)) \<and>
    CurrentSelections s' =
      map (\<lambda>p. if sel_client p = Some c then drop_owner p else p) (CurrentSelections s) \<and>
    (\<forall>p \<in> set (CurrentSelections s'). sel_client p \<noteq> Some c) \<and> sent s' = sent s"
proof -
  have "s' = DeleteClientFromAnySelections c s" using assms(2) by blast
  then show ?thesis
    using sel_reachable_inv [OF assms(1)]
      clear_owners_eq [of s "\<lambda>p. sel_client p = Some c" SelectionClientClose]
    by (auto simp: DeleteClientFromAnySelections_def sel_inv_def drop_owner_def)
qed

section \<open>Witnesses\<close>

definition demo_sel_env :: sel_env where
  "demo_sel_env = \<lparr>sel_valid_atom = (\<lambda>a. a \<noteq> 0), sel_lookup_window = (\<lambda>w c m. (Success, w)),
     sel_xace = (\<lambda>c ss p m. (Success, sel_addr p)), sel_filter = (\<lambda>q. q), sel_mem = True,
     sel_new_addr = (\<lambda>ss. Suc (sum_list (map sel_addr ss))), sel_clock = 50,
     sel_input_pending = False, sel_process_input = (\<lambda>t. t), sel_client_gone = (\<lambda>c. False)\<rparr>"

definition demo_selections :: sel_state where
  "demo_selections = \<lparr>CurrentSelections = [], currentTime = TimeStamp 0 40, errorValue = (\<lambda>_. 0),
     sent = [], sel_log = []\<rparr>"

text \<open>Client 3 owns selection 1 with window 9 since time 45.\<close>

definition demo_owned :: sel_state where
  "demo_owned = snd (ProcSetSelectionOwner demo_sel_env 3 4 9 1 45 demo_selections)"

lemma demo_sel_plain: "sel_plain demo_sel_env"
proof -
  have "sel_addr p \<le> sum_list (map sel_addr ss)" if "p \<in> set ss" for p ss
    using that by (induction ss) auto
  then show ?thesis
    by (force simp: sel_plain_def sel_sane_def demo_sel_env_def)
qed

lemma demo_sel_reachable: "sel_reachable demo_owned"
proof (rule reach_step)
  show "sel_reachable demo_selections" by (rule reach_init) (simp add: demo_selections_def)
  show "sel_step demo_selections (SetOwner 3 4 9 1 45) demo_owned"
    using demo_sel_plain unfolding demo_owned_def by (intro step_set) (simp add: sel_plain_def)
qed

lemma demo_time:
  "UpdateCurrentTime f False 50 (TimeStamp 0 40) = TimeStamp 0 50"
  "UpdateCurrentTime f False 50 (TimeStamp 0 50) = TimeStamp 0 50"
  "ClientTimeToServerTime (TimeStamp 0 50) 45 = TimeStamp 0 45"
  "ClientTimeToServerTime (TimeStamp 0 50) 47 = TimeStamp 0 47"
  "CompareTimeStamps (TimeStamp 0 45) (TimeStamp 0 50) = EARLIER"
  "CompareTimeStamps (TimeStamp 0 45) (TimeStamp 0 0) = LATER"
  by (simp_all add: UpdateCurrentTime_def ClientTimeToServerTime_def HALFMONTH_def CurrentTime_def
      less_TimeStamp_def abs_time_def)

lemma demo_owned_eq:
  "CurrentSelections demo_owned = [\<lparr>sel_addr = 1, sel_atom = 1, lastTimeChanged = TimeStamp 0 45,
     sel_window = 9, sel_pWin = Some 9, sel_client = Some 3\<rparr>]"
  "currentTime demo_owned = TimeStamp 0 50"
  by (simp_all add: demo_owned_def demo_selections_def demo_sel_env_def ProcSetSelectionOwner_def
      set_owner_def dixLookupSelection_def sel_update_time_def demo_time set_error_def update_sel_def
      CallSelectionCallback_def REQUEST_SIZE_MATCH_def no_sel_param_def None_id_def sel_at_def
      Let_def less_TimeStamp_def abs_time_def)


theorem ProcSetSelectionOwner_refines_witness:
  "\<exists>s'. ProcSetSelectionOwner demo_sel_env 2 4 8 1 47 demo_owned = (Success, s') \<and>
     sent s' = sent demo_owned @ [(Some 3, SelectionClear 47 9 1)]"
proof -
  have facts: "REQUEST_SIZE_MATCH 16 4" "sel_valid_atom demo_sel_env 1"
      "fst (sel_lookup_window demo_sel_env 8 2 DixSetAttrAccess) = Success"
    by (simp_all add: REQUEST_SIZE_MATCH_def demo_sel_env_def)
  have now: "currentTime (sel_update_time demo_sel_env demo_owned) = TimeStamp 0 50"
      "ClientTimeToServerTime (currentTime (sel_update_time demo_sel_env demo_owned)) 47 = TimeStamp 0 47"
    by (simp_all add: sel_update_time_def demo_owned_eq demo_sel_env_def demo_time)
  have spec: "spec_set_owner (TimeStamp 0 47) 8 2 1 (owner_of demo_owned) =
      ((owner_of demo_owned)(1 := (TimeStamp 0 47, 8, Some 2)), [(Some 3, SelectionClear 47 9 1)])"
    by (simp add: spec_set_owner_def owner_of_def demo_owned_eq None_id_def less_TimeStamp_def abs_time_def)
  have le: "\<not> TimeStamp 0 50 < TimeStamp 0 47" by (simp add: less_TimeStamp_def abs_time_def)
  from ProcSetSelectionOwner_refines [OF demo_sel_plain sel_reachable_inv [OF demo_sel_reachable]
      facts(1,2,3) refl refl, of 47, unfolded now demo_time, OF spec] le
  show ?thesis by auto
qed

theorem ProcConvertSelection_sends_one_event_witness:
  "\<exists>s'. ProcConvertSelection demo_sel_env 2 6 \<lparr>cv_requestor = 8, cv_selection = 1, cv_target = 31,
       cv_property = 0, cv_time = 48\<rparr> demo_owned = (Success, s') \<and>
     sent s' = sent demo_owned @ [(Some 3, SelectionRequest 48 9 8 1 31 0)]"
proof -
  let ?r = "\<lparr>cv_requestor = 8, cv_selection = 1, cv_target = 31, cv_property = 0, cv_time = 48\<rparr>"
  have facts: "REQUEST_SIZE_MATCH 24 6" "sel_valid_atom demo_sel_env (cv_selection ?r)"
      "sel_valid_atom demo_sel_env (cv_target ?r)"
      "cv_property ?r = None_id \<or> sel_valid_atom demo_sel_env (cv_property ?r)"
      "fst (sel_lookup_window demo_sel_env (cv_requestor ?r) 2 DixSetAttrAccess) = Success"
    by (simp_all add: REQUEST_SIZE_MATCH_def demo_sel_env_def None_id_def)
  have o: "owner_of demo_owned 1 = (TimeStamp 0 45, 9, Some 3)" "\<not> sel_client_gone demo_sel_env 3"
    by (simp_all add: owner_of_def demo_owned_eq demo_sel_env_def)
  note run = ProcConvertSelection_sends_one_event [OF demo_sel_plain sel_reachable_inv [OF demo_sel_reachable] facts]
  have e: "(case owner_of demo_owned (cv_selection ?r) of (_, w, owner) \<Rightarrow>
         if w \<noteq> None_id \<and> owner \<noteq> None \<and> owner \<noteq> Some serverClient \<and> \<not> sel_client_gone demo_sel_env (the owner)
         then (owner, SelectionRequest (cv_time ?r) w (cv_requestor ?r) (cv_selection ?r) (cv_target ?r) (cv_property ?r))
         else (Some 2, SelectionNotify (cv_time ?r) (cv_requestor ?r) (cv_selection ?r) (cv_target ?r) None_id)) =
      (Some 3, SelectionRequest 48 9 8 1 31 0)"
    using o by (simp add: None_id_def serverClient_def)
  from run [unfolded e] show ?thesis by blast
qed

theorem client_close_disowns_witness:
  "filter (\<lambda>p. sel_client p = Some 3)
     (CurrentSelections (DeleteClientFromAnySelections 3 demo_owned)) = []"
  by (rule iffD2 [OF filter_empty_conv])
    (rule client_close_disowns [OF demo_sel_reachable step_client, THEN conjunct2, THEN conjunct2, THEN conjunct1])

end
