(* ===== verification/Passive_Grabs.thy ===== *)
theory Passive_Grabs
  imports Requests Resources
begin

text \<open>
  Passive grabs, \<^verbatim>\<open>dix/grabs.c\<close>: the list of key and button grabs of each window, when two grabs
  claim the same events, and how a grab is added to the list and cut out of it. Devices and windows
  are numbers. Cursor reference counts and the printing of grabs are left out.
\<close>

section \<open>Data\<close>

datatype InputLevel = CORE | XI | XI2

type_synonym Mask = u64

record DetailRec =
  exact :: u32
  pMask :: "Mask list option"

text \<open>\<open>g_xi2mask\<close> is the mask bytes of each device.\<close>

record GrabRec =
  g_resource :: u32
  g_device :: nat
  g_window :: nat
  ownerEvents :: bool
  keyboardMode :: bool
  pointerMode :: bool
  grabtype :: InputLevel
  g_type :: byte
  modifiersDetail :: DetailRec
  modifierDevice :: nat
  g_detail :: DetailRec
  confineTo :: "nat option"
  g_cursor :: "nat option"
  eventMask :: Mask
  deviceMask :: Mask
  g_xi2mask :: "byte list list"

text \<open>
  The union \<open>GrabMask\<close>: a core or XI mask, or a pointer to an XI2 mask (\<open>None\<close> when it points
  nowhere).
\<close>

datatype GrabMask = core_mask Mask | xi2_mask "byte list list option"

record GrabParameters =
  par_ownerEvents :: bool
  this_device_mode :: bool
  other_devices_mode :: bool
  par_modifiers :: u32

text \<open>
  Results of code that may run out of memory (\<open>Fail\<close>) or reach memory it must not touch
  (\<open>Fault\<close>).
\<close>

datatype 'a outcome = Ret (the_ret: 'a) | Fail | Fault

text \<open>
  \<open>limit\<close> is \<open>LimitClients\<close>; \<open>fake_id\<close> stands for \<open>FakeClientID\<close> given the ids in use;
  \<open>device_access\<close> is the device access callback; \<open>grab_mem\<close> says which allocations succeed, the
  number being the resource id of the grab they are made for.
\<close>

datatype grab_alloc = AllocGrabRec | AllocXi2Mask | AllocMask u32 | AllocNewMask u32
  | AllocOptionalRec | AllocLists | AllocResource | AllocNewResource u32

record grab_env =
  limit :: int
  all_devices :: nat
  all_master_devices :: nat
  InputDevIsMaster :: "nat \<Rightarrow> bool"
  fake_id :: "nat \<Rightarrow> u32 list \<Rightarrow> u32"
  device_access :: "nat \<Rightarrow> nat \<Rightarrow> u32 \<Rightarrow> x_status"
  grab_mem :: "grab_alloc \<Rightarrow> bool"

type_synonym grab_state = "nat \<Rightarrow> GrabRec list"

definition AnyKey :: u32 where "AnyKey = 0"
definition XIAnyKeycode :: u32 where "XIAnyKeycode = 0"
definition AnyModifier :: u32 where "AnyModifier = 0x8000"
definition XIAnyModifier :: u32 where "XIAnyModifier = 0x80000000"
definition DixFreezeAccess :: u32 where "DixFreezeAccess = 0x40000"
definition GrabModeSync :: bool where "GrabModeSync = False"
definition MasksPerDetailMask :: nat where "MasksPerDetailMask = 8"

definition any_modifier :: "GrabRec \<Rightarrow> u32" where
  "any_modifier g = (if grabtype g = XI2 then XIAnyModifier else AnyModifier)"

definition any_key :: "GrabRec \<Rightarrow> u32" where
  "any_key g = (if grabtype g = XI2 then XIAnyKeycode else AnyKey)"

section \<open>Detail masks\<close>

definition BITMASK :: "nat \<Rightarrow> Mask" where "BITMASK i = push_bit (i mod 32) 1"

definition MASKIDX :: "nat \<Rightarrow> nat" where "MASKIDX i = i div 32"

text \<open>Bits past the end of the mask read as clear.\<close>

definition GETBIT :: "Mask list \<Rightarrow> nat \<Rightarrow> bool" where
  "GETBIT buf i \<longleftrightarrow> MASKIDX i < length buf \<and> buf ! MASKIDX i AND BITMASK i \<noteq> 0"

definition BITCLEAR :: "Mask list \<Rightarrow> nat \<Rightarrow> Mask list" where
  "BITCLEAR buf i = buf[MASKIDX i := buf ! MASKIDX i AND NOT (BITMASK i)]"

text \<open>Clearing a bit past the end of the mask is the \<open>Fault\<close>.\<close>

definition DeleteDetailFromMask :: "bool \<Rightarrow> Mask list option \<Rightarrow> u32 \<Rightarrow> Mask list outcome" where
  "DeleteDetailFromMask calloc_ok pDetailMask detail =
     (if \<not> calloc_ok then Fail
      else if MASKIDX (unat detail) \<ge> MasksPerDetailMask then Fault
      else Ret (BITCLEAR
        (case pDetailMask of
           Some m \<Rightarrow> map (\<lambda>i. m ! i) [0..<MasksPerDetailMask]
         | None \<Rightarrow> map (\<lambda>i. - 1) [0..<MasksPerDetailMask]) (unat detail)))"

section \<open>Comparing grabs\<close>

definition IsInGrabMask :: "DetailRec \<Rightarrow> DetailRec \<Rightarrow> u32 \<Rightarrow> bool" where
  "IsInGrabMask firstDetail secondDetail exception =
     (if exact firstDetail = exception
      then case pMask firstDetail of
             None \<Rightarrow> True
           | Some m \<Rightarrow> if exact secondDetail = exception then False
                       else GETBIT m (unat (exact secondDetail))
      else False)"

definition IdenticalExactDetails :: "u32 \<Rightarrow> u32 \<Rightarrow> u32 \<Rightarrow> bool" where
  "IdenticalExactDetails firstExact secondExact exception =
     (if firstExact = exception \<or> secondExact = exception then False else firstExact = secondExact)"

definition DetailSupersedesSecond :: "DetailRec \<Rightarrow> DetailRec \<Rightarrow> u32 \<Rightarrow> bool" where
  "DetailSupersedesSecond a b exception \<longleftrightarrow>
     IsInGrabMask a b exception \<or> IdenticalExactDetails (exact a) (exact b) exception"

definition GrabSupersedesSecond :: "GrabRec \<Rightarrow> GrabRec \<Rightarrow> bool" where
  "GrabSupersedesSecond a b \<longleftrightarrow>
     DetailSupersedesSecond (modifiersDetail a) (modifiersDetail b) (any_modifier a) \<and>
     DetailSupersedesSecond (g_detail a) (g_detail b) AnyKey"

text \<open>Whether the devices of two grabs of one level agree.\<close>

definition devices_match :: "grab_env \<Rightarrow> GrabRec \<Rightarrow> GrabRec \<Rightarrow> bool \<Rightarrow> bool" where
  "devices_match env a b ignoreDevice =
     (if grabtype a = XI2
      then if g_device a = all_devices env \<or> g_device b = all_devices env then True
           else if g_device a = all_master_devices env
           then g_device b = all_master_devices env \<or> InputDevIsMaster env (g_device b)
           else if g_device b = all_master_devices env
           then g_device a = all_master_devices env \<or> InputDevIsMaster env (g_device a)
           else g_device b = g_device a
      else \<not> (\<not> ignoreDevice \<and> (g_device a \<noteq> g_device b \<or> modifierDevice a \<noteq> modifierDevice b)))"

definition GrabMatchesSecond :: "grab_env \<Rightarrow> GrabRec \<Rightarrow> GrabRec \<Rightarrow> bool \<Rightarrow> bool" where
  "GrabMatchesSecond env a b ignoreDevice =
     (if grabtype a \<noteq> grabtype b then False
      else if \<not> devices_match env a b ignoreDevice then False
      else if g_type a \<noteq> g_type b then False
      else if GrabSupersedesSecond a b \<or> GrabSupersedesSecond b a then True
      else if DetailSupersedesSecond (g_detail b) (g_detail a) AnyKey \<and>
              DetailSupersedesSecond (modifiersDetail a) (modifiersDetail b) (any_modifier a) then True
      else DetailSupersedesSecond (g_detail a) (g_detail b) AnyKey \<and>
           DetailSupersedesSecond (modifiersDetail b) (modifiersDetail a) (any_modifier a))"

definition GrabsAreIdentical :: "GrabRec \<Rightarrow> GrabRec \<Rightarrow> bool" where
  "GrabsAreIdentical a b =
     (if grabtype a \<noteq> grabtype b then False
      else if g_device a \<noteq> g_device b \<or> modifierDevice a \<noteq> modifierDevice b \<or> g_type a \<noteq> g_type b
      then False
      else if \<not> (DetailSupersedesSecond (g_detail a) (g_detail b) AnyKey \<and>
                 DetailSupersedesSecond (g_detail b) (g_detail a) AnyKey) then False
      else DetailSupersedesSecond (modifiersDetail a) (modifiersDetail b) (any_modifier a) \<and>
           DetailSupersedesSecond (modifiersDetail b) (modifiersDetail a) (any_modifier a))"

section \<open>Allocating\<close>

text \<open>A fresh XI2 mask has one zero row per device.\<close>

definition xi2mask_new :: "byte list list" where
  "xi2mask_new = replicate 258 (replicate 5 0)"

definition xi2mask_merge :: "byte list list \<Rightarrow> byte list list \<Rightarrow> byte list list" where
  "xi2mask_merge dest source =
     map (\<lambda>(d, s). map (\<lambda>(x, y). x OR y) (zip d s) @ drop (length s) d) (zip dest source)
       @ drop (length source) dest"

text \<open>What \<open>calloc\<close> and \<open>xi2mask_new\<close> leave in a new grab.\<close>

definition empty_grab :: GrabRec where
  "empty_grab = \<lparr>g_resource = 0, g_device = 0, g_window = 0, ownerEvents = False,
     keyboardMode = False, pointerMode = False, grabtype = CORE, g_type = 0,
     modifiersDetail = \<lparr>exact = 0, pMask = None\<rparr>, modifierDevice = 0,
     g_detail = \<lparr>exact = 0, pMask = None\<rparr>, confineTo = None, g_cursor = None, eventMask = 0,
     deviceMask = 0, g_xi2mask = xi2mask_new\<rparr>"

text \<open>\<open>id\<close> of the copy's masks is the source's resource id; \<open>src_xi2\<close> is never NULL here.\<close>

definition CopyGrab :: "grab_env \<Rightarrow> GrabRec \<Rightarrow> GrabRec option" where
  "CopyGrab env src =
     (if pMask (modifiersDetail src) \<noteq> None \<and> \<not> grab_mem env (AllocMask (g_resource src)) then None
      else if pMask (g_detail src) \<noteq> None \<and> \<not> grab_mem env (AllocNewMask (g_resource src)) then None
      else Some (src\<lparr>g_xi2mask := xi2mask_merge xi2mask_new (g_xi2mask src)\<rparr>))"

definition AllocGrab :: "grab_env \<Rightarrow> GrabRec option \<Rightarrow> GrabRec option" where
  "AllocGrab env src =
     (if \<not> grab_mem env AllocGrabRec then None
      else if \<not> grab_mem env AllocXi2Mask then None
      else case src of None \<Rightarrow> Some empty_grab | Some s \<Rightarrow> CopyGrab env s)"

text \<open>
  Merging from an XI2 mask that points nowhere is the \<open>Fault\<close>. The key or button is a \<open>KeyCode\<close>, 8 bits
  wide; what a caller passes is cut off to it.
\<close>

definition CreateGrab ::
    "grab_env \<Rightarrow> nat \<Rightarrow> u32 list \<Rightarrow> nat \<Rightarrow> nat \<Rightarrow> nat \<Rightarrow> InputLevel \<Rightarrow> GrabMask \<Rightarrow> GrabParameters \<Rightarrow>
     byte \<Rightarrow> byte \<Rightarrow> nat option \<Rightarrow> nat option \<Rightarrow> GrabRec outcome" where
  "CreateGrab env client ids device modDevice window level gmask param eventType keybut confine cursor =
     (case AllocGrab env None of
        None \<Rightarrow> Fail
      | Some g0 \<Rightarrow>
          let g = g0\<lparr>g_resource := fake_id env client ids, g_device := device, g_window := window,
                eventMask := (case (level, gmask) of (XI2, _) \<Rightarrow> 0 | (_, core_mask m) \<Rightarrow> m
                              | (_, xi2_mask _) \<Rightarrow> 0),
                deviceMask := 0, ownerEvents := par_ownerEvents param,
                keyboardMode := this_device_mode param, pointerMode := other_devices_mode param,
                modifiersDetail := \<lparr>exact = par_modifiers param, pMask = None\<rparr>,
                modifierDevice := modDevice, g_type := eventType, grabtype := level,
                g_detail := \<lparr>exact = ucast keybut, pMask = None\<rparr>, confineTo := confine, g_cursor := cursor\<rparr>
          in if level = XI2
             then case gmask of
                    xi2_mask (Some m) \<Rightarrow> Ret (g\<lparr>g_xi2mask := xi2mask_merge (g_xi2mask g) m\<rparr>)
                  | _ \<Rightarrow> Fault
             else Ret g)"

section \<open>The list of a window\<close>

text \<open>
  Grabs are known by their resource ids; \<open>DeletePassiveGrab\<close> is what \<open>FreeResource\<close> of such an id
  runs.
\<close>

definition DeletePassiveGrab :: "u32 \<Rightarrow> GrabRec list \<Rightarrow> GrabRec list" where
  "DeletePassiveGrab rid gs = remove_first (\<lambda>g. g_resource g = rid) gs"

datatype mask_slot = DetailMask | ModifierMask

text \<open>What the scan of the list collects before anything is changed.\<close>

record grab_plan =
  deletes :: "u32 list"
  adds :: "GrabRec list"
  updates :: "(u32 \<times> mask_slot \<times> Mask list) list"

definition set_mask :: "mask_slot \<Rightarrow> Mask list \<Rightarrow> GrabRec \<Rightarrow> GrabRec" where
  "set_mask slot m g = (case slot of
     DetailMask \<Rightarrow> g\<lparr>g_detail := (g_detail g)\<lparr>pMask := Some m\<rparr>\<rparr>
   | ModifierMask \<Rightarrow> g\<lparr>modifiersDetail := (modifiersDetail g)\<lparr>pMask := Some m\<rparr>\<rparr>)"

text \<open>The macro \<open>UPDATE\<close>; the flag is \<open>ok\<close>.\<close>

definition UPDATE ::
    "grab_env \<Rightarrow> GrabRec \<Rightarrow> mask_slot \<Rightarrow> u32 \<Rightarrow> grab_plan \<Rightarrow> (bool \<times> grab_plan) outcome" where
  "UPDATE env g slot detail p =
     (case DeleteDetailFromMask (grab_mem env (AllocMask (g_resource g)))
             (case slot of DetailMask \<Rightarrow> pMask (g_detail g) | ModifierMask \<Rightarrow> pMask (modifiersDetail g))
             detail of
        Fail \<Rightarrow> Ret (False, p)
      | Fault \<Rightarrow> Fault
      | Ret m \<Rightarrow> Ret (True, p\<lparr>updates := updates p @ [(g_resource g, slot, m)]\<rparr>))"

text \<open>
  The union the split-off grab is created from: the bits of the old grab's event mask read as
  whatever the level says, for XI2 as a pointer.
\<close>

definition mask_of_grab :: "GrabRec \<Rightarrow> GrabMask" where
  "mask_of_grab g = (if grabtype g = XI2 then xi2_mask None else core_mask (eventMask g))"

text \<open>Splitting a grab of all keys and modifiers: a new grab for the key, less the modifier.\<close>

definition split_grab ::
    "grab_env \<Rightarrow> u32 list \<Rightarrow> GrabRec \<Rightarrow> GrabRec \<Rightarrow> bool \<times> grab_plan \<Rightarrow> (bool \<times> grab_plan) outcome" where
  "split_grab env ids M g r =
     (case r of (ok, p) \<Rightarrow>
       case CreateGrab env (dixClientIdForXID (limit env) (g_resource g)) (ids @ map g_resource (adds p))
              (g_device g) (modifierDevice g) (g_window g) (grabtype g) (mask_of_grab g)
              \<lparr>par_ownerEvents = ownerEvents g, this_device_mode = keyboardMode g,
                other_devices_mode = pointerMode g, par_modifiers = any_modifier M\<rparr>
              (g_type g) (ucast (exact (g_detail M))) (confineTo g) (g_cursor g) of
         Fault \<Rightarrow> Fault
       | Fail \<Rightarrow> Ret (False, p)
       | Ret n \<Rightarrow>
           (case DeleteDetailFromMask (grab_mem env (AllocNewMask (g_resource g)))
                   (pMask (modifiersDetail g)) (exact (modifiersDetail M)) of
              Fault \<Rightarrow> Fault
            | Fail \<Rightarrow> Ret (False, p)
            | Ret m \<Rightarrow>
                if \<not> grab_mem env AllocOptionalRec then Ret (False, p)
                else if \<not> grab_mem env (AllocNewResource (g_resource g)) then Ret (False, p)
                else Ret (ok, p\<lparr>adds := adds p @ [set_mask ModifierMask m n]\<rparr>)))"

definition plan_grab ::
    "grab_env \<Rightarrow> u32 list \<Rightarrow> GrabRec \<Rightarrow> GrabRec \<Rightarrow> grab_plan \<Rightarrow> (bool \<times> grab_plan) outcome" where
  "plan_grab env ids M g p =
     (let d = exact (g_detail M); m = exact (modifiersDetail M) in
      if dixClientIdForXID (limit env) (g_resource g) \<noteq> dixClientIdForXID (limit env) (g_resource M) \<or>
         \<not> GrabMatchesSecond env g M (grabtype g = CORE)
      then Ret (True, p)
      else if GrabSupersedesSecond M g then Ret (True, p\<lparr>deletes := deletes p @ [g_resource g]\<rparr>)
      else if exact (g_detail g) = any_key M \<and> exact (modifiersDetail g) \<noteq> any_modifier M
      then UPDATE env g DetailMask d p
      else if exact (modifiersDetail g) = any_modifier M \<and> exact (g_detail g) \<noteq> any_key M
      then UPDATE env g ModifierMask m p
      else if d \<noteq> any_key M \<and> m \<noteq> any_modifier M
      then (case UPDATE env g DetailMask d p of
              Ret r \<Rightarrow> split_grab env ids M g r
            | Fail \<Rightarrow> Fail
            | Fault \<Rightarrow> Fault)
      else if d = any_key M then UPDATE env g ModifierMask m p
      else UPDATE env g DetailMask d p)"

fun plan_grabs ::
    "grab_env \<Rightarrow> u32 list \<Rightarrow> GrabRec \<Rightarrow> GrabRec list \<Rightarrow> grab_plan \<Rightarrow> (bool \<times> grab_plan) outcome" where
  "plan_grabs env ids M [] p = Ret (True, p)"
| "plan_grabs env ids M (g # gs) p =
     (case plan_grab env ids M g p of
        Ret (True, p') \<Rightarrow> plan_grabs env ids M gs p'
      | r \<Rightarrow> r)"

text \<open>Deleting the grabs, prepending the new ones, storing the new masks.\<close>

definition apply_update :: "u32 \<times> mask_slot \<times> Mask list \<Rightarrow> GrabRec list \<Rightarrow> GrabRec list" where
  "apply_update u gs = (case u of (rid, slot, m) \<Rightarrow>
     map (\<lambda>g. if g_resource g = rid then set_mask slot m g else g) gs)"

definition apply_plan :: "grab_plan \<Rightarrow> GrabRec list \<Rightarrow> GrabRec list" where
  "apply_plan p gs = fold apply_update (updates p)
     (fold (\<lambda>n gs. n # gs) (adds p) (fold DeletePassiveGrab (deletes p) gs))"

text \<open>\<open>used\<close> are ids handed out for grabs that are not in the list yet.\<close>

definition DeletePassiveGrabFromList ::
    "grab_env \<Rightarrow> u32 list \<Rightarrow> GrabRec \<Rightarrow> GrabRec list \<Rightarrow> (bool \<times> GrabRec list) outcome" where
  "DeletePassiveGrabFromList env used M gs =
     (if gs = [] then Ret (True, gs)
      else if \<not> grab_mem env AllocLists then Ret (False, gs)
      else case plan_grabs env (used @ map g_resource gs) M gs \<lparr>deletes = [], adds = [], updates = []\<rparr> of
             Ret (ok, p) \<Rightarrow> Ret (if ok then (True, apply_plan p gs) else (False, gs))
           | Fail \<Rightarrow> Fail
           | Fault \<Rightarrow> Fault)"

text \<open>
  Adding to the list of the grab's window. The status comes with the list; a grab refused by the
  device access callback is not freed.
\<close>

definition AddPassiveGrabToList ::
    "grab_env \<Rightarrow> nat \<Rightarrow> GrabRec \<Rightarrow> GrabRec list \<Rightarrow> (x_status \<times> GrabRec list) outcome" where
  "AddPassiveGrabToList env client pGrab gs =
     (if \<exists>g \<in> set gs. GrabMatchesSecond env pGrab g (grabtype pGrab = CORE) \<and>
           dixClientIdForXID (limit env) (g_resource pGrab) \<noteq> dixClientIdForXID (limit env) (g_resource g)
      then Ret (BadAccess, gs)
      else
        let access_mode = (if keyboardMode pGrab = GrabModeSync \<or> pointerMode pGrab = GrabModeSync
                           then DixGrabAccess OR DixFreezeAccess else DixGrabAccess);
            rc = device_access env client (g_device pGrab) access_mode
        in if rc \<noteq> Success then Ret (rc, gs)
           else
             case (case find (GrabsAreIdentical pGrab) gs of
                     None \<Rightarrow> Ret (True, gs) | Some g \<Rightarrow> DeletePassiveGrabFromList env [g_resource pGrab] g gs) of
               Fail \<Rightarrow> Fail
             | Fault \<Rightarrow> Fault
             | Ret (_, gs') \<Rightarrow>
                 if \<not> grab_mem env AllocOptionalRec then Ret (BadAlloc, gs')
                 else if grab_mem env AllocResource then Ret (Success, pGrab # gs')
                 else Ret (BadAlloc, DeletePassiveGrab (g_resource pGrab) (pGrab # gs')))"

section \<open>Kinds of grabs\<close>

definition KeyPress :: byte where "KeyPress = 2"
definition ButtonPress :: byte where "ButtonPress = 4"
definition XI_KeyPress :: byte where "XI_KeyPress = 2"
definition XI_ButtonPress :: byte where "XI_ButtonPress = 4"
definition XI_GesturePinchBegin :: byte where "XI_GesturePinchBegin = 27"
definition XI_GestureSwipeBegin :: byte where "XI_GestureSwipeBegin = 30"

text \<open>The numbers of the XI1 device events are assigned when the extension starts.\<close>

definition GrabIsPointerGrab :: "byte \<Rightarrow> GrabRec \<Rightarrow> bool" where
  "GrabIsPointerGrab DeviceButtonPress g \<longleftrightarrow>
     g_type g = ButtonPress \<or> g_type g = DeviceButtonPress \<or> g_type g = XI_ButtonPress"

definition GrabIsKeyboardGrab :: "byte \<Rightarrow> GrabRec \<Rightarrow> bool" where
  "GrabIsKeyboardGrab DeviceKeyPress g \<longleftrightarrow>
     g_type g = KeyPress \<or> g_type g = DeviceKeyPress \<or> g_type g = XI_KeyPress"

definition GrabIsGestureGrab :: "GrabRec \<Rightarrow> bool" where
  "GrabIsGestureGrab g \<longleftrightarrow> g_type g = XI_GesturePinchBegin \<or> g_type g = XI_GestureSwipeBegin"

end
