(* ===== verification/Grab_Laws.thy ===== *)
theory Grab_Laws
  imports Passive_Grabs Resource_Laws
begin

text \<open>
  What passive grabs mean: a grab claims a set of pairs of a key (or button) and modifiers. Two
  grabs of one level, event type and device match when these sets meet; cutting a grab out of the
  list subtracts its set; and no two clients ever share a pair.
\<close>

section \<open>The set a detail stands for\<close>

definition detail_set :: "u32 \<Rightarrow> DetailRec \<Rightarrow> u32 set" where
  "detail_set any D = {k. unat k < 256 \<and> k \<noteq> any \<and>
     (if exact D = any
      then case pMask D of None \<Rightarrow> True | Some m \<Rightarrow> GETBIT m (unat k)
      else k = exact D)}"

definition detail_ok :: "u32 \<Rightarrow> DetailRec \<Rightarrow> bool" where
  "detail_ok any D \<longleftrightarrow> (exact D \<noteq> any \<longrightarrow> pMask D = None \<and> unat (exact D) < 256) \<and>
     (\<forall>m. pMask D = Some m \<longrightarrow> length m = MasksPerDetailMask)"

lemma bitmask_inj: "i < 256 \<Longrightarrow> j < 256 \<Longrightarrow> MASKIDX i = MASKIDX j \<Longrightarrow> i mod 32 = j mod 32 \<Longrightarrow> i = j"
  by (metis MASKIDX_def div_mult_mod_eq)

lemma and_bitmask: "w AND BITMASK i \<noteq> 0 \<longleftrightarrow> bit w (i mod 32)"
proof -
  have "i mod 32 < LENGTH(64)" by (simp add: less_le_trans [OF mod_less_divisor])
  then have "w AND BITMASK i = (if bit w (i mod 32) then push_bit (i mod 32) 1 else 0)"
    unfolding BITMASK_def by (simp add: bit_eq_iff) (auto simp: bit_simps)
  moreover have "push_bit (i mod 32) (1 :: Mask) \<noteq> 0"
    using \<open>i mod 32 < LENGTH(64)\<close> by (simp add: push_bit_eq_mult)
  ultimately show ?thesis by simp
qed

lemma GETBIT_bit: "GETBIT m i \<longleftrightarrow> MASKIDX i < length m \<and> bit (m ! MASKIDX i) (i mod 32)"
  by (simp add: GETBIT_def and_bitmask)

lemma GETBIT_BITCLEAR:
  assumes "length m = MasksPerDetailMask" "i < 256" "j < 256"
  shows "GETBIT (BITCLEAR m i) j \<longleftrightarrow> GETBIT m j \<and> j \<noteq> i"
proof (cases "MASKIDX i = MASKIDX j")
  case True
  have l: "MASKIDX j < length m" using assms by (simp add: MASKIDX_def MasksPerDetailMask_def)
  have "bit (NOT (BITMASK i)) (j mod 32) \<longleftrightarrow> j mod 32 \<noteq> i mod 32"
    by (auto simp: BITMASK_def bit_simps less_le_trans [OF mod_less_divisor])
  moreover have "j mod 32 \<noteq> i mod 32 \<longleftrightarrow> j \<noteq> i" using bitmask_inj [OF assms(2,3) True] by auto
  ultimately show ?thesis
    using True l by (simp add: GETBIT_bit BITCLEAR_def bit_simps)
next
  case False
  then have "i \<noteq> j" by auto
  then show ?thesis using False by (simp add: GETBIT_bit BITCLEAR_def)
qed

lemma GETBIT_ones: "i < 256 \<Longrightarrow> GETBIT (map (\<lambda>i. - 1) [0..<MasksPerDetailMask]) i"
  by (simp add: GETBIT_bit MASKIDX_def MasksPerDetailMask_def less_le_trans [OF mod_less_divisor])

lemma DeleteDetailFromMask_Ret:
  assumes "DeleteDetailFromMask ok (pMask D) d = Ret m" "detail_ok any D" "exact D = any" "d \<noteq> any"
  shows "detail_set any (D\<lparr>pMask := Some m\<rparr>) = detail_set any D - {d} \<and>
    detail_ok any (D\<lparr>pMask := Some m\<rparr>) \<and> unat d < 256"
proof -
  have d: "unat d < 256"
    using assms(1) by (simp add: DeleteDetailFromMask_def MASKIDX_def MasksPerDetailMask_def split: if_splits)
  have copy: "map (\<lambda>i. x ! i) [0..<MasksPerDetailMask] = x" if "length x = MasksPerDetailMask" for x :: "Mask list"
    using that by (metis map_nth)
  obtain x where x: "m = BITCLEAR x (unat d)" "length x = MasksPerDetailMask"
    and g: "\<And>k. unat k < 256 \<Longrightarrow> GETBIT x (unat (k :: u32)) \<longleftrightarrow>
      (case pMask D of None \<Rightarrow> True | Some y \<Rightarrow> GETBIT y (unat k))"
  proof (cases "pMask D")
    case None
    then show ?thesis
      using assms(1) that GETBIT_ones
      by (auto simp: DeleteDetailFromMask_def split: if_splits)
  next
    case (Some y)
    then show ?thesis
      using assms(1,2) that [of y] copy
      by (auto simp: DeleteDetailFromMask_def detail_ok_def split: if_splits)
  qed
  have "detail_set any (D\<lparr>pMask := Some m\<rparr>) = detail_set any D - {d}"
    using GETBIT_BITCLEAR [OF x(2) d] g assms(3) word_eq_unat [of _ d]
    by (auto simp: detail_set_def x(1))
  moreover have "length m = MasksPerDetailMask" using x by (simp add: BITCLEAR_def)
  ultimately show ?thesis using d assms(2,3) by (simp add: detail_ok_def)
qed

section \<open>Superseding is inclusion, matching is overlap\<close>

lemma supersedes_subset:
  "DetailSupersedesSecond a b any \<Longrightarrow> pMask a = None \<Longrightarrow> detail_ok any b \<Longrightarrow>
   detail_set any b \<subseteq> detail_set any a"
  by (auto simp: DetailSupersedesSecond_def IsInGrabMask_def IdenticalExactDetails_def detail_set_def
      split: if_splits option.splits)

lemma not_supersedes_disjoint:
  "\<not> DetailSupersedesSecond a b any \<Longrightarrow> \<not> DetailSupersedesSecond b a any \<Longrightarrow> pMask b = None \<Longrightarrow>
   detail_set any a \<inter> detail_set any b = {}"
  by (auto simp: DetailSupersedesSecond_def IsInGrabMask_def IdenticalExactDetails_def detail_set_def
      split: if_splits option.splits)

definition mask_free :: "GrabRec \<Rightarrow> bool" where
  "mask_free g \<longleftrightarrow> pMask (g_detail g) = None \<and> pMask (modifiersDetail g) = None"

definition grab_ok :: "GrabRec \<Rightarrow> bool" where
  "grab_ok g \<longleftrightarrow> detail_ok AnyKey (g_detail g) \<and> detail_ok (any_modifier g) (modifiersDetail g)"

definition combos :: "GrabRec \<Rightarrow> (u32 \<times> u32) set" where
  "combos g = detail_set AnyKey (g_detail g) \<times> detail_set (any_modifier g) (modifiersDetail g)"

definition compat :: "grab_env \<Rightarrow> GrabRec \<Rightarrow> GrabRec \<Rightarrow> bool" where
  "compat env a b \<longleftrightarrow> grabtype a = grabtype b \<and> devices_match env a b (grabtype a = CORE) \<and> g_type a = g_type b"

lemma devices_match_sym: "grabtype a = grabtype b \<Longrightarrow> devices_match env a b ign = devices_match env b a ign"
  by (auto simp: devices_match_def)

lemma compat_sym: "compat env a b \<longleftrightarrow> compat env b a"
  by (auto simp: compat_def devices_match_sym)

lemma any_modifier_eq: "grabtype a = grabtype b \<Longrightarrow> any_modifier a = any_modifier b"
  by (simp add: any_modifier_def)

lemma GrabMatchesSecond_iff:
  "GrabMatchesSecond env a b (grabtype a = CORE) \<longleftrightarrow> compat env a b \<and>
     (DetailSupersedesSecond (g_detail a) (g_detail b) AnyKey \<or>
      DetailSupersedesSecond (g_detail b) (g_detail a) AnyKey) \<and>
     (DetailSupersedesSecond (modifiersDetail a) (modifiersDetail b) (any_modifier a) \<or>
      DetailSupersedesSecond (modifiersDetail b) (modifiersDetail a) (any_modifier a))"
  using any_modifier_eq [of a b]
  by (auto simp: GrabMatchesSecond_def GrabSupersedesSecond_def compat_def)

lemma GrabMatchesSecond_sym:
  "GrabMatchesSecond env a b (grabtype a = CORE) = GrabMatchesSecond env b a (grabtype b = CORE)"
  unfolding GrabMatchesSecond_iff compat_sym [of env b a]
  by (metis any_modifier_eq compat_def)

lemma overlap_matches:
  assumes "compat env a b" "mask_free b" "combos a \<inter> combos b \<noteq> {}"
  shows "GrabMatchesSecond env a b (grabtype a = CORE)"
proof -
  have m: "any_modifier b = any_modifier a" using assms(1) by (simp add: compat_def any_modifier_def)
  have "detail_set AnyKey (g_detail a) \<inter> detail_set AnyKey (g_detail b) \<noteq> {}"
    "detail_set (any_modifier a) (modifiersDetail a) \<inter> detail_set (any_modifier a) (modifiersDetail b) \<noteq> {}"
    using assms(3) m by (auto simp: combos_def)
  then show ?thesis
    using assms(1,2) not_supersedes_disjoint unfolding GrabMatchesSecond_iff mask_free_def by metis
qed

lemma not_matches_disjoint:
  "compat env a b \<Longrightarrow> mask_free b \<Longrightarrow> \<not> GrabMatchesSecond env a b (grabtype a = CORE) \<Longrightarrow> combos a \<inter> combos b = {}"
  using overlap_matches by blast

section \<open>The plan of a deletion\<close>

text \<open>
  The facts about \<open>FakeClientID\<close> the code relies on: a fresh id, which belongs to the client, as
  long as not too many ids are in use (the server gives up when it runs out of them).
\<close>

definition fake_bound :: nat where "fake_bound = 2 ^ 18"

definition fake_ok :: "grab_env \<Rightarrow> bool" where
  "fake_ok env \<longleftrightarrow> (\<forall>c ids. length ids \<le> fake_bound \<longrightarrow> fake_id env c ids \<notin> set ids) \<and>
     (\<forall>rid ids. dixClientIdForXID (limit env) (fake_id env (dixClientIdForXID (limit env) rid) ids) =
        dixClientIdForXID (limit env) rid)"

abbreviation owner :: "grab_env \<Rightarrow> GrabRec \<Rightarrow> nat" where
  "owner env g \<equiv> dixClientIdForXID (limit env) (g_resource g)"

text \<open>Grabs of one client that compete for the same events.\<close>

definition same_claim :: "grab_env \<Rightarrow> GrabRec \<Rightarrow> GrabRec \<Rightarrow> bool" where
  "same_claim env M g \<longleftrightarrow> owner env g = owner env M \<and> compat env g M"

text \<open>Grabs that differ in what they claim only.\<close>

definition like :: "grab_env \<Rightarrow> GrabRec \<Rightarrow> GrabRec \<Rightarrow> bool" where
  "like env n g \<longleftrightarrow> owner env n = owner env g \<and> grabtype n = grabtype g \<and> g_device n = g_device g \<and>
     modifierDevice n = modifierDevice g \<and> g_type n = g_type g"

lemma like_compat:
  "like env n g \<Longrightarrow> compat env n h = compat env g h" "like env n g \<Longrightarrow> compat env h n = compat env h g"
  by (auto simp: like_def compat_def devices_match_def)

lemma like_same_claim: "like env n g \<Longrightarrow> same_claim env M n = same_claim env M g"
  using like_compat(1) [of env n g M] by (simp add: same_claim_def like_def)

text \<open>What the updates of a plan make of one grab.\<close>

definition upd :: "(u32 \<times> mask_slot \<times> Mask list) list \<Rightarrow> GrabRec \<Rightarrow> GrabRec" where
  "upd us g = fold (\<lambda>(rid, slot, m) g. if g_resource g = rid then set_mask slot m g else g) us g"

lemma set_mask_frame [simp, x_frame]:
  "g_resource (set_mask slot m g) = g_resource g" "grabtype (set_mask slot m g) = grabtype g"
  "g_device (set_mask slot m g) = g_device g" "modifierDevice (set_mask slot m g) = modifierDevice g"
  "g_type (set_mask slot m g) = g_type g" "any_modifier (set_mask slot m g) = any_modifier g"
  by (cases slot; simp add: set_mask_def any_modifier_def)+

lemma upd_Nil [simp]: "upd [] g = g" by (simp add: upd_def)

lemma upd_Cons: "upd ((rid, slot, m) # us) g = upd us (if g_resource g = rid then set_mask slot m g else g)"
  by (simp add: upd_def)

lemma upd_frame [simp, x_frame]:
  "g_resource (upd us g) = g_resource g \<and> grabtype (upd us g) = grabtype g \<and> g_device (upd us g) = g_device g \<and>
   modifierDevice (upd us g) = modifierDevice g \<and> g_type (upd us g) = g_type g"
proof (induction us arbitrary: g)
  case (Cons u us)
  then show ?case by (cases u) (simp add: upd_Cons)
qed simp

lemma upd_append: "upd (us @ vs) g = upd vs (upd us g)"
  by (simp add: upd_def)

lemma upd_other: "g_resource g \<notin> fst ` set us \<Longrightarrow> upd us g = g"
proof (induction us arbitrary: g)
  case (Cons u us)
  then show ?case by (cases u) (simp add: upd_Cons)
qed simp

lemma same_claim_upd [simp]: "same_claim env M (upd us g) = same_claim env M g"
  by (simp add: same_claim_def compat_def devices_match_def)

lemma fold_apply_update: "fold apply_update us gs = map (upd us) gs"
proof (induction us arbitrary: gs)
  case (Cons u us)
  obtain rid slot m where u: "u = (rid, slot, m)" by (cases u)
  show ?case
    unfolding u by (simp add: Cons.IH upd_Cons) (simp add: apply_update_def upd_Cons)
qed (simp add: map_idI)

lemma fold_Cons: "fold (\<lambda>n gs. n # gs) ns gs = rev ns @ gs"
  by (induction ns arbitrary: gs) auto

lemma remove_first_distinct:
  "distinct (map f gs) \<Longrightarrow> remove_first (\<lambda>g. f g = r) gs = filter (\<lambda>g. f g \<noteq> r) gs"
proof (induction gs)
  case (Cons g gs)
  have "filter (\<lambda>g. f g \<noteq> r) gs = gs" if "f g = r"
    using Cons.prems that by (intro filter_True ballI notI) (simp, metis imageI)
  then show ?case using Cons by simp
qed simp

lemma fold_DeletePassiveGrab:
  "distinct (map g_resource gs) \<Longrightarrow>
   fold DeletePassiveGrab ds gs = filter (\<lambda>g. g_resource g \<notin> set ds) gs"
proof (induction ds arbitrary: gs)
  case (Cons d ds)
  have "distinct (map g_resource (filter (\<lambda>g. g_resource g \<noteq> d) gs))"
    using Cons.prems by (simp add: distinct_map_filter)
  then show ?case
    using Cons remove_first_distinct [OF Cons.prems]
    by (simp add: DeletePassiveGrab_def conj_commute)
qed simp

lemma apply_plan_eq:
  "distinct (map g_resource gs) \<Longrightarrow>
   apply_plan p gs = map (upd (updates p)) (rev (adds p) @ filter (\<lambda>g. g_resource g \<notin> set (deletes p)) gs)"
  by (simp add: apply_plan_def fold_apply_update fold_Cons fold_DeletePassiveGrab)

text \<open>The two mask updates, and the split.\<close>

lemma UPDATE_detail:
  assumes "UPDATE env g DetailMask d p = Ret (True, p')" "grab_ok g" "exact (g_detail g) = AnyKey" "d \<noteq> AnyKey"
  shows "\<exists>m. p' = p\<lparr>updates := updates p @ [(g_resource g, DetailMask, m)]\<rparr> \<and>
    combos (set_mask DetailMask m g) =
      (detail_set AnyKey (g_detail g) - {d}) \<times> detail_set (any_modifier g) (modifiersDetail g) \<and>
    grab_ok (set_mask DetailMask m g)"
proof -
  obtain m where m: "DeleteDetailFromMask (grab_mem env (AllocMask (g_resource g))) (pMask (g_detail g)) d = Ret m"
    "p' = p\<lparr>updates := updates p @ [(g_resource g, DetailMask, m)]\<rparr>"
    using assms(1) by (auto simp: UPDATE_def split: outcome.splits)
  have "detail_ok AnyKey (g_detail g)" using assms(2) by (simp add: grab_ok_def)
  from DeleteDetailFromMask_Ret [OF m(1) this assms(3,4)] show ?thesis
    using assms(2) m(2) by (intro exI [of _ m]) (simp add: combos_def grab_ok_def set_mask_def any_modifier_def)
qed

lemma UPDATE_modifier:
  assumes "UPDATE env g ModifierMask d p = Ret (True, p')" "grab_ok g"
    "exact (modifiersDetail g) = any_modifier g" "d \<noteq> any_modifier g"
  shows "\<exists>m. p' = p\<lparr>updates := updates p @ [(g_resource g, ModifierMask, m)]\<rparr> \<and>
    combos (set_mask ModifierMask m g) =
      detail_set AnyKey (g_detail g) \<times> (detail_set (any_modifier g) (modifiersDetail g) - {d}) \<and>
    grab_ok (set_mask ModifierMask m g)"
proof -
  obtain m where m: "DeleteDetailFromMask (grab_mem env (AllocMask (g_resource g))) (pMask (modifiersDetail g)) d = Ret m"
    "p' = p\<lparr>updates := updates p @ [(g_resource g, ModifierMask, m)]\<rparr>"
    using assms(1) by (auto simp: UPDATE_def split: outcome.splits)
  have "detail_ok (any_modifier g) (modifiersDetail g)" using assms(2) by (simp add: grab_ok_def)
  from DeleteDetailFromMask_Ret [OF m(1) this assms(3,4)] show ?thesis
    using assms(2) m(2) by (intro exI [of _ m]) (simp add: combos_def grab_ok_def set_mask_def any_modifier_def)
qed

lemma keycode_id:
  assumes "unat (k :: u32) < 256"
  shows "ucast (ucast k :: byte) = k"
proof -
  have "take_bit 8 (unat k) = unat k" using assms by (simp add: take_bit_nat_eq_self)
  then show ?thesis by (simp add: word_unat_eq_iff unsigned_ucast_eq unsigned_take_bit_eq)
qed

lemma CreateGrab_Ret:
  "CreateGrab env c ids dev mdev w level gmask par t k conf cur = Ret n \<Longrightarrow> level \<noteq> XI2 \<Longrightarrow>
   g_resource n = fake_id env c ids \<and> g_device n = dev \<and> modifierDevice n = mdev \<and> grabtype n = level \<and>
   g_type n = t \<and> g_detail n = \<lparr>exact = ucast k, pMask = None\<rparr> \<and>
   modifiersDetail n = \<lparr>exact = par_modifiers par, pMask = None\<rparr>"
  by (auto simp: CreateGrab_def Let_def split: option.splits)

lemma split_grab_Ret:
  assumes run: "split_grab env ids M g (True, p) = Ret (True, p')"
    and ok: "grab_ok g" "fake_ok env" "any_modifier M = any_modifier g"
    and any: "exact (modifiersDetail g) = any_modifier g" "exact (modifiersDetail M) \<noteq> any_modifier g"
      "exact (g_detail M) \<noteq> AnyKey" "unat (exact (g_detail M)) < 256"
    and len: "length ids + length (adds p) \<le> fake_bound"
  shows "\<exists>n. p' = p\<lparr>adds := adds p @ [n]\<rparr> \<and>
    combos n = {exact (g_detail M)} \<times>
      (detail_set (any_modifier g) (modifiersDetail g) - {exact (modifiersDetail M)}) \<and>
    grab_ok n \<and> like env n g \<and> g_resource n \<notin> set (ids @ map g_resource (adds p))"
proof -
  let ?c = "CreateGrab env (dixClientIdForXID (limit env) (g_resource g)) (ids @ map g_resource (adds p))
              (g_device g) (modifierDevice g) (g_window g) (grabtype g) (mask_of_grab g)
              \<lparr>par_ownerEvents = ownerEvents g, this_device_mode = keyboardMode g,
                other_devices_mode = pointerMode g, par_modifiers = any_modifier M\<rparr>
              (g_type g) (ucast (exact (g_detail M))) (confineTo g) (g_cursor g)"
  obtain n m where n: "?c = Ret n"
    and m: "DeleteDetailFromMask (grab_mem env (AllocNewMask (g_resource g))) (pMask (modifiersDetail g))
      (exact (modifiersDetail M)) = Ret m"
    and p': "p' = p\<lparr>adds := adds p @ [set_mask ModifierMask m n]\<rparr>"
    using run by (auto simp: split_grab_def split: outcome.splits if_splits)
  have "grabtype g \<noteq> XI2"
    using n by (auto simp: CreateGrab_def mask_of_grab_def Let_def split: option.splits)
  note f = CreateGrab_Ret [OF n this, simplified, unfolded keycode_id [OF any(4)]]
  have "detail_ok (any_modifier g) (modifiersDetail g)" using ok(1) by (simp add: grab_ok_def)
  note D = DeleteDetailFromMask_Ret [OF m this any(1,2)]
  have am: "any_modifier n = any_modifier g" using f by (simp add: any_modifier_def)
  have md: "(modifiersDetail g)\<lparr>pMask := Some m\<rparr> = \<lparr>exact = any_modifier g, pMask = Some m\<rparr>"
    using any(1) by simp
  have k: "detail_set AnyKey \<lparr>exact = exact (g_detail M), pMask = None\<rparr> = {exact (g_detail M)}"
    using any(3,4) by (auto simp: detail_set_def)
  have "combos (set_mask ModifierMask m n) = {exact (g_detail M)} \<times>
      (detail_set (any_modifier g) (modifiersDetail g) - {exact (modifiersDetail M)})"
    using D k f am ok(3) by (simp add: combos_def set_mask_def any_modifier_def md)
  moreover have "grab_ok (set_mask ModifierMask m n)"
    using D f am ok(3) any(3,4) by (simp add: grab_ok_def set_mask_def any_modifier_def md detail_ok_def)
  moreover have "like env (set_mask ModifierMask m n) g"
    using f ok(2) by (simp add: like_def fake_ok_def)
  moreover have "g_resource (set_mask ModifierMask m n) \<notin> set (ids @ map g_resource (adds p))"
  proof -
    have "length (ids @ map g_resource (adds p)) \<le> fake_bound" using len by simp
    then show ?thesis using f ok(2) unfolding set_mask_frame fake_ok_def by metis
  qed
  ultimately show ?thesis using p' by blast
qed

text \<open>What a detail that is not superseded by another without mask looks like.\<close>

lemma detail_cases:
  assumes "DetailSupersedesSecond a b any \<or> DetailSupersedesSecond b a any" "pMask b = None"
    "detail_ok any a" "detail_ok any b"
  obtains (sup) "DetailSupersedesSecond b a any" "detail_set any a \<subseteq> detail_set any b"
  | (cut) "\<not> DetailSupersedesSecond b a any" "exact a = any" "exact b \<noteq> any" "exact b \<in> detail_set any a"
      "detail_set any b = {exact b}"
proof (cases "DetailSupersedesSecond b a any")
  case True
  then show ?thesis using sup supersedes_subset [OF _ assms(2,3)] by blast
next
  case False
  then have f: "exact a = any" "exact b \<noteq> any" "IsInGrabMask a b any"
    using assms(1,2) False
    by (auto simp: DetailSupersedesSecond_def IsInGrabMask_def IdenticalExactDetails_def
        split: if_splits option.splits)
  moreover have "exact b \<in> detail_set any a" "detail_set any b = {exact b}"
    using f assms(4) by (auto simp: detail_set_def IsInGrabMask_def detail_ok_def split: option.splits if_splits)
  ultimately show ?thesis using cut False by blast
qed

lemma supersedes_exact:
  "DetailSupersedesSecond b a any \<Longrightarrow> exact a = any \<Longrightarrow> exact b = any"
  by (auto simp: DetailSupersedesSecond_def IsInGrabMask_def IdenticalExactDetails_def split: if_splits)

lemma any_key_eq [simp]: "any_key g = AnyKey"
  by (simp add: any_key_def AnyKey_def XIAnyKeycode_def)

text \<open>
  What the plan does with one grab of the list: \<open>D\<close>, \<open>A\<close> and \<open>U\<close> are what it adds to the three
  lists; the remains of the grab are exactly what the other grab does not claim.
\<close>

definition remains :: "u32 list \<Rightarrow> (u32 \<times> mask_slot \<times> Mask list) list \<Rightarrow> GrabRec \<Rightarrow> (u32 \<times> u32) set" where
  "remains D U g = (if g_resource g \<in> set D then {} else combos (upd U g))"

lemma plan_grab_sound:
  assumes run: "plan_grab env ids M g p = Ret (True, p')"
    and ok: "grab_ok g" "grab_ok M" "mask_free M" "fake_ok env"
    and len: "length ids + length (adds p) \<le> fake_bound"
  shows "\<exists>D A U. p' = p\<lparr>deletes := deletes p @ D, adds := adds p @ A, updates := updates p @ U\<rparr> \<and>
    set D \<subseteq> {g_resource g} \<and> fst ` set U \<subseteq> {g_resource g} \<and> grab_ok (upd U g) \<and>
    (same_claim env M g \<longrightarrow> remains D U g \<union> \<Union> (combos ` set A) = combos g - combos M) \<and>
    (\<not> same_claim env M g \<longrightarrow> D = [] \<and> A = [] \<and> U = []) \<and>
    (\<forall>n \<in> set A. grab_ok n \<and> like env n g \<and>
       g_resource n \<notin> set (ids @ map g_resource (adds p))) \<and> length A \<le> 1"
    (is "\<exists>D A U. ?P D A U")
proof -
  have ex: "\<exists>D A U. ?P D A U" if "?P D A U" for D A U 
    by (rule exI [of _ D], rule exI [of _ A], rule exI [of _ U], rule that)
  show ?thesis
  proof (cases "owner env g = owner env M \<and> GrabMatchesSecond env g M (grabtype g = CORE)")
  case False
  then have "p' = p" using run by (auto simp: plan_grab_def)
  moreover have "combos g \<inter> combos M = {}" if "same_claim env M g"
    using that False not_matches_disjoint [of env g M] ok(3) by (auto simp: same_claim_def)
  ultimately have "?P [] [] []" using ok(1) by (auto simp: remains_def)
  then show ?thesis by (rule ex)
next
  case match: True
  let ?K = "detail_set AnyKey (g_detail g)" and ?B = "detail_set (any_modifier g) (modifiersDetail g)"
  let ?MK = "detail_set AnyKey (g_detail M)" and ?MB = "detail_set (any_modifier g) (modifiersDetail M)"
  let ?d = "exact (g_detail M)" and ?m = "exact (modifiersDetail M)"
  have same: "same_claim env M g" using match by (simp add: same_claim_def GrabMatchesSecond_iff)
  then have am: "any_modifier M = any_modifier g" by (simp add: same_claim_def compat_def any_modifier_def)
  have c: "combos g = ?K \<times> ?B" "combos M = ?MK \<times> ?MB" by (simp_all add: combos_def am)
  have od: "detail_ok AnyKey (g_detail g)" "detail_ok AnyKey (g_detail M)"
    and om: "detail_ok (any_modifier g) (modifiersDetail g)" "detail_ok (any_modifier g) (modifiersDetail M)"
    and mf: "pMask (g_detail M) = None" "pMask (modifiersDetail M) = None"
    using ok am by (simp_all add: grab_ok_def mask_free_def)
  have sd: "DetailSupersedesSecond (g_detail g) (g_detail M) AnyKey \<or> DetailSupersedesSecond (g_detail M) (g_detail g) AnyKey"
    and sm: "DetailSupersedesSecond (modifiersDetail g) (modifiersDetail M) (any_modifier g) \<or>
      DetailSupersedesSecond (modifiersDetail M) (modifiersDetail g) (any_modifier g)"
    using match by (simp_all add: GrabMatchesSecond_iff)
  have sup_iff: "GrabSupersedesSecond M g \<longleftrightarrow>
      DetailSupersedesSecond (modifiersDetail M) (modifiersDetail g) (any_modifier g) \<and>
      DetailSupersedesSecond (g_detail M) (g_detail g) AnyKey"
    by (simp add: GrabSupersedesSecond_def am)
  have skip: "\<not> (owner env g \<noteq> owner env M \<or> \<not> GrabMatchesSecond env g M (grabtype g = CORE))"
    using match by simp
  note plan = run [unfolded plan_grab_def Let_def any_key_eq am if_not_P [OF skip]]
  have by_detail: ?thesis
    if u: "UPDATE env g DetailMask ?d p = Ret (True, p')" and e: "exact (g_detail g) = AnyKey" "?d \<noteq> AnyKey"
      "?MK = {?d}" "?B \<subseteq> ?MB"
  proof -
    obtain m where m: "p' = p\<lparr>updates := updates p @ [(g_resource g, DetailMask, m)]\<rparr>"
        "combos (set_mask DetailMask m g) = (?K - {?d}) \<times> ?B" "grab_ok (set_mask DetailMask m g)"
      using UPDATE_detail [OF u ok(1) e(1,2)] by blast
    have "combos (set_mask DetailMask m g) = combos g - combos M"
      unfolding m(2) c e(3) using e(4) by blast
    then have "?P [] [] [(g_resource g, DetailMask, m)]"
      using m(1,3) same by (simp add: remains_def upd_Cons)
    then show ?thesis by (rule ex)
  qed
  have by_modifier: ?thesis
    if u: "UPDATE env g ModifierMask ?m p = Ret (True, p')" and e: "exact (modifiersDetail g) = any_modifier g"
      "?m \<noteq> any_modifier g" "?MB = {?m}" "?K \<subseteq> ?MK"
  proof -
    obtain m where m: "p' = p\<lparr>updates := updates p @ [(g_resource g, ModifierMask, m)]\<rparr>"
        "combos (set_mask ModifierMask m g) = ?K \<times> (?B - {?m})" "grab_ok (set_mask ModifierMask m g)"
      using UPDATE_modifier [OF u ok(1) e(1,2)] by blast
    have "combos (set_mask ModifierMask m g) = combos g - combos M"
      unfolding m(2) c e(3) using e(4) by blast
    then have "?P [] [] [(g_resource g, ModifierMask, m)]"
      using m(1,3) same by (simp add: remains_def upd_Cons)
    then show ?thesis by (rule ex)
  qed
  show ?thesis
    using sd mf(1) od
  proof (cases rule: detail_cases)
    case sup
    note dsup = sup
    show ?thesis
      using sm mf(2) om
    proof (cases rule: detail_cases)
      case sup
      then have "p' = p\<lparr>deletes := deletes p @ [g_resource g]\<rparr>"
        using plan dsup by (simp add: sup_iff)
      moreover have "combos g \<subseteq> combos M" unfolding c using sup(2) dsup(2) by (rule Sigma_mono [rotated])
      ultimately have "?P [g_resource g] [] []" using ok(1) same by (simp add: remains_def)
      then show ?thesis by (rule ex)
    next
      case cut
      have "UPDATE env g ModifierMask ?m p = Ret (True, p')"
        using plan cut(1-3) supersedes_exact [OF dsup(1)]
        by (simp add: sup_iff split: if_splits)
      then show ?thesis using cut(2,3,5) dsup(2) by (rule by_modifier)
    qed
  next
    case cut
    note dcut = cut
    show ?thesis
      using sm mf(2) om
    proof (cases rule: detail_cases)
      case sup
      have "UPDATE env g DetailMask ?d p = Ret (True, p')"
        using plan dcut(1-3) supersedes_exact [OF sup(1)]
        by (simp add: sup_iff split: if_splits)
      then show ?thesis using dcut(2,3,5) sup(2) by (rule by_detail)
    next
      case cut
      obtain okf p1 where p1: "UPDATE env g DetailMask ?d p = Ret (okf, p1)" "split_grab env ids M g (okf, p1) = Ret (True, p')"
        using plan dcut(1-3) cut(1-3) by (auto simp: sup_iff split: outcome.splits)
      have okf by (use p1(2) in \<open>cases okf\<close>) (auto simp: split_grab_def split: outcome.splits if_splits)
      then have u: "UPDATE env g DetailMask ?d p = Ret (True, p1)" and sp: "split_grab env ids M g (True, p1) = Ret (True, p')"
        using p1 by simp_all
      obtain m where m: "p1 = p\<lparr>updates := updates p @ [(g_resource g, DetailMask, m)]\<rparr>"
          "combos (set_mask DetailMask m g) = (?K - {?d}) \<times> ?B" "grab_ok (set_mask DetailMask m g)"
        using UPDATE_detail [OF u ok(1) dcut(2,3)] by blast
      have "unat ?d < 256" using od(2) dcut(3) by (simp add: detail_ok_def)
      moreover have "length ids + length (adds p1) \<le> fake_bound" using len m(1) by simp
      ultimately
      obtain n where n: "p' = p1\<lparr>adds := adds p1 @ [n]\<rparr>" "combos n = {?d} \<times> (?B - {?m})" "grab_ok n"
          "like env n g" "g_resource n \<notin> set (ids @ map g_resource (adds p1))"
        using split_grab_Ret [OF sp ok(1) ok(4) am cut(2,3) dcut(3)] by blast
      have "combos (set_mask DetailMask m g) \<union> combos n = combos g - combos M"
        unfolding m(2) n(2) c dcut(5) cut(5) using dcut(4) cut(4) by blast
      then have "?P [] [n] [(g_resource g, DetailMask, m)]"
        using m(1,3) n same by (simp add: remains_def upd_Cons)
      then show ?thesis by (rule ex)
    qed
  qed
qed
qed

lemma upd_like: "like env (upd us g) g"
  by (simp add: like_def)

lemma union_minus: "A = B - M \<Longrightarrow> C = D - M \<Longrightarrow> A \<union> C = (B \<union> D) - (M :: 'a set)"
  by blast

lemma plan_grabs_sound:
  assumes run: "plan_grabs env ids M gs p = Ret (True, p')"
    and list: "distinct (map g_resource gs)" "\<forall>g \<in> set gs. grab_ok g" "g_resource ` set gs \<subseteq> set ids"
    and ok: "grab_ok M" "mask_free M" "fake_ok env"
    and adds: "distinct (map g_resource (adds p))" "set (map g_resource (adds p)) \<inter> set ids = {}"
    and len: "length ids + length (adds p) + length gs \<le> fake_bound"
  shows "\<exists>D A U. p' = p\<lparr>deletes := deletes p @ D, adds := adds p @ A, updates := updates p @ U\<rparr> \<and>
    set D \<subseteq> g_resource ` set gs \<and> fst ` set U \<subseteq> g_resource ` set gs \<and> (\<forall>g \<in> set gs. grab_ok (upd U g)) \<and>
    (\<Union>g \<in> {g \<in> set gs. same_claim env M g}. remains D U g) \<union> \<Union> (combos ` set A) =
      (\<Union>g \<in> {g \<in> set gs. same_claim env M g}. combos g) - combos M \<and>
    (\<forall>g \<in> set gs. (\<not> same_claim env M g \<longrightarrow> g_resource g \<notin> set D \<and> upd U g = g) \<and> remains D U g \<subseteq> combos g) \<and>
    (\<forall>n \<in> set A. grab_ok n \<and> (\<exists>g \<in> set gs. like env n g \<and> same_claim env M g \<and> combos n \<subseteq> combos g)) \<and>
    distinct (map g_resource (adds p @ A)) \<and> set (map g_resource A) \<inter> set ids = {}"
  using run list adds len
proof (induction gs arbitrary: p)
  case Nil
  then show ?case by (intro exI [of _ "[]"]) simp
next
  case (Cons g gs)
  obtain p1 where p1: "plan_grab env ids M g p = Ret (True, p1)" "plan_grabs env ids M gs p1 = Ret (True, p')"
    using Cons.prems(1) by (auto split: outcome.splits bool.splits)
  obtain D1 A1 U1 where s1: "p1 = p\<lparr>deletes := deletes p @ D1, adds := adds p @ A1, updates := updates p @ U1\<rparr>"
      "set D1 \<subseteq> {g_resource g}" "fst ` set U1 \<subseteq> {g_resource g}" "grab_ok (upd U1 g)"
      "same_claim env M g \<Longrightarrow> remains D1 U1 g \<union> \<Union> (combos ` set A1) = combos g - combos M"
      "\<not> same_claim env M g \<Longrightarrow> D1 = [] \<and> A1 = [] \<and> U1 = []"
      "\<forall>n \<in> set A1. grab_ok n \<and> like env n g \<and> g_resource n \<notin> set (ids @ map g_resource (adds p))" "length A1 \<le> 1"
    using plan_grab_sound [OF p1(1) _ ok] Cons.prems(3,7) by auto
  have dA: "distinct (map g_resource (adds p1))" "set (map g_resource (adds p1)) \<inter> set ids = {}"
    using s1(1,7,8) Cons.prems(5,6) by (cases A1; auto)+
  obtain D2 A2 U2 where s2: "p' = p1\<lparr>deletes := deletes p1 @ D2, adds := adds p1 @ A2, updates := updates p1 @ U2\<rparr>"
      "set D2 \<subseteq> g_resource ` set gs" "fst ` set U2 \<subseteq> g_resource ` set gs" "\<forall>g \<in> set gs. grab_ok (upd U2 g)"
      "(\<Union>g \<in> {g \<in> set gs. same_claim env M g}. remains D2 U2 g) \<union> \<Union> (combos ` set A2) =
        (\<Union>g \<in> {g \<in> set gs. same_claim env M g}. combos g) - combos M"
      "\<forall>g \<in> set gs. (\<not> same_claim env M g \<longrightarrow> g_resource g \<notin> set D2 \<and> upd U2 g = g) \<and> remains D2 U2 g \<subseteq> combos g"
      "\<forall>n \<in> set A2. grab_ok n \<and> (\<exists>g \<in> set gs. like env n g \<and> same_claim env M g \<and> combos n \<subseteq> combos g)"
      "distinct (map g_resource (adds p1 @ A2))" "set (map g_resource A2) \<inter> set ids = {}"
    using Cons.IH [OF p1(2) _ _ _ dA] Cons.prems(2,3,4,7) s1(1,8) by auto
  have fresh: "g_resource g \<notin> g_resource ` set gs" using Cons.prems(2) by simp
  have hd: "upd (U1 @ U2) g = upd U1 g" "remains (D1 @ D2) (U1 @ U2) g = remains D1 U1 g"
  proof -
    have "g_resource (upd U1 g) \<notin> fst ` set U2" using s2(3) fresh by auto
    then show "upd (U1 @ U2) g = upd U1 g" by (simp add: upd_append upd_other)
    then show "remains (D1 @ D2) (U1 @ U2) g = remains D1 U1 g" using s2(2) fresh by (auto simp: remains_def)
  qed
  have tl: "upd (U1 @ U2) h = upd U2 h \<and> remains (D1 @ D2) (U1 @ U2) h = remains D2 U2 h \<and>
      (g_resource h \<in> set (D1 @ D2) \<longleftrightarrow> g_resource h \<in> set D2)" if "h \<in> set gs" for h
  proof -
    have "g_resource h \<noteq> g_resource g" using that fresh by (metis imageI)
    then have "g_resource h \<notin> fst ` set U1" "g_resource h \<notin> set D1" using s1(2,3) by auto
    then show ?thesis by (simp add: upd_append upd_other remains_def)
  qed
  have sub1: "remains D1 U1 g \<subseteq> combos g" "\<forall>n \<in> set A1. combos n \<subseteq> combos g \<and> same_claim env M g"
  proof -
    show "remains D1 U1 g \<subseteq> combos g"
      using s1(5,6) by (cases "same_claim env M g") (auto simp: remains_def)
    show "\<forall>n \<in> set A1. combos n \<subseteq> combos g \<and> same_claim env M g"
      using s1(5,6) by (cases "same_claim env M g") auto
  qed
  have tail: "(\<Union>h \<in> {h \<in> set gs. same_claim env M h}. remains (D1 @ D2) (U1 @ U2) h) =
      (\<Union>h \<in> {h \<in> set gs. same_claim env M h}. remains D2 U2 h)"
    using tl by (intro SUP_cong) auto
  have claim: "(\<Union>h \<in> {h \<in> set (g # gs). same_claim env M h}. remains (D1 @ D2) (U1 @ U2) h) \<union> \<Union> (combos ` set (A1 @ A2)) =
      (\<Union>h \<in> {h \<in> set (g # gs). same_claim env M h}. combos h) - combos M"
  proof (cases "same_claim env M g")
    case True
    have eq: "{h \<in> set (g # gs). same_claim env M h} = insert g {h \<in> set gs. same_claim env M h}" using True by auto
    show ?thesis
      unfolding eq UN_insert hd(2) tail
      using union_minus [OF s1(5) [OF True] s2(5)] by (auto simp: image_Un)
  next
    case False
    then have eq: "{h \<in> set (g # gs). same_claim env M h} = {h \<in> set gs. same_claim env M h}" by auto
    show ?thesis unfolding eq tail using s2(5) s1(6) [OF False] by simp
  qed
  have "p' = p\<lparr>deletes := deletes p @ (D1 @ D2), adds := adds p @ (A1 @ A2), updates := updates p @ (U1 @ U2)\<rparr>"
    using s1(1) s2(1) by simp
  moreover have "set (D1 @ D2) \<subseteq> g_resource ` set (g # gs)" "fst ` set (U1 @ U2) \<subseteq> g_resource ` set (g # gs)"
    using s1(2,3) s2(2,3) by auto
  moreover have "\<forall>h \<in> set (g # gs). grab_ok (upd (U1 @ U2) h)" using hd tl s1(4) s2(4) by simp
  moreover have "\<forall>h \<in> set (g # gs). (\<not> same_claim env M h \<longrightarrow>
      g_resource h \<notin> set (D1 @ D2) \<and> upd (U1 @ U2) h = h) \<and> remains (D1 @ D2) (U1 @ U2) h \<subseteq> combos h"
  proof
    fix h assume "h \<in> set (g # gs)"
    then consider "h = g" | "h \<in> set gs" by auto
    then show "(\<not> same_claim env M h \<longrightarrow> g_resource h \<notin> set (D1 @ D2) \<and> upd (U1 @ U2) h = h) \<and>
        remains (D1 @ D2) (U1 @ U2) h \<subseteq> combos h"
    proof cases
      case 1
      then show ?thesis using hd sub1 s1(6) s2(2) fresh by auto
    next
      case 2
      then show ?thesis using tl [OF 2] s2(6) by auto
    qed
  qed
  moreover have "\<forall>n \<in> set (A1 @ A2). grab_ok n \<and>
      (\<exists>h \<in> set (g # gs). like env n h \<and> same_claim env M h \<and> combos n \<subseteq> combos h)"
    using s1(7) s2(7) sub1(2) by auto
  moreover have "distinct (map g_resource (adds p @ (A1 @ A2)))" "set (map g_resource (A1 @ A2)) \<inter> set ids = {}"
    using s2(8,9) s1(1,7) by auto
  ultimately show ?case
    by (intro exI [of _ "D1 @ D2"] exI [of _ "A1 @ A2"] exI [of _ "U1 @ U2"] conjI claim)
qed

section \<open>Deleting subtracts\<close>

definition list_ok :: "GrabRec list \<Rightarrow> bool" where
  "list_ok gs \<longleftrightarrow> distinct (map g_resource gs) \<and> (\<forall>g \<in> set gs. grab_ok g)"

text \<open>All that the client of \<open>M\<close> claims on \<open>M\<close>'s device and event.\<close>

definition claims :: "grab_env \<Rightarrow> GrabRec \<Rightarrow> GrabRec list \<Rightarrow> (u32 \<times> u32) set" where
  "claims env M gs = (\<Union>g \<in> {g \<in> set gs. same_claim env M g}. combos g)"

lemma DeletePassiveGrabFromList_Ret:
  assumes run: "DeletePassiveGrabFromList env used M gs = Ret (True, gs')"
    and list: "list_ok gs" and ok: "grab_ok M" "mask_free M" "fake_ok env"
    and len: "length used + 2 * length gs \<le> fake_bound"
  shows "claims env M gs' = claims env M gs - combos M \<and>
    filter (\<lambda>g. \<not> same_claim env M g) gs' = filter (\<lambda>g. \<not> same_claim env M g) gs \<and> list_ok gs' \<and>
    (\<forall>n \<in> set gs'. \<exists>g \<in> set gs. like env n g \<and> combos n \<subseteq> combos g) \<and>
    g_resource ` set gs' \<inter> set used \<subseteq> g_resource ` set gs"
proof (cases "gs = []")
  case True
  then show ?thesis using run by (simp add: DeletePassiveGrabFromList_def claims_def list_ok_def)
next
  case False
  define p0 where "p0 = \<lparr>deletes = [] :: u32 list, adds = [] :: GrabRec list, updates = []\<rparr>"
  have p0: "deletes p0 = []" "adds p0 = []" "updates p0 = []" by (simp_all add: p0_def)
  obtain p where p: "plan_grabs env (used @ map g_resource gs) M gs p0 = Ret (True, p)" "gs' = apply_plan p gs"
    using run False by (auto simp: DeletePassiveGrabFromList_def p0_def split: outcome.splits if_splits)
  have "distinct (map g_resource gs)" "\<forall>g \<in> set gs. grab_ok g"
      "g_resource ` set gs \<subseteq> set (used @ map g_resource gs)"
      "distinct (map g_resource (adds p0))" "set (map g_resource (adds p0)) \<inter> set (used @ map g_resource gs) = {}"
      "length (used @ map g_resource gs) + length (adds p0) + length gs \<le> fake_bound"
    using list p0 len by (auto simp: list_ok_def)
  from plan_grabs_sound [OF p(1) this(1-3) ok this(4-6)] obtain D A U where pl:
      "p = p0\<lparr>deletes := deletes p0 @ D, adds := adds p0 @ A, updates := updates p0 @ U\<rparr>"
      "set D \<subseteq> g_resource ` set gs" "fst ` set U \<subseteq> g_resource ` set gs" "\<forall>g \<in> set gs. grab_ok (upd U g)"
      "(\<Union>g \<in> {g \<in> set gs. same_claim env M g}. remains D U g) \<union> \<Union> (combos ` set A) =
        (\<Union>g \<in> {g \<in> set gs. same_claim env M g}. combos g) - combos M"
      "\<forall>g \<in> set gs. (\<not> same_claim env M g \<longrightarrow> g_resource g \<notin> set D \<and> upd U g = g) \<and> remains D U g \<subseteq> combos g"
      "\<forall>n \<in> set A. grab_ok n \<and> (\<exists>g \<in> set gs. like env n g \<and> same_claim env M g \<and> combos n \<subseteq> combos g)"
      "distinct (map g_resource (adds p0 @ A))" "set (map g_resource A) \<inter> set (used @ map g_resource gs) = {}"
    by (elim exE conjE) (rule that, assumption+)
  let ?keep = "filter (\<lambda>g. g_resource g \<notin> set D) gs"
  have A: "upd U n = n" if "n \<in> set A" for n using that pl(3,9) by (intro upd_other) auto
  have gs': "gs' = rev A @ map (upd U) ?keep"
  proof -
    have "map (upd U) (rev A) = rev A" using A by (intro map_idI) simp
    then show ?thesis using apply_plan_eq [of gs p] list p(2) pl(1) p0 by (simp add: list_ok_def)
  qed
  have sA: "same_claim env M n" if "n \<in> set A" for n using pl(7) that like_same_claim by blast
  have "claims env M gs' = claims env M gs - combos M"
  proof -
    have "claims env M gs' = \<Union> (combos ` set A) \<union> (\<Union>g \<in> {g \<in> set ?keep. same_claim env M g}. combos (upd U g))"
      using sA by (auto simp: claims_def gs')
    also have "(\<Union>g \<in> {g \<in> set ?keep. same_claim env M g}. combos (upd U g)) =
        (\<Union>g \<in> {g \<in> set gs. same_claim env M g}. remains D U g)"
      by (auto simp: remains_def split: if_splits)
    finally show ?thesis using pl(5) by (simp add: claims_def Un_commute)
  qed
  moreover have "filter (\<lambda>g. \<not> same_claim env M g) gs' = filter (\<lambda>g. \<not> same_claim env M g) gs"
  proof -
    have "filter (\<lambda>g. \<not> same_claim env M g) (rev A) = []" using sA by (simp add: filter_empty_conv)
    moreover have "filter (\<lambda>g. \<not> same_claim env M g) (map (upd U) ?keep) =
        map (upd U) (filter (\<lambda>g. \<not> same_claim env M g) ?keep)" by (simp add: filter_map comp_def)
    moreover have "filter (\<lambda>g. \<not> same_claim env M g) ?keep = filter (\<lambda>g. \<not> same_claim env M g) gs"
      using pl(6) by (auto simp: filter_filter intro: filter_cong)
    moreover have "map (upd U) (filter (\<lambda>g. \<not> same_claim env M g) gs) = filter (\<lambda>g. \<not> same_claim env M g) gs"
      using pl(6) by (intro map_idI) simp
    ultimately show ?thesis by (simp add: gs')
  qed
  moreover have "list_ok gs'"
  proof -
    have "map g_resource gs' = rev (map g_resource A) @ map g_resource ?keep" by (simp add: gs' rev_map comp_def)
    moreover have "distinct (map g_resource A)" using pl(8) p0 by simp
    ultimately have "distinct (map g_resource gs')"
      using pl(9) list by (auto simp: list_ok_def distinct_map_filter)
    then show ?thesis using pl(4,7) by (auto simp: list_ok_def gs')
  qed
  moreover have "\<exists>g \<in> set gs. like env n g \<and> combos n \<subseteq> combos g" if n: "n \<in> set gs'" for n
  proof -
    consider "n \<in> set A" | g where "g \<in> set gs" "g_resource g \<notin> set D" "n = upd U g" using n by (auto simp: gs')
    then show ?thesis
    proof cases
      case 1
      then show ?thesis using pl(7) by blast
    next
      case 2
      then have "combos n \<subseteq> combos g" using pl(6) by (metis remains_def)
      then show ?thesis using 2 upd_like by blast
    qed
  qed
  moreover have "g_resource ` set gs' \<inter> set used \<subseteq> g_resource ` set gs"
    using pl(9) by (auto simp: gs')
  ultimately show ?thesis by blast
qed

text \<open>Where memory suffices and no XI2 grab is split, the deletion returns.\<close>

lemma DeleteDetailFromMask_total:
  "unat d < 256 \<Longrightarrow> \<exists>m. DeleteDetailFromMask True pm d = Ret m"
  by (simp add: DeleteDetailFromMask_def MASKIDX_def MasksPerDetailMask_def)

lemma UPDATE_total:
  assumes "\<forall>a. grab_mem env a" "unat d < 256"
  shows "\<exists>p'. UPDATE env g slot d p = Ret (True, p')"
proof -
  obtain m where "DeleteDetailFromMask True (case slot of DetailMask \<Rightarrow> pMask (g_detail g)
      | ModifierMask \<Rightarrow> pMask (modifiersDetail g)) d = Ret m"
    using DeleteDetailFromMask_total [OF assms(2)] by blast
  then show ?thesis using assms(1) by (simp add: UPDATE_def)
qed

lemma split_grab_total:
  assumes mem: "\<forall>a. grab_mem env a" and "grabtype g \<noteq> XI2" "unat (exact (modifiersDetail M)) < 256"
  shows "\<exists>p'. split_grab env ids M g (True, p) = Ret (True, p')"
proof -
  obtain m where "DeleteDetailFromMask True (pMask (modifiersDetail g)) (exact (modifiersDetail M)) = Ret m"
    using DeleteDetailFromMask_total [OF assms(3)] by blast
  then show ?thesis
    using mem assms(2)
    by (simp add: split_grab_def CreateGrab_def AllocGrab_def Let_def)
qed

lemma plan_grab_total:
  assumes mem: "\<forall>a. grab_mem env a" and "grabtype M \<noteq> XI2" "grab_ok M" "mask_free M"
  shows "\<exists>p'. plan_grab env ids M g p = Ret (True, p')"
proof (cases "owner env g = owner env M \<and> GrabMatchesSecond env g M (grabtype g = CORE) \<and> \<not> GrabSupersedesSecond M g")
  case True
  let ?d = "exact (g_detail M)" and ?m = "exact (modifiersDetail M)"
  have lvl: "grabtype g \<noteq> XI2" and am: "any_modifier g = any_modifier M"
    using True assms(2) by (auto simp: GrabMatchesSecond_iff compat_def any_modifier_def)
  have d: "unat ?d < 256" and m: "?m \<noteq> any_modifier M \<Longrightarrow> unat ?m < 256"
    using assms(3) by (auto simp: grab_ok_def detail_ok_def AnyKey_def)
  have nm: "?m \<noteq> any_modifier M" if "exact (modifiersDetail g) = any_modifier M"
      "exact (g_detail g) \<noteq> AnyKey \<or> ?d = AnyKey"
  proof
    assume "?m = any_modifier M"
    then have "DetailSupersedesSecond (modifiersDetail M) (modifiersDetail g) (any_modifier M)"
      using assms(4) by (simp add: DetailSupersedesSecond_def IsInGrabMask_def mask_free_def)
    moreover have "DetailSupersedesSecond (g_detail M) (g_detail g) AnyKey"
      using that(2) True assms(4)
      by (auto simp: GrabMatchesSecond_iff DetailSupersedesSecond_def IsInGrabMask_def IdenticalExactDetails_def
          mask_free_def)
    ultimately show False using True by (simp add: GrabSupersedesSecond_def)
  qed
  note U = UPDATE_total [OF mem]
  have skip: "\<not> (owner env g \<noteq> owner env M \<or> \<not> GrabMatchesSecond env g M (grabtype g = CORE))"
      "\<not> GrabSupersedesSecond M g"
    using True by simp_all
  consider (1) "exact (g_detail g) = AnyKey" "exact (modifiersDetail g) \<noteq> any_modifier M"
    | (2) "exact (g_detail g) \<noteq> AnyKey" "exact (modifiersDetail g) = any_modifier M"
    | (3) "\<not> (exact (g_detail g) = AnyKey \<and> exact (modifiersDetail g) \<noteq> any_modifier M)"
      "\<not> (exact (modifiersDetail g) = any_modifier M \<and> exact (g_detail g) \<noteq> AnyKey)"
      "?d \<noteq> AnyKey" "?m \<noteq> any_modifier M"
    | (4) "exact (g_detail g) = AnyKey" "exact (modifiersDetail g) = any_modifier M" "?d = AnyKey"
    | (5) "\<not> (exact (g_detail g) = AnyKey \<and> exact (modifiersDetail g) \<noteq> any_modifier M)"
      "\<not> (exact (modifiersDetail g) = any_modifier M \<and> exact (g_detail g) \<noteq> AnyKey)"
      "?d \<noteq> AnyKey" "?m = any_modifier M"
    | (6) "exact (g_detail g) \<noteq> AnyKey" "exact (modifiersDetail g) \<noteq> any_modifier M" "?d = AnyKey"
    by blast
  then show ?thesis
  proof cases
    case 3
    obtain p1 where p1: "UPDATE env g DetailMask ?d p = Ret (True, p1)" using U [OF d] by blast
    obtain p2 where "split_grab env ids M g (True, p1) = Ret (True, p2)"
      using split_grab_total [OF mem lvl m [OF 3(4)]] by blast
    then show ?thesis
      unfolding plan_grab_def Let_def any_key_eq if_not_P [OF skip(1)] if_not_P [OF skip(2)] if_not_P [OF 3(1)] if_not_P [OF 3(2)]
      using 3(3,4) p1 by simp
  next
    case 6
    have "GrabSupersedesSecond M g"
      using 6 True assms(4) am
      by (auto simp: GrabMatchesSecond_iff GrabSupersedesSecond_def DetailSupersedesSecond_def IsInGrabMask_def
          IdenticalExactDetails_def mask_free_def split: if_splits)
    then show ?thesis using skip(2) by simp
  qed (use U d m nm in \<open>auto simp: plan_grab_def skip Let_def\<close>)
qed (auto simp: plan_grab_def Let_def)

lemma plan_grabs_total:
  assumes "\<forall>a. grab_mem env a" "grabtype M \<noteq> XI2" "grab_ok M" "mask_free M"
  shows "\<exists>p'. plan_grabs env ids M gs p = Ret (True, p')"
proof (induction gs arbitrary: p)
  case (Cons g gs)
  then show ?case using plan_grab_total [OF assms, of ids g p] by fastforce
qed simp

text \<open>C13: Ungrabbing subtracts: after a core or XI1 ungrab (any combination of exact or arbitrary key
  and modifiers), with memory for the copies, exactly the pairs the ungrab names are no longer
  claimed by this client on that device and event, whether a grab had to be deleted, its key or
  modifier mask reduced, or a new grab split off; all other grabs are the same, in the same order.\<close>
theorem ungrab_subtracts:
  assumes "\<forall>a. grab_mem env a" "fake_ok env" "list_ok gs"
    and "grabtype M \<noteq> XI2" "grab_ok M" "mask_free M" "length used + 2 * length gs \<le> fake_bound"
  shows "\<exists>gs'. DeletePassiveGrabFromList env used M gs = Ret (True, gs') \<and>
    claims env M gs' = claims env M gs - combos M \<and>
    filter (\<lambda>g. \<not> same_claim env M g) gs' = filter (\<lambda>g. \<not> same_claim env M g) gs \<and> list_ok gs'"
proof -
  have "\<exists>gs'. DeletePassiveGrabFromList env used M gs = Ret (True, gs')"
  proof -
    obtain p where "plan_grabs env (used @ map g_resource gs) M gs \<lparr>deletes = [], adds = [], updates = []\<rparr> = Ret (True, p)"
      using plan_grabs_total [OF assms(1,4,5,6)] by blast
    then show ?thesis using assms(1) by (simp add: DeletePassiveGrabFromList_def)
  qed
  then show ?thesis using DeletePassiveGrabFromList_Ret [OF _ assms(3,5,6,2,7)] by blast
qed

section \<open>Grabs are exclusive\<close>

definition exclusive :: "grab_env \<Rightarrow> GrabRec list \<Rightarrow> bool" where
  "exclusive env gs \<longleftrightarrow> (\<forall>g \<in> set gs. \<forall>h \<in> set gs.
     owner env g \<noteq> owner env h \<and> compat env g h \<longrightarrow> combos g \<inter> combos h = {})"

lemma exclusive_shrink:
  assumes "exclusive env gs" "\<forall>n \<in> set gs'. \<exists>g \<in> set gs. like env n g \<and> combos n \<subseteq> combos g"
  shows "exclusive env gs'"
  unfolding exclusive_def
proof (intro ballI impI)
  fix n k assume n: "n \<in> set gs'" "k \<in> set gs'" "owner env n \<noteq> owner env k \<and> compat env n k"
  obtain g where g: "g \<in> set gs" "like env n g" "combos n \<subseteq> combos g" using assms(2) n(1) by blast
  obtain h where h: "h \<in> set gs" "like env k h" "combos k \<subseteq> combos h" using assms(2) n(2) by blast
  have "owner env g \<noteq> owner env h \<and> compat env g h"
    using n(3) g(2) h(2) like_compat(1) [OF g(2), of k] like_compat(2) [OF h(2), of g] by (simp add: like_def)
  then have "combos g \<inter> combos h = {}" using assms(1) g(1) h(1) unfolding exclusive_def by blast
  then show "combos n \<inter> combos k = {}" using g(3) h(3) by blast
qed

lemma exclusive_Cons:
  assumes "exclusive env gs"
    "\<And>n. n \<in> set gs \<Longrightarrow> owner env n \<noteq> owner env P \<Longrightarrow> compat env n P \<Longrightarrow> combos n \<inter> combos P = {}"
  shows "exclusive env (P # gs)"
  unfolding exclusive_def
proof (intro ballI impI)
  fix g h assume gh: "g \<in> set (P # gs)" "h \<in> set (P # gs)" "owner env g \<noteq> owner env h \<and> compat env g h"
  consider "g = P" "h = P" | "g = P" "h \<in> set gs" | "g \<in> set gs" "h = P" | "g \<in> set gs" "h \<in> set gs"
    using gh(1,2) by auto
  then show "combos g \<inter> combos h = {}"
  proof cases
    case 2
    then have "combos h \<inter> combos P = {}" using assms(2) [of h] gh(3) compat_sym [of env P h] by simp
    then show ?thesis using 2 by blast
  next
    case 4
    then show ?thesis using assms(1) gh(3) unfolding exclusive_def by blast
  qed (use gh(3) assms(2) in simp_all)
qed

lemma DeletePassiveGrabFromList_False:
  "DeletePassiveGrabFromList env used M gs = Ret (False, gs') \<Longrightarrow> gs' = gs"
  by (auto simp: DeletePassiveGrabFromList_def split: outcome.splits if_splits)

text \<open>Whether or not memory suffices, what is left comes from what was there.\<close>

lemma DeletePassiveGrabFromList_shrinks:
  assumes run: "DeletePassiveGrabFromList env used M gs = Ret (ok, gs')"
    and "list_ok gs" "grab_ok M" "mask_free M" "fake_ok env" "length used + 2 * length gs \<le> fake_bound"
  shows "(\<forall>n \<in> set gs'. \<exists>g \<in> set gs. like env n g \<and> combos n \<subseteq> combos g) \<and> list_ok gs' \<and>
    g_resource ` set gs' \<inter> set used \<subseteq> g_resource ` set gs"
proof (cases ok)
  case True
  then have "DeletePassiveGrabFromList env used M gs = Ret (True, gs')" using run by simp
  then show ?thesis using DeletePassiveGrabFromList_Ret [OF _ assms(2-6)] by simp
next
  case False
  then have "gs' = gs" using run DeletePassiveGrabFromList_False by metis
  then show ?thesis using assms(2) by (auto simp: like_def)
qed

text \<open>The invariant also holds after an ungrab of any kind, whenever it returns.\<close>

lemma DeletePassiveGrabFromList_exclusive [x_inv]:
  assumes "exclusive env gs" "DeletePassiveGrabFromList env used M gs = Ret (ok, gs')"
    "list_ok gs" "grab_ok M" "mask_free M" "fake_ok env" "length used + 2 * length gs \<le> fake_bound"
  shows "exclusive env gs'"
  using exclusive_shrink [OF assms(1)] DeletePassiveGrabFromList_shrinks [OF assms(2-7)] by simp

lemma mutual_mask_free:
  assumes "DetailSupersedesSecond a b any" "DetailSupersedesSecond b a any" "detail_ok any b"
  shows "pMask b = None"
proof (cases "exact b = any")
  case True
  then have "exact a = any" using supersedes_exact [OF assms(1)] by simp
  then show ?thesis
    using assms(2) True
    by (auto simp: DetailSupersedesSecond_def IsInGrabMask_def IdenticalExactDetails_def split: option.splits)
qed (use assms(3) in \<open>simp add: detail_ok_def\<close>)

lemma identical_mask_free:
  assumes "GrabsAreIdentical P g" "grab_ok g"
  shows "mask_free g"
proof -
  have "any_modifier g = any_modifier P" using assms(1) by (simp add: GrabsAreIdentical_def any_modifier_def split: if_splits)
  then show ?thesis
    using assms mutual_mask_free [of "g_detail P" "g_detail g" AnyKey]
      mutual_mask_free [of "modifiersDetail P" "modifiersDetail g" "any_modifier P"]
    by (simp add: GrabsAreIdentical_def grab_ok_def mask_free_def split: if_splits)
qed

text \<open>C34: Passive grabs are exclusive: adding a grab keeps it so that no key and modifier pair is claimed
  by two clients on the same device and event, whatever happens to memory on the way. A grab that
  overlaps another client's is refused with \<open>BadAccess\<close> and changes nothing; a grab that is
  accepted is in the list.\<close>
theorem AddPassiveGrabToList_exclusive:
  assumes run: "AddPassiveGrabToList env client P gs = Ret (rc, gs')"
    and env: "fake_ok env" and list: "list_ok gs" "exclusive env gs"
    and P: "grab_ok P" "mask_free P" "g_resource P \<notin> g_resource ` set gs"
    and len: "2 * length gs < fake_bound"
  shows "exclusive env gs' \<and> list_ok gs' \<and> (rc = Success \<longrightarrow> P \<in> set gs') \<and>
    ((\<exists>h \<in> set gs. owner env h \<noteq> owner env P \<and> compat env h P \<and> combos h \<inter> combos P \<noteq> {}) \<longrightarrow>
       rc = BadAccess \<and> gs' = gs)"
proof (cases "\<exists>g \<in> set gs. GrabMatchesSecond env P g (grabtype P = CORE) \<and> owner env P \<noteq> owner env g")
  case True
  then show ?thesis using run list by (simp add: AddPassiveGrabToList_def)
next
  case False
  have dis: "combos h \<inter> combos P = {}" if "h \<in> set gs" "owner env h \<noteq> owner env P" "compat env h P" for h
  proof -
    have "\<not> GrabMatchesSecond env h P (grabtype h = CORE)"
      using False that(1,2) GrabMatchesSecond_sym [of env P h] by auto
    then show ?thesis using that(3) P(2) not_matches_disjoint by blast
  qed
  have with_P: "exclusive env (P # gs1) \<and> list_ok (P # gs1)"
    if "\<forall>n \<in> set gs1. \<exists>g \<in> set gs. like env n g \<and> combos n \<subseteq> combos g" "list_ok gs1"
      "g_resource P \<notin> g_resource ` set gs1" for gs1
  proof -
    have "combos n \<inter> combos P = {}" if n: "n \<in> set gs1" "owner env n \<noteq> owner env P" "compat env n P" for n
    proof -
      obtain g where g: "g \<in> set gs" "like env n g" "combos n \<subseteq> combos g"
        using \<open>\<forall>n \<in> set gs1. \<exists>g \<in> set gs. like env n g \<and> combos n \<subseteq> combos g\<close> n(1) by blast
      moreover have "owner env g \<noteq> owner env P" using n(2) g(2) by (simp add: like_def)
      moreover have "compat env g P" using n(3) like_compat(1) [OF g(2)] by simp
      ultimately have "combos g \<inter> combos P = {}" using dis by simp
      then show ?thesis using g(3) by blast
    qed
    then have "exclusive env (P # gs1)"
      using exclusive_shrink [OF list(2) that(1)] by (intro exclusive_Cons) simp_all
    then show ?thesis using that(2,3) P(1) by (simp add: list_ok_def)
  qed
  have no: "\<not> (\<exists>h \<in> set gs. owner env h \<noteq> owner env P \<and> compat env h P \<and> combos h \<inter> combos P \<noteq> {})"
    using dis by blast
  have refl: "\<forall>n \<in> set gs. \<exists>g \<in> set gs. like env n g \<and> combos n \<subseteq> combos g" by (auto simp: like_def)
  let ?del = "case find (GrabsAreIdentical P) gs of
      None \<Rightarrow> Ret (True, gs) | Some g \<Rightarrow> DeletePassiveGrabFromList env [g_resource P] g gs"
  have del: "(\<forall>n \<in> set gs1. \<exists>g \<in> set gs. like env n g \<and> combos n \<subseteq> combos g) \<and> list_ok gs1 \<and>
      g_resource P \<notin> g_resource ` set gs1" if "?del = Ret (ok, gs1)" for ok gs1
  proof (cases "find (GrabsAreIdentical P) gs")
    case None
    then show ?thesis using that refl list(1) P(3) by simp
  next
    case (Some g)
    then have g: "g \<in> set gs" "GrabsAreIdentical P g" by (auto simp: find_Some_iff)
    then have ok: "grab_ok g" "mask_free g" using list(1) identical_mask_free by (auto simp: list_ok_def)
    have "DeletePassiveGrabFromList env [g_resource P] g gs = Ret (ok, gs1)" using that Some by simp
    from DeletePassiveGrabFromList_shrinks [OF this list(1) ok env] P(3) len show ?thesis by auto
  qed
  define am where "am = (if keyboardMode P = GrabModeSync \<or> pointerMode P = GrabModeSync
                           then DixGrabAccess OR DixFreezeAccess else DixGrabAccess)"
  note run' = run [unfolded AddPassiveGrabToList_def Let_def if_not_P [OF False] am_def [symmetric]]
  show ?thesis
  proof (cases "device_access env client (g_device P) am = Success")
    case no_access: False
    then have "gs' = gs" "rc \<noteq> Success" using run' by auto
    then show ?thesis using list no by blast
  next
    case True
    then obtain ok gs1 where d: "?del = Ret (ok, gs1)" using run' by (cases ?del) auto
    note D = del [OF d]
    have E: "exclusive env gs1" using D exclusive_shrink [OF list(2)] by simp
    have W: "exclusive env (P # gs1)" "list_ok (P # gs1)" using D with_P by simp_all
    have "DeletePassiveGrab (g_resource P) (P # gs1) = gs1" by (simp add: DeletePassiveGrab_def)
    then have "rc = BadAlloc \<and> gs' = gs1 \<or> rc = Success \<and> gs' = P # gs1"
      using run' True d by (auto split: if_splits)
    then show ?thesis using E W D no by (elim disjE conjE) simp_all
  qed
qed

section \<open>Where an XI2 ungrab faults\<close>

text \<open>C35: An XI2 ungrab leaves its bounds: when a client holds an XI2 grab for all modifiers and
  ungrabs it (or one of its keys) for a modifier value that no mask of 256 bits holds, the bit is
  cleared outside the mask; and when the grab is for all keys too, already the creation of the
  split-off grab reads the new XI2 mask through the old grab's core event mask.\<close>
theorem XI2_ungrab_faults:
  assumes mem: "\<forall>a. grab_mem env a" and claim: "same_claim env M g" and level: "grabtype M = XI2"
    and masks: "mask_free M" "mask_free g"
    and mods: "exact (modifiersDetail g) = XIAnyModifier" "exact (modifiersDetail M) \<noteq> XIAnyModifier"
    and key: "exact (g_detail g) = AnyKey \<or> exact (g_detail g) = exact (g_detail M)" "unat (exact (g_detail M)) < 256"
    and far: "256 \<le> unat (exact (modifiersDetail M)) \<or>
      exact (g_detail g) = AnyKey \<and> exact (g_detail M) \<noteq> AnyKey"
  shows "DeletePassiveGrabFromList env used M (g # gs) = Fault"
proof -
  have lg: "grabtype g = XI2" using claim level by (simp add: same_claim_def compat_def)
  have am: "any_modifier g = XIAnyModifier" "any_modifier M = XIAnyModifier"
    using lg level by (simp_all add: any_modifier_def)
  have match: "GrabMatchesSecond env g M (grabtype g = CORE)"
    using claim masks mods key(1) am
    by (auto simp: GrabMatchesSecond_iff same_claim_def DetailSupersedesSecond_def IsInGrabMask_def
        IdenticalExactDetails_def mask_free_def)
  have nsup: "\<not> GrabSupersedesSecond M g"
    using mods am by (simp add: GrabSupersedesSecond_def DetailSupersedesSecond_def IsInGrabMask_def
        IdenticalExactDetails_def)
  have U: "UPDATE env g ModifierMask (exact (modifiersDetail M)) p = Fault"
    if "256 \<le> unat (exact (modifiersDetail M))" for p
    using that mem masks by (simp add: UPDATE_def DeleteDetailFromMask_def MASKIDX_def MasksPerDetailMask_def)
  have S: "split_grab env ids M g r = Fault" for ids r
    using mem lg by (cases r) (simp add: split_grab_def CreateGrab_def AllocGrab_def Let_def mask_of_grab_def)
  have "plan_grab env ids M g p = Fault" for ids p
  proof (cases "exact (g_detail g) = AnyKey \<and> exact (g_detail M) \<noteq> AnyKey")
    case True
    obtain p1 where "UPDATE env g DetailMask (exact (g_detail M)) p = Ret (True, p1)"
      using UPDATE_total [OF mem key(2)] by blast
    then show ?thesis
      using True claim match nsup mods am S by (simp add: plan_grab_def Let_def same_claim_def)
  next
    case False
    then show ?thesis
      using claim match nsup mods am U far key(1) by (auto simp: plan_grab_def Let_def same_claim_def)
  qed
  then show ?thesis using mem by (simp add: DeletePassiveGrabFromList_def)
qed

section \<open>Witnesses\<close>

text \<open>
  Clients own the ids of their millions; client 1 holds a grab of all keys with all modifiers on
  window 0, client 2 one of key 38 with Control on another device.
\<close>

definition demo_grab :: "u32 \<Rightarrow> nat \<Rightarrow> InputLevel \<Rightarrow> u32 \<Rightarrow> u32 \<Rightarrow> GrabRec" where
  "demo_grab rid dev level key mods = empty_grab\<lparr>g_resource := rid, g_device := dev, grabtype := level,
     g_type := KeyPress, g_detail := \<lparr>exact = key, pMask = None\<rparr>,
     modifiersDetail := \<lparr>exact = mods, pMask = None\<rparr>, keyboardMode := True, pointerMode := True\<rparr>"

definition demo_fake_id :: "nat \<Rightarrow> u32 list \<Rightarrow> u32" where
  "demo_fake_id c ids = word_of_nat (c * 2 ^ 21 +
     (case find (\<lambda>k. word_of_nat (c * 2 ^ 21 + k) \<notin> set ids) [0..<Suc fake_bound] of Some k \<Rightarrow> k | None \<Rightarrow> 0))"

definition demo_grab_env :: "grab_env" where
  "demo_grab_env = \<lparr>limit = 256, all_devices = 0, all_master_devices = 1, InputDevIsMaster = (\<lambda>d. d < 4),
     fake_id = demo_fake_id, device_access = (\<lambda>c d m. Success), grab_mem = (\<lambda>a. True)\<rparr>"

lemma demo_client:
  assumes "c < 256" "k < 2 ^ 21"
  shows "dixClientIdForXID 256 (word_of_nat (c * 2 ^ 21 + k)) = c"
proof -
  define x :: u32 where "x = word_of_nat (c * 2 ^ 21 + k)"
  have "c * 2 ^ 21 + k < 256 * 2 ^ 21" using assms by simp
  then have x: "unat x = c * 2 ^ 21 + k" unfolding x_def by (subst unat_of_nat) simp
  have "CLIENTOFFSET 256 = 21" by (simp add: CLIENTOFFSET_def ilog2_values)
  then have "dixClientIdForXID 256 x = unat x div 2 ^ 21 mod 2 ^ 8"
    using dixClientIdForXID_eq [of 256 x]
    by (simp add: good_limit_def ilog2_values unsigned_take_bit_eq unsigned_drop_bit_eq drop_bit_eq_div take_bit_eq_mod
        unat_div_distrib unat_mod_distrib)
  then show ?thesis using assms x by (simp add: x_def)
qed

lemma demo_fake_ok: "fake_ok demo_grab_env"
proof -
  have small: "(case find (\<lambda>k. word_of_nat (c * 2 ^ 21 + k) \<notin> set ids) [0..<Suc fake_bound] of Some k \<Rightarrow> k | None \<Rightarrow> 0) < 2 ^ 21"
    for c and ids :: "u32 list"
    by (auto simp: find_Some_iff fake_bound_def split: option.split)
  have "demo_fake_id c ids \<notin> set ids" if "length ids \<le> fake_bound" for c ids
  proof -
    let ?f = "\<lambda>k. word_of_nat (c * 2 ^ 21 + k) :: u32"
    have "inj_on ?f (set [0..<Suc fake_bound])"
    proof (rule inj_onI)
      fix x y assume xy: "x \<in> set [0..<Suc fake_bound]" "y \<in> set [0..<Suc fake_bound]" "?f x = ?f y"
      then have "(word_of_nat x :: u32) = word_of_nat y" by simp
      then show "x = y" using xy(1,2) by (simp add: word_eq_unat unat_of_nat fake_bound_def)
    qed
    then have "card (?f ` set [0..<Suc fake_bound]) = Suc fake_bound" by (simp add: card_image)
    moreover have "card (set ids) \<le> fake_bound" using that card_length [of ids] by linarith
    ultimately have "\<not> ?f ` set [0..<Suc fake_bound] \<subseteq> set ids"
      by (metis List.finite_set card_mono not_less_eq_eq)
    then have "find (\<lambda>k. ?f k \<notin> set ids) [0..<Suc fake_bound] \<noteq> None"
      unfolding find_None_iff by blast
    then obtain k where k: "find (\<lambda>k. ?f k \<notin> set ids) [0..<Suc fake_bound] = Some k" by blast
    then have "?f k \<notin> set ids" using find_SomeD by fast
    then show ?thesis by (simp only: demo_fake_id_def k option.case not_False_eq_True)
  qed
  moreover have "dixClientIdForXID 256 (demo_fake_id (dixClientIdForXID 256 rid) ids) = dixClientIdForXID 256 rid" for rid ids
    using demo_client [OF _ small] dixClientIdForXID_less [of 256 rid]
    by (simp only: demo_fake_id_def) (simp add: good_limit_def)
  ultimately show ?thesis by (simp add: fake_ok_def demo_grab_env_def)
qed

text \<open>Clients 1 and 2 on one window.\<close>

definition demo_grabs :: "GrabRec list" where
  "demo_grabs = [demo_grab 0x200001 5 XI AnyKey AnyModifier, demo_grab 0x400001 6 XI 38 4]"

lemma demo_grab_ok:
  "grab_ok (demo_grab rid dev level key mods) \<longleftrightarrow>
     (key = AnyKey \<or> unat key < 256) \<and> (mods = (if level = XI2 then XIAnyModifier else AnyModifier) \<or> unat mods < 256)"
  "mask_free (demo_grab rid dev level key mods)"
  by (auto simp: grab_ok_def detail_ok_def mask_free_def demo_grab_def any_modifier_def)

lemma demo_owner: "dixClientIdForXID 256 0x200001 = 1" "dixClientIdForXID 256 0x200002 = 1"
  "dixClientIdForXID 256 0x400001 = 2" "dixClientIdForXID 256 0x400002 = 2"
  using demo_client [of 1 1] demo_client [of 1 2] demo_client [of 2 1] demo_client [of 2 2] by simp_all

lemma demo_compat: "compat demo_grab_env (demo_grab r d l k m) (demo_grab r' d' l' k' m') \<longleftrightarrow>
  l = l' \<and> (l = CORE \<or> (if l = XI2 then d = 0 \<or> d' = 0 \<or> (if d = 1 then d' < 4 else if d' = 1 then d < 4 else d' = d) else d = d'))"
  by (auto simp: compat_def devices_match_def demo_grab_def demo_grab_env_def empty_grab_def)

lemma demo_fields [simp]: "g_resource (demo_grab r d l k m) = r" "grabtype (demo_grab r d l k m) = l"
  "exact (g_detail (demo_grab r d l k m)) = k" "exact (modifiersDetail (demo_grab r d l k m)) = m"
  "limit demo_grab_env = 256" "grab_mem demo_grab_env a"
  by (simp_all add: demo_grab_def demo_grab_env_def)

lemma demo_list: "list_ok demo_grabs" "exclusive demo_grab_env demo_grabs"
  by (auto simp: list_ok_def demo_grabs_def demo_grab_ok exclusive_def demo_compat demo_owner)

theorem ungrab_subtracts_witness:
  "\<exists>gs'. DeletePassiveGrabFromList demo_grab_env [] (demo_grab 0x200000 5 XI 38 4) demo_grabs = Ret (True, gs') \<and>
     (38, 4) \<notin> claims demo_grab_env (demo_grab 0x200000 5 XI 38 4) gs'"
proof -
  let ?M = "demo_grab 0x200000 5 XI 38 4"
  have ok: "grab_ok ?M" "grabtype ?M \<noteq> XI2" "length [] + 2 * length demo_grabs \<le> fake_bound"
    by (simp_all add: demo_grab_ok demo_grabs_def fake_bound_def)
  have mem: "\<forall>a. grab_mem demo_grab_env a" by simp
  have c: "(38, 4) \<in> combos ?M"
    by (simp add: combos_def detail_set_def demo_grab_def AnyKey_def AnyModifier_def XIAnyModifier_def any_modifier_def)
  obtain gs' where "DeletePassiveGrabFromList demo_grab_env [] ?M demo_grabs = Ret (True, gs')"
      "claims demo_grab_env ?M gs' = claims demo_grab_env ?M demo_grabs - combos ?M"
    using ungrab_subtracts [OF mem demo_fake_ok demo_list(1) ok(2,1) demo_grab_ok(2), of "[]"] ok(3) by auto
  then show ?thesis using c by auto
qed

theorem AddPassiveGrabToList_exclusive_witness:
  "AddPassiveGrabToList demo_grab_env 2 (demo_grab 0x400002 5 XI 38 4) demo_grabs = Ret (BadAccess, demo_grabs)"
proof -
  let ?P = "demo_grab 0x400002 5 XI 38 4"
  have ok: "grab_ok ?P" "g_resource ?P \<notin> g_resource ` set demo_grabs" "2 * length demo_grabs < fake_bound"
    by (simp_all add: demo_grab_ok demo_grabs_def fake_bound_def)
  have ov: "\<exists>h \<in> set demo_grabs. owner demo_grab_env h \<noteq> owner demo_grab_env ?P \<and> compat demo_grab_env h ?P \<and>
      combos h \<inter> combos ?P \<noteq> {}"
  proof (intro bexI conjI)
    show "demo_grab 0x200001 5 XI AnyKey AnyModifier \<in> set demo_grabs" by (simp add: demo_grabs_def)
    have "(38, 4) \<in> combos (demo_grab 0x200001 5 XI AnyKey AnyModifier)" "(38, 4) \<in> combos ?P"
      by (simp_all add: combos_def detail_set_def demo_grab_def AnyKey_def AnyModifier_def XIAnyModifier_def any_modifier_def)
    then show "combos (demo_grab 0x200001 5 XI AnyKey AnyModifier) \<inter> combos ?P \<noteq> {}" by blast
  qed (simp_all add: demo_owner demo_compat)
  obtain rc gs' where run: "AddPassiveGrabToList demo_grab_env 2 ?P demo_grabs = Ret (rc, gs')"
  proof -
    have "GrabMatchesSecond demo_grab_env ?P (demo_grab 0x200001 5 XI AnyKey AnyModifier) False"
      by code_simp
    then show ?thesis using that [of BadAccess demo_grabs] demo_owner
      by (auto simp: AddPassiveGrabToList_def demo_grabs_def)
  qed
  from AddPassiveGrabToList_exclusive [OF run demo_fake_ok demo_list ok(1) demo_grab_ok(2) ok(2,3)] ov
  show ?thesis using run by blast
qed

theorem XI2_ungrab_faults_witness:
  "DeletePassiveGrabFromList demo_grab_env [] (demo_grab 0x200000 5 XI2 38 0x10000)
     [demo_grab 0x200001 5 XI2 38 XIAnyModifier] = Fault"
proof -
  let ?M = "demo_grab 0x200000 5 XI2 38 0x10000" and ?g = "demo_grab 0x200001 5 XI2 38 XIAnyModifier"
  have "dixClientIdForXID 256 0x200000 = 1" using demo_client [of 1 0] by simp
  then have "same_claim demo_grab_env ?M ?g" by (simp add: same_claim_def demo_compat demo_owner)
  moreover have "\<forall>a. grab_mem demo_grab_env a" by simp
  moreover have "exact (modifiersDetail ?M) \<noteq> XIAnyModifier" by (simp add: XIAnyModifier_def)
  ultimately show ?thesis
    using XI2_ungrab_faults [of demo_grab_env ?M ?g "[]" "[]"] demo_grab_ok(2) by simp
qed

end
