(* ===== verification/Record_Sets.thy ===== *)
theory Record_Sets
  imports X_Prelude
begin

text \<open>
  The sets of the RECORD extension, \<^verbatim>\<open>Xext/record/set.c\<close>: sets of 16-bit numbers, kept as a bit
  vector or as a list of intervals, behind one table of operations. The table is the interface
  \<open>record_set_ops\<close>; both representations are instances of it, so that a user cannot tell them
  apart.
\<close>

section \<open>Intervals\<close>

datatype RecordSetInterval = RecordSetInterval (i_first: u16) (i_last: u16)

abbreviation lo :: "RecordSetInterval \<Rightarrow> nat" where "lo iv \<equiv> unat (i_first iv)"
abbreviation hi :: "RecordSetInterval \<Rightarrow> nat" where "hi iv \<equiv> unat (i_last iv)"

definition maxMemberInInterval :: "RecordSetInterval list \<Rightarrow> int" where
  "maxMemberInInterval ivs = fold (\<lambda>iv m. if m < int (hi iv) then int (hi iv) else m) ivs (- 1)"

text \<open>The numbers a list of intervals stands for.\<close>

definition covers :: "RecordSetInterval list \<Rightarrow> nat set" where
  "covers ivs = (\<Union>iv \<in> set ivs. {lo iv..hi iv})"

lemma covers_simps [simp]:
  "covers [] = {}" "covers (iv # ivs) = {lo iv..hi iv} \<union> covers ivs" "covers (xs @ ys) = covers xs \<union> covers ys"
  by (auto simp: covers_def)

lemma hi_bound: "hi iv < 65536" "lo iv < 65536"
  using unat_lt2p [of "i_last iv"] unat_lt2p [of "i_first iv"] by simp_all

lemma covers_bound: "covers ivs \<subseteq> {..<65536}"
proof
  fix m assume "m \<in> covers ivs"
  then obtain iv where "m \<le> hi iv" by (auto simp: covers_def)
  then show "m \<in> {..<65536}" using hi_bound(1) [of iv] by simp
qed

section \<open>The operations of a set\<close>

text \<open>
  An iterator is \<open>None\<close> at the start (the NULL the user passes first) and a position afterwards; the
  result of \<open>IterateSet\<close> is \<open>None\<close> for NULL, else the interval and the next iterator. \<open>collect\<close> is the
  loop of the users, \<open>while ((pIter = RecordIterateSet(pSet, pIter, &interval))) ...\<close>, with a bound
  on its turns.
\<close>

type_synonym set_iter = "nat option"

fun collect :: "('s \<Rightarrow> set_iter \<Rightarrow> (RecordSetInterval \<times> set_iter) option) \<Rightarrow> nat \<Rightarrow> 's \<Rightarrow> set_iter \<Rightarrow>
    RecordSetInterval list option" where
  "collect iterate 0 s it = None"
| "collect iterate (Suc n) s it =
     (case iterate s it of
        None \<Rightarrow> Some []
      | Some (iv, it') \<Rightarrow> (case collect iterate n s it' of None \<Rightarrow> None | Some ivs \<Rightarrow> Some (iv # ivs)))"

text \<open>Increasing intervals with at least one number missing in between.\<close>

fun canonical :: "nat \<Rightarrow> RecordSetInterval list \<Rightarrow> bool" where
  "canonical n [] \<longleftrightarrow> True"
| "canonical n (iv # ivs) \<longleftrightarrow> n \<le> lo iv \<and> lo iv \<le> hi iv \<and> canonical (hi iv + 2) ivs"

lemma canonical_mono: "canonical n ivs \<Longrightarrow> k \<le> n \<Longrightarrow> canonical k ivs"
  by (cases ivs) auto

lemma canonical_covers: "canonical n ivs \<Longrightarrow> m \<in> covers ivs \<Longrightarrow> n \<le> m"
  by (induction n ivs rule: canonical.induct) fastforce+

text \<open>A set has one canonical list only.\<close>

lemma canonical_unique:
  "canonical n xs \<Longrightarrow> canonical n ys \<Longrightarrow> covers xs = covers ys \<Longrightarrow> xs = ys"
proof (induction xs arbitrary: n ys)
  case Nil
  then show ?case by (cases ys) auto
next
  case (Cons x xs)
  then obtain y ys' where y: "ys = y # ys'" by (cases ys) auto
  have cx: "canonical (hi x + 2) xs" "lo x \<le> hi x" and cy: "canonical (hi y + 2) ys'" "lo y \<le> hi y"
    using Cons.prems y by simp_all
  have eq: "{lo x..hi x} \<union> covers xs = {lo y..hi y} \<union> covers ys'" using Cons.prems(3) y by simp
  have bx: "m \<in> covers xs \<Longrightarrow> hi x + 2 \<le> m" and by': "m \<in> covers ys' \<Longrightarrow> hi y + 2 \<le> m" for m
    using canonical_covers cx(1) cy(1) by blast+
  have "lo x \<in> {lo y..hi y} \<union> covers ys'" "lo y \<in> {lo x..hi x} \<union> covers xs"
    using eq cx(2) cy(2) by (metis UnI1 atLeastAtMost_iff order_refl)+
  then have l: "lo x = lo y" using bx by' cx(2) cy(2) by fastforce
  have nx: "hi x + 1 \<notin> {lo x..hi x} \<union> covers xs" and ny: "hi y + 1 \<notin> {lo y..hi y} \<union> covers ys'"
    using bx [of "hi x + 1"] by' [of "hi y + 1"] by auto
  have "hi y < hi x + 1"
  proof (rule ccontr)
    assume "\<not> hi y < hi x + 1"
    then have "hi x + 1 \<in> {lo y..hi y}" using l cx(2) by simp
    then show False using nx eq by blast
  qed
  moreover have "hi x < hi y + 1"
  proof (rule ccontr)
    assume "\<not> hi x < hi y + 1"
    then have "hi y + 1 \<in> {lo x..hi x}" using l cy(2) by simp
    then show False using ny eq by blast
  qed
  ultimately have h: "hi x = hi y" by simp
  then have "x = y" using l by (metis RecordSetInterval.expand word_eq_unat)
  moreover have "covers xs = covers ys'"
  proof -
    have "covers xs = ({lo x..hi x} \<union> covers xs) - {lo x..hi x}" "covers ys' = ({lo y..hi y} \<union> covers ys') - {lo y..hi y}"
      using bx by' by fastforce+
    then show ?thesis using eq l h by simp
  qed
  ultimately show ?case using Cons.IH [OF cx(1)] cy(1) y h by simp
qed

text \<open>
  The contract: membership is decided for every number that is not negative; iterating from a
  position yields the next maximal interval of members and a position behind it.
\<close>

locale record_set_ops =
  fixes inv :: "'s \<Rightarrow> bool"
    and members :: "'s \<Rightarrow> nat set"
    and is_member :: "'s \<Rightarrow> int \<Rightarrow> bool"
    and iterate :: "'s \<Rightarrow> set_iter \<Rightarrow> (RecordSetInterval \<times> set_iter) option"
    and it_ok :: "'s \<Rightarrow> set_iter \<Rightarrow> bool"
    and pos :: "'s \<Rightarrow> set_iter \<Rightarrow> nat"
  assumes bounded: "inv s \<Longrightarrow> m \<in> members s \<Longrightarrow> m < 65536"
    and member: "inv s \<Longrightarrow> 0 \<le> k \<Longrightarrow> is_member s k \<longleftrightarrow> nat k \<in> members s"
    and start: "inv s \<Longrightarrow> it_ok s None \<and> pos s None = 0"
    and stop: "inv s \<Longrightarrow> it_ok s it \<Longrightarrow> iterate s it = None \<Longrightarrow> m \<in> members s \<Longrightarrow> m < pos s it"
    and step: "inv s \<Longrightarrow> it_ok s it \<Longrightarrow> iterate s it = Some (iv, it') \<Longrightarrow>
      it_ok s it' \<and> pos s it' = hi iv + 1 \<and> pos s it \<le> lo iv \<and> lo iv \<le> hi iv \<and> {lo iv..hi iv} \<subseteq> members s \<and>
      hi iv + 1 \<notin> members s \<and> (\<forall>m \<in> members s. m < pos s it \<or> lo iv \<le> m)"
begin

lemma collect_from:
  assumes "inv s"
  shows "it_ok s it \<Longrightarrow> 65536 < n + pos s it \<Longrightarrow> 0 < n \<Longrightarrow> pos s it \<notin> members s \<or> it = None \<Longrightarrow>
    \<exists>ivs. collect iterate n s it = Some ivs \<and> canonical (if it = None then 0 else pos s it + 1) ivs \<and>
      covers ivs = {m \<in> members s. pos s it \<le> m}"
proof (induction n arbitrary: it)
  case (Suc n)
  show ?case
  proof (cases "iterate s it")
    case None
    then have "{m \<in> members s. pos s it \<le> m} = {}"
      using stop [OF assms Suc.prems(1) None] by (auto simp: not_le)
    then show ?thesis using None by simp
  next
    case (Some r)
    then obtain iv it' where r: "iterate s it = Some (iv, it')" by (cases r) auto
    note st = step [OF assms Suc.prems(1) r]
    have some: "it' \<noteq> None" using st start [OF assms] by (metis add_is_0 zero_neq_one)
    have "hi iv < 65536" using hi_bound by simp
    have rec: "\<exists>ivs. collect iterate n s it' = Some ivs \<and> canonical (hi iv + 2) ivs \<and>
        covers ivs = {m \<in> members s. hi iv + 1 \<le> m}"
    proof (cases "n = 0")
      case True
      then have "65536 \<le> lo iv" using Suc.prems(2) st by linarith
      then show ?thesis using hi_bound(2) [of iv] by simp
    next
      case False
      have "65536 < n + pos s it'" using Suc.prems(2) st by linarith
      then show ?thesis using Suc.IH [of it'] st False some by auto
    qed
    then obtain ivs where ivs: "collect iterate n s it' = Some ivs" "canonical (hi iv + 2) ivs"
        "covers ivs = {m \<in> members s. hi iv + 1 \<le> m}" by blast
    have "lo iv \<noteq> pos s it" if "it \<noteq> None" using Suc.prems(4) st that by auto
    then have "canonical (if it = None then 0 else pos s it + 1) (iv # ivs)" using ivs(2) st by auto
    moreover have "covers (iv # ivs) = {m \<in> members s. pos s it \<le> m}" using ivs(3) st by (auto simp: Suc_le_eq)
    ultimately show ?thesis using r ivs(1) by simp
  qed
qed simp

lemma collect_all:
  assumes "inv s"
  shows "\<exists>ivs. collect iterate 65537 s None = Some ivs \<and> canonical 0 ivs \<and> covers ivs = members s"
  using collect_from [OF assms, of None 65537] start [OF assms] by simp

end

section \<open>Bit vectors\<close>

text \<open>The flag says whether the set owns its memory, which is what its destructor looks at.\<close>

datatype RecordSet =
    BitVectorSet (set_owned: bool) (maxMember: int) (bitvec: "u64 list")
  | IntervalListSet (set_owned: bool) (set_intervals: "RecordSetInterval list")

definition vec_bit :: "u64 list \<Rightarrow> nat \<Rightarrow> bool" where
  "vec_bit v i \<longleftrightarrow> bit (v ! (i div 64)) (i mod 64)"

definition BitVectorIsMemberOfSet :: "int \<Rightarrow> u64 list \<Rightarrow> int \<Rightarrow> bool" where
  "BitVectorIsMemberOfSet maxM v pm =
     (if pm > maxM then False else v ! (nat pm div 64) AND push_bit (nat pm mod 64) 1 \<noteq> 0)"

text \<open>The two loops of the search: over whole words, then over the bits of one word.\<close>

function skip_words :: "u64 list \<Rightarrow> int \<Rightarrow> u64 \<Rightarrow> nat \<Rightarrow> nat" where
  "skip_words v maxM skipval i =
     (if int (i * 64) \<le> maxM \<and> v ! i = skipval then skip_words v maxM skipval (i + 1) else i)"
  by auto
termination by (relation "measure (\<lambda>(v, maxM, k, i). nat (maxM + 1) - i * 64)") auto

declare skip_words.simps [simp del]

function walk_bits :: "u64 \<Rightarrow> bool \<Rightarrow> nat \<Rightarrow> nat" where
  "walk_bits bits bitval w =
     (if w < 64 \<and> (bits AND push_bit w 1 = 0) = bitval then walk_bits bits bitval (w + 1) else w)"
  by auto
termination by (relation "measure (\<lambda>(b, v, w). 64 - w)") auto

declare walk_bits.simps [simp del]

definition BitVectorFindBit :: "int \<Rightarrow> u64 list \<Rightarrow> nat \<Rightarrow> bool \<Rightarrow> int" where
  "BitVectorFindBit maxM v iterbit bitval =
     (let startlong = iterbit div 64;
          skipval = (if bitval then 0 else - 1 :: u64)
      in if int (startlong * 64) > maxM then - 1
         else
           let usefulbits = NOT (push_bit (iterbit - startlong * 64) 1 - 1);
               skip = v ! startlong AND usefulbits = skipval AND usefulbits;
               i = (if skip then skip_words v maxM skipval (startlong + 1) else startlong)
           in if skip \<and> int (i * 64) > maxM then - 1
              else int (i * 64 + walk_bits (v ! i) bitval (if i * 64 < iterbit then iterbit - i * 64 else 0)))"

definition BitVectorIterateSet ::
    "int \<Rightarrow> u64 list \<Rightarrow> set_iter \<Rightarrow> (RecordSetInterval \<times> set_iter) option" where
  "BitVectorIterateSet maxM v pIter =
     (let iterbit = (case pIter of None \<Rightarrow> 0 | Some n \<Rightarrow> n);
          b = BitVectorFindBit maxM v iterbit True
      in if b = - 1 then None
         else
           let e = BitVectorFindBit maxM v (nat b) False;
               stop = word_of_int (if e < 0 then maxM else e - 1)
           in Some (RecordSetInterval (word_of_int b) stop, Some (unat stop + 1)))"

definition sizeof_BitVectorSet :: nat where "sizeof_BitVectorSet = 16"
definition sizeof_IntervalListSet :: nat where "sizeof_IntervalListSet = 16"
definition MinSetAlignment :: nat where "MinSetAlignment = 8"

definition BitVectorSetMemoryRequirements :: "int \<Rightarrow> nat \<times> nat" where
  "BitVectorSetMemoryRequirements maxM =
     (sizeof_BitVectorSet + nat (maxM + 64) div 64 * 8, MinSetAlignment)"

definition set_vec_bit :: "nat \<Rightarrow> u64 list \<Rightarrow> u64 list" where
  "set_vec_bit j v = v[j div 64 := v ! (j div 64) OR push_bit (j mod 64) 1]"

text \<open>
  \<open>pMem\<close> is the memory the user provides, given by its address and size; \<open>memsize\<close> the size that is
  needed.
\<close>

definition BitVectorCreateSet ::
    "bool \<Rightarrow> RecordSetInterval list \<Rightarrow> (nat \<times> nat) option \<Rightarrow> nat \<Rightarrow> RecordSet option" where
  "BitVectorCreateSet calloc_ok ivs pMem memsize =
     (if pMem = None \<and> \<not> calloc_ok then None
      else Some (BitVectorSet (pMem = None) (maxMemberInInterval ivs)
             (fold (\<lambda>iv v. fold set_vec_bit [lo iv..<hi iv + 1] v) ivs
                (replicate ((memsize - sizeof_BitVectorSet) div 8) 0))))"

section \<open>Interval lists\<close>

function probe_intervals :: "RecordSetInterval list \<Rightarrow> int \<Rightarrow> int \<Rightarrow> int \<Rightarrow> bool" where
  "probe_intervals ivs pm l h =
     (if l \<le> h
      then let probe = (h + l) div 2; iv = ivs ! nat probe
           in if pm \<ge> int (lo iv) \<and> pm \<le> int (hi iv) then True
              else if pm < int (lo iv) then probe_intervals ivs pm l (probe - 1)
              else probe_intervals ivs pm (probe + 1) h
      else False)"
  by auto
termination by (relation "measure (\<lambda>(v, pm, l, h). nat (h + 1 - l))") auto

declare probe_intervals.simps [simp del]

definition IntervalListIsMemberOfSet :: "RecordSetInterval list \<Rightarrow> int \<Rightarrow> bool" where
  "IntervalListIsMemberOfSet ivs pm = probe_intervals ivs pm 0 (int (length ivs) - 1)"

definition IntervalListIterateSet ::
    "RecordSetInterval list \<Rightarrow> set_iter \<Rightarrow> (RecordSetInterval \<times> set_iter) option" where
  "IntervalListIterateSet ivs pIter =
     (let k = (case pIter of None \<Rightarrow> 0 | Some k \<Rightarrow> k)
      in if k < length ivs then Some (ivs ! k, Some (k + 1)) else None)"

definition IntervalListMemoryRequirements :: "nat \<Rightarrow> nat \<times> nat" where
  "IntervalListMemoryRequirements nIntervals =
     (sizeof_IntervalListSet + nIntervals * 4, MinSetAlignment)"

text \<open>The insertion sort: each interval goes in front of the first one that starts later.\<close>

fun insert_interval :: "RecordSetInterval \<Rightarrow> RecordSetInterval list \<Rightarrow> RecordSetInterval list" where
  "insert_interval iv [] = [iv]"
| "insert_interval iv (x # xs) = (if i_first iv < i_first x then iv # x # xs else x # insert_interval iv xs)"

text \<open>Merging: the first two intervals are kept apart or become one.\<close>

function merge_intervals :: "RecordSetInterval list \<Rightarrow> RecordSetInterval list" where
  "merge_intervals [] = []"
| "merge_intervals [x] = [x]"
| "merge_intervals (x # y # ivs) =
     (if hi x + 1 < lo y then x # merge_intervals (y # ivs)
      else merge_intervals (RecordSetInterval (i_first x) (max (i_last x) (i_last y)) # ivs))"
  by pat_completeness auto
termination by (relation "measure length") auto

definition IntervalListCreateSet ::
    "bool \<Rightarrow> RecordSetInterval list \<Rightarrow> (nat \<times> nat) option \<Rightarrow> nat \<Rightarrow> RecordSet option" where
  "IntervalListCreateSet calloc_ok ivs pMem memsize =
     (if ivs \<noteq> [] \<and> \<not> calloc_ok then None
      else if pMem = None \<and> \<not> calloc_ok then None
      else Some (IntervalListSet (pMem = None) (merge_intervals (fold insert_interval ivs []))))"

section \<open>The user-visible functions\<close>

datatype RecordCreateSetProc = BitVectorProc | IntervalListProc

definition RecordSetRequirements :: "RecordSetInterval list \<Rightarrow> nat \<times> nat \<times> RecordCreateSetProc" where
  "RecordSetRequirements ivs =
     (let maxM = maxMemberInInterval ivs in
      case (BitVectorSetMemoryRequirements maxM, IntervalListMemoryRequirements (length ivs)) of
        ((bmsize, bma), (rlsize, rla)) \<Rightarrow>
          if (length ivs > 1 \<and> maxM \<le> 255) \<or> bmsize < rlsize then (bmsize, bma, BitVectorProc)
          else (rlsize, rla, IntervalListProc))"

definition RecordSetMemoryRequirements :: "RecordSetInterval list \<Rightarrow> nat \<times> nat" where
  "RecordSetMemoryRequirements ivs = (case RecordSetRequirements ivs of (sz, alignment, _) \<Rightarrow> (sz, alignment))"

definition RecordCreateSet :: "bool \<Rightarrow> RecordSetInterval list \<Rightarrow> (nat \<times> nat) option \<Rightarrow> RecordSet option" where
  "RecordCreateSet calloc_ok ivs pMem =
     (case RecordSetRequirements ivs of (sz, alignment, pCreateSet) \<Rightarrow>
        if (case pMem of None \<Rightarrow> False
            | Some (addr, memsize) \<Rightarrow> addr mod alignment \<noteq> 0 \<or> memsize < sz) then None
        else (case pCreateSet of BitVectorProc \<Rightarrow> BitVectorCreateSet | IntervalListProc \<Rightarrow> IntervalListCreateSet)
               calloc_ok ivs pMem sz)"

text \<open>The operations through the table; destroying says whether memory is freed.\<close>

fun RecordIsMemberOfSet :: "RecordSet \<Rightarrow> int \<Rightarrow> bool" where
  "RecordIsMemberOfSet (BitVectorSet _ maxM v) pm = BitVectorIsMemberOfSet maxM v pm"
| "RecordIsMemberOfSet (IntervalListSet _ ivs) pm = IntervalListIsMemberOfSet ivs pm"

fun RecordIterateSet :: "RecordSet \<Rightarrow> set_iter \<Rightarrow> (RecordSetInterval \<times> set_iter) option" where
  "RecordIterateSet (BitVectorSet _ maxM v) it = BitVectorIterateSet maxM v it"
| "RecordIterateSet (IntervalListSet _ ivs) it = IntervalListIterateSet ivs it"

definition RecordDestroySet :: "RecordSet \<Rightarrow> bool" where
  "RecordDestroySet s = set_owned s"

section \<open>The interval list keeps the contract\<close>

lemma canonical_nth:
  "canonical n ivs \<Longrightarrow> k < length ivs \<Longrightarrow>
     lo (ivs ! k) \<le> hi (ivs ! k) \<and> n \<le> lo (ivs ! k) \<and> (\<forall>j < k. hi (ivs ! j) + 2 \<le> lo (ivs ! k))"
proof (induction n ivs arbitrary: k rule: canonical.induct)
  case (2 n iv ivs)
  show ?case
  proof (cases k)
    case (Suc k')
    then have "canonical (hi iv + 2) ivs" "k' < length ivs" using 2 by simp_all
    with 2 have "lo (ivs ! k') \<le> hi (ivs ! k') \<and> hi iv + 2 \<le> lo (ivs ! k') \<and> (\<forall>j < k'. hi (ivs ! j) + 2 \<le> lo (ivs ! k'))"
      by blast
    moreover from this have "n \<le> lo (ivs ! k')" using 2(2) by simp
    ultimately show ?thesis using 2 Suc by (auto simp: less_Suc_eq_0_disj)
  qed (use 2 in simp)
qed simp

lemma covers_nth: "m \<in> covers ivs \<longleftrightarrow> (\<exists>k < length ivs. lo (ivs ! k) \<le> m \<and> m \<le> hi (ivs ! k))"
  by (auto simp: covers_def set_conv_nth)

lemma canonical_between:
  assumes "canonical n ivs" "j < k" "k < length ivs"
  shows "hi (ivs ! j) + 2 \<le> lo (ivs ! k)" "lo (ivs ! j) \<le> hi (ivs ! j)" "lo (ivs ! k) \<le> hi (ivs ! k)"
  using canonical_nth [OF assms(1), of j] canonical_nth [OF assms(1), of k] assms(2,3) by simp_all

lemma probe_intervals_correct:
  "canonical n ivs \<Longrightarrow> 0 \<le> l \<Longrightarrow> h < int (length ivs) \<Longrightarrow> 0 \<le> pm \<Longrightarrow>
    probe_intervals ivs pm l h \<longleftrightarrow> (\<exists>k. l \<le> int k \<and> int k \<le> h \<and> lo (ivs ! k) \<le> nat pm \<and> nat pm \<le> hi (ivs ! k))"
proof (induction ivs pm l h rule: probe_intervals.induct)
  case (1 ivs pm l h)
  let ?in = "\<lambda>k. lo (ivs ! k) \<le> nat pm \<and> nat pm \<le> hi (ivs ! k)"
  show ?case
  proof (cases "l \<le> h")
    case False
    then show ?thesis by (subst probe_intervals.simps) auto
  next
    case True
    define p where "p = (h + l) div 2"
    define k0 where "k0 = nat p"
    have p: "l \<le> p" "p \<le> h" "int k0 = p" using True 1(4) by (simp_all add: p_def k0_def)
    have k0: "k0 < length ivs" using p 1(5) by linarith
    note IH = 1(1,2) [OF True p_def refl, folded k0_def]
    have less: "\<not> ?in k" if "nat pm < lo (ivs ! k0)" "k0 \<le> k" "k < length ivs" for k
    proof (cases "k = k0")
      case False
      then show ?thesis using canonical_between [OF 1(3), of k0 k] that by simp
    qed (use that in simp)
    have more: "\<not> ?in k" if "hi (ivs ! k0) < nat pm" "k \<le> k0" for k
    proof (cases "k = k0")
      case False
      then show ?thesis using canonical_between [OF 1(3), of k k0] that k0 by simp
    qed (use that in simp)
    consider (at) "?in k0" | (below) "nat pm < lo (ivs ! k0)" | (above) "lo (ivs ! k0) \<le> nat pm" "hi (ivs ! k0) < nat pm"
      by linarith
    then show ?thesis
    proof cases
      case at
      then have "int (lo (ivs ! k0)) \<le> pm \<and> pm \<le> int (hi (ivs ! k0))" using 1(6) by linarith
      then have "probe_intervals ivs pm l h"
        using True by (subst probe_intervals.simps) (simp add: Let_def flip: p_def k0_def)
      then show ?thesis using at p by metis
    next
      case below
      then have g: "\<not> (int (lo (ivs ! k0)) \<le> pm \<and> pm \<le> int (hi (ivs ! k0)))" "pm < int (lo (ivs ! k0))"
        using 1(6) by linarith+
      have "probe_intervals ivs pm l h = probe_intervals ivs pm l (p - 1)"
        using True g by (subst probe_intervals.simps) (simp add: Let_def flip: p_def k0_def)
      also have "\<dots> = (\<exists>k. l \<le> int k \<and> int k \<le> p - 1 \<and> ?in k)"
        using IH(1) g 1(3-6) p by simp
      also have "\<dots> = (\<exists>k. l \<le> int k \<and> int k \<le> h \<and> ?in k)"
      proof (intro ex_cong1)
        fix k
        show "(l \<le> int k \<and> int k \<le> p - 1 \<and> ?in k) = (l \<le> int k \<and> int k \<le> h \<and> ?in k)"
          using less [OF below, of k] p 1(5) by (cases "k0 \<le> k") auto
      qed
      finally show ?thesis .
    next
      case above
      then have g: "\<not> (int (lo (ivs ! k0)) \<le> pm \<and> pm \<le> int (hi (ivs ! k0)))" "\<not> pm < int (lo (ivs ! k0))"
        using 1(6) by linarith+
      have "probe_intervals ivs pm l h = probe_intervals ivs pm (p + 1) h"
        using True g by (subst probe_intervals.simps) (simp add: Let_def flip: p_def k0_def)
      also have "\<dots> = (\<exists>k. p + 1 \<le> int k \<and> int k \<le> h \<and> ?in k)"
        using IH(2) g 1(3-6) p by simp
      also have "\<dots> = (\<exists>k. l \<le> int k \<and> int k \<le> h \<and> ?in k)"
      proof (intro ex_cong1)
        fix k
        show "(p + 1 \<le> int k \<and> int k \<le> h \<and> ?in k) = (l \<le> int k \<and> int k \<le> h \<and> ?in k)"
          using more [OF above(2), of k] p by (cases "k \<le> k0") auto
      qed
      finally show ?thesis .
    qed
  qed
qed

text \<open>Sorting and merging turn any list of proper intervals into the canonical list of its numbers.\<close>

lemma insert_interval_set [simp]: "set (insert_interval iv xs) = insert iv (set xs)"
  by (induction xs) auto

lemma insert_interval_sorted: "sorted (map lo xs) \<Longrightarrow> sorted (map lo (insert_interval iv xs))"
  by (induction xs) (auto simp: word_less_nat_alt)

lemma sort_intervals:
  "sorted (map lo acc) \<Longrightarrow> sorted (map lo (fold insert_interval ivs acc)) \<and>
     set (fold insert_interval ivs acc) = set ivs \<union> set acc"
  by (induction ivs arbitrary: acc) (auto simp: insert_interval_sorted)

lemma unat_max: "unat (max a b) = max (unat a) (unat b)"
  by (simp add: max_def word_le_nat_alt)

lemma merge_intervals_canonical:
  "sorted (map lo ivs) \<Longrightarrow> \<forall>iv \<in> set ivs. lo iv \<le> hi iv \<Longrightarrow>
   canonical (case ivs of [] \<Rightarrow> 0 | x # _ \<Rightarrow> lo x) (merge_intervals ivs) \<and> covers (merge_intervals ivs) = covers ivs"
proof (induction ivs rule: merge_intervals.induct)
  case (3 x y ivs)
  show ?case
  proof (cases "hi x + 1 < lo y")
    case True
    then have "canonical (lo y) (merge_intervals (y # ivs)) \<and> covers (merge_intervals (y # ivs)) = covers (y # ivs)"
      using 3 by simp
    then show ?thesis using True 3(4) canonical_mono [of "lo y" _ "hi x + 2"] by simp
  next
    case False
    let ?z = "RecordSetInterval (i_first x) (max (i_last x) (i_last y))"
    have "sorted (map lo (?z # ivs))" "\<forall>iv \<in> set (?z # ivs). lo iv \<le> hi iv"
      using 3(3,4) by (auto simp: unat_max)
    then have "canonical (lo x) (merge_intervals (?z # ivs)) \<and> covers (merge_intervals (?z # ivs)) = covers (?z # ivs)"
      using 3(2) [OF False] by simp
    moreover have "{lo x..max (hi x) (hi y)} = {lo x..hi x} \<union> {lo y..hi y}"
      using False 3(3,4) by auto
    ultimately show ?thesis using False by (simp add: unat_max Un_assoc)
  qed
qed auto

definition proper :: "RecordSetInterval list \<Rightarrow> bool" where
  "proper ivs \<longleftrightarrow> (\<forall>iv \<in> set ivs. lo iv \<le> hi iv)"

lemma interval_list_canonical:
  assumes "proper ivs"
  shows "canonical 0 (merge_intervals (fold insert_interval ivs []))"
    "covers (merge_intervals (fold insert_interval ivs [])) = covers ivs"
proof -
  have s: "sorted (map lo (fold insert_interval ivs []))" "set (fold insert_interval ivs []) = set ivs"
    using sort_intervals [of "[]" ivs] by simp_all
  then show "canonical 0 (merge_intervals (fold insert_interval ivs []))"
    "covers (merge_intervals (fold insert_interval ivs [])) = covers ivs"
    using merge_intervals_canonical [OF s(1)] assms canonical_mono
    by (auto simp: proper_def covers_def)
qed

definition list_pos :: "RecordSetInterval list \<Rightarrow> set_iter \<Rightarrow> nat" where
  "list_pos ivs it = (case it of None \<Rightarrow> 0 | Some 0 \<Rightarrow> 0 | Some (Suc k) \<Rightarrow> hi (ivs ! k) + 1)"

interpretation interval_list: record_set_ops "canonical 0" covers IntervalListIsMemberOfSet IntervalListIterateSet
  "\<lambda>ivs it. case it of None \<Rightarrow> True | Some k \<Rightarrow> 0 < k \<and> k \<le> length ivs" list_pos
proof unfold_locales
  fix ivs :: "RecordSetInterval list" and m :: nat and k :: int and it it' iv
  assume can: "canonical 0 ivs"
  show "m \<in> covers ivs \<Longrightarrow> m < 65536" using covers_bound by blast
  show "0 \<le> k \<Longrightarrow> IntervalListIsMemberOfSet ivs k \<longleftrightarrow> nat k \<in> covers ivs"
    using probe_intervals_correct [OF can, of 0 "int (length ivs) - 1" k]
    by (auto simp: IntervalListIsMemberOfSet_def covers_nth)
  show "(case None of None \<Rightarrow> True | Some k \<Rightarrow> 0 < k \<and> k \<le> length ivs) \<and> list_pos ivs None = 0"
    by (simp add: list_pos_def)
  assume it: "case it of None \<Rightarrow> True | Some k \<Rightarrow> 0 < k \<and> k \<le> length ivs"
  define j where "j = (case it of None \<Rightarrow> 0 | Some k \<Rightarrow> k)"
  have pos: "list_pos ivs it = (if j = 0 then 0 else hi (ivs ! (j - 1)) + 1)"
    by (auto simp: list_pos_def j_def split: option.split nat.split)
  have before: "m < list_pos ivs it" if "m \<le> hi (ivs ! i)" "i < j" "j \<le> length ivs" for m i
  proof (cases "i = j - 1")
    case False
    then have "i < j - 1" "j - 1 < length ivs" using that by linarith+
    then show ?thesis using that canonical_between [OF can, of i "j - 1"] pos by simp
  qed (use that pos in simp)
  show "m < list_pos ivs it" if "IntervalListIterateSet ivs it = None" "m \<in> covers ivs"
  proof -
    have "\<not> j < length ivs" using that(1) by (auto simp: IntervalListIterateSet_def j_def Let_def split: if_splits)
    moreover have "j \<le> length ivs" using it by (auto simp: j_def split: option.splits)
    ultimately show ?thesis using that(2) before by (auto simp: covers_nth)
  qed
  assume r: "IntervalListIterateSet ivs it = Some (iv, it')"
  then have iv: "j < length ivs" "iv = ivs ! j" "it' = Some (j + 1)"
    by (auto simp: IntervalListIterateSet_def j_def Let_def split: if_splits)
  have "list_pos ivs it \<le> lo iv"
    using canonical_between(1) [OF can, of "j - 1" j] iv by (cases "j = 0") (simp_all add: pos)
  moreover have "hi iv + 1 \<notin> covers ivs"
  proof
    assume "hi iv + 1 \<in> covers ivs"
    then obtain k where k: "k < length ivs" "lo (ivs ! k) \<le> hi iv + 1" "hi iv + 1 \<le> hi (ivs ! k)" by (auto simp: covers_nth)
    consider "k < j" | "k = j" | "j < k" by linarith
    then show False
    proof cases
      case 1
      then show ?thesis using canonical_between [OF can, of k j] iv k by simp
    next
      case 3
      then show ?thesis using canonical_between [OF can, of j k] iv k by simp
    qed (use iv k in simp)
  qed
  moreover have "m < list_pos ivs it \<or> lo iv \<le> m" if mem: "m \<in> covers ivs" for m
  proof -
    obtain k where k: "k < length ivs" "lo (ivs ! k) \<le> m" "m \<le> hi (ivs ! k)" using mem by (auto simp: covers_nth)
    consider "k < j" | "k = j" | "j < k" by linarith
    then show ?thesis
    proof cases
      case 1
      then show ?thesis using before [OF k(3)] iv by simp
    next
      case 3
      then show ?thesis using canonical_between [OF can, of j k] iv k by simp
    qed (use iv k in simp)
  qed
  moreover have "lo iv \<le> hi iv" using canonical_nth [OF can iv(1)] iv(2) by simp
  moreover have "{lo iv..hi iv} \<subseteq> covers ivs" using iv by (auto simp: covers_nth)
  ultimately show "(case it' of None \<Rightarrow> True | Some k \<Rightarrow> 0 < k \<and> k \<le> length ivs) \<and> list_pos ivs it' = hi iv + 1 \<and>
      list_pos ivs it \<le> lo iv \<and> lo iv \<le> hi iv \<and> {lo iv..hi iv} \<subseteq> covers ivs \<and> hi iv + 1 \<notin> covers ivs \<and>
      (\<forall>m \<in> covers ivs. m < list_pos ivs it \<or> lo iv \<le> m)"
    using iv by (simp add: list_pos_def)
qed

section \<open>The bit vector keeps the contract\<close>

lemma and_single_bit: "w AND push_bit k 1 = 0 \<longleftrightarrow> \<not> bit w k" if "k < 64" for w :: u64
proof -
  have "w AND push_bit k 1 = (if bit w k then push_bit k 1 else 0)"
    by (simp add: bit_eq_iff) (auto simp: bit_simps)
  moreover have "push_bit k (1 :: u64) \<noteq> 0" using that by (simp add: push_bit_eq_mult)
  ultimately show ?thesis by simp
qed

text \<open>Bits of the vector, and a vector that holds its members and no bit beyond them.\<close>

definition vec_ok :: "int \<times> u64 list \<Rightarrow> bool" where
  "vec_ok s \<longleftrightarrow> (case s of (maxM, v) \<Rightarrow> maxM < 65536 \<and> - 1 \<le> maxM \<and> length v = nat (maxM + 64) div 64 \<and>
     (\<forall>i. i div 64 < length v \<longrightarrow> vec_bit v i \<longrightarrow> int i \<le> maxM))"

definition vec_members :: "int \<times> u64 list \<Rightarrow> nat set" where
  "vec_members s = (case s of (maxM, v) \<Rightarrow> {i. int i \<le> maxM \<and> vec_bit v i})"

lemma word_index: "- 1 \<le> maxM \<Longrightarrow> length v = nat (maxM + 64) div 64 \<Longrightarrow> i < length v \<longleftrightarrow> int (i * 64) \<le> maxM"
proof -
  assume a: "- 1 \<le> maxM" "length v = nat (maxM + 64) div 64"
  have "i < nat (maxM + 64) div 64 \<longleftrightarrow> Suc i * 64 \<le> nat (maxM + 64)"
    by (simp only: less_eq_div_iff_mult_less_eq Suc_le_eq [symmetric] zero_less_numeral)
  also have "\<dots> \<longleftrightarrow> int (i * 64) \<le> maxM" using a(1) by auto
  finally show ?thesis using a(2) by simp
qed

lemma walk_bits_spec:
  "w \<le> 64 \<Longrightarrow> w \<le> walk_bits x b w \<and> walk_bits x b w \<le> 64 \<and> (\<forall>k. w \<le> k \<and> k < walk_bits x b w \<longrightarrow> bit x k \<noteq> b) \<and>
     (walk_bits x b w < 64 \<longrightarrow> bit x (walk_bits x b w) = b)"
proof (induction x b w rule: walk_bits.induct)
  case (1 x b w)
  show ?case
  proof (cases "w < 64 \<and> (x AND push_bit w 1 = 0) = b")
    case True
    then have e: "walk_bits x b w = walk_bits x b (w + 1)" by (subst walk_bits.simps) simp
    have n: "bit x w \<noteq> b" using True and_single_bit by auto
    have IH: "w + 1 \<le> walk_bits x b (w + 1)" "walk_bits x b (w + 1) \<le> 64"
        "walk_bits x b (w + 1) < 64 \<longrightarrow> bit x (walk_bits x b (w + 1)) = b"
        "\<And>k. w + 1 \<le> k \<Longrightarrow> k < walk_bits x b (w + 1) \<Longrightarrow> bit x k \<noteq> b"
      using 1(1) [OF True] True by auto
    have "bit x k \<noteq> b" if "w \<le> k \<and> k < walk_bits x b (w + 1)" for k
      using IH(4) [of k] n that by (cases "k = w") auto
    then show ?thesis unfolding e using IH(1,2,3) by auto
  next
    case False
    then have "walk_bits x b w = w" by (subst walk_bits.simps) (simp only: if_False)
    then show ?thesis using 1(2) False and_single_bit by auto
  qed
qed

lemma skip_words_spec:
  "i \<le> skip_words v maxM k i \<and> (\<forall>j. i \<le> j \<and> j < skip_words v maxM k i \<longrightarrow> v ! j = k \<and> int (j * 64) \<le> maxM) \<and>
     (int (skip_words v maxM k i * 64) \<le> maxM \<longrightarrow> v ! skip_words v maxM k i \<noteq> k)"
proof (induction v maxM k i rule: skip_words.induct)
  case (1 v maxM k i)
  show ?case
  proof (cases "int (i * 64) \<le> maxM \<and> v ! i = k")
    case True
    then have e: "skip_words v maxM k i = skip_words v maxM k (i + 1)" by (subst skip_words.simps) simp
    note IH = 1 [OF True]
    have "v ! j = k \<and> int (j * 64) \<le> maxM" if "i \<le> j \<and> j < skip_words v maxM k (i + 1)" for j
      using IH True that by (cases "j = i") auto
    then show ?thesis unfolding e using IH by auto
  next
    case False
    then have "skip_words v maxM k i = i" by (subst skip_words.simps) (simp only: if_False)
    then show ?thesis using False by auto
  qed
qed

text \<open>The search finds the first bit of the wanted value at or after the start, if a word has one.\<close>

lemma low_mask_bit: "k < 64 \<Longrightarrow> bit (NOT (push_bit n 1 - 1) :: u64) k \<longleftrightarrow> n \<le> k"
proof -
  have "push_bit n 1 - 1 = (mask n :: u64)" by (simp add: mask_eq_exp_minus_1 push_bit_eq_mult)
  then show "k < 64 \<Longrightarrow> bit (NOT (push_bit n 1 - 1) :: u64) k \<longleftrightarrow> n \<le> k" by (simp add: bit_simps) auto
qed

lemma walk_bits_found:
  assumes "w \<le> j" "j < 64" "bit x j = b"
  shows "w \<le> walk_bits x b w" "walk_bits x b w < 64" "bit x (walk_bits x b w) = b"
    "w \<le> k \<Longrightarrow> k < walk_bits x b w \<Longrightarrow> bit x k \<noteq> b"
proof -
  have w: "w \<le> 64" using assms by simp
  note spec = walk_bits_spec [OF w, of x b]
  show lt: "walk_bits x b w < 64" using spec assms by (meson leI order_less_le_trans)
  show "w \<le> walk_bits x b w" "bit x (walk_bits x b w) = b"
    "w \<le> k \<Longrightarrow> k < walk_bits x b w \<Longrightarrow> bit x k \<noteq> b"
    using spec lt by blast+
qed

lemma first_in_word:
  assumes "n div 64 \<le> i" "w = (if i * 64 < n then n - i * 64 else 0)" "w \<le> j" "j < 64" "bit (v ! i) j = b"
    and before: "\<And>m. n \<le> m \<Longrightarrow> m div 64 < i \<Longrightarrow> vec_bit v m \<noteq> b"
  shows "\<exists>m. int (i * 64 + walk_bits (v ! i) b w) = int m \<and> n \<le> m \<and> m div 64 = i \<and> vec_bit v m = b \<and>
    (\<forall>k. n \<le> k \<and> k < m \<longrightarrow> vec_bit v k \<noteq> b)"
proof -
  let ?W = "walk_bits (v ! i) b w"
  note W = walk_bits_found [OF assms(3-5)]
  let ?m = "i * 64 + ?W"
  have m: "?m div 64 = i" "?m mod 64 = ?W" using W(2) by simp_all
  have "n \<le> ?m" using W(1) assms(1,2) by (auto split: if_splits)
  moreover have "vec_bit v ?m = b" using W(3) m by (simp add: vec_bit_def)
  moreover have "vec_bit v k \<noteq> b" if k: "n \<le> k" "k < ?m" for k
  proof (cases "k div 64 < i")
    case False
    then have d: "k div 64 = i" using k(2) W(2) by (metis div_le_mono less_imp_le m(1) nat_less_le)
    then have "k = i * 64 + k mod 64" by (metis div_mult_mod_eq)
    then have "k mod 64 < ?W" "w \<le> k mod 64" using k assms(2) by (auto split: if_splits)
    then show ?thesis using W(4) d by (simp add: vec_bit_def)
  qed (use before k in blast)
  ultimately show ?thesis using m(1) by blast
qed

lemma BitVectorFindBit_spec:
  assumes ok: "- 1 \<le> maxM" "length v = nat (maxM + 64) div 64" and r: "r = BitVectorFindBit maxM v n b"
  shows "(r = - 1 \<and> (\<forall>i. n \<le> i \<and> i div 64 < length v \<longrightarrow> vec_bit v i \<noteq> b)) \<or>
    (\<exists>i. r = int i \<and> n \<le> i \<and> i div 64 < length v \<and> vec_bit v i = b \<and> (\<forall>j. n \<le> j \<and> j < i \<longrightarrow> vec_bit v j \<noteq> b))"
proof -
  let ?s = "n div 64"
  define k :: u64 where "k = (if b then 0 else - 1)"
  define u :: u64 where "u = NOT (push_bit (n - ?s * 64) 1 - 1)"
  have kbit: "bit k j \<noteq> b" if "j < 64" for j using that by (simp add: k_def)
  have ubit: "bit u j \<longleftrightarrow> n mod 64 \<le> j" if "j < 64" for j
    using low_mask_bit [OF that, of "n mod 64"] by (simp add: u_def minus_div_mult_eq_mod)
  have r': "r = (if int (?s * 64) > maxM then - 1
      else let skip = v ! ?s AND u = k AND u; i = (if skip then skip_words v maxM k (?s + 1) else ?s)
           in if skip \<and> int (i * 64) > maxM then - 1
              else int (i * 64 + walk_bits (v ! i) b (if i * 64 < n then n - i * 64 else 0)))"
    unfolding r BitVectorFindBit_def Let_def k_def u_def ..
  note len = word_index [OF ok]
  show ?thesis
  proof (cases "?s < length v")
    case False
    then have "r = - 1" using len [of ?s] r' by simp
    moreover have "\<not> i div 64 < length v" if "n \<le> i" for i using that False div_le_mono [of n i 64] by linarith
    ultimately show ?thesis by auto
  next
    case s: True
    have skip: "v ! ?s AND u = k AND u \<longleftrightarrow> (\<forall>j < 64. n mod 64 \<le> j \<longrightarrow> bit (v ! ?s) j \<noteq> b)"
      using kbit ubit by (auto simp: bit_eq_iff bit_simps)
    show ?thesis
    proof (cases "v ! ?s AND u = k AND u")
      case False
      then obtain j where j: "j < 64" "n mod 64 \<le> j" "bit (v ! ?s) j = b" using skip by auto
      have r2: "r = int (?s * 64 + walk_bits (v ! ?s) b (if ?s * 64 < n then n - ?s * 64 else 0))"
        using False r' s len [of ?s] by (simp add: Let_def)
      have w: "(if ?s * 64 < n then n - ?s * 64 else 0) = n mod 64"
        by (simp add: minus_div_mult_eq_mod) presburger
      have "vec_bit v m \<noteq> b" if "n \<le> m" "m div 64 < ?s" for m using that div_le_mono [of n m 64] by linarith
      from first_in_word [of n ?s "n mod 64" j v b, OF _ w [symmetric] j(2,1,3) this]
      show ?thesis using r2 w s by auto
    next
      case True
      let ?i = "skip_words v maxM k (?s + 1)"
      note sw = skip_words_spec [of "?s + 1" v maxM k]
      have before: "vec_bit v m \<noteq> b" if m: "n \<le> m" "m div 64 < ?i" for m
      proof (cases "m div 64 = ?s")
        case eq: True
        then have "n mod 64 \<le> m mod 64" using m(1) by (metis add_le_cancel_left div_mult_mod_eq)
        then show ?thesis using True skip eq by (simp add: vec_bit_def)
      next
        case False
        then have "?s + 1 \<le> m div 64" using m(1) div_le_mono [of n m 64] by linarith
        then have "v ! (m div 64) = k" using sw m(2) by blast
        then show ?thesis using kbit by (simp add: vec_bit_def)
      qed
      show ?thesis
      proof (cases "int (?i * 64) > maxM")
        case over: True
        then have "r = - 1" using True r' by (simp add: Let_def)
        moreover have "m div 64 < ?i" if "m div 64 < length v" for m
          using that over len [of "m div 64"] by linarith
        ultimately show ?thesis using before by blast
      next
        case False
        then have "v ! ?i \<noteq> k" using sw by linarith
        then obtain j where j: "j < 64" "bit (v ! ?i) j = b" using kbit by (auto simp: bit_eq_iff)
        have i: "?s < ?i" "?i < length v" using sw False len [of ?i] by linarith+
        have w: "(if ?i * 64 < n then n - ?i * 64 else 0) = 0"
          using i(1) by (simp add: div_less_iff_less_mult)
        have r2: "r = int (?i * 64 + walk_bits (v ! ?i) b (if ?i * 64 < n then n - ?i * 64 else 0))"
          using True False r' s len [of ?s] by (simp add: Let_def)
        from first_in_word [of n ?i 0 j v b, OF _ w [symmetric] _ j before] i
        show ?thesis using r2 w by auto
      qed
    qed
  qed
qed

interpretation bit_vector: record_set_ops vec_ok vec_members "\<lambda>s. BitVectorIsMemberOfSet (fst s) (snd s)"
  "\<lambda>s. BitVectorIterateSet (fst s) (snd s)" "\<lambda>s it. True" "\<lambda>s it. case it of None \<Rightarrow> 0 | Some n \<Rightarrow> n"
proof unfold_locales
  fix s :: "int \<times> u64 list" and m :: nat and pm :: int and it it' :: set_iter and iv
  obtain maxM v where sv: "s = (maxM, v)" by (cases s)
  assume "vec_ok s"
  then have ok: "maxM < 65536" "- 1 \<le> maxM" "length v = nat (maxM + 64) div 64"
    and top: "\<And>i. i div 64 < length v \<Longrightarrow> vec_bit v i \<Longrightarrow> int i \<le> maxM"
    unfolding vec_ok_def sv prod.case by blast+
  have mem: "i \<in> vec_members s \<longleftrightarrow> i div 64 < length v \<and> vec_bit v i" for i
  proof -
    have "i div 64 < length v" if "int i \<le> maxM"
      using that word_index [OF ok(2,3), of "i div 64"] by (metis div_times_less_eq_dividend of_nat_le_iff order_trans)
    then show ?thesis using top by (auto simp: vec_members_def sv)
  qed
  show "m < 65536" if "m \<in> vec_members s" using that ok(1) by (simp add: vec_members_def sv)
  show "BitVectorIsMemberOfSet (fst s) (snd s) pm \<longleftrightarrow> nat pm \<in> vec_members s" if "0 \<le> pm"
    using that and_single_bit [of "nat pm mod 64"]
    by (auto simp: BitVectorIsMemberOfSet_def vec_members_def vec_bit_def sv)
  show "True \<and> (case None of None \<Rightarrow> 0 | Some n \<Rightarrow> n) = (0::nat)" by simp
  define n where "n = (case it of None \<Rightarrow> 0 | Some n \<Rightarrow> n)"
  let ?b = "BitVectorFindBit maxM v n True" and ?e = "BitVectorFindBit maxM v (nat (BitVectorFindBit maxM v n True)) False"
  note first = BitVectorFindBit_spec [OF ok(2,3), of ?b n True, OF refl]
  show "m < (case it of None \<Rightarrow> 0 | Some n \<Rightarrow> n)"
    if "BitVectorIterateSet (fst s) (snd s) it = None" "m \<in> vec_members s"
  proof -
    have "?b = - 1" using that(1) by (auto simp: BitVectorIterateSet_def Let_def sv n_def split: if_splits)
    then have "\<And>i. n \<le> i \<Longrightarrow> i div 64 < length v \<Longrightarrow> \<not> vec_bit v i" using first by auto
    then show ?thesis using that(2) mem unfolding n_def by (metis not_le)
  qed
  assume r: "BitVectorIterateSet (fst s) (snd s) it = Some (iv, it')"
  then have "?b \<noteq> - 1" by (auto simp: BitVectorIterateSet_def Let_def sv n_def split: if_splits)
  then obtain i where i: "?b = int i" "n \<le> i" "i div 64 < length v" "vec_bit v i" "\<And>j. n \<le> j \<Longrightarrow> j < i \<Longrightarrow> \<not> vec_bit v j"
    using first by auto
  define e where "e = BitVectorFindBit maxM v i False"
  have imax: "int i \<le> maxM" using top i by blast
  obtain l where l: "(if e < 0 then maxM else e - 1) = int l" "i \<le> l" "int l \<le> maxM" "Suc l \<notin> vec_members s"
      "{i..l} \<subseteq> vec_members s"
  proof -
    from BitVectorFindBit_spec [OF ok(2,3) e_def]
    consider (no) "e = - 1" "\<And>j. i \<le> j \<Longrightarrow> j div 64 < length v \<Longrightarrow> vec_bit v j"
      | (yes) j where "e = int j" "i \<le> j" "j div 64 < length v" "\<not> vec_bit v j" "\<And>k. i \<le> k \<Longrightarrow> k < j \<Longrightarrow> vec_bit v k"
      by auto
    then show thesis
    proof cases
      case no
      have "x \<in> vec_members s" if "x \<in> {i..nat maxM}" for x
      proof -
        have "int (x div 64 * 64) \<le> maxM" using that imax by (metis atLeastAtMost_iff div_times_less_eq_dividend le_trans nat_0_le nat_int of_nat_0_le_iff of_nat_le_iff order_trans)
        then have "x div 64 < length v" using word_index [OF ok(2,3)] by blast
        then show ?thesis using no(2) that mem by simp
      qed
      then have "{i..nat maxM} \<subseteq> vec_members s" by blast
      moreover have "i \<le> nat maxM" using imax by linarith
      moreover have "Suc (nat maxM) \<notin> vec_members s" by (auto simp: vec_members_def sv)
      moreover have "int (nat maxM) = maxM" using imax by linarith
      ultimately show thesis using that [of "nat maxM"] no(1) by simp
    next
      case yes
      have "i < j" using yes(2,4) i(4) by (metis le_neq_implies_less)
      moreover have "j - 1 \<in> vec_members s" using \<open>i < j\<close> yes(3,5) mem [of "j - 1"] div_le_mono [of "j - 1" j 64] by simp
      moreover have "x \<in> vec_members s" if "x \<in> {i..j - 1}" for x
      proof -
        have "x < j" "i \<le> x" using that \<open>i < j\<close> by auto
        moreover have "x div 64 < length v" using \<open>x < j\<close> yes(3) div_le_mono [of x j 64] by linarith
        ultimately show ?thesis using yes(5) mem by simp
      qed
      moreover have "Suc (j - 1) \<notin> vec_members s" using \<open>i < j\<close> yes(4) mem by simp
      ultimately have "{i..j - 1} \<subseteq> vec_members s" "i \<le> j - 1" "int (j - 1) \<le> maxM" "Suc (j - 1) \<notin> vec_members s"
        by (auto simp: vec_members_def sv)
      moreover have "(if e < 0 then maxM else e - 1) = int (j - 1)" using yes(1) \<open>i < j\<close> by simp
      ultimately show thesis using that [of "j - 1"] by blast
    qed
  qed
  have lb: "l < 65536" "i < 65536" using l(2,3) ok(1) by simp_all
  have iv: "iv = RecordSetInterval (word_of_nat i) (word_of_nat l)" "it' = Some (l + 1)"
    using r lb l(1) i(1) \<open>?b \<noteq> - 1\<close>
    by (simp_all add: BitVectorIterateSet_def Let_def sv n_def [symmetric] e_def [symmetric] unat_of_nat)
  have "lo iv = i" "hi iv = l" using lb by (simp_all add: iv unat_of_nat)
  moreover have "m < n \<or> i \<le> m" if "m \<in> vec_members s" for m using i(5) [of m] that mem by force
  ultimately show "True \<and> (case it' of None \<Rightarrow> 0 | Some n \<Rightarrow> n) = hi iv + 1 \<and> (case it of None \<Rightarrow> 0 | Some n \<Rightarrow> n) \<le> lo iv \<and>
      lo iv \<le> hi iv \<and> {lo iv..hi iv} \<subseteq> vec_members s \<and> hi iv + 1 \<notin> vec_members s \<and>
      (\<forall>m \<in> vec_members s. m < (case it of None \<Rightarrow> 0 | Some n \<Rightarrow> n) \<or> lo iv \<le> m)"
    using i(2) l iv(2) unfolding n_def [symmetric] by auto
qed

section \<open>Created sets\<close>

lemma maxMember_fold:
  "fold (\<lambda>iv m. if m < int (hi iv) then int (hi iv) else m) ivs m0 = Max (insert m0 ((\<lambda>iv. int (hi iv)) ` set ivs))"
proof (induction ivs arbitrary: m0)
  case (Cons iv ivs)
  have "(if m0 < int (hi iv) then int (hi iv) else m0) = max m0 (int (hi iv))" by (simp add: max_def)
  then show ?case
    using Cons [of "max m0 (int (hi iv))"]
    by (cases "set ivs = {}") (simp_all add: insert_commute max.assoc)
qed simp

lemma maxMember_bounds:
  "- 1 \<le> maxMemberInInterval ivs" "maxMemberInInterval ivs < 65536"
  "iv \<in> set ivs \<Longrightarrow> int (hi iv) \<le> maxMemberInInterval ivs"
proof -
  have "uint (i_last a) < 65536" for a
  proof -
    have "uint (i_last a) = int (hi a)" by simp
    then show ?thesis using hi_bound(1) [of a] by linarith
  qed
  then show "- 1 \<le> maxMemberInInterval ivs" "maxMemberInInterval ivs < 65536"
    "iv \<in> set ivs \<Longrightarrow> int (hi iv) \<le> maxMemberInInterval ivs"
    unfolding maxMemberInInterval_def maxMember_fold by simp_all
qed

lemma set_vec_bit_spec:
  "j div 64 < length v \<Longrightarrow> i div 64 < length v \<Longrightarrow> vec_bit (set_vec_bit j v) i \<longleftrightarrow> vec_bit v i \<or> i = j"
proof -
  assume l: "j div 64 < length v" "i div 64 < length v"
  have e: "i = j \<longleftrightarrow> i div 64 = j div 64 \<and> i mod 64 = j mod 64" by (metis div_mult_mod_eq)
  show ?thesis
    using l unfolding e by (cases "i div 64 = j div 64") (auto simp: vec_bit_def set_vec_bit_def bit_simps)
qed

lemma set_vec_bit_length [simp]: "length (set_vec_bit j v) = length v"
  by (simp add: set_vec_bit_def)

lemma set_vec_bits:
  "\<forall>j \<in> set js. j div 64 < length v \<Longrightarrow>
     length (fold set_vec_bit js v) = length v \<and>
     (\<forall>i. i div 64 < length v \<longrightarrow> vec_bit (fold set_vec_bit js v) i \<longleftrightarrow> vec_bit v i \<or> i \<in> set js)"
  by (induction js arbitrary: v) (auto simp: set_vec_bit_spec)

lemma fill_vec:
  "\<forall>iv \<in> set ivs. hi iv div 64 < length v \<Longrightarrow>
     length (fold (\<lambda>iv v. fold set_vec_bit [lo iv..<hi iv + 1] v) ivs v) = length v \<and>
     (\<forall>i. i div 64 < length v \<longrightarrow>
        vec_bit (fold (\<lambda>iv v. fold set_vec_bit [lo iv..<hi iv + 1] v) ivs v) i \<longleftrightarrow> vec_bit v i \<or> i \<in> covers ivs)"
proof (induction ivs arbitrary: v)
  case (Cons iv ivs)
  have "j div 64 < length v" if "j \<in> set [lo iv..<hi iv + 1]" for j
  proof -
    have "j \<le> hi iv" using that by auto
    then show ?thesis using Cons.prems div_le_mono [of j "hi iv" 64] by fastforce
  qed
  then have s: "length (fold set_vec_bit [lo iv..<hi iv + 1] v) = length v"
    "\<And>i. i div 64 < length v \<Longrightarrow> vec_bit (fold set_vec_bit [lo iv..<hi iv + 1] v) i \<longleftrightarrow>
       vec_bit v i \<or> i \<in> set [lo iv..<hi iv + 1]"
    using set_vec_bits [of "[lo iv..<hi iv + 1]" v] by blast+
  have "set [lo iv..<hi iv + 1] = {lo iv..hi iv}" by auto
  then show ?case
    using Cons.IH [of "fold set_vec_bit [lo iv..<hi iv + 1] v"] Cons.prems s by (simp del: upt_Suc)
qed simp

lemma BitVectorCreateSet_ok:
  assumes "BitVectorCreateSet calloc_ok ivs pMem (fst (BitVectorSetMemoryRequirements (maxMemberInInterval ivs))) = Some s"
  shows "vec_ok (maxMember s, bitvec s) \<and> vec_members (maxMember s, bitvec s) = covers ivs \<and>
    s = BitVectorSet (pMem = None) (maxMember s) (bitvec s)"
proof -
  let ?M = "maxMemberInInterval ivs"
  let ?zeros = "replicate (nat (?M + 64) div 64) (0 :: u64)"
  let ?v = "fold (\<lambda>iv v. fold set_vec_bit [lo iv..<hi iv + 1] v) ivs ?zeros"
  have s: "s = BitVectorSet (pMem = None) ?M ?v"
    using assms by (simp add: BitVectorCreateSet_def BitVectorSetMemoryRequirements_def split: if_splits)
  note M = maxMember_bounds(1,2) [of ivs] maxMember_bounds(3) [of _ ivs]
  note idx = word_index [OF M(1), of ?zeros, simplified]
  have "hi iv div 64 < length ?zeros" if "iv \<in> set ivs" for iv
  proof -
    have "int (hi iv div 64 * 64) \<le> int (hi iv)" by (simp only: of_nat_le_iff div_times_less_eq_dividend)
    then show ?thesis using M(3) [OF that] idx [of "hi iv div 64"] by simp
  qed
  then have f: "length ?v = length ?zeros" "\<And>i. i div 64 < length ?zeros \<Longrightarrow> vec_bit ?v i \<longleftrightarrow> i \<in> covers ivs"
    using fill_vec [of ivs ?zeros] by (simp_all add: vec_bit_def)
  have cov: "int i \<le> ?M" if "i \<in> covers ivs" for i
  proof -
    obtain iv where iv: "iv \<in> set ivs" "i \<le> hi iv" using \<open>i \<in> covers ivs\<close> by (auto simp: covers_def)
    have "int i \<le> int (hi iv)" using iv(2) by (simp only: of_nat_le_iff)
    then show ?thesis using M(3) [OF iv(1)] by linarith
  qed
  have idx2: "i div 64 < length ?zeros" if "int i \<le> ?M" for i
  proof -
    have "int (i div 64 * 64) \<le> int i" by (simp only: of_nat_le_iff div_times_less_eq_dividend)
    then show ?thesis using that idx [of "i div 64"] by simp
  qed
  have "vec_ok (?M, ?v)" using M(1,2) f cov by (simp add: vec_ok_def)
  moreover have "vec_members (?M, ?v) = covers ivs"
    using f(2) cov idx2 by (auto simp: vec_members_def)
  ultimately show ?thesis by (simp add: s)
qed

lemma IntervalListCreateSet_eq:
  "IntervalListCreateSet calloc_ok ivs pMem memsize = Some s \<Longrightarrow>
     s = IntervalListSet (pMem = None) (merge_intervals (fold insert_interval ivs []))"
  by (simp add: IntervalListCreateSet_def split: if_splits)

lemma RecordCreateSet_cases:
  assumes "RecordCreateSet calloc_ok ivs pMem = Some s"
  obtains (vector) "BitVectorCreateSet calloc_ok ivs pMem (fst (BitVectorSetMemoryRequirements (maxMemberInInterval ivs))) = Some s"
  | (intervals) memsize where "IntervalListCreateSet calloc_ok ivs pMem memsize = Some s"
  using assms
  by (auto simp: RecordCreateSet_def RecordSetRequirements_def Let_def split: prod.splits if_splits option.splits)

text \<open>C36: A created set holds exactly the numbers of the intervals it was created from, in any
  order and overlapping, whichever representation the heuristic chooses and whoever provides the
  memory.\<close>
theorem RecordCreateSet_members:
  assumes "RecordCreateSet calloc_ok ivs pMem = Some s" "proper ivs" "0 \<le> pm"
  shows "RecordIsMemberOfSet s pm \<longleftrightarrow> (\<exists>iv \<in> set ivs. lo iv \<le> nat pm \<and> nat pm \<le> hi iv)"
proof -
  have "RecordIsMemberOfSet s pm \<longleftrightarrow> nat pm \<in> covers ivs"
    using assms(1)
  proof (cases rule: RecordCreateSet_cases)
    case vector
    then have b: "vec_ok (maxMember s, bitvec s)" "vec_members (maxMember s, bitvec s) = covers ivs"
        "s = BitVectorSet (pMem = None) (maxMember s) (bitvec s)"
      using BitVectorCreateSet_ok by blast+
    show ?thesis using bit_vector.member [OF b(1) assms(3)] b(2) by (subst b(3)) simp
  next
    case (intervals memsize)
    show ?thesis
      using interval_list.member [OF interval_list_canonical(1) [OF assms(2)] assms(3)] interval_list_canonical(2) [OF assms(2)]
        IntervalListCreateSet_eq [OF intervals] by simp
  qed
  then show ?thesis by (auto simp: covers_def)
qed

text \<open>C37: Iterating over a created set ends and yields the set's maximal intervals in increasing
  order, none touching the next; together they are the numbers of the given intervals. Two sets
  created from intervals with the same numbers yield the same list, so the representation cannot
  be observed.\<close>
theorem RecordIterateSet_enumerates:
  assumes "RecordCreateSet calloc_ok ivs pMem = Some s" "proper ivs"
  shows "\<exists>L. collect RecordIterateSet 65537 s None = Some L \<and> canonical 0 L \<and> covers L = covers ivs \<and>
    (\<forall>calloc_ok' ivs' pMem' s'. RecordCreateSet calloc_ok' ivs' pMem' = Some s' \<longrightarrow> proper ivs' \<longrightarrow>
       covers ivs' = covers ivs \<longrightarrow> collect RecordIterateSet 65537 s' None = Some L)"
proof -
  have one: "\<exists>L. collect RecordIterateSet 65537 s None = Some L \<and> canonical 0 L \<and> covers L = covers ivs"
    if c: "RecordCreateSet calloc_ok ivs pMem = Some s" and p: "proper ivs" for calloc_ok ivs pMem s
    using c
  proof (cases rule: RecordCreateSet_cases)
    case vector
    then have b: "vec_ok (maxMember s, bitvec s)" "vec_members (maxMember s, bitvec s) = covers ivs"
        "s = BitVectorSet (pMem = None) (maxMember s) (bitvec s)"
      using BitVectorCreateSet_ok by blast+
    have "collect RecordIterateSet n (BitVectorSet w M v) it =
        collect (\<lambda>s. BitVectorIterateSet (fst s) (snd s)) n (M, v) it" for n w M v it
      by (induction n arbitrary: it) (simp_all split: option.split prod.split)
    then show ?thesis using bit_vector.collect_all [OF b(1)] b(2) by (subst b(3)) simp
  next
    case (intervals memsize)
    have "collect RecordIterateSet n (IntervalListSet w xs) it = collect IntervalListIterateSet n xs it" for n w xs it
      by (induction n arbitrary: it) (simp_all split: option.split prod.split)
    then show ?thesis
      using interval_list.collect_all [OF interval_list_canonical(1) [OF p]] interval_list_canonical(2) [OF p]
        IntervalListCreateSet_eq [OF intervals] by simp
  qed
  obtain L where L: "collect RecordIterateSet 65537 s None = Some L" "canonical 0 L" "covers L = covers ivs"
    using one [OF assms] by blast
  have "collect RecordIterateSet 65537 s' None = Some L"
    if "RecordCreateSet calloc_ok' ivs' pMem' = Some s'" "proper ivs'" "covers ivs' = covers ivs"
    for calloc_ok' ivs' pMem' s'
    using one [OF that(1,2)] that(3) L(2,3) canonical_unique by metis
  then show ?thesis using L by blast
qed

section \<open>Witnesses\<close>

definition demo_intervals :: "RecordSetInterval list" where
  "demo_intervals = [RecordSetInterval 70 80, RecordSetInterval 3 5, RecordSetInterval 75 90]"

lemma demo_set: "\<exists>s. RecordCreateSet True demo_intervals None = Some s" "proper demo_intervals"
  by (simp_all add: RecordCreateSet_def BitVectorCreateSet_def IntervalListCreateSet_def proper_def demo_intervals_def
      split: prod.split RecordCreateSetProc.split)

theorem RecordCreateSet_members_witness:
  "\<exists>s. RecordCreateSet True demo_intervals None = Some s \<and> RecordIsMemberOfSet s 85 \<and> \<not> RecordIsMemberOfSet s 6"
proof -
  obtain s where s: "RecordCreateSet True demo_intervals None = Some s" using demo_set(1) by blast
  have "RecordIsMemberOfSet s 85" "\<not> RecordIsMemberOfSet s 6"
    using RecordCreateSet_members [OF s demo_set(2), of 85] RecordCreateSet_members [OF s demo_set(2), of 6]
    by (simp_all add: demo_intervals_def)
  then show ?thesis using s by blast
qed

theorem RecordIterateSet_enumerates_witness:
  "\<exists>s. RecordCreateSet True demo_intervals None = Some s \<and>
     collect RecordIterateSet 65537 s None = Some [RecordSetInterval 3 5, RecordSetInterval 70 90]"
proof -
  obtain s where s: "RecordCreateSet True demo_intervals None = Some s" using demo_set(1) by blast
  obtain L where L: "collect RecordIterateSet 65537 s None = Some L" "canonical 0 L" "covers L = covers demo_intervals"
    using RecordIterateSet_enumerates [OF s demo_set(2)] by blast
  have "canonical 0 [RecordSetInterval 3 5, RecordSetInterval 70 90]" by simp
  moreover have "covers L = covers [RecordSetInterval 3 5, RecordSetInterval 70 90]"
    unfolding L(3) by (auto simp: demo_intervals_def)
  ultimately have "L = [RecordSetInterval 3 5, RecordSetInterval 70 90]" using canonical_unique [OF L(2)] by simp
  then show ?thesis using s L(1) by blast
qed

end
