(* ===== verification/Hash_Tables.thy ===== *)
theory Hash_Tables
  imports Resource_Laws
begin

text \<open>
  \<open>Xext/hashtable.c\<close>: the chained hash table with doubling that extensions use. A table is
  its record with the chains of the buckets as lists, newest node first; a key is stored by
  value (the code copies it), a data block is an address, and the blocks are a store from
  addresses to their bytes, since the caller writes them through the pointers it is given.
  What the four allocations of an insertion return is an argument of the insertion.
\<close>

section \<open>State\<close>

definition INITHASHSIZE_ht :: nat where
  "INITHASHSIZE_ht = 6"

definition MAXHASHSIZE_ht :: nat where
  "MAXHASHSIZE_ht = 11"

text \<open>\<open>brec_data\<close> is \<open>None\<close> for the NULL that \<open>calloc(1, 0)\<close> may return.\<close>

record 'k bucket_rec =
  brec_key :: 'k
  brec_data :: "nat option"

record 'k hash_table =
  keySize :: nat
  dataSize :: nat
  elements :: nat
  bucketBits :: nat
  ht_buckets :: "'k bucket_rec list list"
  ht_hash :: "'k \<Rightarrow> nat \<Rightarrow> nat"
  ht_compare :: "'k \<Rightarrow> 'k \<Rightarrow> int"

type_synonym store = "nat \<rightharpoonup> byte list"

text \<open>
  A pointer into a table: the data block of a node, or the byte after its key where the table
  keeps no data.
\<close>

datatype 'k ht_ptr = DataAt nat | AfterKey 'k

text \<open>What the allocations of one call return.\<close>

record ht_mem =
  elem_mem :: bool
  key_mem :: bool
  data_mem :: "nat option"
  buckets_mem :: bool

section \<open>Operations\<close>

definition ht_create ::
    "bool \<Rightarrow> bool \<Rightarrow> nat \<Rightarrow> nat \<Rightarrow> ('k \<Rightarrow> nat \<Rightarrow> nat) \<Rightarrow> ('k \<Rightarrow> 'k \<Rightarrow> int) \<Rightarrow> 'k hash_table option" where
  "ht_create table_mem buckets_ok ks ds hash compare =
     (if \<not> table_mem then None
      else if buckets_ok
      then Some \<lparr>keySize = ks, dataSize = ds, elements = 0, bucketBits = INITHASHSIZE_ht,
             ht_buckets = replicate (2 ^ INITHASHSIZE_ht) [], ht_hash = hash, ht_compare = compare\<rparr>
      else None)"

definition free_data :: "'k bucket_rec \<Rightarrow> store \<Rightarrow> store" where
  "free_data it h = (case brec_data it of None \<Rightarrow> h | Some a \<Rightarrow> h(a := None))"

definition ht_destroy :: "'k hash_table \<Rightarrow> store \<Rightarrow> store" where
  "ht_destroy ht h = fold free_data (concat (ht_buckets ht)) h"

definition move_node ::
    "('k \<Rightarrow> nat \<Rightarrow> nat) \<Rightarrow> nat \<Rightarrow> 'k bucket_rec list list \<Rightarrow> 'k bucket_rec \<Rightarrow> 'k bucket_rec list list" where
  "move_node hash bits newBuckets it =
     (let c = hash (brec_key it) bits in newBuckets[c := it # newBuckets ! c])"

definition double_size :: "bool \<Rightarrow> 'k hash_table \<Rightarrow> bool \<times> 'k hash_table" where
  "double_size buckets_ok ht =
     (let newBucketBits = bucketBits ht + 1
      in if buckets_ok
         then (True, ht\<lparr>ht_buckets := foldl (move_node (ht_hash ht) newBucketBits)
                            (replicate (2 ^ newBucketBits) []) (concat (ht_buckets ht)),
                        bucketBits := newBucketBits\<rparr>)
         else (False, ht))"

definition node_ptr :: "'k bucket_rec \<Rightarrow> 'k ht_ptr" where
  "node_ptr it = (case brec_data it of Some a \<Rightarrow> DataAt a | None \<Rightarrow> AfterKey (brec_key it))"

definition ht_add ::
    "ht_mem \<Rightarrow> 'k \<Rightarrow> 'k hash_table \<Rightarrow> store \<Rightarrow> 'k ht_ptr option \<times> 'k hash_table \<times> store" where
  "ht_add mem key ht h =
     (let index = ht_hash ht key (bucketBits ht);
          elem = \<lparr>brec_key = key, brec_data = data_mem mem\<rparr>
      in if \<not> elem_mem mem then (None, ht, h)
         else if \<not> key_mem mem then (None, ht, h)
         else if dataSize ht \<noteq> 0 \<and> data_mem mem = None then (None, ht, h)
         else
           (let h1 = (case data_mem mem of None \<Rightarrow> h | Some a \<Rightarrow> h(a \<mapsto> replicate (dataSize ht) 0));
                ht1 = ht\<lparr>ht_buckets := (ht_buckets ht)[index := elem # ht_buckets ht ! index],
                         elements := elements ht + 1\<rparr>
            in if elements ht1 > 4 * 2 ^ bucketBits ht1 \<and> bucketBits ht1 < MAXHASHSIZE_ht
               then (case double_size (buckets_mem mem) ht1 of
                       (True, ht2) \<Rightarrow> (Some (node_ptr elem), ht2, h1)
                     | (False, ht2) \<Rightarrow>
                         (None,
                          ht2\<lparr>elements := elements ht2 - 1,
                              ht_buckets := (ht_buckets ht2)[index := List.tl (ht_buckets ht2 ! index)]\<rparr>,
                          free_data elem h1))
               else (Some (node_ptr elem), ht1, h1)))"

definition key_matches :: "'k hash_table \<Rightarrow> 'k \<Rightarrow> 'k bucket_rec \<Rightarrow> bool" where
  "key_matches ht key it = (ht_compare ht key (brec_key it) = 0)"

definition ht_remove :: "'k \<Rightarrow> 'k hash_table \<Rightarrow> store \<Rightarrow> 'k hash_table \<times> store" where
  "ht_remove key ht h =
     (let index = ht_hash ht key (bucketBits ht); bucket = ht_buckets ht ! index
      in case find (key_matches ht key) bucket of
           None \<Rightarrow> (ht, h)
         | Some it \<Rightarrow>
             (ht\<lparr>ht_buckets := (ht_buckets ht)[index := remove_first (key_matches ht key) bucket],
                 elements := elements ht - 1\<rparr>,
              free_data it h))"

definition ht_find :: "'k hash_table \<Rightarrow> 'k \<Rightarrow> 'k ht_ptr option" where
  "ht_find ht key =
     map_option node_ptr
       (find (key_matches ht key) (ht_buckets ht ! ht_hash ht key (bucketBits ht)))"

text \<open>The two debugging dumps, as the numbers and nodes they print in order.\<close>

definition ht_dump_distribution :: "'k hash_table \<Rightarrow> (nat \<times> nat) list" where
  "ht_dump_distribution ht =
     map (\<lambda>c. (c, length (ht_buckets ht ! c))) [0..<2 ^ bucketBits ht]"

definition ht_dump_contents :: "'k hash_table \<Rightarrow> (nat \<times> ('k \<times> nat option) list) list" where
  "ht_dump_contents ht =
     map (\<lambda>c. (c, map (\<lambda>it. (brec_key it, brec_data it)) (ht_buckets ht ! c)))
       [0..<2 ^ bucketBits ht]"

section \<open>The hash and comparison functions\<close>

text \<open>
  \<open>char\<close> is signed where the server is built, so a byte is sign-extended before it is added.
\<close>

definition hash_byte :: "u32 \<Rightarrow> byte \<Rightarrow> u32" where
  "hash_byte hash0 b =
     (let hash1 = hash0 + scast b; hash2 = hash1 + push_bit 10 hash1
      in hash2 XOR drop_bit 6 hash2)"

definition one_at_a_time_hash :: "byte list \<Rightarrow> nat \<Rightarrow> u32" where
  "one_at_a_time_hash data len =
     (let hash0 = foldl hash_byte 0 (take len data);
          hash1 = hash0 + push_bit 3 hash0;
          hash2 = hash1 XOR drop_bit 11 hash1
      in hash2 + push_bit 15 hash2)"

definition ht_generic_hash :: "nat \<Rightarrow> byte list \<Rightarrow> nat \<Rightarrow> nat" where
  "ht_generic_hash ks p numBits =
     unat (one_at_a_time_hash p ks AND NOT (push_bit numBits (NOT 0)))"

fun memcmp :: "byte list \<Rightarrow> byte list \<Rightarrow> nat \<Rightarrow> int" where
  "memcmp (x # xs) (y # ys) (Suc n) =
     (if x = y then memcmp xs ys n else if x < y then -1 else 1)"
| "memcmp _ _ _ = 0"

definition ht_generic_compare :: "nat \<Rightarrow> byte list \<Rightarrow> byte list \<Rightarrow> int" where
  "ht_generic_compare ks l r = memcmp l r ks"

definition ht_resourceid_hash :: "int \<Rightarrow> u32 \<Rightarrow> nat \<Rightarrow> nat" where
  "ht_resourceid_hash limit xid numBits =
     (let i = xid AND RESOURCE_ID_MASK limit in HashResourceID limit i numBits)"

definition ht_resourceid_compare :: "u32 \<Rightarrow> u32 \<Rightarrow> int" where
  "ht_resourceid_compare a b = (if a < b then -1 else if a > b then 1 else 0)"


section \<open>The contract of hash and comparison\<close>

text \<open>
  What the table asks of its two functions on the keys a client uses: the hash stays below the
  number of buckets, and the comparison is zero on equal keys only.
\<close>

locale hash_contract =
  fixes hash :: "'k \<Rightarrow> nat \<Rightarrow> nat" and compare :: "'k \<Rightarrow> 'k \<Rightarrow> int" and valid :: "'k \<Rightarrow> bool"
  assumes hash_below: "valid k \<Longrightarrow> hash k bits < 2 ^ bits"
    and compare_zero: "valid k \<Longrightarrow> valid k' \<Longrightarrow> compare k k' = 0 \<longleftrightarrow> k = k'"

text \<open>
  The nodes of a table, whatever bucket they are in: valid keys, no key twice, and a data block
  of its own for each, of the table's data size.
\<close>

definition nodes :: "'k hash_table \<Rightarrow> 'k bucket_rec list" where
  "nodes ht = concat (ht_buckets ht)"

definition blocks :: "'k bucket_rec list \<Rightarrow> nat list" where
  "blocks its = List.map_filter brec_data its"

definition node_ok :: "('k \<Rightarrow> bool) \<Rightarrow> nat \<Rightarrow> store \<Rightarrow> 'k bucket_rec \<Rightarrow> bool" where
  "node_ok valid ds h it \<longleftrightarrow> valid (brec_key it) \<and>
     (case brec_data it of None \<Rightarrow> ds = 0 | Some a \<Rightarrow> (\<exists>bs. h a = Some bs \<and> length bs = ds))"

definition nodes_ok :: "('k \<Rightarrow> bool) \<Rightarrow> nat \<Rightarrow> store \<Rightarrow> 'k bucket_rec list \<Rightarrow> bool" where
  "nodes_ok valid ds h its \<longleftrightarrow> (\<forall>it \<in> set its. node_ok valid ds h it) \<and>
     distinct (map brec_key its) \<and> distinct (blocks its)"

definition ht_inv :: "('k \<Rightarrow> bool) \<Rightarrow> store \<Rightarrow> 'k hash_table \<Rightarrow> bool" where
  "ht_inv valid h ht \<longleftrightarrow>
     INITHASHSIZE_ht \<le> bucketBits ht \<and> bucketBits ht \<le> MAXHASHSIZE_ht \<and>
     length (ht_buckets ht) = 2 ^ bucketBits ht \<and>
     (\<forall>i < 2 ^ bucketBits ht. \<forall>it \<in> set (ht_buckets ht ! i). ht_hash ht (brec_key it) (bucketBits ht) = i) \<and>
     elements ht = length (nodes ht) \<and>
     (elements ht \<le> 4 * 2 ^ bucketBits ht \<or> bucketBits ht = MAXHASHSIZE_ht) \<and>
     nodes_ok valid (dataSize ht) h (nodes ht)"

text \<open>What a table says of a key: the bytes of its data block.\<close>

definition deref :: "store \<Rightarrow> 'k ht_ptr \<Rightarrow> byte list option" where
  "deref h p = (case p of DataAt a \<Rightarrow> h a | AfterKey _ \<Rightarrow> Some [])"

definition contents :: "store \<Rightarrow> 'k hash_table \<Rightarrow> 'k \<rightharpoonup> byte list" where
  "contents h ht k = (case ht_find ht k of None \<Rightarrow> None | Some p \<Rightarrow> deref h p)"

lemma mset_concat_update:
  "i < length bs \<Longrightarrow> mset (concat (bs[i := x # bs ! i])) = add_mset x (mset (concat bs))"
  using mset_concat_replace [of i bs "x # bs ! i"] by simp

lemma mset_concat_remove:
  assumes "i < length bs" "bs ! i = xs @ x # ys"
  shows "mset (concat bs) = add_mset x (mset (concat (bs[i := xs @ ys])))"
  using assms by (induction bs arbitrary: i) (auto split: nat.splits)

lemma blocks_simps [simp]:
  "blocks [] = []"
  "blocks (it # its) = (case brec_data it of None \<Rightarrow> blocks its | Some a \<Rightarrow> a # blocks its)"
  by (auto simp: blocks_def List.map_filter_simps split: option.splits)

lemma set_blocks: "a \<in> set (blocks its) \<longleftrightarrow> (\<exists>it \<in> set its. brec_data it = Some a)"
  by (induction its) (auto split: option.splits)

lemma mset_blocks: "mset xs = mset ys \<Longrightarrow> mset (blocks xs) = mset (blocks ys)"
  unfolding blocks_def List.map_filter_def by (simp add: mset_filter)

lemma nodes_ok_perm: "mset xs = mset ys \<Longrightarrow> nodes_ok v ds h xs = nodes_ok v ds h ys"
  unfolding nodes_ok_def
  by (metis mset_blocks mset_eq_imp_distinct_iff mset_eq_setD mset_map)

lemma length_foldl_move [simp]: "length (foldl (move_node hf bits) tbl its) = length tbl"
  by (induction its arbitrary: tbl) (simp_all add: move_node_def Let_def)

text \<open>Moving nodes over: each goes to the head of its bucket, so their order is reversed.\<close>

lemma foldl_move_nth:
  assumes "\<forall>it \<in> set its. hf (brec_key it) bits < length tbl" "b < length tbl"
  shows "foldl (move_node hf bits) tbl its ! b =
    rev (filter (\<lambda>it. hf (brec_key it) bits = b) its) @ tbl ! b"
  using assms
  by (induction its arbitrary: tbl) (auto simp: move_node_def Let_def nth_list_update)

lemma mset_foldl_move:
  assumes "\<forall>it \<in> set its. hf (brec_key it) bits < length tbl"
  shows "mset (concat (foldl (move_node hf bits) tbl its)) = mset (concat tbl) + mset its"
  using assms
  by (induction its arbitrary: tbl) (auto simp: move_node_def Let_def mset_concat_update)


lemma set_nodes:
  "length (ht_buckets ht) = n \<Longrightarrow> it \<in> set (nodes ht) \<longleftrightarrow> (\<exists>i < n. it \<in> set (ht_buckets ht ! i))"
  unfolding nodes_def set_concat by (auto simp: set_conv_nth [of "ht_buckets ht"])

lemma ht_inv_node:
  assumes "ht_inv valid h ht" "it \<in> set (nodes ht)"
  shows "valid (brec_key it)"
    and "brec_data it = Some a \<Longrightarrow> \<exists>bs. h a = Some bs \<and> length bs = dataSize ht"
    and "brec_data it = None \<Longrightarrow> dataSize ht = 0"
proof -
  have "node_ok valid (dataSize ht) h it" using assms by (simp add: ht_inv_def nodes_ok_def)
  then show "valid (brec_key it)" "brec_data it = Some a \<Longrightarrow> \<exists>bs. h a = Some bs \<and> length bs = dataSize ht"
    "brec_data it = None \<Longrightarrow> dataSize ht = 0"
    by (auto simp: node_ok_def split: option.splits)
qed

lemma key_unique:
  "distinct (map brec_key its) \<Longrightarrow> it \<in> set its \<Longrightarrow> it' \<in> set its \<Longrightarrow> brec_key it = brec_key it' \<Longrightarrow> it = it'"
  by (metis distinct_map inj_onD)

context hash_contract begin

lemma find_node_eq:
  assumes inv: "ht_inv valid h ht" and ops: "ht_hash ht = hash" "ht_compare ht = compare" and k: "valid k"
  shows "find (key_matches ht k) (ht_buckets ht ! hash k (bucketBits ht)) = Some it \<longleftrightarrow>
    it \<in> set (nodes ht) \<and> brec_key it = k" (is "find _ ?b = _ \<longleftrightarrow> _")
proof -
  let ?n = "2 ^ bucketBits ht :: nat"
  have len: "length (ht_buckets ht) = ?n" and ok: "nodes_ok valid (dataSize ht) h (nodes ht)"
    and home: "\<forall>i < ?n. \<forall>it \<in> set (ht_buckets ht ! i). hash (brec_key it) (bucketBits ht) = i"
    using inv ops by (simp_all add: ht_inv_def)
  have i: "hash k (bucketBits ht) < ?n" by (rule hash_below [OF k])
  have sub: "set ?b \<subseteq> set (nodes ht)" using set_nodes [OF len] i by auto
  have match: "key_matches ht k it \<longleftrightarrow> brec_key it = k" if m: "it \<in> set ?b" for it
  proof -
    have "valid (brec_key it)" using sub m ok by (auto simp: nodes_ok_def node_ok_def)
    then show ?thesis using compare_zero [OF k] by (auto simp: key_matches_def ops(2))
  qed
  have here: "it \<in> set ?b" if m: "it \<in> set (nodes ht)" "brec_key it = k" for it
    using set_nodes [OF len] home m by auto
  show ?thesis (is "?l \<longleftrightarrow> ?r")
  proof
    assume ?l
    then have "it \<in> set ?b" "key_matches ht k it" by (auto dest: find_SomeD)
    then show ?r using sub match by auto
  next
    assume r: ?r
    then obtain it' where f: "find (key_matches ht k) ?b = Some it'"
      using here match by (cases "find (key_matches ht k) ?b") (auto simp: find_None_iff_set)
    then have "it' \<in> set ?b" "brec_key it' = k" using match by (auto dest: find_SomeD)
    then have "it' = it" using r sub ok key_unique [of "nodes ht" it' it] by (auto simp: nodes_ok_def)
    then show ?l using f by simp
  qed
qed

lemma ht_find_eq:
  assumes "ht_inv valid h ht" "ht_hash ht = hash" "ht_compare ht = compare" "valid k"
  shows "ht_find ht k = Some p \<longleftrightarrow> (\<exists>it \<in> set (nodes ht). brec_key it = k \<and> p = node_ptr it)"
  using find_node_eq [OF assms] by (auto simp: ht_find_def assms(2))

lemma contents_node:
  assumes inv: "ht_inv valid h ht" "ht_hash ht = hash" "ht_compare ht = compare"
    and it: "it \<in> set (nodes ht)"
  shows "contents h ht (brec_key it) = deref h (node_ptr it)"
proof -
  have "valid (brec_key it)" by (rule ht_inv_node [OF inv(1) it])
  then have "ht_find ht (brec_key it) = Some (node_ptr it)" using ht_find_eq [OF inv] it by auto
  then show ?thesis by (simp add: contents_def)
qed

lemma contents_none:
  assumes inv: "ht_inv valid h ht" "ht_hash ht = hash" "ht_compare ht = compare" and k: "valid k"
  shows "contents h ht k = None \<longleftrightarrow> k \<notin> brec_key ` set (nodes ht)"
proof -
  have "deref h (node_ptr it) \<noteq> None" if it: "it \<in> set (nodes ht)" for it
    using ht_inv_node(2) [OF inv(1) it] by (cases "brec_data it") (auto simp: node_ptr_def deref_def)
  then have some: "ht_find ht k = Some p \<Longrightarrow> contents h ht k \<noteq> None" for p
    using ht_find_eq [OF inv k, of p] by (auto simp: contents_def)
  have "ht_find ht k = None \<longleftrightarrow> k \<notin> brec_key ` set (nodes ht)"
    using ht_find_eq [OF inv k] by (cases "ht_find ht k") auto
  then show ?thesis using some by (cases "ht_find ht k") (auto simp: contents_def)
qed

text \<open>Two tables with the same nodes have the same contents, where their blocks agree.\<close>

lemma contents_same_nodes:
  assumes "ht_inv valid h ht" "ht_hash ht = hash" "ht_compare ht = compare"
    and "ht_inv valid h' ht'" "ht_hash ht' = hash" "ht_compare ht' = compare"
    and k: "valid k"
    and here: "\<And>it. brec_key it = k \<Longrightarrow> it \<in> set (nodes ht) \<longleftrightarrow> it \<in> set (nodes ht')"
    and same: "\<And>it a. it \<in> set (nodes ht) \<Longrightarrow> brec_key it = k \<Longrightarrow> brec_data it = Some a \<Longrightarrow> h a = h' a"
  shows "contents h ht k = contents h' ht' k"
proof (cases "k \<in> brec_key ` set (nodes ht)")
  case True
  then obtain it where it: "it \<in> set (nodes ht)" "brec_key it = k" by auto
  then have "deref h (node_ptr it) = deref h' (node_ptr it)"
    using same by (auto simp: node_ptr_def deref_def split: option.splits)
  then show ?thesis using contents_node [OF assms(1-3)] contents_node [OF assms(4-6)] it here by metis
next
  case False
  then have "k \<notin> brec_key ` set (nodes ht')" using here by auto
  then show ?thesis using False contents_none [OF assms(1-3) k] contents_none [OF assms(4-6) k] by simp
qed

text \<open>Doubling a table keeps its nodes, whatever the bound on their number was.\<close>

lemma double_size_nodes:
  assumes inv: "length (ht_buckets ht) = 2 ^ bucketBits ht" "nodes_ok valid (dataSize ht) h (nodes ht)"
    "ht_hash ht = hash"
    and d: "double_size True ht = (True, ht')"
  shows "mset (nodes ht') = mset (nodes ht)" "length (ht_buckets ht') = 2 ^ bucketBits ht'"
    "\<forall>i < 2 ^ bucketBits ht'. \<forall>it \<in> set (ht_buckets ht' ! i). hash (brec_key it) (bucketBits ht') = i"
proof -
  let ?m = "bucketBits ht + 1" and ?its = "concat (ht_buckets ht)"
  have b: "\<forall>it \<in> set ?its. hash (brec_key it) ?m < 2 ^ ?m"
    using inv(2) hash_below [of _ ?m] unfolding nodes_ok_def node_ok_def nodes_def by blast
  have ht': "ht' = ht\<lparr>ht_buckets := foldl (move_node hash ?m) (replicate (2 ^ ?m) []) ?its, bucketBits := ?m\<rparr>"
    using d inv(3) by (simp add: double_size_def Let_def)
  show "mset (nodes ht') = mset (nodes ht)"
    using mset_foldl_move [of ?its hash ?m "replicate (2 ^ ?m) []"] b by (simp add: nodes_def ht' concat_replicate_trivial)
  show "length (ht_buckets ht') = 2 ^ bucketBits ht'" by (simp add: ht')
  show "\<forall>i < 2 ^ bucketBits ht'. \<forall>it \<in> set (ht_buckets ht' ! i). hash (brec_key it) (bucketBits ht') = i"
    using foldl_move_nth [of ?its hash ?m "replicate (2 ^ ?m) []"] b by (auto simp: ht')
qed

end


section \<open>Each operation against a map\<close>

lemma find_remove_first_split:
  "find P xs = Some x \<Longrightarrow> \<exists>us vs. xs = us @ x # vs \<and> remove_first P xs = us @ vs"
proof (induction xs)
  case (Cons y ys)
  show ?case
  proof (cases "P y")
    case True
    then show ?thesis using Cons.prems by (auto intro: exI [of _ "[]"])
  next
    case False
    then obtain us vs where "ys = us @ x # vs" "remove_first P ys = us @ vs" using Cons by auto
    then show ?thesis using False by - (rule exI [of _ "y # us"], rule exI [of _ vs], simp)
  qed
qed simp

lemma fold_free_data: "fold free_data its h = h |` (- set (blocks its))"
  by (induction its arbitrary: h) (auto simp: free_data_def restrict_map_def fun_eq_iff split: option.splits)

lemma ht_destroy_eq: "ht_destroy ht h = h |` (- set (blocks (nodes ht)))"
  by (simp add: ht_destroy_def nodes_def fold_free_data)

lemma nodes_ok_add:
  assumes "nodes_ok v ds h its" "v k" "k \<notin> brec_key ` set its" "ds = 0 \<or> d \<noteq> None"
    and "\<And>a. d = Some a \<Longrightarrow> h a = None"
  shows "nodes_ok v ds (case d of None \<Rightarrow> h | Some a \<Rightarrow> h(a \<mapsto> replicate ds 0))
    (\<lparr>brec_key = k, brec_data = d\<rparr> # its)"
proof -
  have "brec_data it \<noteq> Some a" if "it \<in> set its" "d = Some a" for it a
    using that assms(1,5) by (auto simp: nodes_ok_def node_ok_def)
  then show ?thesis
    using assms by (cases d) (auto simp: nodes_ok_def node_ok_def set_blocks split: option.splits)
qed

lemma nodes_ok_free:
  assumes "nodes_ok v ds h (it # its)"
  shows "nodes_ok v ds (free_data it h) its"
  using assms
  by (auto simp: nodes_ok_def node_ok_def free_data_def set_blocks split: option.splits)

context hash_contract begin

definition is_table :: "store \<Rightarrow> 'k hash_table \<Rightarrow> bool" where
  "is_table h ht \<longleftrightarrow> ht_inv valid h ht \<and> ht_hash ht = hash \<and> ht_compare ht = compare"

lemma is_tableD:
  assumes "is_table h ht"
  shows "ht_inv valid h ht" "ht_hash ht = hash" "ht_compare ht = compare"
  using assms by (simp_all add: is_table_def)

text \<open>Putting a new node at the head of its bucket.\<close>

lemma link_node_inv:
  assumes t: "is_table h ht" and k: "valid (brec_key it)"
    and ht1: "ht1 = ht\<lparr>ht_buckets := (ht_buckets ht)[hash (brec_key it) (bucketBits ht) :=
                it # ht_buckets ht ! hash (brec_key it) (bucketBits ht)], elements := elements ht + 1\<rparr>"
  shows "mset (nodes ht1) = add_mset it (mset (nodes ht))"
    "length (ht_buckets ht1) = 2 ^ bucketBits ht1"
    "\<forall>i < 2 ^ bucketBits ht1. \<forall>x \<in> set (ht_buckets ht1 ! i). hash (brec_key x) (bucketBits ht1) = i"
    "elements ht1 = length (nodes ht1)"
proof -
  have len: "length (ht_buckets ht) = 2 ^ bucketBits ht" and el: "elements ht = length (nodes ht)"
    and home: "\<forall>i < 2 ^ bucketBits ht. \<forall>x \<in> set (ht_buckets ht ! i). hash (brec_key x) (bucketBits ht) = i"
    using is_tableD [OF t] by (simp_all add: ht_inv_def)
  have i: "hash (brec_key it) (bucketBits ht) < 2 ^ bucketBits ht" by (rule hash_below [OF k])
  show m: "mset (nodes ht1) = add_mset it (mset (nodes ht))"
    using i len by (simp add: nodes_def ht1 mset_concat_update)
  then have "length (nodes ht1) = Suc (length (nodes ht))" using size_mset by (metis size_add_mset)
  then show "elements ht1 = length (nodes ht1)" using el by (simp add: ht1)
  show "length (ht_buckets ht1) = 2 ^ bucketBits ht1" using len by (simp add: ht1)
  show "\<forall>i < 2 ^ bucketBits ht1. \<forall>x \<in> set (ht_buckets ht1 ! i). hash (brec_key x) (bucketBits ht1) = i"
    using home i len by (auto simp: ht1 nth_list_update)
qed

lemma ht_add_nodes:
  assumes t: "is_table h ht" and k: "valid k" "k \<notin> brec_key ` set (nodes ht)"
    and fresh: "\<And>a. data_mem m = Some a \<Longrightarrow> h a = None"
    and add: "ht_add m k ht h = (r, ht', h')"
  shows "case r of
      None \<Rightarrow> ht' = ht \<and> h' = h
    | Some p \<Rightarrow> is_table h' ht' \<and> dataSize ht' = dataSize ht \<and>
        p = node_ptr \<lparr>brec_key = k, brec_data = data_mem m\<rparr> \<and> (data_mem m = None \<longrightarrow> dataSize ht = 0) \<and>
        h' = (case data_mem m of None \<Rightarrow> h | Some a \<Rightarrow> h(a \<mapsto> replicate (dataSize ht) 0)) \<and>
        mset (nodes ht') = add_mset \<lparr>brec_key = k, brec_data = data_mem m\<rparr> (mset (nodes ht))"
proof -
  let ?it = "\<lparr>brec_key = k, brec_data = data_mem m\<rparr>"
  let ?i = "hash k (bucketBits ht)"
  let ?h1 = "case data_mem m of None \<Rightarrow> h | Some a \<Rightarrow> h(a \<mapsto> replicate (dataSize ht) 0)"
  define ht1 where "ht1 = ht\<lparr>ht_buckets := (ht_buckets ht)[?i := ?it # ht_buckets ht ! ?i], elements := elements ht + 1\<rparr>"
  note inv = is_tableD [OF t]
  show ?thesis
  proof (cases "elem_mem m \<and> key_mem m \<and> (dataSize ht = 0 \<or> data_mem m \<noteq> None)")
    case False
    then have "r = None \<and> ht' = ht \<and> h' = h"
      using add by (auto simp: ht_add_def Let_def split: if_splits)
    then show ?thesis by simp
  next
    case ok: True
    note l = link_node_inv [OF t, of ?it ht1, unfolded bucket_rec.select_convs, OF k(1) ht1_def]
    have bits: "INITHASHSIZE_ht \<le> bucketBits ht" "bucketBits ht \<le> MAXHASHSIZE_ht"
      and len: "length (ht_buckets ht) = 2 ^ bucketBits ht"
      using inv(1) by (simp_all add: ht_inv_def)
    have nok: "nodes_ok valid (dataSize ht) ?h1 (?it # nodes ht)"
      by (rule nodes_ok_add) (use inv(1) k ok fresh in \<open>auto simp: ht_inv_def\<close>)
    have nok1: "nodes_ok valid (dataSize ht) ?h1 (nodes ht1)"
      using nok nodes_ok_perm [of "nodes ht1" "?it # nodes ht"] l(1) by simp
    have f1: "ht_hash ht1 = hash" "ht_compare ht1 = compare" "dataSize ht1 = dataSize ht"
      "bucketBits ht1 = bucketBits ht" "elements ht1 = elements ht + 1"
      using inv by (simp_all add: ht1_def)
    have add': "ht_add m k ht h =
      (if elements ht1 > 4 * 2 ^ bucketBits ht1 \<and> bucketBits ht1 < MAXHASHSIZE_ht
       then (case double_size (buckets_mem m) ht1 of
               (True, ht2) \<Rightarrow> (Some (node_ptr ?it), ht2, ?h1)
             | (False, ht2) \<Rightarrow> (None,
                 ht2\<lparr>elements := elements ht2 - 1, ht_buckets := (ht_buckets ht2)[?i := List.tl (ht_buckets ht2 ! ?i)]\<rparr>,
                 free_data ?it ?h1))
       else (Some (node_ptr ?it), ht1, ?h1))"
      using ok inv(2) by (auto simp: ht_add_def Let_def ht1_def)
    show ?thesis
    proof (cases "elements ht1 > 4 * 2 ^ bucketBits ht1 \<and> bucketBits ht1 < MAXHASHSIZE_ht")
      case False
      have "is_table ?h1 ht1"
        using False l nok1 f1 bits by (auto simp: is_table_def ht_inv_def)
      then show ?thesis using add add' False ok l(1) f1 by auto
    next
      case grow: True
      show ?thesis
      proof (cases "buckets_mem m")
        case True
        obtain ht2 where d: "double_size True ht1 = (True, ht2)" by (simp add: double_size_def Let_def)
        note n = double_size_nodes [OF l(2) _ f1(1) d, of ?h1, unfolded f1(3), OF nok1]
        have f2: "ht_hash ht2 = hash" "ht_compare ht2 = compare" "dataSize ht2 = dataSize ht"
          "bucketBits ht2 = bucketBits ht + 1" "elements ht2 = elements ht + 1"
          using d f1 by (auto simp: double_size_def Let_def)
        have nl: "length (nodes ht2) = length (nodes ht1)" by (rule mset_eq_length [OF n(1)])
        have load: "elements ht \<le> 4 * 2 ^ bucketBits ht"
          using inv(1) grow f1 by (auto simp: ht_inv_def)
        have "(1 :: nat) \<le> 2 ^ bucketBits ht" by simp
        then have load: "elements ht2 \<le> 4 * 2 ^ bucketBits ht2"
          using load unfolding f2 power_add power_one_right by linarith
        have "is_table ?h1 ht2"
          using n l(4) nok1 nodes_ok_perm [OF n(1), of valid "dataSize ht" ?h1] f1 f2 bits grow load nl
          by (auto simp: is_table_def ht_inv_def)
        then show ?thesis using add add' grow True d ok n(1) l(1) f2 by auto
      next
        case False
        have i: "?i < length (ht_buckets ht)" using hash_below [OF k(1)] len by simp
        have restored: "ht1\<lparr>elements := elements ht1 - 1, ht_buckets := (ht_buckets ht1)[?i := List.tl (ht_buckets ht1 ! ?i)]\<rparr> = ht"
          using i by (simp add: ht1_def)
        have "free_data ?it ?h1 = h"
          using fresh by (cases "data_mem m") (auto simp: free_data_def fun_eq_iff)
        then show ?thesis using add add' grow False restored by (auto simp: double_size_def Let_def)
      qed
    qed
  qed
qed


lemma ht_remove_nodes:
  assumes t: "is_table h ht" and k: "valid k" and rem: "ht_remove k ht h = (ht', h')"
  shows "is_table h' ht' \<and> dataSize ht' = dataSize ht \<and>
    ((k \<notin> brec_key ` set (nodes ht) \<and> ht' = ht \<and> h' = h) \<or>
     (\<exists>it. it \<in> set (nodes ht) \<and> brec_key it = k \<and> h' = free_data it h \<and>
       mset (nodes ht) = add_mset it (mset (nodes ht'))))"
proof -
  let ?i = "hash k (bucketBits ht)"
  let ?b = "ht_buckets ht ! ?i"
  note inv = is_tableD [OF t]
  note f = find_node_eq [OF inv k]
  show ?thesis
  proof (cases "find (key_matches ht k) ?b")
    case None
    then have "k \<notin> brec_key ` set (nodes ht)" using f by auto
    then show ?thesis using None rem t inv(2) by (auto simp: ht_remove_def Let_def)
  next
    case (Some it)
    then have it: "it \<in> set (nodes ht)" "brec_key it = k" using f by auto
    obtain us vs where b: "?b = us @ it # vs" and r: "remove_first (key_matches ht k) ?b = us @ vs"
      using find_remove_first_split [OF Some] by blast
    have ht': "ht' = ht\<lparr>ht_buckets := (ht_buckets ht)[?i := us @ vs], elements := elements ht - 1\<rparr>"
      and h': "h' = free_data it h"
      using rem Some r inv(2) by (auto simp: ht_remove_def Let_def)
    have len: "length (ht_buckets ht) = 2 ^ bucketBits ht" and el: "elements ht = length (nodes ht)"
      and home: "\<forall>i < 2 ^ bucketBits ht. \<forall>x \<in> set (ht_buckets ht ! i). hash (brec_key x) (bucketBits ht) = i"
      and nok: "nodes_ok valid (dataSize ht) h (nodes ht)"
      and bits: "INITHASHSIZE_ht \<le> bucketBits ht" "bucketBits ht \<le> MAXHASHSIZE_ht"
      using inv by (simp_all add: ht_inv_def)
    have load: "elements ht \<le> 4 * 2 ^ bucketBits ht \<or> bucketBits ht = MAXHASHSIZE_ht"
      using inv(1) unfolding ht_inv_def by blast
    have i: "?i < 2 ^ bucketBits ht" by (rule hash_below [OF k])
    have m: "mset (nodes ht) = add_mset it (mset (nodes ht'))"
      using mset_concat_remove [of ?i "ht_buckets ht" us it vs] i len b by (simp add: nodes_def ht')
    then have "nodes_ok valid (dataSize ht) h (it # nodes ht')"
      using nok nodes_ok_perm [of "nodes ht" "it # nodes ht'"] by simp
    then have nok': "nodes_ok valid (dataSize ht') h' (nodes ht')"
      unfolding h' by (simp add: nodes_ok_free ht')
    have "length (nodes ht) = Suc (length (nodes ht'))" using m size_mset by (metis size_add_mset)
    then have el': "elements ht' = length (nodes ht')" "elements ht' \<le> elements ht"
      using el by (simp_all add: ht')
    have home': "\<forall>i < 2 ^ bucketBits ht'. \<forall>x \<in> set (ht_buckets ht' ! i). hash (brec_key x) (bucketBits ht') = i"
      using home i len b by (auto simp: ht' nth_list_update)
    have fs: "bucketBits ht' = bucketBits ht" "length (ht_buckets ht') = 2 ^ bucketBits ht"
      "ht_hash ht' = hash" "ht_compare ht' = compare" "dataSize ht' = dataSize ht"
      using len inv by (simp_all add: ht')
    have load': "elements ht' \<le> 4 * 2 ^ bucketBits ht' \<or> bucketBits ht' = MAXHASHSIZE_ht"
      using load el' fs by auto
    have "is_table h' ht'"
      unfolding is_table_def ht_inv_def using fs bits nok' el'(1) load' home' by simp
    then show ?thesis using it m h' fs by auto
  qed
qed

text \<open>A whole run: what the client does to a table, one operation after the other.\<close>

end

datatype 'k ht_op = HAdd ht_mem 'k | HRemove 'k | HWrite 'k "byte list"

text \<open>\<open>HWrite\<close> is the client storing through the pointer that \<open>ht_find\<close> returns.\<close>

fun ht_exec :: "'k ht_op \<Rightarrow> 'k hash_table \<times> store \<Rightarrow> bool \<times> 'k hash_table \<times> store" where
  "ht_exec (HAdd m k) (ht, h) = (case ht_add m k ht h of (r, ht', h') \<Rightarrow> (r \<noteq> None, ht', h'))"
| "ht_exec (HRemove k) (ht, h) = (True, ht_remove k ht h)"
| "ht_exec (HWrite k bs) (ht, h) =
     (case ht_find ht k of Some (DataAt a) \<Rightarrow> (True, ht, h(a \<mapsto> bs)) | _ \<Rightarrow> (True, ht, h))"

fun ht_run :: "'k ht_op list \<Rightarrow> 'k hash_table \<times> store \<Rightarrow> bool list \<times> 'k hash_table \<times> store" where
  "ht_run [] st = ([], st)"
| "ht_run (op # ops) st =
     (case ht_exec op st of (r, st') \<Rightarrow> case ht_run ops st' of (rs, st'') \<Rightarrow> (r # rs, st''))"

text \<open>
  What a client keeps to: keys of the right form, no key added twice, stores of the size of the
  block; and \<open>calloc\<close> returns blocks that are not in use.
\<close>

fun op_ok :: "('k \<Rightarrow> bool) \<Rightarrow> 'k ht_op \<Rightarrow> 'k hash_table \<times> store \<Rightarrow> bool" where
  "op_ok valid (HAdd m k) (ht, h) \<longleftrightarrow> valid k \<and> ht_find ht k = None \<and>
     (case data_mem m of None \<Rightarrow> True | Some a \<Rightarrow> h a = None)"
| "op_ok valid (HRemove k) (ht, h) \<longleftrightarrow> valid k"
| "op_ok valid (HWrite k bs) (ht, h) \<longleftrightarrow> valid k \<and> length bs = dataSize ht"

fun ops_ok :: "('k \<Rightarrow> bool) \<Rightarrow> 'k ht_op list \<Rightarrow> 'k hash_table \<times> store \<Rightarrow> bool" where
  "ops_ok valid [] st \<longleftrightarrow> True"
| "ops_ok valid (op # ops) st \<longleftrightarrow> op_ok valid op st \<and> ops_ok valid ops (snd (ht_exec op st))"

text \<open>The specification: a map from keys to byte strings; a new key starts with zeros.\<close>

fun spec_exec :: "nat \<Rightarrow> 'k ht_op \<times> bool \<Rightarrow> ('k \<rightharpoonup> byte list) \<Rightarrow> ('k \<rightharpoonup> byte list)" where
  "spec_exec ds (HAdd m k, ok) M = (if ok then M(k \<mapsto> replicate ds 0) else M)"
| "spec_exec ds (HRemove k, ok) M = M(k := None)"
| "spec_exec ds (HWrite k bs, ok) M = (if k \<in> dom M then M(k \<mapsto> bs) else M)"


fun spec_run :: "nat \<Rightarrow> ('k ht_op \<times> bool) list \<Rightarrow> ('k \<rightharpoonup> byte list) \<Rightarrow> ('k \<rightharpoonup> byte list)" where
  "spec_run ds [] M = M"
| "spec_run ds (x # xs) M = spec_run ds xs (spec_exec ds x M)"

lemma block_unique:
  "distinct (blocks its) \<Longrightarrow> it \<in> set its \<Longrightarrow> it' \<in> set its \<Longrightarrow>
   brec_data it = Some a \<Longrightarrow> brec_data it' = Some a \<Longrightarrow> it = it'"
  by (induction its) (auto simp: set_blocks split: option.splits)

lemma ht_inv_unique:
  assumes "ht_inv valid h ht" "it \<in> set (nodes ht)" "it' \<in> set (nodes ht)"
  shows "brec_key it = brec_key it' \<Longrightarrow> it = it'"
    and "brec_data it = Some a \<Longrightarrow> brec_data it' = Some a \<Longrightarrow> it = it'"
  using assms key_unique [of "nodes ht" it it'] block_unique [of "nodes ht" it it']
  by (auto simp: ht_inv_def nodes_ok_def)

lemma set_of_add_mset: "mset xs = add_mset x (mset ys) \<Longrightarrow> set xs = insert x (set ys)"
  by (metis set_mset_add_mset_insert set_mset_mset)

context hash_contract begin

text \<open>What the client sees of a table: the contents under the valid keys.\<close>

definition view :: "store \<Rightarrow> 'k hash_table \<Rightarrow> 'k \<rightharpoonup> byte list" where
  "view h ht = contents h ht |` {k. valid k}"

lemma view_add:
  assumes t: "is_table h ht" "is_table h' ht'" and k: "valid k" "k \<notin> brec_key ` set (nodes ht)"
    and d: "d = None \<longrightarrow> dataSize ht = 0"
    and h': "h' = (case d of None \<Rightarrow> h | Some a \<Rightarrow> h(a \<mapsto> replicate (dataSize ht) 0))"
    and fresh: "\<And>a. d = Some a \<Longrightarrow> h a = None"
    and n: "mset (nodes ht') = add_mset \<lparr>brec_key = k, brec_data = d\<rparr> (mset (nodes ht))"
  shows "view h' ht' = (view h ht)(k \<mapsto> replicate (dataSize ht) 0)"
proof
  fix k'
  let ?it = "\<lparr>brec_key = k, brec_data = d\<rparr>"
  have s: "set (nodes ht') = insert ?it (set (nodes ht))" by (rule set_of_add_mset [OF n])
  show "view h' ht' k' = ((view h ht)(k \<mapsto> replicate (dataSize ht) 0)) k'"
  proof (cases "k' = k")
    case True
    have "contents h' ht' k = deref h' (node_ptr ?it)"
      using contents_node [OF is_tableD [OF t(2)], of ?it] s by simp
    then show ?thesis using True k d h'
      by (cases d) (simp_all add: view_def node_ptr_def deref_def)
  next
    case False
    have "contents h ht k' = contents h' ht' k'" if v: "valid k'"
    proof (rule contents_same_nodes [OF is_tableD [OF t(1)] is_tableD [OF t(2)] v])
      fix it a assume it: "it \<in> set (nodes ht)" "brec_data it = Some a"
      then have "h a \<noteq> None" using ht_inv_node(2) [OF is_tableD(1) [OF t(1)], of it a] by auto
      then show "h a = h' a" using fresh h' by (cases d) auto
    qed (use s False in auto)
    then show ?thesis using False by (simp add: view_def restrict_map_def)
  qed
qed

lemma view_remove:
  assumes t: "is_table h ht" "is_table h' ht'" and it: "brec_key it = k" "valid k"
    and h': "h' = free_data it h"
    and n: "mset (nodes ht) = add_mset it (mset (nodes ht'))"
  shows "view h' ht' = (view h ht)(k := None)"
proof
  fix k'
  have s: "set (nodes ht) = insert it (set (nodes ht'))" by (rule set_of_add_mset [OF n])
  have "mset (map brec_key (nodes ht)) = mset (map brec_key (it # nodes ht'))" using n by simp
  then have "distinct (map brec_key (it # nodes ht'))"
    using is_tableD(1) [OF t(1)] mset_eq_imp_distinct_iff
    unfolding ht_inv_def nodes_ok_def by blast
  then have gone: "k \<notin> brec_key ` set (nodes ht')" using it by auto
  show "view h' ht' k' = ((view h ht)(k := None)) k'"
  proof (cases "k' = k")
    case True
    then show ?thesis using contents_none [OF is_tableD [OF t(2)] it(2)] gone by (simp add: view_def)
  next
    case False
    have "contents h ht k' = contents h' ht' k'" if v: "valid k'"
    proof (rule contents_same_nodes [OF is_tableD [OF t(1)] is_tableD [OF t(2)] v])
      fix x a assume x: "x \<in> set (nodes ht)" "brec_key x = k'" "brec_data x = Some a"
      then have "brec_data it \<noteq> Some a"
        using ht_inv_unique(2) [OF is_tableD(1) [OF t(1)], of x it a] s False it by auto
      then show "h a = h' a" by (auto simp: h' free_data_def split: option.splits)
    qed (use s False it in auto)
    then show ?thesis using False by (simp add: view_def restrict_map_def)
  qed
qed

lemma write_table:
  assumes t: "is_table h ht" and it: "it \<in> set (nodes ht)" "brec_data it = Some a"
    and bs: "length bs = dataSize ht"
  shows "is_table (h(a \<mapsto> bs)) ht"
    and "view (h(a \<mapsto> bs)) ht = (view h ht)(brec_key it \<mapsto> bs)"
proof -
  have inv: "ht_inv valid h ht" by (rule is_tableD [OF t])
  have "node_ok valid (dataSize ht) (h(a \<mapsto> bs)) x" if x: "x \<in> set (nodes ht)" for x
    using ht_inv_node [OF inv x] bs by (cases "brec_data x") (auto simp: node_ok_def)
  then show t': "is_table (h(a \<mapsto> bs)) ht"
    using t unfolding is_table_def ht_inv_def nodes_ok_def by blast
  show "view (h(a \<mapsto> bs)) ht = (view h ht)(brec_key it \<mapsto> bs)"
  proof
    fix k'
    show "view (h(a \<mapsto> bs)) ht k' = ((view h ht)(brec_key it \<mapsto> bs)) k'"
    proof (cases "k' = brec_key it")
      case True
      then show ?thesis
        using contents_node [OF is_tableD [OF t'] it(1)] it(2) ht_inv_node(1) [OF inv it(1)]
        by (simp add: view_def node_ptr_def deref_def)
    next
      case False
      have "contents h ht k' = contents (h(a \<mapsto> bs)) ht k'" if v: "valid k'"
      proof (rule contents_same_nodes [OF is_tableD [OF t] is_tableD [OF t'] v])
        fix x b assume x: "x \<in> set (nodes ht)" "brec_key x = k'" "brec_data x = Some b"
        then have "a \<noteq> b" using ht_inv_unique(2) [OF inv x(1) it(1), of b] it(2) False by auto
        then show "h b = (h(a \<mapsto> bs)) b" by simp
      qed auto
      then show ?thesis using False by (simp add: view_def restrict_map_def)
    qed
  qed
qed


lemma blocks_used:
  assumes "is_table h ht" "a \<in> set (blocks (nodes ht))"
  shows "h a \<noteq> None"
  using assms(2) ht_inv_node(2) [OF is_tableD(1) [OF assms(1)], of _ a] by (auto simp: set_blocks)

text \<open>What is left when the table is destroyed does not depend on the operations before.\<close>

lemma exec_refines:
  assumes t: "is_table h ht" and ok: "op_ok valid op (ht, h)" and ex: "ht_exec op (ht, h) = (r, ht', h')"
  shows "is_table h' ht' \<and> dataSize ht' = dataSize ht \<and>
    view h' ht' = spec_exec (dataSize ht) (op, r) (view h ht) \<and> ht_destroy ht' h' = ht_destroy ht h"
proof (cases op)
  case (HAdd m k)
  have k: "valid k" and nf: "ht_find ht k = None" and fresh: "\<And>a. data_mem m = Some a \<Longrightarrow> h a = None"
    using ok HAdd by (auto split: option.splits)
  have kn: "k \<notin> brec_key ` set (nodes ht)"
    using nf ht_find_eq [OF is_tableD [OF t] k] by fastforce
  obtain p where p: "ht_add m k ht h = (p, ht', h')" "r \<longleftrightarrow> p \<noteq> None"
    using ex HAdd by (auto split: prod.splits)
  note a = ht_add_nodes [OF t k kn fresh p(1)]
  show ?thesis
  proof (cases p)
    case None
    then show ?thesis using a p t HAdd by simp
  next
    case (Some q)
    then have a': "is_table h' ht'" "dataSize ht' = dataSize ht" "data_mem m = None \<longrightarrow> dataSize ht = 0"
      "h' = (case data_mem m of None \<Rightarrow> h | Some a \<Rightarrow> h(a \<mapsto> replicate (dataSize ht) 0))"
      "mset (nodes ht') = add_mset \<lparr>brec_key = k, brec_data = data_mem m\<rparr> (mset (nodes ht))"
      using a [unfolded Some option.case] by blast+
    have v: "view h' ht' = (view h ht)(k \<mapsto> replicate (dataSize ht) 0)"
      by (rule view_add [OF t a'(1) k kn a'(3,4) fresh a'(5)])
    have b: "set (blocks (nodes ht')) = set (blocks (\<lparr>brec_key = k, brec_data = data_mem m\<rparr> # nodes ht))"
      using mset_blocks [of "nodes ht'" "\<lparr>brec_key = k, brec_data = data_mem m\<rparr> # nodes ht"] a'(5) mset_eq_setD
      by (simp only: mset.simps) blast
    have "ht_destroy ht' h' = ht_destroy ht h"
      unfolding ht_destroy_eq b a'(4) using fresh
      by (cases "data_mem m") (auto simp: restrict_map_def fun_eq_iff)
    then show ?thesis using a' v p(2) Some HAdd by simp
  qed
next
  case (HRemove k)
  have k: "valid k" and r: "ht_remove k ht h = (ht', h')" using ok ex HRemove by auto
  note rm = ht_remove_nodes [OF t k r]
  show ?thesis
  proof (cases "k \<in> brec_key ` set (nodes ht)")
    case False
    then have "ht' = ht \<and> h' = h" using rm by auto
    moreover have "view h ht k = None"
      using contents_none [OF is_tableD [OF t] k] False k by (simp add: view_def)
    then have "view h ht = (view h ht)(k := None)" by (simp add: fun_upd_idem)
    ultimately show ?thesis using t HRemove by simp
  next
    case True
    then obtain it where it: "it \<in> set (nodes ht)" "brec_key it = k" "h' = free_data it h"
      "mset (nodes ht) = add_mset it (mset (nodes ht'))"
      using rm by (metis image_eqI)
    have t': "is_table h' ht'" "dataSize ht' = dataSize ht" using rm by auto
    have "set (blocks (nodes ht)) = set (blocks (it # nodes ht'))"
      using mset_blocks [of "nodes ht" "it # nodes ht'"] it(4) mset_eq_setD by (simp only: mset.simps) blast
    then have "ht_destroy ht' h' = ht_destroy ht h"
      unfolding ht_destroy_eq it(3)
      by (auto simp: free_data_def restrict_map_def fun_eq_iff split: option.splits)
    then show ?thesis using t' view_remove [OF t t'(1) it(2) k it(3,4)] HRemove by simp
  qed
next
  case (HWrite k bs)
  have k: "valid k" and bs: "length bs = dataSize ht" using ok HWrite by auto
  show ?thesis
  proof (cases "ht_find ht k")
    case None
    then have "view h ht k = None" by (simp add: view_def contents_def restrict_map_def)
    then show ?thesis using None ex t HWrite by (auto simp: dom_def)
  next
    case (Some p)
    then obtain it where it: "it \<in> set (nodes ht)" "brec_key it = k" "p = node_ptr it"
      using ht_find_eq [OF is_tableD [OF t] k] by auto
    have c: "view h ht k = deref h p"
      using contents_node [OF is_tableD [OF t] it(1)] it k by (simp add: view_def)
    show ?thesis
    proof (cases "brec_data it")
      case None
      then have "dataSize ht = 0" "p = AfterKey k"
        using ht_inv_node(3) [OF is_tableD(1) [OF t] it(1)] it by (auto simp: node_ptr_def)
      then have e: "r" "ht' = ht" "h' = h" "bs = []" "view h ht k = Some []"
        using Some ex HWrite bs c by (auto simp: deref_def)
      then have "(view h ht)(k \<mapsto> bs) = view h ht" by (simp add: fun_upd_idem)
      then show ?thesis using t e HWrite by (simp add: dom_def)
    next
      case (Some a)
      then have p: "p = DataAt a" using it by (simp add: node_ptr_def)
      have used: "a \<in> set (blocks (nodes ht))" using it(1) Some by (auto simp: set_blocks)
      have e: "r" "ht' = ht" "h' = h(a \<mapsto> bs)" using ex HWrite \<open>ht_find ht k = Some p\<close> p by auto
      have "view h ht k \<noteq> None" using blocks_used [OF t used] c p by (simp add: deref_def)
      moreover have "ht_destroy ht' h' = ht_destroy ht h"
        using used e by (auto simp: ht_destroy_eq restrict_map_def fun_eq_iff)
      ultimately show ?thesis
        using write_table [OF t it(1) Some bs] e it(2) HWrite by (auto simp: dom_def)
    qed
  qed
qed

lemma run_refines:
  "is_table h ht \<Longrightarrow> ops_ok valid ops (ht, h) \<Longrightarrow> ht_run ops (ht, h) = (rs, ht', h') \<Longrightarrow>
   is_table h' ht' \<and> view h' ht' = spec_run (dataSize ht) (zip ops rs) (view h ht) \<and>
   ht_destroy ht' h' = ht_destroy ht h"
proof (induction ops arbitrary: h ht rs)
  case (Cons op ops)
  obtain r ht1 h1 where e: "ht_exec op (ht, h) = (r, ht1, h1)" by (cases "ht_exec op (ht, h)")
  obtain rs' where run: "ht_run ops (ht1, h1) = (rs', ht', h')" and rs: "rs = r # rs'"
    using Cons.prems(3) e by (auto split: prod.splits)
  have "op_ok valid op (ht, h)" "ops_ok valid ops (ht1, h1)" using Cons.prems(2) e by auto
  then show ?case
    using exec_refines [OF Cons.prems(1) _ e] Cons.IH [OF _ _ run] rs by simp
qed simp

lemma create_table:
  assumes "ht_create a b ks ds hash compare = Some ht"
  shows "is_table h ht" "view h ht = Map.empty" "ht_destroy ht h = h" "dataSize ht = ds"
proof -
  have ht: "ht = \<lparr>keySize = ks, dataSize = ds, elements = 0, bucketBits = INITHASHSIZE_ht,
      ht_buckets = replicate (2 ^ INITHASHSIZE_ht) [], ht_hash = hash, ht_compare = compare\<rparr>"
    using assms by (auto simp: ht_create_def split: if_splits)
  have n: "nodes ht = []" by (simp add: nodes_def ht concat_replicate_trivial)
  show t: "is_table h ht"
    using n by (simp add: is_table_def ht_inv_def ht nodes_ok_def INITHASHSIZE_ht_def MAXHASHSIZE_ht_def)
  have "view h ht k = None" for k
    using contents_none [OF is_tableD [OF t], of k] n by (cases "valid k") (simp_all add: view_def)
  then show "view h ht = Map.empty" by auto
  show "ht_destroy ht h = h" using n by (simp add: ht_destroy_eq restrict_map_def)
  show "dataSize ht = ds" by (simp add: ht)
qed

end

section \<open>The two instances\<close>

lemma ht_generic_hash_below: "ht_generic_hash ks k bits < 2 ^ bits"
  unfolding ht_generic_hash_def by (rule unat_and_low)

lemma memcmp_zero: "length xs = n \<Longrightarrow> length ys = n \<Longrightarrow> memcmp xs ys n = 0 \<longleftrightarrow> xs = ys"
  by (induction xs ys n rule: memcmp.induct) (auto split: if_splits)

interpretation generic_ht: hash_contract "ht_generic_hash ks" "ht_generic_compare ks" "\<lambda>k. length k = ks"
  for ks :: nat
  by unfold_locales (simp_all add: ht_generic_hash_below ht_generic_compare_def memcmp_zero)

interpretation resourceid_ht: hash_contract "ht_resourceid_hash limit" ht_resourceid_compare "\<lambda>_. True"
  for limit :: int
  by unfold_locales (auto simp: ht_resourceid_hash_def HashResourceID_less ht_resourceid_compare_def)


text \<open>C12: A hash table over byte keys, to which a key is added only while it is absent, is a map. Starting from
  \<open>ht_create\<close>, after any sequence of such additions (each allocation failing or not), removals and stores
  of the size of the data through the pointers that \<open>ht_find\<close> returns, all with keys of the size of the
  table, and whatever doublings happened on the way, looking up a key gives the bytes that the same
  sequence leaves in a map: an addition that failed leaves the map alone, one that succeeded adds a
  zeroed block. Destroying the table then frees exactly its blocks: the store is what it was before the
  table was made. A key that is added twice has two nodes, of which a doubling may bring the older to
  the front (the lemma on doubling); \<open>ht_add\<close> leaves it to its callers to look first.\<close>

theorem generic_table_refines_map:
  assumes "ht_create a b ks ds (ht_generic_hash ks) (ht_generic_compare ks) = Some ht0"
    and "ops_ok (\<lambda>k. length k = ks) ops (ht0, h0)"
    and "ht_run ops (ht0, h0) = (rs, ht, h)"
    and "length k = ks"
  shows "contents h ht k = spec_run ds (zip ops rs) Map.empty k \<and> ht_destroy ht h = h0"
proof -
  note c = generic_ht.create_table(1-3) [OF assms(1), where h = h0] generic_ht.create_table(4) [OF assms(1)]
  note r = generic_ht.run_refines [OF c(1) assms(2,3)]
  have "generic_ht.view ks h ht k = spec_run ds (zip ops rs) Map.empty k"
    using r c(2,4) by simp
  then show ?thesis using r c(3) assms(4) by (simp add: generic_ht.view_def)
qed

text \<open>The same for tables keyed by resource ids.\<close>

lemma resourceid_table_refines_map:
  assumes "ht_create a b 4 ds (ht_resourceid_hash limit) ht_resourceid_compare = Some ht0"
    and "ops_ok (\<lambda>_. True) ops (ht0, h0)"
    and "ht_run ops (ht0, h0) = (rs, ht, h)"
  shows "contents h ht k = spec_run ds (zip ops rs) Map.empty k \<and> ht_destroy ht h = h0"
proof -
  note c = resourceid_ht.create_table(1-3) [OF assms(1), where h = h0] resourceid_ht.create_table(4) [OF assms(1)]
  note r = resourceid_ht.run_refines [OF c(1) assms(2,3)]
  have "resourceid_ht.view h ht k = spec_run ds (zip ops rs) Map.empty k"
    using r c(2,4) by simp
  then show ?thesis using r c(3) by (simp add: resourceid_ht.view_def)
qed

text \<open>
  Without the rule that no key is added twice the table is no map: doubling reverses the order of
  the nodes within a bucket, so the older of two nodes of a key comes to hide the newer.
\<close>

lemma double_size_reverses:
  assumes "\<forall>it \<in> set (nodes ht). ht_hash ht (brec_key it) (bucketBits ht + 1) < 2 ^ (bucketBits ht + 1)"
    and "b < 2 ^ (bucketBits ht + 1)"
  shows "ht_buckets (snd (double_size True ht)) ! b =
    rev (filter (\<lambda>it. ht_hash ht (brec_key it) (bucketBits ht + 1) = b) (nodes ht))"
  using foldl_move_nth [of "nodes ht" "ht_hash ht" "bucketBits ht + 1" "replicate (2 ^ (bucketBits ht + 1)) []" b] assms
  by (simp add: double_size_def Let_def nodes_def)

definition demo_ht :: "byte list hash_table" where
  "demo_ht = \<lparr>keySize = 1, dataSize = 2, elements = 0, bucketBits = 6,
     ht_buckets = replicate 64 [], ht_hash = ht_generic_hash 1, ht_compare = ht_generic_compare 1\<rparr>"

lemma demo_ht_hash: "ht_generic_hash (Suc 0) [0] 6 = 0"
  by (simp add: ht_generic_hash_def one_at_a_time_hash_def hash_byte_def)

lemma demo_exec:
  "ht_exec (HAdd \<lparr>elem_mem = True, key_mem = True, data_mem = Some 7, buckets_mem = True\<rparr> [0])
     (demo_ht, Map.empty) =
   (True, demo_ht\<lparr>ht_buckets := (replicate 64 [])[0 := [\<lparr>brec_key = [0], brec_data = Some 7\<rparr>]], elements := 1\<rparr>,
    [7 \<mapsto> [0, 0]])"
  by (simp add: ht_add_def demo_ht_def demo_ht_hash Let_def numeral_2_eq_2)

theorem generic_table_refines_map_witness:
  "\<exists>rs ht h. ht_run [HAdd \<lparr>elem_mem = True, key_mem = True, data_mem = Some 7, buckets_mem = True\<rparr> [0],
       HWrite [0] [1, 2]] (demo_ht, Map.empty) = (rs, ht, h) \<and>
     contents h ht [0] = Some [1, 2] \<and> ht_destroy ht h = Map.empty"
proof -
  let ?ops = "[HAdd \<lparr>elem_mem = True, key_mem = True, data_mem = Some 7, buckets_mem = True\<rparr> [0 :: byte],
       HWrite [0] [1, 2]]"
  have c: "ht_create True True 1 2 (ht_generic_hash 1) (ht_generic_compare 1) = Some demo_ht"
    by (simp add: ht_create_def demo_ht_def INITHASHSIZE_ht_def)
  have ok: "ops_ok (\<lambda>k. length k = 1) ?ops (demo_ht, Map.empty)"
    by (simp add: demo_exec del: ht_exec.simps) (simp add: ht_find_def demo_ht_def demo_ht_hash)
  obtain rs ht h where r: "ht_run ?ops (demo_ht, Map.empty) = (rs, ht, h)" by (metis prod_cases3)
  have "rs = [True, True]"
    using r by (simp add: demo_exec split: prod.splits option.splits ht_ptr.splits del: ht_exec.simps(1))
  then show ?thesis
    using generic_table_refines_map [OF c ok r, of "[0]"] r by (auto simp: numeral_2_eq_2)
qed

end
