(* ===== verification/Regions.thy ===== *)
theory Regions
  imports X_Prelude
begin

text \<open>
  \<open>dix/region.c\<close> and the inline helpers of \<open>include/regionstr.h\<close>: regions as banded lists of
  rectangles, the union sweep over two of them, the sorting and validation of an arbitrary
  list of rectangles, and the construction of a region from the rectangles of a request.

  A box has its four 16-bit coordinates as integers: no operation computes on them, apart from the
  sums of \<open>RegionFromRects\<close>, which the code forms in \<open>int\<close> and clamps. The array of a
  region is the list of its boxes in use, with the capacity it was allocated with. Whether an
  allocation succeeds is asked of an environment, by the number of boxes or descriptors requested.
  Copying, intersecting, subtracting and translating regions is done by pixman and is not part of
  this code.
\<close>

section \<open>Boxes\<close>

record box =
  b_x1 :: int
  b_y1 :: int
  b_x2 :: int
  b_y2 :: int

definition Box :: "int \<Rightarrow> int \<Rightarrow> int \<Rightarrow> int \<Rightarrow> box" where
  "Box l t r b = \<lparr>b_x1 = l, b_y1 = t, b_x2 = r, b_y2 = b\<rparr>"

definition EXTENTCHECK :: "box \<Rightarrow> box \<Rightarrow> bool" where
  "EXTENTCHECK r1 r2 \<longleftrightarrow>
     \<not> (b_x2 r1 \<le> b_x1 r2 \<or> b_x1 r1 \<ge> b_x2 r2 \<or> b_y2 r1 \<le> b_y1 r2 \<or> b_y1 r1 \<ge> b_y2 r2)"

definition INBOX :: "box \<Rightarrow> int \<Rightarrow> int \<Rightarrow> bool" where
  "INBOX r x y \<longleftrightarrow> b_x2 r > x \<and> b_x1 r \<le> x \<and> b_y2 r > y \<and> b_y1 r \<le> y"

definition SUBSUMES :: "box \<Rightarrow> box \<Rightarrow> bool" where
  "SUBSUMES r1 r2 \<longleftrightarrow>
     b_x1 r1 \<le> b_x1 r2 \<and> b_x2 r1 \<ge> b_x2 r2 \<and> b_y1 r1 \<le> b_y1 r2 \<and> b_y2 r1 \<ge> b_y2 r2"

section \<open>Regions\<close>

text \<open>
  \<open>RegNull\<close> is the NULL data of a region that is its extents; \<open>RegionEmptyData\<close> and
  \<open>RegionBrokenData\<close> are the two static blocks, of size 0; the rest is allocated.
\<close>

datatype reg_data =
    RegNull
  | RegionEmptyData
  | RegionBrokenData
  | RegHeap nat "box list"

record region =
  extents :: box
  data :: reg_data

record region_env =
  rects_mem :: "nat \<Rightarrow> bool"
  infos_mem :: "nat \<Rightarrow> bool"
  region_mem :: bool

definition RegionEmptyBox :: box where
  "RegionEmptyBox = Box 0 0 0 0"

definition RegionBrokenRegion :: region where
  "RegionBrokenRegion = \<lparr>extents = RegionEmptyBox, data = RegionBrokenData\<rparr>"

fun data_rects :: "reg_data \<Rightarrow> box list" where
  "data_rects (RegHeap sz bs) = bs"
| "data_rects _ = []"

fun data_size :: "reg_data \<Rightarrow> nat" where
  "data_size (RegHeap sz bs) = sz"
| "data_size _ = 0"

definition RegionNil :: "region \<Rightarrow> bool" where
  "RegionNil reg \<longleftrightarrow> data reg \<noteq> RegNull \<and> data_rects (data reg) = []"

definition RegionNar :: "region \<Rightarrow> bool" where
  "RegionNar reg \<longleftrightarrow> data reg = RegionBrokenData"

definition RegionRects :: "region \<Rightarrow> box list" where
  "RegionRects reg = (if data reg = RegNull then [extents reg] else data_rects (data reg))"

definition RegionNumRects :: "region \<Rightarrow> nat" where
  "RegionNumRects reg = length (RegionRects reg)"

definition RegionSize :: "region \<Rightarrow> nat" where
  "RegionSize reg = data_size (data reg)"

text \<open>The size in bytes of a block for \<open>n\<close> boxes, 0 where it would not fit an \<open>int\<close>.\<close>

definition RegionSizeof :: "nat \<Rightarrow> nat" where
  "RegionSizeof n = (if n < (0x7FFFFFFF - 16) div 8 then 16 + n * 8 else 0)"

definition rects_alloc :: "region_env \<Rightarrow> nat \<Rightarrow> bool" where
  "rects_alloc env n \<longleftrightarrow> RegionSizeof n > 0 \<and> rects_mem env n"

definition RegionInit :: "region_env \<Rightarrow> box option \<Rightarrow> nat \<Rightarrow> region" where
  "RegionInit env rect sz =
     (case rect of
        Some b \<Rightarrow> \<lparr>extents = b, data = RegNull\<rparr>
      | None \<Rightarrow> \<lparr>extents = RegionEmptyBox,
                 data = (if sz > 1 \<and> rects_alloc env sz then RegHeap sz [] else RegionEmptyData)\<rparr>)"

definition RegionUninit :: "region \<Rightarrow> region" where
  "RegionUninit reg = (if data_size (data reg) > 0 then reg\<lparr>data := RegNull\<rparr> else reg)"

definition RegionReset :: "box \<Rightarrow> region \<Rightarrow> region" where
  "RegionReset b reg = (RegionUninit (reg\<lparr>extents := b\<rparr>))\<lparr>data := RegNull\<rparr>"

definition RegionEmpty :: "region \<Rightarrow> region" where
  "RegionEmpty reg =
     (RegionUninit reg)\<lparr>extents := (extents reg)\<lparr>b_x2 := b_x1 (extents reg), b_y2 := b_y1 (extents reg)\<rparr>,
        data := RegionEmptyData\<rparr>"

definition RegionNull :: region where
  "RegionNull = \<lparr>extents = RegionEmptyBox, data = RegionEmptyData\<rparr>"

definition RegionCreate :: "region_env \<Rightarrow> box option \<Rightarrow> nat \<Rightarrow> region" where
  "RegionCreate env rect sz = (if \<not> region_mem env then RegionBrokenRegion else RegionInit env rect sz)"

text \<open>\<open>copy\<close> is \<open>pixman_region_copy\<close>, \<open>None\<close> where it fails.\<close>

definition RegionDuplicate :: "region_env \<Rightarrow> (region \<Rightarrow> region \<Rightarrow> region option) \<Rightarrow> region \<Rightarrow> region option" where
  "RegionDuplicate env copy pOld = copy (RegionCreate env (Some (extents pOld)) 0) pOld"

text \<open>The checker that debugging builds run over every region.\<close>

fun valid_pairs :: "box list \<Rightarrow> bool" where
  "valid_pairs (p # n # bs) \<longleftrightarrow>
     \<not> (b_x1 n \<ge> b_x2 n \<or> b_y1 n \<ge> b_y2 n) \<and>
     \<not> (b_y1 n < b_y1 p \<or> b_y1 n = b_y1 p \<and> (b_x1 n < b_x2 p \<or> b_y2 n \<noteq> b_y2 p)) \<and>
     valid_pairs (n # bs)"
| "valid_pairs _ \<longleftrightarrow> True"

definition RegionIsValid :: "region \<Rightarrow> bool" where
  "RegionIsValid reg =
     (let e = extents reg; bs = RegionRects reg
      in if b_x1 e > b_x2 e \<or> b_y1 e > b_y2 e then False
         else if bs = []
         then b_x1 e = b_x2 e \<and> b_y1 e = b_y2 e \<and> (data_size (data reg) > 0 \<or> data reg = RegionEmptyData)
         else if length bs = 1 then data reg = RegNull
         else valid_pairs bs \<and>
              foldl (\<lambda>m b. min m (b_x1 b)) (b_x1 (hd bs)) (List.tl bs) = b_x1 e \<and>
              foldl (\<lambda>m b. max m (b_x2 b)) (b_x2 (hd bs)) (List.tl bs) = b_x2 e \<and>
              b_y1 (hd bs) = b_y1 e \<and> b_y2 (List.last bs) = b_y2 e)"

definition RegionBreak :: "region \<Rightarrow> bool \<times> region" where
  "RegionBreak reg = (False, \<lparr>extents = RegionEmptyBox, data = RegionBrokenData\<rparr>)"

definition RegionRectAlloc :: "region_env \<Rightarrow> nat \<Rightarrow> region \<Rightarrow> bool \<times> region" where
  "RegionRectAlloc env n reg =
     (case data reg of
        RegNull \<Rightarrow>
          if rects_alloc env (n + 1) then (True, reg\<lparr>data := RegHeap (n + 1) [extents reg]\<rparr>)
          else RegionBreak reg
      | RegHeap sz bs \<Rightarrow>
          if sz = 0
          then if rects_alloc env n then (True, reg\<lparr>data := RegHeap n []\<rparr>) else RegionBreak reg
          else
            let n1 = (if n = 1 then if length bs > 500 then 250 else length bs else n);
                n2 = n1 + length bs
            in if rects_alloc env n2 then (True, reg\<lparr>data := RegHeap n2 bs\<rparr>) else RegionBreak reg
      | _ \<Rightarrow> if rects_alloc env n then (True, reg\<lparr>data := RegHeap n []\<rparr>) else RegionBreak reg)"

text \<open>The macros that make room and store boxes behind the last one.\<close>

definition RECTALLOC :: "region_env \<Rightarrow> nat \<Rightarrow> region \<Rightarrow> bool \<times> region" where
  "RECTALLOC env n reg =
     (if data reg = RegNull \<or> length (data_rects (data reg)) + n > data_size (data reg)
      then RegionRectAlloc env n reg else (True, reg))"

definition add_rects :: "box list \<Rightarrow> region \<Rightarrow> region" where
  "add_rects bs reg = reg\<lparr>data := RegHeap (data_size (data reg)) (data_rects (data reg) @ bs)\<rparr>"

definition NEWRECT :: "region_env \<Rightarrow> box \<Rightarrow> region \<Rightarrow> bool \<times> region" where
  "NEWRECT env b reg =
     (case (if data reg = RegNull \<or> length (data_rects (data reg)) = data_size (data reg)
            then RegionRectAlloc env 1 reg else (True, reg)) of
        (False, reg') \<Rightarrow> (False, reg')
      | (True, reg') \<Rightarrow> (True, add_rects [b] reg'))"

definition DOWNSIZE :: "region_env \<Rightarrow> region \<Rightarrow> region" where
  "DOWNSIZE env reg =
     (let bs = data_rects (data reg)
      in if length bs < data_size (data reg) div 2 \<and> data_size (data reg) > 50 \<and> rects_alloc env (length bs)
         then reg\<lparr>data := RegHeap (length bs) bs\<rparr> else reg)"

section \<open>The sweep over two regions\<close>

text \<open>
  \<open>RegionCoalesce\<close> is called where the current band has as many boxes as the previous one and
  reaches to the end of the array.
\<close>

definition RegionCoalesce :: "nat \<Rightarrow> nat \<Rightarrow> region \<Rightarrow> nat \<times> region" where
  "RegionCoalesce prevStart curStart reg =
     (let bs = data_rects (data reg); n = curStart - prevStart;
          prev = take n (drop prevStart bs); cur = drop curStart bs
      in if n = 0 then (curStart, reg)
         else if b_y2 (hd prev) \<noteq> b_y1 (hd cur) then (curStart, reg)
         else if \<not> list_all2 (\<lambda>p c. b_x1 p = b_x1 c \<and> b_x2 p = b_x2 c) prev cur then (curStart, reg)
         else (prevStart,
               reg\<lparr>data := RegHeap (data_size (data reg))
                     (take prevStart bs @ map (\<lambda>p. p\<lparr>b_y2 := b_y2 (hd cur)\<rparr>) prev)\<rparr>))"

definition Coalesce :: "nat \<Rightarrow> nat \<Rightarrow> region \<Rightarrow> nat \<times> region" where
  "Coalesce prevBand curBand reg =
     (if int curBand - int prevBand = int (length (data_rects (data reg))) - int curBand
      then RegionCoalesce prevBand curBand reg else (curBand, reg))"

definition RegionAppendNonO :: "region_env \<Rightarrow> box list \<Rightarrow> int \<Rightarrow> int \<Rightarrow> region \<Rightarrow> bool \<times> region" where
  "RegionAppendNonO env r yt yb reg =
     (case RECTALLOC env (length r) reg of
        (False, reg') \<Rightarrow> (False, reg')
      | (True, reg') \<Rightarrow> (True, add_rects (map (\<lambda>b. Box (b_x1 b) yt (b_x2 b) yb) r) reg'))"

text \<open>The first band of a list of boxes and what follows it.\<close>

definition FindBand :: "box list \<Rightarrow> box list \<times> box list" where
  "FindBand r = (takeWhile (\<lambda>b. b_y1 b = b_y1 (hd r)) r, dropWhile (\<lambda>b. b_y1 b = b_y1 (hd r)) r)"

definition AppendRegions :: "region_env \<Rightarrow> box list \<Rightarrow> region \<Rightarrow> bool \<times> region" where
  "AppendRegions env r reg =
     (if r = [] then (True, reg)
      else case RECTALLOC env (length r) reg of
        (False, reg') \<Rightarrow> (False, reg')
      | (True, reg') \<Rightarrow> (True, add_rects r reg'))"

text \<open>
  The overlapping band of a union. \<open>MERGERECT\<close> extends the current rectangle or stores it and
  starts the next; a failing store leaves the whole function.
\<close>

definition MERGERECT ::
    "region_env \<Rightarrow> int \<Rightarrow> int \<Rightarrow> box \<Rightarrow> int \<Rightarrow> int \<Rightarrow> bool \<Rightarrow> region \<Rightarrow>
     bool \<times> int \<times> int \<times> bool \<times> region" where
  "MERGERECT env yt yb r l rt ov reg =
     (if b_x1 r \<le> rt
      then (True, l, if rt < b_x2 r then b_x2 r else rt, if b_x1 r < rt then True else ov, reg)
      else case NEWRECT env (Box l yt rt yb) reg of
        (ok, reg') \<Rightarrow> (ok, b_x1 r, b_x2 r, ov, reg'))"

fun union_rects ::
    "region_env \<Rightarrow> int \<Rightarrow> int \<Rightarrow> box list \<Rightarrow> box list \<Rightarrow> int \<Rightarrow> int \<Rightarrow> bool \<Rightarrow> region \<Rightarrow>
     bool \<times> bool \<times> region" where
  "union_rects env yt yb [] [] l rt ov reg =
     (case NEWRECT env (Box l yt rt yb) reg of (ok, reg') \<Rightarrow> (ok, ov, reg'))"
| "union_rects env yt yb (a # as) [] l rt ov reg =
     (case MERGERECT env yt yb a l rt ov reg of
        (ok, l', rt', ov', reg') \<Rightarrow>
          if ok then union_rects env yt yb as [] l' rt' ov' reg' else (False, ov', reg'))"
| "union_rects env yt yb [] (b # bs) l rt ov reg =
     (case MERGERECT env yt yb b l rt ov reg of
        (ok, l', rt', ov', reg') \<Rightarrow>
          if ok then union_rects env yt yb [] bs l' rt' ov' reg' else (False, ov', reg'))"
| "union_rects env yt yb (a # as) (b # bs) l rt ov reg =
     (if b_x1 a < b_x1 b
      then case MERGERECT env yt yb a l rt ov reg of
             (ok, l', rt', ov', reg') \<Rightarrow>
               if ok then union_rects env yt yb as (b # bs) l' rt' ov' reg' else (False, ov', reg')
      else case MERGERECT env yt yb b l rt ov reg of
             (ok, l', rt', ov', reg') \<Rightarrow>
               if ok then union_rects env yt yb (a # as) bs l' rt' ov' reg' else (False, ov', reg'))"

definition RegionUnionO ::
    "region_env \<Rightarrow> box list \<Rightarrow> box list \<Rightarrow> int \<Rightarrow> int \<Rightarrow> bool \<Rightarrow> region \<Rightarrow> bool \<times> bool \<times> region" where
  "RegionUnionO env r1 r2 yt yb ov reg =
     (if b_x1 (hd r1) < b_x1 (hd r2)
      then union_rects env yt yb (List.tl r1) r2 (b_x1 (hd r1)) (b_x2 (hd r1)) ov reg
      else union_rects env yt yb r1 (List.tl r2) (b_x1 (hd r2)) (b_x2 (hd r2)) ov reg)"

text \<open>The state of the sweep: \<open>ybot\<close>, \<open>prevBand\<close>, the overlap flag and the new region.\<close>

record sweep =
  ybot :: int
  prevBand :: nat
  overlap :: bool
  newReg :: region

type_synonym overlap_func =
  "region_env \<Rightarrow> box list \<Rightarrow> box list \<Rightarrow> int \<Rightarrow> int \<Rightarrow> bool \<Rightarrow> region \<Rightarrow> bool \<times> bool \<times> region"

text \<open>Appending a clipped band of one region and coalescing it; a failure is not looked at.\<close>

definition nonO_band :: "region_env \<Rightarrow> box list \<Rightarrow> int \<Rightarrow> int \<Rightarrow> sweep \<Rightarrow> sweep" where
  "nonO_band env band yt yb s =
     (let curBand = length (data_rects (data (newReg s)));
          reg1 = snd (RegionAppendNonO env band yt yb (newReg s));
          (prev', reg2) = Coalesce (prevBand s) curBand reg1
      in s\<lparr>prevBand := prev', newReg := reg2\<rparr>)"

definition O_band ::
    "region_env \<Rightarrow> overlap_func \<Rightarrow> box list \<Rightarrow> box list \<Rightarrow> int \<Rightarrow> int \<Rightarrow> sweep \<Rightarrow> sweep" where
  "O_band env overlapFunc band1 band2 ytop ybot' s =
     (let curBand = length (data_rects (data (newReg s)));
          (_, ov, reg1) = overlapFunc env band1 band2 ytop ybot' (overlap s) (newReg s);
          (prev', reg2) = Coalesce (prevBand s) curBand reg1
      in s\<lparr>prevBand := prev', overlap := ov, newReg := reg2\<rparr>)"

text \<open>One turn of the loop, on the boxes that are left of the two regions.\<close>

definition sweep_step ::
    "region_env \<Rightarrow> overlap_func \<Rightarrow> bool \<Rightarrow> bool \<Rightarrow> box list \<Rightarrow> box list \<Rightarrow> sweep \<Rightarrow> sweep" where
  "sweep_step env overlapFunc appendNon1 appendNon2 r1 r2 s =
     (let (band1, _) = FindBand r1; (band2, _) = FindBand r2;
          r1y1 = b_y1 (hd r1); r2y1 = b_y1 (hd r2);
          (ytop, s1) =
            (if r1y1 < r2y1
             then (r2y1,
                   if appendNon1
                   then let yt = max r1y1 (ybot s); yb = min (b_y2 (hd r1)) r2y1
                        in if yt \<noteq> yb then nonO_band env band1 yt yb s else s
                   else s)
             else if r2y1 < r1y1
             then (r1y1,
                   if appendNon2
                   then let yt = max r2y1 (ybot s); yb = min (b_y2 (hd r2)) r1y1
                        in if yt \<noteq> yb then nonO_band env band2 yt yb s else s
                   else s)
             else (r1y1, s));
          ybot' = min (b_y2 (hd r1)) (b_y2 (hd r2));
          s2 = s1\<lparr>ybot := ybot'\<rparr>
      in if ybot' > ytop then O_band env overlapFunc band1 band2 ytop ybot' s2 else s2)"

lemma snd_FindBand_shorter: "r \<noteq> [] \<Longrightarrow> length (snd (FindBand r)) < length r"
  by (cases r) (auto simp: FindBand_def less_Suc_eq_le length_dropWhile_le)

lemma sweep_shorter:
  assumes "\<not> (r1 = [] \<or> r2 = [])"
  shows "length (if b_y2 (hd r1) = min (b_y2 (hd r1)) (b_y2 (hd r2)) then snd (FindBand r1) else r1) +
    length (if b_y2 (hd r2) = min (b_y2 (hd r1)) (b_y2 (hd r2)) then snd (FindBand r2) else r2) <
    length r1 + length r2"
  using snd_FindBand_shorter [of r1] snd_FindBand_shorter [of r2] assms
  by (cases "b_y2 (hd r1) \<le> b_y2 (hd r2)"; cases "b_y2 (hd r2) \<le> b_y2 (hd r1)") (simp_all add: min_def)

function sweep_loop ::
    "region_env \<Rightarrow> overlap_func \<Rightarrow> bool \<Rightarrow> bool \<Rightarrow> box list \<Rightarrow> box list \<Rightarrow> sweep \<Rightarrow>
     box list \<times> box list \<times> sweep" where
  "sweep_loop env overlapFunc app1 app2 r1 r2 s =
     (if r1 = [] \<or> r2 = [] then (r1, r2, s)
      else
        let s' = sweep_step env overlapFunc app1 app2 r1 r2 s
        in sweep_loop env overlapFunc app1 app2
             (if b_y2 (hd r1) = min (b_y2 (hd r1)) (b_y2 (hd r2)) then snd (FindBand r1) else r1)
             (if b_y2 (hd r2) = min (b_y2 (hd r1)) (b_y2 (hd r2)) then snd (FindBand r2) else r2) s')"
  by pat_completeness auto

termination
  by (relation "measure (\<lambda>(env, f, a1, a2, r1, r2, s). length r1 + length r2)")
    (simp, simp only: in_measure prod.case, rule sweep_shorter)

declare sweep_loop.simps [simp del]

text \<open>What is left of one region after the loop: its first band clipped, the rest as it is.\<close>

definition sweep_rest :: "region_env \<Rightarrow> box list \<Rightarrow> sweep \<Rightarrow> bool \<times> sweep" where
  "sweep_rest env r s =
     (let (band, rest) = FindBand r;
          s1 = nonO_band env band (max (b_y1 (hd r)) (ybot s)) (b_y2 (hd r)) s
      in case AppendRegions env rest (newReg s1) of (ok, reg) \<Rightarrow> (ok, s1\<lparr>newReg := reg\<rparr>))"

text \<open>Where the result goes: into one of the two operands or into a third region.\<close>

datatype dest = IntoFirst | IntoSecond | Into region

definition dest_region :: "dest \<Rightarrow> region \<Rightarrow> region \<Rightarrow> region" where
  "dest_region d reg1 reg2 =
     (case d of IntoFirst \<Rightarrow> reg1 | IntoSecond \<Rightarrow> reg2 | Into reg \<Rightarrow> reg)"

definition start_data :: "dest \<Rightarrow> region \<Rightarrow> region \<Rightarrow> reg_data" where
  "start_data d reg1 reg2 =
     (let D = data (dest_region d reg1 reg2);
          saved = (d = IntoFirst \<and> RegionNumRects reg1 > 1 \<or> d = IntoSecond \<and> RegionNumRects reg2 > 1)
      in if saved then RegionEmptyData
         else case D of RegNull \<Rightarrow> RegionEmptyData | RegHeap sz bs \<Rightarrow> RegHeap sz [] | _ \<Rightarrow> D)"

definition finish_op :: "region_env \<Rightarrow> region \<Rightarrow> region" where
  "finish_op env reg =
     (case data_rects (data reg) of
        [] \<Rightarrow> reg\<lparr>data := RegionEmptyData\<rparr>
      | [b] \<Rightarrow> \<lparr>extents = b, data = RegNull\<rparr>
      | _ \<Rightarrow> DOWNSIZE env reg)"

definition RegionOp ::
    "region_env \<Rightarrow> dest \<Rightarrow> region \<Rightarrow> region \<Rightarrow> overlap_func \<Rightarrow> bool \<Rightarrow> bool \<Rightarrow> bool \<Rightarrow>
     bool \<times> bool \<times> region" where
  "RegionOp env d reg1 reg2 overlapFunc appendNon1 appendNon2 ov =
     (if RegionNar reg1 \<or> RegionNar reg2
      then (False, ov, snd (RegionBreak (dest_region d reg1 reg2)))
      else
        let r1 = RegionRects reg1; r2 = RegionRects reg2;
            new0 = (dest_region d reg1 reg2)\<lparr>data := start_data d reg1 reg2\<rparr>;
            newSize = 2 * max (length r1) (length r2);
            (ok, new1) = (if newSize > data_size (data new0) then RegionRectAlloc env newSize new0
                          else (True, new0))
        in if \<not> ok then (False, ov, new1)
           else
             let (q1, q2, s) = sweep_loop env overlapFunc appendNon1 appendNon2 r1 r2
                   \<lparr>ybot = min (b_y1 (hd r1)) (b_y1 (hd r2)), prevBand = 0, overlap = ov, newReg = new1\<rparr>;
                 (ok', s') = (if q1 \<noteq> [] \<and> appendNon1 then sweep_rest env q1 s
                              else if q2 \<noteq> [] \<and> appendNon2 then sweep_rest env q2 s
                              else (True, s))
             in if \<not> ok' then (False, overlap s', newReg s')
                else (True, overlap s', finish_op env (newReg s')))"

definition RegionSetExtents :: "region \<Rightarrow> region" where
  "RegionSetExtents reg =
     (let e = extents reg; bs = data_rects (data reg)
      in if data reg = RegNull then reg
         else if data_size (data reg) = 0
         then reg\<lparr>extents := e\<lparr>b_x2 := b_x1 e, b_y2 := b_y1 e\<rparr>\<rparr>
         else reg\<lparr>extents := Box (foldl (\<lambda>m b. min m (b_x1 b)) (b_x1 (hd bs)) bs) (b_y1 (hd bs))
                               (foldl (\<lambda>m b. max m (b_x2 b)) (b_x2 (List.last bs)) bs) (b_y2 (List.last bs))\<rparr>)"

end
