(* ===== verification/Region_Laws.thy ===== *)
theory Region_Laws
  imports Regions
begin

text \<open>
  The union of two regions. A region stands for a set of points, its area; its boxes are banded.
  The sweep keeps the bands and covers the points of both operands row by row; coalescing changes
  the boxes, not the points.
\<close>

section \<open>Bands and areas\<close>

definition box_ok :: "box \<Rightarrow> bool" where
  "box_ok b \<longleftrightarrow> b_x1 b < b_x2 b \<and> b_y1 b < b_y2 b"

text \<open>A box comes before another: to the left in the same band, not touching it, or in a band above.\<close>

definition before :: "box \<Rightarrow> box \<Rightarrow> bool" where
  "before a b \<longleftrightarrow> box_ok a \<and> box_ok b \<and>
     (b_y1 a = b_y1 b \<and> b_y2 a = b_y2 b \<and> b_x2 a < b_x1 b \<or> b_y2 a \<le> b_y1 b)"

definition banded :: "box list \<Rightarrow> bool" where
  "banded bs \<longleftrightarrow> (\<forall>b \<in> set bs. box_ok b) \<and> sorted_wrt before bs"

definition area :: "box list \<Rightarrow> (int \<times> int) set" where
  "area bs = {(x, y). \<exists>b \<in> set bs. INBOX b x y}"

definition spans :: "box list \<Rightarrow> int set" where
  "spans bs = {x. \<exists>b \<in> set bs. b_x1 b \<le> x \<and> x < b_x2 b}"

text \<open>One row of boxes between two heights, from left to right with gaps.\<close>

definition is_row :: "int \<Rightarrow> int \<Rightarrow> box list \<Rightarrow> bool" where
  "is_row yt yb bs \<longleftrightarrow> (\<forall>b \<in> set bs. b_x1 b < b_x2 b \<and> b_y1 b = yt \<and> b_y2 b = yb) \<and>
     sorted_wrt (\<lambda>a b. b_x2 a < b_x1 b) bs"

text \<open>Where the coordinates of a list of boxes come from.\<close>

definition within :: "int set \<Rightarrow> int set \<Rightarrow> box list \<Rightarrow> bool" where
  "within X Y bs \<longleftrightarrow> (\<forall>b \<in> set bs. b_x1 b \<in> X \<and> b_y1 b \<in> Y \<and> b_y2 b \<in> Y)"

lemma Box_simps [simp]:
  "b_x1 (Box l t r b) = l" "b_y1 (Box l t r b) = t" "b_x2 (Box l t r b) = r" "b_y2 (Box l t r b) = b"
  by (simp_all add: Box_def)

lemma area_simps [simp]:
  "area [] = {}" "area (bs @ cs) = area bs \<union> area cs"
  "area (b # bs) = {(x, y). INBOX b x y} \<union> area bs"
  by (auto simp: area_def)

lemma spans_simps [simp]:
  "spans [] = {}" "spans (bs @ cs) = spans bs \<union> spans cs"
  by (auto simp: spans_def)

lemma within_simps [simp]:
  "within X Y []" "within X Y (bs @ cs) \<longleftrightarrow> within X Y bs \<and> within X Y cs"
  "within X Y (b # bs) \<longleftrightarrow> b_x1 b \<in> X \<and> b_y1 b \<in> Y \<and> b_y2 b \<in> Y \<and> within X Y bs"
  by (auto simp: within_def)

lemma banded_append:
  "banded (bs @ cs) \<longleftrightarrow> banded bs \<and> banded cs \<and> (\<forall>b \<in> set bs. \<forall>c \<in> set cs. before b c)"
  by (auto simp: banded_def sorted_wrt_append)

lemma banded_Nil [simp]: "banded []"
  by (simp add: banded_def)

lemma row_banded: "is_row yt yb bs \<Longrightarrow> yt < yb \<Longrightarrow> banded bs"
proof -
  assume r: "is_row yt yb bs" "yt < yb"
  have "sorted_wrt before bs"
    by (rule sorted_wrt_mono_rel [of bs "\<lambda>a b. b_x2 a < b_x1 b"]) (use r in \<open>auto simp: is_row_def before_def box_ok_def\<close>)
  then show ?thesis using r by (auto simp: banded_def is_row_def box_ok_def)
qed

lemma row_area: "is_row yt yb bs \<Longrightarrow> area bs = {(x, y). yt \<le> y \<and> y < yb \<and> x \<in> spans bs}"
  by (auto simp: is_row_def area_def spans_def INBOX_def)

lemma banded_above:
  assumes "banded bs" "is_row yt yb cs" "yt < yb" "\<forall>b \<in> set bs. b_y2 b \<le> yt"
  shows "banded (bs @ cs)"
proof -
  have "banded cs" by (rule row_banded [OF assms(2,3)])
  moreover have "before b c" if "b \<in> set bs" "c \<in> set cs" for b c
    using that assms \<open>banded cs\<close> by (auto simp: before_def banded_def is_row_def)
  ultimately show ?thesis using assms(1) by (auto simp: banded_append)
qed

text \<open>Boxes of a banded list have different upper left corners, so their number is bounded.\<close>

lemma banded_distinct: "banded bs \<Longrightarrow> distinct (map (\<lambda>b. (b_x1 b, b_y1 b)) bs)"
proof (induction bs)
  case (Cons b bs)
  let ?f = "\<lambda>b. (b_x1 b, b_y1 b)"
  have bs: "banded bs" and b: "\<forall>c \<in> set bs. before b c" using Cons.prems by (simp_all add: banded_def)
  have "?f b \<noteq> ?f c" if "c \<in> set bs" for c
    using bspec [OF b that] by (auto simp: before_def box_ok_def)
  then have "\<forall>c \<in> set bs. ?f b \<noteq> ?f c" by blast
  then have "?f b \<notin> set (map ?f bs)" unfolding set_map by blast
  then show ?case using Cons.IH [OF bs] unfolding list.map distinct.simps by blast
qed simp

lemma banded_length:
  assumes "banded bs" "within X Y bs" "finite X" "finite Y"
  shows "length bs \<le> card X * card Y"
proof -
  have "set (map (\<lambda>b. (b_x1 b, b_y1 b)) bs) \<subseteq> X \<times> Y" using assms(2) by (auto simp: within_def)
  then have "card (set (map (\<lambda>b. (b_x1 b, b_y1 b)) bs)) \<le> card (X \<times> Y)"
    by (rule card_mono [rotated]) (simp add: assms)
  moreover have "card (set (map (\<lambda>b. (b_x1 b, b_y1 b)) bs)) = length bs"
    using distinct_card [OF banded_distinct [OF assms(1)]] by simp
  ultimately show ?thesis by (simp add: card_cartesian_product)
qed

subsection \<open>The first band\<close>

lemma FindBand_split:
  assumes "banded r" "r \<noteq> []"
  obtains band rest where "FindBand r = (band, rest)" "r = band @ rest" "band \<noteq> []" "hd band = hd r"
    "is_row (b_y1 (hd r)) (b_y2 (hd r)) band" "banded rest" "\<forall>b \<in> set rest. b_y2 (hd r) \<le> b_y1 b"
proof -
  let ?P = "\<lambda>b. b_y1 b = b_y1 (hd r)"
  let ?band = "takeWhile ?P r" and ?rest = "dropWhile ?P r"
  obtain a as where r: "r = a # as" using assms(2) by (cases r) auto
  have ok: "\<forall>b \<in> set r. box_ok b" and s: "sorted_wrt before r" using assms(1) by (auto simp: banded_def)
  have a_first: "b = a \<or> before a b" if "b \<in> set r" for b using s r that by auto
  have b1: "b_y1 b = b_y1 a \<and> b_y2 b = b_y2 a" if "b \<in> set ?band" for b
    using set_takeWhileD [OF that] a_first [of b] ok r by (auto simp: before_def box_ok_def)
  have split: "r = ?band @ ?rest" by simp
  have sb: "sorted_wrt before ?band" "sorted_wrt before ?rest" "\<forall>x \<in> set ?band. \<forall>y \<in> set ?rest. before x y"
    using s split sorted_wrt_append by metis+
  have row: "sorted_wrt (\<lambda>a b. b_x2 a < b_x1 b) ?band"
  proof (rule sorted_wrt_mono_rel [OF _ sb(1)])
    fix x y assume "x \<in> set ?band" "y \<in> set ?band" "before x y"
    then show "b_x2 x < b_x1 y" using b1 [of x] b1 [of y] by (auto simp: before_def box_ok_def)
  qed
  have okb: "\<forall>b \<in> set ?band. b_x1 b < b_x2 b"
    using ok set_takeWhileD [of _ ?P r] unfolding box_ok_def by blast
  have rest: "b_y2 a \<le> b_y1 b" if b: "b \<in> set ?rest" for b
  proof -
    let ?h = "hd ?rest"
    have ne: "?rest \<noteq> []" using b by (metis empty_iff list.set(1))
    have hin: "?h \<in> set r" using ne hd_in_set set_dropWhileD by metis
    have "b_y1 ?h \<noteq> b_y1 a" using hd_dropWhile [OF ne] r by simp
    then have ah: "b_y2 a \<le> b_y1 ?h" using a_first [OF hin] by (auto simp: before_def)
    have "b = ?h \<or> before ?h b" using sb(2) b ne by (cases ?rest) auto
    then show ?thesis using ah ok hin by (auto simp: before_def box_ok_def)
  qed
  have "set ?rest \<subseteq> set r" by (auto dest: set_dropWhileD)
  then have "banded ?rest" using sb(2) ok unfolding banded_def by blast
  have hd: "hd r = a" by (simp add: r)
  show thesis
  proof (rule that)
    show "FindBand r = (?band, ?rest)" by (simp add: FindBand_def)
    show "r = ?band @ ?rest" by (rule split)
    show "?band \<noteq> []" "hd ?band = hd r" by (simp_all add: r)
    show "is_row (b_y1 (hd r)) (b_y2 (hd r)) ?band"
      unfolding is_row_def hd using b1 row okb unfolding hd by blast
    show "banded ?rest" by (rule \<open>banded ?rest\<close>)
    show "\<forall>b \<in> set ?rest. b_y2 (hd r) \<le> b_y1 b" unfolding hd using rest unfolding hd by blast
  qed
qed

lemma area_first:
  assumes row: "is_row yt yb band" and rest: "\<forall>b \<in> set rest. yb \<le> b_y1 b"
  shows "y < yt \<Longrightarrow> yt < yb \<Longrightarrow> (x, y) \<notin> area (band @ rest)"
    and "yt \<le> y \<Longrightarrow> y < yb \<Longrightarrow> (x, y) \<in> area (band @ rest) \<longleftrightarrow> x \<in> spans band"
    and "yb \<le> y \<Longrightarrow> (x, y) \<in> area (band @ rest) \<longleftrightarrow> (x, y) \<in> area rest"
proof -
  have late: "(x, y) \<in> area rest \<Longrightarrow> yb \<le> y"
  proof -
    assume "(x, y) \<in> area rest"
    then obtain b where "b \<in> set rest" "b_y1 b \<le> y" by (auto simp: area_def INBOX_def)
    then show "yb \<le> y" using rest by force
  qed
  show "y < yt \<Longrightarrow> yt < yb \<Longrightarrow> (x, y) \<notin> area (band @ rest)"
    "yt \<le> y \<Longrightarrow> y < yb \<Longrightarrow> (x, y) \<in> area (band @ rest) \<longleftrightarrow> x \<in> spans band"
    "yb \<le> y \<Longrightarrow> (x, y) \<in> area (band @ rest) \<longleftrightarrow> (x, y) \<in> area rest"
    using late row_area [OF row] by auto
qed

section \<open>Storing boxes\<close>

text \<open>
  A region under construction: its boxes are in an allocated array with room for them. Allocations
  of up to twice the number of boxes a result can have succeed.
\<close>

definition built :: "region \<Rightarrow> box list \<Rightarrow> bool" where
  "built reg bs \<longleftrightarrow> (\<exists>sz. data reg = RegHeap sz bs \<and> length bs \<le> sz \<and> 0 < sz)"

definition room :: "region_env \<Rightarrow> nat \<Rightarrow> bool" where
  "room env K \<longleftrightarrow> (\<forall>n \<le> 2 * K. rects_alloc env n)"

lemma built_rects [simp]: "built reg bs \<Longrightarrow> data_rects (data reg) = bs"
  by (auto simp: built_def)

lemma RegionRectAlloc_room:
  assumes "room env K" "built reg bs" "length bs \<le> K" "n \<le> K" "n \<noteq> 0" "n = 1 \<longrightarrow> bs \<noteq> []"
  shows "\<exists>sz. RegionRectAlloc env n reg = (True, reg\<lparr>data := RegHeap sz bs\<rparr>) \<and> length bs + n \<le> sz"
proof -
  obtain sz where d: "data reg = RegHeap sz bs" "0 < sz" using assms(2) by (auto simp: built_def)
  let ?n1 = "if n = 1 then if length bs > 500 then 250 else length bs else n"
  have "?n1 + length bs \<le> 2 * K" using assms(3,4) by auto
  then have "rects_alloc env (?n1 + length bs)" using assms(1) unfolding room_def by blast
  moreover have "n \<le> ?n1" using assms(6) by (auto simp: Suc_le_eq)
  ultimately show ?thesis using d by (auto simp: RegionRectAlloc_def Let_def)
qed

lemma RECTALLOC_room:
  assumes "room env K" "built reg bs" "length bs \<le> K" "n \<le> K" "n \<noteq> 0"
  shows "\<exists>sz. RECTALLOC env n reg = (True, reg\<lparr>data := RegHeap sz bs\<rparr>) \<and> length bs + n \<le> sz"
proof (cases "length bs + n > data_size (data reg)")
  case True
  then have "n = 1 \<longrightarrow> bs \<noteq> []" using assms(2) by (auto simp: built_def)
  then show ?thesis
    using RegionRectAlloc_room [OF assms] True assms(2) by (auto simp: RECTALLOC_def)
next
  case False
  obtain sz where "data reg = RegHeap sz bs" using assms(2) by (auto simp: built_def)
  then show ?thesis using False by (auto simp: RECTALLOC_def intro: exI [of _ sz])
qed

lemma store_room:
  assumes "room env K" "built reg bs" "length bs + length cs \<le> K" "cs \<noteq> []"
  obtains reg' where "RECTALLOC env (length cs) reg = (True, reg')"
    "built (add_rects cs reg') (bs @ cs)" "extents (add_rects cs reg') = extents reg"
proof -
  obtain sz where "RECTALLOC env (length cs) reg = (True, reg\<lparr>data := RegHeap sz bs\<rparr>)" "length bs + length cs \<le> sz"
    using RECTALLOC_room [OF assms(1,2), of "length cs"] assms(3,4) by auto
  then show thesis using that assms(4) by (auto simp: add_rects_def built_def)
qed

lemma NEWRECT_room:
  assumes "room env K" "built reg bs" "length bs < K"
  obtains reg' where "NEWRECT env b reg = (True, reg')" "built reg' (bs @ [b])" "extents reg' = extents reg"
proof -
  obtain sz where sz: "data reg = RegHeap sz bs" "length bs \<le> sz" "0 < sz" using assms(2) by (auto simp: built_def)
  show thesis
  proof (cases "length bs = sz")
    case True
    then have "bs \<noteq> []" using sz by auto
    then obtain sz' where "RegionRectAlloc env 1 reg = (True, reg\<lparr>data := RegHeap sz' bs\<rparr>)" "length bs + 1 \<le> sz'"
      using RegionRectAlloc_room [OF assms(1,2), of 1] assms(3) by auto
    then show thesis using that True sz by (auto simp: NEWRECT_def add_rects_def built_def)
  next
    case False
    then show thesis using that sz by (auto simp: NEWRECT_def add_rects_def built_def)
  qed
qed

section \<open>The overlapping band of a union\<close>

text \<open>The spans that \<open>RegionUnionO\<close> stores, without the storing.\<close>

fun union_spans :: "int \<Rightarrow> int \<Rightarrow> box list \<Rightarrow> box list \<Rightarrow> (int \<times> int) list" where
  "union_spans l rt [] [] = [(l, rt)]"
| "union_spans l rt (a # as) [] =
     (if b_x1 a \<le> rt then union_spans l (max rt (b_x2 a)) as []
      else (l, rt) # union_spans (b_x1 a) (b_x2 a) as [])"
| "union_spans l rt [] (b # bs) =
     (if b_x1 b \<le> rt then union_spans l (max rt (b_x2 b)) [] bs
      else (l, rt) # union_spans (b_x1 b) (b_x2 b) [] bs)"
| "union_spans l rt (a # as) (b # bs) =
     (if b_x1 a < b_x1 b
      then if b_x1 a \<le> rt then union_spans l (max rt (b_x2 a)) as (b # bs)
           else (l, rt) # union_spans (b_x1 a) (b_x2 a) as (b # bs)
      else if b_x1 b \<le> rt then union_spans l (max rt (b_x2 b)) (a # as) bs
           else (l, rt) # union_spans (b_x1 b) (b_x2 b) (a # as) bs)"

definition span_boxes :: "int \<Rightarrow> int \<Rightarrow> (int \<times> int) list \<Rightarrow> box list" where
  "span_boxes yt yb ps = map (\<lambda>p. Box (fst p) yt (snd p) yb) ps"

lemma union_spans_nonempty [simp]: "union_spans l rt as bs \<noteq> []"
  by (induction l rt as bs rule: union_spans.induct) auto

lemma MERGERECT_merge:
  "b_x1 a \<le> rt \<Longrightarrow> MERGERECT env yt yb a l rt ov reg =
   (True, l, max rt (b_x2 a), if b_x1 a < rt then True else ov, reg)"
  by (simp add: MERGERECT_def max_def)

lemma MERGERECT_new:
  assumes "room env K" "built reg cs" "length cs < K" "\<not> b_x1 a \<le> rt"
  obtains reg' where "\<forall>ov. MERGERECT env yt yb a l rt ov reg = (True, b_x1 a, b_x2 a, ov, reg')"
    "built reg' (cs @ [Box l yt rt yb])" "extents reg' = extents reg"
proof -
  obtain reg' where r: "NEWRECT env (Box l yt rt yb) reg = (True, reg')"
      "built reg' (cs @ [Box l yt rt yb])" "extents reg' = extents reg"
    by (rule NEWRECT_room [OF assms(1-3)])
  show thesis
    by (rule that [OF _ r(2,3)]) (simp add: MERGERECT_def r(1) assms(4))
qed

lemma span_boxes_Cons [simp]: "span_boxes yt yb (p # ps) = Box (fst p) yt (snd p) yb # span_boxes yt yb ps"
  by (simp add: span_boxes_def)

definition stored :: "bool \<times> bool \<times> region \<Rightarrow> region \<Rightarrow> box list \<Rightarrow> bool" where
  "stored res reg bs \<longleftrightarrow>
     (case res of (ok, ov, reg') \<Rightarrow> ok \<and> built reg' bs \<and> extents reg' = extents reg)"

lemma union_rects_stores:
  assumes "room env K" "built reg cs" "length cs + length (union_spans l rt as bs) \<le> K"
  shows "stored (union_rects env yt yb as bs l rt ov reg) reg (cs @ span_boxes yt yb (union_spans l rt as bs))"
  using assms(2,3)
proof (induction l rt as bs arbitrary: reg cs ov rule: union_spans.induct)
  case (1 l rt)
  then obtain reg' where "NEWRECT env (Box l yt rt yb) reg = (True, reg')"
      "built reg' (cs @ [Box l yt rt yb])" "extents reg' = extents reg"
    using NEWRECT_room [OF assms(1), of reg cs "Box l yt rt yb"] by auto
  then show ?case by (simp add: stored_def span_boxes_def)
next
  case (2 l rt a as)
  show ?case
  proof (cases "b_x1 a \<le> rt")
    case True
    then show ?thesis using 2(1) [OF True 2(3)] 2(4) by (simp add: MERGERECT_merge)
  next
    case False
    have len: "length cs < K" using 2(4) False by simp
    obtain reg' where m: "\<forall>ov. MERGERECT env yt yb a l rt ov reg = (True, b_x1 a, b_x2 a, ov, reg')"
        and r: "built reg' (cs @ [Box l yt rt yb])" "extents reg' = extents reg"
      by (rule MERGERECT_new [OF assms(1) 2(3) len False, where yt = yt and yb = yb and l = l])
    show ?thesis using 2(2) [OF False r(1), of ov] 2(4) False r(2) m by (simp add: stored_def)
  qed
next
  case (3 l rt b bs)
  show ?case
  proof (cases "b_x1 b \<le> rt")
    case True
    then show ?thesis using 3(1) [OF True 3(3)] 3(4) by (simp add: MERGERECT_merge)
  next
    case False
    have len: "length cs < K" using 3(4) False by simp
    obtain reg' where m: "\<forall>ov. MERGERECT env yt yb b l rt ov reg = (True, b_x1 b, b_x2 b, ov, reg')"
        and r: "built reg' (cs @ [Box l yt rt yb])" "extents reg' = extents reg"
      by (rule MERGERECT_new [OF assms(1) 3(3) len False, where yt = yt and yb = yb and l = l])
    show ?thesis using 3(2) [OF False r(1), of ov] 3(4) False r(2) m by (simp add: stored_def)
  qed
next
  case (4 l rt a as b bs)
  show ?case
  proof (cases "b_x1 a < b_x1 b")
    case lt: True
    show ?thesis
    proof (cases "b_x1 a \<le> rt")
      case True
      then show ?thesis using 4(1) [OF lt True 4(5)] 4(6) lt by (simp add: MERGERECT_merge)
    next
      case False
      have len: "length cs < K" using 4(6) lt False by simp
      obtain reg' where m: "\<forall>ov. MERGERECT env yt yb a l rt ov reg = (True, b_x1 a, b_x2 a, ov, reg')"
          and r: "built reg' (cs @ [Box l yt rt yb])" "extents reg' = extents reg"
        by (rule MERGERECT_new [OF assms(1) 4(5) len False, where yt = yt and yb = yb and l = l])
      show ?thesis using 4(2) [OF lt False r(1), of ov] 4(6) lt False r(2) m by (simp add: stored_def)
    qed
  next
    case ge: False
    show ?thesis
    proof (cases "b_x1 b \<le> rt")
      case True
      then show ?thesis using 4(3) [OF ge True 4(5)] 4(6) ge by (simp add: MERGERECT_merge)
    next
      case False
      have len: "length cs < K" using 4(6) ge False by simp
      obtain reg' where m: "\<forall>ov. MERGERECT env yt yb b l rt ov reg = (True, b_x1 b, b_x2 b, ov, reg')"
          and r: "built reg' (cs @ [Box l yt rt yb])" "extents reg' = extents reg"
        by (rule MERGERECT_new [OF assms(1) 4(5) len False, where yt = yt and yb = yb and l = l])
      show ?thesis using 4(4) [OF ge False r(1), of ov] 4(6) ge False r(2) m by (simp add: stored_def)
    qed
  qed
qed

text \<open>What the spans cover, and that they are a row with gaps.\<close>

definition covered :: "(int \<times> int) list \<Rightarrow> int set" where
  "covered ps = {x. \<exists>p \<in> set ps. fst p \<le> x \<and> x < snd p}"

definition gapped :: "box list \<Rightarrow> bool" where
  "gapped bs \<longleftrightarrow> (\<forall>b \<in> set bs. b_x1 b < b_x2 b) \<and> sorted_wrt (\<lambda>a b. b_x2 a < b_x1 b) bs"

text \<open>Spans in order, the first of them starting at \<open>l\<close>.\<close>

definition spans_from :: "int \<Rightarrow> (int \<times> int) list \<Rightarrow> bool" where
  "spans_from l ps \<longleftrightarrow> ps \<noteq> [] \<and> fst (hd ps) = l \<and> (\<forall>p \<in> set ps. l \<le> fst p \<and> fst p < snd p) \<and>
     sorted_wrt (\<lambda>p q. snd p < fst q) ps"

lemma gapped_Cons:
  "gapped (b # bs) \<longleftrightarrow> b_x1 b < b_x2 b \<and> (\<forall>c \<in> set bs. b_x2 b < b_x1 c) \<and> gapped bs"
  by (auto simp: gapped_def)

lemma gapped_Nil [simp]: "gapped []"
  by (simp add: gapped_def)

lemma spans_Cons: "spans (b # bs) = {b_x1 b..<b_x2 b} \<union> spans bs"
  by (auto simp: spans_def)

lemma covered_Cons: "covered (p # ps) = {fst p..<snd p} \<union> covered ps"
  by (auto simp: covered_def)

lemma covered_Nil [simp]: "covered [] = {}"
  by (simp add: covered_def)

lemma spans_from_Cons:
  "rt < l' \<Longrightarrow> l < rt \<Longrightarrow> spans_from l' ps \<Longrightarrow> spans_from l ((l, rt) # ps)"
  by (force simp: spans_from_def)

text \<open>
  One step of the sweep along the row: the next box starts where the current span reaches, or
  behind it.
\<close>

definition row_done :: "int \<Rightarrow> int \<Rightarrow> box list \<Rightarrow> box list \<Rightarrow> (int \<times> int) list \<Rightarrow> bool" where
  "row_done l rt as bs ps \<longleftrightarrow> spans_from l ps \<and> covered ps = {l..<rt} \<union> spans as \<union> spans bs \<and>
     fst ` set ps \<subseteq> {l} \<union> b_x1 ` set as \<union> b_x1 ` set bs"

lemma row_merge1:
  assumes "row_done l (max rt (b_x2 a)) as bs ps" "l \<le> b_x1 a" "b_x1 a \<le> rt"
  shows "row_done l rt (a # as) bs ps"
  using assms by (auto simp: row_done_def spans_Cons)

lemma row_merge2:
  assumes "row_done l (max rt (b_x2 b)) as bs ps" "l \<le> b_x1 b" "b_x1 b \<le> rt"
  shows "row_done l rt as (b # bs) ps"
  using assms by (auto simp: row_done_def spans_Cons)

lemma row_new1:
  assumes "row_done (b_x1 a) (b_x2 a) as bs ps" "l < rt" "rt < b_x1 a"
  shows "row_done l rt (a # as) bs ((l, rt) # ps)"
  using assms spans_from_Cons [of rt "b_x1 a" l ps]
  by (auto simp: row_done_def spans_Cons covered_Cons)

lemma row_new2:
  assumes "row_done (b_x1 b) (b_x2 b) as bs ps" "l < rt" "rt < b_x1 b"
  shows "row_done l rt as (b # bs) ((l, rt) # ps)"
  using assms spans_from_Cons [of rt "b_x1 b" l ps]
  by (auto simp: row_done_def spans_Cons covered_Cons)

lemma union_spans_row:
  assumes "gapped as" "gapped bs" "l < rt" "\<forall>a \<in> set as. l \<le> b_x1 a" "\<forall>b \<in> set bs. l \<le> b_x1 b"
  shows "row_done l rt as bs (union_spans l rt as bs)"
  using assms
proof (induction l rt as bs rule: union_spans.induct)
  case (1 l rt)
  then show ?case by (simp add: row_done_def spans_from_def covered_Cons)
next
  case (2 l rt a as)
  then show ?case
    by (cases "b_x1 a \<le> rt") (force simp: gapped_Cons intro: row_merge1 row_new1)+
next
  case (3 l rt b bs)
  then show ?case
    by (cases "b_x1 b \<le> rt") (force simp: gapped_Cons intro: row_merge2 row_new2)+
next
  case (4 l rt a as b bs)
  have a: "b_x1 a < b_x2 a" "\<forall>c \<in> set as. b_x1 a \<le> b_x1 c" "gapped as"
    and b: "b_x1 b < b_x2 b" "\<forall>c \<in> set bs. b_x1 b \<le> b_x1 c" "gapped bs"
    using 4(5,6) by (force simp: gapped_Cons)+
  show ?case
  proof (cases "b_x1 a < b_x1 b")
    case lt: True
    then have later: "\<forall>c \<in> set (b # bs). b_x1 a \<le> b_x1 c" using b by auto
    show ?thesis
    proof (cases "b_x1 a \<le> rt")
      case True
      then have "row_done l (max rt (b_x2 a)) as (b # bs) (union_spans l (max rt (b_x2 a)) as (b # bs))"
        using 4(1) [OF lt True] 4(6-9) a by simp
      then show ?thesis using row_merge1 True lt 4(8) by simp
    next
      case False
      then have "row_done (b_x1 a) (b_x2 a) as (b # bs) (union_spans (b_x1 a) (b_x2 a) as (b # bs))"
        using 4(2) [OF lt False] 4(6) a later by simp
      then show ?thesis using row_new1 [of a as "b # bs" _ l rt] False lt 4(7) by simp
    qed
  next
    case ge: False
    then have later: "\<forall>c \<in> set (a # as). b_x1 b \<le> b_x1 c" using a by auto
    show ?thesis
    proof (cases "b_x1 b \<le> rt")
      case True
      then have "row_done l (max rt (b_x2 b)) (a # as) bs (union_spans l (max rt (b_x2 b)) (a # as) bs)"
        using 4(3) [OF ge True] 4(5,7,8,9) b by simp
      then show ?thesis using row_merge2 True ge 4(9) by simp
    next
      case False
      then have "row_done (b_x1 b) (b_x2 b) (a # as) bs (union_spans (b_x1 b) (b_x2 b) (a # as) bs)"
        using 4(4) [OF ge False] 4(5) b later by simp
      then show ?thesis using row_new2 [of b "a # as" bs _ l rt] False ge 4(7) by simp
    qed
  qed
qed

lemma span_boxes_row:
  assumes "spans_from l ps"
  shows "is_row yt yb (span_boxes yt yb ps)" "spans (span_boxes yt yb ps) = covered ps"
    "b_x1 ` set (span_boxes yt yb ps) = fst ` set ps" "span_boxes yt yb ps \<noteq> []"
  using assms
  by (auto simp: is_row_def span_boxes_def spans_from_def spans_def covered_def sorted_wrt_map image_image)

section \<open>Coalescing\<close>

text \<open>
  The boxes of the result so far: banded, and from \<open>p\<close> on they are the last band, which lies
  below all before it.
\<close>

definition banding :: "nat \<Rightarrow> box list \<Rightarrow> bool" where
  "banding p bs \<longleftrightarrow> banded bs \<and> p \<le> length bs \<and>
     (\<forall>a \<in> set (take p bs). \<forall>b \<in> set (drop p bs). b_y2 a \<le> b_y1 b) \<and>
     (\<forall>a \<in> set (drop p bs). \<forall>b \<in> set (drop p bs). b_y1 a = b_y1 b \<and> b_y2 a = b_y2 b)"

lemma banding_new:
  assumes "banded bs" "is_row yt yb cs" "yt < yb" "\<forall>b \<in> set bs. b_y2 b \<le> yt"
  shows "banding (length bs) (bs @ cs)"
  using banded_above [OF assms] assms by (auto simp: banding_def is_row_def)

text \<open>Two bands with the same spans, one right below the other, become one.\<close>

lemma same_spans:
  "list_all2 (\<lambda>p c. b_x1 p = b_x1 c \<and> b_x2 p = b_x2 c) ps cs \<Longrightarrow> spans ps = spans cs"
  by (induction ps cs rule: list_all2_induct) (auto simp: spans_Cons)

definition stretch :: "int \<Rightarrow> box list \<Rightarrow> box list" where
  "stretch yb bs = map (\<lambda>p. p\<lparr>b_y2 := yb\<rparr>) bs"

lemma stretch_row: "is_row yt ym bs \<Longrightarrow> is_row yt yb (stretch yb bs)"
  by (auto simp: is_row_def stretch_def sorted_wrt_map)

lemma stretch_spans [simp]: "spans (stretch yb bs) = spans bs"
  by (auto simp: spans_def stretch_def)

lemma stretch_Nil [simp]: "stretch yb bs = [] \<longleftrightarrow> bs = []" "length (stretch yb bs) = length bs"
  by (simp_all add: stretch_def)

lemma banding_row:
  assumes "banding p bs" "p < length bs"
  obtains ya where "is_row ya (b_y2 (hd (drop p bs))) (drop p bs)" "ya < b_y2 (hd (drop p bs))"
    "\<forall>a \<in> set (take p bs). b_y2 a \<le> ya"
proof -
  let ?cs = "drop p bs" and ?h = "hd (drop p bs)"
  have h: "?h \<in> set ?cs" using assms(2) by (intro hd_in_set) simp
  have b: "banded ?cs" and same: "\<forall>b \<in> set ?cs. b_y1 b = b_y1 ?h \<and> b_y2 b = b_y2 ?h"
    and up: "\<forall>a \<in> set (take p bs). b_y2 a \<le> b_y1 ?h"
    using assms(1) h banded_append [of "take p bs" ?cs] unfolding banding_def append_take_drop_id by blast+
  have "sorted_wrt (\<lambda>a b. b_x2 a < b_x1 b) ?cs"
  proof (rule sorted_wrt_mono_rel [of ?cs before])
    fix x y assume xy: "x \<in> set ?cs" "y \<in> set ?cs" "before x y"
    then have "b_y1 y = b_y1 x" "b_y2 y = b_y2 x" using same by metis+
    then show "b_x2 x < b_x1 y" using xy(3) by (auto simp: before_def box_ok_def)
  qed (use b in \<open>simp add: banded_def\<close>)
  moreover have "\<forall>b \<in> set ?cs. b_x1 b < b_x2 b" using b by (auto simp: banded_def box_ok_def)
  ultimately have "is_row (b_y1 ?h) (b_y2 ?h) ?cs" using same by (auto simp: is_row_def)
  moreover have "b_y1 ?h < b_y2 ?h" using b h by (auto simp: banded_def box_ok_def)
  ultimately show thesis using that up by blast
qed

definition band_added :: "int \<Rightarrow> region \<Rightarrow> box list \<Rightarrow> nat \<times> region \<Rightarrow> box list \<Rightarrow> bool" where
  "band_added yb reg bs res ds \<longleftrightarrow> (case res of (p', reg') \<Rightarrow>
     built reg' ds \<and> extents reg' = extents reg \<and> banding p' ds \<and> p' < length ds \<and> area ds = area bs \<and>
     (\<forall>d \<in> set ds. b_y2 d \<le> yb) \<and> b_y2 (List.last ds) = yb \<and> length ds \<le> length bs \<and>
     (\<forall>X Y. within X Y bs \<longrightarrow> within X Y ds))"

lemma band_not_merged:
  assumes "banded bs" "is_row yt yb cs" "cs \<noteq> []" "yt < yb" "\<forall>b \<in> set bs. b_y2 b \<le> yt" "built reg (bs @ cs)"
  shows "band_added yb reg (bs @ cs) (length bs, reg) (bs @ cs)"
  using assms banding_new [OF assms(1,2,4,5)] last_in_set [OF assms(3)]
  by (auto simp: band_added_def is_row_def)

lemma band_merged:
  assumes p: "banding p bs" "p < length bs"
    and cs: "is_row yt yb cs" "cs \<noteq> []" "yt < yb" "\<forall>b \<in> set bs. b_y2 b \<le> yt"
    and touch: "b_y2 (hd (drop p bs)) = yt" and same: "spans (drop p bs) = spans cs"
    and reg': "built reg' (take p bs @ stretch yb (drop p bs))" "extents reg' = extents reg"
  shows "band_added yb reg (bs @ cs) (p, reg') (take p bs @ stretch yb (drop p bs))"
proof -
  let ?pre = "take p bs" and ?band = "drop p bs"
  obtain ya where row: "is_row ya yt ?band" "ya < yt" "\<forall>a \<in> set ?pre. b_y2 a \<le> ya"
    using banding_row [OF p] touch by metis
  have row': "is_row ya yb (stretch yb ?band)" by (rule stretch_row [OF row(1)])
  have ya: "ya < yb" using row(2) cs(3) by simp
  have bs: "bs = ?pre @ ?band" by simp
  have pre: "banded ?pre" using p(1) banded_append [of ?pre ?band] by (simp add: banding_def)
  have lp: "length ?pre = p" using p(2) by simp
  have b: "banding (length ?pre) (?pre @ stretch yb ?band)" by (rule banding_new [OF pre row' ya row(3)])
  have "area bs = area ?pre \<union> area ?band" using area_simps(2) [of ?pre ?band] by simp
  then have a: "area (?pre @ stretch yb ?band) = area (bs @ cs)"
    using row_area [OF row(1)] row_area [OF row'] row_area [OF cs(1)] same row(2) cs(3) by auto
  have w: "within X Y (?pre @ stretch yb ?band)" if w: "within X Y (bs @ cs)" for X Y
  proof -
    have "yb \<in> Y" using w cs(1,2) by (cases cs) (auto simp: is_row_def)
    moreover have "within X Y ?pre" "within X Y ?band" using w within_simps(2) [of X Y ?pre ?band] by simp_all
    ultimately show ?thesis by (auto simp: within_def stretch_def)
  qed
  have ne: "stretch yb ?band \<noteq> []" using p(2) by simp
  have le: "\<forall>d \<in> set (?pre @ stretch yb ?band). b_y2 d \<le> yb"
    using row(3) row' ya by (auto simp: is_row_def)
  have "b_y2 (List.last (?pre @ stretch yb ?band)) = yb"
    using last_in_set [OF ne] row' ne by (auto simp: is_row_def)
  then show ?thesis using b a w le p(2) reg' ne unfolding lp by (simp add: band_added_def)
qed

lemma Coalesce_band:
  assumes p: "banding p bs" and cs: "is_row yt yb cs" "cs \<noteq> []" "yt < yb" "\<forall>b \<in> set bs. b_y2 b \<le> yt"
    and reg: "built reg (bs @ cs)"
  shows "\<exists>ds. band_added yb reg (bs @ cs) (Coalesce p (length bs) reg) ds"
proof -
  have bs: "banded bs" and ple: "p \<le> length bs" using p by (simp_all add: banding_def)
  note plain = band_not_merged [OF bs cs reg]
  let ?band = "drop p bs"
  show ?thesis
  proof (cases "length bs - p = length cs")
    case False
    then have "Coalesce p (length bs) reg = (length bs, reg)"
      using reg ple by (auto simp: Coalesce_def)
    then show ?thesis using plain by auto
  next
    case True
    then have pl: "p < length bs" and n: "length bs - p \<noteq> 0" using cs(2) by (cases cs; simp)+
    have band: "take (length bs - p) (drop p (bs @ cs)) = ?band" by simp
    have hd_cs: "b_y1 (hd cs) = yt" "b_y2 (hd cs) = yb" using cs(1,2) by (auto simp: is_row_def)
    let ?all = "list_all2 (\<lambda>p c. b_x1 p = b_x1 c \<and> b_x2 p = b_x2 c) ?band cs"
    obtain sz where d: "data reg = RegHeap sz (bs @ cs)" "length (bs @ cs) \<le> sz" "0 < sz"
      using reg by (auto simp: built_def)
    have c: "Coalesce p (length bs) reg =
      (if b_y2 (hd ?band) \<noteq> yt \<or> \<not> ?all then (length bs, reg)
       else (p, reg\<lparr>data := RegHeap sz (take p bs @ stretch yb ?band)\<rparr>))"
    proof -
      have cur: "drop (length bs) (bs @ cs) = cs" "take p (bs @ cs) = take p bs" using ple by simp_all
      have e: "int (length bs) - int p = int (length (bs @ cs)) - int (length bs)" using True ple by force
      have "Coalesce p (length bs) reg = RegionCoalesce p (length bs) reg"
        unfolding Coalesce_def d(1) data_rects.simps using e by (rule if_P)
      also have "\<dots> = (if b_y2 (hd ?band) \<noteq> yt \<or> \<not> ?all then (length bs, reg)
         else (p, reg\<lparr>data := RegHeap sz (take p bs @ stretch yb ?band)\<rparr>))"
        unfolding RegionCoalesce_def Let_def d(1) data_rects.simps data_size.simps band cur hd_cs stretch_def
        by (simp only: n if_False if_not_P split: if_split) (simp add: n)
      finally show ?thesis .
    qed
    show ?thesis
    proof (cases "b_y2 (hd ?band) \<noteq> yt \<or> \<not> ?all")
      case True
      then show ?thesis using plain c by auto
    next
      case False
      then have m: "b_y2 (hd ?band) = yt" "spans ?band = spans cs" using same_spans by auto
      have "built (reg\<lparr>data := RegHeap sz (take p bs @ stretch yb ?band)\<rparr>) (take p bs @ stretch yb ?band)"
        using d ple by (simp add: built_def)
      then have "band_added yb reg (bs @ cs) (p, reg\<lparr>data := RegHeap sz (take p bs @ stretch yb ?band)\<rparr>)
          (take p bs @ stretch yb ?band)"
        by (rule band_merged [OF p pl cs m]) simp
      then show ?thesis unfolding c if_not_P [OF False] by (rule exI)
    qed
  qed
qed

section \<open>The sweep\<close>

text \<open>Appending one band, and the overlapping band of a union, to what the sweep has built.\<close>

definition swept :: "sweep \<Rightarrow> int \<Rightarrow> box list \<Rightarrow> bool" where
  "swept s y bs \<longleftrightarrow> built (newReg s) bs \<and> banding (prevBand s) bs \<and> (\<forall>b \<in> set bs. b_y2 b \<le> y)"

lemma clipped_row:
  assumes "is_row ya yb' band"
  shows "is_row yt yb (map (\<lambda>b. Box (b_x1 b) yt (b_x2 b) yb) band)"
    "spans (map (\<lambda>b. Box (b_x1 b) yt (b_x2 b) yb) band) = spans band"
  using assms by (auto simp: is_row_def spans_def sorted_wrt_map)

definition rows :: "int \<Rightarrow> int \<Rightarrow> int set \<Rightarrow> (int \<times> int) set" where
  "rows yt yb S = {(x, y). yt \<le> y \<and> y < yb \<and> x \<in> S}"

text \<open>
  \<open>s'\<close> has built \<open>ds\<close>, down to \<open>y\<close>, which adds the points \<open>R\<close> to what \<open>s\<close> had built.
\<close>

definition grown :: "int set \<Rightarrow> int set \<Rightarrow> sweep \<Rightarrow> box list \<Rightarrow> sweep \<Rightarrow> int \<Rightarrow> box list \<Rightarrow> (int \<times> int) set \<Rightarrow> bool" where
  "grown X Y s bs s' y ds R \<longleftrightarrow> swept s' y ds \<and> within X Y ds \<and> area ds = area bs \<union> R \<and>
     extents (newReg s') = extents (newReg s)"

text \<open>The array has room for every banded list with these coordinates.\<close>

definition roomy :: "region_env \<Rightarrow> int set \<Rightarrow> int set \<Rightarrow> bool" where
  "roomy env X Y \<longleftrightarrow> finite X \<and> finite Y \<and> room env (card X * card Y)"

lemma roomy_length:
  assumes "roomy env X Y" "banded bs" "within X Y bs"
  shows "room env (card X * card Y)" "length bs \<le> card X * card Y"
  using assms banded_length [OF assms(2,3)] by (auto simp: roomy_def)

lemma swept_coalesce:
  assumes "swept s y bs" "is_row yt yb cs" "cs \<noteq> []" "yt < yb" "y \<le> yt" "within X Y (bs @ cs)"
    and "built reg (bs @ cs)" "extents reg = extents (newReg s)"
    and c: "Coalesce (prevBand s) (length bs) reg = (p', reg')"
  shows "\<exists>ds. grown X Y s bs (s\<lparr>prevBand := p', newReg := reg'\<rparr>) yb ds (rows yt yb (spans cs))"
proof -
  have "\<forall>b \<in> set bs. b_y2 b \<le> yt" using assms(1,5) by (auto simp: swept_def)
  then obtain ds where "band_added yb reg (bs @ cs) (p', reg') ds"
    using Coalesce_band [OF _ assms(2,3,4) _ assms(7), of "prevBand s"] assms(1) c by (auto simp: swept_def)
  then show ?thesis
    using assms(6,8) row_area [OF assms(2)] by (auto simp: band_added_def grown_def swept_def rows_def)
qed

lemma nonO_band_grows:
  assumes r: "roomy env X Y" and s: "swept s y bs" "within X Y bs"
    and band: "is_row ya ye band" "band \<noteq> []" "b_x1 ` set band \<subseteq> X"
    and y: "y \<le> yt" "yt < yb" "yt \<in> Y" "yb \<in> Y"
  shows "\<exists>ds. grown X Y s bs (nonO_band env band yt yb s) yb ds (rows yt yb (spans band))"
proof -
  let ?cs = "map (\<lambda>b. Box (b_x1 b) yt (b_x2 b) yb) band"
  have row: "is_row yt yb ?cs" "spans ?cs = spans band" by (rule clipped_row [OF band(1)])+
  have w: "within X Y (bs @ ?cs)" using s(2) band(3) y(3,4) by (auto simp: within_def)
  have reg: "built (newReg s) bs" "banded bs" and "\<forall>b \<in> set bs. b_y2 b \<le> y"
    using s(1) by (simp_all add: swept_def banding_def)
  then have up: "\<forall>b \<in> set bs. b_y2 b \<le> yt" using y(1) order_trans by blast
  have "banded (bs @ ?cs)" by (rule banded_above [OF reg(2) row(1) y(2) up])
  note K = roomy_length [OF r this w]
  have "length bs + length ?cs \<le> card X * card Y" "?cs \<noteq> []" using K(2) band(2) by simp_all
  then obtain reg' where a: "RECTALLOC env (length ?cs) (newReg s) = (True, reg')"
      "built (add_rects ?cs reg') (bs @ ?cs)" "extents (add_rects ?cs reg') = extents (newReg s)"
    by (rule store_room [OF K(1) reg(1)])
  obtain p' reg2 where c: "Coalesce (prevBand s) (length bs) (add_rects ?cs reg') = (p', reg2)" by fastforce
  have "nonO_band env band yt yb s = s\<lparr>prevBand := p', newReg := reg2\<rparr>"
    using a(1) c reg(1) by (simp add: nonO_band_def Let_def RegionAppendNonO_def)
  then show ?thesis
    using swept_coalesce [OF s(1) row(1) _ y(2,1) w a(2,3) c] band(2) row(2) by simp
qed

lemma is_row_gapped: "is_row yt yb bs \<Longrightarrow> gapped bs"
  by (auto simp: is_row_def gapped_def)

lemma RegionUnionO_stores:
  assumes K: "room env K" "built reg bs" and g: "gapped as" "gapped cs" "as \<noteq> []" "cs \<noteq> []"
  obtains l ps where "spans_from l ps" "covered ps = spans as \<union> spans cs"
    "fst ` set ps \<subseteq> b_x1 ` set as \<union> b_x1 ` set cs"
    "length bs + length ps \<le> K \<longrightarrow> stored (RegionUnionO env as cs yt yb ov reg) reg (bs @ span_boxes yt yb ps)"
proof -
  obtain a as' c cs' where ac: "as = a # as'" "cs = c # cs'" using g(3,4) by (metis neq_Nil_conv)
  have a: "b_x1 a < b_x2 a" "\<forall>b \<in> set as'. b_x1 a \<le> b_x1 b" "gapped as'"
    and c: "b_x1 c < b_x2 c" "\<forall>b \<in> set cs'. b_x1 c \<le> b_x1 b" "gapped cs'"
    using g(1,2) ac by (force simp: gapped_Cons)+
  show thesis
  proof (cases "b_x1 a < b_x1 c")
    case True
    let ?ps = "union_spans (b_x1 a) (b_x2 a) as' cs"
    have "row_done (b_x1 a) (b_x2 a) as' cs ?ps"
      by (rule union_spans_row) (use a c True ac g in auto)
    then have d: "spans_from (b_x1 a) ?ps" "covered ?ps = {b_x1 a..<b_x2 a} \<union> spans as' \<union> spans cs"
      "fst ` set ?ps \<subseteq> {b_x1 a} \<union> b_x1 ` set as' \<union> b_x1 ` set cs" by (simp_all add: row_done_def)
    have e: "RegionUnionO env as cs yt yb ov reg = union_rects env yt yb as' cs (b_x1 a) (b_x2 a) ov reg"
      using True ac by (simp add: RegionUnionO_def)
    show thesis
      by (rule that [OF d(1)]) (use d(2,3) ac e union_rects_stores [OF K] in \<open>auto simp: spans_Cons\<close>)
  next
    case False
    let ?ps = "union_spans (b_x1 c) (b_x2 c) as cs'"
    have "row_done (b_x1 c) (b_x2 c) as cs' ?ps"
      by (rule union_spans_row) (use a c False ac g in auto)
    then have d: "spans_from (b_x1 c) ?ps" "covered ?ps = {b_x1 c..<b_x2 c} \<union> spans as \<union> spans cs'"
      "fst ` set ?ps \<subseteq> {b_x1 c} \<union> b_x1 ` set as \<union> b_x1 ` set cs'" by (simp_all add: row_done_def)
    have e: "RegionUnionO env as cs yt yb ov reg = union_rects env yt yb as cs' (b_x1 c) (b_x2 c) ov reg"
      using False ac by (simp add: RegionUnionO_def)
    show thesis
      by (rule that [OF d(1)]) (use d(2,3) ac e union_rects_stores [OF K] in \<open>auto simp: spans_Cons\<close>)
  qed
qed

lemma O_band_grows:
  assumes r: "roomy env X Y" and s: "swept s y bs" "within X Y bs"
    and band1: "gapped band1" "band1 \<noteq> []" "b_x1 ` set band1 \<subseteq> X"
    and band2: "gapped band2" "band2 \<noteq> []" "b_x1 ` set band2 \<subseteq> X"
    and y: "y \<le> yt" "yt < yb" "yt \<in> Y" "yb \<in> Y"
  shows "\<exists>ds. grown X Y s bs (O_band env RegionUnionO band1 band2 yt yb s) yb ds
    (rows yt yb (spans band1 \<union> spans band2))"
proof -
  have reg: "built (newReg s) bs" "banded bs" and "\<forall>b \<in> set bs. b_y2 b \<le> y"
    using s(1) by (simp_all add: swept_def banding_def)
  then have up: "\<forall>b \<in> set bs. b_y2 b \<le> yt" using y(1) order_trans by blast
  have K: "room env (card X * card Y)" using r by (simp add: roomy_def)
  obtain l ps where ps: "spans_from l ps" "covered ps = spans band1 \<union> spans band2"
      "fst ` set ps \<subseteq> b_x1 ` set band1 \<union> b_x1 ` set band2"
    and st: "length bs + length ps \<le> card X * card Y \<longrightarrow>
      stored (RegionUnionO env band1 band2 yt yb (overlap s) (newReg s)) (newReg s) (bs @ span_boxes yt yb ps)"
    by (rule RegionUnionO_stores [OF K reg(1) band1(1) band2(1) band1(2) band2(2),
          where yt = yt and yb = yb and ov = "overlap s"])
  let ?cs = "span_boxes yt yb ps"
  note row = span_boxes_row [OF ps(1), of yt yb]
  have w: "within X Y (bs @ ?cs)"
  proof -
    have "b_x1 ` set ?cs \<subseteq> X" unfolding row(3) using ps(3) band1(3) band2(3) by blast
    then show ?thesis using s(2) y(3,4) row(1) by (auto simp: within_def is_row_def)
  qed
  have "banded (bs @ ?cs)" by (rule banded_above [OF reg(2) row(1) y(2) up])
  note K' = roomy_length [OF r this w]
  have "length bs + length ps \<le> card X * card Y" using K'(2) by (simp add: span_boxes_def)
  then obtain ok ov reg' where u: "RegionUnionO env band1 band2 yt yb (overlap s) (newReg s) = (ok, ov, reg')"
      "built reg' (bs @ ?cs)" "extents reg' = extents (newReg s)"
    using st by (auto simp: stored_def split: prod.splits)
  obtain p' reg2 where c: "Coalesce (prevBand s) (length bs) reg' = (p', reg2)" by fastforce
  have "O_band env RegionUnionO band1 band2 yt yb s = s\<lparr>prevBand := p', overlap := ov, newReg := reg2\<rparr>"
    using u(1) c reg(1) by (simp add: O_band_def Let_def)
  then show ?thesis
    using swept_coalesce [OF s(1) row(1,4) y(2,1) w u(2,3) c] row(2) ps(2)
    by (auto simp: grown_def swept_def)
qed

text \<open>
  The invariant of the loop: what is built is banded and ends at \<open>ybot\<close>; the points
  \<open>T\<close> of both operands are what is built and what lies below \<open>ybot\<close> in the boxes
  that are left; and \<open>ybot\<close> does not reach into both of the next bands.
\<close>

definition below :: "int \<Rightarrow> box list \<Rightarrow> box list \<Rightarrow> (int \<times> int) set" where
  "below y0 r1 r2 = {(x, y). (x, y) \<in> area r1 \<union> area r2 \<and> y0 \<le> y}"

definition left_over :: "int set \<Rightarrow> int set \<Rightarrow> int \<Rightarrow> box list \<Rightarrow> bool" where
  "left_over X Y y r \<longleftrightarrow> banded r \<and> within X Y r \<and> (r \<noteq> [] \<longrightarrow> y < b_y2 (hd r))"

definition sweep_inv :: "int set \<Rightarrow> int set \<Rightarrow> (int \<times> int) set \<Rightarrow> box list \<Rightarrow> box list \<Rightarrow> sweep \<Rightarrow> box list \<Rightarrow> bool" where
  "sweep_inv X Y T r1 r2 s bs \<longleftrightarrow> swept s (ybot s) bs \<and> within X Y bs \<and> ybot s \<in> Y \<and>
     left_over X Y (ybot s) r1 \<and> left_over X Y (ybot s) r2 \<and>
     (r1 \<noteq> [] \<and> r2 \<noteq> [] \<longrightarrow> ybot s \<le> b_y1 (hd r1) \<or> ybot s \<le> b_y1 (hd r2)) \<and>
     area bs \<union> below (ybot s) r1 r2 = T"

text \<open>A nonempty list of boxes as its first band and the rest, with all that the sweep needs.\<close>

definition first_band :: "int set \<Rightarrow> int set \<Rightarrow> box list \<Rightarrow> box list \<Rightarrow> box list \<Rightarrow> bool" where
  "first_band X Y r band rest \<longleftrightarrow> FindBand r = (band, rest) \<and> r = band @ rest \<and> band \<noteq> [] \<and>
     is_row (b_y1 (hd r)) (b_y2 (hd r)) band \<and> b_y1 (hd r) < b_y2 (hd r) \<and>
     banded rest \<and> within X Y rest \<and> (\<forall>b \<in> set rest. b_y2 (hd r) \<le> b_y1 b) \<and>
     b_x1 ` set band \<subseteq> X \<and> b_y1 (hd r) \<in> Y \<and> b_y2 (hd r) \<in> Y"

lemma first_band:
  assumes "left_over X Y y r" "r \<noteq> []"
  obtains band rest where "first_band X Y r band rest"
proof -
  have r: "banded r" "within X Y r" using assms(1) by (simp_all add: left_over_def)
  obtain band rest where b: "FindBand r = (band, rest)" "r = band @ rest" "band \<noteq> []" "hd band = hd r"
      "is_row (b_y1 (hd r)) (b_y2 (hd r)) band" "banded rest" "\<forall>b \<in> set rest. b_y2 (hd r) \<le> b_y1 b"
    by (rule FindBand_split [OF r(1) assms(2)])
  have h: "hd r \<in> set r" using assms(2) by simp
  then have "b_y1 (hd r) < b_y2 (hd r)" "b_y1 (hd r) \<in> Y" "b_y2 (hd r) \<in> Y"
    using r by (auto simp: banded_def box_ok_def within_def)
  moreover have "within X Y (band @ rest)" using r(2) b(2) by simp
  then have "b_x1 ` set band \<subseteq> X" "within X Y rest" by (auto simp: within_def)
  ultimately have "first_band X Y r band rest" unfolding first_band_def using b by blast
  then show thesis by (rule that)
qed

lemma first_band_area:
  assumes "first_band X Y r band rest"
  shows "y < b_y1 (hd r) \<Longrightarrow> (x, y) \<notin> area r"
    and "b_y1 (hd r) \<le> y \<Longrightarrow> y < b_y2 (hd r) \<Longrightarrow> (x, y) \<in> area r \<longleftrightarrow> x \<in> spans band"
    and "b_y2 (hd r) \<le> y \<Longrightarrow> (x, y) \<in> area r \<longleftrightarrow> (x, y) \<in> area rest"
proof -
  have f: "is_row (b_y1 (hd r)) (b_y2 (hd r)) band" "\<forall>b \<in> set rest. b_y2 (hd r) \<le> b_y1 b"
    "b_y1 (hd r) < b_y2 (hd r)" "r = band @ rest" using assms unfolding first_band_def by blast+
  show "y < b_y1 (hd r) \<Longrightarrow> (x, y) \<notin> area r"
    using area_first(1) [OF f(1,2) _ f(3)] f(4) by simp
  show "b_y1 (hd r) \<le> y \<Longrightarrow> y < b_y2 (hd r) \<Longrightarrow> (x, y) \<in> area r \<longleftrightarrow> x \<in> spans band"
    using area_first(2) [OF f(1,2)] f(4) by simp
  show "b_y2 (hd r) \<le> y \<Longrightarrow> (x, y) \<in> area r \<longleftrightarrow> (x, y) \<in> area rest"
    using area_first(3) [OF f(1,2)] f(4) by simp
qed

text \<open>The rows above the overlap: there is at most the upper of the two bands.\<close>

definition between :: "int \<Rightarrow> int \<Rightarrow> box list \<Rightarrow> box list \<Rightarrow> (int \<times> int) set" where
  "between y0 y1 r1 r2 = {(x, y). (x, y) \<in> area r1 \<union> area r2 \<and> y0 \<le> y \<and> y < y1}"

lemma upper_rows:
  assumes a: "first_band X Y ra A resta" and b: "first_band X Y rb B restb"
    and lt: "b_y1 (hd ra) < b_y1 (hd rb)" and y1: "y1 = min (b_y2 (hd ra)) (b_y1 (hd rb))"
  shows "between y0 y1 ra rb = rows (max (b_y1 (hd ra)) y0) y1 (spans A)"
proof -
  have "(x, y) \<in> area ra \<union> area rb \<longleftrightarrow> b_y1 (hd ra) \<le> y \<and> x \<in> spans A" if "y < y1" for x y
    using first_band_area [OF a, of y x] first_band_area(1) [OF b, of y x] that lt y1 by fastforce
  then show ?thesis by (auto simp: between_def rows_def)
qed

lemma upper_band:
  assumes r: "roomy env X Y" and s: "swept s (ybot s) bs" "within X Y bs" "ybot s \<in> Y"
    and a: "first_band X Y ra A resta" and b: "first_band X Y rb B restb"
    and lt: "b_y1 (hd ra) < b_y1 (hd rb)" and y: "ybot s < b_y2 (hd ra)" "ybot s \<le> b_y1 (hd rb)"
    and yt: "yt = max (b_y1 (hd ra)) (ybot s)" and yb: "yb = min (b_y2 (hd ra)) (b_y1 (hd rb))"
  shows "\<exists>ds. grown X Y s bs (if yt \<noteq> yb then nonO_band env A yt yb s else s) yb ds (between (ybot s) yb ra rb)"
proof -
  have f: "is_row (b_y1 (hd ra)) (b_y2 (hd ra)) A" "b_y1 (hd ra) < b_y2 (hd ra)" "A \<noteq> []"
    "b_x1 ` set A \<subseteq> X" "b_y1 (hd ra) \<in> Y" "b_y2 (hd ra) \<in> Y" "b_y1 (hd rb) \<in> Y"
    using a b unfolding first_band_def by blast+
  have u: "between (ybot s) yb ra rb = rows yt yb (spans A)"
    using upper_rows [OF a b lt yb] yt by simp
  have le: "yt \<le> yb" "ybot s \<le> yt" using f(2) lt y yt yb by auto
  have inY: "yt \<in> Y" "yb \<in> Y" using f s(3) by (auto simp: yt yb max_def min_def)
  show ?thesis
  proof (cases "yt = yb")
    case True
    then have "swept s yb bs" using s(1) le by (auto simp: swept_def)
    then show ?thesis using True u s(2) by (auto simp: grown_def rows_def)
  next
    case False
    then show ?thesis
      using nonO_band_grows [OF r s(1,2) f(1,3,4) le(2) _ inY] le(1) u by simp
  qed
qed

text \<open>The overlap: both bands.\<close>

lemma both_rows:
  assumes a: "first_band X Y r1 A rest1" and b: "first_band X Y r2 B rest2"
    and "y0 = max (b_y1 (hd r1)) (b_y1 (hd r2))" "y1 = min (b_y2 (hd r1)) (b_y2 (hd r2))"
  shows "between y0 y1 r1 r2 = rows y0 y1 (spans A \<union> spans B)"
proof -
  have "(x, y) \<in> area r1 \<union> area r2 \<longleftrightarrow> x \<in> spans A \<union> spans B" if "y0 \<le> y" "y < y1" for x y
    using first_band_area(2) [OF a, of y x] first_band_area(2) [OF b, of y x] that assms(3,4) by simp
  then show ?thesis by (auto simp: between_def rows_def)
qed

lemma between_join:
  "y0 \<le> y1 \<Longrightarrow> y1 \<le> y2 \<Longrightarrow> between y0 y1 r1 r2 \<union> between y1 y2 r1 r2 = between y0 y2 r1 r2"
  by (auto simp: between_def)

lemma below_split: "y0 \<le> y1 \<Longrightarrow> below y0 r1 r2 = between y0 y1 r1 r2 \<union> below y1 r1 r2"
  by (auto simp: between_def below_def)

lemma between_empty: "y1 \<le> y0 \<Longrightarrow> between y0 y1 r1 r2 = {}"
  by (auto simp: between_def)

lemma between_commute: "between y0 y1 r1 r2 = between y0 y1 r2 r1"
  by (auto simp: between_def)

definition upper_stage :: "region_env \<Rightarrow> box list \<Rightarrow> box list \<Rightarrow> box list \<Rightarrow> box list \<Rightarrow> sweep \<Rightarrow> sweep" where
  "upper_stage env A B r1 r2 s =
     (if b_y1 (hd r1) < b_y1 (hd r2)
      then if max (b_y1 (hd r1)) (ybot s) \<noteq> min (b_y2 (hd r1)) (b_y1 (hd r2))
           then nonO_band env A (max (b_y1 (hd r1)) (ybot s)) (min (b_y2 (hd r1)) (b_y1 (hd r2))) s else s
      else if b_y1 (hd r2) < b_y1 (hd r1)
      then if max (b_y1 (hd r2)) (ybot s) \<noteq> min (b_y2 (hd r2)) (b_y1 (hd r1))
           then nonO_band env B (max (b_y1 (hd r2)) (ybot s)) (min (b_y2 (hd r2)) (b_y1 (hd r1))) s else s
      else s)"

lemma sweep_step_stages:
  assumes "FindBand r1 = (A, rest1)" "FindBand r2 = (B, rest2)"
  shows "sweep_step env RegionUnionO True True r1 r2 s =
    (let yt = max (b_y1 (hd r1)) (b_y1 (hd r2)); yb = min (b_y2 (hd r1)) (b_y2 (hd r2));
         s2 = (upper_stage env A B r1 r2 s)\<lparr>ybot := yb\<rparr>
     in if yb > yt then O_band env RegionUnionO A B yt yb s2 else s2)"
proof -
  note defs = sweep_step_def upper_stage_def assms Let_def prod.case
  consider "b_y1 (hd r1) < b_y1 (hd r2)" | "b_y1 (hd r2) < b_y1 (hd r1)" | "b_y1 (hd r1) = b_y1 (hd r2)" by linarith
  then show ?thesis
  proof cases
    case 1
    then have "max (b_y1 (hd r1)) (b_y1 (hd r2)) = b_y1 (hd r2)" by simp
    then show ?thesis unfolding defs by (simp only: 1 if_True prod.case)
  next
    case 2
    then have "max (b_y1 (hd r1)) (b_y1 (hd r2)) = b_y1 (hd r1)" "\<not> b_y1 (hd r1) < b_y1 (hd r2)" by simp_all
    then show ?thesis unfolding defs by (simp only: 2 if_True if_False prod.case)
  next
    case 3
    then show ?thesis unfolding defs by (simp only: 3 max.idem less_irrefl if_False prod.case)
  qed
qed

lemma upper_stage_grows:
  assumes r: "roomy env X Y" and inv: "sweep_inv X Y T r1 r2 s bs"
    and a: "first_band X Y r1 A rest1" and b: "first_band X Y r2 B rest2"
    and y0: "y0 = min (max (b_y1 (hd r1)) (b_y1 (hd r2))) (min (b_y2 (hd r1)) (b_y2 (hd r2)))"
  shows "ybot s \<le> y0 \<and> (\<exists>ds. grown X Y s bs (upper_stage env A B r1 r2 s) y0 ds (between (ybot s) y0 r1 r2))"
proof -
  have ne: "r1 \<noteq> []" "r2 \<noteq> []" and pos: "b_y1 (hd r1) < b_y2 (hd r1)" "b_y1 (hd r2) < b_y2 (hd r2)"
    using a b unfolding first_band_def by (blast, blast, blast, blast)
  have s: "swept s (ybot s) bs" "within X Y bs" "ybot s \<in> Y"
    and y: "ybot s < b_y2 (hd r1)" "ybot s < b_y2 (hd r2)" "ybot s \<le> b_y1 (hd r1) \<or> ybot s \<le> b_y1 (hd r2)"
    using inv ne by (simp_all add: sweep_inv_def left_over_def)
  consider "b_y1 (hd r1) < b_y1 (hd r2)" | "b_y1 (hd r2) < b_y1 (hd r1)" | "b_y1 (hd r1) = b_y1 (hd r2)" by linarith
  then show ?thesis
  proof cases
    case 1
    then have "ybot s \<le> b_y1 (hd r2)" "y0 = min (b_y2 (hd r1)) (b_y1 (hd r2))" using y pos y0 by auto
    then show ?thesis
      using upper_band [OF r s a b 1 y(1) _ refl refl] 1 y(1) unfolding upper_stage_def by simp
  next
    case 2
    then have "ybot s \<le> b_y1 (hd r1)" "y0 = min (b_y2 (hd r2)) (b_y1 (hd r1))" using y pos y0 by auto
    then show ?thesis
      using upper_band [OF r s b a 2 y(2) _ refl refl] 2 y(2) between_commute [of "ybot s" y0 r1 r2]
      unfolding upper_stage_def by simp
  next
    case 3
    then have y0': "y0 = b_y1 (hd r1)" "ybot s \<le> y0" using y pos y0 by auto
    have "between (ybot s) y0 r1 r2 = {}"
      using first_band_area(1) [OF a] first_band_area(1) [OF b] 3 y0'(1) by (auto simp: between_def)
    moreover have "swept s y0 bs" using s(1) y0'(2) by (auto simp: swept_def)
    ultimately show ?thesis
      using 3 y0'(2) s(2) by (auto simp: upper_stage_def grown_def)
  qed
qed

text \<open>After the step a region whose band ends at the new \<open>ybot\<close> continues with the next band.\<close>

definition next_boxes :: "int \<Rightarrow> box list \<Rightarrow> box list" where
  "next_boxes y r = (if b_y2 (hd r) = y then snd (FindBand r) else r)"

lemma next_boxes_left_over:
  assumes a: "first_band X Y r A rest" and y: "y \<le> b_y2 (hd r)"
    and r: "banded r" "within X Y r"
  shows "left_over X Y y (next_boxes y r)" "below y (next_boxes y r) r' = below y r r'"
    "b_y2 (hd r) = y \<Longrightarrow> next_boxes y r \<noteq> [] \<Longrightarrow> y \<le> b_y1 (hd (next_boxes y r))"
proof -
  have f: "FindBand r = (A, rest)" "banded rest" "within X Y rest" "\<forall>b \<in> set rest. b_y2 (hd r) \<le> b_y1 b"
    using a unfolding first_band_def by blast+
  have n: "next_boxes y r = (if b_y2 (hd r) = y then rest else r)" by (simp add: next_boxes_def f(1))
  have "b_y2 (hd r) < b_y2 (hd rest)" if "rest \<noteq> []"
    using f(2,4) hd_in_set [OF that] by (force simp: banded_def box_ok_def)
  then show "left_over X Y y (next_boxes y r)" using n f r y by (auto simp: left_over_def)
  show "below y (next_boxes y r) r' = below y r r'"
    using n first_band_area(3) [OF a] by (auto simp: below_def)
  show "b_y2 (hd r) = y \<Longrightarrow> next_boxes y r \<noteq> [] \<Longrightarrow> y \<le> b_y1 (hd (next_boxes y r))"
    using n f(4) by auto
qed

lemma below_commute: "below y r1 r2 = below y r2 r1"
  by (auto simp: below_def)

lemma sweep_step_inv:
  assumes r: "roomy env X Y" and inv: "sweep_inv X Y T r1 r2 s bs" and ne: "r1 \<noteq> []" "r2 \<noteq> []"
    and s': "s' = sweep_step env RegionUnionO True True r1 r2 s"
    and yb: "yb = min (b_y2 (hd r1)) (b_y2 (hd r2))"
  shows "extents (newReg s') = extents (newReg s) \<and> (\<exists>ds. sweep_inv X Y T (next_boxes yb r1) (next_boxes yb r2) s' ds)"
proof -
  have lo: "left_over X Y (ybot s) r1" "left_over X Y (ybot s) r2"
    and T: "area bs \<union> below (ybot s) r1 r2 = T"
    using inv by (simp_all add: sweep_inv_def)
  obtain A rest1 where a: "first_band X Y r1 A rest1" by (rule first_band [OF lo(1) ne(1)])
  obtain B rest2 where b: "first_band X Y r2 B rest2" by (rule first_band [OF lo(2) ne(2)])
  have fa: "FindBand r1 = (A, rest1)" "is_row (b_y1 (hd r1)) (b_y2 (hd r1)) A" "A \<noteq> []" "b_x1 ` set A \<subseteq> X"
      "b_y1 (hd r1) \<in> Y" "b_y2 (hd r1) \<in> Y"
    and fb: "FindBand r2 = (B, rest2)" "is_row (b_y1 (hd r2)) (b_y2 (hd r2)) B" "B \<noteq> []" "b_x1 ` set B \<subseteq> X"
      "b_y1 (hd r2) \<in> Y" "b_y2 (hd r2) \<in> Y"
    using a b unfolding first_band_def by blast+
  let ?yt = "max (b_y1 (hd r1)) (b_y1 (hd r2))" and ?y0 = "min (max (b_y1 (hd r1)) (b_y1 (hd r2))) yb"
  obtain ds1 where y0: "ybot s \<le> ?y0"
      and g1: "grown X Y s bs (upper_stage env A B r1 r2 s) ?y0 ds1 (between (ybot s) ?y0 r1 r2)"
    using upper_stage_grows [OF r inv a b, of ?y0] yb by auto
  let ?s2 = "(upper_stage env A B r1 r2 s)\<lparr>ybot := yb\<rparr>"
  have s2: "swept ?s2 ?y0 ds1" "within X Y ds1" "extents (newReg ?s2) = extents (newReg s)"
      "area ds1 = area bs \<union> between (ybot s) ?y0 r1 r2"
    using g1 by (simp_all add: grown_def swept_def)
  have inY: "?yt \<in> Y" "yb \<in> Y" using fa fb yb by (auto simp: max_def min_def)
  have step: "s' = (if yb > ?yt then O_band env RegionUnionO A B ?yt yb ?s2 else ?s2)"
    unfolding s' sweep_step_stages [OF fa(1) fb(1)] Let_def yb by (rule refl)
  have "\<exists>ds. swept s' yb ds \<and> within X Y ds \<and> ybot s' = yb \<and> extents (newReg s') = extents (newReg s) \<and>
      area ds = area bs \<union> between (ybot s) yb r1 r2"
  proof (cases "yb > ?yt")
    case True
    then have e: "s' = O_band env RegionUnionO A B ?yt yb ?s2" "?y0 = ?yt"
      using step by (simp_all only: if_True min.absorb1 [OF less_imp_le])
    obtain ds where g: "grown X Y ?s2 ds1 (O_band env RegionUnionO A B ?yt yb ?s2) yb ds (rows ?yt yb (spans A \<union> spans B))"
      using O_band_grows [OF r _ s2(2) is_row_gapped [OF fa(2)] fa(3,4) is_row_gapped [OF fb(2)] fb(3,4) _ True inY, of ?s2 ?yt]
        s2(1) e(2) by auto
    have "ybot s' = yb" unfolding e(1) O_band_def by (simp add: Let_def split: prod.splits)
    moreover have "area ds = area bs \<union> between (ybot s) yb r1 r2"
      using g s2(4) both_rows [OF a b refl yb] between_join [of "ybot s" ?yt yb r1 r2] y0 e(2) True
      by (auto simp: grown_def)
    ultimately show ?thesis using g s2(3) e(1) by (auto simp: grown_def)
  next
    case False
    then have e: "s' = ?s2" "?y0 = yb"
      using step unfolding if_not_P [OF False] by (blast, use False in \<open>simp only: not_less min.absorb2\<close>)
    then show ?thesis using s2 by auto
  qed
  then obtain ds where ds: "swept s' yb ds" "within X Y ds" "ybot s' = yb" "extents (newReg s') = extents (newReg s)"
      "area ds = area bs \<union> between (ybot s) yb r1 r2" by blast
  have y: "yb \<le> b_y2 (hd r1)" "yb \<le> b_y2 (hd r2)" "b_y2 (hd r1) = yb \<or> b_y2 (hd r2) = yb" "ybot s \<le> yb"
    using yb y0 by auto
  have r12: "banded r1" "within X Y r1" "banded r2" "within X Y r2" using lo by (simp_all add: left_over_def)
  note n1 = next_boxes_left_over [OF a y(1) r12(1,2)] and n2 = next_boxes_left_over [OF b y(2) r12(3,4)]
  have "below yb (next_boxes yb r1) (next_boxes yb r2) = below yb r1 r2"
    using n1(2) [of "next_boxes yb r2"] n2(2) [of r1] below_commute by metis
  then have "area ds \<union> below yb (next_boxes yb r1) (next_boxes yb r2) = T"
    using ds(5) T below_split [OF y(4), of r1 r2] by auto
  then have "sweep_inv X Y T (next_boxes yb r1) (next_boxes yb r2) s' ds"
    unfolding sweep_inv_def ds(3) using ds(1,2) inY(2) n1(1,3) n2(1,3) y(3) by blast
  then show ?thesis using ds(4) by blast
qed

lemma sweep_loop_inv:
  assumes r: "roomy env X Y" and inv: "sweep_inv X Y T r1 r2 s bs"
  shows "\<exists>q1 q2 s' ds. sweep_loop env RegionUnionO True True r1 r2 s = (q1, q2, s') \<and> (q1 = [] \<or> q2 = []) \<and>
    sweep_inv X Y T q1 q2 s' ds \<and> extents (newReg s') = extents (newReg s)"
  using inv
proof (induction "length r1 + length r2" arbitrary: r1 r2 s bs rule: less_induct)
  case less
  show ?case
  proof (cases "r1 = [] \<or> r2 = []")
    case True
    then show ?thesis using less.prems by (subst sweep_loop.simps) auto
  next
    case False
    let ?yb = "min (b_y2 (hd r1)) (b_y2 (hd r2))"
    let ?s' = "sweep_step env RegionUnionO True True r1 r2 s"
    have n: "(if b_y2 (hd r1) = ?yb then snd (FindBand r1) else r1) = next_boxes ?yb r1"
      "(if b_y2 (hd r2) = ?yb then snd (FindBand r2) else r2) = next_boxes ?yb r2"
      by (simp_all only: next_boxes_def)
    obtain ds where e: "extents (newReg ?s') = extents (newReg s)"
      and i: "sweep_inv X Y T (next_boxes ?yb r1) (next_boxes ?yb r2) ?s' ds"
      using sweep_step_inv [OF r less.prems _ _ refl refl] False by blast
    have lt: "length (next_boxes ?yb r1) + length (next_boxes ?yb r2) < length r1 + length r2"
      using sweep_shorter [OF False] unfolding n .
    have "sweep_loop env RegionUnionO True True r1 r2 s =
        sweep_loop env RegionUnionO True True (next_boxes ?yb r1) (next_boxes ?yb r2) ?s'"
      by (subst sweep_loop.simps) (simp only: False if_False Let_def n)
    then show ?thesis using less.hyps [OF lt i] unfolding e by simp
  qed
qed

text \<open>The rest of one operand, below everything of the other.\<close>

definition built_union :: "int set \<Rightarrow> int set \<Rightarrow> (int \<times> int) set \<Rightarrow> box \<Rightarrow> region \<Rightarrow> box list \<Rightarrow> bool" where
  "built_union X Y T e reg ds \<longleftrightarrow> built reg ds \<and> banded ds \<and> within X Y ds \<and> area ds = T \<and> extents reg = e"

lemma sweep_rest_union:
  assumes r: "roomy env X Y" and s: "swept s (ybot s) bs" "within X Y bs" "ybot s \<in> Y"
    and q: "left_over X Y (ybot s) q" "q \<noteq> []" and T: "area bs \<union> below (ybot s) q [] = T"
  shows "\<exists>ok s' ds. sweep_rest env q s = (True, s') \<and> built_union X Y T (extents (newReg s)) (newReg s') ds"
proof -
  obtain A rest where a: "first_band X Y q A rest" by (rule first_band [OF q])
  have f: "FindBand q = (A, rest)" "is_row (b_y1 (hd q)) (b_y2 (hd q)) A" "A \<noteq> []" "b_x1 ` set A \<subseteq> X"
      "b_y1 (hd q) \<in> Y" "b_y2 (hd q) \<in> Y" "b_y1 (hd q) < b_y2 (hd q)" "banded rest" "within X Y rest"
      "\<forall>b \<in> set rest. b_y2 (hd q) \<le> b_y1 b"
    using a unfolding first_band_def by blast+
  let ?yt = "max (b_y1 (hd q)) (ybot s)" and ?yb = "b_y2 (hd q)"
  have lt: "?yt < ?yb" "ybot s \<le> ?yt" "?yt \<in> Y"
    using f(5,7) q s(3) by (auto simp: left_over_def max_def)
  let ?s1 = "nonO_band env A ?yt ?yb s"
  obtain ds where g: "grown X Y s bs ?s1 ?yb ds (rows ?yt ?yb (spans A))"
    using nonO_band_grows [OF r s(1,2) f(2,3,4) lt(2,1,3) f(6)] by blast
  then have ds: "built (newReg ?s1) ds" "banded ds" "\<forall>b \<in> set ds. b_y2 b \<le> ?yb" "within X Y ds"
      "extents (newReg ?s1) = extents (newReg s)" "area ds = area bs \<union> rows ?yt ?yb (spans A)"
    unfolding grown_def swept_def banding_def by blast+
  have "before b c" if "b \<in> set ds" "c \<in> set rest" for b c
    using that ds(2,3) f(8,10) by (fastforce simp: before_def banded_def)
  then have bd: "banded (ds @ rest)" "within X Y (ds @ rest)"
    using ds(2,4) f(8,9) by (auto simp: banded_append)
  have "(x, y) \<in> area q \<and> ybot s \<le> y \<longleftrightarrow> (x, y) \<in> rows ?yt ?yb (spans A) \<union> area rest" for x y
  proof -
    have late: "(x, y) \<in> area rest \<Longrightarrow> ?yb \<le> y"
    proof -
      assume "(x, y) \<in> area rest"
      then obtain b where "b \<in> set rest" "b_y1 b \<le> y" by (auto simp: area_def INBOX_def)
      then show "?yb \<le> y" using f(10) by force
    qed
    consider "y < b_y1 (hd q)" | "b_y1 (hd q) \<le> y" "y < ?yb" | "?yb \<le> y" by linarith
    then show ?thesis
    proof cases
      case 1
      then have "(x, y) \<notin> area q" "(x, y) \<notin> area rest" "(x, y) \<notin> rows ?yt ?yb (spans A)"
        using first_band_area(1) [OF a] late f(7) by (auto simp: rows_def)
      then show ?thesis by simp
    next
      case 2
      then have "(x, y) \<in> area q \<longleftrightarrow> x \<in> spans A" "(x, y) \<notin> area rest"
          "(x, y) \<in> rows ?yt ?yb (spans A) \<longleftrightarrow> ybot s \<le> y \<and> x \<in> spans A"
        using first_band_area(2) [OF a] late by (auto simp: rows_def)
      then show ?thesis by auto
    next
      case 3
      then have "(x, y) \<in> area q \<longleftrightarrow> (x, y) \<in> area rest" "(x, y) \<notin> rows ?yt ?yb (spans A)" "ybot s \<le> y"
        using first_band_area(3) [OF a] lt(1) by (auto simp: rows_def)
      then show ?thesis by simp
    qed
  qed
  then have area: "area (ds @ rest) = T" using ds(6) T by (auto simp: below_def)
  have K: "room env (card X * card Y)" "length ds + length rest \<le> card X * card Y"
    using roomy_length [OF r bd] by simp_all
  show ?thesis
  proof (cases "rest = []")
    case True
    then show ?thesis
      using f(1) ds bd area by (auto simp: sweep_rest_def AppendRegions_def Let_def built_union_def)
  next
    case False
    obtain reg' where reg': "RECTALLOC env (length rest) (newReg ?s1) = (True, reg')"
      "built (add_rects rest reg') (ds @ rest)" "extents (add_rects rest reg') = extents (newReg ?s1)"
      by (rule store_room [OF K(1) ds(1) K(2) False])
    then show ?thesis
      using f(1) ds bd area False
      by (auto simp: sweep_rest_def AppendRegions_def Let_def built_union_def)
  qed
qed

text \<open>The form of a finished region: no data for one box, the empty block for none.\<close>

definition canonical_data :: "region \<Rightarrow> bool" where
  "canonical_data reg \<longleftrightarrow> (case data reg of
     RegNull \<Rightarrow> True | RegionEmptyData \<Rightarrow> True | RegionBrokenData \<Rightarrow> False
   | RegHeap sz bs \<Rightarrow> 2 \<le> length bs \<and> length bs \<le> sz)"

lemma finish_op_rects:
  assumes "built reg bs"
  shows "RegionRects (finish_op env reg) = bs" "canonical_data (finish_op env reg)"
    "2 \<le> length bs \<Longrightarrow> extents (finish_op env reg) = extents reg"
    "length bs = 1 \<Longrightarrow> extents (finish_op env reg) = hd bs"
proof -
  obtain sz where d: "data reg = RegHeap sz bs" "length bs \<le> sz" using assms by (auto simp: built_def)
  show "RegionRects (finish_op env reg) = bs" "canonical_data (finish_op env reg)"
    "2 \<le> length bs \<Longrightarrow> extents (finish_op env reg) = extents reg"
    "length bs = 1 \<Longrightarrow> extents (finish_op env reg) = hd bs"
    using d by (auto simp: finish_op_def RegionRects_def canonical_data_def DOWNSIZE_def Let_def split: list.splits)
qed

lemma start_alloc:
  assumes r: "room env K" and n: "0 < n" "n \<le> 2 * K"
  shows "\<exists>new1. (if n > data_size (start_data d reg1 reg2) then RegionRectAlloc env n (reg\<lparr>data := start_data d reg1 reg2\<rparr>)
      else (True, reg\<lparr>data := start_data d reg1 reg2\<rparr>)) = (True, new1) \<and> built new1 [] \<and> extents new1 = extents reg"
proof -
  have ok: "rects_alloc env n" using r n(2) by (auto simp: room_def)
  have "start_data d reg1 reg2 = RegionEmptyData \<or> start_data d reg1 reg2 = RegionBrokenData \<or>
      (\<exists>sz. start_data d reg1 reg2 = RegHeap sz [])"
    by (cases "data (dest_region d reg1 reg2)") (simp_all add: start_data_def Let_def)
  then consider "start_data d reg1 reg2 = RegionEmptyData" | "start_data d reg1 reg2 = RegionBrokenData"
    | sz where "start_data d reg1 reg2 = RegHeap sz []" by blast
  then show ?thesis
  proof cases
    case (3 sz)
    then show ?thesis using ok n by (auto simp: RegionRectAlloc_def Let_def built_def)
  qed (use ok n in \<open>auto simp: RegionRectAlloc_def built_def\<close>)
qed

lemma RegionOp_union:
  assumes r: "roomy env X Y"
    and a: "banded (RegionRects reg1)" "within X Y (RegionRects reg1)" "RegionRects reg1 \<noteq> []"
    and b: "banded (RegionRects reg2)" "within X Y (RegionRects reg2)" "RegionRects reg2 \<noteq> []"
  shows "\<exists>ov' reg bs. RegionOp env d reg1 reg2 RegionUnionO True True ov = (True, ov', reg) \<and>
    RegionRects reg = bs \<and> banded bs \<and> within X Y bs \<and>
    area bs = area (RegionRects reg1) \<union> area (RegionRects reg2) \<and> canonical_data reg \<and>
    (2 \<le> length bs \<longrightarrow> extents reg = extents (dest_region d reg1 reg2))"
proof -
  let ?r1 = "RegionRects reg1" and ?r2 = "RegionRects reg2" and ?D = "dest_region d reg1 reg2"
  let ?T = "area ?r1 \<union> area ?r2" and ?n = "2 * max (length ?r1) (length ?r2)"
  have nar: "\<not> RegionNar reg1" "\<not> RegionNar reg2"
    using a(3) b(3) by (auto simp: RegionNar_def RegionRects_def)
  have K: "room env (card X * card Y)" "?n \<le> 2 * (card X * card Y)" "0 < ?n"
    using roomy_length [OF r a(1,2)] roomy_length [OF r b(1,2)] a(3) by (auto simp: max_def)
  obtain new1 where new1: "(if ?n > data_size (start_data d reg1 reg2)
        then RegionRectAlloc env ?n (?D\<lparr>data := start_data d reg1 reg2\<rparr>)
        else (True, ?D\<lparr>data := start_data d reg1 reg2\<rparr>)) = (True, new1)" "built new1 []" "extents new1 = extents ?D"
    using start_alloc [OF K(1,3,2), of d reg1 reg2 ?D] by blast
  let ?s0 = "\<lparr>ybot = min (b_y1 (hd ?r1)) (b_y1 (hd ?r2)), prevBand = 0, overlap = ov, newReg = new1\<rparr>"
  have h: "hd ?r1 \<in> set ?r1" "hd ?r2 \<in> set ?r2" using a(3) b(3) by simp_all
  have hb: "b_y1 (hd ?r1) < b_y2 (hd ?r1)" "b_y1 (hd ?r2) < b_y2 (hd ?r2)"
      "b_y1 (hd ?r1) \<in> Y" "b_y1 (hd ?r2) \<in> Y"
    using h a(1,2) b(1,2) by (auto simp: banded_def box_ok_def within_def)
  obtain A rest1 where fa: "first_band X Y ?r1 A rest1"
    by (rule first_band [of X Y "b_y1 (hd ?r1)"]) (use a hb in \<open>auto simp: left_over_def\<close>)
  obtain B rest2 where fb: "first_band X Y ?r2 B rest2"
    by (rule first_band [of X Y "b_y1 (hd ?r2)"]) (use b hb in \<open>auto simp: left_over_def\<close>)
  have "below (ybot ?s0) ?r1 ?r2 = ?T"
    using first_band_area(1) [OF fa] first_band_area(1) [OF fb] by (force simp: below_def not_le [symmetric])
  then have inv: "sweep_inv X Y ?T ?r1 ?r2 ?s0 []"
    using a(1,2) b(1,2) hb new1(2) by (auto simp: sweep_inv_def swept_def banding_def left_over_def min_def)
  obtain q1 q2 s' ds where loop: "sweep_loop env RegionUnionO True True ?r1 ?r2 ?s0 = (q1, q2, s')"
      "q1 = [] \<or> q2 = []" "sweep_inv X Y ?T q1 q2 s' ds" "extents (newReg s') = extents ?D"
    using sweep_loop_inv [OF r inv] new1(3) by auto
  have s': "swept s' (ybot s') ds" "within X Y ds" "ybot s' \<in> Y" "left_over X Y (ybot s') q1"
      "left_over X Y (ybot s') q2" "area ds \<union> below (ybot s') q1 q2 = ?T"
    using loop(3) by (simp_all add: sweep_inv_def)
  define fin where "fin = (if q1 \<noteq> [] then sweep_rest env q1 s' else if q2 \<noteq> [] then sweep_rest env q2 s' else (True, s'))"
  have "\<exists>s2 es. fin = (True, s2) \<and> built_union X Y ?T (extents ?D) (newReg s2) es"
  proof (cases "q1 = [] \<and> q2 = []")
    case True
    then show ?thesis
      using s' loop(4) by (auto simp: fin_def built_union_def swept_def banding_def below_def)
  next
    case False
    then show ?thesis
      using sweep_rest_union [OF r s'(1-4), of ?T] sweep_rest_union [OF r s'(1-3,5), of ?T]
        s'(6) loop(2,4) below_commute [of "ybot s'" q2 "[]"]
      unfolding fin_def by auto
  qed
  then obtain s2 es where fin: "fin = (True, s2)" "built_union X Y ?T (extents ?D) (newReg s2) es" by blast
  have "RegionOp env d reg1 reg2 RegionUnionO True True ov = (True, overlap s2, finish_op env (newReg s2))"
    using fin(1) unfolding fin_def
    by (cases "q1 = []"; cases "q2 = []") (simp_all add: RegionOp_def Let_def nar new1(1) loop(1))
  moreover have bu: "built (newReg s2) es" "banded es" "within X Y es" "area es = ?T" "extents (newReg s2) = extents ?D"
    using fin(2) by (simp_all add: built_union_def)
  ultimately show ?thesis using finish_op_rects [OF bu(1), of env] by auto
qed

end
