(* ===== verification/Region_Validate.thy ===== *)
theory Region_Validate
  imports Regions
begin

text \<open>
  The second half of \<open>dix/region.c\<close>: appending regions, the quicksort of boxes in their
  array, \<open>RegionValidate\<close>, which turns an arbitrary list of boxes into a region, and
  \<open>RegionFromRects\<close>, which makes one from the rectangles of a request.
\<close>

section \<open>Appending\<close>

definition after_last :: "box \<Rightarrow> box \<Rightarrow> bool" where
  "after_last fst_box lst_box \<longleftrightarrow> b_y1 fst_box > b_y2 lst_box \<or>
     b_y1 fst_box = b_y1 lst_box \<and> b_y2 fst_box = b_y2 lst_box \<and> b_x1 fst_box > b_x2 lst_box"

text \<open>The horizontal extents of both.\<close>

definition widen :: "box \<Rightarrow> box \<Rightarrow> box" where
  "widen e d = d\<lparr>b_x1 := if b_x1 e < b_x1 d then b_x1 e else b_x1 d,
                 b_x2 := if b_x2 e > b_x2 d then b_x2 e else b_x2 d\<rparr>"

definition RegionAppend :: "region_env \<Rightarrow> region \<Rightarrow> region \<Rightarrow> bool \<times> region" where
  "RegionAppend env dstrgn rgn =
     (if RegionNar rgn then RegionBreak dstrgn
      else if data rgn = RegNull \<and> data dstrgn = RegionEmptyData
      then (True, \<lparr>extents = extents rgn, data = RegNull\<rparr>)
      else if RegionNumRects rgn = 0 then (True, dstrgn)
      else
        let numRects = RegionNumRects rgn; dnumRects = RegionNumRects dstrgn;
            sz = (if dnumRects = 0 \<and> numRects < 200 then 200 else numRects)
        in case RECTALLOC env sz dstrgn of
          (False, dst) \<Rightarrow> (False, dst)
        | (True, dst) \<Rightarrow>
            let old = RegionRects rgn; own = data_rects (data dst); e = extents dst;
                (e', prepend) =
                  (if dnumRects = 0 then (extents rgn, False)
                   else if b_x2 e > b_x1 e
                   then if after_last (hd old) (List.last own)
                        then ((widen (extents rgn) e)\<lparr>b_y2 := b_y2 (extents rgn)\<rparr>, False)
                        else if after_last (hd own) (List.last old)
                        then ((widen (extents rgn) e)\<lparr>b_y1 := b_y1 (extents rgn)\<rparr>, True)
                        else (e\<lparr>b_x2 := b_x1 e\<rparr>, False)
                   else (e, False))
            in (True, dst\<lparr>extents := e',
                  data := RegHeap (data_size (data dst)) (if prepend then old @ own else own @ old)\<rparr>))"

section \<open>Sorting\<close>

definition box_less :: "box \<Rightarrow> box \<Rightarrow> bool" where
  "box_less a b \<longleftrightarrow> b_y1 a < b_y1 b \<or> b_y1 a = b_y1 b \<and> b_x1 a < b_x1 b"

definition ExchangeRects :: "nat \<Rightarrow> nat \<Rightarrow> box list \<Rightarrow> box list" where
  "ExchangeRects a b rects = rects[a := rects ! b, b := rects ! a]"

text \<open>The two inner scans: upwards from \<open>i\<close> and downwards from \<open>j\<close>, past the boxes on the right side.\<close>

function scan_up :: "box list \<Rightarrow> box \<Rightarrow> nat \<Rightarrow> nat" where
  "scan_up rects p i =
     (if Suc i < length rects \<and> box_less (rects ! Suc i) p then scan_up rects p (Suc i) else Suc i)"
  by auto
termination by (relation "measure (\<lambda>(r, p, i). length r - i)") auto

declare scan_up.simps [simp del]

fun scan_down :: "box list \<Rightarrow> box \<Rightarrow> nat \<Rightarrow> nat" where
  "scan_down rects p 0 = 0"
| "scan_down rects p (Suc j) = (if box_less p (rects ! j) then scan_down rects p j else j)"

lemma scan_down_le: "scan_down rects p j \<le> j - 1"
  by (induction rects p j rule: scan_down.induct) auto

function partition_rects :: "box list \<Rightarrow> box \<Rightarrow> nat \<Rightarrow> nat \<Rightarrow> nat \<times> box list" where
  "partition_rects rects p i j =
     (let i' = scan_up rects p i; j' = scan_down rects p j
      in if i' < j' then partition_rects (ExchangeRects i' j' rects) p i' j' else (j', rects))"
  by pat_completeness auto
termination
proof (relation "measure (\<lambda>(r, p, i, j). j)")
  fix rects p i j i' j'
  assume "i' = scan_up rects p i" "j' = scan_down rects p j" "i' < j'"
  then have "j' < j" using scan_down_le [of rects p j] by linarith
  then show "((ExchangeRects i' j' rects, p, i', j'), (rects, p, i, j)) \<in> measure (\<lambda>(r, p, i, j). j)"
    by simp
qed simp

declare partition_rects.simps [simp del]

lemma length_ExchangeRects [simp]: "length (ExchangeRects a b rects) = length rects"
  by (simp add: ExchangeRects_def)

lemma length_partition [simp]: "length (snd (partition_rects rects p i j)) = length rects"
  by (induction rects p i j rule: partition_rects.induct)
    (subst partition_rects.simps, simp add: Let_def)

lemma partition_index: "fst (partition_rects rects p i j) \<le> j - 1"
proof (induction rects p i j rule: partition_rects.induct)
  case (1 rects p i j)
  let ?i = "scan_up rects p i" and ?j = "scan_down rects p j"
  have le: "?j \<le> j - 1" by (rule scan_down_le)
  show ?case
  proof (cases "?i < ?j")
    case True
    then have "fst (partition_rects (ExchangeRects ?i ?j rects) p ?i ?j) \<le> ?j - 1" by (rule 1 [OF refl refl])
    then show ?thesis using True le by (subst partition_rects.simps) (simp add: Let_def)
  next
    case False
    then show ?thesis using le by (subst partition_rects.simps) (simp add: Let_def)
  qed
qed

text \<open>
  One pass: the middle box becomes the partition element at index 0, the boxes are partitioned
  around it and it is put in between, at the returned index.
\<close>

definition split_rects :: "box list \<Rightarrow> nat \<times> box list" where
  "split_rects rects =
     (let r1 = ExchangeRects 0 (length rects div 2) rects;
          (j, r2) = partition_rects r1 (r1 ! 0) 0 (length rects)
      in (j, ExchangeRects 0 j r2))"

lemma split_rects_bounds:
  assumes "rects \<noteq> []" "split_rects rects = (j, r)"
  shows "j < length rects \<and> length r = length rects"
proof -
  let ?r1 = "ExchangeRects 0 (length rects div 2) rects"
  obtain r2 where p: "partition_rects ?r1 (?r1 ! 0) 0 (length rects) = (j, r2)" "r = ExchangeRects 0 j r2"
    using assms(2) by (auto simp: split_rects_def Let_def split: prod.splits)
  have "j \<le> length rects - 1" "length r2 = length rects"
    using partition_index [of ?r1 "?r1 ! 0" 0 "length rects"]
      length_partition [of ?r1 "?r1 ! 0" 0 "length rects"] p(1) by simp_all
  moreover have "0 < length rects" using assms(1) by simp
  ultimately show ?thesis using p(2) by (simp; linarith)
qed

function QuickSortRects :: "box list \<Rightarrow> box list" where
  "QuickSortRects rects =
     (if rects = [] then []
      else if length rects = 2
      then if box_less (rects ! 1) (rects ! 0) then ExchangeRects 0 1 rects else rects
      else
        let (j, r) = split_rects rects; left = take j r; right = drop (j + 1) r
        in (if j > 1 then QuickSortRects left else left) @ [r ! j] @
           (if length right > 1 then QuickSortRects right else right))"
  by pat_completeness auto
termination
proof (relation "measure length", goal_cases)
  case (2 rects x j r left right)
  then show ?case using split_rects_bounds [of rects j r] by simp
next
  case (3 rects x j r left right)
  then show ?case using split_rects_bounds [of rects j r] by simp
qed simp

declare QuickSortRects.simps [simp del]

section \<open>Validation\<close>

text \<open>
  A region under construction. The first of them shares its array with the region that is being
  validated: what it stores stays behind the boxes still to be read, and freeing it frees the array
  of that region too. \<open>ri_array\<close> is the identity of the array a region owns: 0 for that first one, and a
  number of its own for each array that is allocated later.
\<close>

record region_info =
  ri_reg :: region
  ri_prevBand :: nat
  ri_curBand :: nat
  ri_array :: nat

text \<open>\<open>NoRoom\<close> carries the region that the failed allocation has broken.\<close>

datatype placing = Placed bool region_info | Unfit | NoRoom region_info

definition place_box :: "region_env \<Rightarrow> box \<Rightarrow> bool \<Rightarrow> region_info \<Rightarrow> placing" where
  "place_box env b ov rit =
     (let reg = ri_reg rit; bs = data_rects (data reg); riBox = List.last bs; e = extents reg
      in if b_y1 b = b_y1 riBox \<and> b_y2 b = b_y2 riBox
         then if b_x1 b \<le> b_x2 riBox
              then Placed (if b_x1 b < b_x2 riBox then True else ov)
                     (rit\<lparr>ri_reg := reg\<lparr>data := RegHeap (data_size (data reg))
                        (butlast bs @ [if b_x2 b > b_x2 riBox then riBox\<lparr>b_x2 := b_x2 b\<rparr> else riBox])\<rparr>\<rparr>)
              else (case RECTALLOC env 1 reg of
                      (False, reg') \<Rightarrow> NoRoom (rit\<lparr>ri_reg := reg'\<rparr>)
                    | (True, reg') \<Rightarrow> Placed ov (rit\<lparr>ri_reg := add_rects [b] reg'\<rparr>))
         else if b_y1 b \<ge> b_y2 riBox
         then
           let e' = e\<lparr>b_x2 := if b_x2 e < b_x2 riBox then b_x2 riBox else b_x2 e,
                      b_x1 := if b_x1 e > b_x1 b then b_x1 b else b_x1 e\<rparr>;
               (prev', reg1) = Coalesce (ri_prevBand rit) (ri_curBand rit) (reg\<lparr>extents := e'\<rparr>);
               cur' = length (data_rects (data reg1))
           in (case RECTALLOC env 1 reg1 of
                 (False, reg') \<Rightarrow> NoRoom \<lparr>ri_reg = reg', ri_prevBand = prev', ri_curBand = cur', ri_array = ri_array rit\<rparr>
               | (True, reg') \<Rightarrow>
                   Placed ov \<lparr>ri_reg = add_rects [b] reg', ri_prevBand = prev', ri_curBand = cur', ri_array = ri_array rit\<rparr>)
         else Unfit)"

text \<open>The first region under construction that the box fits into.\<close>

datatype found = InList bool "region_info list" | NoneFits | Bail "region_info list"

fun place_in :: "region_env \<Rightarrow> box \<Rightarrow> bool \<Rightarrow> region_info list \<Rightarrow> found" where
  "place_in env b ov [] = NoneFits"
| "place_in env b ov (rit # ris) =
     (case place_box env b ov rit of
        Placed ov' rit' \<Rightarrow> InList ov' (rit' # ris)
      | NoRoom rit' \<Rightarrow> Bail (rit' # ris)
      | Unfit \<Rightarrow> (case place_in env b ov ris of
                   InList ov' ris' \<Rightarrow> InList ov' (rit # ris')
                 | Bail ris' \<Rightarrow> Bail (rit # ris') | NoneFits \<Rightarrow> NoneFits))"

text \<open>
  Scattering the boxes. \<open>Inl\<close> is the jump to \<open>bail\<close> with the regions as they are then;
  \<open>sizeRI\<close> is the number of descriptors there is room for.
\<close>

fun scatter ::
    "region_env \<Rightarrow> box list \<Rightarrow> bool \<Rightarrow> nat \<Rightarrow> region_info list \<Rightarrow> region_info list + bool \<times> region_info list" where
  "scatter env [] ov sizeRI ris = Inr (ov, ris)"
| "scatter env (b # bs) ov sizeRI ris =
     (case place_in env b ov ris of
        InList ov' ris' \<Rightarrow> scatter env bs ov' sizeRI ris'
      | Bail ris' \<Rightarrow> Inl ris'
      | NoneFits \<Rightarrow>
          if sizeRI = length ris \<and> \<not> infos_mem env (2 * sizeRI) then Inl ris
          else
            let numRI = length ris + 1;
                entry = (\<lambda>reg. \<lparr>ri_reg = reg, ri_prevBand = 0, ri_curBand = 0, ri_array = length ris\<rparr>)
            in case RegionRectAlloc env ((length (b # bs) + numRI) div numRI) \<lparr>extents = b, data = RegNull\<rparr> of
                 (False, reg) \<Rightarrow> Inl (ris @ [entry reg])
               | (True, reg) \<Rightarrow>
                   scatter env bs ov (if sizeRI = length ris then 2 * sizeRI else sizeRI) (ris @ [entry reg]))"

definition settle :: "region_info \<Rightarrow> region_info" where
  "settle rit =
     (let reg = ri_reg rit; riBox = List.last (data_rects (data reg)); e = extents reg;
          e' = e\<lparr>b_y2 := b_y2 riBox, b_x2 := if b_x2 e < b_x2 riBox then b_x2 riBox else b_x2 e\<rparr>;
          (prev', reg1) = Coalesce (ri_prevBand rit) (ri_curBand rit) (reg\<lparr>extents := e'\<rparr>)
      in rit\<lparr>ri_prevBand := prev',
             ri_reg := if length (data_rects (data reg1)) = 1 then reg1\<lparr>data := RegNull\<rparr> else reg1\<rparr>)"

text \<open>One union of the binary merge.\<close>

definition merge_pair ::
    "region_env \<Rightarrow> nat \<Rightarrow> nat \<Rightarrow> bool \<times> bool \<times> region_info list \<Rightarrow> bool \<times> bool \<times> region_info list" where
  "merge_pair env half j st =
     (case st of (ret, ov, ris) \<Rightarrow>
        let hreg = ri_reg (ris ! (j + half));
            (ok, ov', reg) = RegionOp env IntoFirst (ri_reg (ris ! j)) hreg RegionUnionO True True ov;
            e = extents reg; h = extents hreg;
            e' = Box (if b_x1 h < b_x1 e then b_x1 h else b_x1 e) (if b_y1 h < b_y1 e then b_y1 h else b_y1 e)
                     (if b_x2 h > b_x2 e then b_x2 h else b_x2 e) (if b_y2 h > b_y2 e then b_y2 h else b_y2 e)
        in (ret \<and> ok, ov', ris[j := (ris ! j)\<lparr>ri_reg := reg\<lparr>extents := e'\<rparr>\<rparr>]))"

definition merge_pass :: "region_env \<Rightarrow> bool \<times> bool \<times> region_info list \<Rightarrow> bool \<times> bool \<times> region_info list" where
  "merge_pass env st =
     (let n = length (snd (snd st)); half = n div 2;
          (ret, ov, ris) = fold (merge_pair env half) [n mod 2..<half + n mod 2] st
      in (ret, ov, take (n - half) ris))"

lemma length_merge_pair: "length (snd (snd (merge_pair env half j st))) = length (snd (snd st))"
  by (cases st) (simp add: merge_pair_def Let_def split: prod.splits)

lemma length_merge_fold: "length (snd (snd (fold (merge_pair env half) js st))) = length (snd (snd st))"
  by (induction js arbitrary: st) (simp_all add: length_merge_pair)

lemma length_merge_pass:
  "length (snd (snd (merge_pass env st))) = length (snd (snd st)) - length (snd (snd st)) div 2"
proof -
  let ?n = "length (snd (snd st))"
  obtain ret ov ris where f: "fold (merge_pair env (?n div 2)) [?n mod 2..<?n div 2 + ?n mod 2] st = (ret, ov, ris)"
    by (metis prod_cases3)
  then have "length ris = ?n"
    using length_merge_fold [of env "?n div 2" "[?n mod 2..<?n div 2 + ?n mod 2]" st] by simp
  then show ?thesis by (simp add: merge_pass_def Let_def f)
qed

function merge_all :: "region_env \<Rightarrow> bool \<times> bool \<times> region_info list \<Rightarrow> bool \<times> bool \<times> region_info list" where
  "merge_all env st = (if length (snd (snd st)) > 1 then merge_all env (merge_pass env st) else st)"
  by pat_completeness auto
termination
  by (relation "measure (\<lambda>(env, st). length (snd (snd st)))") (auto simp: length_merge_pass)

declare merge_all.simps [simp del]

text \<open>
  At \<open>bail\<close> the arrays of all regions under construction are freed, in order, and then
  \<open>RegionBreak\<close> frees that of the region being validated, whose number is 0. An array that occurs in
  this list twice is freed twice.
\<close>

datatype 'a region_result = Done 'a | DoubleFree

definition xfreeData :: "region \<Rightarrow> nat \<Rightarrow> nat list" where
  "xfreeData reg array = (if data_size (data reg) > 0 then [array] else [])"

definition bail_frees :: "region_info list \<Rightarrow> region \<Rightarrow> nat list" where
  "bail_frees ris badreg = concat (map (\<lambda>rit. xfreeData (ri_reg rit) (ri_array rit)) ris) @ xfreeData badreg 0"

definition bail :: "region_info list \<Rightarrow> region \<Rightarrow> (bool \<times> bool \<times> region) region_result" where
  "bail ris badreg =
     (if distinct (bail_frees ris badreg) then Done (False, False, snd (RegionBreak badreg)) else DoubleFree)"

definition RegionValidate :: "region_env \<Rightarrow> region \<Rightarrow> (bool \<times> bool \<times> region) region_result" where
  "RegionValidate env badreg =
     (let bs = data_rects (data badreg)
      in if data badreg = RegNull then Done (True, False, badreg)
         else if bs = [] then Done (\<not> RegionNar badreg, False, badreg)
         else if b_x1 (extents badreg) < b_x2 (extents badreg)
         then Done (True, False, if length bs = 1 then badreg\<lparr>data := RegNull\<rparr> else DOWNSIZE env badreg)
         else if \<not> infos_mem env 4 then Done (False, False, snd (RegionBreak badreg))
         else
           let rects = QuickSortRects bs;
               first = \<lparr>ri_reg = \<lparr>extents = hd rects, data = RegHeap (data_size (data badreg)) [hd rects]\<rparr>,
                        ri_prevBand = 0, ri_curBand = 0, ri_array = 0\<rparr>
           in case scatter env (List.tl rects) False 4 [first] of
                Inl ris \<Rightarrow> bail ris badreg
              | Inr (ov, ris) \<Rightarrow>
                  (case merge_all env (True, ov, map settle ris) of
                     (ret, ov', ris') \<Rightarrow> Done (ret, ov', ri_reg (hd ris'))))"

section \<open>From the rectangles of a request\<close>

record xRectangle =
  rect_x :: int
  rect_y :: int
  rect_width :: int
  rect_height :: int

definition MAXSHORT :: int where
  "MAXSHORT = 32767"

definition rect_box :: "xRectangle \<Rightarrow> box" where
  "rect_box r =
     Box (rect_x r) (rect_y r)
       (if rect_x r + rect_width r > MAXSHORT then MAXSHORT else rect_x r + rect_width r)
       (if rect_y r + rect_height r > MAXSHORT then MAXSHORT else rect_y r + rect_height r)"

definition box_not_empty :: "box \<Rightarrow> bool" where
  "box_not_empty b \<longleftrightarrow> b_x1 b \<noteq> b_x2 b \<and> b_y1 b \<noteq> b_y2 b"

text \<open>\<open>yxbanded\<close> is the test on \<open>ctype\<close>: the client promised banded rectangles.\<close>

definition RegionFromRects :: "region_env \<Rightarrow> xRectangle list \<Rightarrow> bool \<Rightarrow> region region_result" where
  "RegionFromRects env prect yxbanded =
     (let pRgn = RegionCreate env None 0; nrects = length prect;
          boxes = filter box_not_empty (map rect_box prect)
      in if RegionNar pRgn then Done pRgn
         else if nrects = 0 then Done pRgn
         else if nrects = 1
         then Done (if boxes = [] then pRgn else \<lparr>extents = hd boxes, data = RegNull\<rparr>)
         else if \<not> rects_alloc env nrects then Done (snd (RegionBreak pRgn))
         else if boxes = [] then Done pRgn
         else
           let reg = pRgn\<lparr>data := RegHeap nrects boxes\<rparr>
           in if yxbanded then Done (RegionSetExtents reg)
              else (case RegionValidate env (reg\<lparr>extents := (extents reg)\<lparr>b_x1 := 0, b_x2 := 0\<rparr>\<rparr>) of
                      DoubleFree \<Rightarrow> DoubleFree
                    | Done (_, _, reg') \<Rightarrow> Done reg'))"

end
