(* ===== verification/Region_Validate_Laws.thy ===== *)
theory Region_Validate_Laws
  imports Region_Validate Region_Laws "HOL-Library.Multiset" "HOL-Library.Code_Target_Nat"
begin

text \<open>
  The quicksort sorts, and \<open>RegionValidate\<close> turns any boxes into a banded region with the same
  points: every box goes into one of the regions under construction, each of them stays banded, and
  their unions are taken until one is left.
\<close>

section \<open>The quicksort\<close>

definition box_le :: "box \<Rightarrow> box \<Rightarrow> bool" where
  "box_le a b \<longleftrightarrow> \<not> box_less b a"

lemma box_le_trans: "box_le a b \<Longrightarrow> box_le b c \<Longrightarrow> box_le a c"
  by (auto simp: box_le_def box_less_def)

lemma box_less_le: "box_less a b \<Longrightarrow> box_le a b"
  by (auto simp: box_le_def box_less_def)

lemma box_le_refl [simp]: "box_le a a"
  by (auto simp: box_le_def box_less_def)

lemma mset_ExchangeRects: "a < length r \<Longrightarrow> b < length r \<Longrightarrow> mset (ExchangeRects a b r) = mset r"
  unfolding ExchangeRects_def by (rule mset_swap)

lemma nth_ExchangeRects:
  "a < length r \<Longrightarrow> b < length r \<Longrightarrow> k < length r \<Longrightarrow>
   ExchangeRects a b r ! k = (if k = b then r ! a else if k = a then r ! b else r ! k)"
  by (simp add: ExchangeRects_def nth_list_update)

lemma scan_up_spec:
  assumes "i < length r"
  shows "i < scan_up r p i \<and> scan_up r p i \<le> length r \<and>
    (\<forall>k. i < k \<and> k < scan_up r p i \<longrightarrow> box_less (r ! k) p) \<and>
    (scan_up r p i < length r \<longrightarrow> box_le p (r ! scan_up r p i))"
  using assms
proof (induction r p i rule: scan_up.induct)
  case (1 r p i)
  show ?case
  proof (cases "Suc i < length r \<and> box_less (r ! Suc i) p")
    case True
    have e: "scan_up r p i = scan_up r p (Suc i)" using True by (subst scan_up.simps) simp
    have "box_less (r ! k) p" if "i < k" "k < scan_up r p (Suc i)" for k
      using 1(1) [OF True] True that by (cases "k = Suc i") auto
    then show ?thesis using 1(1) [OF True] True unfolding e by auto
  next
    case False
    then have "scan_up r p i = Suc i" by (subst scan_up.simps) auto
    then show ?thesis using False 1(2) by (auto simp: box_le_def)
  qed
qed

lemma scan_down_spec:
  assumes "0 < j" "box_le (r ! 0) p"
  shows "scan_down r p j < j \<and> box_le (r ! scan_down r p j) p \<and>
    (\<forall>k. scan_down r p j < k \<and> k < j \<longrightarrow> box_less p (r ! k))"
  using assms
proof (induction r p j rule: scan_down.induct)
  case (2 r p j)
  show ?case
  proof (cases "box_less p (r ! j)")
    case True
    then have "0 < j" using 2(3) by (cases j) (auto simp: box_le_def)
    then show ?thesis using 2(1) [OF True] 2(3) True by (auto simp: less_Suc_eq)
  next
    case False
    then show ?thesis by (auto simp: box_le_def)
  qed
qed simp

text \<open>What is at most the partition element is on the left, what is at least it on the right.\<close>

definition parted :: "box list \<Rightarrow> box \<Rightarrow> nat \<Rightarrow> nat \<Rightarrow> bool" where
  "parted r p i j \<longleftrightarrow> r ! 0 = p \<and> (\<forall>k \<le> i. box_le (r ! k) p) \<and> (\<forall>k. j \<le> k \<and> k < length r \<longrightarrow> box_le p (r ! k))"

lemma partition_spec:
  assumes "parted r p i j" "i < j" "j \<le> length r"
  shows "case partition_rects r p i j of (m, r') \<Rightarrow>
    mset r' = mset r \<and> m < length r \<and> parted r' p m (Suc m)"
  using assms
proof (induction r p i j rule: partition_rects.induct)
  case (1 r p i j)
  let ?i = "scan_up r p i" and ?j = "scan_down r p j"
  have up: "i < ?i" "?i \<le> length r" "\<And>k. i < k \<Longrightarrow> k < ?i \<Longrightarrow> box_less (r ! k) p"
      "?i < length r \<Longrightarrow> box_le p (r ! ?i)"
    using scan_up_spec [of i r p] 1(3,4) by auto
  have down: "?j < j" "box_le (r ! ?j) p" "\<And>k. ?j < k \<Longrightarrow> k < j \<Longrightarrow> box_less p (r ! k)"
    using scan_down_spec [of j r p] 1(2,3) by (auto simp: parted_def)
  have p0: "r ! 0 = p" and le: "\<And>k. k \<le> i \<Longrightarrow> box_le (r ! k) p"
    and ge: "\<And>k. j \<le> k \<Longrightarrow> k < length r \<Longrightarrow> box_le p (r ! k)"
    using 1(2) by (auto simp: parted_def)
  show ?case
  proof (cases "?i < ?j")
    case True
    let ?r = "ExchangeRects ?i ?j r"
    have b: "?i < length r" "?j < length r" using True down(1) 1(4) by auto
    have "box_le (?r ! k) p" if "k \<le> ?i" for k
    proof (cases "k = ?i")
      case False
      then have "box_le (r ! k) p" using le [of k] up(3) [of k] that by (cases "k \<le> i") (auto intro: box_less_le)
      then show ?thesis using False that True b by (simp add: nth_ExchangeRects)
    qed (use down(2) b True in \<open>simp add: nth_ExchangeRects\<close>)
    moreover have "box_le p (?r ! k)" if "?j \<le> k" "k < length r" for k
    proof (cases "k = ?j")
      case False
      then have "box_le p (r ! k)" using ge [of k] down(3) [of k] that by (cases "j \<le> k") (auto intro: box_less_le)
      then show ?thesis using False that True b by (simp add: nth_ExchangeRects)
    qed (use up(4) b in \<open>simp add: nth_ExchangeRects\<close>)
    moreover have "0 < length r" using b(1) by linarith
    then have "?r ! 0 = p" using p0 True up(1) b by (simp add: nth_ExchangeRects)
    ultimately have "parted ?r p ?i ?j" by (simp add: parted_def)
    moreover have "?j \<le> length ?r" using b by simp
    moreover have "partition_rects r p i j = partition_rects ?r p ?i ?j"
      using True by (subst partition_rects.simps) (simp add: Let_def)
    ultimately show ?thesis using 1(1) [OF refl refl True _ True] mset_ExchangeRects [OF b] by simp
  next
    case False
    then have e: "partition_rects r p i j = (?j, r)" by (subst partition_rects.simps) (simp add: Let_def)
    have "box_le (r ! k) p" if "k \<le> ?j" for k
      using le [of k] up(3) [of k] down(2) that False by (cases "k \<le> i"; cases "k = ?j") (auto intro: box_less_le)
    moreover have "box_le p (r ! k)" if "Suc ?j \<le> k" "k < length r" for k
      using ge [of k] down(3) [of k] that by (cases "j \<le> k") (auto intro: box_less_le)
    ultimately show ?thesis using e p0 down(1) 1(4) by (simp add: parted_def)
  qed
qed

lemma split_rects_spec:
  assumes "r \<noteq> []" "split_rects r = (m, r')"
  shows "mset r' = mset r" "m < length r" "\<forall>k < m. box_le (r' ! k) (r' ! m)"
    "\<forall>k. m < k \<and> k < length r \<longrightarrow> box_le (r' ! m) (r' ! k)"
proof -
  let ?r1 = "ExchangeRects 0 (length r div 2) r"
  let ?p = "?r1 ! 0"
  have b: "0 < length r" "length r div 2 < length r" using assms(1) by auto
  obtain r2 where s: "partition_rects ?r1 ?p 0 (length r) = (m, r2)" "r' = ExchangeRects 0 m r2"
    using assms(2) by (auto simp: split_rects_def Let_def split: prod.splits)
  have "parted ?r1 ?p 0 (length r)" by (auto simp: parted_def)
  then have p: "mset r2 = mset ?r1" "m < length r" "parted r2 ?p m (Suc m)"
    using partition_spec [of ?r1 ?p 0 "length r"] b(1) s(1) by simp_all
  have len: "length r2 = length r" using mset_eq_length [OF p(1)] by simp
  then have n: "k < length r \<Longrightarrow> r' ! k = (if k = m then r2 ! 0 else if k = 0 then r2 ! m else r2 ! k)" for k
    using p(2) b(1) s(2) by (simp add: nth_ExchangeRects)
  have rm: "r' ! m = ?p" using n p(2,3) by (simp add: parted_def)
  show "mset r' = mset r"
    using p(1,2) s(2) len b mset_ExchangeRects [of 0 r2 m] mset_ExchangeRects [OF b] by simp
  show "m < length r" by (rule p(2))
  show "\<forall>k < m. box_le (r' ! k) (r' ! m)"
    using p(2,3) n by (auto simp: rm parted_def)
  show "\<forall>k. m < k \<and> k < length r \<longrightarrow> box_le (r' ! m) (r' ! k)"
    using p(3) n len by (auto simp: rm parted_def)
qed

lemma short_sorted: "length xs \<le> 1 \<Longrightarrow> sorted_wrt P xs"
  by (cases xs) auto

lemma QuickSortRects_spec:
  "mset (QuickSortRects r) = mset r \<and> sorted_wrt box_le (QuickSortRects r)"
proof (induction r rule: QuickSortRects.induct)
  case (1 r)
  show ?case
  proof (cases "r = [] \<or> length r = 2")
    case True
    then show ?thesis
    proof
      assume "length r = 2"
      then obtain a b where "r = [a, b]" by (auto simp: numeral_2_eq_2 length_Suc_conv)
      then show ?thesis
        by (subst (1 2) QuickSortRects.simps) (auto simp: ExchangeRects_def box_le_def box_less_def)
    qed (subst (1 2) QuickSortRects.simps, simp)
  next
    case False
    obtain m r' where s: "split_rects r = (m, r')" by fastforce
    note sp = split_rects_spec [OF _ s]
    let ?L = "take m r'" and ?R = "drop (m + 1) r'"
    let ?l = "if m > 1 then QuickSortRects ?L else ?L" and ?r = "if length ?R > 1 then QuickSortRects ?R else ?R"
    have e: "QuickSortRects r = ?l @ [r' ! m] @ ?r"
      using False s by (subst QuickSortRects.simps) (simp add: Let_def)
    have m: "mset r' = mset r" "m < length r" and len: "length r' = length r"
      using sp False mset_eq_length by blast+
    have l: "mset ?l = mset ?L \<and> sorted_wrt box_le ?l"
    proof (cases "m > 1")
      case False
      then have "length ?L \<le> 1" by simp
      then show ?thesis using short_sorted unfolding if_not_P [OF False] by blast
    qed (use 1(1) [OF _ _ s [symmetric] refl] False in auto)
    have r: "mset ?r = mset ?R \<and> sorted_wrt box_le ?r"
    proof (cases "length ?R > 1")
      case False
      then have "length ?R \<le> 1" by linarith
      then show ?thesis using short_sorted unfolding if_not_P [OF False] by blast
    qed (use 1(2) [OF _ _ s [symmetric] refl] False in auto)
    have sets: "set ?l = set ?L" "set ?r = set ?R" using l r mset_eq_setD by blast+
    have left: "\<forall>x \<in> set ?L. box_le x (r' ! m)" using sp(3) False m(2) len by (auto simp: set_conv_nth)
    have right: "\<forall>y \<in> set ?R. box_le (r' ! m) y" using sp(4) False m(2) len by (auto simp: set_conv_nth)
    have "r' = ?L @ r' ! m # ?R" using m(2) len by (simp add: id_take_nth_drop)
    then have "mset r' = mset ?L + {#r' ! m#} + mset ?R"
      by (metis mset_append mset.simps(2) union_mset_add_mset_right add_mset_add_single add.assoc add.commute)
    then have "mset (QuickSortRects r) = mset r" using l r m(1) unfolding e by simp
    moreover have "sorted_wrt box_le (QuickSortRects r)"
      unfolding e using l r left right sets by (auto simp: sorted_wrt_append intro: box_le_trans)
    ultimately show ?thesis by blast
  qed
qed

section \<open>Extents\<close>

text \<open>The extents of a set of points: they contain it and touch it on every side.\<close>

definition ext_ok :: "box \<Rightarrow> (int \<times> int) set \<Rightarrow> bool" where
  "ext_ok e A \<longleftrightarrow> (\<forall>(x, y) \<in> A. INBOX e x y) \<and>
     (\<exists>y. (b_x1 e, y) \<in> A) \<and> (\<exists>y. (b_x2 e - 1, y) \<in> A) \<and>
     (\<exists>x. (x, b_y1 e) \<in> A) \<and> (\<exists>x. (x, b_y2 e - 1) \<in> A)"

definition hull :: "box \<Rightarrow> box \<Rightarrow> box" where
  "hull a b = Box (min (b_x1 a) (b_x1 b)) (min (b_y1 a) (b_y1 b)) (max (b_x2 a) (b_x2 b)) (max (b_y2 a) (b_y2 b))"

lemma ext_okD:
  assumes "ext_ok e A"
  shows "(x, y) \<in> A \<Longrightarrow> b_x1 e \<le> x" "(x, y) \<in> A \<Longrightarrow> x < b_x2 e"
    "(x, y) \<in> A \<Longrightarrow> b_y1 e \<le> y" "(x, y) \<in> A \<Longrightarrow> y < b_y2 e"
  using assms by (auto simp: ext_ok_def INBOX_def)

lemma ext_ok_sides:
  assumes "ext_ok e A"
  obtains xt xb yl yr where "(b_x1 e, yl) \<in> A" "(b_x2 e - 1, yr) \<in> A" "(xt, b_y1 e) \<in> A" "(xb, b_y2 e - 1) \<in> A"
  using assms by (auto simp: ext_ok_def)

lemma ext_okI:
  assumes "\<And>x y. (x, y) \<in> A \<Longrightarrow> b_x1 e \<le> x \<and> x < b_x2 e \<and> b_y1 e \<le> y \<and> y < b_y2 e"
    and "(b_x1 e, yl) \<in> A" "(b_x2 e - 1, yr) \<in> A" "(xt, b_y1 e) \<in> A" "(xb, b_y2 e - 1) \<in> A"
  shows "ext_ok e A"
  using assms by (auto simp: ext_ok_def INBOX_def)

lemma ext_ok_unique:
  assumes "ext_ok e A" "ext_ok e' A"
  shows "e = e'"
proof -
  obtain xt xb yl yr where e: "(b_x1 e, yl) \<in> A" "(b_x2 e - 1, yr) \<in> A" "(xt, b_y1 e) \<in> A" "(xb, b_y2 e - 1) \<in> A"
    by (rule ext_ok_sides [OF assms(1)])
  obtain xt' xb' yl' yr' where e': "(b_x1 e', yl') \<in> A" "(b_x2 e' - 1, yr') \<in> A" "(xt', b_y1 e') \<in> A" "(xb', b_y2 e' - 1) \<in> A"
    by (rule ext_ok_sides [OF assms(2)])
  have "b_x1 e = b_x1 e'" using ext_okD(1) [OF assms(1) e'(1)] ext_okD(1) [OF assms(2) e(1)] by simp
  moreover have "b_x2 e = b_x2 e'" using ext_okD(2) [OF assms(1) e'(2)] ext_okD(2) [OF assms(2) e(2)] by simp
  moreover have "b_y1 e = b_y1 e'" using ext_okD(3) [OF assms(1) e'(3)] ext_okD(3) [OF assms(2) e(3)] by simp
  moreover have "b_y2 e = b_y2 e'" using ext_okD(4) [OF assms(1) e'(4)] ext_okD(4) [OF assms(2) e(4)] by simp
  ultimately show ?thesis by simp
qed

lemma ext_ok_box: "box_ok b \<Longrightarrow> ext_ok b (area [b])"
  by (auto simp: ext_ok_def INBOX_def box_ok_def)

lemma ext_ok_hull:
  assumes "ext_ok e A" "ext_ok f B"
  shows "ext_ok (hull e f) (A \<union> B)"
proof -
  obtain xt xb yl yr where e: "(b_x1 e, yl) \<in> A" "(b_x2 e - 1, yr) \<in> A" "(xt, b_y1 e) \<in> A" "(xb, b_y2 e - 1) \<in> A"
    by (rule ext_ok_sides [OF assms(1)])
  obtain xt' xb' yl' yr' where f: "(b_x1 f, yl') \<in> B" "(b_x2 f - 1, yr') \<in> B" "(xt', b_y1 f) \<in> B" "(xb', b_y2 f - 1) \<in> B"
    by (rule ext_ok_sides [OF assms(2)])
  have "INBOX (hull e f) x y" if "(x, y) \<in> A \<union> B" for x y
    using that ext_okD [OF assms(1), of x y] ext_okD [OF assms(2), of x y]
    by (auto simp: INBOX_def hull_def min_le_iff_disj less_max_iff_disj)
  moreover have "\<exists>y. (b_x1 (hull e f), y) \<in> A \<union> B" using e(1) f(1) by (auto simp: hull_def min_def)
  moreover have "\<exists>y. (b_x2 (hull e f) - 1, y) \<in> A \<union> B" using e(2) f(2) by (auto simp: hull_def max_def)
  moreover have "\<exists>x. (x, b_y1 (hull e f)) \<in> A \<union> B" using e(3) f(3) by (auto simp: hull_def min_def)
  moreover have "\<exists>x. (x, b_y2 (hull e f) - 1) \<in> A \<union> B" using e(4) f(4) by (auto simp: hull_def max_def)
  ultimately show ?thesis by (auto simp: ext_ok_def)
qed

lemma ext_ok_inside: "ext_ok e A \<Longrightarrow> ext_ok f B \<Longrightarrow> B \<subseteq> A \<Longrightarrow> hull e f = e"
  using ext_ok_hull [of e A f B] ext_ok_unique [of e A "hull e f"] by (simp add: Un_absorb2)

text \<open>A box of the list lies inside the extents.\<close>

lemma ext_ok_member:
  assumes "ext_ok e (area bs)" "b \<in> set bs" "box_ok b"
  shows "b_x1 e \<le> b_x1 b" "b_x2 b \<le> b_x2 e" "b_y1 e \<le> b_y1 b" "b_y2 b \<le> b_y2 e"
proof -
  have a: "(b_x1 b, b_y1 b) \<in> area bs" "(b_x2 b - 1, b_y2 b - 1) \<in> area bs"
    using assms(2,3) by (auto simp: area_def INBOX_def box_ok_def intro!: bexI [of _ b])
  show "b_x1 e \<le> b_x1 b" "b_x2 b \<le> b_x2 e" "b_y1 e \<le> b_y1 b" "b_y2 b \<le> b_y2 e"
    using ext_okD [OF assms(1) a(1)] ext_okD [OF assms(1) a(2)] by simp_all
qed

section \<open>Regions under construction\<close>

text \<open>
  The boxes of a region under construction: a finished part with its last band from
  \<open>prevBand\<close> on, and the current band from \<open>curBand\<close> on. Its extents lag behind: the
  right side and the bottom of the last box are only taken in when a band is finished.
\<close>

definition eff_extents :: "box \<Rightarrow> box list \<Rightarrow> box" where
  "eff_extents e bs = e\<lparr>b_x2 := max (b_x2 e) (b_x2 (List.last bs)), b_y2 := b_y2 (List.last bs)\<rparr>"

definition ri_inv :: "int set \<Rightarrow> int set \<Rightarrow> region_info \<Rightarrow> box list \<Rightarrow> bool" where
  "ri_inv X Y rit bs \<longleftrightarrow> built (ri_reg rit) bs \<and> ri_curBand rit < length bs \<and>
     banding (ri_prevBand rit) (take (ri_curBand rit) bs) \<and>
     is_row (b_y1 (List.last bs)) (b_y2 (List.last bs)) (drop (ri_curBand rit) bs) \<and>
     b_y1 (List.last bs) < b_y2 (List.last bs) \<and>
     (\<forall>b \<in> set (take (ri_curBand rit) bs). b_y2 b \<le> b_y1 (List.last bs)) \<and>
     within X Y bs \<and> ext_ok (eff_extents (extents (ri_reg rit)) bs) (area bs)"

lemma last_row_append:
  assumes "is_row yt yb (us @ [a])" "b_y1 b = yt" "b_y2 b = yb" "b_x1 b < b_x2 b"
  shows "b_x2 a < b_x1 b \<Longrightarrow> is_row yt yb (us @ [a, b])"
    and "b_x1 b = b_x1 a \<Longrightarrow> is_row yt yb (us @ [b])"
  using assms by (force simp: is_row_def sorted_wrt_append)+

lemma ri_invE:
  assumes "ri_inv X Y rit bs"
  obtains pre us a where "bs = pre @ us @ [a]" "ri_curBand rit = length pre" "List.last bs = a"
    "banding (ri_prevBand rit) pre" "is_row (b_y1 a) (b_y2 a) (us @ [a])" "b_y1 a < b_y2 a" "box_ok a"
    "\<forall>b \<in> set pre. b_y2 b \<le> b_y1 a"
proof -
  let ?c = "ri_curBand rit"
  have c: "?c < length bs" and ne: "drop ?c bs \<noteq> []" "bs \<noteq> []" using assms by (auto simp: ri_inv_def)
  have l: "List.last (drop ?c bs) = List.last bs" using ne c by (simp add: last_drop)
  have d: "drop ?c bs = butlast (drop ?c bs) @ [List.last bs]"
    using append_butlast_last_id [OF ne(1)] l by simp
  have inv: "banding (ri_prevBand rit) (take ?c bs)" "is_row (b_y1 (List.last bs)) (b_y2 (List.last bs)) (drop ?c bs)"
    "b_y1 (List.last bs) < b_y2 (List.last bs)" "\<forall>b \<in> set (take ?c bs). b_y2 b \<le> b_y1 (List.last bs)"
    using assms unfolding ri_inv_def by blast+
  show thesis
  proof (rule that [of "take ?c bs" "butlast (drop ?c bs)" "List.last bs"])
    show "bs = take ?c bs @ butlast (drop ?c bs) @ [List.last bs]"
      using d append_take_drop_id [of ?c bs] by metis
    show "is_row (b_y1 (List.last bs)) (b_y2 (List.last bs)) (butlast (drop ?c bs) @ [List.last bs])"
      using inv(2) d by metis
    then show "box_ok (List.last bs)" using inv(3) by (simp add: is_row_def box_ok_def)
  qed (use inv c in auto)
qed

lemma eff_extents_member:
  assumes "ri_inv X Y rit bs"
  defines "e \<equiv> extents (ri_reg rit)" and "a \<equiv> List.last bs"
  shows "ext_ok (eff_extents e bs) (area bs)" "b_x1 e \<le> b_x1 a" "b_y1 e \<le> b_y1 a"
proof -
  show e: "ext_ok (eff_extents e bs) (area bs)" using assms(1) unfolding ri_inv_def e_def by blast
  obtain pre us where "bs = pre @ us @ [a]" "box_ok a" using ri_invE [OF assms(1)] a_def by metis
  then show "b_x1 e \<le> b_x1 a" "b_y1 e \<le> b_y1 a"
    using ext_ok_member [OF e, of a] by (simp_all add: eff_extents_def)
qed

text \<open>Putting a box into the current band: the two ways.\<close>

lemma place_merge:
  assumes inv: "ri_inv X Y rit bs" and b: "box_ok b" and band: "b_y1 b = b_y1 (List.last bs)" "b_y2 b = b_y2 (List.last bs)"
    and x: "b_x1 (List.last bs) \<le> b_x1 b" "b_x1 b \<le> b_x2 (List.last bs)"
    and c: "c = (if b_x2 b > b_x2 (List.last bs) then (List.last bs)\<lparr>b_x2 := b_x2 b\<rparr> else List.last bs)"
    and rit': "rit' = rit\<lparr>ri_reg := (ri_reg rit)\<lparr>data := RegHeap (data_size (data (ri_reg rit))) (butlast bs @ [c])\<rparr>\<rparr>"
  shows "ri_inv X Y rit' (butlast bs @ [c])" "area (butlast bs @ [c]) = area bs \<union> area [b]"
    "box_le c b"
proof -
  obtain pre us a where s: "bs = pre @ us @ [a]" "ri_curBand rit = length pre" "List.last bs = a"
      "banding (ri_prevBand rit) pre" "is_row (b_y1 a) (b_y2 a) (us @ [a])" "b_y1 a < b_y2 a" "box_ok a"
      "\<forall>b \<in> set pre. b_y2 b \<le> b_y1 a"
    by (rule ri_invE [OF inv])
  have bl: "butlast bs = pre @ us" using s(1) by (simp add: butlast_append)
  have c': "b_x1 c = b_x1 a" "b_y1 c = b_y1 a" "b_y2 c = b_y2 a" "b_x2 c = max (b_x2 a) (b_x2 b)"
    using c s(3) by auto
  have row: "is_row (b_y1 a) (b_y2 a) (us @ [c])"
    by (rule last_row_append(2) [OF s(5)]) (use c' s(7) in \<open>auto simp: box_ok_def\<close>)
  have "area [c] = area [a] \<union> area [b]"
    using c' band x s(3) b by (auto simp: INBOX_def box_ok_def)
  then show area: "area (butlast bs @ [c]) = area bs \<union> area [b]" using bl s(1) by auto
  note e = eff_extents_member [OF inv]
  have "eff_extents (extents (ri_reg rit)) (butlast bs @ [c]) = hull (eff_extents (extents (ri_reg rit)) bs) b"
    using e(2,3) c' band x s(3) by (auto simp: eff_extents_def hull_def max_def min_def Box_def)
  then have ext: "ext_ok (eff_extents (extents (ri_reg rit)) (butlast bs @ [c])) (area (butlast bs @ [c]))"
    using ext_ok_hull [OF e(1) ext_ok_box [OF b]] area by simp
  have "built (ri_reg rit) bs" "within X Y bs" using inv unfolding ri_inv_def by blast+
  then show "ri_inv X Y rit' (butlast bs @ [c])"
    using s row c' ext bl unfolding rit' ri_inv_def by (auto simp: built_def Un_assoc)
  show "box_le c b" using c' band x s(3) by (auto simp: box_le_def box_less_def)
qed

lemma place_append:
  assumes inv: "ri_inv X Y rit bs" and b: "box_ok b" "b_x1 b \<in> X" "b_y1 b \<in> Y" "b_y2 b \<in> Y"
    and band: "b_y1 b = b_y1 (List.last bs)" "b_y2 b = b_y2 (List.last bs)" and x: "b_x2 (List.last bs) < b_x1 b"
    and reg': "built reg' (bs @ [b])" "extents reg' = extents (ri_reg rit)"
  shows "ri_inv X Y (rit\<lparr>ri_reg := reg'\<rparr>) (bs @ [b])"
proof -
  obtain pre us a where s: "bs = pre @ us @ [a]" "ri_curBand rit = length pre" "List.last bs = a"
      "banding (ri_prevBand rit) pre" "is_row (b_y1 a) (b_y2 a) (us @ [a])" "b_y1 a < b_y2 a" "box_ok a"
      "\<forall>b \<in> set pre. b_y2 b \<le> b_y1 a"
    by (rule ri_invE [OF inv])
  have row: "is_row (b_y1 a) (b_y2 a) (us @ [a, b])"
    by (rule last_row_append(1) [OF s(5)]) (use band x s(3) b in \<open>auto simp: box_ok_def\<close>)
  note e = eff_extents_member [OF inv]
  have "eff_extents (extents (ri_reg rit)) (bs @ [b]) = hull (eff_extents (extents (ri_reg rit)) bs) b"
    using e(2,3) band x s(3,7) b(1) by (auto simp: eff_extents_def hull_def max_def min_def Box_def box_ok_def)
  then have ext: "ext_ok (eff_extents (extents (ri_reg rit)) (bs @ [b])) (area (bs @ [b]))"
    using ext_ok_hull [OF e(1) ext_ok_box [OF b(1)]] by simp
  have "within X Y bs" using inv unfolding ri_inv_def by blast
  then show ?thesis
    using s row band ext b reg' unfolding ri_inv_def by auto
qed

text \<open>Finishing the current band: it is coalesced with the band before.\<close>

lemma finish_band:
  assumes inv: "ri_inv X Y rit bs"
  shows "\<exists>ds. band_added (b_y2 (List.last bs)) ((ri_reg rit)\<lparr>extents := e\<rparr>) bs
    (Coalesce (ri_prevBand rit) (ri_curBand rit) ((ri_reg rit)\<lparr>extents := e\<rparr>)) ds"
proof -
  obtain pre us a where s: "bs = pre @ us @ [a]" "ri_curBand rit = length pre" "List.last bs = a"
      "banding (ri_prevBand rit) pre" "is_row (b_y1 a) (b_y2 a) (us @ [a])" "b_y1 a < b_y2 a" "box_ok a"
      "\<forall>b \<in> set pre. b_y2 b \<le> b_y1 a"
    by (rule ri_invE [OF inv])
  have "built ((ri_reg rit)\<lparr>extents := e\<rparr>) (pre @ us @ [a])"
    using inv s(1) by (auto simp: ri_inv_def built_def)
  then show ?thesis
    using Coalesce_band [OF s(4,5) _ s(6,8)] s(1-3) by auto
qed

lemma place_new_band:
  assumes inv: "ri_inv X Y rit bs" and b: "box_ok b" "b_x1 b \<in> X" "b_y1 b \<in> Y" "b_y2 b \<in> Y"
    and y: "b_y1 b \<ge> b_y2 (List.last bs)"
    and e': "e' = (extents (ri_reg rit))\<lparr>b_x2 := if b_x2 (extents (ri_reg rit)) < b_x2 (List.last bs)
                    then b_x2 (List.last bs) else b_x2 (extents (ri_reg rit)),
                  b_x1 := if b_x1 (extents (ri_reg rit)) > b_x1 b then b_x1 b else b_x1 (extents (ri_reg rit))\<rparr>"
    and ds: "band_added (b_y2 (List.last bs)) reg0 bs (p', reg1) ds" "extents reg0 = e'"
    and reg': "built reg' (ds @ [b])" "extents reg' = extents reg1"
  shows "ri_inv X Y \<lparr>ri_reg = reg', ri_prevBand = p', ri_curBand = length ds, ri_array = k\<rparr> (ds @ [b])"
    "area (ds @ [b]) = area bs \<union> area [b]"
proof -
  have d: "banding p' ds" "area ds = area bs" "\<forall>d \<in> set ds. b_y2 d \<le> b_y2 (List.last bs)" "extents reg1 = e'"
    and w: "within X Y ds"
    using ds inv by (auto simp: band_added_def ri_inv_def)
  show area: "area (ds @ [b]) = area bs \<union> area [b]" using d(2) by simp
  obtain pre us a where s: "bs = pre @ us @ [a]" "List.last bs = a" "b_y1 a < b_y2 a" "box_ok a"
    by (rule ri_invE [OF inv])
  note e = eff_extents_member [OF inv]
  have "eff_extents e' (ds @ [b]) = hull (eff_extents (extents (ri_reg rit)) bs) b"
    using e(2,3) y s b(1) unfolding e' by (auto simp: eff_extents_def hull_def max_def min_def Box_def box_ok_def)
  then have ext: "ext_ok (eff_extents e' (ds @ [b])) (area (ds @ [b]))"
    using ext_ok_hull [OF e(1) ext_ok_box [OF b(1)]] area by simp
  have "\<forall>d \<in> set ds. b_y2 d \<le> b_y1 b" using d(3) y by force
  then show "ri_inv X Y \<lparr>ri_reg = reg', ri_prevBand = p', ri_curBand = length ds, ri_array = k\<rparr> (ds @ [b])"
    using d(1,4) w b reg' ext by (auto simp: ri_inv_def is_row_def box_ok_def)
qed

definition box_in :: "int set \<Rightarrow> int set \<Rightarrow> box \<Rightarrow> bool" where
  "box_in X Y b \<longleftrightarrow> box_ok b \<and> b_x1 b \<in> X \<and> b_y1 b \<in> Y \<and> b_y2 b \<in> Y"

lemma place_box_ok:
  assumes inv: "ri_inv X Y rit bs" and M: "room env M" "length bs < M" and b: "box_in X Y b"
    and le: "box_le (List.last bs) b"
  shows "case place_box env b ov rit of NoRoom _ \<Rightarrow> False | Unfit \<Rightarrow> True
    | Placed ov' rit' \<Rightarrow> \<exists>bs'. ri_inv X Y rit' bs' \<and> area bs' = area bs \<union> area [b] \<and>
        length bs' \<le> Suc (length bs) \<and> box_le (List.last bs') b"
proof -
  let ?reg = "ri_reg rit" and ?a = "List.last bs"
  have bi: "box_ok b" "b_x1 b \<in> X" "b_y1 b \<in> Y" "b_y2 b \<in> Y" using b by (simp_all add: box_in_def)
  have built: "built ?reg bs" using inv by (simp add: ri_inv_def)
  then have rects: "data_rects (data ?reg) = bs" by simp
  show ?thesis
  proof (cases "b_y1 b = b_y1 ?a \<and> b_y2 b = b_y2 ?a")
    case band: True
    show ?thesis
    proof (cases "b_x1 b \<le> b_x2 ?a")
      case True
      have x: "b_x1 ?a \<le> b_x1 b" using le band by (auto simp: box_le_def box_less_def)
      define c where "c = (if b_x2 b > b_x2 ?a then ?a\<lparr>b_x2 := b_x2 b\<rparr> else ?a)"
      have e: "place_box env b ov rit = Placed (if b_x1 b < b_x2 ?a then True else ov)
          (rit\<lparr>ri_reg := ?reg\<lparr>data := RegHeap (data_size (data ?reg)) (butlast bs @ [c])\<rparr>\<rparr>)"
        using band True by (simp add: place_box_def Let_def rects c_def)
      note m = place_merge [OF inv bi(1) _ _ x True c_def refl]
      have "length (butlast bs @ [c]) \<le> Suc (length bs)" by simp
      then show ?thesis unfolding e placing.case using m band by (intro exI [of _ "butlast bs @ [c]"]) simp
    next
      case False
      have "length bs + length [b] \<le> M" "[b] \<noteq> []" using M(2) by simp_all
      then obtain reg' where a: "RECTALLOC env (length [b]) ?reg = (True, reg')"
          "built (add_rects [b] reg') (bs @ [b])" "extents (add_rects [b] reg') = extents ?reg"
        by (rule store_room [OF M(1) built])
      have e: "place_box env b ov rit = Placed ov (rit\<lparr>ri_reg := add_rects [b] reg'\<rparr>)"
        using band False a(1) by (simp add: place_box_def Let_def rects)
      have "ri_inv X Y (rit\<lparr>ri_reg := add_rects [b] reg'\<rparr>) (bs @ [b])"
        by (rule place_append [OF inv bi _ _ _ a(2,3)]) (use band False in auto)
      then show ?thesis unfolding e placing.case by (intro exI [of _ "bs @ [b]"]) simp
    qed
  next
    case other: False
    show ?thesis
    proof (cases "b_y1 b \<ge> b_y2 ?a")
      case True
      let ?e = "extents ?reg"
      let ?e' = "?e\<lparr>b_x2 := if b_x2 ?e < b_x2 ?a then b_x2 ?a else b_x2 ?e,
                     b_x1 := if b_x1 ?e > b_x1 b then b_x1 b else b_x1 ?e\<rparr>"
      obtain p' reg1 where c: "Coalesce (ri_prevBand rit) (ri_curBand rit) (?reg\<lparr>extents := ?e'\<rparr>) = (p', reg1)"
        by fastforce
      obtain ds where ds: "band_added (b_y2 ?a) (?reg\<lparr>extents := ?e'\<rparr>) bs (p', reg1) ds"
        using finish_band [OF inv, of ?e'] c by auto
      have d: "built reg1 ds" "length ds \<le> length bs" using ds by (simp_all add: band_added_def)
      have "length ds + length [b] \<le> M" "[b] \<noteq> []" using M(2) d(2) by simp_all
      then obtain reg' where a: "RECTALLOC env (length [b]) reg1 = (True, reg')"
          "built (add_rects [b] reg') (ds @ [b])" "extents (add_rects [b] reg') = extents reg1"
        by (rule store_room [OF M(1) d(1)])
      have e: "place_box env b ov rit =
          Placed ov \<lparr>ri_reg = add_rects [b] reg', ri_prevBand = p', ri_curBand = length ds, ri_array = ri_array rit\<rparr>"
        using other True c a(1) d(1) by (auto simp add: place_box_def Let_def rects)
      note n = place_new_band [OF inv bi True refl ds _ a(2,3)]
      show ?thesis unfolding e placing.case using n d(2) by (intro exI [of _ "ds @ [b]"]) simp
    next
      case False
      have "place_box env b ov rit = Unfit"
        unfolding place_box_def Let_def rects if_not_P [OF other] if_not_P [OF False] by (rule refl)
      then show ?thesis by simp
    qed
  qed
qed

section \<open>Scattering\<close>

definition areas :: "box list list \<Rightarrow> (int \<times> int) set" where
  "areas bss = (\<Union>bs \<in> set bss. area bs)"

definition total :: "box list list \<Rightarrow> nat" where
  "total bss = sum_list (map length bss)"

lemma areas_simps [simp]:
  "areas [] = {}" "areas (bs # bss) = area bs \<union> areas bss" "areas (bss @ css) = areas bss \<union> areas css"
  by (auto simp: areas_def)

lemma total_simps [simp]:
  "total [] = 0" "total (bs # bss) = length bs + total bss" "total (bss @ css) = total bss + total css"
  by (simp_all add: total_def)

lemma total_member: "bs \<in> set bss \<Longrightarrow> length bs \<le> total bss"
  by (induction bss) auto

text \<open>All regions under construction, each ending before the box \<open>b\<close>.\<close>

definition under_way :: "int set \<Rightarrow> int set \<Rightarrow> region_info list \<Rightarrow> box list list \<Rightarrow> box \<Rightarrow> bool" where
  "under_way X Y ris bss b \<longleftrightarrow> list_all2 (ri_inv X Y) ris bss \<and> (\<forall>bs \<in> set bss. box_le (List.last bs) b)"

lemma under_way_Cons:
  "under_way X Y (r # ris) bss' b \<longleftrightarrow>
   (\<exists>bs bss. bss' = bs # bss \<and> ri_inv X Y r bs \<and> box_le (List.last bs) b \<and> under_way X Y ris bss b)"
  by (auto simp: under_way_def list_all2_Cons1)

lemma under_way_mono: "under_way X Y ris bss b \<Longrightarrow> box_le b c \<Longrightarrow> under_way X Y ris bss c"
  by (auto simp: under_way_def intro: box_le_trans)

lemma place_in_ok:
  assumes "under_way X Y ris bss b" "room env M" "total bss < M" "box_in X Y b"
  shows "case place_in env b ov ris of Bail _ \<Rightarrow> False | NoneFits \<Rightarrow> True
    | InList ov' ris' \<Rightarrow> \<exists>bss'. under_way X Y ris' bss' b \<and> areas bss' = areas bss \<union> area [b] \<and>
        total bss' \<le> Suc (total bss)"
  using assms(1,3)
proof (induction ris arbitrary: bss)
  case (Cons rit ris)
  obtain bs bss1 where b: "bss = bs # bss1" "ri_inv X Y rit bs" "box_le (List.last bs) b" "under_way X Y ris bss1 b"
    using Cons.prems(1) by (auto simp: under_way_Cons)
  have "length bs < M" using Cons.prems(2) b(1) by simp
  note p = place_box_ok [OF b(2) assms(2) this assms(4) b(3), of ov]
  show ?case
  proof (cases "place_box env b ov rit")
    case (Placed ov' rit')
    then obtain bs' where "ri_inv X Y rit' bs'" "area bs' = area bs \<union> area [b]"
        "length bs' \<le> Suc (length bs)" "box_le (List.last bs') b"
      using p by auto
    then have "under_way X Y (rit' # ris) (bs' # bss1) b \<and> areas (bs' # bss1) = areas bss \<union> area [b] \<and>
        total (bs' # bss1) \<le> Suc (total bss)"
      using b by (auto simp: under_way_Cons)
    then show ?thesis using Placed by (auto simp del: area_simps)
  next
    case Unfit
    have "total bss1 < M" using Cons.prems(2) b(1) by simp
    note ih = Cons.IH [OF b(4) this]
    show ?thesis
    proof (cases "place_in env b ov ris")
      case (InList ov' ris')
      then obtain bss' where i: "under_way X Y ris' bss' b" "areas bss' = areas bss1 \<union> area [b]"
          "total bss' \<le> Suc (total bss1)"
        using ih by auto
      then have "under_way X Y (rit # ris') (bs # bss') b \<and> areas (bs # bss') = areas bss \<union> area [b] \<and>
          total (bs # bss') \<le> Suc (total bss)"
        using b by (auto simp: under_way_Cons)
      then show ?thesis using Unfit InList by (auto simp del: area_simps)
    qed (use ih Unfit in simp_all)
  next
    case NoRoom
    then show ?thesis using p by simp
  qed
qed simp

lemma new_region:
  assumes "room env M" "i < M" "box_in X Y b" "0 < m"
  obtains reg where "RegionRectAlloc env ((i + m) div m) \<lparr>extents = b, data = RegNull\<rparr> = (True, reg)"
    "ri_inv X Y \<lparr>ri_reg = reg, ri_prevBand = 0, ri_curBand = 0, ri_array = k\<rparr> [b]"
proof -
  let ?n = "(i + m) div m + 1"
  have "i div m \<le> i" by simp
  moreover have "(i + m) div m = i div m + 1" using assms(4) div_add_self2 [of m i] by simp
  ultimately have "?n \<le> 2 * M" using assms(2) by linarith
  then have ok: "rects_alloc env ?n" using assms(1) by (simp add: room_def)
  have "eff_extents b [b] = b" by (simp add: eff_extents_def)
  then have "ri_inv X Y \<lparr>ri_reg = \<lparr>extents = b, data = RegHeap ?n [b]\<rparr>, ri_prevBand = 0, ri_curBand = 0, ri_array = k\<rparr> [b]"
    using assms(3) ext_ok_box [of b]
    by (auto simp: ri_inv_def built_def banding_def is_row_def box_in_def box_ok_def)
  then show thesis using that [of "\<lparr>extents = b, data = RegHeap ?n [b]\<rparr>"] ok
    by (simp add: RegionRectAlloc_def)
qed

lemma scatter_ok:
  assumes M: "room env M" and I: "\<forall>n \<le> 2 * M. infos_mem env n"
    and "list_all2 (ri_inv X Y) ris bss" "\<forall>bs \<in> set bss. \<forall>b \<in> set rem. box_le (List.last bs) b"
    and "sorted_wrt box_le rem" "\<forall>b \<in> set rem. box_in X Y b"
    and "total bss + length rem < M" "length ris + length rem < M"
  shows "\<exists>ov' ris' bss'. scatter env rem ov sz ris = Inr (ov', ris') \<and> list_all2 (ri_inv X Y) ris' bss' \<and>
    areas bss' = areas bss \<union> area rem \<and> (ris \<noteq> [] \<longrightarrow> ris' \<noteq> [])"
  using assms(3-)
proof (induction rem arbitrary: ov sz ris bss)
  case Nil
  then show ?case by auto
next
  case (Cons b rem)
  have u: "under_way X Y ris bss b" using Cons.prems(1,2) by (simp add: under_way_def)
  have b: "box_in X Y b" "total bss < M" using Cons.prems by simp_all
  have le: "\<forall>c \<in> set rem. box_le b c" using Cons.prems(3) by simp
  note p = place_in_ok [OF u M b(2,1), of ov]
  show ?case
  proof (cases "place_in env b ov ris")
    case (InList ov' ris')
    then obtain bss' where i: "under_way X Y ris' bss' b" "areas bss' = areas bss \<union> area [b]" "total bss' \<le> Suc (total bss)"
      using p by auto
    have len: "length ris' = length ris"
      using InList by (induction ris arbitrary: ris') (auto split: placing.splits found.splits)
    have "\<forall>bs \<in> set bss'. \<forall>c \<in> set rem. box_le (List.last bs) c"
      using i(1) le by (auto simp: under_way_def intro: box_le_trans)
    then obtain ov2 ris2 bss2 where "scatter env rem ov' sz ris' = Inr (ov2, ris2)" "list_all2 (ri_inv X Y) ris2 bss2"
        "areas bss2 = areas bss' \<union> area rem" "ris' \<noteq> [] \<longrightarrow> ris2 \<noteq> []"
      using Cons.IH [of ris' bss' ov' sz] i(1,3) Cons.prems len by (auto simp: under_way_def)
    then show ?thesis using InList i(2) len by (auto intro!: exI [of _ bss2])
  next
    case NoneFits
    let ?m = "length ris + 1"
    obtain reg where reg: "RegionRectAlloc env ((length (b # rem) + ?m) div ?m) \<lparr>extents = b, data = RegNull\<rparr> = (True, reg)"
        "ri_inv X Y \<lparr>ri_reg = reg, ri_prevBand = 0, ri_curBand = 0, ri_array = length ris\<rparr> [b]"
      using new_region [OF M _ b(1), of "length (b # rem)" ?m] Cons.prems(5) by auto
    let ?r = "\<lparr>ri_reg = reg, ri_prevBand = 0, ri_curBand = 0, ri_array = length ris\<rparr>" and ?sz = "if sz = length ris then 2 * sz else sz"
    have "\<not> (sz = length ris \<and> \<not> infos_mem env (2 * sz))" using I Cons.prems(6) by auto
    then have e: "scatter env (b # rem) ov sz ris = scatter env rem ov ?sz (ris @ [?r])"
      by (subst scatter.simps, simp only: NoneFits found.case Let_def reg(1) prod.case bool.case if_False)
    have a: "list_all2 (ri_inv X Y) (ris @ [?r]) (bss @ [[b]])" using Cons.prems(1) reg(2) by (simp add: list_all2_appendI)
    have c: "\<forall>bs \<in> set (bss @ [[b]]). \<forall>c \<in> set rem. box_le (List.last bs) c" using Cons.prems(2) le by auto
    obtain ov2 ris2 bss2 where "scatter env rem ov ?sz (ris @ [?r]) = Inr (ov2, ris2)" "list_all2 (ri_inv X Y) ris2 bss2"
        "areas bss2 = areas (bss @ [[b]]) \<union> area rem" "ris2 \<noteq> []"
      using Cons.IH [OF a c, of ov ?sz] Cons.prems by auto
    then show ?thesis using e by (auto intro!: exI [of _ bss2])
  next
    case Bail
    then show ?thesis using p by simp
  qed
qed

section \<open>Merging\<close>

text \<open>A finished region that covers the points \<open>A\<close>.\<close>

definition good :: "int set \<Rightarrow> int set \<Rightarrow> (int \<times> int) set \<Rightarrow> region \<Rightarrow> bool" where
  "good X Y A reg \<longleftrightarrow> RegionRects reg \<noteq> [] \<and> banded (RegionRects reg) \<and> within X Y (RegionRects reg) \<and>
     area (RegionRects reg) = A \<and> ext_ok (extents reg) A \<and> canonical_data reg"

lemma banded_single: "banded [b] \<longleftrightarrow> box_ok b"
  by (simp add: banded_def)

lemma one_element:
  assumes "length xs = 1"
  obtains x where "xs = [x]"
  using assms by (cases xs) auto

lemma band_addedD:
  assumes "band_added yb reg bs (p, reg1) ds"
  shows "built reg1 ds" "extents reg1 = extents reg" "banded ds" "ds \<noteq> []" "area ds = area bs"
    "within X Y bs \<Longrightarrow> within X Y ds"
proof -
  note a = assms [unfolded band_added_def prod.case banding_def]
  show "built reg1 ds" using a by (elim conjE)
  show "extents reg1 = extents reg" using a by (elim conjE)
  show "banded ds" using a by (elim conjE)
  show "area ds = area bs" using a by (elim conjE)
  have "p < length ds" using a by (elim conjE)
  then show "ds \<noteq> []" by auto
  show "within X Y ds" if "within X Y bs" using a that by (elim conjE) (drule spec, drule spec, erule mp)
qed

lemma one_box:
  assumes "RegionRects reg = [c]" "canonical_data reg"
  shows "data reg = RegNull \<and> extents reg = c"
  using assms by (cases "data reg") (simp_all add: RegionRects_def canonical_data_def)

text \<open>A list of boxes with their extents, stored the way a region stores them.\<close>

lemma good_stored:
  assumes b: "built reg ds" "ds \<noteq> []" "banded ds" "within X Y ds" "area ds = A" and x: "ext_ok (extents reg) A"
  shows "good X Y A (if length (data_rects (data reg)) = 1 then reg\<lparr>data := RegNull\<rparr> else reg)"
proof -
  obtain sz where d: "data reg = RegHeap sz ds" "length ds \<le> sz" using b(1) by (auto simp: built_def)
  show ?thesis
  proof (cases "length ds = 1")
    case True
    obtain a where a: "ds = [a]" by (rule one_element [OF True])
    have "ext_ok a A" using ext_ok_box [of a] b(3,5) a by (simp add: banded_single)
    then have "extents reg = a" using ext_ok_unique x by blast
    then show ?thesis using a b x d by (simp add: good_def RegionRects_def canonical_data_def)
  next
    case False
    then have "2 \<le> length ds" using b(2) by (cases ds) (auto simp: Suc_le_eq)
    then show ?thesis using False b x d by (simp add: good_def RegionRects_def canonical_data_def)
  qed
qed

lemma settle_good:
  assumes "ri_inv X Y rit bs"
  shows "good X Y (area bs) (ri_reg (settle rit))"
proof -
  let ?reg = "ri_reg rit" and ?b = "List.last bs"
  let ?e = "(extents ?reg)\<lparr>b_y2 := b_y2 ?b, b_x2 := if b_x2 (extents ?reg) < b_x2 ?b then b_x2 ?b else b_x2 (extents ?reg)\<rparr>"
  have d: "data_rects (data ?reg) = bs" "within X Y bs"
    and x: "ext_ok (eff_extents (extents ?reg) bs) (area bs)"
    using assms unfolding ri_inv_def by auto
  have ex: "?e = eff_extents (extents ?reg) bs" by (simp add: eff_extents_def max_def)
  obtain p reg1 ds where c: "Coalesce (ri_prevBand rit) (ri_curBand rit) (?reg\<lparr>extents := ?e\<rparr>) = (p, reg1)"
      and ba: "band_added (b_y2 ?b) (?reg\<lparr>extents := ?e\<rparr>) bs (p, reg1) ds"
    using finish_band [OF assms] by (metis surj_pair)
  have n: "built reg1 ds" "ds \<noteq> []" "banded ds" "within X Y ds" "area ds = area bs" "extents reg1 = ?e"
    using band_addedD [OF ba] d(2) by simp_all
  have s: "ri_reg (settle rit) = (if length (data_rects (data reg1)) = 1 then reg1\<lparr>data := RegNull\<rparr> else reg1)"
    unfolding settle_def Let_def d(1) c by simp
  show ?thesis unfolding s by (rule good_stored [OF n(1-5)]) (simp only: n(6) ex x)
qed

lemma good_union:
  assumes r: "roomy env X Y" and a: "good X Y A reg1" and b: "good X Y B reg2"
  shows "\<exists>ov' reg. RegionOp env IntoFirst reg1 reg2 RegionUnionO True True ov = (True, ov', reg) \<and>
    good X Y (A \<union> B) (reg\<lparr>extents := hull (extents reg) (extents reg2)\<rparr>)"
proof -
  obtain ov' reg bs where u: "RegionOp env IntoFirst reg1 reg2 RegionUnionO True True ov = (True, ov', reg)"
      "RegionRects reg = bs" "banded bs" "within X Y bs" "area bs = A \<union> B" "canonical_data reg"
      "2 \<le> length bs \<longrightarrow> extents reg = extents (dest_region IntoFirst reg1 reg2)"
    using RegionOp_union [OF r, of reg1 reg2 IntoFirst ov] a b unfolding good_def by blast
  have x: "ext_ok (extents reg1) A" "ext_ok (extents reg2) B" using a b by (simp_all add: good_def)
  have "\<exists>y. (b_x1 (extents reg1), y) \<in> area bs" using x(1) u(5) by (auto simp: ext_ok_def)
  then have ne: "bs \<noteq> []" by auto
  let ?r = "reg\<lparr>extents := hull (extents reg) (extents reg2)\<rparr>"
  have "good X Y (A \<union> B) ?r"
  proof (cases "length bs = 1")
    case True
    obtain c where c: "bs = [c]" by (rule one_element [OF True])
    have n: "data reg = RegNull" "extents reg = c"
      using one_box [OF u(2) [unfolded c] u(6)] by simp_all
    have ec: "ext_ok c (A \<union> B)" using ext_ok_box [of c] u(3,5) c by (simp add: banded_single)
    have "hull c (extents reg2) = c" by (rule ext_ok_inside [OF ec x(2)]) simp
    then show ?thesis using c n u ec by (simp add: good_def RegionRects_def canonical_data_def)
  next
    case False
    then have "2 \<le> length bs" using ne by (cases bs) (auto simp: Suc_le_eq)
    then have e: "extents reg = extents reg1" using u(7) by (simp add: dest_region_def)
    have "data reg \<noteq> RegNull" using False u(2) by (auto simp: RegionRects_def)
    then have "RegionRects ?r = bs" using u(2) by (simp add: RegionRects_def)
    then show ?thesis using ne u e ext_ok_hull [OF x] by (simp add: good_def canonical_data_def)
  qed
  then show ?thesis using u(1) by blast
qed

definition goods :: "int set \<Rightarrow> int set \<Rightarrow> (int \<times> int) set list \<Rightarrow> region_info list \<Rightarrow> bool" where
  "goods X Y As ris \<longleftrightarrow> list_all2 (\<lambda>A rit. good X Y A (ri_reg rit)) As ris"

lemma merge_pair_good:
  assumes r: "roomy env X Y" and g: "goods X Y As ris" and j: "j + half < length ris"
  shows "\<exists>ov' ris'. merge_pair env half j (True, ov, ris) = (True, ov', ris') \<and>
    goods X Y (As[j := As ! j \<union> As ! (j + half)]) ris'"
proof -
  have a: "good X Y (As ! j) (ri_reg (ris ! j))" "good X Y (As ! (j + half)) (ri_reg (ris ! (j + half)))"
    using g j by (auto simp: goods_def list_all2_conv_all_nth)
  obtain ov' reg where u: "RegionOp env IntoFirst (ri_reg (ris ! j)) (ri_reg (ris ! (j + half))) RegionUnionO True True ov = (True, ov', reg)"
      "good X Y (As ! j \<union> As ! (j + half)) (reg\<lparr>extents := hull (extents reg) (extents (ri_reg (ris ! (j + half))))\<rparr>)"
    using good_union [OF r a] by blast
  have h: "Box (if b_x1 h < b_x1 e then b_x1 h else b_x1 e) (if b_y1 h < b_y1 e then b_y1 h else b_y1 e)
      (if b_x2 h > b_x2 e then b_x2 h else b_x2 e) (if b_y2 h > b_y2 e then b_y2 h else b_y2 e) = hull e h" for e h
    by (simp add: hull_def min_def max_def)
  show ?thesis
    unfolding merge_pair_def prod.case Let_def u(1) h
    using u(2) g by (auto simp: goods_def intro!: list_all2_update_cong)
qed

text \<open>The sets after the unions of one pass up to \<open>k\<close>.\<close>

definition paired :: "nat \<Rightarrow> nat \<Rightarrow> nat \<Rightarrow> 'a set list \<Rightarrow> 'a set list" where
  "paired half lo k As = map (\<lambda>i. if lo \<le> i \<and> i < k then As ! i \<union> As ! (i + half) else As ! i) [0..<length As]"

lemma paired_simps:
  "length (paired half lo k As) = length As" "paired half lo lo As = As"
  "i < length As \<Longrightarrow> paired half lo k As ! i = (if lo \<le> i \<and> i < k then As ! i \<union> As ! (i + half) else As ! i)"
  by (simp add: paired_def, rule nth_equalityI, auto simp: paired_def)

lemma paired_Suc:
  assumes "lo \<le> k" "k < lo + half" "k + half < length As"
  shows "(paired half lo k As)[k := paired half lo k As ! k \<union> paired half lo k As ! (k + half)] = paired half lo (Suc k) As"
  by (rule nth_equalityI) (use assms in \<open>auto simp: paired_simps nth_list_update less_Suc_eq\<close>)

lemma merge_fold_good:
  assumes r: "roomy env X Y" and g: "goods X Y As ris" and n: "length ris = 2 * half + lo"
    and k: "lo \<le> k" "k \<le> half + lo"
  shows "\<exists>ov' ris'. fold (merge_pair env half) [lo..<k] (True, ov, ris) = (True, ov', ris') \<and>
    goods X Y (paired half lo k As) ris'"
  using k
proof (induction k rule: dec_induct)
  case base
  then show ?case using g by (simp add: paired_simps)
next
  case (step k)
  then obtain ov1 ris1 where i: "fold (merge_pair env half) [lo..<k] (True, ov, ris) = (True, ov1, ris1)"
      "goods X Y (paired half lo k As) ris1" by auto
  have len: "length ris1 = length As" "length As = length ris"
    using i(2) g by (auto simp: goods_def paired_simps dest: list_all2_lengthD)
  have j: "k + half < length ris1" using step n len by simp
  obtain ov2 ris2 where m: "merge_pair env half k (True, ov1, ris1) = (True, ov2, ris2)"
      "goods X Y ((paired half lo k As)[k := paired half lo k As ! k \<union> paired half lo k As ! (k + half)]) ris2"
    using merge_pair_good [OF r i(2) j] by blast
  have "goods X Y (paired half lo (Suc k) As) ris2"
    using m(2) paired_Suc [of lo k half As] step j len by simp
  then show ?case using i(1) m(1) step by simp
qed

lemma paired_union:
  assumes "length As = 2 * half + lo"
  shows "\<Union> (set (take (half + lo) (paired half lo (half + lo) As))) = \<Union> (set As)"
proof -
  let ?P = "paired half lo (half + lo) As"
  have "set (take (half + lo) ?P) = (!) ?P ` {0..<half + lo}"
    using assms nth_image [of "half + lo" ?P] by (simp add: paired_simps)
  then have t: "\<Union> (set (take (half + lo) ?P)) = (\<Union>i < half + lo. ?P ! i)" by (simp add: atLeast0LessThan)
  have l: "As ! i \<subseteq> (\<Union>i < half + lo. ?P ! i)" if i: "i < length As" for i
  proof (cases "i < half + lo")
    case True
    then have "As ! i \<subseteq> ?P ! i" using i by (simp add: paired_simps)
    then show ?thesis using True by blast
  next
    case False
    then have "As ! i \<subseteq> ?P ! (i - half)" "i - half < half + lo" using i assms by (auto simp: paired_simps)
    then show ?thesis by blast
  qed
  have r: "?P ! i \<subseteq> (\<Union>i < length As. As ! i)" if i: "i < half + lo" for i
  proof -
    have "i < length As" "i + half < length As \<or> i < lo" using i assms by auto
    then show ?thesis using i by (auto simp: paired_simps)
  qed
  have "\<Union> (set (take (half + lo) ?P)) = (\<Union>i < half + lo. ?P ! i)" by (rule t)
  also have "\<dots> = (\<Union>i < length As. As ! i)" using l r by blast
  also have "\<dots> = \<Union> (set As)" by (auto simp: set_conv_nth)
  finally show ?thesis .
qed

lemma merge_pass_good:
  assumes r: "roomy env X Y" and g: "goods X Y As ris"
  shows "\<exists>ov' ris' As'. merge_pass env (True, ov, ris) = (True, ov', ris') \<and> goods X Y As' ris' \<and> \<Union> (set As') = \<Union> (set As)"
proof -
  let ?n = "length ris" and ?half = "length ris div 2" and ?lo = "length ris mod 2"
  have n: "?n = 2 * ?half + ?lo" by simp
  obtain ov' ris' where f: "fold (merge_pair env ?half) [?lo..<?half + ?lo] (True, ov, ris) = (True, ov', ris')"
      "goods X Y (paired ?half ?lo (?half + ?lo) As) ris'"
    using merge_fold_good [OF r g n, of "?half + ?lo" ov] by auto
  have len: "length As = ?n" using g by (auto simp: goods_def dest: list_all2_lengthD)
  have t: "?n - ?half = ?half + ?lo" by presburger
  have "goods X Y (take (?half + ?lo) (paired ?half ?lo (?half + ?lo) As)) (take (?half + ?lo) ris')"
    using f(2) unfolding goods_def by (rule list_all2_takeI)
  moreover have "\<Union> (set (take (?half + ?lo) (paired ?half ?lo (?half + ?lo) As))) = \<Union> (set As)"
    by (rule paired_union) (simp add: len)
  moreover have "merge_pass env (True, ov, ris) = (True, ov', take (?half + ?lo) ris')"
    unfolding merge_pass_def Let_def snd_conv f(1) prod.case t ..
  ultimately show ?thesis by blast
qed

lemma merge_all_good:
  assumes r: "roomy env X Y"
  shows "goods X Y As ris \<Longrightarrow> ris \<noteq> [] \<Longrightarrow>
    \<exists>ov' rit. merge_all env (True, ov, ris) = (True, ov', [rit]) \<and> good X Y (\<Union> (set As)) (ri_reg rit)"
proof (induction "length ris" arbitrary: ris As ov rule: less_induct)
  case less
  show ?case
  proof (cases "length ris > 1")
    case True
    obtain ov1 ris1 As1 where m: "merge_pass env (True, ov, ris) = (True, ov1, ris1)" "goods X Y As1 ris1"
        "\<Union> (set As1) = \<Union> (set As)"
      using merge_pass_good [OF r less.prems(1)] by blast
    have "length ris1 = length ris - length ris div 2" using length_merge_pass [of env "(True, ov, ris)"] m(1) by simp
    then have "length ris1 < length ris" "ris1 \<noteq> []" using True by auto
    then obtain ov' rit where "merge_all env (True, ov1, ris1) = (True, ov', [rit])" "good X Y (\<Union> (set As1)) (ri_reg rit)"
      using less.hyps m(2) by blast
    then show ?thesis using True m by (subst merge_all.simps) simp
  next
    case False
    then have "length ris = 1" using less.prems(2) by (cases ris) auto
    then obtain rit where ris: "ris = [rit]" by (rule one_element)
    then obtain A where "As = [A]" "good X Y A (ri_reg rit)" using less.prems(1) by (auto simp: goods_def list_all2_Cons2)
    then show ?thesis using ris by (subst merge_all.simps) simp
  qed
qed

section \<open>Validation\<close>

lemma settle_all:
  "list_all2 (ri_inv X Y) ris bss \<Longrightarrow> goods X Y (map area bss) (map settle ris)"
  unfolding goods_def
  by (induction ris bss rule: list_all2_induct) (simp_all add: settle_good)

lemma first_region:
  assumes "box_in X Y b" "0 < sz"
  shows "ri_inv X Y \<lparr>ri_reg = \<lparr>extents = b, data = RegHeap sz [b]\<rparr>, ri_prevBand = 0, ri_curBand = 0, ri_array = k\<rparr> [b]"
proof -
  have "eff_extents b [b] = b" by (simp add: eff_extents_def)
  then show ?thesis
    using assms ext_ok_box [of b]
    by (auto simp: ri_inv_def built_def banding_def is_row_def box_in_def box_ok_def)
qed

text \<open>
  The memory that suffices: descriptors and boxes for every request the validation of
  \<open>n\<close> boxes can make.
\<close>

definition memory_for :: "region_env \<Rightarrow> nat \<Rightarrow> bool" where
  "memory_for env n \<longleftrightarrow> room env (2 * n * n + 2) \<and> (\<forall>m \<le> 2 * n + 8. infos_mem env m)"

lemma room_mono: "room env m \<Longrightarrow> n \<le> m \<Longrightarrow> room env n"
  by (simp add: room_def)

lemma corners:
  fixes bs :: "box list"
  defines "X \<equiv> b_x1 ` set bs" and "Y \<equiv> b_y1 ` set bs \<union> b_y2 ` set bs"
  assumes "memory_for env (length bs)"
  shows "roomy env X Y"
proof -
  have x: "card X \<le> length bs" unfolding X_def by (meson card_image_le card_length finite_set le_trans)
  have "card (b_y1 ` set bs) \<le> length bs" "card (b_y2 ` set bs) \<le> length bs"
    by (meson card_image_le card_length finite_set le_trans)+
  then have "card Y \<le> 2 * length bs" unfolding Y_def using card_Un_le [of "b_y1 ` set bs" "b_y2 ` set bs"] by linarith
  then have "card X * card Y \<le> length bs * (2 * length bs)" using x mult_le_mono by blast
  then have "card X * card Y \<le> 2 * length bs * length bs + 2" by (simp add: algebra_simps)
  then show ?thesis
    using assms(3) room_mono unfolding roomy_def memory_for_def X_def Y_def by blast
qed

lemma RegionValidate_union:
  assumes d: "data badreg = RegHeap sz bs" "bs \<noteq> []" "0 < sz" and b: "\<forall>b \<in> set bs. box_ok b"
    and e: "\<not> b_x1 (extents badreg) < b_x2 (extents badreg)" and m: "memory_for env (length bs)"
  shows "\<exists>ov reg. RegionValidate env badreg = Done (True, ov, reg) \<and>
    good (b_x1 ` set bs) (b_y1 ` set bs \<union> b_y2 ` set bs) (area bs) reg"
proof -
  let ?X = "b_x1 ` set bs" and ?Y = "b_y1 ` set bs \<union> b_y2 ` set bs"
  let ?rects = "QuickSortRects bs"
  have q: "mset ?rects = mset bs" "sorted_wrt box_le ?rects" using QuickSortRects_spec by simp_all
  have s: "set ?rects = set bs" "length ?rects = length bs" using mset_eq_setD [OF q(1)] mset_eq_length [OF q(1)] .
  then have ne: "?rects \<noteq> []" using d(2) by auto
  define r0 rem where "r0 = hd ?rects" and "rem = List.tl ?rects"
  have rr: "?rects = r0 # rem" using ne by (simp add: r0_def rem_def)
  have inb: "\<forall>b \<in> set bs. box_in ?X ?Y b" using b by (auto simp: box_in_def)
  have r0: "box_in ?X ?Y r0" and rem: "\<forall>b \<in> set rem. box_in ?X ?Y b" using inb s(1) rr by auto
  have le: "\<forall>b \<in> set rem. box_le r0 b" and sorted: "sorted_wrt box_le rem" using q(2) rr by auto
  let ?f = "\<lparr>ri_reg = \<lparr>extents = r0, data = RegHeap sz [r0]\<rparr>, ri_prevBand = 0, ri_curBand = 0, ri_array = 0\<rparr>"
  have f: "list_all2 (ri_inv ?X ?Y) [?f] [[r0]]" using first_region [OF r0 d(3)] by simp
  have len: "length bs = Suc (length rem)" using s(2) rr by simp
  then have len': "total [[r0]] + length rem < Suc (length bs)" "length [?f] + length rem < Suc (length bs)" by simp_all
  have "length bs * 1 \<le> length bs * length bs" by (rule mult_le_mono2) (use len in simp)
  then have "Suc (length bs) \<le> 2 * length bs * length bs + 2" by linarith
  then have M: "room env (Suc (length bs))" "\<forall>n \<le> 2 * Suc (length bs). infos_mem env n" "infos_mem env 4"
    using m room_mono [of env "2 * length bs * length bs + 2" "Suc (length bs)"] by (auto simp: memory_for_def)
  obtain ov1 ris1 bss1 where sc: "scatter env rem False 4 [?f] = Inr (ov1, ris1)" "list_all2 (ri_inv ?X ?Y) ris1 bss1"
      "areas bss1 = areas [[r0]] \<union> area rem" "ris1 \<noteq> []"
    using scatter_ok [OF M(1,2) f _ sorted rem len', of False 4] le by auto
  have "area ?rects = area bs" using s(1) by (simp add: area_def)
  then have ar: "areas bss1 = area bs" using sc(3) rr by simp
  obtain ov2 rit where mg: "merge_all env (True, ov1, map settle ris1) = (True, ov2, [rit])"
      "good ?X ?Y (\<Union> (set (map area bss1))) (ri_reg rit)"
    using merge_all_good [OF corners [OF m] settle_all [OF sc(2)]] sc(4) by fastforce
  have "\<Union> (set (map area bss1)) = area bs" using ar by (simp add: areas_def)
  then have "good ?X ?Y (area bs) (ri_reg rit)" using mg(2) by simp
  moreover have "RegionValidate env badreg = Done (True, ov2, ri_reg rit)"
    using d e M(3) sc(1) mg(1) unfolding RegionValidate_def Let_def r0_def rem_def by simp
  ultimately show ?thesis by blast
qed

section \<open>The checker of the code\<close>

lemma valid_pairs_banded: "banded bs \<Longrightarrow> valid_pairs bs"
proof (induction bs rule: valid_pairs.induct)
  case (1 p n bs)
  have "banded (n # bs)" and b: "before p n" using 1(2) by (simp_all add: banded_def)
  then have "valid_pairs (n # bs)" by (intro 1(1))
  then show ?case using b by (simp add: before_def box_ok_def) linarith
qed simp_all

lemma foldl_min: "foldl (\<lambda>m b. min m (f b)) a bs = Min (insert a (f ` set bs))" for a :: int
proof (induction bs arbitrary: a)
  case (Cons b bs)
  show ?case by (cases "bs = []") (simp_all add: Cons min.assoc insert_commute)
qed simp

lemma foldl_max: "foldl (\<lambda>m b. max m (f b)) a bs = Max (insert a (f ` set bs))" for a :: int
proof (induction bs arbitrary: a)
  case (Cons b bs)
  show ?case by (cases "bs = []") (simp_all add: Cons max.assoc insert_commute)
qed simp

lemma banded_ends:
  assumes "banded bs" "b \<in> set bs"
  shows "b_y1 (hd bs) \<le> b_y1 b" "b_y2 b \<le> b_y2 (List.last bs)"
proof -
  have ne: "bs \<noteq> []" using assms(2) by auto
  obtain h t where "bs = h # t" using ne by (cases bs) auto
  then show "b_y1 (hd bs) \<le> b_y1 b" using assms by (auto simp: banded_def before_def box_ok_def)
  have "bs = butlast bs @ [List.last bs]" using ne by simp
  then have "banded (butlast bs @ [List.last bs])" "b \<in> set (butlast bs @ [List.last bs])" using assms by simp_all
  then show "b_y2 b \<le> b_y2 (List.last bs)" by (auto simp: banded_append before_def box_ok_def)
qed

lemma good_valid:
  assumes "good X Y A reg"
  shows "RegionIsValid reg" "area (RegionRects reg) = A"
proof -
  let ?bs = "RegionRects reg" and ?e = "extents reg"
  have g: "?bs \<noteq> []" "banded ?bs" "area ?bs = A" "ext_ok ?e A" "canonical_data reg"
    using assms by (simp_all add: good_def)
  have ok: "\<forall>b \<in> set ?bs. box_ok b" using g(2) by (simp add: banded_def)
  have m: "b_x1 ?e \<le> b_x1 b" "b_x2 b \<le> b_x2 ?e" "b_y1 ?e \<le> b_y1 b" "b_y2 b \<le> b_y2 ?e" if "b \<in> set ?bs" for b
    using ext_ok_member [of ?e ?bs b] g(3,4) ok that by simp_all
  obtain xt xb yl yr where s: "(b_x1 ?e, yl) \<in> A" "(b_x2 ?e - 1, yr) \<in> A" "(xt, b_y1 ?e) \<in> A" "(xb, b_y2 ?e - 1) \<in> A"
    by (rule ext_ok_sides [OF g(4)])
  obtain l where l: "l \<in> set ?bs" "b_x1 l = b_x1 ?e" using s(1) m(1) g(3) by (force simp: area_def INBOX_def)
  obtain r where r: "r \<in> set ?bs" "b_x2 r = b_x2 ?e" using s(2) m(2) g(3) by (force simp: area_def INBOX_def)
  obtain t where t: "t \<in> set ?bs" "b_y1 t = b_y1 ?e" using s(3) m(3) g(3) by (force simp: area_def INBOX_def)
  obtain b where b: "b \<in> set ?bs" "b_y2 b = b_y2 ?e" using s(4) m(4) g(3) by (force simp: area_def INBOX_def)
  have hd: "hd ?bs \<in> set ?bs" "List.last ?bs \<in> set ?bs" using g(1) by simp_all
  have rest: "insert (hd ?bs) (set (List.tl ?bs)) = set ?bs" using g(1) by (cases ?bs) auto
  have "Min (insert (b_x1 (hd ?bs)) (b_x1 ` set (List.tl ?bs))) = Min (b_x1 ` set ?bs)" using rest by (metis image_insert)
  also have "\<dots> = b_x1 ?e" by (rule Min_eqI) (use m(1) l in \<open>auto intro: rev_image_eqI\<close>)
  finally have x1: "foldl (\<lambda>m b. min m (b_x1 b)) (b_x1 (hd ?bs)) (List.tl ?bs) = b_x1 ?e" by (simp add: foldl_min)
  have "Max (insert (b_x2 (hd ?bs)) (b_x2 ` set (List.tl ?bs))) = Max (b_x2 ` set ?bs)" using rest by (metis image_insert)
  also have "\<dots> = b_x2 ?e" by (rule Max_eqI) (use m(2) r in \<open>auto intro: rev_image_eqI\<close>)
  finally have x2: "foldl (\<lambda>m b. max m (b_x2 b)) (b_x2 (hd ?bs)) (List.tl ?bs) = b_x2 ?e" by (simp add: foldl_max)
  have y: "b_y1 (hd ?bs) = b_y1 ?e" "b_y2 (List.last ?bs) = b_y2 ?e"
    using banded_ends(1) [OF g(2) t(1)] m(3) [OF hd(1)] t(2) banded_ends(2) [OF g(2) b(1)] m(4) [OF hd(2)] b(2) by linarith+
  have nn: "\<not> (b_x1 ?e > b_x2 ?e \<or> b_y1 ?e > b_y2 ?e)"
    using m [OF hd(1)] bspec [OF ok hd(1)] unfolding box_ok_def by linarith
  have one: "data reg = RegNull" if n: "length ?bs = 1"
  proof -
    obtain c where c: "?bs = [c]" by (rule one_element [OF n])
    show ?thesis using one_box [OF c g(5)] by simp
  qed
  have vp: "valid_pairs ?bs" by (rule valid_pairs_banded [OF g(2)])
  show "RegionIsValid reg"
    unfolding RegionIsValid_def Let_def if_not_P [OF nn] if_not_P [OF g(1)] using one vp x1 x2 y by simp
  show "area ?bs = A" by (rule g(3))
qed

section \<open>Properties\<close>

text \<open>C3: Validating an allocated region whose extents are marked invalid and whose boxes are not
  empty, with memory for the work (the limit on the size of an array of boxes allows for about 8191
  of them): \<open>RegionValidate\<close> returns TRUE, the boxes of the result cover
  exactly the points of the given boxes, however these overlapped, and the result passes the code's
  own check \<open>RegionIsValid\<close>.\<close>

theorem RegionValidate_unites:
  assumes "data badreg = RegHeap sz bs" "bs \<noteq> []" "0 < sz" "list_all box_ok bs"
    and "\<not> b_x1 (extents badreg) < b_x2 (extents badreg)" "memory_for env (length bs)"
  shows "\<exists>ov reg. RegionValidate env badreg = Done (True, ov, reg) \<and>
    area (RegionRects reg) = area bs \<and> RegionIsValid reg"
  using RegionValidate_union [OF assms(1-3) _ assms(5,6)] assms(4) good_valid by (simp add: list_all_iff) blast

text \<open>\<open>QuickSortRects\<close> ends for every array of boxes, returns the same boxes, and in the order
  of their upper left corners: by the top, then by the left side.\<close>

theorem QuickSortRects_sorts:
  "mset (QuickSortRects rects) = mset rects \<and>
   sorted_wrt (\<lambda>a b. b_y1 a < b_y1 b \<or> b_y1 a = b_y1 b \<and> b_x1 a \<le> b_x1 b) (QuickSortRects rects)"
proof -
  have "box_le = (\<lambda>a b. b_y1 a < b_y1 b \<or> b_y1 a = b_y1 b \<and> b_x1 a \<le> b_x1 b)"
    by (auto simp: box_le_def box_less_def fun_eq_iff)
  then show ?thesis using QuickSortRects_spec [of rects] by metis
qed

text \<open>C39: Where the second box in the sorted order fits neither the band of the first nor below it and the
  array for a second region cannot be had, \<open>RegionValidate\<close> frees the array of the region
  twice: the scattering jumps to \<open>bail\<close> with two regions, the first of which owns that array and the
  second, broken by the failed allocation, none; the loop there frees the array of the first, and
  \<open>RegionBreak\<close> frees the array of the region, which is the same.\<close>

theorem RegionValidate_frees_twice:
  assumes "data badreg = RegHeap sz bs" "0 < sz" "\<not> b_x1 (extents badreg) < b_x2 (extents badreg)"
    and "infos_mem env 4" "QuickSortRects bs = a # b # rest"
    and "b_y1 b < b_y2 a" "\<not> (b_y1 b = b_y1 a \<and> b_y2 b = b_y2 a)"
    and "\<not> rects_alloc env ((length bs + 1) div 2 + 1)"
  shows "\<exists>ris. scatter env (b # rest) False 4 [\<lparr>ri_reg = \<lparr>extents = a, data = RegHeap sz [a]\<rparr>,
        ri_prevBand = 0, ri_curBand = 0, ri_array = 0\<rparr>] = Inl ris \<and>
      bail_frees ris badreg = [0, 0] \<and> RegionValidate env badreg = DoubleFree"
proof -
  let ?f = "\<lparr>ri_reg = \<lparr>extents = a, data = RegHeap sz [a]\<rparr>, ri_prevBand = 0, ri_curBand = 0, ri_array = 0\<rparr>"
  let ?g = "\<lparr>ri_reg = snd (RegionBreak \<lparr>extents = b, data = RegNull\<rparr>), ri_prevBand = 0, ri_curBand = 0, ri_array = 1\<rparr>"
  have len: "length bs = Suc (Suc (length rest))"
    using mset_eq_length [OF conjunct1 [OF QuickSortRects_spec [of bs]]] assms(5) by simp
  then have ne: "bs \<noteq> []" by auto
  have f: "RegionRectAlloc env (Suc (Suc (Suc (length rest))) div Suc (Suc 0)) \<lparr>extents = b, data = RegNull\<rparr> =
      RegionBreak \<lparr>extents = b, data = RegNull\<rparr>"
    using assms(8) len by (simp add: RegionRectAlloc_def numeral_2_eq_2)
  have "place_box env b False ?f = Unfit"
    using assms(6,7) by (auto simp: place_box_def Let_def)
  then have sc: "scatter env (b # rest) False 4 [?f] = Inl [?f, ?g]"
    using f by (subst scatter.simps) (simp add: RegionBreak_def del: scatter.simps)
  moreover have fr: "bail_frees [?f, ?g] badreg = [0, 0]"
    using assms(1,2) by (simp add: bail_frees_def xfreeData_def RegionBreak_def)
  moreover have "RegionValidate env badreg = bail [?f, ?g] badreg"
    using assms(1-5) ne sc by (simp add: RegionValidate_def)
  ultimately show ?thesis by (simp add: bail_def)
qed

section \<open>From the rectangles of a request\<close>

text \<open>The fields of a rectangle of the protocol: 16-bit corners, unsigned 16-bit sizes.\<close>

definition rect_ok :: "xRectangle \<Rightarrow> bool" where
  "rect_ok r \<longleftrightarrow> - 32768 \<le> rect_x r \<and> rect_x r \<le> MAXSHORT \<and> - 32768 \<le> rect_y r \<and> rect_y r \<le> MAXSHORT \<and>
     0 \<le> rect_width r \<and> 0 \<le> rect_height r"

definition rect_point :: "xRectangle \<Rightarrow> int \<Rightarrow> int \<Rightarrow> bool" where
  "rect_point r x y \<longleftrightarrow> rect_x r \<le> x \<and> x < rect_x r + rect_width r \<and> x < MAXSHORT \<and>
     rect_y r \<le> y \<and> y < rect_y r + rect_height r \<and> y < MAXSHORT"

lemma rect_box_ok: "rect_ok r \<Longrightarrow> box_not_empty (rect_box r) \<Longrightarrow> box_ok (rect_box r)"
  by (auto simp: rect_ok_def box_not_empty_def rect_box_def box_ok_def MAXSHORT_def split: if_splits)

lemma rect_box_point: "INBOX (rect_box r) x y \<longleftrightarrow> rect_point r x y"
  by (auto simp: INBOX_def rect_box_def rect_point_def)

lemma rect_point_not_empty: "rect_point r x y \<Longrightarrow> box_not_empty (rect_box r)"
  by (auto simp: rect_point_def box_not_empty_def rect_box_def split: if_splits)

lemma area_rects:
  "area (filter box_not_empty (map rect_box rs)) = {(x, y). \<exists>r \<in> set rs. rect_point r x y}"
  by (auto simp: area_def rect_box_point intro: rect_point_not_empty)

lemma rect_boxes_ok: "list_all rect_ok rs \<Longrightarrow> list_all box_ok (filter box_not_empty (map rect_box rs))"
  by (auto simp: list_all_iff rect_box_ok)

lemma memory_for_less:
  assumes "memory_for env n" "m \<le> n"
  shows "memory_for env m"
proof -
  have "m * m \<le> n * n" using assms(2) mult_le_mono by blast
  then have "2 * m * m + 2 \<le> 2 * n * n + 2" by simp
  then show ?thesis using assms room_mono unfolding memory_for_def by (meson add_le_mono1 le_trans mult_le_mono2)
qed

lemma memory_for_rects:
  assumes "memory_for env n"
  shows "rects_alloc env n"
proof -
  have "n * 1 \<le> n * n" by (cases n) auto
  moreover have "2 * (2 * n * n + 2) = 4 * (n * n) + 4" by simp
  ultimately have "n \<le> 2 * (2 * n * n + 2)" by linarith
  then show ?thesis using assms by (simp add: memory_for_def room_def)
qed

lemma RegionSetExtents_area: "data reg = RegHeap sz bs \<Longrightarrow> area (RegionRects (RegionSetExtents reg)) = area bs"
  by (auto simp: RegionSetExtents_def RegionRects_def Let_def)

text \<open>C38: \<open>RegionFromRects\<close> on any rectangles of a request, with memory for the work (the limit on the
  size of an array of boxes allows for about 8191 rectangles): it returns a
  region that contains exactly the points of the rectangles below
  the largest 16-bit coordinate; empty rectangles, repeated and overlapping ones included. This holds for
  every \<open>ctype\<close>; the code's own check accepts the region unless the client claimed the rectangles to be
  banded, a claim that is not verified.\<close>

theorem RegionFromRects_covers:
  assumes "list_all rect_ok prect" "region_mem env" "memory_for env (length prect)"
  shows "\<exists>reg. RegionFromRects env prect yxbanded = Done reg \<and>
    area (RegionRects reg) = {(x, y). \<exists>r \<in> set prect. rect_point r x y} \<and> (yxbanded \<or> RegionIsValid reg)"
proof -
  let ?new = "RegionCreate env None 0" and ?boxes = "filter box_not_empty (map rect_box prect)"
  have new: "?new = \<lparr>extents = RegionEmptyBox, data = RegionEmptyData\<rparr>"
    using assms(2) by (simp add: RegionCreate_def RegionInit_def)
  have empty: "area (RegionRects ?new) = {}" "RegionIsValid ?new" "\<not> RegionNar ?new"
    by (simp_all add: new RegionRects_def RegionIsValid_def RegionEmptyBox_def RegionNar_def)
  have ok: "list_all box_ok ?boxes" by (rule rect_boxes_ok [OF assms(1)])
  consider (none) "?boxes = []" | (one) "length prect = 1" "?boxes \<noteq> []" | (more) "prect \<noteq> []" "length prect \<noteq> 1" "?boxes \<noteq> []"
    by fastforce
  then show ?thesis
  proof cases
    case none
    have "RegionFromRects env prect yxbanded = Done ?new"
      using none empty(3) memory_for_rects [OF assms(3)] unfolding RegionFromRects_def Let_def none by simp
    moreover have "{(x, y). \<exists>r \<in> set prect. rect_point r x y} = {}" using area_rects [of prect] none by simp
    ultimately show ?thesis using empty by simp
  next
    case one
    obtain r where r: "prect = [r]" by (rule one_element [OF one(1)])
    then have b: "?boxes = [rect_box r]" using one(2) by (simp split: if_splits)
    have res: "RegionFromRects env prect yxbanded = Done \<lparr>extents = rect_box r, data = RegNull\<rparr>"
      using empty(3) r unfolding RegionFromRects_def Let_def b by simp
    have "box_ok (rect_box r)" using ok unfolding b by simp
    then have "RegionIsValid \<lparr>extents = rect_box r, data = RegNull\<rparr>"
      by (simp add: RegionIsValid_def RegionRects_def box_ok_def)
    then show ?thesis using res area_rects [of prect] unfolding b by (simp add: RegionRects_def)
  next
    case more
    let ?bad = "\<lparr>extents = RegionEmptyBox, data = RegHeap (length prect) ?boxes\<rparr>"
    have len: "length ?boxes \<le> length prect" using length_filter_le [of box_not_empty "map rect_box prect"] by simp
    have v: "\<not> b_x1 (extents ?bad) < b_x2 (extents ?bad)" by (simp add: RegionEmptyBox_def)
    have d: "data ?bad = RegHeap (length prect) ?boxes" "0 < length prect" using more(1) by simp_all
    show ?thesis
    proof (cases yxbanded)
      case True
      then have "RegionFromRects env prect yxbanded = Done (RegionSetExtents ?bad)"
        using more empty(3) memory_for_rects [OF assms(3)]
        unfolding RegionFromRects_def Let_def new by simp
      then show ?thesis using True area_rects [of prect] RegionSetExtents_area [OF d(1)] by simp
    next
      case False
    then have "RegionFromRects env prect yxbanded = (case RegionValidate env ?bad of
        DoubleFree \<Rightarrow> DoubleFree | Done (_, _, reg') \<Rightarrow> Done reg')"
      using more empty(3) memory_for_rects [OF assms(3)]
      unfolding RegionFromRects_def Let_def new by (simp add: RegionEmptyBox_def Box_def)
    moreover obtain ov reg where "RegionValidate env ?bad = Done (True, ov, reg)"
        "good (b_x1 ` set ?boxes) (b_y1 ` set ?boxes \<union> b_y2 ` set ?boxes) (area ?boxes) reg"
      using RegionValidate_union [OF d(1) more(3) d(2) _ v memory_for_less [OF assms(3) len]] ok
      by (auto simp: list_all_iff)
    ultimately show ?thesis using good_valid [of _ _ "area ?boxes" reg] area_rects [of prect] by simp
    qed
  qed
qed

text \<open>
  A client that promises banded rectangles skips the validation; one box left of several
  rectangles then stays in an array, which the code's check does not accept.
\<close>

lemma RegionFromRects_banded_single:
  assumes "filter box_not_empty (map rect_box prect) = [b]" "2 \<le> length prect"
    and "region_mem env" "rects_alloc env (length prect)"
  shows "\<exists>reg. RegionFromRects env prect True = Done reg \<and> RegionRects reg = [b] \<and> \<not> RegionIsValid reg"
proof -
  have new: "RegionCreate env None 0 = \<lparr>extents = RegionEmptyBox, data = RegionEmptyData\<rparr>"
    using assms(3) by (simp add: RegionCreate_def RegionInit_def)
  show ?thesis
    using assms(2,4) unfolding RegionFromRects_def Let_def new assms(1)
    by (auto simp: RegionNar_def RegionSetExtents_def Let_def RegionRects_def RegionIsValid_def)
qed

section \<open>Examples\<close>

definition demo_env :: region_env where
  "demo_env = \<lparr>rects_mem = (\<lambda>n. True), infos_mem = (\<lambda>n. True), region_mem = True\<rparr>"

definition demo_boxes :: "box list" where
  "demo_boxes = [Box 0 0 10 10, Box 5 5 15 15, Box 20 0 30 10]"

lemma demo_memory: "n \<le> 4 \<Longrightarrow> memory_for demo_env n"
proof -
  assume n: "n \<le> 4"
  have "memory_for demo_env 4"
    by (auto simp: memory_for_def room_def rects_alloc_def RegionSizeof_def demo_env_def)
  then show "memory_for demo_env n" using memory_for_less n by blast
qed

lemma RegionValidate_unites_witness:
  "\<exists>ov reg. RegionValidate demo_env \<lparr>extents = RegionEmptyBox, data = RegHeap 3 demo_boxes\<rparr> = Done (True, ov, reg) \<and>
    area (RegionRects reg) = area demo_boxes \<and> RegionIsValid reg"
  by (rule RegionValidate_unites [where sz = 3])
    (simp_all add: demo_boxes_def box_ok_def RegionEmptyBox_def demo_memory)

lemma RegionFromRects_covers_witness:
  "\<exists>reg. RegionFromRects demo_env [\<lparr>rect_x = 0, rect_y = 0, rect_width = 10, rect_height = 10\<rparr>,
      \<lparr>rect_x = 5, rect_y = 5, rect_width = 10, rect_height = 10\<rparr>] False = Done reg \<and>
    area (RegionRects reg) = {(x, y). \<exists>r \<in> set [\<lparr>rect_x = 0, rect_y = 0, rect_width = 10, rect_height = 10\<rparr>,
      \<lparr>rect_x = 5, rect_y = 5, rect_width = 10, rect_height = 10\<rparr>]. rect_point r x y} \<and> RegionIsValid reg"
proof -
  let ?rs = "[\<lparr>rect_x = 0, rect_y = 0, rect_width = 10, rect_height = 10\<rparr>, \<lparr>rect_x = 5, rect_y = 5, rect_width = 10, rect_height = 10\<rparr>]"
  have "list_all rect_ok ?rs" "region_mem demo_env" "memory_for demo_env (length ?rs)"
    by (simp_all add: rect_ok_def MAXSHORT_def demo_env_def demo_memory [unfolded demo_env_def])
  from RegionFromRects_covers [OF this, of False] show ?thesis by blast
qed

lemma demo_sorted: "QuickSortRects demo_boxes = [Box 0 0 10 10, Box 20 0 30 10, Box 5 5 15 15]"
  by code_simp

lemma RegionValidate_frees_twice_witness:
  "RegionValidate (demo_env\<lparr>rects_mem := (\<lambda>n. False)\<rparr>)
     \<lparr>extents = RegionEmptyBox, data = RegHeap 2 [Box 5 5 15 15, Box 0 0 10 10]\<rparr> = DoubleFree"
proof -
  have s: "QuickSortRects [Box 5 5 15 15, Box 0 0 10 10] = [Box 0 0 10 10, Box 5 5 15 15]" by code_simp
  show ?thesis
    using RegionValidate_frees_twice [where sz = 2, OF _ _ _ _ s, of "\<lparr>extents = RegionEmptyBox, data = RegHeap 2 [Box 5 5 15 15, Box 0 0 10 10]\<rparr>"
        "demo_env\<lparr>rects_mem := (\<lambda>n. False)\<rparr>"]
    by (auto simp: RegionEmptyBox_def demo_env_def rects_alloc_def simp del: scatter.simps)
qed

text \<open>Three boxes, two of them overlapping, become five in three bands.\<close>

lemma demo_validated:
  "RegionValidate demo_env \<lparr>extents = RegionEmptyBox, data = RegHeap 3 demo_boxes\<rparr> =
     Done (True, True, \<lparr>extents = Box 0 0 30 15,
       data = RegHeap 8 [Box 0 0 10 5, Box 20 0 30 5, Box 0 5 15 10, Box 20 5 30 10, Box 5 10 15 15]\<rparr>)"
  by code_simp

end
