(* ===== verification/Event_Queue.thy ===== *)
theory Event_Queue
  imports X_Prelude
begin

text \<open>
  \<open>mi/mieq.c\<close>: the queue between the drivers, which put events in as they happen, and the
  server, which takes them out when it processes input, and the delivery of an event to its slave
  device and to the master of that device. The two predicates on devices and \<open>GetMaster\<close> are those of
  \<open>dix/events.c\<close> and \<open>dix/devices.c\<close>.

  The queue is an array of slots used as a ring. Every slot owns a block of memory for its event; a
  block is an address, and the addresses that are allocated are part of the state, so that a queue
  whose blocks have been freed shows. What the rest of the server does when it is called (input
  processing procedures, custom handlers, cursor and screen saver code) is an arbitrary effect on
  the devices and screens; the calls are recorded in order.
\<close>

section \<open>Events and devices\<close>

datatype event_type =
    ET_None
  | ET_KeyPress | ET_KeyRelease | ET_ButtonPress | ET_ButtonRelease | ET_Motion
  | ET_TouchBegin | ET_TouchUpdate | ET_TouchEnd | ET_TouchOwnership
  | ET_Enter | ET_Leave | ET_FocusIn | ET_FocusOut | ET_ProximityIn | ET_ProximityOut
  | ET_DeviceChanged | ET_Hierarchy | ET_DGAEvent
  | ET_RawKeyPress | ET_RawKeyRelease | ET_RawButtonPress | ET_RawButtonRelease | ET_RawMotion
  | ET_RawTouchBegin | ET_RawTouchUpdate | ET_RawTouchEnd
  | ET_XQuartz | ET_BarrierHit | ET_BarrierLeave
  | ET_GesturePinchBegin | ET_GesturePinchUpdate | ET_GesturePinchEnd
  | ET_GestureSwipeBegin | ET_GestureSwipeUpdate | ET_GestureSwipeEnd

text \<open>
  The fields the queue looks at; \<open>ev_body\<close> stands for the others. \<open>ET_None\<close> is the type of a
  block of zeroes.
\<close>

record internal_event =
  ev_type :: event_type
  ev_time :: "32 word"
  ev_deviceid :: int
  ev_button :: nat
  ev_emulated :: bool
  ev_subtype :: event_type
  ev_root_x :: int
  ev_root_y :: int
  ev_body :: "byte list"

type_synonym dev = nat
type_synonym screen = nat

datatype dev_type = MASTER_POINTER | MASTER_KEYBOARD | SLAVE

datatype master_kind = KeyboardMaster | PointerMaster | MASTER_ATTACHED | KEYBOARD_OR_FLOAT | POINTER_OR_FLOAT

record device =
  d_id :: int
  d_type :: dev_type
  d_enabled :: bool
  d_master :: "dev option"
  d_paired :: "dev option"
  d_lastSlave :: "dev option"
  d_button_map :: "(nat \<Rightarrow> nat) option"
  d_sprite :: nat

record sprite =
  pEnqueueScreen :: "screen option"
  pDequeueScreen :: "screen option"

record input_world =
  devices :: "dev \<Rightarrow> device"
  sprites :: "nat \<Rightarrow> sprite"
  myNum :: "screen \<Rightarrow> int"
  saver_on :: bool
  dpms_mode_on :: bool

definition EnqueueScreen :: "input_world \<Rightarrow> dev \<Rightarrow> screen option" where
  "EnqueueScreen w d = pEnqueueScreen (sprites w (d_sprite (devices w d)))"

definition DequeueScreen :: "input_world \<Rightarrow> dev \<Rightarrow> screen option" where
  "DequeueScreen w d = pDequeueScreen (sprites w (d_sprite (devices w d)))"

definition InputDevIsMaster :: "input_world \<Rightarrow> dev \<Rightarrow> bool" where
  "InputDevIsMaster w d \<longleftrightarrow> d_type (devices w d) = MASTER_POINTER \<or> d_type (devices w d) = MASTER_KEYBOARD"

text \<open>
  The master of a device is a master device, so \<open>GetPairedDevice\<close> of it is the device it is paired
  with.
\<close>

definition GetMaster :: "input_world \<Rightarrow> dev \<Rightarrow> master_kind \<Rightarrow> dev option" where
  "GetMaster w d which =
     (if \<not> InputDevIsMaster w d \<and> d_master (devices w d) = None \<and>
         (which = POINTER_OR_FLOAT \<or> which = KEYBOARD_OR_FLOAT) then Some d
      else case (if InputDevIsMaster w d then Some d else d_master (devices w d)) of
             None \<Rightarrow> None
           | Some m \<Rightarrow>
               if which = MASTER_ATTACHED then Some m
               else if which = KeyboardMaster \<or> which = KEYBOARD_OR_FLOAT
               then if d_type (devices w m) \<noteq> MASTER_KEYBOARD then d_paired (devices w m) else Some m
               else if d_type (devices w m) \<noteq> MASTER_POINTER then d_paired (devices w m) else Some m)"

definition InputDevIsFloating :: "input_world \<Rightarrow> dev \<Rightarrow> bool" where
  "InputDevIsFloating w d \<longleftrightarrow> \<not> InputDevIsMaster w d \<and> GetMaster w d KeyboardMaster = None"

definition GetPairedDevice :: "input_world \<Rightarrow> dev \<Rightarrow> dev option" where
  "GetPairedDevice w d =
     (case (if \<not> InputDevIsMaster w d \<and> \<not> InputDevIsFloating w d then GetMaster w d MASTER_ATTACHED else Some d) of
        None \<Rightarrow> None | Some d' \<Rightarrow> d_paired (devices w d'))"

section \<open>The queue\<close>

definition QUEUE_INITIAL_SIZE :: nat where
  "QUEUE_INITIAL_SIZE = 512"

record eq_slot =
  s_block :: "nat option"
  s_event :: internal_event
  s_screen :: "screen option"
  s_dev :: "dev option"

record event_queue =
  head :: nat
  tail :: nat
  lastEventTime :: "32 word"
  lastMotion :: int
  events :: "eq_slot list"
  nevents :: nat
  dropped :: nat
  handlers :: "event_type \<Rightarrow> nat option"
  live_blocks :: "nat set"
  next_block :: nat

text \<open>Which allocations succeed: the array for a number of slots, and the block of a slot.\<close>

record eq_env =
  array_mem :: "nat \<Rightarrow> bool"
  list_mem :: "nat \<Rightarrow> bool"

datatype 'a outcome = Fine 'a | NullDeref | UseAfterFree

definition zero_event :: internal_event where
  "zero_event = \<lparr>ev_type = ET_None, ev_time = 0, ev_deviceid = 0, ev_button = 0, ev_emulated = False,
     ev_subtype = ET_None, ev_root_x = 0, ev_root_y = 0, ev_body = []\<rparr>"

definition mieqNumEnqueued :: "event_queue \<Rightarrow> nat" where
  "mieqNumEnqueued q =
     (if nevents q = 0 then 0
      else let n = nat (int (tail q) - int (head q) + int (nevents q))
           in if n \<ge> nevents q then n - nevents q else n)"

text \<open>
  Growing. Where a block for a new slot cannot be had, the blocks of all slots filled in so far are
  freed, those that the old array still refers to among them.
\<close>

definition new_slots :: "nat \<Rightarrow> nat \<Rightarrow> eq_slot list" where
  "new_slots start n = map (\<lambda>b. \<lparr>s_block = Some b, s_event = zero_event, s_screen = None, s_dev = None\<rparr>) [start..<start + n]"

definition slot_blocks :: "eq_slot list \<Rightarrow> nat set" where
  "slot_blocks ss = set (List.map_filter s_block ss)"

definition mieqGrowQueue :: "eq_env \<Rightarrow> nat \<Rightarrow> event_queue \<Rightarrow> bool \<times> event_queue" where
  "mieqGrowQueue env new_nevents q =
     (if new_nevents \<le> nevents q then (False, q)
      else if \<not> array_mem env new_nevents then (False, q)
      else
        let n_enqueued = mieqNumEnqueued q;
            moved = drop (head q) (events q) @ take (head q) (events q);
            added = new_nevents - nevents q
        in if \<not> list_all (list_mem env) [nevents q..<new_nevents]
           then (False, q\<lparr>live_blocks := live_blocks q - slot_blocks moved\<rparr>)
           else (True, q\<lparr>tail := n_enqueued, head := 0, nevents := new_nevents,
                         events := moved @ new_slots (next_block q) added,
                         live_blocks := live_blocks q \<union> {next_block q..<next_block q + added},
                         next_block := next_block q + added\<rparr>))"

text \<open>\<open>None\<close> is the fatal error where the first array cannot be had.\<close>

definition mieqInit :: "eq_env \<Rightarrow> 32 word \<Rightarrow> nat \<Rightarrow> event_queue option" where
  "mieqInit env now block =
     (case mieqGrowQueue env QUEUE_INITIAL_SIZE
             \<lparr>head = 0, tail = 0, lastEventTime = now, lastMotion = 0, events = [], nevents = 0, dropped = 0,
              handlers = (\<lambda>t. None), live_blocks = {}, next_block = block\<rparr> of
        (True, q) \<Rightarrow> Some q | (False, _) \<Rightarrow> None)"

definition mieqFini :: "event_queue \<Rightarrow> event_queue" where
  "mieqFini q = q\<lparr>events := map (\<lambda>s. s\<lparr>s_block := None\<rparr>) (events q),
     live_blocks := live_blocks q - slot_blocks (events q)\<rparr>"

text \<open>Storing an event in a slot.\<close>

definition store_event ::
    "input_world \<Rightarrow> dev option \<Rightarrow> internal_event \<Rightarrow> int \<Rightarrow> nat \<Rightarrow> event_queue \<Rightarrow> (event_queue \<times> internal_event) outcome" where
  "store_event w pDev e isMotion at q =
     (let slot = events q ! at
      in case s_block slot of
           None \<Rightarrow> NullDeref
         | Some b \<Rightarrow>
             if b \<notin> live_blocks q then UseAfterFree
             else
               let e' = (if ev_time e < lastEventTime q \<and> lastEventTime q - ev_time e < 10000
                         then e\<lparr>ev_time := lastEventTime q\<rparr> else e);
                   slot' = slot\<lparr>s_event := e,
                                s_screen := (case pDev of None \<Rightarrow> None | Some d \<Rightarrow> EnqueueScreen w d),
                                s_dev := pDev\<rparr>
               in Fine (q\<lparr>events := (events q)[at := slot'], lastEventTime := ev_time e,
                          lastMotion := isMotion, tail := (at + 1) mod nevents q\<rparr>, e'))"

definition mieqEnqueue ::
    "eq_env \<Rightarrow> input_world \<Rightarrow> dev option \<Rightarrow> internal_event \<Rightarrow> event_queue \<Rightarrow> (event_queue \<times> internal_event) outcome" where
  "mieqEnqueue env w pDev e q =
     (if ev_type e = ET_Motion \<and> pDev = None then NullDeref
      else
        let isMotion = (if ev_type e = ET_Motion then d_id (devices w (the pDev)) else 0)
        in if isMotion \<noteq> 0 \<and> isMotion = lastMotion q \<and> tail q \<noteq> head q
           then store_event w pDev e isMotion (unat (word_of_nat (tail q) - 1 :: 32 word) mod nevents q) q
           else if mieqNumEnqueued q + 1 = nevents q
           then case mieqGrowQueue env (nevents q * 2) q of
                  (False, q') \<Rightarrow> Fine (q'\<lparr>dropped := dropped q' + 1\<rparr>, e)
                | (True, q') \<Rightarrow> store_event w pDev e isMotion (tail q') q'
           else store_event w pDev e isMotion (tail q) q)"

definition mieqSetHandler :: "event_type \<Rightarrow> nat option \<Rightarrow> event_queue \<Rightarrow> event_queue" where
  "mieqSetHandler event handler q = q\<lparr>handlers := (handlers q)(event := handler)\<rparr>"

definition mieqSwitchScreen :: "dev \<Rightarrow> screen option \<Rightarrow> bool \<Rightarrow> input_world \<Rightarrow> input_world" where
  "mieqSwitchScreen pDev pScreen set_dequeue_screen w =
     (let i = d_sprite (devices w pDev);
          sp = (sprites w i)\<lparr>pEnqueueScreen := pScreen\<rparr>;
          sp' = (if set_dequeue_screen then sp\<lparr>pDequeueScreen := pScreen\<rparr> else sp)
      in w\<lparr>sprites := (sprites w)(i := sp')\<rparr>)"

section \<open>Delivery\<close>

text \<open>The calls into the rest of the server, in order, and their effect on the world.\<close>

datatype input_call =
    ProcessInput dev internal_event
  | CustomHandler nat int internal_event "dev option"
  | NewCurrentScreen dev screen int int
  | SaveScreensOff
  | ScreenSaverTimer
  | DPMSOn
  | UpdateSprite dev
  | Drained

record input_run =
  world :: input_world
  calls :: "input_call list"

definition do_call :: "(input_call \<Rightarrow> input_world \<Rightarrow> input_world) \<Rightarrow> input_call \<Rightarrow> input_run \<Rightarrow> input_run" where
  "do_call eff c r = \<lparr>world = eff c (world r), calls = calls r @ [c]\<rparr>"

definition has_deviceid :: "event_type \<Rightarrow> bool" where
  "has_deviceid t \<longleftrightarrow> t \<in> {ET_Motion, ET_KeyPress, ET_KeyRelease, ET_ButtonPress, ET_ButtonRelease,
     ET_ProximityIn, ET_ProximityOut, ET_Hierarchy, ET_DeviceChanged, ET_TouchBegin, ET_TouchUpdate,
     ET_TouchEnd, ET_TouchOwnership, ET_RawKeyPress, ET_RawKeyRelease, ET_RawButtonPress,
     ET_RawButtonRelease, ET_RawMotion, ET_RawTouchBegin, ET_RawTouchEnd, ET_RawTouchUpdate,
     ET_BarrierHit, ET_BarrierLeave, ET_GesturePinchBegin, ET_GesturePinchUpdate, ET_GesturePinchEnd,
     ET_GestureSwipeBegin, ET_GestureSwipeUpdate, ET_GestureSwipeEnd}"

definition ChangeDeviceID :: "device \<Rightarrow> internal_event \<Rightarrow> internal_event" where
  "ChangeDeviceID d e = (if has_deviceid (ev_type e) then e\<lparr>ev_deviceid := d_id d\<rparr> else e)"

definition FixUpEventForMaster :: "device \<Rightarrow> internal_event \<Rightarrow> internal_event \<Rightarrow> internal_event" where
  "FixUpEventForMaster sdev original master =
     (if ev_type original = ET_ButtonPress \<or> ev_type original = ET_ButtonRelease
      then case d_button_map sdev of
             None \<Rightarrow> master
           | Some m \<Rightarrow> master\<lparr>ev_button := m (ev_button original)\<rparr>
      else master)"

definition master_type_for :: "event_type \<Rightarrow> master_kind" where
  "master_type_for t =
     (if t = ET_KeyPress \<or> t = ET_KeyRelease then KeyboardMaster
      else if t = ET_ButtonPress \<or> t = ET_ButtonRelease \<or> t = ET_Motion \<or> t = ET_ProximityIn \<or> t = ET_ProximityOut
      then PointerMaster
      else MASTER_ATTACHED)"

text \<open>The master and its copy of the event; \<open>Fine None\<close> where the device has no master.\<close>

definition CopyGetMasterEvent :: "input_world \<Rightarrow> dev option \<Rightarrow> internal_event \<Rightarrow> (dev \<times> internal_event) option outcome" where
  "CopyGetMasterEvent w sdev original =
     (case sdev of
        None \<Rightarrow> Fine None
      | Some s \<Rightarrow>
          if InputDevIsMaster w s \<or> InputDevIsFloating w s then Fine None
          else
            let type = (if ev_type original = ET_DGAEvent then ev_subtype original else ev_type original)
            in case GetMaster w s (master_type_for type) of
                 None \<Rightarrow> NullDeref
               | Some m \<Rightarrow> Fine (Some (m, FixUpEventForMaster (devices w s) original
                                          (ChangeDeviceID (devices w m) original))))"

definition mieqMoveToNewScreen ::
    "(input_call \<Rightarrow> input_world \<Rightarrow> input_world) \<Rightarrow> dev option \<Rightarrow> screen option \<Rightarrow> internal_event \<Rightarrow> input_run \<Rightarrow> input_run" where
  "mieqMoveToNewScreen eff dev scr event r =
     (case (dev, scr) of
        (Some d, Some s) \<Rightarrow>
          if DequeueScreen (world r) d \<noteq> Some s
          then
            let w = world r; i = d_sprite (devices w d);
                w' = w\<lparr>sprites := (sprites w)(i := (sprites w i)\<lparr>pDequeueScreen := Some s\<rparr>)\<rparr>
            in do_call eff (NewCurrentScreen d s (ev_root_x event) (ev_root_y event)) (r\<lparr>world := w'\<rparr>)
          else r
      | _ \<Rightarrow> r)"

definition moves_screen :: "internal_event \<Rightarrow> bool" where
  "moves_screen e \<longleftrightarrow>
     ev_type e \<in> {ET_Motion, ET_KeyPress, ET_KeyRelease, ET_ButtonPress, ET_ButtonRelease} \<or>
     ev_type e \<in> {ET_TouchBegin, ET_TouchUpdate, ET_TouchEnd} \<and> ev_emulated e"

definition set_lastSlave :: "dev \<Rightarrow> dev \<Rightarrow> input_world \<Rightarrow> input_world" where
  "set_lastSlave m d w = w\<lparr>devices := (devices w)(m := (devices w m)\<lparr>d_lastSlave := Some d\<rparr>)\<rparr>"

definition mieqProcessDeviceEvent ::
    "(input_call \<Rightarrow> input_world \<Rightarrow> input_world) \<Rightarrow> (event_type \<Rightarrow> nat option) \<Rightarrow> dev option \<Rightarrow> internal_event \<Rightarrow>
     screen option \<Rightarrow> input_run \<Rightarrow> input_run outcome" where
  "mieqProcessDeviceEvent eff hs dev event scr r =
     (if (case dev of Some d \<Rightarrow> \<not> d_enabled (devices (world r) d) | None \<Rightarrow> False) then Fine r
      else
        let handler = hs (ev_type event);
            r1 = (if moves_screen event \<and> handler = None then mieqMoveToNewScreen eff dev scr event r else r)
        in case CopyGetMasterEvent (world r1) dev event of
             NullDeref \<Rightarrow> NullDeref
           | UseAfterFree \<Rightarrow> UseAfterFree
           | Fine mas \<Rightarrow>
               let r2 = (case (mas, dev) of
                           (Some (m, _), Some d) \<Rightarrow> r1\<lparr>world := set_lastSlave m d (world r1)\<rparr>
                         | _ \<Rightarrow> r1)
               in case handler of
                    Some h \<Rightarrow>
                      let screenNum =
                            (case (case dev of None \<Rightarrow> None | Some d \<Rightarrow> DequeueScreen (world r2) d) of
                               Some s \<Rightarrow> myNum (world r2) s
                             | None \<Rightarrow> (case scr of Some s \<Rightarrow> myNum (world r2) s | None \<Rightarrow> 0));
                          r3 = do_call eff (CustomHandler h screenNum event dev) r2
                      in (case (mas, dev) of
                            (Some (m, mevent), Some d) \<Rightarrow>
                              Fine (if \<not> InputDevIsFloating (world r3) d
                                    then do_call eff (CustomHandler h screenNum mevent (Some m)) r3 else r3)
                          | _ \<Rightarrow> Fine r3)
                  | None \<Rightarrow>
                      (case dev of
                         None \<Rightarrow> NullDeref
                       | Some d \<Rightarrow>
                           let r3 = do_call eff (ProcessInput d event) r2
                           in Fine (case mas of
                                      Some (m, mevent) \<Rightarrow>
                                        if \<not> InputDevIsFloating (world r3) d
                                        then do_call eff (ProcessInput m mevent) r3 else r3
                                    | None \<Rightarrow> r3)))"

text \<open>What happens with one event taken from the queue, while the lock is not held.\<close>

definition deliver_slot ::
    "(input_call \<Rightarrow> input_world \<Rightarrow> input_world) \<Rightarrow> (event_type \<Rightarrow> nat option) \<Rightarrow> eq_slot \<Rightarrow> input_run \<Rightarrow> input_run outcome" where
  "deliver_slot eff hs slot r =
     (let event = s_event slot; dev = s_dev slot;
          master = (case dev of None \<Rightarrow> None | Some d \<Rightarrow> GetMaster (world r) d MASTER_ATTACHED);
          r1 = (if saver_on (world r) then do_call eff SaveScreensOff r
                else if \<not> dpms_mode_on (world r) then do_call eff ScreenSaverTimer r else r);
          r2 = (if \<not> dpms_mode_on (world r1) then do_call eff DPMSOn r1 else r1)
      in case mieqProcessDeviceEvent eff hs dev event (s_screen slot) r2 of
           Fine r3 \<Rightarrow>
             Fine (if master \<noteq> None \<and>
                      (ev_type event = ET_Motion \<or>
                       (ev_type event = ET_TouchBegin \<or> ev_type event = ET_TouchUpdate) \<and> ev_emulated event)
                   then do_call eff (UpdateSprite (the dev)) r3 else r3)
         | NullDeref \<Rightarrow> NullDeref
         | UseAfterFree \<Rightarrow> UseAfterFree)"

text \<open>Events put in by others while one is delivered.\<close>

fun enqueue_all ::
    "eq_env \<Rightarrow> input_world \<Rightarrow> (dev option \<times> internal_event) list \<Rightarrow> event_queue \<Rightarrow> event_queue outcome" where
  "enqueue_all env w [] q = Fine q"
| "enqueue_all env w ((d, e) # es) q =
     (case mieqEnqueue env w d e q of
        Fine (q', _) \<Rightarrow> enqueue_all env w es q'
      | NullDeref \<Rightarrow> NullDeref
      | UseAfterFree \<Rightarrow> UseAfterFree)"

text \<open>
  The loop: \<open>arrivals k\<close> are the events put in during its turn \<open>k\<close>. It may never end, then its value
  is \<open>None\<close>.
\<close>

definition loop_turn ::
    "eq_env \<Rightarrow> (input_call \<Rightarrow> input_world \<Rightarrow> input_world) \<Rightarrow> (dev option \<times> internal_event) list \<Rightarrow>
     event_queue \<Rightarrow> input_run \<Rightarrow> (event_queue \<times> input_run) outcome" where
  "loop_turn env eff arriving q r =
     (let slot = events q ! head q;
          q1 = q\<lparr>head := (head q + 1) mod nevents q\<rparr>
      in case s_block slot of
           None \<Rightarrow> NullDeref
         | Some b \<Rightarrow>
             if b \<notin> live_blocks q then UseAfterFree
             else
               (case deliver_slot eff (handlers q) slot r of
                  NullDeref \<Rightarrow> NullDeref
                | UseAfterFree \<Rightarrow> UseAfterFree
                | Fine r1 \<Rightarrow>
                    (case enqueue_all env (world r1) arriving q1 of
                       NullDeref \<Rightarrow> NullDeref
                     | UseAfterFree \<Rightarrow> UseAfterFree
                     | Fine q2 \<Rightarrow> Fine (q2, r1))))"

partial_function (option) process_loop ::
    "eq_env \<Rightarrow> (input_call \<Rightarrow> input_world \<Rightarrow> input_world) \<Rightarrow> (nat \<Rightarrow> (dev option \<times> internal_event) list) \<Rightarrow> nat \<Rightarrow>
     event_queue \<Rightarrow> input_run \<Rightarrow> (event_queue \<times> input_run) outcome option" where
  "process_loop env eff arrivals k q r =
     (if head q = tail q then Some (Fine (q, r))
      else (case loop_turn env eff (arrivals k) q r of
              NullDeref \<Rightarrow> Some NullDeref
            | UseAfterFree \<Rightarrow> Some UseAfterFree
            | Fine (q2, r2) \<Rightarrow> process_loop env eff arrivals (Suc k) q2 r2))"

definition mieqProcessInputEvents ::
    "eq_env \<Rightarrow> (input_call \<Rightarrow> input_world \<Rightarrow> input_world) \<Rightarrow> (nat \<Rightarrow> (dev option \<times> internal_event) list) \<Rightarrow>
     event_queue \<Rightarrow> input_run \<Rightarrow> (event_queue \<times> input_run) outcome option" where
  "mieqProcessInputEvents env eff arrivals q r =
     (case process_loop env eff arrivals 0 (q\<lparr>dropped := 0\<rparr>) r of
        Some (Fine (q', r')) \<Rightarrow> Some (Fine (q', do_call eff Drained r'))
      | res \<Rightarrow> res)"

end
