(* ===== verification/Event_Queue_Laws.thy ===== *)
theory Event_Queue_Laws
  imports Event_Queue
begin

text \<open>
  The ring of slots stands for the list of the events that wait in it. Putting an event in appends
  it, or replaces the last one where that is a motion of the same device; taking one out removes the
  first. The processing loop empties the queue in order, and it returns once no more events come in.
\<close>

section \<open>Rings\<close>

definition ring :: "'a list \<Rightarrow> nat \<Rightarrow> nat \<Rightarrow> 'a list" where
  "ring xs h n = map (\<lambda>i. xs ! ((h + i) mod length xs)) [0..<n]"

lemma length_ring [simp]: "length (ring xs h n) = n"
  by (simp add: ring_def)

lemma ring_0 [simp]: "ring xs h 0 = []"
  by (simp add: ring_def)

lemma ring_Suc: "ring xs h (Suc n) = ring xs h n @ [xs ! ((h + n) mod length xs)]"
  by (simp add: ring_def)

lemma ring_first: "h < length xs \<Longrightarrow> ring xs h (Suc n) = xs ! h # ring xs ((h + 1) mod length xs) n"
  by (rule nth_equalityI) (auto simp: ring_def nth_Cons mod_simps split: nat.splits simp del: upt_Suc)

lemma other_place: "i < n \<Longrightarrow> n < N \<Longrightarrow> (h + i) mod N \<noteq> (h + n) mod N" for h :: nat
proof
  assume a: "i < n" "n < N" "(h + i) mod N = (h + n) mod N"
  then have "N dvd n - i" using mod_eq_dvd_iff_nat [of "h + i" "h + n" N] by auto
  then show False using a(1,2) by (auto dest: dvd_imp_le)
qed

lemma ring_update_end:
  assumes "n < length xs"
  shows "ring (xs[(h + n) mod length xs := x]) h (Suc n) = ring xs h n @ [x]"
proof -
  have "(h + n) mod length xs < length xs" by (rule mod_less_divisor) (use assms in linarith)
  moreover have "xs[(h + n) mod length xs := x] ! ((h + i) mod length xs) = xs ! ((h + i) mod length xs)" if "i < n" for i
    using other_place [OF that assms, of h] by simp
  ultimately show ?thesis by (simp add: ring_def)
qed

lemma ring_rotated:
  assumes "h < length xs" "n \<le> length xs"
  shows "ring (drop h xs @ take h xs @ ys) 0 n = ring xs h n"
proof (rule nth_equalityI)
  fix i assume "i < length (ring (drop h xs @ take h xs @ ys) 0 n)"
  then have i: "i < n" by simp
  have l: "length (drop h xs @ take h xs @ ys) = length xs + length ys" using assms(1) by simp
  have "(h + i) mod length xs = (if h + i < length xs then h + i else h + i - length xs)"
    using i assms by (simp add: mod_if)
  then show "ring (drop h xs @ take h xs @ ys) 0 n ! i = ring xs h n ! i"
    using i assms unfolding ring_def l by (auto simp: nth_append add.commute)
qed simp

lemma ring_butlast: "ring xs h n = butlast (ring xs h (Suc n))"
  by (simp add: ring_Suc)

section \<open>The queue as a list\<close>

definition slot_item :: "eq_slot \<Rightarrow> dev option \<times> screen option \<times> internal_event" where
  "slot_item s = (s_dev s, s_screen s, s_event s)"

definition pending :: "event_queue \<Rightarrow> (dev option \<times> screen option \<times> internal_event) list" where
  "pending q = map slot_item (ring (events q) (head q) (mieqNumEnqueued q))"

text \<open>The number of slots stays a power of two below the range of the 32-bit index type.\<close>

definition eq_inv :: "event_queue \<Rightarrow> bool" where
  "eq_inv q \<longleftrightarrow> (\<exists>k \<le> 22. nevents q = 2 ^ (9 + k)) \<and> length (events q) = nevents q \<and>
     head q < nevents q \<and> tail q < nevents q \<and>
     list_all (\<lambda>s. \<exists>b \<in> live_blocks q. s_block s = Some b) (events q) \<and>
     distinct (map s_block (events q)) \<and> (\<forall>b \<in> live_blocks q. b < next_block q)"

lemma eq_inv_pos: "eq_inv q \<Longrightarrow> 0 < nevents q"
  by (auto simp: eq_inv_def)

lemma eq_inv_block:
  assumes "eq_inv q" "i < nevents q"
  obtains b where "s_block (events q ! i) = Some b" "b \<in> live_blocks q"
  using assms by (auto simp: eq_inv_def list_all_length)

lemma num_enqueued:
  assumes "eq_inv q"
  shows "mieqNumEnqueued q < nevents q" "tail q = (head q + mieqNumEnqueued q) mod nevents q"
    "mieqNumEnqueued q = 0 \<longleftrightarrow> head q = tail q"
proof -
  have b: "head q < nevents q" "tail q < nevents q" "0 < nevents q" using assms by (auto simp: eq_inv_def)
  have n: "mieqNumEnqueued q = (if head q \<le> tail q then tail q - head q else tail q + nevents q - head q)"
    using b by (auto simp: mieqNumEnqueued_def Let_def nat_diff_distrib nat_add_distrib)
  show "mieqNumEnqueued q < nevents q" "mieqNumEnqueued q = 0 \<longleftrightarrow> head q = tail q" using b n by auto
  show "tail q = (head q + mieqNumEnqueued q) mod nevents q" using b n by (auto simp: mod_if)
qed

lemma num_enqueued_unique:
  assumes "head q < nevents q" "n < nevents q" "tail q = (head q + n) mod nevents q"
  shows "mieqNumEnqueued q = n"
proof -
  have "tail q = (if head q + n < nevents q then head q + n else head q + n - nevents q)"
    using assms by (auto simp: mod_if)
  then show ?thesis
    using assms(1,2) by (auto simp: mieqNumEnqueued_def Let_def nat_diff_distrib nat_add_distrib)
qed

text \<open>The slot before the tail, which the code finds in 32-bit unsigned arithmetic.\<close>

lemma slot_before_tail:
  assumes "eq_inv q" "mieqNumEnqueued q = Suc n"
  shows "unat (word_of_nat (tail q) - 1 :: 32 word) mod nevents q = (head q + n) mod nevents q"
proof -
  obtain k where k: "k \<le> 22" "nevents q = 2 ^ (9 + k)" using assms(1) by (auto simp: eq_inv_def)
  have p: "(2::nat) ^ (9 + k) \<le> 2 ^ 31" by (rule power_increasing) (use k in auto)
  have t: "tail q < nevents q" "tail q = (head q + Suc n) mod nevents q"
    using num_enqueued(2) [OF assms(1)] assms by (auto simp: eq_inv_def)
  show ?thesis
  proof (cases "tail q = 0")
    case True
    have d: "nevents q dvd 2 ^ 32" unfolding k(2) by (rule le_imp_power_dvd) (use k in auto)
    have "nevents q dvd head q + Suc n" using t True by (simp add: mod_eq_0_iff_dvd)
    then have "(head q + n) mod nevents q = nevents q - 1"
      using eq_inv_pos [OF assms(1)] mod_Suc [of "head q + n" "nevents q"] by (auto split: if_splits)
    moreover have "(2 ^ 32 - 1) mod nevents q = nevents q - 1"
      using d eq_inv_pos [OF assms(1)] mod_Suc [of "2 ^ 32 - 1" "nevents q"] by (auto split: if_splits)
    moreover have "unat (word_of_nat (tail q) - 1 :: 32 word) = 2 ^ 32 - 1"
      by (simp add: True unsigned_minus_1_eq_mask mask_eq_exp_minus_1)
    ultimately show ?thesis by simp
  next
    case False
    have w: "unat (word_of_nat (tail q) :: 32 word) = tail q"
      using t(1) k(2) p by (simp add: unat_of_nat take_bit_nat_def)
    then have "unat (word_of_nat (tail q) - 1 :: 32 word) = tail q - 1"
      using False unat_minus_one [of "word_of_nat (tail q) :: 32 word"] by (metis unat_0)
    moreover have "tail q = Suc ((head q + n) mod nevents q)"
      using t(2) False mod_Suc [of "head q + n" "nevents q"] by (auto split: if_splits)
    ultimately show ?thesis by simp
  qed
qed

section \<open>Storing\<close>

text \<open>Storing in the slot at the end of the first \<open>n\<close> leaves these and adds the new event behind them.\<close>

lemma store_event_ok:
  assumes inv: "eq_inv q" and n: "Suc n < nevents q" and at: "at = (head q + n) mod nevents q"
  shows "\<exists>q' e'. store_event w d e m at q = Fine (q', e') \<and> eq_inv q' \<and> lastMotion q' = m \<and>
    handlers q' = handlers q \<and> nevents q' = nevents q \<and> mieqNumEnqueued q' = Suc n \<and>
    pending q' = map slot_item (ring (events q) (head q) n) @
      [(d, case d of None \<Rightarrow> None | Some x \<Rightarrow> EnqueueScreen w x, e)]"
proof -
  let ?N = "nevents q" and ?x = "(d, case d of None \<Rightarrow> None | Some x \<Rightarrow> EnqueueScreen w x, e)"
  have len: "length (events q) = ?N" and h: "head q < ?N" using inv by (simp_all add: eq_inv_def)
  have lt: "at < ?N" unfolding at using eq_inv_pos [OF inv] by simp
  obtain b where b: "s_block (events q ! at) = Some b" "b \<in> live_blocks q" by (rule eq_inv_block [OF inv lt])
  define slot where "slot = (events q ! at)\<lparr>s_event := e,
    s_screen := (case d of None \<Rightarrow> None | Some x \<Rightarrow> EnqueueScreen w x), s_dev := d\<rparr>"
  define q' where "q' = q\<lparr>events := (events q)[at := slot], lastEventTime := ev_time e, lastMotion := m,
    tail := (at + 1) mod ?N\<rparr>"
  have blocks: "map s_block (events q') = map s_block (events q)"
    using lt len by (auto simp: q'_def slot_def map_update intro: list_update_same_conv [THEN iffD2])
  have "list_all (\<lambda>s. \<exists>b \<in> live_blocks q. s_block s = Some b) (events q')"
    using inv b lt len by (auto simp: q'_def slot_def eq_inv_def list_all_length nth_list_update)
  then have inv': "eq_inv q'"
    using inv blocks lt by (auto simp: eq_inv_def q'_def)
  have "tail q' = (head q' + Suc n) mod nevents q'" by (simp add: q'_def at mod_simps)
  then have num: "mieqNumEnqueued q' = Suc n"
    using num_enqueued_unique [of q' "Suc n"] h n by (simp add: q'_def)
  have "ring (events q') (head q') (Suc n) = ring (events q) (head q) n @ [slot]"
    using ring_update_end [of n "events q" "head q" slot] n len by (simp add: q'_def at)
  then have pend: "pending q' = map slot_item (ring (events q) (head q) n) @ [?x]"
    by (simp add: pending_def num slot_def slot_item_def)
  have "\<exists>e'. store_event w d e m at q = Fine (q', e')"
    using b by (simp add: store_event_def Let_def q'_def slot_def)
  then show ?thesis using inv' num pend by (auto simp: q'_def)
qed

section \<open>Growing\<close>

text \<open>The allocations: no array beyond the index type, and blocks for the slots of an array that was had.\<close>

definition eq_env_ok :: "eq_env \<Rightarrow> bool" where
  "eq_env_ok env \<longleftrightarrow> (\<forall>n. array_mem env n \<longrightarrow> n \<le> 2 ^ 31) \<and> (\<forall>i. list_mem env i)"

lemma new_slots_simps [simp]:
  "length (new_slots b n) = n" "map s_block (new_slots b n) = map Some [b..<b + n]"
  by (simp_all add: new_slots_def)

lemma rotated_set: "set (drop h xs @ take h xs) = set xs"
proof -
  have "set (drop h xs @ take h xs) = set (take h xs @ drop h xs)" by (simp only: set_append Un_commute)
  then show ?thesis by simp
qed

lemma rotated_distinct: "distinct (drop h xs @ take h xs) = distinct xs"
proof -
  have "distinct (drop h xs @ take h xs) = distinct (take h xs @ drop h xs)" by (auto simp only: distinct_append)
  then show ?thesis by simp
qed

lemma mieqGrowQueue_ok:
  assumes inv: "eq_inv q" and env: "eq_env_ok env"
  shows "case mieqGrowQueue env (nevents q * 2) q of
      (False, q') \<Rightarrow> q' = q
    | (True, q') \<Rightarrow> eq_inv q' \<and> nevents q' = nevents q * 2 \<and> head q' = 0 \<and> mieqNumEnqueued q' = mieqNumEnqueued q \<and>
        tail q' = mieqNumEnqueued q \<and> pending q' = pending q \<and> lastMotion q' = lastMotion q \<and> handlers q' = handlers q"
proof (cases "array_mem env (nevents q * 2)")
  case False
  then show ?thesis by (simp add: mieqGrowQueue_def)
next
  case True
  let ?N = "nevents q" and ?n = "mieqNumEnqueued q" and ?b = "next_block q"
  let ?moved = "drop (head q) (events q) @ take (head q) (events q)"
  have len: "length (events q) = ?N" and h: "head q < ?N" using inv by (simp_all add: eq_inv_def)
  obtain k where k: "k \<le> 22" "?N = 2 ^ (9 + k)" using inv by (auto simp: eq_inv_def)
  have "?N * 2 \<le> 2 ^ 31" using True env by (simp add: eq_env_ok_def)
  moreover have "?N * 2 = 2 ^ (9 + Suc k)" unfolding k(2) add_Suc_right by (rule power_Suc2 [symmetric])
  ultimately have "(2::nat) ^ (9 + Suc k) \<le> 2 ^ 31" by simp
  then have "9 + Suc k \<le> 31" using power_le_imp_le_exp [of "2::nat" "9 + Suc k" 31] by simp
  then have size: "\<exists>k \<le> 22. ?N * 2 = 2 ^ (9 + k)" using \<open>?N * 2 = 2 ^ (9 + Suc k)\<close> by (intro exI [of _ "Suc k"]) simp
  define q' where "q' = q\<lparr>tail := ?n, head := 0, nevents := ?N * 2, events := ?moved @ new_slots ?b ?N,
    live_blocks := live_blocks q \<union> {?b..<?b + ?N}, next_block := ?b + ?N\<rparr>"
  have g: "mieqGrowQueue env (?N * 2) q = (True, q')"
    using True env eq_inv_pos [OF inv] by (simp add: mieqGrowQueue_def Let_def q'_def eq_env_ok_def list_all_iff)
  have n: "?n < ?N" by (rule num_enqueued(1) [OF inv])
  have num: "mieqNumEnqueued q' = ?n"
    by (rule num_enqueued_unique) (use n in \<open>simp_all add: q'_def\<close>)
  have lenm: "length ?moved = ?N" using len h by simp
  have all: "list_all (\<lambda>s. \<exists>b \<in> live_blocks q'. s_block s = Some b) (events q')"
  proof -
    have "\<forall>s \<in> set (events q). \<exists>b \<in> live_blocks q. s_block s = Some b" using inv by (simp add: eq_inv_def list_all_iff)
    then have "\<forall>s \<in> set ?moved. \<exists>b \<in> live_blocks q'. s_block s = Some b"
      unfolding rotated_set by (auto simp: q'_def)
    moreover have "\<forall>s \<in> set (new_slots ?b ?N). \<exists>b \<in> live_blocks q'. s_block s = Some b"
      by (auto simp: new_slots_def q'_def)
    ultimately show ?thesis by (auto simp: q'_def list_all_iff)
  qed
  have old: "s_block s \<noteq> Some b" if "s \<in> set (events q)" "?b \<le> b" for s b
    using that inv by (fastforce simp: eq_inv_def list_all_iff)
  have "distinct (map s_block ?moved)"
    using rotated_distinct [of "head q" "map s_block (events q)"] inv by (simp add: eq_inv_def drop_map take_map)
  moreover have "set (map s_block ?moved) \<inter> set (map Some [?b..<?b + ?N]) = {}"
    unfolding set_map rotated_set using old by fastforce
  moreover have "distinct (map Some [?b..<?b + ?N])" by (simp add: distinct_map)
  ultimately have "distinct (map s_block ?moved @ map Some [?b..<?b + ?N])" by (subst distinct_append) blast
  moreover have "map s_block (events q') = map s_block ?moved @ map Some [?b..<?b + ?N]" by (simp add: q'_def)
  ultimately have dist: "distinct (map s_block (events q'))" by simp
  have inv': "eq_inv q'"
    using size all dist n inv lenm unfolding eq_inv_def by (auto simp: q'_def)
  have "ring (events q') 0 ?n = ring (events q) (head q) ?n"
    using ring_rotated [of "head q" "events q" ?n "new_slots ?b ?N"] h n len by (simp add: q'_def)
  then have "pending q' = pending q" unfolding pending_def num by (simp add: q'_def)
  then show ?thesis using g inv' num by (simp add: q'_def)
qed

section \<open>Putting in\<close>

definition new_item :: "input_world \<Rightarrow> dev option \<Rightarrow> internal_event \<Rightarrow> dev option \<times> screen option \<times> internal_event" where
  "new_item w d e = (d, case d of None \<Rightarrow> None | Some x \<Rightarrow> EnqueueScreen w x, e)"

text \<open>A motion that follows a motion of the same device, which still waits.\<close>

definition merges :: "input_world \<Rightarrow> dev option \<Rightarrow> internal_event \<Rightarrow> event_queue \<Rightarrow> bool" where
  "merges w d e q \<longleftrightarrow> ev_type e = ET_Motion \<and> d_id (devices w (the d)) \<noteq> 0 \<and>
     d_id (devices w (the d)) = lastMotion q \<and> pending q \<noteq> []"

lemma pending_Nil: "eq_inv q \<Longrightarrow> pending q = [] \<longleftrightarrow> head q = tail q"
  using num_enqueued(3) [of q] by (auto simp: pending_def ring_def)

lemma length_pending: "length (pending q) = mieqNumEnqueued q"
  by (simp add: pending_def)

lemma store_tail:
  assumes inv: "eq_inv q" and n: "mieqNumEnqueued q + 1 < nevents q" and e: "pending q = xs"
  shows "\<exists>q' e'. store_event w d e m (tail q) q = Fine (q', e') \<and> eq_inv q' \<and> handlers q' = handlers q \<and>
    pending q' = xs @ [new_item w d e]"
  using store_event_ok [OF inv, of "mieqNumEnqueued q" "tail q" w d e m] n e num_enqueued(2) [OF inv]
  by (auto simp: pending_def new_item_def)

lemma mieqEnqueue_ok:
  assumes inv: "eq_inv q" and env: "eq_env_ok env" and d: "ev_type e = ET_Motion \<longrightarrow> d \<noteq> None"
  shows "\<exists>q' e'. mieqEnqueue env w d e q = Fine (q', e') \<and> eq_inv q' \<and> handlers q' = handlers q \<and>
    pending q' = (if merges w d e q then butlast (pending q) @ [new_item w d e]
                  else if length (pending q) + 1 = nevents q \<and> \<not> array_mem env (nevents q * 2) then pending q
                  else pending q @ [new_item w d e])"
proof -
  let ?m = "if ev_type e = ET_Motion then d_id (devices w (the d)) else 0" and ?n = "mieqNumEnqueued q"
  have nd: "\<not> (ev_type e = ET_Motion \<and> d = None)" using d by simp
  have mg: "?m \<noteq> 0 \<and> ?m = lastMotion q \<and> tail q \<noteq> head q \<longleftrightarrow> merges w d e q"
    using pending_Nil [OF inv] by (auto simp: merges_def)
  have lt: "?n < nevents q" by (rule num_enqueued(1) [OF inv])
  consider (merge) "merges w d e q" | (grow) "\<not> merges w d e q" "?n + 1 = nevents q"
    | (room) "\<not> merges w d e q" "?n + 1 \<noteq> nevents q" by blast
  then show ?thesis
  proof cases
    case merge
    then obtain n where n: "?n = Suc n" using length_pending [of q] by (cases ?n) (auto simp: merges_def)
    have bl: "map slot_item (ring (events q) (head q) n) = butlast (pending q)"
      unfolding pending_def n ring_butlast [of "events q" "head q" n] by (simp add: map_butlast)
    have eq: "mieqEnqueue env w d e q = store_event w d e ?m (unat (word_of_nat (tail q) - 1 :: 32 word) mod nevents q) q"
      unfolding mieqEnqueue_def Let_def if_not_P [OF nd] mg using merge by simp
    have "Suc n < nevents q" using lt n by simp
    from store_event_ok [OF inv this slot_before_tail [OF inv n], of w d e ?m] show ?thesis
      unfolding eq using bl merge by (auto simp: new_item_def)
  next
    case grow
    note g = mieqGrowQueue_ok [OF inv env]
    have eq: "mieqEnqueue env w d e q = (case mieqGrowQueue env (nevents q * 2) q of
        (False, q') \<Rightarrow> Fine (q'\<lparr>dropped := dropped q' + 1\<rparr>, e) | (True, q') \<Rightarrow> store_event w d e ?m (tail q') q')"
      unfolding mieqEnqueue_def Let_def if_not_P [OF nd] mg using grow by simp
    have am: "fst (mieqGrowQueue env (nevents q * 2) q) = array_mem env (nevents q * 2)"
      using env eq_inv_pos [OF inv] by (simp add: mieqGrowQueue_def Let_def eq_env_ok_def list_all_iff)
    obtain ok q1 where q1: "mieqGrowQueue env (nevents q * 2) q = (ok, q1)" by fastforce
    show ?thesis
    proof (cases ok)
      case True
      then have a: "eq_inv q1" "nevents q1 = nevents q * 2" "mieqNumEnqueued q1 = ?n" "pending q1 = pending q"
          "handlers q1 = handlers q" using g q1 by auto
      have "mieqNumEnqueued q1 + 1 < nevents q1" using a lt by simp
      from store_tail [OF a(1) this a(4), of w d e ?m] show ?thesis
        using eq q1 True am a(5) grow by (auto simp: length_pending)
    next
      case False
      then have "q1 = q" using g q1 by simp
      moreover have "eq_inv (q\<lparr>dropped := dropped q + 1\<rparr>)" "pending (q\<lparr>dropped := dropped q + 1\<rparr>) = pending q"
        using inv by (simp_all add: eq_inv_def pending_def mieqNumEnqueued_def Let_def)
      ultimately show ?thesis using eq q1 False am grow by (auto simp: length_pending)
    qed
  next
    case room
    have eq: "mieqEnqueue env w d e q = store_event w d e ?m (tail q) q"
      unfolding mieqEnqueue_def Let_def if_not_P [OF nd] mg using room by simp
    have "?n + 1 < nevents q" using room lt by simp
    from store_tail [OF inv this refl, of w d e ?m] show ?thesis
      unfolding eq using room by (auto simp: length_pending)
  qed
qed

section \<open>Taking out\<close>

definition popped :: "event_queue \<Rightarrow> event_queue" where
  "popped q = q\<lparr>head := (head q + 1) mod nevents q\<rparr>"

lemma popped_ok:
  assumes inv: "eq_inv q" and ne: "head q \<noteq> tail q"
  shows "eq_inv (popped q)" "pending q = slot_item (events q ! head q) # pending (popped q)"
proof -
  show p: "eq_inv (popped q)" using inv eq_inv_pos [OF inv] by (auto simp: eq_inv_def popped_def)
  obtain n where n: "mieqNumEnqueued q = Suc n" using num_enqueued(3) [OF inv] ne by (cases "mieqNumEnqueued q") auto
  have h: "head q < length (events q)" using inv by (simp add: eq_inv_def)
  have "tail (popped q) = (head (popped q) + n) mod nevents (popped q)"
    using num_enqueued(2) [OF inv] n by (simp add: popped_def mod_simps)
  then have num: "mieqNumEnqueued (popped q) = n"
    using num_enqueued_unique [of "popped q" n] p num_enqueued(1) [OF inv] n by (simp add: eq_inv_def popped_def)
  have "length (events q) = nevents q" using inv by (simp add: eq_inv_def)
  then show "pending q = slot_item (events q ! head q) # pending (popped q)"
    unfolding pending_def n num ring_first [OF h] by (simp add: popped_def)
qed

section \<open>Delivery\<close>

text \<open>The masters of slave devices are master devices with a partner.\<close>

definition devices_ok :: "input_world \<Rightarrow> bool" where
  "devices_ok w \<longleftrightarrow> (\<forall>d m. d_master (devices w d) = Some m \<longrightarrow> InputDevIsMaster w m \<and> d_paired (devices w m) \<noteq> None)"

text \<open>Other code leaves this as it is; an event without a device is one that a handler takes.\<close>

definition effects_ok :: "(input_call \<Rightarrow> input_world \<Rightarrow> input_world) \<Rightarrow> bool" where
  "effects_ok eff \<longleftrightarrow> (\<forall>c w. devices_ok w \<longrightarrow> devices_ok (eff c w))"

definition event_ok :: "(event_type \<Rightarrow> nat option) \<Rightarrow> dev option \<Rightarrow> internal_event \<Rightarrow> bool" where
  "event_ok hs d e \<longleftrightarrow> d \<noteq> None \<or> hs (ev_type e) \<noteq> None \<and> ev_type e \<noteq> ET_Motion"

lemma GetMaster_attached:
  assumes "devices_ok w" "\<not> InputDevIsMaster w d" "\<not> InputDevIsFloating w d"
  obtains m where "GetMaster w d k = Some m"
proof -
  obtain m0 where m0: "d_master (devices w d) = Some m0"
    using assms(2,3) by (auto simp: InputDevIsFloating_def GetMaster_def split: option.splits)
  then have "d_paired (devices w m0) \<noteq> None" using assms(1) by (auto simp: devices_ok_def)
  then have "GetMaster w d k \<noteq> None" using m0 assms(2) by (auto simp: GetMaster_def)
  then show thesis using that by blast
qed

lemma CopyGetMasterEvent_ok:
  assumes "devices_ok w"
  shows "\<exists>mas. CopyGetMasterEvent w d e = Fine mas \<and> (d = None \<longrightarrow> mas = None)"
proof (cases "\<exists>s. d = Some s \<and> \<not> InputDevIsMaster w s \<and> \<not> InputDevIsFloating w s")
  case True
  then obtain s where s: "d = Some s" "\<not> InputDevIsMaster w s" "\<not> InputDevIsFloating w s" by blast
  obtain m where "GetMaster w s (master_type_for (if ev_type e = ET_DGAEvent then ev_subtype e else ev_type e)) = Some m"
    by (rule GetMaster_attached [OF assms s(2,3)])
  then show ?thesis using s by (simp add: CopyGetMasterEvent_def Let_def)
qed (auto simp: CopyGetMasterEvent_def split: option.splits)

lemma devices_ok_updates:
  "devices_ok (set_lastSlave m d w) \<longleftrightarrow> devices_ok w" "devices_ok (w\<lparr>sprites := f\<rparr>) \<longleftrightarrow> devices_ok w"
  by (auto simp: devices_ok_def set_lastSlave_def InputDevIsMaster_def)

lemma do_call_ok: "effects_ok eff \<Longrightarrow> devices_ok (world r) \<Longrightarrow> devices_ok (world (do_call eff c r))"
  by (simp add: effects_ok_def do_call_def)

lemma move_ok:
  "effects_ok eff \<Longrightarrow> devices_ok (world r) \<Longrightarrow> devices_ok (world (mieqMoveToNewScreen eff d s e r))"
  by (auto simp: mieqMoveToNewScreen_def Let_def devices_ok_updates intro: do_call_ok split: option.splits)

lemma mieqProcessDeviceEvent_ok:
  assumes eff: "effects_ok eff" and w: "devices_ok (world r)" and e: "event_ok hs d e"
  shows "\<exists>r'. mieqProcessDeviceEvent eff hs d e s r = Fine r' \<and> devices_ok (world r')"
proof (cases "case d of Some x \<Rightarrow> \<not> d_enabled (devices (world r) x) | None \<Rightarrow> False")
  case True
  then show ?thesis using w by (simp add: mieqProcessDeviceEvent_def)
next
  case False
  define r1 where "r1 = (if moves_screen e \<and> hs (ev_type e) = None then mieqMoveToNewScreen eff d s e r else r)"
  have r1: "devices_ok (world r1)" using move_ok [OF eff w] w by (simp add: r1_def)
  obtain mas where mas: "CopyGetMasterEvent (world r1) d e = Fine mas" "d = None \<longrightarrow> mas = None"
    using CopyGetMasterEvent_ok [OF r1] by blast
  define r2 where "r2 = (case (mas, d) of (Some (m, _), Some x) \<Rightarrow> r1\<lparr>world := set_lastSlave m x (world r1)\<rparr> | _ \<Rightarrow> r1)"
  have r2: "devices_ok (world r2)" using r1 by (auto simp: r2_def devices_ok_updates split: option.splits)
  note st = mieqProcessDeviceEvent_def [of eff hs d e s r, unfolded if_not_P [OF False] Let_def, folded r1_def,
      unfolded mas(1) outcome.case, folded r2_def]
  show ?thesis
  proof (cases "hs (ev_type e)")
    case (Some h)
    then show ?thesis using st do_call_ok [OF eff] r2 by (auto split: option.splits)
  next
    case None
    then obtain x where "d = Some x" using e by (auto simp: event_ok_def)
    then show ?thesis using None st do_call_ok [OF eff] r2 by (auto split: option.splits)
  qed
qed

lemma deliver_slot_ok:
  assumes eff: "effects_ok eff" and w: "devices_ok (world r)" and e: "event_ok hs (s_dev slot) (s_event slot)"
  shows "\<exists>r'. deliver_slot eff hs slot r = Fine r' \<and> devices_ok (world r')"
proof -
  define r1 where "r1 = (if saver_on (world r) then do_call eff SaveScreensOff r
     else if \<not> dpms_mode_on (world r) then do_call eff ScreenSaverTimer r else r)"
  define r2 where "r2 = (if \<not> dpms_mode_on (world r1) then do_call eff DPMSOn r1 else r1)"
  have "devices_ok (world r2)" using w do_call_ok [OF eff] by (simp add: r1_def r2_def)
  then obtain r3 where "mieqProcessDeviceEvent eff hs (s_dev slot) (s_event slot) (s_screen slot) r2 = Fine r3"
      "devices_ok (world r3)"
    using mieqProcessDeviceEvent_ok [OF eff _ e] by blast
  then show ?thesis
    using do_call_ok [OF eff] unfolding deliver_slot_def Let_def r1_def [symmetric] r2_def [symmetric] by auto
qed

section \<open>The processing loop\<close>

lemma enqueue_all_ok:
  assumes env: "eq_env_ok env" and e: "list_all (\<lambda>(d, e). ev_type e = ET_Motion \<longrightarrow> d \<noteq> None) es"
  shows "eq_inv q \<Longrightarrow> \<exists>q'. enqueue_all env w es q = Fine q' \<and> eq_inv q' \<and> handlers q' = handlers q"
  using e
proof (induction es arbitrary: q)
  case (Cons x es)
  obtain d e where x: "x = (d, e)" by fastforce
  have "ev_type e = ET_Motion \<longrightarrow> d \<noteq> None" using Cons.prems(2) x by simp
  then obtain q1 e1 where "mieqEnqueue env w d e q = Fine (q1, e1)" "eq_inv q1" "handlers q1 = handlers q"
    using mieqEnqueue_ok [OF Cons.prems(1) env] by blast
  then show ?case using Cons.IH [of q1] Cons.prems(2) x by auto
qed simp

text \<open>
  A loop over a queue: every turn takes the first element out, and from turn \<open>quiet\<close> on nothing else
  is put in. The laws speak of one turn; that the loop empties the queue is proved from them.
\<close>

primrec turns :: "(nat \<Rightarrow> 's \<Rightarrow> 's) \<Rightarrow> nat \<Rightarrow> nat \<Rightarrow> 's \<Rightarrow> 's" where
  "turns turn k 0 s = s"
| "turns turn k (Suc n) s = turns turn (Suc k) n (turn k s)"

locale drained_queue =
  fixes inv :: "'s \<Rightarrow> bool" and waiting :: "'s \<Rightarrow> 'x list" and turn :: "nat \<Rightarrow> 's \<Rightarrow> 's" and quiet :: nat
  assumes turn_inv: "inv s \<Longrightarrow> waiting s \<noteq> [] \<Longrightarrow> inv (turn k s)"
    and turn_quiet: "inv s \<Longrightarrow> waiting s \<noteq> [] \<Longrightarrow> quiet \<le> k \<Longrightarrow> waiting (turn k s) = List.tl (waiting s)"
begin

lemma drains_quietly:
  "inv s \<Longrightarrow> quiet \<le> k \<Longrightarrow> \<exists>s'. turns turn k (length (waiting s)) s = s' \<and> inv s' \<and> waiting s' = [] \<and>
    (\<forall>m < length (waiting s). waiting (turns turn k m s) = drop m (waiting s))"
proof (induction "length (waiting s)" arbitrary: s k)
  case (Suc n)
  have ne: "waiting s \<noteq> []" using Suc(2) by auto
  have t: "inv (turn k s)" "waiting (turn k s) = List.tl (waiting s)"
    using turn_inv [OF Suc(3) ne] turn_quiet [OF Suc(3) ne Suc(4)] by auto
  have n: "n = length (waiting (turn k s))" using Suc(2) t(2) by simp
  obtain s' where s': "turns turn (Suc k) n (turn k s) = s'" "inv s'" "waiting s' = []"
      "\<forall>m < n. waiting (turns turn (Suc k) m (turn k s)) = drop m (waiting (turn k s))"
    using Suc(1) [OF n t(1), of "Suc k"] Suc(4) n by auto
  have "waiting (turns turn k m s) = drop m (waiting s)" if "m < Suc n" for m
    using that s'(4) t(2) by (cases m) (auto simp: drop_Suc)
  then show ?case using s'(1-3) Suc(2) [symmetric] by auto
qed simp

lemma drains:
  "inv s \<Longrightarrow> \<exists>n s'. turns turn k n s = s' \<and> inv s' \<and> waiting s' = [] \<and> (\<forall>m < n. waiting (turns turn k m s) \<noteq> []) \<and>
    (quiet \<le> k \<longrightarrow> n = length (waiting s))"
proof (induction "quiet - k" arbitrary: s k)
  case 0
  then have "quiet \<le> k" by simp
  from drains_quietly [OF 0(2) this] show ?case by (intro exI [of _ "length (waiting s)"]) auto
next
  case (Suc d)
  show ?case
  proof (cases "waiting s = []")
    case True
    then show ?thesis using Suc(3) Suc(2) by (intro exI [of _ 0]) auto
  next
    case False
    have d: "d = quiet - Suc k" using Suc(2) by simp
    obtain n s' where n: "turns turn (Suc k) n (turn k s) = s'" "inv s'" "waiting s' = []"
        "\<forall>m < n. waiting (turns turn (Suc k) m (turn k s)) \<noteq> []"
      using Suc(1) [OF d turn_inv [OF Suc(3) False]] by blast
    have "waiting (turns turn k m s) \<noteq> []" if "m < Suc n" for m
      using that n(4) False by (cases m) auto
    then show ?thesis using n(1-3) Suc(2) by (intro exI [of _ "Suc n"]) auto
  qed
qed

end

definition loop_inv ::
    "eq_env \<Rightarrow> (input_call \<Rightarrow> input_world \<Rightarrow> input_world) \<Rightarrow> (nat \<Rightarrow> (dev option \<times> internal_event) list) \<Rightarrow> nat \<Rightarrow>
     event_queue \<times> input_run \<Rightarrow> bool" where
  "loop_inv env eff arrivals quiet s \<longleftrightarrow> (case s of (q, r) \<Rightarrow>
     eq_inv q \<and> eq_env_ok env \<and> effects_ok eff \<and> devices_ok (world r) \<and>
     (\<forall>k \<ge> quiet. arrivals k = []) \<and> (\<forall>k. list_all (\<lambda>(d, e). event_ok (handlers q) d e) (arrivals k)) \<and>
     list_all (\<lambda>(d, _, e). event_ok (handlers q) d e) (pending q))"

definition turn_of ::
    "eq_env \<Rightarrow> (input_call \<Rightarrow> input_world \<Rightarrow> input_world) \<Rightarrow> (nat \<Rightarrow> (dev option \<times> internal_event) list) \<Rightarrow> nat \<Rightarrow>
     event_queue \<times> input_run \<Rightarrow> event_queue \<times> input_run" where
  "turn_of env eff arrivals k s =
     (case loop_turn env eff (arrivals k) (fst s) (snd s) of Fine s' \<Rightarrow> s' | _ \<Rightarrow> s)"

lemma enqueue_all_events:
  assumes env: "eq_env_ok env"
  shows "eq_inv q \<Longrightarrow> enqueue_all env w es q = Fine q' \<Longrightarrow> list_all (\<lambda>(d, e). event_ok hs d e) es \<Longrightarrow>
    list_all (\<lambda>(d, _, e). event_ok hs d e) (pending q) \<Longrightarrow> list_all (\<lambda>(d, _, e). event_ok hs d e) (pending q')"
proof (induction es arbitrary: q)
  case (Cons x es)
  obtain d e where x: "x = (d, e)" by fastforce
  have ok: "event_ok hs d e" using Cons.prems(3) x by simp
  then have "ev_type e = ET_Motion \<longrightarrow> d \<noteq> None" by (auto simp: event_ok_def)
  then obtain q1 e1 where q1: "mieqEnqueue env w d e q = Fine (q1, e1)" "eq_inv q1" "handlers q1 = handlers q"
      "pending q1 = (if merges w d e q then butlast (pending q) @ [new_item w d e]
                  else if length (pending q) + 1 = nevents q \<and> \<not> array_mem env (nevents q * 2) then pending q
                  else pending q @ [new_item w d e])"
    using mieqEnqueue_ok [OF Cons.prems(1) env] by blast
  have "set (pending q1) \<subseteq> set (pending q) \<union> {new_item w d e}"
    unfolding q1(4) by (auto dest: in_set_butlastD)
  moreover have "case new_item w d e of (d, _, e) \<Rightarrow> event_ok hs d e" using ok by (simp add: new_item_def)
  ultimately have "list_all (\<lambda>(d, _, e). event_ok hs d e) (pending q1)" using Cons.prems(4) by (fastforce simp: list_all_iff)
  then show ?case using Cons.IH [OF q1(2)] Cons.prems(2,3) x q1(1) by simp
qed simp

lemma loop_turn_ok:
  assumes inv: "loop_inv env eff arrivals quiet (q, r)" and ne: "pending q \<noteq> []"
  shows "\<exists>q' r'. loop_turn env eff (arrivals k) q r = Fine (q', r') \<and> loop_inv env eff arrivals quiet (q', r') \<and>
    (quiet \<le> k \<longrightarrow> pending q' = List.tl (pending q)) \<and> deliver_slot eff (handlers q) (events q ! head q) r = Fine r' \<and>
    handlers q' = handlers q"
proof -
  let ?slot = "events q ! head q"
  have i: "eq_inv q" "eq_env_ok env" "effects_ok eff" "devices_ok (world r)" "\<forall>k \<ge> quiet. arrivals k = []"
      "\<forall>k. list_all (\<lambda>(d, e). event_ok (handlers q) d e) (arrivals k)" "list_all (\<lambda>(d, _, e). event_ok (handlers q) d e) (pending q)"
    using inv by (simp_all add: loop_inv_def)
  have ht: "head q \<noteq> tail q" using ne pending_Nil [OF i(1)] by simp
  note p = popped_ok [OF i(1) ht]
  have e: "event_ok (handlers q) (s_dev ?slot) (s_event ?slot)" "list_all (\<lambda>(d, _, e). event_ok (handlers q) d e) (pending (popped q))"
    using i(7) unfolding p(2) by (simp_all add: slot_item_def)
  obtain r1 where r1: "deliver_slot eff (handlers q) ?slot r = Fine r1" "devices_ok (world r1)"
    using deliver_slot_ok [where r = r, OF i(3,4) e(1)] by blast
  have "list_all (\<lambda>(d, e). ev_type e = ET_Motion \<longrightarrow> d \<noteq> None) (arrivals k)"
    using i(6) by (fastforce simp: list_all_iff event_ok_def)
  then obtain q2 where q2: "enqueue_all env (world r1) (arrivals k) (popped q) = Fine q2" "eq_inv q2" "handlers q2 = handlers q"
    using enqueue_all_ok [OF i(2) _ p(1), of "arrivals k" "world r1"] by (auto simp: popped_def)
  obtain b where b: "s_block ?slot = Some b" "b \<in> live_blocks q"
    using eq_inv_block [OF i(1), of "head q"] i(1) by (auto simp: eq_inv_def)
  have t: "loop_turn env eff (arrivals k) q r = Fine (q2, r1)"
    using b r1(1) q2(1) by (simp add: loop_turn_def Let_def popped_def)
  have "list_all (\<lambda>(d, _, e). event_ok (handlers q) d e) (pending q2)"
    by (rule enqueue_all_events [OF i(2) p(1) q2(1) _ e(2)]) (use i(6) in blast)
  then have "loop_inv env eff arrivals quiet (q2, r1)"
    using i q2 r1 by (simp add: loop_inv_def)
  moreover have "pending q2 = List.tl (pending q)" if "quiet \<le> k"
    using that i(5) q2(1) p(2) by simp
  ultimately show ?thesis using t r1(1) q2(3) by blast
qed

interpretation eq: drained_queue "loop_inv env eff arrivals quiet" "\<lambda>(q, r). pending q" "turn_of env eff arrivals" quiet
  for env eff arrivals quiet
proof (unfold_locales, goal_cases)
  case (1 s k)
  obtain q r where s: "s = (q, r)" by fastforce
  from loop_turn_ok [OF 1(1) [unfolded s], of k] 1(2) s show ?case by (auto simp: turn_of_def)
next
  case (2 s k)
  obtain q r where s: "s = (q, r)" by fastforce
  from loop_turn_ok [OF 2(1) [unfolded s], of k] 2(2,3) s show ?case by (auto simp: turn_of_def)
qed

lemma process_loop_turns:
  "loop_inv env eff arrivals quiet (q, r) \<Longrightarrow>
   (\<And>m. m < n \<Longrightarrow> pending (fst (turns (turn_of env eff arrivals) k m (q, r))) \<noteq> []) \<Longrightarrow>
   pending (fst (turns (turn_of env eff arrivals) k n (q, r))) = [] \<Longrightarrow>
   process_loop env eff arrivals k q r = Some (Fine (turns (turn_of env eff arrivals) k n (q, r)))"
proof (induction n arbitrary: k q r)
  case 0
  then have "head q = tail q" using pending_Nil [of q] by (simp add: loop_inv_def)
  then show ?case by (subst process_loop.simps) simp
next
  case (Suc n)
  have ne: "pending q \<noteq> []" using Suc.prems(2) [of 0] by simp
  obtain q1 r1 where t: "loop_turn env eff (arrivals k) q r = Fine (q1, r1)" "loop_inv env eff arrivals quiet (q1, r1)"
    using loop_turn_ok [OF Suc.prems(1) ne] by blast
  then have tt: "turn_of env eff arrivals k (q, r) = (q1, r1)" by (simp add: turn_of_def)
  have "head q \<noteq> tail q" using ne pending_Nil [of q] Suc.prems(1) by (simp add: loop_inv_def)
  then have "process_loop env eff arrivals k q r = process_loop env eff arrivals (Suc k) q1 r1"
    using t(1) by (subst process_loop.simps) simp
  also have "\<dots> = Some (Fine (turns (turn_of env eff arrivals) (Suc k) n (q1, r1)))"
  proof (rule Suc.IH [OF t(2)])
    show "pending (fst (turns (turn_of env eff arrivals) (Suc k) m (q1, r1))) \<noteq> []" if "m < n" for m
      using Suc.prems(2) [of "Suc m"] that tt by simp
    show "pending (fst (turns (turn_of env eff arrivals) (Suc k) n (q1, r1))) = []" using Suc.prems(3) tt by simp
  qed
  finally show ?case by (simp add: tt)
qed

definition deliver ::
    "(input_call \<Rightarrow> input_world \<Rightarrow> input_world) \<Rightarrow> (event_type \<Rightarrow> nat option) \<Rightarrow> input_run \<Rightarrow> eq_slot \<Rightarrow> input_run" where
  "deliver eff hs r slot = (case deliver_slot eff hs slot r of Fine r' \<Rightarrow> r' | _ \<Rightarrow> r)"

lemma turns_in_order:
  assumes "arrivals = (\<lambda>k. [])"
  shows "loop_inv env eff arrivals quiet (q, r) \<Longrightarrow> n \<le> length (pending q) \<Longrightarrow>
    snd (turns (turn_of env eff arrivals) k n (q, r)) = foldl (deliver eff (handlers q)) r (ring (events q) (head q) n)"
proof (induction n arbitrary: k q r)
  case (Suc n)
  have ne: "pending q \<noteq> []" using Suc.prems(2) by auto
  have i: "eq_inv q" using Suc.prems(1) by (simp add: loop_inv_def)
  obtain q1 r1 where t: "loop_turn env eff (arrivals k) q r = Fine (q1, r1)" "loop_inv env eff arrivals quiet (q1, r1)"
      "deliver_slot eff (handlers q) (events q ! head q) r = Fine r1"
    using loop_turn_ok [OF Suc.prems(1) ne] by blast
  have tt: "turn_of env eff arrivals k (q, r) = (q1, r1)" using t(1) by (simp add: turn_of_def)
  have q1: "q1 = popped q"
    using t(1,3) assms by (auto simp: loop_turn_def Let_def popped_def split: option.splits if_splits)
  have "n \<le> length (pending q1)"
    using Suc.prems(2) popped_ok(2) [OF i] ne pending_Nil [OF i] q1 by simp
  from Suc.IH [OF t(2) this, of "Suc k"]
  have "snd (turns (turn_of env eff arrivals) (Suc k) n (q1, r1)) =
      foldl (deliver eff (handlers q)) r1 (ring (events q) ((head q + 1) mod nevents q) n)"
    by (simp add: q1 popped_def)
  moreover have "head q < length (events q)" "length (events q) = nevents q" using i by (simp_all add: eq_inv_def)
  moreover have "deliver eff (handlers q) r (events q ! head q) = r1" using t(3) by (simp add: deliver_def)
  ultimately show ?case using tt ring_first [of "head q" "events q" n] by simp
qed simp

section \<open>Properties\<close>


text \<open>C16: As long as the event blocks for the slots of a doubled array can be had, \<open>mieqProcessInputEvents\<close>
  returns, with the queue empty and the callbacks for a drained queue called last, whenever the events
  that come in meanwhile stop at some time, if an event without a device is one that a handler takes and
  the code that is called leaves every attached device with a master that has its pair. With none coming in, it delivers the events of the queue one after the other, the oldest first,
  each exactly once. (Where a block cannot be had the loop may read a freed one: the error property of
  the failed growth.)\<close>

theorem mieqProcessInputEvents_drains:
  assumes "eq_inv q" "eq_env_ok env" "effects_ok eff" "devices_ok (world r)"
    and "\<forall>k \<ge> quiet. arrivals k = []" "\<forall>k. list_all (\<lambda>(d, e). event_ok (handlers q) d e) (arrivals k)"
    and "list_all (\<lambda>(d, _, e). event_ok (handlers q) d e) (pending q)"
  shows "\<exists>q' r'. mieqProcessInputEvents env eff arrivals q r = Some (Fine (q', do_call eff Drained r')) \<and>
    eq_inv q' \<and> mieqNumEnqueued q' = 0 \<and>
    (arrivals = (\<lambda>k. []) \<longrightarrow> r' = foldl (deliver eff (handlers q)) r (ring (events q) (head q) (mieqNumEnqueued q)))"
proof -
  let ?q = "q\<lparr>dropped := 0\<rparr>"
  have p: "pending ?q = pending q" by (simp add: pending_def mieqNumEnqueued_def Let_def)
  have inv: "loop_inv env eff arrivals quiet (?q, r)"
    using assms p by (simp add: loop_inv_def eq_inv_def)
  obtain n s' where n: "turns (turn_of env eff arrivals) 0 n (?q, r) = s'" "loop_inv env eff arrivals quiet s'"
      "(\<lambda>(q, r). pending q) s' = []" "\<forall>m < n. (\<lambda>(q, r). pending q) (turns (turn_of env eff arrivals) 0 m (?q, r)) \<noteq> []"
    using eq.drains [OF inv, of 0] by blast
  obtain q' r' where s': "s' = (q', r')" by fastforce
  have "process_loop env eff arrivals 0 ?q r = Some (Fine (q', r'))"
    using process_loop_turns [OF inv, of n 0] n s' by (simp add: case_prod_unfold)
  then have ret: "mieqProcessInputEvents env eff arrivals q r = Some (Fine (q', do_call eff Drained r'))"
    by (simp add: mieqProcessInputEvents_def)
  have e: "eq_inv q'" "mieqNumEnqueued q' = 0" using n(2,3) s' length_pending [of q'] by (simp_all add: loop_inv_def)
  have "r' = foldl (deliver eff (handlers q)) r (ring (events q) (head q) (mieqNumEnqueued q))" if a: "arrivals = (\<lambda>k. [])"
  proof -
    have inv0: "loop_inv env eff arrivals 0 (?q, r)" using inv a by (simp add: loop_inv_def)
    obtain n0 s0 where n0: "turns (turn_of env eff arrivals) 0 n0 (?q, r) = s0" "(\<lambda>(q, r). pending q) s0 = []"
        "\<forall>m < n0. (\<lambda>(q, r). pending q) (turns (turn_of env eff arrivals) 0 m (?q, r)) \<noteq> []" "n0 = length (pending q)"
      using eq.drains [OF inv0, of 0] p by auto
    have "n = n0" using n0(1-3) n by (metis nat_neq_iff)
    then have "r' = snd (turns (turn_of env eff arrivals) 0 (length (pending q)) (?q, r))" using n(1) s' n0(4) by simp
    also have "\<dots> = foldl (deliver eff (handlers ?q)) r (ring (events ?q) (head ?q) (length (pending q)))"
      by (rule turns_in_order [OF a inv0]) (simp add: p)
    finally show ?thesis by (simp add: length_pending)
  qed
  then show ?thesis using ret e by blast
qed

text \<open>C40: A full queue whose doubling fails at the block of one of the new slots: the code frees the
  blocks of the old slots too, drops the event and goes on; processing the queue then reads a freed
  block, whatever comes in and whatever the rest of the server does.\<close>

theorem failed_growth_frees_queue:
  assumes "eq_inv q" "mieqNumEnqueued q + 1 = nevents q" "d \<noteq> None" "\<not> merges w d e q"
    and "array_mem env (nevents q * 2)" "\<not> list_all (list_mem env) [nevents q..<nevents q * 2]"
  shows "\<exists>q'. mieqEnqueue env w d e q = Fine (q', e) \<and>
    mieqProcessInputEvents env' eff arrivals q' r = Some UseAfterFree"
proof -
  let ?q = "q\<lparr>live_blocks := live_blocks q - slot_blocks (drop (head q) (events q) @ take (head q) (events q)), dropped := dropped q + 1\<rparr>"
  have nd: "\<not> (ev_type e = ET_Motion \<and> d = None)" using assms(3) by simp
  have big: "512 \<le> nevents q"
  proof -
    obtain k where k: "nevents q = 2 ^ (9 + k)" using assms(1) by (auto simp: eq_inv_def)
    have "(2::nat) ^ 9 \<le> 2 ^ (9 + k)" by (rule power_increasing) auto
    then show ?thesis using k by simp
  qed
  then have ht: "head q \<noteq> tail q" using num_enqueued(3) [OF assms(1)] assms(2) by simp
  have nm: "\<not> ((if ev_type e = ET_Motion then d_id (devices w (the d)) else 0) \<noteq> 0 \<and>
      (if ev_type e = ET_Motion then d_id (devices w (the d)) else 0) = lastMotion q \<and> tail q \<noteq> head q)"
    using assms(4) pending_Nil [OF assms(1)] ht by (auto simp: merges_def)
  have g: "mieqGrowQueue env (nevents q * 2) q =
      (False, q\<lparr>live_blocks := live_blocks q - slot_blocks (drop (head q) (events q) @ take (head q) (events q))\<rparr>)"
    using assms(5,6) eq_inv_pos [OF assms(1)] by (simp add: mieqGrowQueue_def Let_def)
  have eq: "mieqEnqueue env w d e q = Fine (?q, e)"
    unfolding mieqEnqueue_def Let_def if_not_P [OF nd] if_not_P [OF nm] g using assms(2) by simp
  obtain b where b: "s_block (events q ! head q) = Some b" "b \<in> live_blocks q"
    using eq_inv_block [OF assms(1), of "head q"] assms(1) by (auto simp: eq_inv_def)
  have "events q ! head q \<in> set (drop (head q) (events q) @ take (head q) (events q))"
    unfolding rotated_set using assms(1) by (auto simp: eq_inv_def)
  then have "b \<in> slot_blocks (drop (head q) (events q) @ take (head q) (events q))"
    using b(1) by (force simp: slot_blocks_def List.map_filter_def)
  then have "loop_turn env' eff (arrivals 0) (?q\<lparr>dropped := 0\<rparr>) r = UseAfterFree"
    using b(1) by (simp add: loop_turn_def Let_def)
  then have "process_loop env' eff arrivals 0 (?q\<lparr>dropped := 0\<rparr>) r = Some UseAfterFree"
    using ht by (subst process_loop.simps) simp
  then show ?thesis using eq by (simp add: mieqProcessInputEvents_def)
qed

section \<open>Examples\<close>

lemma mieqInit_ok:
  assumes "array_mem env 512" "\<forall>i. list_mem env i"
  shows "\<exists>q. mieqInit env now b = Some q \<and> eq_inv q \<and> pending q = [] \<and> nevents q = 512 \<and> head q = 0 \<and> tail q = 0 \<and>
    handlers q = (\<lambda>t. None) \<and> lastMotion q = 0"
proof -
  let ?q = "\<lparr>head = 0, tail = 0, lastEventTime = now, lastMotion = 0, events = new_slots b 512, nevents = 512,
    dropped = 0, handlers = (\<lambda>t. None), live_blocks = {b..<b + 512}, next_block = b + 512\<rparr>"
  have i: "mieqInit env now b = Some ?q"
    using assms by (simp add: mieqInit_def mieqGrowQueue_def Let_def QUEUE_INITIAL_SIZE_def list_all_iff mieqNumEnqueued_def)
  have "\<exists>k \<le> 22. (512::nat) = 2 ^ (9 + k)" by (rule exI [of _ 0]) simp
  moreover have "list_all (\<lambda>s. \<exists>x \<in> {b..<b + 512}. s_block s = Some x) (new_slots b 512)"
    by (auto simp: new_slots_def list_all_iff)
  moreover have "distinct (map s_block (new_slots b 512))" unfolding new_slots_simps by (simp add: distinct_map)
  ultimately have "eq_inv ?q" unfolding eq_inv_def by (simp del: new_slots_simps(2))
  then show ?thesis using i by (auto simp: pending_def mieqNumEnqueued_def Let_def)
qed

definition demo_eq_env :: eq_env where
  "demo_eq_env = \<lparr>array_mem = (\<lambda>n. n \<le> 2 ^ 31), list_mem = (\<lambda>i. True)\<rparr>"

definition demo_queue :: event_queue where
  "demo_queue = the (mieqInit demo_eq_env 0 0)"

lemma demo_queue:
  "eq_inv demo_queue" "pending demo_queue = []" "nevents demo_queue = 512" "head demo_queue = 0" "tail demo_queue = 0"
  "handlers demo_queue = (\<lambda>t. None)" "lastMotion demo_queue = 0"
  using mieqInit_ok [of demo_eq_env 0 0] by (auto simp: demo_queue_def demo_eq_env_def)

text \<open>A pointer with one slave, device 3.\<close>

definition demo_device :: "dev \<Rightarrow> device" where
  "demo_device d = \<lparr>d_id = int d, d_type = (if d = 1 then MASTER_POINTER else if d = 2 then MASTER_KEYBOARD else SLAVE),
     d_enabled = True, d_master = (if d = 3 then Some 1 else None),
     d_paired = (if d = 1 then Some 2 else if d = 2 then Some 1 else None), d_lastSlave = None,
     d_button_map = Some (\<lambda>b. b), d_sprite = 0\<rparr>"

definition demo_world :: input_world where
  "demo_world = \<lparr>devices = demo_device, sprites = (\<lambda>i. \<lparr>pEnqueueScreen = Some 0, pDequeueScreen = Some 0\<rparr>),
     myNum = int, saver_on = False, dpms_mode_on = True\<rparr>"

definition demo_key :: internal_event where
  "demo_key = zero_event\<lparr>ev_type := ET_KeyPress, ev_deviceid := 3, ev_button := 38\<rparr>"

definition demo_queue1 :: event_queue where
  "demo_queue1 = (case mieqEnqueue demo_eq_env demo_world (Some 3) demo_key demo_queue of Fine (q, _) \<Rightarrow> q | _ \<Rightarrow> demo_queue)"

lemma demo_env_ok: "eq_env_ok demo_eq_env"
  by (simp add: eq_env_ok_def demo_eq_env_def)

lemma demo_queue1: "eq_inv demo_queue1" "pending demo_queue1 = [(Some 3, Some 0, demo_key)]"
  using mieqEnqueue_ok [OF demo_queue(1) demo_env_ok, of demo_key "Some 3" demo_world]
  by (auto simp: demo_queue1_def demo_queue demo_key_def merges_def new_item_def EnqueueScreen_def demo_world_def)

lemma demo_devices_ok: "devices_ok demo_world"
  by (simp add: devices_ok_def demo_world_def demo_device_def InputDevIsMaster_def)


lemma mieqProcessInputEvents_drains_witness:
  "\<exists>q' r'. mieqProcessInputEvents demo_eq_env (\<lambda>c w. w) (\<lambda>k. if k = 0 then [(Some 3, demo_key)] else []) demo_queue1
     \<lparr>world = demo_world, calls = []\<rparr> = Some (Fine (q', do_call (\<lambda>c w. w) Drained r')) \<and> mieqNumEnqueued q' = 0"
proof -
  let ?arr = "\<lambda>k :: nat. if k = 0 then [(Some 3, demo_key)] else []"
  have q: "\<forall>k \<ge> 1. ?arr k = []" by simp
  have a: "\<forall>k. list_all (\<lambda>(d, e). event_ok (handlers demo_queue1) d e) (?arr k)"
    by (simp add: event_ok_def)
  have e: "effects_ok (\<lambda>c w. w)" by (simp add: effects_ok_def)
  have w: "devices_ok (world \<lparr>world = demo_world, calls = []\<rparr>)" using demo_devices_ok by simp
  have p: "list_all (\<lambda>(d, _, e). event_ok (handlers demo_queue1) d e) (pending demo_queue1)"
    by (simp add: event_ok_def demo_queue1(2))
  from mieqProcessInputEvents_drains [OF demo_queue1(1) demo_env_ok e w q a p]
  obtain q' r' where "mieqProcessInputEvents demo_eq_env (\<lambda>c w. w) ?arr demo_queue1 \<lparr>world = demo_world, calls = []\<rparr> =
      Some (Fine (q', do_call (\<lambda>c w. w) Drained r'))" "mieqNumEnqueued q' = 0" by (elim exE conjE)
  then show ?thesis by (intro exI conjI)
qed

lemma failed_growth_frees_queue_witness:
  "\<exists>q'. mieqEnqueue \<lparr>array_mem = (\<lambda>n. True), list_mem = (\<lambda>i. i < 600)\<rparr> demo_world (Some 3) demo_key
      (demo_queue\<lparr>tail := 511\<rparr>) = Fine (q', demo_key) \<and>
    mieqProcessInputEvents demo_eq_env (\<lambda>c w. w) (\<lambda>k. []) q' \<lparr>world = demo_world, calls = []\<rparr> = Some UseAfterFree"
proof -
  let ?q = "demo_queue\<lparr>tail := 511\<rparr>" and ?env = "\<lparr>array_mem = (\<lambda>n. True), list_mem = (\<lambda>i. i < 600)\<rparr>"
  have inv: "eq_inv ?q" using demo_queue(1,3) by (simp add: eq_inv_def)
  have n: "mieqNumEnqueued ?q + 1 = nevents ?q"
    using demo_queue(3,4) by (simp add: mieqNumEnqueued_def)
  have m: "\<not> merges demo_world (Some 3) demo_key ?q" by (simp add: merges_def demo_key_def)
  have f: "\<not> list_all (list_mem ?env) [nevents ?q..<nevents ?q * 2]"
  proof -
    have "600 \<in> set [nevents ?q..<nevents ?q * 2]" unfolding set_upt using demo_queue(3) by simp
    moreover have "\<not> list_mem ?env 600" by simp
    ultimately show ?thesis unfolding list_all_iff by blast
  qed
  show ?thesis
    using failed_growth_frees_queue [OF inv n _ m _ f] by simp
qed

end
