(* ===== verification/Window_Tree.thy ===== *)
theory Window_Tree
  imports Regions
begin

text \<open>
  The window tree of \<open>dix/window.c\<close>: parents and children linked by pointers, the stacking
  order of siblings, the walks through the tree, mapping and unmapping, creation, reparenting and
  destruction.

  The heap of windows is a function from addresses to their records; the addresses allocated are
  kept beside it. A pointer is an optional address. An operation whose value is \<open>None\<close> does not
  return: it follows a NULL pointer or runs in a circle of pointers. The events sent and the calls
  of screen procedures that change no link or flag are a trace. Clipping and painting (\<open>ValidateTree\<close>
  and what belongs to it), the properties and resources of a window and its cursors are left out.
\<close>

section \<open>Windows\<close>

type_synonym wptr = nat

datatype gravity = UnmapGravity | NorthWestGravity | NorthGravity | NorthEastGravity | WestGravity | CenterGravity
  | EastGravity | SouthWestGravity | SouthGravity | SouthEastGravity | StaticGravity

record win =
  win_id :: nat
  parent :: "wptr option"
  firstChild :: "wptr option"
  lastChild :: "wptr option"
  nextSib :: "wptr option"
  prevSib :: "wptr option"
  mapped :: bool
  realized :: bool
  viewable :: bool
  inputOutput :: bool
  overrideRedirect :: bool
  shaped :: bool
  origin_x :: int
  origin_y :: int
  win_x :: int
  win_y :: int
  drawable_width :: u16
  drawable_height :: u16
  borderWidth :: int
  winGravity :: gravity

text \<open>The 16-bit sizes of the drawable, as numbers.\<close>

abbreviation win_width :: "win \<Rightarrow> int" where
  "win_width r \<equiv> uint (drawable_width r)"

abbreviation win_height :: "win \<Rightarrow> int" where
  "win_height r \<equiv> uint (drawable_height r)"

lemma uint_u16_mod [simp]: "uint (x :: u16) mod 65536 = uint x"
  using uint_lt2p [of x] by simp

type_synonym wheap = "wptr \<Rightarrow> win"

datatype stack_mode = Above | Below | TopIf | BottomIf | Opposite

text \<open>The values of a configure request: place in the parent, size, border width, sibling and stack mode.\<close>

record conf =
  cf_x :: int
  cf_y :: int
  cf_width :: int
  cf_height :: int
  cf_border :: int
  cf_sibling :: "wptr option"
  cf_mode :: stack_mode

datatype wevent =
    MapNotify wptr
  | MapRequest wptr wptr
  | UnmapNotify wptr bool
  | DestroyNotify wptr
  | ReparentNotify wptr wptr
  | CreateNotify wptr wptr
  | CirculateNotify wptr bool
  | CirculateRequest wptr bool
  | ConfigureRequest wptr conf
  | ConfigureNotify wptr conf
  | ResizeRequest wptr int int
  | GravityNotify wptr int int
  | RealizeCall wptr
  | UnrealizeCall wptr
  | FreedWindow wptr

record wstate =
  wheap :: wheap
  wlive :: "wptr set"
  wtrace :: "wevent list"

text \<open>
  What the tree code asks of the rest of the server: the hook for the head of the real children, the
  screen saver, access control, which events are selected and who takes a redirected request, the
  overlap of shaped windows and the test of a rectangle against the border of a window.

  The hook is set by \<open>RegisterRealChildHeadProc\<close>, which one place of the server calls, the start of the
  Composite extension (\<open>compScreenInit\<close>): it registers \<open>CompositeRealChildHead\<close>, which compares windows with
  the overlay window of the screen. So \<open>realChildHeadProc\<close> is \<open>None\<close> without the extension and carries the
  overlay window, if there is one, with it.
\<close>

record win_env =
  realChildHeadProc :: "wptr option option"
  saver_window :: bool
  show_access :: "wptr \<Rightarrow> bool"
  RedirectSend :: "wptr \<Rightarrow> bool"
  SubStrSend :: "wptr \<Rightarrow> wptr \<Rightarrow> bool"
  SubSend :: "wptr \<Rightarrow> bool"
  takes_request :: "wevent \<Rightarrow> bool"
  optional_mem :: bool
  shapes_meet :: "wptr \<Rightarrow> box \<Rightarrow> wptr \<Rightarrow> box \<Rightarrow> bool"
  border_meets :: "wptr \<Rightarrow> box \<Rightarrow> bool"
  ResizeSend :: "wptr \<Rightarrow> bool"
  ConfigNotify :: "wptr \<Rightarrow> conf \<Rightarrow> x_status"

definition set_next :: "wptr \<Rightarrow> wptr option \<Rightarrow> wheap \<Rightarrow> wheap" where
  "set_next w v h = h(w := (h w)\<lparr>nextSib := v\<rparr>)"

definition set_prev :: "wptr \<Rightarrow> wptr option \<Rightarrow> wheap \<Rightarrow> wheap" where
  "set_prev w v h = h(w := (h w)\<lparr>prevSib := v\<rparr>)"

definition set_first :: "wptr \<Rightarrow> wptr option \<Rightarrow> wheap \<Rightarrow> wheap" where
  "set_first w v h = h(w := (h w)\<lparr>firstChild := v\<rparr>)"

definition set_last :: "wptr \<Rightarrow> wptr option \<Rightarrow> wheap \<Rightarrow> wheap" where
  "set_last w v h = h(w := (h w)\<lparr>lastChild := v\<rparr>)"

definition set_parent :: "wptr \<Rightarrow> wptr option \<Rightarrow> wheap \<Rightarrow> wheap" where
  "set_parent w v h = h(w := (h w)\<lparr>parent := v\<rparr>)"

text \<open>An assignment through a pointer that is tested for NULL before.\<close>

definition if_ptr :: "wptr option \<Rightarrow> (wptr \<Rightarrow> wheap \<Rightarrow> wheap) \<Rightarrow> wheap \<Rightarrow> wheap" where
  "if_ptr p f h = (case p of None \<Rightarrow> h | Some w \<Rightarrow> f w h)"

text \<open>
  A loop along sibling pointers that ends at the pointer \<open>e\<close> or at a window where it stops; its value
  is the last pointer.
\<close>

partial_function (option) for_sibs ::
    "wheap \<Rightarrow> (win \<Rightarrow> wptr option) \<Rightarrow> wptr option \<Rightarrow> (wptr \<Rightarrow> bool) \<Rightarrow> wptr option \<Rightarrow> wptr option option" where
  "for_sibs h nxt e stop c =
     (if c = e then Some c
      else case c of
             None \<Rightarrow> None
           | Some w \<Rightarrow> if stop w then Some c else for_sibs h nxt e stop (nxt (h w)))"

text \<open>The value stored in a \<open>short\<close>.\<close>

definition short :: "int \<Rightarrow> int" where
  "short i = (i + 32768) mod 65536 - 32768"

section \<open>Walking the tree\<close>

datatype walk_result = WT_WALKCHILDREN | WT_STOPWALKING | WT_DONTWALKCHILDREN | WT_NOMATCH

partial_function (option) climb :: "wheap \<Rightarrow> wptr \<Rightarrow> wptr \<Rightarrow> wptr option" where
  "climb h root c =
     (if nextSib (h c) = None \<and> c \<noteq> root
      then (case parent (h c) of None \<Rightarrow> None | Some p \<Rightarrow> climb h root p)
      else Some c)"

text \<open>
  The loop of \<open>TraverseTree\<close>, \<open>RealizeTree\<close> and \<open>UnrealizeTree\<close>: visit a window, go on with its first
  child, with its next sibling, or with the next sibling of the nearest ancestor that has one. The
  visit may change the state.
\<close>

partial_function (option) tree_loop ::
    "('s \<Rightarrow> wheap) \<Rightarrow> (wptr \<Rightarrow> 's \<Rightarrow> walk_result \<times> 's) \<Rightarrow> wptr \<Rightarrow> wptr \<Rightarrow> 's \<Rightarrow> (walk_result \<times> 's) option" where
  "tree_loop get visit root c s =
     (let (result, s1) = visit c s
      in if result = WT_STOPWALKING then Some (WT_STOPWALKING, s1)
         else if result = WT_WALKCHILDREN \<and> firstChild (get s1 c) \<noteq> None
         then tree_loop get visit root (the (firstChild (get s1 c))) s1
         else
           case climb (get s1) root c of
             None \<Rightarrow> None
           | Some c1 \<Rightarrow>
               if c1 = root then Some (WT_NOMATCH, s1)
               else tree_loop get visit root (the (nextSib (get s1 c1))) s1)"

definition TraverseTree ::
    "('s \<Rightarrow> wheap) \<Rightarrow> (wptr \<Rightarrow> 's \<Rightarrow> walk_result \<times> 's) \<Rightarrow> wptr option \<Rightarrow> 's \<Rightarrow> (walk_result \<times> 's) option" where
  "TraverseTree get func pWin s =
     (case pWin of None \<Rightarrow> Some (WT_NOMATCH, s) | Some w \<Rightarrow> tree_loop get func w w s)"

definition CompareWIDs :: "wheap \<Rightarrow> nat \<Rightarrow> wptr \<Rightarrow> walk_result" where
  "CompareWIDs h wid c = (if win_id (h c) = wid then WT_STOPWALKING else WT_WALKCHILDREN)"

section \<open>Links\<close>

text \<open>
  The head of the children with the Composite extension. While a saver shows, its window is the first
  child of the root; \<open>HasSaverWindow\<close> promises that the root has a child, without one the code would read
  the next sibling of a null pointer.
\<close>

definition CompositeRealChildHead :: "win_env \<Rightarrow> wptr option \<Rightarrow> wheap \<Rightarrow> wptr \<Rightarrow> wptr option" where
  "CompositeRealChildHead env overlay h w =
     (let pChildBefore = (if parent (h w) = None \<and> saver_window env then firstChild (h w) else None);
          pChild = (if parent (h w) = None \<and> saver_window env
                    then (case firstChild (h w) of Some c \<Rightarrow> nextSib (h c) | None \<Rightarrow> None)
                    else firstChild (h w))
      in if pChild = None then None
         else if pChild = overlay then pChild
         else pChildBefore)"

definition RealChildHead :: "win_env \<Rightarrow> wheap \<Rightarrow> wptr \<Rightarrow> wptr option" where
  "RealChildHead env h w =
     (case realChildHeadProc env of
        Some overlay \<Rightarrow> CompositeRealChildHead env overlay h w
      | None \<Rightarrow> if parent (h w) = None \<and> saver_window env then firstChild (h w) else None)"

text \<open>Out of the list of siblings, as in \<open>DeleteWindow\<close> and \<open>ReparentWindow\<close>.\<close>

definition unlink :: "wptr \<Rightarrow> wptr \<Rightarrow> wheap \<Rightarrow> wheap" where
  "unlink p w h0 =
     (let h1 = (if firstChild (h0 p) = Some w then set_first p (nextSib (h0 w)) h0 else h0);
          h2 = (if lastChild (h1 p) = Some w then set_last p (prevSib (h1 w)) h1 else h1);
          h3 = if_ptr (nextSib (h2 w)) (\<lambda>n. set_prev n (prevSib (h2 w))) h2
      in if_ptr (prevSib (h3 w)) (\<lambda>q. set_next q (nextSib (h3 w))) h3)"

text \<open>Into it behind the head, as in \<open>dixCreateWindow\<close> and \<open>ReparentWindow\<close>.\<close>

definition link_head :: "wptr option \<Rightarrow> wptr \<Rightarrow> wptr \<Rightarrow> wheap \<Rightarrow> wheap" where
  "link_head pHead p w h0 =
     (case pHead of
        Some q \<Rightarrow>
          let h1 = set_next w (nextSib (h0 q)) h0;
              h2 = (case nextSib (h1 q) of
                      Some n \<Rightarrow> set_prev n (Some w) h1
                    | None \<Rightarrow> set_last p (Some w) h1)
          in set_prev w (Some q) (set_next q (Some w) h2)
      | None \<Rightarrow>
          let h1 = set_prev w None (set_next w (firstChild (h0 p)) h0);
              h2 = (case firstChild (h1 p) of
                      Some n \<Rightarrow> set_prev n (Some w) h1
                    | None \<Rightarrow> set_last p (Some w) h1)
          in set_first p (Some w) h2)"

text \<open>The three ways of \<open>MoveWindowInStack\<close> to move a window below all others, to the top, and in between.\<close>

definition move_bottom :: "wptr \<Rightarrow> wptr \<Rightarrow> wptr \<Rightarrow> wptr \<Rightarrow> wheap \<Rightarrow> wheap" where
  "move_bottom p w n l h0 =
     (let h1 = (if firstChild (h0 p) = Some w then set_first p (Some n) h0 else h0);
          h2 = set_prev n (prevSib (h1 w)) h1;
          h3 = if_ptr (prevSib (h2 w)) (\<lambda>q. set_next q (nextSib (h2 w))) h2;
          h4 = set_next l (Some w) h3;
          h5 = set_prev w (lastChild (h4 p)) h4;
          h6 = set_next w None h5
      in set_last p (Some w) h6)"

definition move_top :: "wptr \<Rightarrow> wptr \<Rightarrow> wptr \<Rightarrow> wheap \<Rightarrow> wheap" where
  "move_top p w s h0 =
     (let h1 = (if lastChild (h0 p) = Some w then set_last p (prevSib (h0 w)) h0 else h0);
          h2 = if_ptr (nextSib (h1 w)) (\<lambda>n. set_prev n (prevSib (h1 w))) h1;
          h3 = if_ptr (prevSib (h2 w)) (\<lambda>q. set_next q (nextSib (h2 w))) h2;
          h4 = set_next w (firstChild (h3 p)) h3;
          h5 = set_prev w None h4;
          h6 = set_prev s (Some w) h5
      in set_first p (Some w) h6)"

definition move_middle :: "wptr \<Rightarrow> wptr \<Rightarrow> wptr \<Rightarrow> wheap \<Rightarrow> wheap" where
  "move_middle p w s h0 =
     (let h1 = (if firstChild (h0 p) = Some w then set_first p (nextSib (h0 w)) h0 else h0);
          h2 = (if lastChild (h1 p) = Some w then set_last p (prevSib (h1 w)) h1 else h1);
          h3 = if_ptr (nextSib (h2 w)) (\<lambda>n. set_prev n (prevSib (h2 w))) h2;
          h4 = if_ptr (prevSib (h3 w)) (\<lambda>q. set_next q (nextSib (h3 w))) h3;
          h5 = set_next w (Some s) h4;
          h6 = set_prev w (prevSib (h5 s)) h5;
          h7 = if_ptr (prevSib (h6 s)) (\<lambda>q. set_next q (Some w)) h6
      in set_prev s (Some w) h7)"

text \<open>The highest window where the list of siblings changes, and the heap.\<close>

definition MoveWindowInStack :: "wptr \<Rightarrow> wptr option \<Rightarrow> wheap \<Rightarrow> (wptr option \<times> wheap) option" where
  "MoveWindowInStack w pNextSib h =
     (if nextSib (h w) = pNextSib then Some (Some w, h)
      else case parent (h w) of
             None \<Rightarrow> None
           | Some p \<Rightarrow>
        case pNextSib of
          None \<Rightarrow>
            (case (nextSib (h w), lastChild (h p)) of
               (Some n, Some l) \<Rightarrow> Some (Some n, move_bottom p w n l h)
             | _ \<Rightarrow> None)
        | Some s \<Rightarrow>
            if firstChild (h p) = Some s then Some (Some w, move_top p w s h)
            else
              let pFirstChange = (if lastChild (h p) = Some w then Some w
                                  else if firstChild (h p) = Some w then nextSib (h w) else None);
                  h' = move_middle p w s h
              in if pFirstChange \<noteq> None then Some (pFirstChange, h')
                 else map_option (\<lambda>fc. (fc, h')) (for_sibs h' nextSib (nextSib (h w)) (\<lambda>x. x = w) (firstChild (h' p))))"

section \<open>Overlap and stacking requests\<close>

definition WindowExtents :: "wheap \<Rightarrow> wptr \<Rightarrow> box" where
  "WindowExtents h w =
     Box (short (win_x (h w) - borderWidth (h w))) (short (win_y (h w) - borderWidth (h w)))
         (short (win_x (h w) + win_width (h w) + borderWidth (h w)))
         (short (win_y (h w) + win_height (h w) + borderWidth (h w)))"

definition BOXES_OVERLAP :: "box \<Rightarrow> box \<Rightarrow> bool" where
  "BOXES_OVERLAP b1 b2 \<longleftrightarrow>
     \<not> (b_x2 b1 \<le> b_x1 b2 \<or> b_x1 b1 \<ge> b_x2 b2 \<or> b_y2 b1 \<le> b_y1 b2 \<or> b_y1 b1 \<ge> b_y2 b2)"

definition ShapeOverlap :: "win_env \<Rightarrow> wheap \<Rightarrow> wptr \<Rightarrow> box \<Rightarrow> wptr \<Rightarrow> box \<Rightarrow> bool" where
  "ShapeOverlap env h w b s sb \<longleftrightarrow> (\<not> shaped (h w) \<and> \<not> shaped (h s)) \<or> shapes_meet env w b s sb"

definition overlaps :: "win_env \<Rightarrow> wheap \<Rightarrow> wptr \<Rightarrow> box \<Rightarrow> wptr \<Rightarrow> bool" where
  "overlaps env h w b s \<longleftrightarrow>
     mapped (h s) \<and> BOXES_OVERLAP (WindowExtents h s) b \<and> ShapeOverlap env h w b s (WindowExtents h s)"

definition AnyWindowOverlapsMe :: "win_env \<Rightarrow> wheap \<Rightarrow> wptr \<Rightarrow> wptr option \<Rightarrow> box \<Rightarrow> bool option" where
  "AnyWindowOverlapsMe env h w pHead b =
     map_option (\<lambda>c. c \<noteq> pHead) (for_sibs h prevSib pHead (overlaps env h w b) (prevSib (h w)))"

definition IOverlapAnyWindow :: "win_env \<Rightarrow> wheap \<Rightarrow> wptr \<Rightarrow> box \<Rightarrow> bool option" where
  "IOverlapAnyWindow env h w b =
     map_option (\<lambda>c. c \<noteq> None) (for_sibs h nextSib None (overlaps env h w b) (nextSib (h w)))"

definition IsSiblingAboveMe :: "wheap \<Rightarrow> wptr \<Rightarrow> wptr \<Rightarrow> stack_mode option" where
  "IsSiblingAboveMe h me sib =
     (case parent (h me) of
        None \<Rightarrow> None
      | Some p \<Rightarrow>
          map_option (\<lambda>c. if c = Some sib then Above else Below)
            (for_sibs h nextSib None (\<lambda>x. x = sib \<or> x = me) (firstChild (h p))))"

definition WhereDoIGoInTheStack ::
    "win_env \<Rightarrow> wheap \<Rightarrow> wptr \<Rightarrow> wptr option \<Rightarrow> int \<Rightarrow> int \<Rightarrow> int \<Rightarrow> int \<Rightarrow> stack_mode \<Rightarrow> wptr option option" where
  "WhereDoIGoInTheStack env h w pSib x y wd ht smode =
     (case parent (h w) of
        None \<Rightarrow> None
      | Some p \<Rightarrow>
          if Some w = firstChild (h p) \<and> Some w = lastChild (h p) then Some None
          else
            let pHead = RealChildHead env h p;
                pFirst = (case pHead of Some q \<Rightarrow> nextSib (h q) | None \<Rightarrow> firstChild (h p));
                b = Box (short x) (short y) (short (x + wd)) (short (y + ht));
                stay = nextSib (h w);
                unmapped = (\<not> mapped (h w) \<or> (case pSib of Some s \<Rightarrow> \<not> mapped (h s) | None \<Rightarrow> False))
            in (case smode of
                  Above \<Rightarrow>
                    (case pSib of
                       Some s \<Rightarrow> Some (Some s)
                     | None \<Rightarrow> Some (if Some w = pFirst then stay else pFirst))
                | Below \<Rightarrow>
                    (case pSib of
                       Some s \<Rightarrow> Some (if nextSib (h s) \<noteq> Some w then nextSib (h s) else stay)
                     | None \<Rightarrow> Some None)
                | TopIf \<Rightarrow>
                    if unmapped then Some stay
                    else (case pSib of
                            Some s \<Rightarrow>
                              map_option (\<lambda>m. if m = Above \<and> border_meets env s b then pFirst else stay)
                                (IsSiblingAboveMe h w s)
                          | None \<Rightarrow>
                              map_option (\<lambda>o1. if o1 then pFirst else stay) (AnyWindowOverlapsMe env h w pHead b))
                | BottomIf \<Rightarrow>
                    if unmapped then Some stay
                    else (case pSib of
                            Some s \<Rightarrow>
                              map_option (\<lambda>m. if m = Below \<and> border_meets env s b then None else stay)
                                (IsSiblingAboveMe h w s)
                          | None \<Rightarrow>
                              map_option (\<lambda>o1. if o1 then None else stay) (IOverlapAnyWindow env h w b))
                | Opposite \<Rightarrow>
                    if unmapped then Some stay
                    else (case pSib of
                            Some s \<Rightarrow>
                              if border_meets env s b
                              then map_option (\<lambda>m. if m = Above then pFirst else None) (IsSiblingAboveMe h w s)
                              else Some stay
                          | None \<Rightarrow>
                              (case AnyWindowOverlapsMe env h w pHead b of
                                 None \<Rightarrow> None
                               | Some True \<Rightarrow> Some pFirst
                               | Some False \<Rightarrow>
                                   map_option (\<lambda>o2. if o2 then None else stay) (IOverlapAnyWindow env h w b)))))"

end
