(* ===== verification/Window_Place.thy ===== *)
theory Window_Place
  imports Window_Tree
begin

text \<open>
  Where windows are: every window keeps its place in its parent and its place on the screen, and
  moving or resizing a window moves all windows below it (\<open>dix/window.c\<close>).
\<close>

section \<open>Steps on the state\<close>

definition upd_win :: "wptr \<Rightarrow> (win \<Rightarrow> win) \<Rightarrow> wstate \<Rightarrow> wstate" where
  "upd_win w f s = s\<lparr>wheap := (wheap s)(w := f (wheap s w))\<rparr>"

definition trace_event :: "wevent \<Rightarrow> wstate \<Rightarrow> wstate" where
  "trace_event e s = s\<lparr>wtrace := wtrace s @ [e]\<rparr>"

definition trace_if :: "bool \<Rightarrow> wevent \<Rightarrow> wstate \<Rightarrow> wstate" where
  "trace_if b e s = (if b then trace_event e s else s)"

section \<open>Gravity\<close>

text \<open>Division by two in C drops the fraction.\<close>

definition half :: "int \<Rightarrow> int" where
  "half d = (if d < 0 then - ((- d) div 2) else d div 2)"

definition GravityTranslate :: "int \<Rightarrow> int \<Rightarrow> int \<Rightarrow> int \<Rightarrow> int \<Rightarrow> int \<Rightarrow> gravity \<Rightarrow> int \<times> int" where
  "GravityTranslate x y oldx oldy dw dh g =
     (case g of
        NorthGravity \<Rightarrow> (x + half dw, y)
      | NorthEastGravity \<Rightarrow> (x + dw, y)
      | WestGravity \<Rightarrow> (x, y + half dh)
      | CenterGravity \<Rightarrow> (x + half dw, y + half dh)
      | EastGravity \<Rightarrow> (x + dw, y + half dh)
      | SouthWestGravity \<Rightarrow> (x, y + dh)
      | SouthGravity \<Rightarrow> (x + half dw, y + dh)
      | SouthEastGravity \<Rightarrow> (x + dw, y + dh)
      | StaticGravity \<Rightarrow> (oldx, oldy)
      | _ \<Rightarrow> (x, y))"

section \<open>Places\<close>

text \<open>A window at the place \<open>x\<close>, \<open>y\<close> of its parent.\<close>

definition set_place :: "wptr \<Rightarrow> int \<Rightarrow> int \<Rightarrow> int \<Rightarrow> wptr \<Rightarrow> wstate \<Rightarrow> wstate" where
  "set_place w x y bw p s =
     upd_win w (\<lambda>r. r\<lparr>origin_x := short (x + bw), origin_y := short (y + bw),
       win_x := short (win_x (wheap s p) + x + bw), win_y := short (win_y (wheap s p) + y + bw)\<rparr>) s"

text \<open>The place on the screen, from that of the parent.\<close>

definition place_under :: "wptr \<Rightarrow> wptr \<Rightarrow> wstate \<Rightarrow> wstate" where
  "place_under p c s =
     upd_win c (\<lambda>r. r\<lparr>win_x := short (win_x (wheap s p) + origin_x r), win_y := short (win_y (wheap s p) + origin_y r)\<rparr>) s"

definition place_visit :: "wptr \<Rightarrow> wstate \<Rightarrow> walk_result \<times> wstate" where
  "place_visit c s = (WT_WALKCHILDREN, case parent (wheap s c) of Some p \<Rightarrow> place_under p c s | None \<Rightarrow> s)"

text \<open>A child whose gravity asks for it goes to another place when its parent was resized.\<close>

definition gravitate :: "wptr \<Rightarrow> int \<Rightarrow> int \<Rightarrow> int \<Rightarrow> int \<Rightarrow> wstate \<Rightarrow> wstate" where
  "gravitate c dx dy dw dh s =
     (let r = wheap s c; g = winGravity r
      in if (dw \<noteq> 0 \<or> dh \<noteq> 0) \<and> g \<noteq> UnmapGravity \<and> g \<noteq> NorthWestGravity
         then let (cwsx, cwsy) = GravityTranslate (origin_x r) (origin_y r) (origin_x r - dx) (origin_y r - dy) dw dh g
              in if cwsx \<noteq> origin_x r \<or> cwsy \<noteq> origin_y r
                 then upd_win c (\<lambda>r. r\<lparr>origin_x := short cwsx, origin_y := short cwsy\<rparr>)
                        (trace_event (GravityNotify c (cwsx - borderWidth r) (cwsy - borderWidth r)) s)
                 else s
         else s)"

partial_function (option) place_siblings ::
    "wptr \<Rightarrow> int \<Rightarrow> int \<Rightarrow> int \<Rightarrow> int \<Rightarrow> wptr option \<Rightarrow> wstate \<Rightarrow> wstate option" where
  "place_siblings w dx dy dw dh c s =
     (case c of
        None \<Rightarrow> Some s
      | Some b \<Rightarrow>
          let s1 = place_under w b (gravitate b dx dy dw dh s)
          in case (case firstChild (wheap s1 b) of
                     None \<Rightarrow> Some s1
                   | Some d \<Rightarrow> map_option snd (tree_loop wheap place_visit b d s1)) of
               None \<Rightarrow> None
             | Some s2 \<Rightarrow> place_siblings w dx dy dw dh (nextSib (wheap s2 b)) s2)"

definition ResizeChildrenWinSize :: "wptr \<Rightarrow> int \<Rightarrow> int \<Rightarrow> int \<Rightarrow> int \<Rightarrow> wstate \<Rightarrow> wstate option" where
  "ResizeChildrenWinSize w dx dy dw dh s = place_siblings w dx dy dw dh (firstChild (wheap s w)) s"

end
