(* ===== verification/Window_Life.thy ===== *)
theory Window_Life
  imports Window_Place
begin

text \<open>
  Mapping, unmapping, circulating, creating, reparenting and destroying windows
  (\<open>dix/window.c\<close>).
\<close>

section \<open>Realized and viewable windows\<close>

definition realize_visit :: "wptr \<Rightarrow> wstate \<Rightarrow> walk_result \<times> wstate" where
  "realize_visit c s =
     (if mapped (wheap s c)
      then (WT_WALKCHILDREN,
            trace_event (RealizeCall c)
              (upd_win c (\<lambda>r. r\<lparr>realized := True, viewable := inputOutput r\<rparr>) s))
      else (WT_DONTWALKCHILDREN, s))"

definition RealizeTree :: "wptr \<Rightarrow> wstate \<Rightarrow> wstate option" where
  "RealizeTree w s = map_option snd (tree_loop wheap realize_visit w w s)"

definition dixScreenRaiseUnrealizeWindow :: "wptr \<Rightarrow> wstate \<Rightarrow> wstate" where
  "dixScreenRaiseUnrealizeWindow w s = trace_event (UnrealizeCall w) (upd_win w (\<lambda>r. r\<lparr>realized := False\<rparr>) s)"

definition unrealize_visit :: "wptr \<Rightarrow> wstate \<Rightarrow> walk_result \<times> wstate" where
  "unrealize_visit c s =
     (if realized (wheap s c)
      then (WT_WALKCHILDREN, upd_win c (\<lambda>r. r\<lparr>viewable := False\<rparr>) (dixScreenRaiseUnrealizeWindow c s))
      else (WT_DONTWALKCHILDREN, s))"

definition UnrealizeTree :: "wptr \<Rightarrow> wstate \<Rightarrow> wstate option" where
  "UnrealizeTree w s = map_option snd (tree_loop wheap unrealize_visit w w s)"

section \<open>Mapping\<close>

text \<open>Mapping a child whose request nobody takes: the flag, the event and the windows realized by it.\<close>

definition map_child :: "win_env \<Rightarrow> wptr \<Rightarrow> wptr \<Rightarrow> wstate \<Rightarrow> wstate option" where
  "map_child env p w s =
     (let s1 = trace_if (SubStrSend env w p) (MapNotify w) (upd_win w (\<lambda>r. r\<lparr>mapped := True\<rparr>) s)
      in if realized (wheap s1 p) then RealizeTree w s1 else Some s1)"

text \<open>Whether the request goes to a client that redirects requests for the children, instead of being done.\<close>

definition redirected :: "win_env \<Rightarrow> wptr \<Rightarrow> wptr \<Rightarrow> wstate \<Rightarrow> bool" where
  "redirected env p w s \<longleftrightarrow>
     \<not> overrideRedirect (wheap s w) \<and> RedirectSend env p \<and> takes_request env (MapRequest w p)"

definition MapWindow :: "win_env \<Rightarrow> wptr \<Rightarrow> wstate \<Rightarrow> wstate option" where
  "MapWindow env w s =
     (if mapped (wheap s w) then Some s
      else if \<not> show_access env w then Some s
      else case parent (wheap s w) of
             Some p \<Rightarrow>
               if redirected env p w s then Some (trace_event (MapRequest w p) s)
               else map_child env p w s
           | None \<Rightarrow>
               Some (trace_event (RealizeCall w)
                 (upd_win w (\<lambda>r. r\<lparr>mapped := True, realized := True, viewable := inputOutput r\<rparr>) s)))"

partial_function (option) map_siblings :: "win_env \<Rightarrow> wptr \<Rightarrow> wptr option \<Rightarrow> wstate \<Rightarrow> wstate option" where
  "map_siblings env p c s =
     (case c of
        None \<Rightarrow> Some s
      | Some w \<Rightarrow>
          (case (if mapped (wheap s w) then Some s
                 else if redirected env p w s then Some (trace_event (MapRequest w p) s)
                 else map_child env p w s) of
             None \<Rightarrow> None
           | Some s1 \<Rightarrow> map_siblings env p (nextSib (wheap s1 w)) s1))"

definition MapSubwindows :: "win_env \<Rightarrow> wptr \<Rightarrow> wstate \<Rightarrow> wstate option" where
  "MapSubwindows env p s = map_siblings env p (firstChild (wheap s p)) s"

definition unmap_child :: "win_env \<Rightarrow> wptr \<Rightarrow> wptr \<Rightarrow> bool \<Rightarrow> wstate \<Rightarrow> wstate option" where
  "unmap_child env p w fromConfigure s =
     (let s1 = upd_win w (\<lambda>r. r\<lparr>mapped := False\<rparr>) (trace_if (SubStrSend env w p) (UnmapNotify w fromConfigure) s)
      in if realized (wheap s w) then UnrealizeTree w s1 else Some s1)"

definition UnmapWindow :: "win_env \<Rightarrow> wptr \<Rightarrow> bool \<Rightarrow> wstate \<Rightarrow> wstate option" where
  "UnmapWindow env w fromConfigure s =
     (if \<not> mapped (wheap s w) then Some s
      else case parent (wheap s w) of
             None \<Rightarrow> Some s
           | Some p \<Rightarrow> unmap_child env p w fromConfigure s)"

partial_function (option) unmap_siblings ::
    "win_env \<Rightarrow> wptr \<Rightarrow> wptr option \<Rightarrow> wptr option \<Rightarrow> wstate \<Rightarrow> wstate option" where
  "unmap_siblings env p pHead c s =
     (if c = pHead then Some s
      else case c of
             None \<Rightarrow> None
           | Some w \<Rightarrow>
               (case (if mapped (wheap s w) then unmap_child env p w False s else Some s) of
                  None \<Rightarrow> None
                | Some s1 \<Rightarrow> unmap_siblings env p pHead (prevSib (wheap s1 w)) s1))"

definition UnmapSubwindows :: "win_env \<Rightarrow> wptr \<Rightarrow> wstate \<Rightarrow> wstate option" where
  "UnmapSubwindows env p s =
     (if firstChild (wheap s p) = None then Some s
      else unmap_siblings env p (RealChildHead env (wheap s) p) (lastChild (wheap s p)) s)"

section \<open>Circulating\<close>

text \<open>Restacking a window; a root window stays. Clipping and exposures follow in the code.\<close>

definition ReflectStackChange :: "wptr \<Rightarrow> wptr option \<Rightarrow> wstate \<Rightarrow> wstate option" where
  "ReflectStackChange w pSib s =
     (if parent (wheap s w) = None then Some s
      else map_option (\<lambda>(_, h). s\<lparr>wheap := h\<rparr>) (MoveWindowInStack w pSib (wheap s)))"

text \<open>
  The window to circulate: from the bottom the first mapped one that a sibling overlaps, or from the
  top the first mapped one that overlaps a sibling.
\<close>

partial_function (option) find_lowest ::
    "win_env \<Rightarrow> wheap \<Rightarrow> wptr option \<Rightarrow> wptr option \<Rightarrow> wptr option option" where
  "find_lowest env h pHead c =
     (if c = pHead then Some c
      else case c of
             None \<Rightarrow> None
           | Some w \<Rightarrow>
               (case (if mapped (h w) then AnyWindowOverlapsMe env h w pHead (WindowExtents h w) else Some False) of
                  None \<Rightarrow> None
                | Some found \<Rightarrow> if found then Some c else find_lowest env h pHead (prevSib (h w))))"

partial_function (option) find_highest :: "win_env \<Rightarrow> wheap \<Rightarrow> wptr option \<Rightarrow> wptr option option" where
  "find_highest env h c =
     (case c of
        None \<Rightarrow> Some None
      | Some w \<Rightarrow>
          (case (if mapped (h w) then IOverlapAnyWindow env h w (WindowExtents h w) else Some False) of
             None \<Rightarrow> None
           | Some found \<Rightarrow> if found then Some c else find_highest env h (nextSib (h w))))"

definition CirculateWindow :: "win_env \<Rightarrow> wptr \<Rightarrow> bool \<Rightarrow> wstate \<Rightarrow> wstate option" where
  "CirculateWindow env p raiseLowest s =
     (let h = wheap s; pHead = RealChildHead env h p;
          pFirst = (case pHead of Some q \<Rightarrow> nextSib (h q) | None \<Rightarrow> firstChild (h p))
      in case (if raiseLowest then find_lowest env h pHead (lastChild (h p)) else find_highest env h pFirst) of
           None \<Rightarrow> None
         | Some c \<Rightarrow>
             if c = (if raiseLowest then pHead else None) then Some s
             else case c of
                    None \<Rightarrow> None
                  | Some w \<Rightarrow>
                      if RedirectSend env p \<and> takes_request env (CirculateRequest w raiseLowest)
                      then Some (trace_event (CirculateRequest w raiseLowest) s)
                      else ReflectStackChange w (if raiseLowest then pFirst else None)
                             (trace_event (CirculateNotify w raiseLowest) s))"

section \<open>Destroying\<close>

partial_function (option) leaf :: "wheap \<Rightarrow> wptr \<Rightarrow> wptr option" where
  "leaf h c = (case firstChild (h c) of Some d \<Rightarrow> leaf h d | None \<Rightarrow> Some c)"

definition free_window :: "wptr \<Rightarrow> wstate \<Rightarrow> wstate" where
  "free_window w s = (trace_event (FreedWindow w) s)\<lparr>wlive := wlive s - {w}\<rparr>"

definition crush_child :: "win_env \<Rightarrow> wptr \<Rightarrow> wptr \<Rightarrow> wstate \<Rightarrow> wstate" where
  "crush_child env p c s =
     (let s1 = upd_win c (\<lambda>r. r\<lparr>viewable := False\<rparr>) (trace_if (SubStrSend env c p) (DestroyNotify c) s);
          s2 = (if realized (wheap s1 c) then dixScreenRaiseUnrealizeWindow c s1 else s1)
      in free_window c s2)"

text \<open>
  The inner loop: destroy a window without children, then go to its next sibling, or clear the links
  of its parent and destroy that. \<open>None\<close> inside is the return at the root.
\<close>

partial_function (option) crush_up :: "win_env \<Rightarrow> wptr \<Rightarrow> wptr \<Rightarrow> wstate \<Rightarrow> (wptr option \<times> wstate) option" where
  "crush_up env root c s =
     (case parent (wheap s c) of
        None \<Rightarrow> None
      | Some p \<Rightarrow>
          let pSib = nextSib (wheap s c); s1 = crush_child env p c s
          in case pSib of
               Some b \<Rightarrow> Some (Some b, s1)
             | None \<Rightarrow>
                 let s2 = upd_win p (\<lambda>r. r\<lparr>firstChild := None, lastChild := None\<rparr>) s1
                 in if p = root then Some (None, s2) else crush_up env root p s2)"

partial_function (option) crush_loop :: "win_env \<Rightarrow> wptr \<Rightarrow> wptr \<Rightarrow> wstate \<Rightarrow> wstate option" where
  "crush_loop env root c s =
     (case leaf (wheap s) c of
        None \<Rightarrow> None
      | Some l \<Rightarrow>
          (case crush_up env root l s of
             None \<Rightarrow> None
           | Some (None, s1) \<Rightarrow> Some s1
           | Some (Some b, s1) \<Rightarrow> crush_loop env root b s1))"

definition CrushTree :: "win_env \<Rightarrow> wptr \<Rightarrow> wstate \<Rightarrow> wstate option" where
  "CrushTree env w s =
     (case firstChild (wheap s w) of None \<Rightarrow> Some s | Some c \<Rightarrow> crush_loop env w c s)"

definition DeleteWindow :: "win_env \<Rightarrow> wptr \<Rightarrow> bool \<Rightarrow> wstate \<Rightarrow> wstate option" where
  "DeleteWindow env w wid s =
     (case UnmapWindow env w False s of
        None \<Rightarrow> None
      | Some s1 \<Rightarrow>
          (case CrushTree env w s1 of
             None \<Rightarrow> None
           | Some s2 \<Rightarrow>
               Some (case parent (wheap s2 w) of
                       None \<Rightarrow> free_window w s2
                     | Some p \<Rightarrow>
                         let s3 = trace_if (wid \<and> SubStrSend env w p) (DestroyNotify w) s2
                         in free_window w (s3\<lparr>wheap := unlink p w (wheap s3)\<rparr>))))"

section \<open>Creating and reparenting\<close>

datatype win_class = CopyFromParent | InputOutput | InputOnly | OtherClass

text \<open>
  The arguments that \<open>dixCreateWindow\<close> checks against the parent: class, depth and visual, the
  border width and whether a colormap is given; and the depths with their visuals of the screen.
\<close>

record create_req =
  cr_class :: win_class
  cr_depth :: nat
  cr_visual :: nat
  cr_border :: int
  cr_colormap :: bool
  par_inputOutput :: bool
  par_depth :: nat
  par_visual :: nat
  par_colormap :: nat
  allowedDepths :: "(nat \<times> nat list) list"

definition create_class :: "create_req \<Rightarrow> win_class" where
  "create_class r =
     (if cr_class r = CopyFromParent then (if par_inputOutput r then InputOutput else InputOnly) else cr_class r)"

definition check_create :: "create_req \<Rightarrow> x_status" where
  "check_create r =
     (let cl = create_class r
      in if cl \<noteq> InputOutput \<and> cl \<noteq> InputOnly then BadValue
         else if cl \<noteq> InputOnly \<and> \<not> par_inputOutput r then BadMatch
         else if cl = InputOnly \<and> (cr_border r \<noteq> 0 \<or> cr_depth r \<noteq> 0) then BadMatch
         else
           let depth = (if cl = InputOutput \<and> cr_depth r = 0 then par_depth r else cr_depth r);
               visual = (if cr_visual r = 0 then par_visual r else cr_visual r)
           in if (visual \<noteq> par_visual r \<or> depth \<noteq> par_depth r) \<and>
                 \<not> list_ex (\<lambda>(d, vs). (depth = d \<or> depth = 0) \<and> visual \<in> set vs) (allowedDepths r)
              then BadMatch
              else if \<not> cr_colormap r \<and> cl \<noteq> InputOnly \<and> (visual \<noteq> par_visual r \<or> par_colormap r = 0)
              then BadMatch
              else Success)"

text \<open>
  The new window at the address \<open>w\<close>; \<open>new\<close> holds the arguments (identifier, place in the parent, size) and
  the flags its attributes set. \<open>mem\<close> says whether its memory is there, \<open>outcome\<close> is what the screen and the
  change of the attributes answer.
\<close>

definition dixCreateWindow ::
    "win_env \<Rightarrow> create_req \<Rightarrow> bool \<Rightarrow> x_status \<Rightarrow> x_status \<Rightarrow> wptr \<Rightarrow> wptr \<Rightarrow> win \<Rightarrow> wstate \<Rightarrow>
     (x_status \<times> wstate) option" where
  "dixCreateWindow env req mem access outcome p w new s =
     (if check_create req \<noteq> Success then Some (check_create req, s)
      else if \<not> mem then Some (BadAlloc, s)
      else if access \<noteq> Success then Some (access, s)
      else
        let r = new\<lparr>parent := Some p, firstChild := None, lastChild := None, nextSib := None, prevSib := None,
                    mapped := False, realized := False, viewable := False,
                    inputOutput := (create_class req = InputOutput),
                    borderWidth := cr_border req,
                    origin_x := short (win_x new + cr_border req), origin_y := short (win_y new + cr_border req),
                    win_x := short (win_x (wheap s p) + win_x new + cr_border req),
                    win_y := short (win_y (wheap s p) + win_y new + cr_border req)\<rparr>;
            s1 = s\<lparr>wheap := (wheap s)(w := r), wlive := wlive s \<union> {w}\<rparr>;
            s2 = s1\<lparr>wheap := link_head (RealChildHead env (wheap s1) p) p w (wheap s1)\<rparr>
        in if outcome \<noteq> Success
           then map_option (\<lambda>s3. (outcome, s3)) (DeleteWindow env w False s2)
           else Some (Success, trace_if (SubSend env p) (CreateNotify w p) s2))"

definition ReparentWindow ::
    "win_env \<Rightarrow> wptr \<Rightarrow> wptr \<Rightarrow> int \<Rightarrow> int \<Rightarrow> wstate \<Rightarrow> (x_status \<times> wstate) option" where
  "ReparentWindow env w p x y s =
     (case TraverseTree wheap (\<lambda>c s'. (CompareWIDs (wheap s') (win_id (wheap s p)) c, s')) (Some w) s of
        None \<Rightarrow> None
      | Some (res, _) \<Rightarrow>
          if res = WT_STOPWALKING then Some (BadMatch, s)
          else if \<not> optional_mem env then Some (BadAlloc, s)
          else
            let was_mapped = mapped (wheap s w); bw = borderWidth (wheap s w)
            in case (if was_mapped then UnmapWindow env w False s else Some s) of
                 None \<Rightarrow> None
               | Some s1 \<Rightarrow>
                   (case parent (wheap s1 w) of
                      None \<Rightarrow> None
                    | Some old \<Rightarrow>
                        let s2 = trace_event (ReparentNotify w p) s1;
                            h1 = set_parent w (Some p) (unlink old w (wheap s2));
                            h2 = link_head (RealChildHead env h1 p) p w h1;
                            s3 = set_place w x y bw p (s2\<lparr>wheap := h2\<rparr>)
                        in case ResizeChildrenWinSize w 0 0 0 0 s3 of
                             None \<Rightarrow> None
                           | Some s4 \<Rightarrow>
                               map_option (\<lambda>s5. (Success, s5)) (if was_mapped then MapWindow env w s4 else Some s4)))"

text \<open>
  Destroying the children of a window from the lowest on, when all are unmapped; \<open>access\<close> is what
  access control answers for a window.
\<close>

partial_function (option) destroy_children ::
    "win_env \<Rightarrow> (wptr \<Rightarrow> x_status) \<Rightarrow> wptr \<Rightarrow> wstate \<Rightarrow> (x_status \<times> wstate) option" where
  "destroy_children env access p s =
     (case lastChild (wheap s p) of
        None \<Rightarrow> Some (Success, s)
      | Some c \<Rightarrow>
          if access c \<noteq> Success then Some (access c, s)
          else (case DeleteWindow env c True s of
                  None \<Rightarrow> None
                | Some s1 \<Rightarrow> destroy_children env access p s1))"

definition DestroySubwindows ::
    "win_env \<Rightarrow> (wptr \<Rightarrow> x_status) \<Rightarrow> wptr \<Rightarrow> wstate \<Rightarrow> (x_status \<times> wstate) option" where
  "DestroySubwindows env access p s =
     (case UnmapSubwindows env p s of None \<Rightarrow> None | Some s1 \<Rightarrow> destroy_children env access p s1)"

end
