(* ===== verification/Window_Configure.thy ===== *)
theory Window_Configure
  imports Window_Life Requests
begin

text \<open>
  Configuring a window: the request \<open>ConfigureWindow\<close> of \<open>dix/window.c\<close> and the default screen procedures of
  \<open>mi/miwindow.c\<close> that move and resize a window or change its border. Clipping, copying and painting are left
  out, and so is the confinement of the pointer.
\<close>

section \<open>Moving and resizing\<close>

definition move_in_stack :: "wptr \<Rightarrow> wptr option \<Rightarrow> wstate \<Rightarrow> wstate option" where
  "move_in_stack w sib s = map_option (\<lambda>(_, h). s\<lparr>wheap := h\<rparr>) (MoveWindowInStack w sib (wheap s))"

definition miMoveWindow :: "wptr \<Rightarrow> int \<Rightarrow> int \<Rightarrow> wptr option \<Rightarrow> wstate \<Rightarrow> wstate option" where
  "miMoveWindow w x y pNextSib s =
     (case parent (wheap s w) of
        None \<Rightarrow> Some s
      | Some p \<Rightarrow>
          let r = wheap s w; s1 = set_place w x y (short (borderWidth r)) p s; r1 = wheap s1 w
          in case move_in_stack w pNextSib s1 of
               None \<Rightarrow> None
             | Some s2 \<Rightarrow> ResizeChildrenWinSize w (win_x r1 - win_x r) (win_y r1 - win_y r) 0 0 s2)"

text \<open>Children with the gravity for it are unmapped when a viewable window is resized.\<close>

partial_function (option) unmap_gravity :: "win_env \<Rightarrow> wptr option \<Rightarrow> wstate \<Rightarrow> wstate option" where
  "unmap_gravity env c s =
     (case c of
        None \<Rightarrow> Some s
      | Some b \<Rightarrow>
          (case (if winGravity (wheap s b) = UnmapGravity then UnmapWindow env b True s else Some s) of
             None \<Rightarrow> None
           | Some s1 \<Rightarrow> unmap_gravity env (nextSib (wheap s1 b)) s1))"

definition set_size :: "wptr \<Rightarrow> int \<Rightarrow> int \<Rightarrow> wstate \<Rightarrow> wstate" where
  "set_size w wd ht s = upd_win w (\<lambda>r. r\<lparr>drawable_width := word_of_int wd, drawable_height := word_of_int ht\<rparr>) s"

definition miResizeWindow ::
    "win_env \<Rightarrow> wptr \<Rightarrow> int \<Rightarrow> int \<Rightarrow> int \<Rightarrow> int \<Rightarrow> wptr option \<Rightarrow> wstate \<Rightarrow> wstate option" where
  "miResizeWindow env w x y wd ht pSib s =
     (case parent (wheap s w) of
        None \<Rightarrow> Some s
      | Some p \<Rightarrow>
          let r = wheap s w
          in case (if viewable r then unmap_gravity env (firstChild r) s else Some s) of
               None \<Rightarrow> None
             | Some s1 \<Rightarrow>
                 let s2 = set_size w wd ht (set_place w x y (borderWidth r) p s1); r2 = wheap s2 w
                 in case ResizeChildrenWinSize w (win_x r2 - win_x r) (win_y r2 - win_y r)
                           (short (wd - win_width r)) (short (ht - win_height r)) s2 of
                      None \<Rightarrow> None
                    | Some s3 \<Rightarrow> move_in_stack w pSib s3)"

definition set_border :: "wptr \<Rightarrow> int \<Rightarrow> wstate \<Rightarrow> wstate" where
  "set_border w bw s = upd_win w (\<lambda>r. r\<lparr>borderWidth := bw\<rparr>) s"

definition miChangeBorderWidth :: "wptr \<Rightarrow> int \<Rightarrow> wstate \<Rightarrow> wstate" where
  "miChangeBorderWidth w width s = (if borderWidth (wheap s w) = width then s else set_border w width s)"

section \<open>The arguments\<close>

text \<open>The bits of the value mask.\<close>

definition CWX :: nat where "CWX = 0"
definition CWY :: nat where "CWY = 1"
definition CWWidth :: nat where "CWWidth = 2"
definition CWHeight :: nat where "CWHeight = 3"
definition CWBorderWidth :: nat where "CWBorderWidth = 4"
definition CWSibling :: nat where "CWSibling = 5"
definition CWStackMode :: nat where "CWStackMode = 6"

lemmas cw_defs = CWX_def CWY_def CWWidth_def CWHeight_def CWBorderWidth_def CWSibling_def CWStackMode_def

definition INT16 :: "u32 \<Rightarrow> int" where
  "INT16 v = sint (ucast v :: u16)"

definition CARD16 :: "u32 \<Rightarrow> int" where
  "CARD16 v = uint (ucast v :: u16)"

text \<open>A value of the list when its bit is set; \<open>None\<close> is a read behind the end of the list.\<close>

definition GET :: "u32 \<Rightarrow> nat \<Rightarrow> (u32 \<Rightarrow> int) \<Rightarrow> int \<Rightarrow> u32 list \<Rightarrow> (int \<times> u32 list) option" where
  "GET msk m conv f pVlist =
     (if bit msk m then (case pVlist of [] \<Rightarrow> None | v # vs \<Rightarrow> Some (conv v, vs)) else Some (f, pVlist))"

definition mode_of :: "u32 \<Rightarrow> stack_mode option" where
  "mode_of v =
     (let m = unat (ucast v :: byte)
      in if m = 0 then Some Above else if m = 1 then Some Below else if m = 2 then Some TopIf
         else if m = 3 then Some BottomIf else if m = 4 then Some Opposite else None)"

datatype action = RESTACK_WIN | MOVE_WIN | RESIZE_WIN | REBORDER_WIN

text \<open>The part of the arguments in \<open>ChangeMask\<close>.\<close>

definition get_place :: "u32 \<Rightarrow> u32 list \<Rightarrow> conf \<Rightarrow> (x_status + action \<times> conf \<times> u32 list) option" where
  "get_place msk vs c =
     (if \<not> bit msk CWX \<and> \<not> bit msk CWY \<and> \<not> bit msk CWWidth \<and> \<not> bit msk CWHeight
      then Some (Inr (RESTACK_WIN, c, vs))
      else
        case GET msk CWX INT16 (cf_x c) vs of None \<Rightarrow> None | Some (x, vs1) \<Rightarrow>
       (case GET msk CWY INT16 (cf_y c) vs1 of None \<Rightarrow> None | Some (y, vs2) \<Rightarrow>
          if \<not> bit msk CWHeight \<and> \<not> bit msk CWWidth
          then Some (Inr (MOVE_WIN, c\<lparr>cf_x := x, cf_y := y\<rparr>, vs2))
          else
           (case GET msk CWWidth CARD16 (cf_width c) vs2 of None \<Rightarrow> None | Some (w, vs3) \<Rightarrow>
           (case GET msk CWHeight CARD16 (cf_height c) vs3 of None \<Rightarrow> None | Some (h, vs4) \<Rightarrow>
              if w = 0 \<or> h = 0 then Some (Inl BadValue)
              else Some (Inr (RESIZE_WIN, c\<lparr>cf_x := x, cf_y := y, cf_width := w, cf_height := h\<rparr>, vs4))))))"

text \<open>The bits outside of \<open>ChangeMask\<close>, the lowest first.\<close>

definition other_bits :: "u32 \<Rightarrow> nat list" where
  "other_bits msk = filter (bit msk) [4..<32]"

text \<open>The other arguments, one for each bit from the lowest on; \<open>lookup\<close> finds the window of the sibling's identifier.\<close>

fun get_others ::
    "(u32 \<Rightarrow> x_status + wptr) \<Rightarrow> wheap \<Rightarrow> wptr \<Rightarrow> nat list \<Rightarrow> u32 list \<Rightarrow> conf \<Rightarrow> (x_status + conf) option" where
  "get_others lookup h w [] vs c = Some (Inr c)"
| "get_others lookup h w (b # bs) vs c =
     (if b \<noteq> CWBorderWidth \<and> b \<noteq> CWSibling \<and> b \<noteq> CWStackMode then Some (Inl BadValue)
      else
        case vs of
          [] \<Rightarrow> None
        | v # vs1 \<Rightarrow>
            if b = CWBorderWidth then get_others lookup h w bs vs1 (c\<lparr>cf_border := CARD16 v\<rparr>)
            else if b = CWSibling
            then (case lookup v of
                    Inl rc \<Rightarrow> Some (Inl rc)
                  | Inr sib \<Rightarrow>
                      if parent (h sib) \<noteq> parent (h w) \<or> sib = w then Some (Inl BadMatch)
                      else get_others lookup h w bs vs1 (c\<lparr>cf_sibling := Some sib\<rparr>))
            else (case mode_of v of
                    None \<Rightarrow> Some (Inl BadValue)
                  | Some m \<Rightarrow> get_others lookup h w bs vs1 (c\<lparr>cf_mode := m\<rparr>)))"

text \<open>The values of the window as it is.\<close>

definition conf_of :: "wheap \<Rightarrow> wptr \<Rightarrow> conf" where
  "conf_of h w =
     (let r = h w
      in \<lparr>cf_x = (case parent r of Some p \<Rightarrow> short (win_x r - win_x (h p) - borderWidth r) | None \<Rightarrow> win_x r),
          cf_y = (case parent r of Some p \<Rightarrow> short (win_y r - win_y (h p) - borderWidth r) | None \<Rightarrow> win_y r),
          cf_width = win_width r, cf_height = win_height r, cf_border = borderWidth r,
          cf_sibling = None, cf_mode = Above\<rparr>)"

definition configure_args ::
    "(u32 \<Rightarrow> x_status + wptr) \<Rightarrow> wheap \<Rightarrow> wptr \<Rightarrow> u32 \<Rightarrow> u32 list \<Rightarrow> (x_status + action \<times> conf) option" where
  "configure_args lookup h w msk vlist =
     (if \<not> inputOutput (h w) \<and> bit msk CWBorderWidth then Some (Inl BadMatch)
      else if bit msk CWSibling \<and> \<not> bit msk CWStackMode then Some (Inl BadMatch)
      else
        case get_place msk vlist (conf_of h w) of
          None \<Rightarrow> None
        | Some (Inl e) \<Rightarrow> Some (Inl e)
        | Some (Inr (act, c, vs)) \<Rightarrow>
            (case get_others lookup h w (other_bits msk) vs c of
               None \<Rightarrow> None
             | Some (Inl e) \<Rightarrow> Some (Inl e)
             | Some (Inr c1) \<Rightarrow> Some (Inr (act, c1))))"

section \<open>The request\<close>

text \<open>
  Whether a resize is left to another client, and what is then to be done; \<open>None\<close> when nothing is.
\<close>

definition size_redirected :: "win_env \<Rightarrow> wheap \<Rightarrow> wptr \<Rightarrow> action \<Rightarrow> conf \<Rightarrow> bool" where
  "size_redirected env h w act c \<longleftrightarrow>
     act = RESIZE_WIN \<and> (cf_width c \<noteq> win_width (h w) \<or> cf_height c \<noteq> win_height (h w)) \<and> ResizeSend env w \<and>
     takes_request env (ResizeRequest w (cf_width c) (cf_height c))"

definition own_size :: "wheap \<Rightarrow> wptr \<Rightarrow> conf \<Rightarrow> conf" where
  "own_size h w c = c\<lparr>cf_width := win_width (h w), cf_height := win_height (h w)\<rparr>"

definition configure_action :: "wheap \<Rightarrow> wptr \<Rightarrow> u32 \<Rightarrow> action \<Rightarrow> conf \<Rightarrow> action option" where
  "configure_action h w msk act c =
     (if act = RESIZE_WIN \<and> cf_width c = win_width (h w) \<and> cf_height c = win_height (h w)
      then if bit msk CWX \<or> bit msk CWY then Some MOVE_WIN
           else if bit msk CWStackMode \<or> bit msk CWBorderWidth then Some RESTACK_WIN
           else None
      else Some act)"

definition changes_something :: "wheap \<Rightarrow> wptr \<Rightarrow> u32 \<Rightarrow> action \<Rightarrow> conf \<Rightarrow> wptr option \<Rightarrow> bool" where
  "changes_something h w msk act c pSib \<longleftrightarrow>
     act = RESIZE_WIN \<or> (bit msk CWX \<and> cf_x c \<noteq> cf_x (conf_of h w)) \<or> (bit msk CWY \<and> cf_y c \<noteq> cf_y (conf_of h w)) \<or>
     (bit msk CWBorderWidth \<and> cf_border c \<noteq> borderWidth (h w)) \<or> (bit msk CWStackMode \<and> nextSib (h w) \<noteq> pSib)"

text \<open>The changes, when they are to be made.\<close>

definition ActuallyDoSomething ::
    "win_env \<Rightarrow> wptr \<Rightarrow> u32 \<Rightarrow> action \<Rightarrow> conf \<Rightarrow> wptr option \<Rightarrow> wstate \<Rightarrow> wstate option" where
  "ActuallyDoSomething env w msk act c pSib s =
     (let r = wheap s w; before = conf_of (wheap s) w; x = cf_x c; y = cf_y c; bw = cf_border c;
          (act1, s1) =
            (if bit msk CWBorderWidth
             then if act = RESTACK_WIN then (MOVE_WIN, set_border w bw s)
                  else if act = MOVE_WIN \<and> cf_x before + borderWidth r = x + bw \<and> cf_y before + borderWidth r = y + bw
                  then (REBORDER_WIN, miChangeBorderWidth w bw s)
                  else (act, set_border w bw s)
             else (act, s))
      in if act1 = MOVE_WIN then miMoveWindow w x y pSib s1
         else if act1 = RESIZE_WIN then miResizeWindow env w x y (cf_width c) (cf_height c) pSib s1
         else if bit msk CWStackMode then ReflectStackChange w pSib s1
         else Some s1)"

definition ConfigureWindow ::
    "win_env \<Rightarrow> (u32 \<Rightarrow> x_status + wptr) \<Rightarrow> wptr \<Rightarrow> u32 \<Rightarrow> u32 list \<Rightarrow> wstate \<Rightarrow> (x_status \<times> wstate) option" where
  "ConfigureWindow env lookup w msk vlist s =
     (let h = wheap s
      in case configure_args lookup h w msk vlist of
           None \<Rightarrow> None
         | Some (Inl e) \<Rightarrow> Some (e, s)
         | Some (Inr (act, c)) \<Rightarrow>
             (case parent (h w) of
                None \<Rightarrow> Some (Success, s)
              | Some p \<Rightarrow>
                 (case (if bit msk CWStackMode
                        then WhereDoIGoInTheStack env h w (cf_sibling c) (win_x (h p) + cf_x c) (win_y (h p) + cf_y c)
                               ((cf_width c + 2 * cf_border c) mod 65536) ((cf_height c + 2 * cf_border c) mod 65536) (cf_mode c)
                        else Some (nextSib (h w))) of
                    None \<Rightarrow> None
                  | Some pSib \<Rightarrow>
                      if \<not> overrideRedirect (h w) \<and> RedirectSend env p \<and> takes_request env (ConfigureRequest w c)
                      then Some (Success, trace_event (ConfigureRequest w c) s)
                      else
                        let kept = size_redirected env h w act c;
                            s1 = trace_if kept (ResizeRequest w (cf_width c) (cf_height c)) s;
                            c1 = (if kept then own_size h w c else c)
                        in case configure_action h w msk act c1 of
                             None \<Rightarrow> Some (Success, s1)
                           | Some act1 \<Rightarrow>
                               if \<not> changes_something h w msk act1 c1 pSib then Some (Success, s1)
                               else if ConfigNotify env w (c1\<lparr>cf_sibling := pSib\<rparr>) \<noteq> Success
                               then Some (ConfigNotify env w (c1\<lparr>cf_sibling := pSib\<rparr>), s1)
                               else map_option (\<lambda>s2. (Success, s2))
                                      (ActuallyDoSomething env w msk act1 c1 pSib
                                        (trace_if (SubStrSend env w p) (ConfigureNotify w (c1\<lparr>cf_sibling := pSib\<rparr>)) s1)))))"

text \<open>The number of bits set.\<close>

definition Ones :: "u32 \<Rightarrow> nat" where
  "Ones msk = length (filter (bit msk) [0..<32])"

text \<open>The handler: \<open>manage\<close> finds the window, \<open>req_len\<close> is the length of the request in words.\<close>

definition ProcConfigureWindow ::
    "win_env \<Rightarrow> (u32 \<Rightarrow> x_status + wptr) \<Rightarrow> (u32 \<Rightarrow> x_status + wptr) \<Rightarrow> nat \<Rightarrow> u32 \<Rightarrow> u16 \<Rightarrow> u32 list \<Rightarrow> wstate \<Rightarrow>
     (x_status \<times> wstate) option" where
  "ProcConfigureWindow env manage lookup req_len wid msk mem s =
     (if \<not> REQUEST_AT_LEAST_SIZE 12 req_len then Some (BadLength, s)
      else case manage wid of
             Inl rc \<Rightarrow> Some (rc, s)
           | Inr w \<Rightarrow>
               let len = req_len - 3
               in if Ones (ucast msk) \<noteq> len then Some (BadLength, s)
                  else ConfigureWindow env lookup w (ucast msk) (take len mem) s)"

end
