(* ===== verification/Window_Tree_Laws.thy ===== *)
theory Window_Tree_Laws
  imports Window_Tree
begin

text \<open>
  The pointers of the windows stand for a tree: every window has the list of its children in
  stacking order. The walk visits the windows of a tree as a recursion over it does; restacking
  moves a window within the list of its siblings and touches nothing else.
\<close>

section \<open>Neighbours in a list\<close>

definition first_of :: "'a list \<Rightarrow> 'a option" where
  "first_of xs = (case xs of [] \<Rightarrow> None | x # _ \<Rightarrow> Some x)"

fun next_in :: "'a list \<Rightarrow> 'a \<Rightarrow> 'a option" where
  "next_in [] a = None"
| "next_in (x # xs) a = (if x = a then first_of xs else next_in xs a)"

definition last_of :: "'a list \<Rightarrow> 'a option" where
  "last_of xs = first_of (rev xs)"

definition prev_in :: "'a list \<Rightarrow> 'a \<Rightarrow> 'a option" where
  "prev_in xs a = next_in (rev xs) a"

lemma first_of_simps [simp]:
  "first_of [] = None" "first_of (x # xs) = Some x" "first_of (xs @ ys) = (if xs = [] then first_of ys else first_of xs)"
  by (auto simp: first_of_def split: list.splits)

lemma last_of_simps [simp]:
  "last_of [] = None" "last_of (xs @ [x]) = Some x" "last_of (xs @ ys) = (if ys = [] then last_of xs else last_of ys)"
  "last_of (x # xs) = (if xs = [] then Some x else last_of xs)"
  by (auto simp: last_of_def)

lemma first_of_Some: "first_of xs = Some a \<Longrightarrow> a \<in> set xs"
  by (cases xs) auto

lemma last_of_Some: "last_of xs = Some a \<Longrightarrow> a \<in> set xs"
  unfolding last_of_def by (drule first_of_Some) simp

lemma first_of_None [simp]: "first_of xs = None \<longleftrightarrow> xs = []"
  by (cases xs) auto

lemma last_of_None [simp]: "last_of xs = None \<longleftrightarrow> xs = []"
  by (simp add: last_of_def)

lemma next_in_append:
  "next_in (xs @ ys) a =
     (if a \<in> set xs then case next_in xs a of None \<Rightarrow> first_of ys | Some b \<Rightarrow> Some b else next_in ys a)"
  by (induction xs) (auto split: option.splits)

lemma next_in_outside: "a \<notin> set xs \<Longrightarrow> next_in xs a = None"
  by (induction xs) auto

lemma next_in_Some: "next_in xs a = Some b \<Longrightarrow> a \<in> set xs \<and> b \<in> set xs"
  by (induction xs) (auto split: if_splits dest: first_of_Some)

lemma next_in_None: "distinct xs \<Longrightarrow> a \<in> set xs \<Longrightarrow> next_in xs a = None \<longleftrightarrow> last_of xs = Some a"
proof (induction xs)
  case (Cons x xs)
  then show ?case by (cases "xs = []") (auto dest: last_of_Some)
qed simp

lemma prev_in_None: "distinct xs \<Longrightarrow> a \<in> set xs \<Longrightarrow> prev_in xs a = None \<longleftrightarrow> first_of xs = Some a"
  using next_in_None [of "rev xs" a] by (simp add: prev_in_def last_of_def)

lemma prev_in_append:
  "prev_in (xs @ ys) a =
     (if a \<in> set ys then case prev_in ys a of None \<Rightarrow> last_of xs | Some b \<Rightarrow> Some b else prev_in xs a)"
  by (simp add: prev_in_def next_in_append last_of_def split: option.split)

lemma prev_in_single [simp]: "prev_in [x] a = None"
  by (simp add: prev_in_def)

lemma prev_in_Nil [simp]: "prev_in [] a = None"
  by (simp add: prev_in_def)

lemma prev_in_Some: "prev_in xs a = Some b \<Longrightarrow> a \<in> set xs \<and> b \<in> set xs"
  unfolding prev_in_def by (drule next_in_Some) simp

lemma prev_in_outside: "a \<notin> set xs \<Longrightarrow> prev_in xs a = None"
  by (simp add: prev_in_def next_in_outside)

lemma next_in_neq: "distinct xs \<Longrightarrow> next_in xs a = Some b \<Longrightarrow> a \<noteq> b"
  by (induction xs) (auto split: if_splits dest: first_of_Some)

lemma prev_in_neq: "distinct xs \<Longrightarrow> prev_in xs a = Some b \<Longrightarrow> a \<noteq> b"
  unfolding prev_in_def using next_in_neq [of "rev xs"] by simp

text \<open>Both relations are one: the next of \<open>a\<close> is \<open>b\<close> where the one before \<open>b\<close> is \<open>a\<close>.\<close>

lemma next_prev: "distinct xs \<Longrightarrow> next_in xs a = Some b \<longleftrightarrow> prev_in xs b = Some a"
proof (induction xs)
  case (Cons x xs)
  have "prev_in (x # xs) b = (if b \<in> set xs then case prev_in xs b of None \<Rightarrow> Some x | Some c \<Rightarrow> Some c else None)"
    using prev_in_append [of "[x]" xs b] by (simp split: option.split)
  then show ?case
    using Cons prev_in_None [of xs b] next_in_Some [of xs a b] prev_in_Some [of xs b a] first_of_Some [of xs b]
    by (auto split: option.splits)
qed simp

section \<open>Children\<close>

definition children_ok :: "wheap \<Rightarrow> wptr \<Rightarrow> wptr list \<Rightarrow> bool" where
  "children_ok h p ws \<longleftrightarrow> distinct ws \<and> p \<notin> set ws \<and> firstChild (h p) = first_of ws \<and> lastChild (h p) = last_of ws \<and>
     (\<forall>w \<in> set ws. parent (h w) = Some p \<and> nextSib (h w) = next_in ws w \<and> prevSib (h w) = prev_in ws w)"

lemma children_ok_child:
  assumes "children_ok h p ws" "w \<in> set ws"
  shows "parent (h w) = Some p" "nextSib (h w) = next_in ws w" "prevSib (h w) = prev_in ws w" "w \<noteq> p"
  using assms by (auto simp: children_ok_def)

text \<open>Where a list of siblings is as the heap says, the fields of its windows in another heap decide.\<close>

lemma children_ok_frame:
  assumes "children_ok h p ws" "firstChild (h' p) = firstChild (h p)" "lastChild (h' p) = lastChild (h p)"
    and "\<And>w. w \<in> set ws \<Longrightarrow> parent (h' w) = parent (h w) \<and> nextSib (h' w) = nextSib (h w) \<and> prevSib (h' w) = prevSib (h w)"
  shows "children_ok h' p ws"
  using assms by (auto simp: children_ok_def)

lemma split_around:
  assumes "w \<in> set ws"
  obtains xs ys where "ws = xs @ w # ys"
  using split_list [OF assms] by blast

text \<open>Taking out of the list.\<close>

definition unlinked :: "wptr \<Rightarrow> wptr \<Rightarrow> wheap \<Rightarrow> wheap" where
  "unlinked p w h = (\<lambda>x. (h x)\<lparr>
     firstChild := (if x = p \<and> firstChild (h p) = Some w then nextSib (h w) else firstChild (h x)),
     lastChild := (if x = p \<and> lastChild (h p) = Some w then prevSib (h w) else lastChild (h x)),
     prevSib := (if nextSib (h w) = Some x then prevSib (h w) else prevSib (h x)),
     nextSib := (if prevSib (h w) = Some x then nextSib (h w) else nextSib (h x))\<rparr>)"

lemma unlinked_children:
  assumes ok: "children_ok h p (xs @ w # ys)"
  shows "children_ok (unlinked p w h) p (xs @ ys)"
proof -
  let ?ws = "xs @ w # ys"
  have d: "distinct ?ws" "p \<notin> set ?ws" using ok by (auto simp: children_ok_def)
  have n: "nextSib (h w) = first_of ys" "prevSib (h w) = last_of xs"
    using ok d by (simp_all add: children_ok_def next_in_append prev_in_append next_in_outside prev_in_outside prev_in_append [of "[w]" ys, simplified])
  have "nextSib (unlinked p w h a) = next_in (xs @ ys) a" if a: "a \<in> set (xs @ ys)" for a
  proof -
    have old: "nextSib (h a) = next_in ?ws a" using ok a by (auto simp: children_ok_def)
    have l: "last_of xs = Some a \<longleftrightarrow> a \<in> set xs \<and> next_in xs a = None"
      using next_in_None [of xs a] d(1) last_of_Some [of xs a] by auto
    have aw: "a \<noteq> w" using d(1) a by auto
    show ?thesis
      using a d(1) n old l aw by (auto simp: unlinked_def next_in_append split: option.splits)
  qed
  moreover have "prevSib (unlinked p w h a) = prev_in (xs @ ys) a" if a: "a \<in> set (xs @ ys)" for a
  proof -
    have "prev_in ?ws a = prev_in ((xs @ [w]) @ ys) a" by simp
    also have "\<dots> = (if a \<in> set ys then case prev_in ys a of None \<Rightarrow> Some w | Some b \<Rightarrow> Some b
        else if a = w then last_of xs else prev_in xs a)"
      unfolding prev_in_append [of "xs @ [w]" ys] prev_in_append [of xs "[w]"] by (simp split: option.split)
    finally have old: "prevSib (h a) = (if a \<in> set ys then case prev_in ys a of None \<Rightarrow> Some w | Some b \<Rightarrow> Some b
        else if a = w then last_of xs else prev_in xs a)"
      using ok a by (auto simp: children_ok_def)
    have l: "first_of ys = Some a \<longleftrightarrow> a \<in> set ys \<and> prev_in ys a = None"
      using prev_in_None [of ys a] d(1) first_of_Some [of ys a] by auto
    show ?thesis
      using a d(1) n old l by (auto simp: unlinked_def prev_in_append split: option.splits)
  qed
  moreover have "firstChild (unlinked p w h p) = first_of (xs @ ys)" "lastChild (unlinked p w h p) = last_of (xs @ ys)"
  proof -
    have f: "firstChild (h p) = first_of ?ws" "lastChild (h p) = last_of ?ws" using ok by (simp_all add: children_ok_def)
    have ne: "first_of xs \<noteq> Some w" "last_of ys \<noteq> Some w" using d(1) first_of_Some [of xs w] last_of_Some [of ys w] by auto
    show "firstChild (unlinked p w h p) = first_of (xs @ ys)"
      using ne(1) unfolding unlinked_def f n by (cases "xs = []") simp_all
    show "lastChild (unlinked p w h p) = last_of (xs @ ys)"
      using ne(2) unfolding unlinked_def f n by (cases "ys = []") simp_all
  qed
  moreover have "parent (unlinked p w h a) = parent (h a)" for a by (simp add: unlinked_def)
  ultimately show ?thesis using ok by (auto simp: children_ok_def)
qed

text \<open>Putting into the list, between \<open>q\<close> and \<open>n\<close>.\<close>

definition linked :: "wptr \<Rightarrow> wptr \<Rightarrow> wptr option \<Rightarrow> wptr option \<Rightarrow> wheap \<Rightarrow> wheap" where
  "linked p w q n h = (\<lambda>x. if x = w then (h w)\<lparr>nextSib := n, prevSib := q\<rparr> else (h x)\<lparr>
     firstChild := (if x = p \<and> q = None then Some w else firstChild (h x)),
     lastChild := (if x = p \<and> n = None then Some w else lastChild (h x)),
     nextSib := (if q = Some x then Some w else nextSib (h x)),
     prevSib := (if n = Some x then Some w else prevSib (h x))\<rparr>)"

lemma linked_children:
  assumes ok: "children_ok h p (xs @ ys)" and w: "w \<notin> set (xs @ ys)" "w \<noteq> p" "parent (h w) = Some p"
  shows "children_ok (linked p w (last_of xs) (first_of ys) h) p (xs @ w # ys)"
proof -
  let ?h = "linked p w (last_of xs) (first_of ys) h" and ?ws = "xs @ w # ys"
  have d: "distinct (xs @ ys)" "p \<notin> set (xs @ ys)" using ok by (auto simp: children_ok_def)
  have pw: "prev_in ?ws a = (if a \<in> set ys then case prev_in ys a of None \<Rightarrow> Some w | Some b \<Rightarrow> Some b
      else if a = w then last_of xs else prev_in xs a)" for a
  proof -
    have "prev_in ?ws a = prev_in ((xs @ [w]) @ ys) a" by simp
    then show ?thesis
      unfolding prev_in_append [of "xs @ [w]" ys] prev_in_append [of xs "[w]"] by (simp split: option.split)
  qed
  have "nextSib (?h a) = next_in ?ws a" if a: "a \<in> set ?ws" for a
  proof (cases "a = w")
    case False
    then have old: "nextSib (h a) = next_in (xs @ ys) a" using ok a by (auto simp: children_ok_def)
    have l: "last_of xs = Some a \<longleftrightarrow> a \<in> set xs \<and> next_in xs a = None"
      using next_in_None [of xs a] d(1) last_of_Some [of xs a] by auto
    show ?thesis
      using False a d(1) old l w(1) by (auto simp: linked_def next_in_append split: option.splits)
  qed (use w(1) in \<open>simp add: linked_def next_in_append\<close>)
  moreover have "prevSib (?h a) = prev_in ?ws a" if a: "a \<in> set ?ws" for a
  proof (cases "a = w")
    case False
    then have old: "prevSib (h a) = prev_in (xs @ ys) a" using ok a by (auto simp: children_ok_def)
    have l: "first_of ys = Some a \<longleftrightarrow> a \<in> set ys \<and> prev_in ys a = None"
      using prev_in_None [of ys a] d(1) first_of_Some [of ys a] by auto
    show ?thesis
      using False a d(1) old l w(1) unfolding pw by (auto simp: linked_def prev_in_append split: option.splits)
  qed (use w(1) in \<open>simp add: linked_def pw\<close>)
  moreover have "firstChild (?h p) = first_of ?ws" "lastChild (?h p) = last_of ?ws"
  proof -
    have f: "firstChild (h p) = first_of (xs @ ys)" "lastChild (h p) = last_of (xs @ ys)" using ok by (simp_all add: children_ok_def)
    show "firstChild (?h p) = first_of ?ws" using f(1) w(2) by (cases "xs = []") (simp_all add: linked_def)
    show "lastChild (?h p) = last_of ?ws" using f(2) w(2) by (cases "ys = []") (simp_all add: linked_def)
  qed
  moreover have "parent (?h a) = Some p" if "a \<in> set ?ws" for a
    using that w(3) ok by (auto simp: linked_def children_ok_def)
  ultimately show ?thesis using d w by (auto simp: children_ok_def)
qed

text \<open>What restacking leaves alone.\<close>

definition no_links :: "win \<Rightarrow> win" where
  "no_links r = r\<lparr>firstChild := None, lastChild := None, nextSib := None, prevSib := None\<rparr>"

definition relinked :: "wptr \<Rightarrow> wptr set \<Rightarrow> wheap \<Rightarrow> wheap \<Rightarrow> bool" where
  "relinked p A h h' \<longleftrightarrow> (\<forall>x. no_links (h' x) = no_links (h x) \<and>
     (x \<noteq> p \<longrightarrow> firstChild (h' x) = firstChild (h x) \<and> lastChild (h' x) = lastChild (h x)) \<and>
     (x \<notin> A \<longrightarrow> nextSib (h' x) = nextSib (h x) \<and> prevSib (h' x) = prevSib (h x)))"

lemma relinked_trans: "relinked p A h h' \<Longrightarrow> relinked p A h' h'' \<Longrightarrow> relinked p A h h''"
  by (simp add: relinked_def)

lemma relinked_refl [simp]: "relinked p A h h"
  by (simp add: relinked_def)

lemma relinked_unlinked:
  "(\<And>x. nextSib (h w) = Some x \<Longrightarrow> x \<in> A) \<Longrightarrow> (\<And>x. prevSib (h w) = Some x \<Longrightarrow> x \<in> A) \<Longrightarrow> relinked p A h (unlinked p w h)"
  by (auto simp: relinked_def unlinked_def no_links_def)

lemma relinked_linked:
  "w \<in> A \<Longrightarrow> (\<And>x. q = Some x \<Longrightarrow> x \<in> A) \<Longrightarrow> (\<And>x. n = Some x \<Longrightarrow> x \<in> A) \<Longrightarrow> relinked p A h (linked p w q n h)"
  by (auto simp: relinked_def linked_def no_links_def)

section \<open>Restacking\<close>

definition restack :: "wptr list \<Rightarrow> wptr \<Rightarrow> wptr option \<Rightarrow> wptr list" where
  "restack ws w pNextSib =
     (let r = remove1 w ws
      in case pNextSib of None \<Rightarrow> r @ [w] | Some s \<Rightarrow> takeWhile (\<lambda>x. x \<noteq> s) r @ w # dropWhile (\<lambda>x. x \<noteq> s) r)"

text \<open>Reading a field after an assignment.\<close>

lemma set_next_sel:
  "nextSib (set_next a v h x) = (if x = a then v else nextSib (h x))" "prevSib (set_next a v h x) = prevSib (h x)"
  "firstChild (set_next a v h x) = firstChild (h x)" "lastChild (set_next a v h x) = lastChild (h x)"
  "no_links (set_next a v h x) = no_links (h x)" "parent (set_next a v h x) = parent (h x)"
  by (simp_all add: set_next_def no_links_def)

lemma set_prev_sel:
  "nextSib (set_prev a v h x) = nextSib (h x)" "prevSib (set_prev a v h x) = (if x = a then v else prevSib (h x))"
  "firstChild (set_prev a v h x) = firstChild (h x)" "lastChild (set_prev a v h x) = lastChild (h x)"
  "no_links (set_prev a v h x) = no_links (h x)" "parent (set_prev a v h x) = parent (h x)"
  by (simp_all add: set_prev_def no_links_def)

lemma set_first_sel:
  "nextSib (set_first a v h x) = nextSib (h x)" "prevSib (set_first a v h x) = prevSib (h x)"
  "firstChild (set_first a v h x) = (if x = a then v else firstChild (h x))" "lastChild (set_first a v h x) = lastChild (h x)"
  "no_links (set_first a v h x) = no_links (h x)" "parent (set_first a v h x) = parent (h x)"
  by (simp_all add: set_first_def no_links_def)

lemma set_last_sel:
  "nextSib (set_last a v h x) = nextSib (h x)" "prevSib (set_last a v h x) = prevSib (h x)"
  "firstChild (set_last a v h x) = firstChild (h x)" "lastChild (set_last a v h x) = (if x = a then v else lastChild (h x))"
  "no_links (set_last a v h x) = no_links (h x)" "parent (set_last a v h x) = parent (h x)"
  by (simp_all add: set_last_def no_links_def)

lemma unlinked_sel:
  "nextSib (unlinked p w h x) = (if prevSib (h w) = Some x then nextSib (h w) else nextSib (h x))"
  "prevSib (unlinked p w h x) = (if nextSib (h w) = Some x then prevSib (h w) else prevSib (h x))"
  "firstChild (unlinked p w h x) = (if x = p \<and> firstChild (h p) = Some w then nextSib (h w) else firstChild (h x))"
  "lastChild (unlinked p w h x) = (if x = p \<and> lastChild (h p) = Some w then prevSib (h w) else lastChild (h x))"
  "no_links (unlinked p w h x) = no_links (h x)" "parent (unlinked p w h x) = parent (h x)"
  by (simp_all add: unlinked_def no_links_def)

lemma linked_sel:
  "nextSib (linked p w q n h x) = (if x = w then n else if q = Some x then Some w else nextSib (h x))"
  "prevSib (linked p w q n h x) = (if x = w then q else if n = Some x then Some w else prevSib (h x))"
  "w \<noteq> p \<Longrightarrow> firstChild (linked p w q n h x) = (if x = p \<and> q = None then Some w else firstChild (h x))"
  "w \<noteq> p \<Longrightarrow> lastChild (linked p w q n h x) = (if x = p \<and> n = None then Some w else lastChild (h x))"
  "no_links (linked p w q n h x) = no_links (h x)" "parent (linked p w q n h x) = parent (h x)"
  by (simp_all add: linked_def no_links_def)

lemmas link_sel = set_next_sel set_prev_sel set_first_sel set_last_sel unlinked_sel linked_sel

lemma win_eqI:
  assumes "no_links r = no_links r'" "firstChild r = firstChild r'" "lastChild r = lastChild r'"
    "nextSib r = nextSib r'" "prevSib r = prevSib r'"
  shows "(r :: win) = r'"
  using assms by (cases r; cases r') (simp add: no_links_def)

lemma unlink_eq:
  assumes ne: "w \<noteq> p" "nextSib (h w) \<noteq> Some w" "prevSib (h w) \<noteq> Some w"
  shows "unlink p w h = unlinked p w h"
proof -
  define h1 where "h1 = (if firstChild (h p) = Some w then set_first p (nextSib (h w)) h else h)"
  define h2 where "h2 = (if lastChild (h1 p) = Some w then set_last p (prevSib (h1 w)) h1 else h1)"
  define h3 where "h3 = if_ptr (nextSib (h2 w)) (\<lambda>n. set_prev n (prevSib (h2 w))) h2"
  have e: "unlink p w h = if_ptr (prevSib (h3 w)) (\<lambda>q. set_next q (nextSib (h3 w))) h3"
    by (simp only: unlink_def Let_def h1_def h2_def h3_def)
  have s1: "nextSib (h1 x) = nextSib (h x)" "prevSib (h1 x) = prevSib (h x)" "lastChild (h1 x) = lastChild (h x)"
    "no_links (h1 x) = no_links (h x)"
    "firstChild (h1 x) = (if x = p \<and> firstChild (h p) = Some w then nextSib (h w) else firstChild (h x))" for x
    by (simp_all add: h1_def link_sel)
  have s2: "nextSib (h2 x) = nextSib (h x)" "prevSib (h2 x) = prevSib (h x)" "firstChild (h2 x) = firstChild (h1 x)"
    "no_links (h2 x) = no_links (h x)"
    "lastChild (h2 x) = (if x = p \<and> lastChild (h p) = Some w then prevSib (h w) else lastChild (h x))" for x
    by (simp_all add: h2_def link_sel s1)
  have s3: "nextSib (h3 x) = nextSib (h x)" "prevSib (h3 x) = (if nextSib (h w) = Some x then prevSib (h w) else prevSib (h x))"
    "lastChild (h3 x) = lastChild (h2 x)" "no_links (h3 x) = no_links (h x)" "firstChild (h3 x) = firstChild (h1 x)" for x
    by (cases "nextSib (h w)"; simp add: h3_def s2 if_ptr_def link_sel)+
  show ?thesis unfolding e
    by (rule ext, rule win_eqI; cases "prevSib (h w)")
      (use ne in \<open>simp_all add: s1 s2 s3 if_ptr_def link_sel\<close>)
qed

text \<open>The heap with the window put between others, in the way the code does it.\<close>

lemma move_bottom_eq:
  assumes n: "nextSib (h w) = Some n" and q: "prevSib (h w) = q" and l: "lastChild (h p) = Some l"
    and ne: "n \<noteq> w" "w \<noteq> p" "n \<noteq> p" "q \<noteq> Some w" "q \<noteq> Some p" "q \<noteq> Some n" "l \<noteq> w" "l \<noteq> p" "q \<noteq> Some l"
  shows "move_bottom p w n l h = linked p w (Some l) None (unlinked p w h)"
proof -
  define h1 where "h1 = (if firstChild (h p) = Some w then set_first p (Some n) h else h)"
  define h2 where "h2 = set_prev n (prevSib (h1 w)) h1"
  define h3 where "h3 = if_ptr (prevSib (h2 w)) (\<lambda>q. set_next q (nextSib (h2 w))) h2"
  define h4 where "h4 = set_next l (Some w) h3"
  define h5 where "h5 = set_prev w (lastChild (h4 p)) h4"
  define h6 where "h6 = set_next w None h5"
  have e: "move_bottom p w n l h = set_last p (Some w) h6"
    by (simp only: move_bottom_def Let_def h1_def h2_def h3_def h4_def h5_def h6_def)
  have s1: "nextSib (h1 x) = nextSib (h x)" "prevSib (h1 x) = prevSib (h x)" "lastChild (h1 x) = lastChild (h x)"
    "no_links (h1 x) = no_links (h x)" "firstChild (h1 x) = (if x = p \<and> firstChild (h p) = Some w then Some n else firstChild (h x))" for x
    by (simp_all add: h1_def link_sel)
  have s2: "nextSib (h2 x) = nextSib (h x)" "prevSib (h2 x) = (if x = n then q else prevSib (h x))" "lastChild (h2 x) = lastChild (h x)"
    "no_links (h2 x) = no_links (h x)" "firstChild (h2 x) = firstChild (h1 x)" for x
    by (simp_all add: h2_def link_sel s1 q)
  have h3: "h3 = if_ptr q (\<lambda>q. set_next q (Some n)) h2" using ne(1) by (simp add: h3_def s2 n q)
  have s3: "nextSib (h3 x) = (if q = Some x then Some n else nextSib (h x))" "prevSib (h3 x) = (if x = n then q else prevSib (h x))"
    "lastChild (h3 x) = lastChild (h x)" "no_links (h3 x) = no_links (h x)" "firstChild (h3 x) = firstChild (h1 x)" for x
    by (cases q; simp add: h3 if_ptr_def link_sel s2)+
  have h6: "h6 = set_next w None (set_prev w (Some l) (set_next l (Some w) h3))"
    by (simp add: h6_def h5_def h4_def link_sel s3 l)
  show ?thesis unfolding e
    by (rule ext, rule win_eqI) (use n ne l q s1 s3 in \<open>auto simp: h6 link_sel\<close>)
qed

lemma move_top_eq:
  assumes n: "nextSib (h w) = n" and q: "prevSib (h w) = q" and f: "firstChild (h p) = Some s"
    and ne: "n \<noteq> Some s" "n \<noteq> Some w" "w \<noteq> p" "n \<noteq> Some p" "q \<noteq> Some w" "q \<noteq> Some p" "q = None \<or> q \<noteq> n" "s \<noteq> w" "s \<noteq> p"
  shows "move_top p w s h = linked p w None (Some s) (unlinked p w h)"
proof -
  define h1 where "h1 = (if lastChild (h p) = Some w then set_last p (prevSib (h w)) h else h)"
  define h2 where "h2 = if_ptr (nextSib (h1 w)) (\<lambda>n. set_prev n (prevSib (h1 w))) h1"
  define h3 where "h3 = if_ptr (prevSib (h2 w)) (\<lambda>q. set_next q (nextSib (h2 w))) h2"
  define h4 where "h4 = set_next w (firstChild (h3 p)) h3"
  define h6 where "h6 = set_prev s (Some w) (set_prev w None h4)"
  have e: "move_top p w s h = set_first p (Some w) h6"
    by (simp only: move_top_def Let_def h1_def h2_def h3_def h4_def h6_def)
  have s1: "nextSib (h1 x) = nextSib (h x)" "prevSib (h1 x) = prevSib (h x)" "firstChild (h1 x) = firstChild (h x)"
    "no_links (h1 x) = no_links (h x)" "lastChild (h1 x) = (if x = p \<and> lastChild (h p) = Some w then q else lastChild (h x))" for x
    by (simp_all add: h1_def link_sel q)
  have h2: "h2 = if_ptr n (\<lambda>n. set_prev n q) h1" by (simp add: h2_def s1 n q)
  have s2: "nextSib (h2 x) = nextSib (h x)" "prevSib (h2 x) = (if n = Some x then q else prevSib (h x))" "lastChild (h2 x) = lastChild (h1 x)"
    "no_links (h2 x) = no_links (h x)" "firstChild (h2 x) = firstChild (h x)" for x
    by (cases n; simp add: h2 if_ptr_def link_sel s1)+
  have h3: "h3 = if_ptr q (\<lambda>q. set_next q n) h2" using ne(2) by (simp add: h3_def s2 n q)
  have s3: "nextSib (h3 x) = (if q = Some x then n else nextSib (h x))" "prevSib (h3 x) = (if n = Some x then q else prevSib (h x))"
    "lastChild (h3 x) = lastChild (h1 x)" "no_links (h3 x) = no_links (h x)" "firstChild (h3 x) = firstChild (h x)" for x
    by (cases q; simp add: h3 if_ptr_def link_sel s2)+
  have h6: "h6 = set_prev s (Some w) (set_prev w None (set_next w (Some s) h3))" by (simp add: h6_def h4_def s3 f)
  show ?thesis unfolding e
    by (rule ext, rule win_eqI) (use n q ne f s1 s3 in \<open>auto simp: h6 link_sel\<close>)
qed

text \<open>In the middle: \<open>r\<close> is the sibling before \<open>s\<close>.\<close>

lemma move_middle_eq:
  assumes n: "nextSib (h w) = n" and q: "prevSib (h w) = q" and r: "prevSib (unlinked p w h s) = Some r"
    and ne: "n \<noteq> Some s" "n \<noteq> Some w" "w \<noteq> p" "n \<noteq> Some p" "q \<noteq> Some w" "q \<noteq> Some p" "q = None \<or> q \<noteq> n" "s \<noteq> w" "s \<noteq> p" "r \<noteq> w" "r \<noteq> p" "r \<noteq> s"
  shows "move_middle p w s h = linked p w (Some r) (Some s) (unlinked p w h)"
proof -
  define h1 where "h1 = (if firstChild (h p) = Some w then set_first p (nextSib (h w)) h else h)"
  define h2 where "h2 = (if lastChild (h1 p) = Some w then set_last p (prevSib (h1 w)) h1 else h1)"
  define h3 where "h3 = if_ptr (nextSib (h2 w)) (\<lambda>n. set_prev n (prevSib (h2 w))) h2"
  define h4 where "h4 = if_ptr (prevSib (h3 w)) (\<lambda>q. set_next q (nextSib (h3 w))) h3"
  define h5 where "h5 = set_next w (Some s) h4"
  define h6 where "h6 = set_prev w (prevSib (h5 s)) h5"
  define h7 where "h7 = if_ptr (prevSib (h6 s)) (\<lambda>q. set_next q (Some w)) h6"
  have e: "move_middle p w s h = set_prev s (Some w) h7"
    by (simp only: move_middle_def Let_def h1_def h2_def h3_def h4_def h5_def h6_def h7_def)
  have s1: "nextSib (h1 x) = nextSib (h x)" "prevSib (h1 x) = prevSib (h x)" "lastChild (h1 x) = lastChild (h x)"
    "no_links (h1 x) = no_links (h x)" "firstChild (h1 x) = (if x = p \<and> firstChild (h p) = Some w then n else firstChild (h x))" for x
    by (simp_all add: h1_def link_sel n)
  have s2: "nextSib (h2 x) = nextSib (h x)" "prevSib (h2 x) = prevSib (h x)" "firstChild (h2 x) = firstChild (h1 x)"
    "no_links (h2 x) = no_links (h x)" "lastChild (h2 x) = (if x = p \<and> lastChild (h p) = Some w then q else lastChild (h x))" for x
    by (simp_all add: h2_def link_sel s1 q)
  have h3: "h3 = if_ptr n (\<lambda>n. set_prev n q) h2" by (simp add: h3_def s2 n q)
  have s3: "nextSib (h3 x) = nextSib (h x)" "prevSib (h3 x) = (if n = Some x then q else prevSib (h x))" "lastChild (h3 x) = lastChild (h2 x)"
    "no_links (h3 x) = no_links (h x)" "firstChild (h3 x) = firstChild (h1 x)" for x
    by (cases n; simp add: h3 if_ptr_def link_sel s2)+
  have h4: "h4 = if_ptr q (\<lambda>q. set_next q n) h3" using ne(2) by (simp add: h4_def s3 n q)
  have s4: "nextSib (h4 x) = (if q = Some x then n else nextSib (h x))" "prevSib (h4 x) = (if n = Some x then q else prevSib (h x))"
    "lastChild (h4 x) = lastChild (h2 x)" "no_links (h4 x) = no_links (h x)" "firstChild (h4 x) = firstChild (h1 x)" for x
    by (cases q; simp add: h4 if_ptr_def link_sel s3)+
  have ps: "prevSib (h s) = Some r" using r n q ne(1) by (simp add: unlinked_sel)
  have h7: "h7 = set_next r (Some w) (set_prev w (Some r) (set_next w (Some s) h4))"
    using ne ps by (simp add: h7_def h6_def h5_def link_sel s4 if_ptr_def)
  show ?thesis unfolding e
    by (rule ext, rule win_eqI) (use n q ne s1 s2 s4 ps in \<open>auto simp: h7 link_sel\<close>)
qed

lemma link_head_eq:
  assumes "w \<noteq> p" "pHead = None \<Longrightarrow> firstChild (h p) \<noteq> Some w \<and> firstChild (h p) \<noteq> Some p"
    and "\<And>q. pHead = Some q \<Longrightarrow> q \<noteq> w \<and> q \<noteq> p \<and> nextSib (h q) \<noteq> Some w \<and> nextSib (h q) \<noteq> Some q \<and> nextSib (h q) \<noteq> Some p"
  shows "link_head pHead p w h = linked p w pHead (case pHead of None \<Rightarrow> firstChild (h p) | Some q \<Rightarrow> nextSib (h q)) h"
proof (cases pHead)
  case None
  show ?thesis unfolding None
    by (rule ext, rule win_eqI) (use assms None in \<open>auto simp: link_head_def Let_def link_sel split: option.split\<close>)
next
  case (Some q)
  show ?thesis unfolding Some
    by (rule ext, rule win_eqI) (use assms Some in \<open>auto simp: link_head_def Let_def link_sel split: option.split\<close>)
qed

text \<open>Loops along the siblings, forwards and backwards.\<close>

lemma for_sibs_next:
  assumes ok: "children_ok h p ws"
  shows "ws = us @ zs \<Longrightarrow> e = None \<or> (\<exists>x \<in> set zs. e = Some x \<or> stop x) \<Longrightarrow>
    for_sibs h nextSib e stop (first_of zs) = Some (first_of (dropWhile (\<lambda>x. \<not> (e = Some x \<or> stop x)) zs))"
proof (induction zs arbitrary: us)
  case Nil
  then show ?case by (subst for_sibs.simps) simp
next
  case (Cons z zs)
  have d: "distinct ws" using ok by (simp add: children_ok_def)
  have "nextSib (h z) = next_in ws z" using ok Cons.prems(1) by (auto simp: children_ok_def)
  also have "\<dots> = first_of zs" using d Cons.prems(1) by (simp add: next_in_append next_in_outside)
  finally have n: "nextSib (h z) = first_of zs" .
  show ?case
  proof (cases "e = Some z \<or> stop z")
    case True
    then show ?thesis by (subst for_sibs.simps) auto
  next
    case False
    have "ws = (us @ [z]) @ zs" using Cons.prems(1) by simp
    moreover have "e = None \<or> (\<exists>x \<in> set zs. e = Some x \<or> stop x)" using Cons.prems(2) False by auto
    ultimately have "for_sibs h nextSib e stop (first_of zs) = Some (first_of (dropWhile (\<lambda>x. \<not> (e = Some x \<or> stop x)) zs))"
      by (rule Cons.IH)
    then show ?thesis using False n by (subst for_sibs.simps) auto
  qed
qed

lemma for_sibs_prev:
  assumes ok: "children_ok h p ws"
  shows "ws = zs @ us \<Longrightarrow> e = None \<or> (\<exists>x \<in> set zs. e = Some x \<or> stop x) \<Longrightarrow>
    for_sibs h prevSib e stop (last_of zs) = Some (first_of (dropWhile (\<lambda>x. \<not> (e = Some x \<or> stop x)) (rev zs)))"
proof (induction zs arbitrary: us rule: rev_induct)
  case Nil
  then show ?case by (subst for_sibs.simps) simp
next
  case (snoc z zs)
  have d: "distinct ws" using ok by (simp add: children_ok_def)
  have w: "ws = zs @ (z # us)" using snoc.prems(1) by simp
  have "prevSib (h z) = prev_in ws z" using ok snoc.prems(1) by (auto simp: children_ok_def)
  also have "\<dots> = prev_in ((zs @ [z]) @ us) z" using w by simp
  also have "\<dots> = last_of zs" using d w by (subst prev_in_append) (auto simp: prev_in_append)
  finally have n: "prevSib (h z) = last_of zs" .
  show ?case
  proof (cases "e = Some z \<or> stop z")
    case True
    then show ?thesis by (subst for_sibs.simps) auto
  next
    case False
    have "e = None \<or> (\<exists>x \<in> set zs. e = Some x \<or> stop x)" using snoc.prems(2) False by auto
    from snoc.IH [OF w this]
    show ?thesis using False n by (subst for_sibs.simps) auto
  qed
qed

text \<open>The first window of the new list that is not where it was.\<close>

fun first_change :: "'a list \<Rightarrow> 'a list \<Rightarrow> 'a option" where
  "first_change _ [] = None"
| "first_change [] (y # ys) = Some y"
| "first_change (x # xs) (y # ys) = (if x = y then first_change xs ys else Some y)"

lemma first_change_here: "a \<noteq> b \<Longrightarrow> first_change (us @ a # xs) (us @ b # ys) = Some b"
  by (induction us) auto

lemma children_neighbours:
  assumes ok: "children_ok h p (xs @ w # ys)"
  shows "nextSib (h w) = first_of ys" "prevSib (h w) = last_of xs" "parent (h w) = Some p"
    "firstChild (h p) = (if xs = [] then Some w else first_of xs)" "lastChild (h p) = (if ys = [] then Some w else last_of ys)"
    "distinct (xs @ w # ys)" "p \<notin> set (xs @ w # ys)"
proof -
  show d: "distinct (xs @ w # ys)" "p \<notin> set (xs @ w # ys)" using ok by (simp_all add: children_ok_def)
  show "nextSib (h w) = first_of ys" "parent (h w) = Some p"
    using ok d by (simp_all add: children_ok_def next_in_append)
  have "prev_in (xs @ w # ys) w = prev_in ((xs @ [w]) @ ys) w" by simp
  also have "\<dots> = last_of xs" using d by (subst prev_in_append) (auto simp: prev_in_append)
  finally show "prevSib (h w) = last_of xs" using ok by (simp add: children_ok_def)
  show "firstChild (h p) = (if xs = [] then Some w else first_of xs)" "lastChild (h p) = (if ys = [] then Some w else last_of ys)"
    using ok by (simp_all add: children_ok_def)
qed

lemma put_between:
  assumes ok: "children_ok h p (xs @ w # ys)" and split: "xs @ ys = as @ bs"
  defines "h' \<equiv> linked p w (last_of as) (first_of bs) (unlinked p w h)"
  shows "children_ok h' p (as @ w # bs)" "relinked p (set (xs @ w # ys)) h h'"
proof -
  note nb = children_neighbours [OF ok]
  have w: "w \<notin> set (as @ bs)" "w \<noteq> p" using nb(6,7) split by (metis distinct.simps(2) distinct_append disjoint_iff Un_iff list.set_intros(1) set_append, auto)
  have "children_ok (unlinked p w h) p (as @ bs)" using unlinked_children [OF ok] split by simp
  then show "children_ok h' p (as @ w # bs)"
    unfolding h'_def by (rule linked_children [OF _ w]) (simp add: unlinked_sel nb)
  have "relinked p (set (xs @ w # ys)) h (unlinked p w h)"
    by (rule relinked_unlinked) (auto simp: nb dest: first_of_Some last_of_Some)
  moreover have "relinked p (set (xs @ w # ys)) (unlinked p w h) h'"
    unfolding h'_def
  proof (rule relinked_linked)
    have "set as \<union> set bs = set xs \<union> set ys" using split by (metis set_append)
    then show "last_of as = Some x \<Longrightarrow> x \<in> set (xs @ w # ys)" "first_of bs = Some x \<Longrightarrow> x \<in> set (xs @ w # ys)" for x
      using last_of_Some [of as x] first_of_Some [of bs x] by auto
  qed simp
  ultimately show "relinked p (set (xs @ w # ys)) h h'" by (rule relinked_trans)
qed

lemma restack_simps:
  assumes "distinct (xs @ w # ys)"
  shows "restack (xs @ w # ys) w None = xs @ ys @ [w]"
    and "xs @ ys = as @ s # bs \<Longrightarrow> restack (xs @ w # ys) w (Some s) = as @ w # s # bs"
proof -
  have r: "remove1 w (xs @ w # ys) = xs @ ys" using assms by (simp add: remove1_append)
  show "restack (xs @ w # ys) w None = xs @ ys @ [w]" by (simp add: restack_def r)
  assume e: "xs @ ys = as @ s # bs"
  have "distinct (xs @ ys)" using assms by simp
  then have "distinct (as @ s # bs)" by (simp only: e)
  then have "s \<notin> set as" by simp
  then have t: "takeWhile (\<lambda>x. x \<noteq> s) (as @ s # bs) = as" "dropWhile (\<lambda>x. x \<noteq> s) (as @ s # bs) = s # bs"
    by (induction as) auto
  show "restack (xs @ w # ys) w (Some s) = as @ w # s # bs"
    unfolding restack_def r Let_def e option.case t by simp
qed

definition restacked :: "wheap \<Rightarrow> wptr \<Rightarrow> wptr list \<Rightarrow> wptr \<Rightarrow> wptr option \<Rightarrow> (wptr option \<times> wheap) option \<Rightarrow> bool" where
  "restacked h p ws w s res \<longleftrightarrow> (\<exists>fc h'. res = Some (fc, h') \<and> children_ok h' p (restack ws w s) \<and>
     relinked p (set ws) h h' \<and> fc = (if restack ws w s = ws then Some w else first_change ws (restack ws w s)))"

lemma restacked_bottom:
  assumes ok: "children_ok h p (xs @ w # y # ys)"
  shows "restacked h p (xs @ w # y # ys) w None (MoveWindowInStack w None h)"
proof -
  let ?ws = "xs @ w # y # ys"
  note nb = children_neighbours [OF ok]
  obtain l where l: "last_of (y # ys) = Some l" by (cases "last_of (y # ys)") (auto split: if_splits)
  have lin: "l \<in> set (y # ys)" using last_of_Some [OF l] .
  have ne: "y \<noteq> w" "w \<noteq> p" "y \<noteq> p" "last_of xs \<noteq> Some w" "last_of xs \<noteq> Some p" "last_of xs \<noteq> Some y" "l \<noteq> w" "l \<noteq> p" "last_of xs \<noteq> Some l"
    using nb(6,7) lin last_of_Some [of xs] by auto
  have lc: "lastChild (h p) = Some l" using nb(5) l by simp
  have n: "nextSib (h w) = Some y" using nb(1) by simp
  have e: "MoveWindowInStack w None h = Some (Some y, linked p w (Some l) None (unlinked p w h))"
    using n lc nb(3) move_bottom_eq [OF n nb(2) lc ne] by (simp add: MoveWindowInStack_def)
  have r: "restack ?ws w None = xs @ (y # ys) @ [w]" by (rule restack_simps(1) [OF nb(6)])
  have "last_of (xs @ y # ys) = Some l" using l by simp
  then have pb: "children_ok (linked p w (Some l) None (unlinked p w h)) p ((xs @ y # ys) @ w # [])"
      "relinked p (set ?ws) h (linked p w (Some l) None (unlinked p w h))"
    using put_between [OF ok, of "xs @ y # ys" "[]"] by simp_all
  have "restack ?ws w None \<noteq> ?ws" "first_change ?ws (restack ?ws w None) = Some y"
    using r ne(1) first_change_here [of w y xs "y # ys" "ys @ [w]"] by auto
  then show ?thesis unfolding restacked_def e using pb r by auto
qed

lemma restacked_up:
  assumes ok: "children_ok h p ((as @ s # bs) @ w # ys)"
  shows "restacked h p ((as @ s # bs) @ w # ys) w (Some s) (MoveWindowInStack w (Some s) h)"
proof -
  let ?ws = "(as @ s # bs) @ w # ys" and ?rs = "as @ w # s # bs @ ys"
  note nb = children_neighbours [OF ok]
  have ne: "first_of ys \<noteq> Some s" "first_of ys \<noteq> Some w" "w \<noteq> p" "first_of ys \<noteq> Some p" "last_of (as @ s # bs) \<noteq> Some w"
    "last_of (as @ s # bs) \<noteq> Some p" "last_of (as @ s # bs) = None \<or> last_of (as @ s # bs) \<noteq> first_of ys" "s \<noteq> w" "s \<noteq> p"
  proof -
    have fy: "first_of ys \<noteq> Some x" if "x \<notin> set ys" for x using first_of_Some that by metis
    have lx: "last_of (as @ s # bs) \<noteq> Some x" if "x \<notin> set (as @ s # bs)" for x using last_of_Some that by metis
    have d: "w \<notin> set ys" "p \<notin> set ys" "s \<notin> set ys" "w \<notin> set (as @ s # bs)" "p \<notin> set (as @ s # bs)" "s \<noteq> w" "s \<noteq> p" "w \<noteq> p"
      using nb(6,7) by auto
    show "first_of ys \<noteq> Some s" "first_of ys \<noteq> Some w" "first_of ys \<noteq> Some p" using fy d by blast+
    show "last_of (as @ s # bs) \<noteq> Some w" "last_of (as @ s # bs) \<noteq> Some p" using lx d by blast+
    show "w \<noteq> p" "s \<noteq> w" "s \<noteq> p" using d by blast+
    have dis: "set (as @ s # bs) \<inter> set ys = {}" using nb(6) by auto
    show "last_of (as @ s # bs) = None \<or> last_of (as @ s # bs) \<noteq> first_of ys"
    proof (cases "first_of ys")
      case (Some x)
      then have "x \<in> set ys" by (rule first_of_Some)
      then show ?thesis using lx dis Some by (metis disjoint_iff)
    next
      case None
      then show ?thesis by (simp only: simp_thms)
    qed
  qed
  have r: "restack ?ws w (Some s) = ?rs"
    using restack_simps(2) [OF nb(6), of as s "bs @ ys"] by simp
  have rs: "?rs \<noteq> ?ws" "first_change ?ws ?rs = Some w"
    using ne(8) first_change_here [of s w as "bs @ w # ys" "s # bs @ ys"] by auto
  have "nextSib (h w) \<noteq> Some s" using nb(1) ne(1) by simp
  note mv = MoveWindowInStack_def [of w "Some s" h, unfolded if_not_P [OF this] nb(3) option.case]
  show ?thesis
  proof (cases "as = []")
    case True
    then have f: "firstChild (h p) = Some s" using nb(4) by simp
    have e: "MoveWindowInStack w (Some s) h = Some (Some w, linked p w None (Some s) (unlinked p w h))"
      using mv f move_top_eq [OF nb(1) nb(2) f ne] by simp
    have "children_ok (linked p w None (Some s) (unlinked p w h)) p ([] @ w # s # bs @ ys)"
      "relinked p (set ?ws) h (linked p w None (Some s) (unlinked p w h))"
      using put_between [OF ok, of "[]" "s # bs @ ys"] True by simp_all
    then show ?thesis unfolding restacked_def e r using rs True by auto
  next
    case False
    obtain a where a: "last_of as = Some a" using False by (cases "last_of as") auto
    have ai: "a \<in> set as" by (rule last_of_Some [OF a])
    have f: "firstChild (h p) \<noteq> Some s" using nb(4,6) False first_of_Some [of as s] by auto
    have pb: "children_ok (linked p w (Some a) (Some s) (unlinked p w h)) p (as @ w # s # bs @ ys)"
      "relinked p (set ?ws) h (linked p w (Some a) (Some s) (unlinked p w h))"
      using put_between [OF ok, of as "s # bs @ ys"] a by simp_all
    have "children_ok (unlinked p w h) p ((as @ s # bs) @ ys)" by (rule unlinked_children [OF ok])
    then have "prevSib (unlinked p w h s) = Some a"
      using children_neighbours(2) [of "unlinked p w h" p as s "bs @ ys"] a by simp
    note m = move_middle_eq [OF nb(1) nb(2) this ne]
    have an: "a \<noteq> w" "a \<noteq> p" "a \<noteq> s" using ai nb(6,7) by auto
    define h' where "h' = linked p w (Some a) (Some s) (unlinked p w h)"
    have mm: "move_middle p w s h = h'" using m an by (simp add: h'_def)
    have fw: "firstChild (h p) \<noteq> Some w" using nb(4,6) False first_of_Some [of as w] by auto
    have "MoveWindowInStack w (Some s) h = Some (Some w, h')"
    proof (cases "lastChild (h p) = Some w")
      case True
      then show ?thesis using mv f mm by simp
    next
      case nl: False
      have "ys \<noteq> []" using nl nb(5) by auto
      then obtain n ys' where ys: "ys = n # ys'" by (cases ys) auto
      have "for_sibs h' nextSib (Some n) (\<lambda>x. x = w) (first_of (as @ w # s # bs @ ys)) =
          Some (first_of (dropWhile (\<lambda>x. \<not> (Some n = Some x \<or> x = w)) (as @ w # s # bs @ ys)))"
        by (rule for_sibs_next [OF pb(1) [folded h'_def], of "[]"]) auto
      moreover have "dropWhile (\<lambda>x. \<not> (Some n = Some x \<or> x = w)) (as @ w # s # bs @ ys) = w # s # bs @ ys"
        using nb(6) ys by (subst dropWhile_append2) auto
      moreover have "firstChild (h' p) = first_of (as @ w # s # bs @ ys)"
        using pb(1) by (simp add: children_ok_def h'_def)
      ultimately show ?thesis using mv f mm nl fw nb(1) ys by simp
    qed
    then show ?thesis unfolding restacked_def r using pb rs by (auto simp: h'_def)
  qed
qed

lemma restacked_down:
  assumes ok: "children_ok h p (xs @ w # (n # as) @ s # bs)"
  shows "restacked h p (xs @ w # (n # as) @ s # bs) w (Some s) (MoveWindowInStack w (Some s) h)"
proof -
  let ?ys = "(n # as) @ s # bs"
  let ?ws = "xs @ w # ?ys" and ?rs = "xs @ (n # as) @ w # s # bs"
  note nb = children_neighbours [OF ok]
  obtain a where a: "last_of (n # as) = Some a" by (cases "last_of (n # as)") (auto split: if_splits)
  have ai: "a \<in> set (n # as)" by (rule last_of_Some [OF a])
  have d: "n \<noteq> s" "n \<noteq> w" "n \<noteq> p" "w \<noteq> p" "s \<noteq> w" "s \<noteq> p" "n \<notin> set xs" "s \<notin> set xs" "s \<notin> set as" "w \<notin> set xs" "p \<notin> set xs"
    using nb(6,7) by auto
  have an: "a \<noteq> w" "a \<noteq> p" "a \<noteq> s" using ai nb(6,7) d by auto
  have lx: "last_of xs \<noteq> Some x" if "x \<notin> set xs" for x using last_of_Some that by metis
  have fx: "first_of xs \<noteq> Some x" if "x \<notin> set xs" for x using first_of_Some that by metis
  have n: "nextSib (h w) = Some n" using nb(1) by simp
  have ne: "Some n \<noteq> Some s" "Some n \<noteq> Some w" "w \<noteq> p" "Some n \<noteq> Some p" "last_of xs \<noteq> Some w" "last_of xs \<noteq> Some p"
    "last_of xs = None \<or> last_of xs \<noteq> Some n" "s \<noteq> w" "s \<noteq> p"
    using d lx by auto
  have r: "restack ?ws w (Some s) = ?rs"
    using restack_simps(2) [OF nb(6), of "xs @ n # as" s bs] by simp
  have rs: "?rs \<noteq> ?ws" "first_change ?ws ?rs = Some n"
    using d(2) first_change_here [of w n xs ?ys "as @ w # s # bs"] by auto
  have "nextSib (h w) \<noteq> Some s" using n d(1) by simp
  note mv = MoveWindowInStack_def [of w "Some s" h, unfolded if_not_P [OF this] nb(3) option.case]
  have f: "firstChild (h p) \<noteq> Some s" using nb(4) d(5) fx [OF d(8)] by (simp split: if_splits)
  define h' where "h' = linked p w (Some a) (Some s) (unlinked p w h)"
  have sp: "xs @ ?ys = (xs @ n # as) @ s # bs" by simp
  have lf: "last_of (xs @ n # as) = Some a" using a by simp
  have pb: "children_ok h' p ?rs" "relinked p (set ?ws) h h'"
    using put_between [OF ok sp] lf by (simp_all add: h'_def)
  have "children_ok (unlinked p w h) p ((xs @ n # as) @ s # bs)"
    using unlinked_children [OF ok] by simp
  then have "prevSib (unlinked p w h s) = Some a"
    using children_neighbours(2) [of "unlinked p w h" p "xs @ n # as" s bs] lf by simp
  note m = move_middle_eq [OF n nb(2) this ne]
  have mm: "move_middle p w s h = h'" using m an by (simp add: h'_def)
  have lc: "lastChild (h p) \<noteq> Some w" using nb(5,6) last_of_Some [of ?ys w] by auto
  have "MoveWindowInStack w (Some s) h = Some (Some n, h')"
  proof (cases "firstChild (h p) = Some w")
    case True
    then show ?thesis using mv f mm lc n d(5) by simp
  next
    case False
    have "for_sibs h' nextSib (Some n) (\<lambda>x. x = w) (first_of ?rs) =
        Some (first_of (dropWhile (\<lambda>x. \<not> (Some n = Some x \<or> x = w)) ?rs))"
      by (rule for_sibs_next [OF pb(1), of "[]"]) auto
    moreover have "dropWhile (\<lambda>x. \<not> (Some n = Some x \<or> x = w)) ?rs = n # as @ w # s # bs"
      using d(7,10) by (subst dropWhile_append2) auto
    moreover have "firstChild (h' p) = first_of ?rs"
      using pb(1) by (simp add: children_ok_def)
    ultimately show ?thesis using mv f mm lc False n by simp
  qed
  then show ?thesis unfolding restacked_def r using pb rs by auto
qed

lemma restacked_stay:
  assumes ok: "children_ok h p (xs @ w # ys)"
  shows "restacked h p (xs @ w # ys) w (first_of ys) (MoveWindowInStack w (first_of ys) h)"
proof -
  note nb = children_neighbours [OF ok]
  have "MoveWindowInStack w (first_of ys) h = Some (Some w, h)"
    using nb(1) by (simp add: MoveWindowInStack_def)
  moreover have "restack (xs @ w # ys) w (first_of ys) = xs @ w # ys"
  proof (cases ys)
    case Nil
    then show ?thesis using restack_simps(1) [OF nb(6)] by simp
  next
    case (Cons s bs)
    then show ?thesis using restack_simps(2) [OF nb(6), of xs s bs] by simp
  qed
  ultimately show ?thesis using ok by (simp add: restacked_def)
qed

lemma MoveWindowInStack_restacks:
  assumes ok: "children_ok h p ws" and w: "w \<in> set ws" and s: "s = None \<or> (\<exists>b \<in> set ws. b \<noteq> w \<and> s = Some b)"
  shows "restacked h p ws w s (MoveWindowInStack w s h)"
proof -
  obtain xs ys where ws: "ws = xs @ w # ys" using split_around [OF w] .
  note ok' = ok [unfolded ws]
  show ?thesis
  proof (cases s)
    case None
    show ?thesis
    proof (cases ys)
      case Nil
      then show ?thesis using restacked_stay [OF ok'] by (simp add: ws None)
    next
      case (Cons y ys')
      then show ?thesis using restacked_bottom [of h p xs w y ys'] ok' by (simp add: ws None)
    qed
  next
    case (Some b)
    then have b: "b \<in> set xs \<or> b \<in> set ys" using s ws by auto
    then show ?thesis
    proof
      assume "b \<in> set xs"
      then obtain as bs where "xs = as @ b # bs" by (rule split_around)
      then show ?thesis using restacked_up [of h p as b bs w ys] ok' by (simp add: ws Some)
    next
      assume "b \<in> set ys"
      then obtain as bs where ys: "ys = as @ b # bs" by (rule split_around)
      show ?thesis
      proof (cases as)
        case Nil
        then show ?thesis using restacked_stay [OF ok'] by (simp add: ws Some ys)
      next
        case (Cons n as')
        then show ?thesis using restacked_down [of h p xs w n as' b bs] ok' by (simp add: ws Some ys)
      qed
    qed
  qed
qed

end
