(* ===== verification/Window_Walk.thy ===== *)
theory Window_Walk
  imports Window_Tree_Laws "HOL-Library.Multiset"
begin

text \<open>
  The heap of windows stands for a tree with ordered branches. The walk of \<open>TraverseTree\<close> is a
  recursion over the tree; a change of the children of one window is the edit of one node.
\<close>

section \<open>Trees\<close>

datatype wtree = Tree (wroot: wptr) (wkids: "wtree list")

fun wins :: "wtree \<Rightarrow> wptr list" where
  "wins (Tree w ts) = w # concat (map wins ts)"

fun subs :: "wtree \<Rightarrow> wtree list" where
  "subs (Tree w ts) = Tree w ts # concat (map subs ts)"

fun rep :: "wheap \<Rightarrow> wtree \<Rightarrow> bool" where
  "rep h (Tree w ts) \<longleftrightarrow> children_ok h w (map wroot ts) \<and> (\<forall>t \<in> set ts. rep h t)"

definition below :: "wtree \<Rightarrow> wptr list" where
  "below t = concat (map wins (wkids t))"

text \<open>The windows of a screen: the tree of its root, which has no parent and no siblings.\<close>

definition window_tree :: "wheap \<Rightarrow> wptr \<Rightarrow> wtree \<Rightarrow> bool" where
  "window_tree h root t \<longleftrightarrow> rep h t \<and> distinct (wins t) \<and> wroot t = root \<and>
     parent (h root) = None \<and> nextSib (h root) = None \<and> prevSib (h root) = None"

lemma wins_root_below: "wins t = wroot t # below t"
  by (cases t) (simp add: below_def)

lemma wroot_in_wins [simp]: "wroot t \<in> set (wins t)"
  by (simp add: wins_root_below)

lemma kid_root_below: "u \<in> set ts \<Longrightarrow> wroot u \<in> (\<Union>t \<in> set ts. set (wins t))"
  by (auto intro: bexI [of _ u])

lemma below_Tree [simp]: "below (Tree w ts) = concat (map wins ts)"
  by (simp add: below_def)

lemma below_root: "set (below t) = (\<Union>u \<in> set (wkids t). set (wins u))"
  by (simp add: below_def)

lemma subs_self [simp]: "t \<in> set (subs t)"
  by (cases t) simp

lemma wins_subs: "u \<in> set (subs t) \<Longrightarrow> set (wins u) \<subseteq> set (wins t)"
  by (induction t rule: wins.induct) fastforce

lemma subs_trans: "u \<in> set (subs t) \<Longrightarrow> v \<in> set (subs u) \<Longrightarrow> v \<in> set (subs t)"
  by (induction t rule: wins.induct) fastforce

lemma wins_iff_subs: "w \<in> set (wins t) \<longleftrightarrow> (\<exists>ts. Tree w ts \<in> set (subs t))"
proof (induction t rule: wins.induct)
  case (1 v ts)
  then show ?case by auto
qed

lemma rep_subs: "rep h t \<Longrightarrow> u \<in> set (subs t) \<Longrightarrow> rep h u"
  by (induction t rule: wins.induct) auto

lemma distinct_kid: "distinct (wins t) \<Longrightarrow> u \<in> set (wkids t) \<Longrightarrow> distinct (wins u) \<and> wroot t \<notin> set (wins u)"
proof (cases t)
  case (Tree w ts)
  assume "distinct (wins t)" "u \<in> set (wkids t)"
  then show ?thesis by (auto simp: Tree distinct_concat_iff)
qed

lemma distinct_subs: "distinct (wins t) \<Longrightarrow> u \<in> set (subs t) \<Longrightarrow> distinct (wins u)"
proof (induction t rule: wins.induct)
  case (1 w ts)
  then show ?case using distinct_kid [of "Tree w ts"] by auto
qed

lemma kid_subs: "u \<in> set (wkids t) \<Longrightarrow> u \<in> set (subs t)"
  by (cases t) (auto intro!: bexI [of _ u])

lemma rep_kids: "rep h t \<Longrightarrow> children_ok h (wroot t) (map wroot (wkids t))"
  by (cases t) simp

text \<open>A window below the root of a tree has its parent in the tree.\<close>

lemma parent_of_kid: "rep h t \<Longrightarrow> u \<in> set (wkids t) \<Longrightarrow> parent (h (wroot u)) = Some (wroot t)"
  using rep_kids [of h t] by (auto simp: children_ok_def)

lemma parent_in_tree: "rep h t \<Longrightarrow> x \<in> set (below t) \<Longrightarrow> \<exists>q \<in> set (wins t). parent (h x) = Some q"
proof (induction t rule: wins.induct)
  case (1 w ts)
  then obtain u where u: "u \<in> set ts" "x \<in> set (wins u)" by auto
  show ?case
  proof (cases "x = wroot u")
    case True
    then show ?thesis using parent_of_kid [OF "1.prems"(1), of u] u(1) by simp
  next
    case False
    then have "x \<in> set (below u)" using u(2) by (simp add: wins_root_below)
    moreover have "rep h u" using "1.prems"(1) u(1) by simp
    ultimately show ?thesis using "1.IH" [OF u(1)] u(1) by auto
  qed
qed

text \<open>What a tree depends on.\<close>

definition same_up :: "wheap \<Rightarrow> wheap \<Rightarrow> wptr \<Rightarrow> bool" where
  "same_up h h' x \<longleftrightarrow> parent (h' x) = parent (h x) \<and> nextSib (h' x) = nextSib (h x) \<and> prevSib (h' x) = prevSib (h x)"

definition same_down :: "wheap \<Rightarrow> wheap \<Rightarrow> wptr \<Rightarrow> bool" where
  "same_down h h' x \<longleftrightarrow> firstChild (h' x) = firstChild (h x) \<and> lastChild (h' x) = lastChild (h x)"

lemma children_ok_same:
  "children_ok h p ws \<Longrightarrow> same_down h h' p \<Longrightarrow> (\<And>w. w \<in> set ws \<Longrightarrow> same_up h h' w) \<Longrightarrow> children_ok h' p ws"
  by (erule children_ok_frame) (simp_all add: same_up_def same_down_def)

lemma rep_frame:
  "rep h t \<Longrightarrow> (\<And>x. x \<in> set (wins t) \<Longrightarrow> same_down h h' x) \<Longrightarrow> (\<And>x. x \<in> set (below t) \<Longrightarrow> same_up h h' x) \<Longrightarrow> rep h' t"
proof (induction t rule: wins.induct)
  case (1 w ts)
  have "children_ok h' w (map wroot ts)"
    by (rule children_ok_same [of h w "map wroot ts" h']) (use "1.prems" kid_root_below [of _ ts] in auto)
  moreover have "rep h' u" if u: "u \<in> set ts" for u
  proof (rule "1.IH" [OF u])
    show "rep h u" using "1.prems"(1) u by simp
    show "same_down h h' x" if "x \<in> set (wins u)" for x using "1.prems"(2) u that by auto
    show "same_up h h' x" if "x \<in> set (below u)" for x using "1.prems"(3) u that by (auto simp: wins_root_below)
  qed
  ultimately show ?case by simp
qed

section \<open>The walk\<close>

text \<open>The reference: a recursion over the tree that visits a window before its children.\<close>

fun walk :: "(wptr \<Rightarrow> 's \<Rightarrow> walk_result \<times> 's) \<Rightarrow> wtree \<Rightarrow> 's \<Rightarrow> bool \<times> 's" where
  "walk visit (Tree w ts) s =
     (let (r, s1) = visit w s
      in if r = WT_STOPWALKING then (True, s1)
         else if r = WT_WALKCHILDREN then fold (\<lambda>t (stopped, s). if stopped then (True, s) else walk visit t s) ts (False, s1)
         else (False, s1))"

definition walks :: "(wptr \<Rightarrow> 's \<Rightarrow> walk_result \<times> 's) \<Rightarrow> wtree list \<Rightarrow> 's \<Rightarrow> bool \<times> 's" where
  "walks visit ts s = fold (\<lambda>t (stopped, s). if stopped then (True, s) else walk visit t s) ts (False, s)"

lemma walks_stopped [simp]: "fold (\<lambda>t (stopped, s). if stopped then (True, s) else walk visit t s) ts (True, s) = (True, s)"
  by (induction ts) auto

lemma walks_simps [simp]:
  "walks visit [] s = (False, s)"
  "walks visit (t # ts) s = (let (stopped, s1) = walk visit t s in if stopped then (True, s1) else walks visit ts s1)"
  by (auto simp: walks_def split: prod.split)

lemma walk_Tree:
  "walk visit (Tree w ts) s =
     (let (r, s1) = visit w s
      in if r = WT_STOPWALKING then (True, s1) else if r = WT_WALKCHILDREN then walks visit ts s1 else (False, s1))"
  by (simp only: walk.simps walks_def)

declare walk.simps [simp del]

text \<open>A visit that leaves the links alone.\<close>

definition same_links :: "wheap \<Rightarrow> wheap \<Rightarrow> bool" where
  "same_links h h' \<longleftrightarrow> (\<forall>x. same_up h h' x \<and> same_down h h' x)"

lemma same_links_refl [simp]: "same_links h h"
  by (simp add: same_links_def same_up_def same_down_def)

lemma same_links_trans: "same_links h h' \<Longrightarrow> same_links h' h'' \<Longrightarrow> same_links h h''"
  by (simp add: same_links_def same_up_def same_down_def)

lemma same_links_rep: "same_links h h' \<Longrightarrow> rep h t \<Longrightarrow> rep h' t"
  by (erule rep_frame) (simp_all add: same_links_def)

definition keeps_links :: "('s \<Rightarrow> wheap) \<Rightarrow> (wptr \<Rightarrow> 's \<Rightarrow> walk_result \<times> 's) \<Rightarrow> bool" where
  "keeps_links get visit \<longleftrightarrow> (\<forall>c s. same_links (get s) (get (snd (visit c s))))"

lemma walk_keeps_links: "keeps_links get visit \<Longrightarrow> same_links (get s) (get (snd (walk visit t s)))"
proof (induction t arbitrary: s rule: wins.induct)
  case (1 w ts)
  have many: "set us \<subseteq> set ts \<Longrightarrow> same_links (get s) (get (snd (walks visit us s)))" for us s
  proof (induction us arbitrary: s)
    case (Cons u us)
    have "same_links (get s) (get (snd (walk visit u s)))"
      using "1.IH" [of u] "1.prems" Cons.prems by simp
    then show ?case
      using Cons.IH [of "snd (walk visit u s)"] Cons.prems by (auto split: prod.split intro: same_links_trans)
  qed simp
  have "same_links (get s) (get (snd (visit w s)))" using "1.prems" by (simp add: keeps_links_def)
  then show ?case
    using many [of ts "snd (visit w s)"] by (auto simp: walk_Tree split: prod.split intro: same_links_trans)
qed

text \<open>What the loop does when the windows below \<open>c\<close> are done.\<close>

definition after :: "('s \<Rightarrow> wheap) \<Rightarrow> (wptr \<Rightarrow> 's \<Rightarrow> walk_result \<times> 's) \<Rightarrow> wptr \<Rightarrow> wptr \<Rightarrow> 's \<Rightarrow> (walk_result \<times> 's) option" where
  "after get visit root c s =
     (case climb (get s) root c of
        None \<Rightarrow> None
      | Some c1 \<Rightarrow>
          if c1 = root then Some (WT_NOMATCH, s) else tree_loop get visit root (the (nextSib (get s c1))) s)"

lemma tree_loop_step:
  "tree_loop get visit root c s =
     (let (result, s1) = visit c s
      in if result = WT_STOPWALKING then Some (WT_STOPWALKING, s1)
         else if result = WT_WALKCHILDREN \<and> firstChild (get s1 c) \<noteq> None
         then tree_loop get visit root (the (firstChild (get s1 c))) s1
         else after get visit root c s1)"
  unfolding after_def by (subst tree_loop.simps) (rule refl)

lemma after_last:
  assumes "nextSib (get s c) = None" "c \<noteq> root" "parent (get s c) = Some p"
  shows "after get visit root c s = after get visit root p s"
proof -
  have "climb (get s) root c = climb (get s) root p"
    using assms by (subst climb.simps) simp
  then show ?thesis by (simp only: after_def)
qed

lemma after_next:
  assumes "nextSib (get s c) = Some d" "c \<noteq> root"
  shows "after get visit root c s = tree_loop get visit root d s"
proof -
  have "climb (get s) root c = Some c" using assms(1) by (subst climb.simps) simp
  then show ?thesis using assms by (simp add: after_def)
qed

definition finish :: "bool \<times> 's \<Rightarrow> ('s \<Rightarrow> (walk_result \<times> 's) option) \<Rightarrow> (walk_result \<times> 's) option" where
  "finish r k = (if fst r then Some (WT_STOPWALKING, snd r) else k (snd r))"

lemma tree_loop_walk:
  assumes keep: "keeps_links get visit"
  shows "rep (get s) t \<Longrightarrow> root \<notin> set (below t) \<Longrightarrow>
    tree_loop get visit root (wroot t) s = finish (walk visit t s) (after get visit root (wroot t))"
proof (induction t arbitrary: s rule: wins.induct)
  case (1 w ts)
  have many: "tree_loop get visit root (wroot u) s' = finish (walks visit (u # us) s') (after get visit root w)"
    if "ts = vs @ u # us" "rep (get s') (Tree w ts)" for u us vs s'
    using that
  proof (induction us arbitrary: u vs s')
    case Nil
    have c: "children_ok (get s') w (map wroot vs @ wroot u # [])" using Nil by simp
    note nb = children_neighbours [OF c]
    have r: "wroot u \<noteq> root" "root \<notin> set (below u)" using "1.prems"(2) Nil(1) by (auto simp: wins_root_below)
    let ?s = "snd (walk visit u s')"
    have l: "same_links (get s') (get ?s)" by (rule walk_keeps_links [OF keep])
    have "nextSib (get ?s (wroot u)) = None" "parent (get ?s (wroot u)) = Some w"
      using l nb by (simp_all add: same_links_def same_up_def)
    then have "after get visit root (wroot u) ?s = after get visit root w ?s" by (rule after_last [OF _ r(1)])
    moreover have "tree_loop get visit root (wroot u) s' = finish (walk visit u s') (after get visit root (wroot u))"
      using "1.IH" [of u s'] Nil r(2) by simp
    ultimately show ?case by (simp add: finish_def split: prod.split)
  next
    case (Cons v us)
    have c: "children_ok (get s') w (map wroot vs @ wroot u # map wroot (v # us))" using Cons.prems by simp
    note nb = children_neighbours [OF c]
    have r: "wroot u \<noteq> root" "root \<notin> set (below u)" using "1.prems"(2) Cons.prems(1) by (auto simp: wins_root_below)
    let ?s = "snd (walk visit u s')"
    have l: "same_links (get s') (get ?s)" by (rule walk_keeps_links [OF keep])
    have "nextSib (get ?s (wroot u)) = Some (wroot v)"
      using l nb(1) by (simp add: same_links_def same_up_def)
    then have "after get visit root (wroot u) ?s = tree_loop get visit root (wroot v) ?s" by (rule after_next [OF _ r(1)])
    also have "\<dots> = finish (walks visit (v # us) ?s) (after get visit root w)"
      by (rule Cons.IH [of "vs @ [u]"]) (simp add: Cons.prems(1), rule same_links_rep [OF l Cons.prems(2)])
    finally have a: "after get visit root (wroot u) ?s = finish (walks visit (v # us) ?s) (after get visit root w)" .
    have "tree_loop get visit root (wroot u) s' = finish (walk visit u s') (after get visit root (wroot u))"
      using "1.IH" [of u s'] Cons.prems r(2) by simp
    then show ?case
      using a by (cases "walk visit u s'") (simp add: finish_def)
  qed
  obtain r s1 where v: "visit w s = (r, s1)" by (cases "visit w s")
  have "same_links (get s) (get s1)" using keep v by (metis keeps_links_def snd_conv)
  then have rp: "rep (get s1) (Tree w ts)" using "1.prems"(1) by (rule same_links_rep)
  then have f: "firstChild (get s1 w) = first_of (map wroot ts)" by (simp add: children_ok_def)
  show ?case
  proof (cases ts)
    case Nil
    then show ?thesis using f v by (subst tree_loop_step) (simp add: walk_Tree finish_def)
  next
    case (Cons u us)
    have f': "firstChild (get s1 w) = Some (wroot u)" using f Cons by simp
    have "tree_loop get visit root (wroot u) s1 = finish (walks visit (u # us) s1) (after get visit root w)"
      using many [of "[]" u us s1] Cons rp by simp
    then show ?thesis using v Cons f' by (subst tree_loop_step) (simp add: walk_Tree finish_def)
  qed
qed

lemma TraverseTree_walk:
  assumes "keeps_links get visit" "rep (get s) t" "distinct (wins t)"
  shows "TraverseTree get visit (Some (wroot t)) s = finish (walk visit t s) (\<lambda>s'. Some (WT_NOMATCH, s'))"
proof -
  have "wroot t \<notin> set (below t)" using assms(3) by (simp add: wins_root_below)
  moreover have "after get visit (wroot t) (wroot t) s' = Some (WT_NOMATCH, s')" for s'
    unfolding after_def by (subst climb.simps) simp
  ultimately show ?thesis
    using tree_loop_walk [OF assms(1,2), of "wroot t"] by (simp add: TraverseTree_def finish_def)
qed

section \<open>Editing a tree\<close>

fun edit :: "wptr \<Rightarrow> (wtree list \<Rightarrow> wtree list) \<Rightarrow> wtree \<Rightarrow> wtree" where
  "edit p f (Tree w ts) = Tree w (if w = p then f ts else map (edit p f) ts)"

lemma wroot_edit [simp]: "wroot (edit p f t) = wroot t"
  by (cases t) simp

lemma edit_outside: "p \<notin> set (wins t) \<Longrightarrow> edit p f t = t"
proof (induction t rule: wins.induct)
  case (1 w ts)
  then have "map (edit p f) ts = ts" by (intro map_idI) auto
  then show ?case using "1.prems" by simp
qed

lemma rep_edit:
  assumes "rep h t" "\<And>x. x \<in> set (wins t) \<Longrightarrow> x \<noteq> p \<Longrightarrow> same_down h h' x"
    and "\<And>x. x \<in> set (below t) \<Longrightarrow> parent (h x) \<noteq> Some p \<Longrightarrow> same_up h h' x"
    and "\<And>ts. Tree p ts \<in> set (subs t) \<Longrightarrow> rep h' (Tree p (f ts))"
  shows "rep h' (edit p f t)"
  using assms
proof (induction t rule: wins.induct)
  case (1 w ts)
  show ?case
  proof (cases "w = p")
    case True
    then show ?thesis using "1.prems"(4) [of ts] by simp
  next
    case False
    have c: "children_ok h w (map wroot ts)" using "1.prems"(1) by simp
    have "children_ok h' w (map wroot ts)"
    proof (rule children_ok_same [OF c])
      show "same_down h h' w" using "1.prems"(2) False by simp
      show "same_up h h' x" if "x \<in> set (map wroot ts)" for x
        using "1.prems"(3) [of x] children_ok_child(1) [OF c that] False kid_root_below [of _ ts] that by auto
    qed
    moreover have "rep h' (edit p f u)" if u: "u \<in> set ts" for u
    proof (rule "1.IH" [OF u])
      show "rep h u" using "1.prems"(1) u by simp
      show "same_down h h' x" if "x \<in> set (wins u)" "x \<noteq> p" for x using "1.prems"(2) u that by auto
      show "same_up h h' x" if "x \<in> set (below u)" "parent (h x) \<noteq> Some p" for x
        using "1.prems"(3) u that by (auto simp: wins_root_below)
      show "rep h' (Tree p (f ts'))" if "Tree p ts' \<in> set (subs u)" for ts' using "1.prems"(4) u that by auto
    qed
    ultimately show ?thesis using False by (simp add: comp_def)
  qed
qed

lemma kids_disjoint:
  assumes "distinct (wins (Tree w us))" "u \<in> set us" "u' \<in> set us" "x \<in> set (wins u)" "x \<in> set (wins u')"
  shows "u = u'"
proof -
  obtain as bs where us: "us = as @ u # bs" using split_list [OF assms(2)] by blast
  have "x \<notin> set (wins v)" if "v \<in> set as \<union> set bs" for v using assms(1,4) us that by auto
  then show ?thesis using us assms(3,5) by auto
qed

lemma subs_unique:
  "distinct (wins t) \<Longrightarrow> Tree p ts \<in> set (subs t) \<Longrightarrow> Tree p ts' \<in> set (subs t) \<Longrightarrow> ts = ts'"
proof (induction t rule: wins.induct)
  case (1 w us)
  have no: "p \<notin> set (below (Tree w us)) \<or> w \<noteq> p" using "1.prems"(1) by auto
  have inb: "Tree p vs \<in> set (subs u) \<Longrightarrow> u \<in> set us \<Longrightarrow> p \<in> set (wins u)" for u vs
    by (auto simp: wins_iff_subs)
  show ?case
  proof (cases "w = p")
    case True
    then show ?thesis using "1.prems"(2,3) no inb by fastforce
  next
    case False
    then obtain u u' where u: "u \<in> set us" "Tree p ts \<in> set (subs u)" "u' \<in> set us" "Tree p ts' \<in> set (subs u')"
      using "1.prems"(2,3) by auto
    have "p \<in> set (wins u)" "p \<in> set (wins u')" using inb u by blast+
    then have "u = u'" by (rule kids_disjoint [OF "1.prems"(1) u(1,3)])
    then show ?thesis using "1.IH" [OF u(1)] distinct_kid [of "Tree w us" u] "1.prems"(1) u by simp
  qed
qed

lemma edit_mset:
  "distinct (wins t) \<Longrightarrow> Tree p ts \<in> set (subs t) \<Longrightarrow>
     mset (wins (edit p f t)) + mset (concat (map wins ts)) = mset (wins t) + mset (concat (map wins (f ts)))"
proof (induction t rule: wins.induct)
  case (1 w us)
  show ?case
  proof (cases "w = p")
    case True
    have "us = ts" using subs_unique [OF "1.prems"(1), of p us ts] "1.prems"(2) True by simp
    then show ?thesis using True by simp
  next
    case False
    then obtain u where u: "u \<in> set us" "Tree p ts \<in> set (subs u)" using "1.prems"(2) by auto
    obtain as bs where us: "us = as @ u # bs" using split_list [OF u(1)] by blast
    have pu: "p \<in> set (wins u)" using u(2) by (auto simp: wins_iff_subs)
    have d: "distinct (wins u)" "\<forall>v \<in> set as \<union> set bs. p \<notin> set (wins v)" using "1.prems"(1) us pu by auto
    have "map (edit p f) as = as" "map (edit p f) bs = bs" using d(2) by (intro map_idI edit_outside; blast)+
    then show ?thesis using "1.IH" [OF u(1) d(1) u(2)] False us by simp
  qed
qed

lemma edit_kids_ok:
  assumes "rep h t" "Tree p ts \<in> set (subs t)"
  shows "children_ok h p (map wroot ts)" "\<And>u. u \<in> set ts \<Longrightarrow> rep h u"
  using rep_subs [OF assms] by simp_all

text \<open>The windows inside a child of \<open>p\<close>, and those elsewhere, have another parent than \<open>p\<close>.\<close>

lemma below_kid_parent:
  assumes "rep h u" "p \<notin> set (wins u)" "x \<in> set (below u)"
  shows "parent (h x) \<noteq> Some p"
  using parent_in_tree [OF assms(1,3)] assms(2) by auto

lemma kid_frame:
  assumes t: "rep h t" "distinct (wins t)" and s: "Tree p ts \<in> set (subs t)" and u: "u \<in> set ts"
    and down: "\<And>x. x \<in> set (wins t) \<Longrightarrow> x \<noteq> p \<Longrightarrow> same_down h h' x"
    and up: "\<And>x. x \<in> set (wins t) \<Longrightarrow> parent (h x) \<noteq> Some p \<Longrightarrow> same_up h h' x"
  shows "rep h' u"
proof -
  have d: "distinct (wins (Tree p ts))" by (rule distinct_subs [OF t(2) s])
  have p: "p \<notin> set (wins u)" using distinct_kid [OF d] u by simp
  have sub: "set (wins u) \<subseteq> set (wins t)" using wins_subs [OF s] u by auto
  show ?thesis
  proof (rule rep_frame)
    show r: "rep h u" by (rule edit_kids_ok(2) [OF t(1) s u])
    show "same_down h h' x" if "x \<in> set (wins u)" for x using down that p sub by blast
    show "same_up h h' x" if "x \<in> set (below u)" for x
      using up below_kid_parent [OF r p that] that sub by (auto simp: wins_root_below)
  qed
qed

text \<open>So the edit of one node is right when its new list of children is.\<close>

lemma rep_edit_kids:
  assumes t: "rep h t" "distinct (wins t)" and s: "Tree p ts \<in> set (subs t)"
    and down: "\<And>x. x \<in> set (wins t) \<Longrightarrow> x \<noteq> p \<Longrightarrow> same_down h h' x"
    and up: "\<And>x. x \<in> set (wins t) \<Longrightarrow> parent (h x) \<noteq> Some p \<Longrightarrow> same_up h h' x"
    and kids: "children_ok h' p (map wroot (f ts))" and new: "\<And>u. u \<in> set (f ts) \<Longrightarrow> u \<in> set ts \<or> rep h' u"
  shows "rep h' (edit p f t)"
proof (rule rep_edit [OF t(1)])
  show "same_down h h' x" if "x \<in> set (wins t)" "x \<noteq> p" for x by (rule down [OF that])
  show "same_up h h' x" if "x \<in> set (below t)" "parent (h x) \<noteq> Some p" for x
    using up that by (simp add: wins_root_below)
  show "rep h' (Tree p (f ts'))" if "Tree p ts' \<in> set (subs t)" for ts'
  proof -
    have "ts' = ts" by (rule subs_unique [OF t(2) that s])
    moreover have "rep h' u" if "u \<in> set (f ts)" for u
      using new [OF that] kid_frame [OF t s _ down up] by blast
    ultimately show ?thesis using kids by simp
  qed
qed

lemma window_tree_edit:
  assumes t: "window_tree h root t" and s: "Tree p ts \<in> set (subs t)"
    and down: "\<And>x. x \<in> set (wins t) \<Longrightarrow> x \<noteq> p \<Longrightarrow> same_down h h' x"
    and up: "\<And>x. x \<in> set (wins t) \<Longrightarrow> parent (h x) \<noteq> Some p \<Longrightarrow> same_up h h' x"
    and kids: "children_ok h' p (map wroot (f ts))" and new: "\<And>u. u \<in> set (f ts) \<Longrightarrow> u \<in> set ts \<or> rep h' u"
    and d: "distinct (wins (edit p f t))"
  shows "window_tree h' root (edit p f t)"
proof -
  have r: "rep h t" "distinct (wins t)" "wroot t = root" "parent (h root) = None" "nextSib (h root) = None" "prevSib (h root) = None"
    using t by (simp_all add: window_tree_def)
  have "same_up h h' root" using up [of root] r(3,4) wroot_in_wins [of t] by simp
  moreover have "rep h' (edit p f t)" by (rule rep_edit_kids [where f = f, OF r(1,2) s down up kids new])
  ultimately show ?thesis using r d by (simp add: window_tree_def same_up_def)
qed

lemma kids_roots_distinct: "distinct (wins (Tree p ts)) \<Longrightarrow> distinct (map wroot ts)"
proof -
  assume d: "distinct (wins (Tree p ts))"
  have "distinct (concat (map wins ts)) \<Longrightarrow> distinct (map wroot ts)"
  proof (induction ts)
    case (Cons u us)
    have "wroot u \<noteq> wroot v" if "v \<in> set us" for v
    proof
      assume e: "wroot u = wroot v"
      have "wroot u \<in> set (wins v)" using wroot_in_wins [of v] by (simp only: e)
      then show False using Cons.prems wroot_in_wins [of u] that by (auto simp del: wroot_in_wins)
    qed
    then show ?case using Cons by auto
  qed simp
  then show ?thesis using d by simp
qed

text \<open>A restacked child, a child taken out, and one put behind another or to the front.\<close>

definition restack_kids :: "wptr \<Rightarrow> wptr option \<Rightarrow> wtree list \<Rightarrow> wtree list" where
  "restack_kids w s ts =
     (let r = filter (\<lambda>u. wroot u \<noteq> w) ts; us = filter (\<lambda>u. wroot u = w) ts
      in case s of None \<Rightarrow> r @ us
         | Some b \<Rightarrow> takeWhile (\<lambda>u. wroot u \<noteq> b) r @ us @ dropWhile (\<lambda>u. wroot u \<noteq> b) r)"

definition take_kid :: "wptr \<Rightarrow> wtree list \<Rightarrow> wtree list" where
  "take_kid w ts = filter (\<lambda>u. wroot u \<noteq> w) ts"

definition put_kid :: "wptr option \<Rightarrow> wtree \<Rightarrow> wtree list \<Rightarrow> wtree list" where
  "put_kid q u ts =
     (case q of None \<Rightarrow> u # ts
      | Some b \<Rightarrow> concat (map (\<lambda>v. if wroot v = b then [v, u] else [v]) ts))"

lemma filter_out:
  assumes "distinct (map wroot (xs @ u # ys))"
  shows "filter (\<lambda>v. wroot v \<noteq> wroot u) (xs @ u # ys) = xs @ ys" "filter (\<lambda>v. wroot v = wroot u) (xs @ u # ys) = [u]"
proof -
  have n: "wroot v \<noteq> wroot u" if "v \<in> set xs \<union> set ys" for v
  proof
    assume "wroot v = wroot u"
    then have "wroot u \<in> set (map wroot xs) \<union> set (map wroot ys)" using that by (metis UnE UnI1 UnI2 image_eqI set_map)
    then show False using assms by auto
  qed
  then have "filter (\<lambda>v. wroot v \<noteq> wroot u) xs = xs" "filter (\<lambda>v. wroot v \<noteq> wroot u) ys = ys"
    "filter (\<lambda>v. wroot v = wroot u) xs = []" "filter (\<lambda>v. wroot v = wroot u) ys = []"
    by (simp_all add: filter_id_conv filter_empty_conv)
  then show "filter (\<lambda>v. wroot v \<noteq> wroot u) (xs @ u # ys) = xs @ ys" "filter (\<lambda>v. wroot v = wroot u) (xs @ u # ys) = [u]"
    by simp_all
qed

lemma restack_kids_roots:
  assumes "distinct (map wroot ts)" "w \<in> set (map wroot ts)"
  shows "map wroot (restack_kids w s ts) = restack (map wroot ts) w s"
proof -
  obtain u where u: "u \<in> set ts" "wroot u = w" using assms(2) by auto
  obtain xs ys where ts: "ts = xs @ u # ys" using split_list [OF u(1)] by blast
  note f = filter_out [of xs u ys, folded ts, OF assms(1), unfolded u(2)]
  have "remove1 w (map wroot ts) = map wroot (xs @ ys)"
    using assms(1) u(2) by (simp add: ts remove1_append)
  moreover have "takeWhile (\<lambda>x. x \<noteq> b) (map wroot (xs @ ys)) = map wroot (takeWhile (\<lambda>u. wroot u \<noteq> b) (xs @ ys))"
    "dropWhile (\<lambda>x. x \<noteq> b) (map wroot (xs @ ys)) = map wroot (dropWhile (\<lambda>u. wroot u \<noteq> b) (xs @ ys))" for b
    by (simp_all add: takeWhile_map dropWhile_map comp_def del: map_append)
  ultimately show ?thesis using u(2)
    by (cases s) (simp_all only: restack_kids_def restack_def f Let_def option.case, simp_all)
qed

lemma mset_restack_kids: "mset (restack_kids w s ts) = mset ts"
proof -
  have "mset (takeWhile P r) + mset (dropWhile P r) = mset r" for P and r :: "wtree list"
    by (metis mset_append takeWhile_dropWhile_id)
  moreover have "mset (filter (\<lambda>u. wroot u \<noteq> w) ts) + mset (filter (\<lambda>u. wroot u = w) ts) = mset ts"
    by (induction ts) auto
  moreover have "mset (takeWhile P r @ us @ dropWhile P r) = mset (takeWhile P r) + mset (dropWhile P r) + mset us" for P and r us :: "wtree list"
    by simp
  ultimately show ?thesis
    unfolding restack_kids_def Let_def by (cases s) (simp_all only: option.case mset_append)
qed

lemma mset_put_kid:
  assumes "q = None \<or> (\<exists>v \<in> set ts. q = Some (wroot v))" "distinct (map wroot ts)"
  shows "mset (put_kid q u ts) = add_mset u (mset ts)"
    "map wroot (put_kid q u ts) = (case q of None \<Rightarrow> wroot u # map wroot ts
       | Some b \<Rightarrow> takeWhile (\<lambda>x. x \<noteq> b) (map wroot ts) @ b # wroot u # drop 1 (dropWhile (\<lambda>x. x \<noteq> b) (map wroot ts)))"
proof -
  have "mset (put_kid q u ts) = add_mset u (mset ts) \<and> map wroot (put_kid q u ts) = (case q of None \<Rightarrow> wroot u # map wroot ts
       | Some b \<Rightarrow> takeWhile (\<lambda>x. x \<noteq> b) (map wroot ts) @ b # wroot u # drop 1 (dropWhile (\<lambda>x. x \<noteq> b) (map wroot ts)))"
  proof (cases q)
    case (Some b)
    then obtain v where v: "v \<in> set ts" "wroot v = b" using assms(1) by auto
    obtain xs ys where ts: "ts = xs @ v # ys" using split_list [OF v(1)] by blast
    have n: "b \<notin> set (map wroot xs)" "b \<notin> set (map wroot ys)" using assms(2) ts v(2) by auto
    have c: "b \<notin> set (map wroot zs) \<Longrightarrow> concat (map (\<lambda>x. if wroot x = b then [x, u] else [x]) zs) = zs" for zs
      by (induction zs) auto
    have "b \<notin> set zs \<Longrightarrow> takeWhile (\<lambda>x. x \<noteq> b) (zs @ b # us) = zs \<and> dropWhile (\<lambda>x. x \<noteq> b) (zs @ b # us) = b # us" for zs us
      by (induction zs) auto
    from this [OF n(1), of "map wroot ys"]
    have "takeWhile (\<lambda>x. x \<noteq> b) (map wroot ts) = map wroot xs" "dropWhile (\<lambda>x. x \<noteq> b) (map wroot ts) = b # map wroot ys"
      using v(2) by (simp_all add: ts)
    then show ?thesis using c [OF n(1)] c [OF n(2)] v(2) by (simp add: put_kid_def Some ts)
  qed (simp add: put_kid_def)
  then show "mset (put_kid q u ts) = add_mset u (mset ts)"
    "map wroot (put_kid q u ts) = (case q of None \<Rightarrow> wroot u # map wroot ts
       | Some b \<Rightarrow> takeWhile (\<lambda>x. x \<noteq> b) (map wroot ts) @ b # wroot u # drop 1 (dropWhile (\<lambda>x. x \<noteq> b) (map wroot ts)))"
    by blast+
qed

text \<open>Windows before and after.\<close>

lemma mset_concat_wins: "mset ts = mset us \<Longrightarrow> mset (concat (map wins ts)) = mset (concat (map wins us))"
proof -
  have "mset (concat (map wins vs)) = (\<Sum>v \<in># mset vs. mset (wins v))" for vs
    by (induction vs) auto
  then show "mset ts = mset us \<Longrightarrow> ?thesis" by simp
qed

lemma edit_restack_wins:
  assumes "distinct (wins t)" "Tree p ts \<in> set (subs t)"
  shows "mset (wins (edit p (restack_kids w s) t)) = mset (wins t)"
  using edit_mset [OF assms, of "restack_kids w s"] mset_concat_wins [OF mset_restack_kids [of w s ts]] by simp

lemma edit_take_wins:
  assumes "distinct (wins t)" "Tree p ts \<in> set (subs t)" "u \<in> set ts"
  shows "mset (wins t) = mset (wins (edit p (take_kid (wroot u)) t)) + mset (wins u)"
proof -
  obtain xs ys where ts: "ts = xs @ u # ys" using split_list [OF assms(3)] by blast
  have "take_kid (wroot u) ts = xs @ ys"
    using filter_out(1) [of xs u ys] kids_roots_distinct [OF distinct_subs [OF assms(1,2)]] by (simp add: take_kid_def ts)
  then show ?thesis using edit_mset [OF assms(1,2), of "take_kid (wroot u)"] by (simp add: ts)
qed

lemma edit_put_wins:
  assumes "distinct (wins t)" "Tree p ts \<in> set (subs t)" "q = None \<or> (\<exists>v \<in> set ts. q = Some (wroot v))"
  shows "mset (wins (edit p (put_kid q u) t)) = mset (wins t) + mset (wins u)"
proof -
  have "mset (put_kid q u ts) = mset (u # ts)"
    using mset_put_kid(1) [OF assms(3) kids_roots_distinct [OF distinct_subs [OF assms(1,2)]]] by simp
  from mset_concat_wins [OF this] show ?thesis using edit_mset [OF assms(1,2), of "put_kid q u"] by simp
qed

section \<open>The links refine the edits\<close>

lemma no_links_parent: "no_links r = no_links r' \<Longrightarrow> parent r = parent r'"
  by (cases r; cases r') (simp add: no_links_def)

lemma relinked_same:
  assumes "relinked p A h h'" "\<And>x. x \<in> A \<Longrightarrow> parent (h x) = Some p"
  shows "x \<noteq> p \<Longrightarrow> same_down h h' x" "parent (h x) \<noteq> Some p \<Longrightarrow> same_up h h' x"
proof -
  have "no_links (h' x) = no_links (h x)" using assms(1) by (simp add: relinked_def)
  then have pp: "parent (h' x) = parent (h x)" by (rule no_links_parent)
  show "x \<noteq> p \<Longrightarrow> same_down h h' x" using assms(1) by (simp add: relinked_def same_down_def)
  show "parent (h x) \<noteq> Some p \<Longrightarrow> same_up h h' x"
    using assms pp by (auto simp: relinked_def same_up_def)
qed

lemma window_tree_kids:
  assumes "window_tree h root t" "Tree p ts \<in> set (subs t)"
  shows "children_ok h p (map wroot ts)" "distinct (map wroot ts)" "distinct (wins (Tree p ts))"
    "\<And>w. w \<in> set (map wroot ts) \<Longrightarrow> parent (h w) = Some p"
proof -
  have r: "rep h t" "distinct (wins t)" using assms(1) by (simp_all add: window_tree_def)
  show c: "children_ok h p (map wroot ts)" by (rule edit_kids_ok [OF r(1) assms(2)])
  show d: "distinct (wins (Tree p ts))" by (rule distinct_subs [OF r(2) assms(2)])
  show "distinct (map wroot ts)" by (rule kids_roots_distinct [OF d])
  show "\<And>w. w \<in> set (map wroot ts) \<Longrightarrow> parent (h w) = Some p" by (rule children_ok_child(1) [OF c])
qed

lemma MoveWindowInStack_tree:
  assumes t: "window_tree h root t" and s: "Tree p ts \<in> set (subs t)" and w: "w \<in> set (map wroot ts)"
    and b: "s = None \<or> (\<exists>b \<in> set (map wroot ts). b \<noteq> w \<and> s = Some b)"
  obtains fc h' where "MoveWindowInStack w s h = Some (fc, h')" "window_tree h' root (edit p (restack_kids w s) t)"
    "\<And>x. no_links (h' x) = no_links (h x)" "mset (wins (edit p (restack_kids w s) t)) = mset (wins t)"
proof -
  note k = window_tree_kids [OF t \<open>Tree p ts \<in> set (subs t)\<close>]
  obtain fc h' where m: "MoveWindowInStack w s h = Some (fc, h')" "children_ok h' p (restack (map wroot ts) w s)"
    "relinked p (set (map wroot ts)) h h'"
    using MoveWindowInStack_restacks [OF k(1) w b] unfolding restacked_def by blast
  note same = relinked_same [OF m(3) k(4)]
  have d: "distinct (wins t)" using t by (simp add: window_tree_def)
  note ms = edit_restack_wins [OF d \<open>Tree p ts \<in> set (subs t)\<close>, of w s]
  have "window_tree h' root (edit p (restack_kids w s) t)"
  proof (rule window_tree_edit [where f = "restack_kids w s", OF t \<open>Tree p ts \<in> set (subs t)\<close>])
    show "children_ok h' p (map wroot (restack_kids w s ts))"
      using m(2) by (simp only: restack_kids_roots [OF k(2) w])
    show "u \<in> set ts \<or> rep h' u" if "u \<in> set (restack_kids w s ts)" for u
      using that mset_eq_setD [OF mset_restack_kids [of w s ts]] by blast
    show "distinct (wins (edit p (restack_kids w s) t))" using ms d by (metis mset_eq_imp_distinct_iff)
  qed (use same in blast)+
  moreover have "no_links (h' x) = no_links (h x)" for x using m(3) by (simp add: relinked_def)
  ultimately show ?thesis using that m(1) ms by blast
qed

text \<open>A window taken out takes the tree below it along.\<close>

lemma unlink_tree:
  assumes t: "window_tree h root t" and s: "Tree p ts \<in> set (subs t)" and u: "u \<in> set ts"
  shows "window_tree (unlink p (wroot u) h) root (edit p (take_kid (wroot u)) t)"
    "rep (unlink p (wroot u) h) u" "\<And>x. no_links (unlink p (wroot u) h x) = no_links (h x)"
    "\<And>x. x \<noteq> p \<Longrightarrow> same_down h (unlink p (wroot u) h) x" "\<And>x. parent (h x) \<noteq> Some p \<Longrightarrow> same_up h (unlink p (wroot u) h) x"
proof -
  let ?w = "wroot u" and ?h = "unlink p (wroot u) h"
  note k = window_tree_kids [OF t s]
  have r: "rep h t" "distinct (wins t)" using t by (simp_all add: window_tree_def)
  obtain xs ys where ts: "ts = xs @ u # ys" using split_list [OF u] by blast
  have ws: "map wroot ts = map wroot xs @ ?w # map wroot ys" by (simp add: ts)
  note nb = children_neighbours [OF k(1) [unfolded ws]]
  have e: "?h = unlinked p ?w h"
    by (rule unlink_eq) (use nb first_of_Some [of "map wroot ys" ?w] last_of_Some [of "map wroot xs" ?w] in auto)
  have c: "children_ok ?h p (map wroot (xs @ ys))"
    using unlinked_children [OF k(1) [unfolded ws]] by (simp add: e)
  have "relinked p (set (map wroot ts)) h (unlinked p ?w h)"
    by (rule relinked_unlinked) (use nb ws first_of_Some [of "map wroot ys"] last_of_Some [of "map wroot xs"] in force)+
  then have l: "relinked p (set (map wroot ts)) h ?h" by (simp only: e)
  note same = relinked_same [OF l k(4)]
  have tk: "take_kid ?w ts = xs @ ys"
    using filter_out(1) [of xs u ys] k(2) by (simp add: take_kid_def ts)
  show "window_tree ?h root (edit p (take_kid ?w) t)"
  proof (rule window_tree_edit [where f = "take_kid ?w", OF t s])
    show "children_ok ?h p (map wroot (take_kid ?w ts))" using c by (simp add: tk)
    show "v \<in> set ts \<or> rep ?h v" if "v \<in> set (take_kid ?w ts)" for v using that by (simp add: take_kid_def)
    show "distinct (wins (edit p (take_kid ?w) t))"
      using edit_take_wins [OF r(2) s u] r(2) by (metis distinct_append mset_append mset_eq_imp_distinct_iff)
  qed (use same in blast)+
  show "rep ?h u" by (rule kid_frame [OF r s u]) (use same in blast)+
  show "\<And>x. no_links (?h x) = no_links (h x)" using l by (simp add: relinked_def)
  show "\<And>x. x \<noteq> p \<Longrightarrow> same_down h ?h x" "\<And>x. parent (h x) \<noteq> Some p \<Longrightarrow> same_up h ?h x" using same by blast+
qed

text \<open>Put in, a tree of windows belongs to the new parent.\<close>

lemma link_tree:
  assumes t: "window_tree h root t" and s: "Tree p ts \<in> set (subs t)"
    and u: "rep h u" "distinct (wins u)" "set (wins u) \<inter> set (wins t) = {}" "parent (h (wroot u)) = Some p"
    and q: "q = None \<or> q \<in> Some ` set (map wroot ts)"
  shows "window_tree (link_head q p (wroot u) h) root (edit p (put_kid q u) t)"
    "\<And>x. no_links (link_head q p (wroot u) h x) = no_links (h x)"
proof -
  let ?w = "wroot u" and ?h = "link_head q p (wroot u) h"
  note k = window_tree_kids [OF t s]
  have r: "rep h t" "distinct (wins t)" using t by (simp_all add: window_tree_def)
  have sub: "set (wins (Tree p ts)) \<subseteq> set (wins t)" by (rule wins_subs [OF s])
  have pw: "p \<in> set (wins t)" "set (map wroot ts) \<subseteq> set (wins t)" using sub kid_root_below [of _ ts] by auto
  have w: "?w \<notin> set (wins t)" using u(3) wroot_in_wins [of u] by blast
  obtain xs ys where xy: "map wroot ts = xs @ ys" "q = last_of xs" "q = None \<Longrightarrow> xs = []"
  proof (cases q)
    case None
    then show ?thesis using that [of "[]" "map wroot ts"] by simp
  next
    case (Some b)
    then have "b \<in> set (map wroot ts)" using q by blast
    then obtain as bs where "map wroot ts = as @ b # bs" using split_list by metis
    then show ?thesis using that [of "as @ [b]" bs] Some by simp
  qed
  have c: "children_ok h p (xs @ ys)" using k(1) by (simp only: xy)
  have nx: "(case q of None \<Rightarrow> firstChild (h p) | Some b \<Rightarrow> nextSib (h b)) = first_of ys"
  proof (cases q)
    case None
    then show ?thesis using c xy(3) by (simp add: children_ok_def)
  next
    case (Some b)
    then obtain as where as: "xs = as @ [b]" using xy(2) by (cases xs rule: rev_cases) auto
    have c': "children_ok h p (as @ b # ys)" using c by (simp add: as)
    show ?thesis using children_neighbours(1) [OF c'] Some by simp
  qed
  have inn: "x \<in> set (wins t) \<and> x \<noteq> p" if "x \<in> set (xs @ ys)" for x
    using that xy(1) pw(2) k(3) by (metis children_neighbours(7) split_list k(1) subsetD)
  have lq: "q = Some b \<Longrightarrow> b \<in> set (xs @ ys)" for b using xy(2) last_of_Some [of xs b] by auto
  have fy: "first_of ys = Some b \<Longrightarrow> b \<in> set (xs @ ys)" for b using first_of_Some [of ys b] by auto
  have wp: "?w \<noteq> p" using w pw(1) by metis
  have e: "?h = linked p ?w (last_of xs) (first_of ys) h"
  proof -
    have "?h = linked p ?w q (case q of None \<Rightarrow> firstChild (h p) | Some b \<Rightarrow> nextSib (h b)) h"
    proof (rule link_head_eq [OF wp])
      assume "q = None"
      then have "firstChild (h p) = first_of ys" using nx by simp
      then show "firstChild (h p) \<noteq> Some ?w \<and> firstChild (h p) \<noteq> Some p" using fy inn w by metis
    next
      fix b assume b: "q = Some b"
      then have n: "nextSib (h b) = first_of ys" using nx by simp
      have "first_of ys \<noteq> Some b"
      proof
        assume "first_of ys = Some b"
        then have "b \<in> set ys" "b \<in> set xs" using b xy(2) last_of_Some first_of_Some by metis+
        then show False using c by (auto simp: children_ok_def)
      qed
      then show "b \<noteq> ?w \<and> b \<noteq> p \<and> nextSib (h b) \<noteq> Some ?w \<and> nextSib (h b) \<noteq> Some b \<and> nextSib (h b) \<noteq> Some p"
        using n lq [OF b] fy inn w by metis
    qed
    then show ?thesis by (simp only: nx, simp only: xy(2))
  qed
  have c2: "children_ok ?h p (xs @ ?w # ys)"
    unfolding e by (rule linked_children [OF c]) (use inn w wp u(4) in auto)
  have "relinked p (insert ?w (set (xs @ ys))) h (linked p ?w (last_of xs) (first_of ys) h)"
    by (rule relinked_linked) (use lq fy xy(2) in auto)
  then have l: "relinked p (insert ?w (set (map wroot ts))) h ?h" by (simp only: e xy(1))
  have "\<And>x. x \<in> insert ?w (set (map wroot ts)) \<Longrightarrow> parent (h x) = Some p" using k(4) u(4) by blast
  note same = relinked_same [OF l this]
  have ru: "rep ?h u"
  proof (rule rep_frame [OF u(1)])
    have pu: "p \<notin> set (wins u)" using u(3) pw(1) by blast
    show "same_down h ?h x" if "x \<in> set (wins u)" for x using same(1) pu that by metis
    show "same_up h ?h x" if "x \<in> set (below u)" for x using same(2) below_kid_parent [OF u(1) pu that] by blast
  qed
  have q': "q = None \<or> (\<exists>v \<in> set ts. q = Some (wroot v))" using q by auto
  note ms = edit_put_wins [OF r(2) s q', of u]
  have roots: "map wroot (put_kid q u ts) = xs @ ?w # ys"
  proof (cases q)
    case None
    then show ?thesis using mset_put_kid(2) [OF q' k(2), of u] xy by simp
  next
    case (Some b)
    then obtain as where as: "xs = as @ [b]" using xy(2) by (cases xs rule: rev_cases) auto
    have "b \<notin> set as" using k(2) unfolding xy as by simp
    then have "takeWhile (\<lambda>x. x \<noteq> b) (as @ b # ys) = as \<and> dropWhile (\<lambda>x. x \<noteq> b) (as @ b # ys) = b # ys"
      by (induction as) auto
    then show ?thesis using mset_put_kid(2) [OF q' k(2), of u] Some by (simp add: xy(1) as)
  qed
  show "window_tree ?h root (edit p (put_kid q u) t)"
  proof (rule window_tree_edit [where f = "put_kid q u", OF t s])
    show "children_ok ?h p (map wroot (put_kid q u ts))" using c2 by (simp only: roots)
    show "v \<in> set ts \<or> rep ?h v" if "v \<in> set (put_kid q u ts)" for v
      using that mset_eq_setD [OF mset_put_kid(1) [OF q' k(2), of u, folded mset.simps(2)]] ru by auto
    have "distinct (wins t @ wins u)" using r(2) u(2,3) by auto
    then show "distinct (wins (edit p (put_kid q u) t))" using ms by (metis mset_append mset_eq_imp_distinct_iff)
  qed (use same in blast)+
  show "\<And>x. no_links (?h x) = no_links (h x)" using l by (simp add: relinked_def)
qed

end
