(* ===== verification/Window_Life_Laws.thy ===== *)
theory Window_Life_Laws
  imports Window_Life Window_Walk
begin

text \<open>
  The operations on windows keep the tree and its flags: a window is realized where it is mapped and
  its parent is realized, and viewable where it is realized and not for input only.
\<close>

section \<open>The state\<close>

definition flags_ok :: "wheap \<Rightarrow> wptr set \<Rightarrow> bool" where
  "flags_ok h A \<longleftrightarrow> (\<forall>x \<in> A. viewable (h x) = (realized (h x) \<and> inputOutput (h x)) \<and>
     realized (h x) = (mapped (h x) \<and> (\<forall>q. parent (h x) = Some q \<longrightarrow> realized (h q))))"

definition windows_ok :: "wptr \<Rightarrow> wtree \<Rightarrow> wstate \<Rightarrow> bool" where
  "windows_ok root t s \<longleftrightarrow> window_tree (wheap s) root t \<and> flags_ok (wheap s) (set (wins t)) \<and> set (wins t) \<subseteq> wlive s"

lemma windows_okD:
  assumes "windows_ok root t s"
  shows "window_tree (wheap s) root t" "rep (wheap s) t" "distinct (wins t)" "wroot t = root"
    "parent (wheap s root) = None" "flags_ok (wheap s) (set (wins t))" "set (wins t) \<subseteq> wlive s"
  using assms by (simp_all add: windows_ok_def window_tree_def)

text \<open>What mapping changes of a window.\<close>

definition no_flags :: "win \<Rightarrow> win" where
  "no_flags r = r\<lparr>mapped := False, realized := False, viewable := False\<rparr>"

definition flags_only :: "wstate \<Rightarrow> wstate \<Rightarrow> bool" where
  "flags_only s s' \<longleftrightarrow> wlive s' = wlive s \<and> (\<forall>x. no_flags (wheap s' x) = no_flags (wheap s x))"

lemma no_flags_sel:
  "no_flags r = no_flags r' \<Longrightarrow> parent r = parent r' \<and> firstChild r = firstChild r' \<and> lastChild r = lastChild r' \<and>
     nextSib r = nextSib r' \<and> prevSib r = prevSib r' \<and> inputOutput r = inputOutput r' \<and> overrideRedirect r = overrideRedirect r' \<and>
     win_id r = win_id r' \<and> borderWidth r = borderWidth r'"
  by (cases r; cases r') (simp add: no_flags_def)

lemma flags_only_trans: "flags_only s s' \<Longrightarrow> flags_only s' s'' \<Longrightarrow> flags_only s s''"
  by (simp add: flags_only_def)

lemma flags_only_refl [simp]: "flags_only s s"
  by (simp add: flags_only_def)

lemma flags_only_links: "flags_only s s' \<Longrightarrow> same_links (wheap s) (wheap s')"
  unfolding same_links_def same_up_def same_down_def flags_only_def using no_flags_sel by blast

lemma same_links_tree: "same_links h h' \<Longrightarrow> window_tree h root t \<Longrightarrow> window_tree h' root t"
  using same_links_rep [of h h' t] by (simp add: window_tree_def same_links_def same_up_def)

lemma flags_only_ok:
  assumes "flags_only s s'" "windows_ok root t s" "flags_ok (wheap s') (set (wins t))"
  shows "windows_ok root t s'"
  using assms same_links_tree [OF flags_only_links [OF assms(1)]] by (simp add: windows_ok_def flags_only_def)

text \<open>The windows freed so far.\<close>

definition freed :: "wstate \<Rightarrow> wptr list" where
  "freed s = concat (map (\<lambda>e. case e of FreedWindow w \<Rightarrow> [w] | _ \<Rightarrow> []) (wtrace s))"

section \<open>Realizing and unrealizing\<close>

text \<open>The windows that become realized, in the order of the calls: those mapped all the way from the top.\<close>

fun reach :: "wheap \<Rightarrow> wtree \<Rightarrow> wptr list" where
  "reach h (Tree w ts) = (if mapped (h w) then w # concat (map (reach h) ts) else [])"

definition mark :: "wptr set \<Rightarrow> wheap \<Rightarrow> wheap" where
  "mark A h = (\<lambda>x. if x \<in> A then (h x)\<lparr>realized := True, viewable := inputOutput (h x)\<rparr> else h x)"

definition marked :: "wptr list \<Rightarrow> wstate \<Rightarrow> wstate" where
  "marked ws s = s\<lparr>wheap := mark (set ws) (wheap s), wtrace := wtrace s @ map RealizeCall ws\<rparr>"

lemma mark_sel [simp]: "mapped (mark A h x) = mapped (h x)" "inputOutput (mark A h x) = inputOutput (h x)" "parent (mark A h x) = parent (h x)"
  by (simp_all add: mark_def)

lemma reach_cong: "(\<And>x. mapped (h' x) = mapped (h x)) \<Longrightarrow> reach h' u = reach h u"
  by (induction u rule: wins.induct) (simp cong: map_cong)

lemma mark_mark: "mark A (mark B h) = mark (A \<union> B) h"
  by (rule ext) (simp add: mark_def)

lemma marked_append: "marked ys (marked xs s) = marked (xs @ ys) s"
  by (simp add: marked_def mark_mark Un_commute)

lemma marked_Nil [simp]: "marked [] s = s"
  by (simp add: marked_def mark_def)

lemma walk_realize: "walk realize_visit u s = (False, marked (reach (wheap s) u) s)"
proof (induction u arbitrary: s rule: wins.induct)
  case (1 w ts)
  have many: "set us \<subseteq> set ts \<Longrightarrow> walks realize_visit us s = (False, marked (concat (map (reach (wheap s)) us)) s)" for us s
  proof (induction us arbitrary: s)
    case (Cons u us)
    let ?s = "marked (reach (wheap s) u) s"
    have "reach (wheap ?s) v = reach (wheap s) v" for v
      by (rule reach_cong) (simp add: marked_def)
    then have e: "map (reach (wheap ?s)) us = map (reach (wheap s)) us" by simp
    have "walks realize_visit us ?s = (False, marked (concat (map (reach (wheap ?s)) us)) ?s)"
      using Cons.IH Cons.prems by simp
    then show ?case using "1.IH" [of u s] Cons.prems by (simp add: e marked_append)
  qed simp
  show ?case
  proof (cases "mapped (wheap s w)")
    case True
    let ?s = "marked [w] s"
    have v: "realize_visit w s = (WT_WALKCHILDREN, ?s)"
      using True by (simp add: realize_visit_def marked_def mark_def trace_event_def upd_win_def fun_eq_iff)
    have "reach (wheap ?s) v = reach (wheap s) v" for v
      by (rule reach_cong) (simp add: marked_def)
    then have e: "map (reach (wheap ?s)) ts = map (reach (wheap s)) ts" by simp
    show ?thesis using many [of ts ?s] True by (simp add: walk_Tree v e marked_append)
  next
    case False
    then show ?thesis by (simp add: walk_Tree realize_visit_def)
  qed
qed

lemma keeps_links_flags:
  "(\<And>c s. flags_only s (snd (visit c s))) \<Longrightarrow> keeps_links wheap visit"
  unfolding keeps_links_def using flags_only_links by blast

lemma flags_only_realize: "flags_only s (snd (realize_visit c s))"
  by (simp add: flags_only_def realize_visit_def trace_event_def upd_win_def no_flags_def)

lemma RealizeTree_eq:
  assumes "rep (wheap s) u" "distinct (wins u)"
  shows "RealizeTree (wroot u) s = Some (marked (reach (wheap s) u) s)"
  using TraverseTree_walk [OF keeps_links_flags [OF flags_only_realize] assms]
  by (simp add: RealizeTree_def TraverseTree_def walk_realize finish_def)

lemma reach_wins: "set (reach h u) \<subseteq> set (wins u)"
  by (induction u rule: wins.induct) fastforce

lemma reach_root: "wroot u \<in> set (reach h u) \<longleftrightarrow> mapped (h (wroot u))"
  by (cases u) simp

text \<open>In the tree of \<open>u\<close> a window is reached when it is mapped and its parent is reached.\<close>

lemma reach_step:
  "rep h u \<Longrightarrow> distinct (wins u) \<Longrightarrow> x \<in> set (below u) \<Longrightarrow> parent (h x) = Some q \<Longrightarrow>
     x \<in> set (reach h u) \<longleftrightarrow> mapped (h x) \<and> q \<in> set (reach h u)"
proof (induction u rule: wins.induct)
  case (1 w ts)
  then obtain v where v: "v \<in> set ts" "x \<in> set (wins v)" by auto
  have only: "y \<in> set (reach h v') \<Longrightarrow> y \<in> set (wins v) \<Longrightarrow> v' \<in> set ts \<Longrightarrow> v' = v" for v' y
    using kids_disjoint [OF "1.prems"(2) _ v(1)] reach_wins by blast
  have w: "w \<notin> set (wins v)" using distinct_kid [OF "1.prems"(2)] v(1) by simp
  have mem: "y \<in> set (reach h (Tree w ts)) \<longleftrightarrow> mapped (h w) \<and> y \<in> set (reach h v)" if y: "y \<in> set (wins v)" for y
    using v(1) only [OF _ y] w y by (auto split: if_splits)
  show ?case
  proof (cases "x = wroot v")
    case True
    then have "q = w" using "1.prems"(1,4) parent_of_kid [OF "1.prems"(1), of v] v(1) by simp
    then show ?thesis using mem [OF v(2)] True by (auto simp: reach_root)
  next
    case False
    then have x: "x \<in> set (below v)" using v(2) by (simp add: wins_root_below)
    have r: "rep h v" "distinct (wins v)" using "1.prems" distinct_kid [OF "1.prems"(2)] v(1) by simp_all
    obtain q' where "q' \<in> set (wins v)" "parent (h x) = Some q'" using parent_in_tree [OF r(1) x] by blast
    then have q: "q \<in> set (wins v)" using "1.prems"(4) by simp
    show ?thesis using "1.IH" [OF v(1) r x "1.prems"(4)] mem [OF v(2)] mem [OF q] by blast
  qed
qed

text \<open>The windows that stop being realized.\<close>

fun down :: "wheap \<Rightarrow> wtree \<Rightarrow> wptr list" where
  "down h (Tree w ts) = (if realized (h w) then w # concat (map (down h) ts) else [])"

definition unmark :: "wptr set \<Rightarrow> wheap \<Rightarrow> wheap" where
  "unmark A h = (\<lambda>x. if x \<in> A then (h x)\<lparr>realized := False, viewable := False\<rparr> else h x)"

definition unmarked :: "wptr list \<Rightarrow> wstate \<Rightarrow> wstate" where
  "unmarked ws s = s\<lparr>wheap := unmark (set ws) (wheap s), wtrace := wtrace s @ map UnrealizeCall ws\<rparr>"

lemma down_cong: "(\<And>x. x \<in> set (wins u) \<Longrightarrow> realized (h' x) = realized (h x)) \<Longrightarrow> down h' u = down h u"
proof (induction u rule: wins.induct)
  case (1 w ts)
  have "map (down h') ts = map (down h) ts" using 1 by (intro map_cong) auto
  moreover have "realized (h' w) = realized (h w)" using "1.prems" by simp
  ultimately show ?case by (simp del: map_eq_conv)
qed

lemma unmarked_append: "unmarked ys (unmarked xs s) = unmarked (xs @ ys) s"
  by (auto simp: unmarked_def unmark_def fun_eq_iff)

lemma unmarked_Nil [simp]: "unmarked [] s = s"
  by (simp add: unmarked_def unmark_def)

lemma down_wins: "set (down h u) \<subseteq> set (wins u)"
  by (induction u rule: wins.induct) fastforce

lemma walk_unrealize: "distinct (wins u) \<Longrightarrow> walk unrealize_visit u s = (False, unmarked (down (wheap s) u) s)"
proof (induction u arbitrary: s rule: wins.induct)
  case (1 w ts)
  have d: "distinct (concat (map wins ts))" "w \<notin> set (concat (map wins ts))" using "1.prems" by simp_all
  have many: "set us \<subseteq> set ts \<Longrightarrow> distinct (concat (map wins us)) \<Longrightarrow>
      walks unrealize_visit us s = (False, unmarked (concat (map (down (wheap s)) us)) s)" for us s
  proof (induction us arbitrary: s)
    case (Cons u us)
    let ?s = "unmarked (down (wheap s) u) s"
    have "down (wheap ?s) v = down (wheap s) v" if "v \<in> set us" for v
    proof (rule down_cong)
      fix x assume "x \<in> set (wins v)"
      then have "x \<notin> set (wins u)" using Cons.prems(2) that by auto
      then show "realized (wheap ?s x) = realized (wheap s x)" using down_wins by (auto simp: unmarked_def unmark_def)
    qed
    then have e: "map (down (wheap ?s)) us = map (down (wheap s)) us" by simp
    have "walks unrealize_visit us ?s = (False, unmarked (concat (map (down (wheap ?s)) us)) ?s)"
      using Cons.IH Cons.prems by simp
    then show ?case using "1.IH" [of u s] Cons.prems by (simp add: e unmarked_append)
  qed simp
  show ?case
  proof (cases "realized (wheap s w)")
    case True
    let ?s = "unmarked [w] s"
    have v: "unrealize_visit w s = (WT_WALKCHILDREN, ?s)"
      using True by (simp add: unrealize_visit_def dixScreenRaiseUnrealizeWindow_def unmarked_def unmark_def trace_event_def upd_win_def fun_eq_iff)
    have "down (wheap ?s) v = down (wheap s) v" if "v \<in> set ts" for v
      by (rule down_cong) (use d(2) that in \<open>auto simp: unmarked_def unmark_def\<close>)
    then have e: "map (down (wheap ?s)) ts = map (down (wheap s)) ts" by simp
    show ?thesis using many [of ts ?s] d(1) True by (simp add: walk_Tree v e unmarked_append)
  next
    case False
    then show ?thesis by (simp add: walk_Tree unrealize_visit_def)
  qed
qed

lemma flags_only_unrealize: "flags_only s (snd (unrealize_visit c s))"
  by (simp add: flags_only_def unrealize_visit_def dixScreenRaiseUnrealizeWindow_def trace_event_def upd_win_def no_flags_def)

lemma UnrealizeTree_eq:
  assumes "rep (wheap s) u" "distinct (wins u)"
  shows "UnrealizeTree (wroot u) s = Some (unmarked (down (wheap s) u) s)"
  using TraverseTree_walk [OF keeps_links_flags [OF flags_only_unrealize] assms]
  by (simp add: UnrealizeTree_def TraverseTree_def walk_unrealize [OF assms(2)] finish_def)

section \<open>Mapping and unmapping one window\<close>

lemma flags_unrealized:
  assumes "flags_ok h A" "rep h u" "set (wins u) \<subseteq> A" "\<not> realized (h (wroot u))" "x \<in> set (wins u)"
  shows "\<not> realized (h x) \<and> \<not> viewable (h x)"
  using assms
proof (induction u arbitrary: x rule: wins.induct)
  case (1 w ts)
  show ?case
  proof (cases "x = w")
    case True
    then show ?thesis using "1.prems"(1,3,4) by (simp add: flags_ok_def)
  next
    case False
    then obtain v where v: "v \<in> set ts" "x \<in> set (wins v)" using "1.prems"(5) by auto
    have s: "set (wins v) \<subseteq> A" using "1.prems"(3) v(1) by auto
    have "parent (h (wroot v)) = Some w" using parent_of_kid [OF "1.prems"(2)] v(1) by simp
    moreover have "wroot v \<in> A" using s wroot_in_wins [of v] by blast
    ultimately have "\<not> realized (h (wroot v))" using "1.prems"(1,4) by (auto simp: flags_ok_def)
    then show ?thesis using "1.IH" [OF v(1) "1.prems"(1) _ s _ v(2)] "1.prems"(2) v(1) by simp
  qed
qed

text \<open>The node of the parent of a window.\<close>

lemma kid_node:
  "rep h t \<Longrightarrow> x \<in> set (below t) \<Longrightarrow> \<exists>p ts u. Tree p ts \<in> set (subs t) \<and> u \<in> set ts \<and> wroot u = x \<and> parent (h x) = Some p"
proof (induction t rule: wins.induct)
  case (1 w ts)
  then obtain v where v: "v \<in> set ts" "x \<in> set (wins v)" by auto
  show ?case
  proof (cases "x = wroot v")
    case True
    then show ?thesis using v(1) parent_of_kid [OF "1.prems"(1), of v] by (intro exI [of _ w] exI [of _ ts] exI [of _ v]) simp
  next
    case False
    then have "x \<in> set (below v)" using v(2) by (simp add: wins_root_below)
    moreover have "rep h v" using "1.prems"(1) v(1) by simp
    ultimately obtain p ts' u where "Tree p ts' \<in> set (subs v)" "u \<in> set ts'" "wroot u = x" "parent (h x) = Some p"
      using "1.IH" [OF v(1)] by blast
    then show ?thesis using v(1) by (intro exI [of _ p] exI [of _ ts'] exI [of _ u]) auto
  qed
qed

lemma kid_of:
  assumes t: "window_tree h root t" and x: "x \<in> set (wins t)" "parent (h x) = Some p"
  obtains ts u where "Tree p ts \<in> set (subs t)" "u \<in> set ts" "wroot u = x"
proof -
  have "x \<noteq> root" using t x(2) by (auto simp: window_tree_def)
  then have "x \<in> set (below t)" using t x(1) by (simp add: window_tree_def wins_root_below)
  then show ?thesis using kid_node [of h t x] t x(2) that by (auto simp: window_tree_def)
qed

lemma not_root_parent:
  assumes t: "window_tree h root t" and x: "x \<in> set (wins t)" "x \<noteq> root"
  obtains p where "parent (h x) = Some p"
proof -
  have "x \<in> set (below t)" using t x by (simp add: window_tree_def wins_root_below)
  then show ?thesis using kid_node [of h t x] t that by (auto simp: window_tree_def)
qed

lemma parent_closed:
  assumes t: "window_tree h root t" and u: "u \<in> set (subs t)" "q \<in> set (wins u)" and x: "x \<in> set (wins t)" "parent (h x) = Some q"
  shows "x \<in> set (wins u)"
proof -
  obtain ts v where v: "Tree q ts \<in> set (subs t)" "v \<in> set ts" "wroot v = x" by (rule kid_of [OF t x])
  obtain ts' where s: "Tree q ts' \<in> set (subs u)" using u(2) by (auto simp: wins_iff_subs)
  have "ts = ts'" by (rule subs_unique [OF _ v(1) subs_trans [OF u(1) s]]) (use t in \<open>simp add: window_tree_def\<close>)
  then have "x \<in> set (wins (Tree q ts'))" using v(2,3) kid_root_below [of v ts'] by auto
  then show ?thesis using wins_subs [OF s] by blast
qed

lemma subtree_at:
  assumes "w \<in> set (wins t)"
  obtains u where "u \<in> set (subs t)" "wroot u = w"
  using assms by (auto simp: wins_iff_subs)

lemma subs_at_unique: "distinct (wins t) \<Longrightarrow> u \<in> set (subs t) \<Longrightarrow> v \<in> set (subs t) \<Longrightarrow> wroot u = wroot v \<Longrightarrow> u = v"
  using subs_unique [of t "wroot u" "wkids u" "wkids v"] by (cases u; cases v) simp

lemma subs_size: "v \<in> set (subs t) \<Longrightarrow> size v \<le> size t"
proof (induction t rule: wins.induct)
  case (1 w ts)
  have "v' \<in> set ts \<Longrightarrow> size v' \<le> size_list size ts" for v'
    by (induction ts) auto
  then show ?case using 1 by fastforce
qed

lemma parent_not_below:
  assumes t: "window_tree h root t" and w: "w \<in> set (wins t)" "parent (h w) = Some p" and u: "u \<in> set (subs t)" "wroot u = w"
  shows "p \<notin> set (wins u)"
proof
  assume "p \<in> set (wins u)"
  have d: "distinct (wins t)" using t by (simp add: window_tree_def)
  obtain ts v where v: "Tree p ts \<in> set (subs t)" "v \<in> set ts" "wroot v = w" by (rule kid_of [OF t w])
  obtain ts' where n: "Tree p ts' \<in> set (subs u)" using \<open>p \<in> set (wins u)\<close> by (auto simp: wins_iff_subs)
  have "ts' = ts" by (rule subs_unique [OF d subs_trans [OF u(1) n] v(1)])
  moreover have vt: "v \<in> set (subs t)" using subs_trans [OF v(1)] v(2) kid_subs [of v "Tree p ts"] by simp
  moreover have "v = u" by (rule subs_at_unique [OF d vt u(1)]) (simp add: v(3) u(2))
  moreover have "v \<in> set ts \<Longrightarrow> size v \<le> size_list size ts" for v by (induction ts) auto
  ultimately show False using subs_size [OF n] v(2) by fastforce
qed

text \<open>Both changes of the flags below a window \<open>w\<close>, stated over the parts of the tree.\<close>

lemma flags_ok_subtree:
  assumes t: "window_tree h root t" and f: "flags_ok h (set (wins t))" and u: "u \<in> set (subs t)"
    and out: "\<And>x. x \<notin> set (wins u) \<Longrightarrow> h' x = h x"
    and same: "\<And>x. parent (h' x) = parent (h x)"
    and inside: "\<And>x. x \<in> set (wins u) \<Longrightarrow> viewable (h' x) = (realized (h' x) \<and> inputOutput (h' x)) \<and>
       realized (h' x) = (mapped (h' x) \<and> (\<forall>q. parent (h x) = Some q \<longrightarrow> realized (h' q)))"
  shows "flags_ok h' (set (wins t))"
  unfolding flags_ok_def
proof
  fix x assume x: "x \<in> set (wins t)"
  show "viewable (h' x) = (realized (h' x) \<and> inputOutput (h' x)) \<and>
     realized (h' x) = (mapped (h' x) \<and> (\<forall>q. parent (h' x) = Some q \<longrightarrow> realized (h' q)))"
  proof (cases "x \<in> set (wins u)")
    case True
    then show ?thesis using inside same by simp
  next
    case False
    have "realized (h' q) = realized (h q)" if "parent (h x) = Some q" for q
      using out parent_closed [OF t u _ x that] False by metis
    then show ?thesis using f x out [OF False] same [of x] by (auto simp: flags_ok_def)
  qed
qed

lemma windows_ok_subtree:
  assumes ok: "windows_ok root t s" and w: "w \<in> set (wins t)"
  obtains u where "u \<in> set (subs t)" "wroot u = w" "rep (wheap s) u" "distinct (wins u)" "set (wins u) \<subseteq> set (wins t)"
proof -
  note k = windows_okD [OF ok]
  obtain u where u: "u \<in> set (subs t)" "wroot u = w" by (rule subtree_at [OF w])
  show ?thesis
    by (rule that [OF u rep_subs [OF k(2) u(1)] distinct_subs [OF k(3) u(1)] wins_subs [OF u(1)]])
qed

definition set_mapped :: "wptr \<Rightarrow> bool \<Rightarrow> wstate \<Rightarrow> wstate" where
  "set_mapped w b s = upd_win w (\<lambda>r. r\<lparr>mapped := b\<rparr>) s"

lemma set_mapped_sel [simp]:
  "wheap (set_mapped w b s) x = (if x = w then (wheap s w)\<lparr>mapped := b\<rparr> else wheap s x)"
  "wlive (set_mapped w b s) = wlive s" "wheap (trace_if c e s) = wheap s" "wlive (trace_if c e s) = wlive s"
  "wheap (trace_event e s) = wheap s" "wlive (trace_event e s) = wlive s"
  by (simp_all add: set_mapped_def upd_win_def trace_if_def trace_event_def)

lemma map_child_ok:
  assumes ok: "windows_ok root t s" and w: "w \<in> set (wins t)" "parent (wheap s w) = Some p" "\<not> mapped (wheap s w)"
  obtains s' where "map_child env p w s = Some s'" "windows_ok root t s'" "flags_only s s'"
    "\<And>x. mapped (wheap s' x) = (mapped (wheap s x) \<or> x = w)"
proof -
  note k = windows_okD [OF ok]
  obtain u where u: "u \<in> set (subs t)" "wroot u = w" "rep (wheap s) u" "distinct (wins u)" "set (wins u) \<subseteq> set (wins t)"
    by (rule windows_ok_subtree [OF ok w(1)])
  let ?s1 = "trace_if (SubStrSend env w p) (MapNotify w) (set_mapped w True s)"
  have s1: "flags_only s ?s1" by (simp add: flags_only_def no_flags_def)
  have nw: "\<not> realized (wheap s w)" using k(6) w by (simp add: flags_ok_def)
  have un: "\<not> realized (wheap s x) \<and> \<not> viewable (wheap s x)" if "x \<in> set (wins u)" for x
    by (rule flags_unrealized [OF k(6) u(3,5) _ that]) (use nw u(2) in simp)
  have pu: "p \<notin> set (wins u)" by (rule parent_not_below [OF k(1) w(1,2) u(1,2)])
  show ?thesis
  proof (cases "realized (wheap s p)")
    case False
    have m: "map_child env p w s = Some ?s1"
      using False w(2) nw by (cases "p = w") (simp_all add: map_child_def Let_def set_mapped_def [symmetric])
    have "flags_ok (wheap ?s1) (set (wins t))"
    proof (rule flags_ok_subtree [OF k(1,6) u(1)])
      show "wheap ?s1 x = wheap s x" if "x \<notin> set (wins u)" for x
        using that u(2) wroot_in_wins [of u] by (auto simp: fun_upd_def)
      show "parent (wheap ?s1 x) = parent (wheap s x)" for x by simp
      fix x assume x: "x \<in> set (wins u)"
      then have "x \<in> set (wins t)" using u(5) by blast
      then show "viewable (wheap ?s1 x) = (realized (wheap ?s1 x) \<and> inputOutput (wheap ?s1 x)) \<and>
          realized (wheap ?s1 x) = (mapped (wheap ?s1 x) \<and> (\<forall>q. parent (wheap s x) = Some q \<longrightarrow> realized (wheap ?s1 q)))"
        using k(6) un [OF x] False w(2) nw by (auto simp: flags_ok_def)
    qed
    then have "windows_ok root t ?s1" by (rule flags_only_ok [OF s1 ok])
    then show ?thesis by (rule that [OF m _ s1]) simp
  next
    case True
    let ?A = "set (reach (wheap ?s1) u)"
    let ?s' = "marked (reach (wheap ?s1) u) ?s1"
    have ru: "rep (wheap ?s1) u" by (rule same_links_rep [OF flags_only_links [OF s1] u(3)])
    have "RealizeTree w ?s1 = Some ?s'" using RealizeTree_eq [OF ru u(4)] u(2) by simp
    then have m: "map_child env p w s = Some ?s'"
      using True by (cases "p = w") (simp_all add: map_child_def Let_def set_mapped_def [symmetric])
    have s2: "flags_only s ?s'" using s1 by (auto simp: flags_only_def marked_def mark_def no_flags_def)
    have sel: "mapped (wheap ?s' x) = (mapped (wheap s x) \<or> x = w)" "inputOutput (wheap ?s' x) = inputOutput (wheap s x)"
      "parent (wheap ?s' x) = parent (wheap s x)" "realized (wheap ?s' x) = (realized (wheap s x) \<or> x \<in> ?A)"
      "viewable (wheap ?s' x) = (if x \<in> ?A then inputOutput (wheap s x) else viewable (wheap s x))" for x
      by (simp_all add: marked_def) (simp_all add: mark_def)
    have A: "?A \<subseteq> set (wins u)" by (rule reach_wins)
    have "flags_ok (wheap ?s') (set (wins t))"
    proof (rule flags_ok_subtree [OF k(1,6) u(1)])
      show "wheap ?s' x = wheap s x" if "x \<notin> set (wins u)" for x
        using that A u(2) wroot_in_wins [of u] by (auto simp: marked_def mark_def)
      show "parent (wheap ?s' x) = parent (wheap s x)" for x by (rule sel)
      fix x assume x: "x \<in> set (wins u)"
      have v: "viewable (wheap ?s' x) = (realized (wheap ?s' x) \<and> inputOutput (wheap ?s' x))"
        unfolding sel using un [OF x] by simp
      show "viewable (wheap ?s' x) = (realized (wheap ?s' x) \<and> inputOutput (wheap ?s' x)) \<and>
          realized (wheap ?s' x) = (mapped (wheap ?s' x) \<and> (\<forall>q. parent (wheap s x) = Some q \<longrightarrow> realized (wheap ?s' q)))"
      proof (cases "x = w")
        case xw: True
        have "w \<in> ?A" using reach_root [of u "wheap ?s1"] u(2) by simp
        then show ?thesis using v True w(2) xw by (simp only: sel) simp
      next
        case False
        then have b: "x \<in> set (below u)" using x u(2) by (simp add: wins_root_below)
        obtain q where q: "q \<in> set (wins u)" "parent (wheap s x) = Some q" using parent_in_tree [OF u(3) b] by blast
        have "x \<in> ?A \<longleftrightarrow> mapped (wheap s x) \<and> q \<in> ?A"
          using reach_step [OF ru u(4) b, of q] q(2) False by simp
        then show ?thesis using v un [OF x] un [OF q(1)] q(2) False unfolding sel by simp
      qed
    qed
    then have "windows_ok root t ?s'" by (rule flags_only_ok [OF s2 ok])
    then show ?thesis by (rule that [OF m _ s2 sel(1)])
  qed
qed

lemma down_all:
  assumes "rep h u" "\<And>x q. x \<in> set (below u) \<Longrightarrow> parent (h x) = Some q \<Longrightarrow> realized (h x) \<Longrightarrow> realized (h q)"
    and "x \<in> set (wins u)" "realized (h x)"
  shows "x \<in> set (down h u)"
  using assms
proof (induction u arbitrary: x rule: wins.induct)
  case (1 w ts)
  have kid: "y \<in> set (down h v) \<and> realized (h w)" if v: "v \<in> set ts" and y: "y \<in> set (wins v)" "realized (h y)" for v y
  proof -
    have r: "rep h v" using "1.prems"(1) v by simp
    have c: "realized (h z) \<Longrightarrow> parent (h z) = Some q \<Longrightarrow> realized (h q)" if "z \<in> set (wins v)" for z q
      using "1.prems"(2) [of z q] that v by auto
    have "y \<in> set (down h v)" by (rule "1.IH" [OF v r _ y]) (use c in \<open>auto simp: wins_root_below\<close>)
    moreover have "realized (h (wroot v))" using calculation by (cases v) (auto split: if_splits)
    ultimately show ?thesis using c [OF wroot_in_wins] parent_of_kid [OF "1.prems"(1), of v] v by simp
  qed
  show ?case using "1.prems"(3,4) kid by auto
qed

lemma unmap_child_ok:
  assumes ok: "windows_ok root t s" and w: "w \<in> set (wins t)" "parent (wheap s w) = Some p"
  obtains s' where "unmap_child env p w c s = Some s'" "windows_ok root t s'" "flags_only s s'"
    "\<And>x. mapped (wheap s' x) = (mapped (wheap s x) \<and> x \<noteq> w)"
    "\<And>u x. u \<in> set (subs t) \<Longrightarrow> wroot u = w \<Longrightarrow> x \<in> set (wins u) \<Longrightarrow> \<not> realized (wheap s' x)"
    "freed s' = freed s"
proof -
  note k = windows_okD [OF ok]
  obtain u where u: "u \<in> set (subs t)" "wroot u = w" "rep (wheap s) u" "distinct (wins u)" "set (wins u) \<subseteq> set (wins t)"
    by (rule windows_ok_subtree [OF ok w(1)])
  let ?s1 = "set_mapped w False (trace_if (SubStrSend env w p) (UnmapNotify w c) s)"
  let ?s' = "if realized (wheap s w) then unmarked (down (wheap ?s1) u) ?s1 else ?s1"
  have s1: "flags_only s ?s1" by (simp add: flags_only_def no_flags_def)
  have ru: "rep (wheap ?s1) u" by (rule same_links_rep [OF flags_only_links [OF s1] u(3)])
  have "UnrealizeTree w ?s1 = Some (unmarked (down (wheap ?s1) u) ?s1)" using UnrealizeTree_eq [OF ru u(4)] u(2) by simp
  then have m: "unmap_child env p w c s = Some ?s'"
    by (simp add: unmap_child_def Let_def set_mapped_def [symmetric])
  let ?A = "set (down (wheap ?s1) u)"
  have d: "down (wheap ?s1) u = down (wheap s) u" by (rule down_cong) simp
  have s2: "flags_only s ?s'" using s1 by (auto simp: flags_only_def unmarked_def unmark_def no_flags_def)
  have up: "realized (wheap s q)" if "x \<in> set (wins u)" "parent (wheap s x) = Some q" "realized (wheap s x)" for x q
    using k(6) u(5) that by (auto simp: flags_ok_def)
  have no: "\<not> realized (wheap ?s' x) \<and> \<not> viewable (wheap ?s' x)" if x: "x \<in> set (wins u)" for x
  proof (cases "realized (wheap s w)")
    case True
    have "realized (wheap s x) \<Longrightarrow> x \<in> ?A" unfolding d
      by (rule down_all [OF u(3) _ x]) (use up in \<open>auto simp: wins_root_below\<close>)
    moreover have "viewable (wheap s x) \<Longrightarrow> realized (wheap s x)" using k(6) u(5) x by (auto simp: flags_ok_def)
    ultimately show ?thesis using True by (auto simp: unmarked_def unmark_def)
  next
    case False
    then have "\<not> realized (wheap s x) \<and> \<not> viewable (wheap s x)"
      using flags_unrealized [OF k(6) u(3,5) _ x] u(2) by simp
    then show ?thesis using False by (cases "x = w") simp_all
  qed
  have sel: "mapped (wheap ?s' x) = (mapped (wheap s x) \<and> x \<noteq> w)" for x
    by (simp add: unmarked_def unmark_def)
  have "flags_ok (wheap ?s') (set (wins t))"
  proof (rule flags_ok_subtree [OF k(1,6) u(1)])
    show "wheap ?s' x = wheap s x" if "x \<notin> set (wins u)" for x
      using that down_wins [of "wheap ?s1" u] u(2) wroot_in_wins [of u] by (auto simp: unmarked_def unmark_def)
    show "parent (wheap ?s' x) = parent (wheap s x)" for x by (simp add: unmarked_def unmark_def)
    fix x assume x: "x \<in> set (wins u)"
    have "\<not> (mapped (wheap ?s' x) \<and> (\<forall>q. parent (wheap s x) = Some q \<longrightarrow> realized (wheap ?s' q)))"
    proof (cases "x = w")
      case False
      then have b: "x \<in> set (below u)" using x u(2) by (simp add: wins_root_below)
      obtain q where "q \<in> set (wins u)" "parent (wheap s x) = Some q" using parent_in_tree [OF u(3) b] by blast
      then show ?thesis using no by blast
    qed (simp only: sel, simp)
    then show "viewable (wheap ?s' x) = (realized (wheap ?s' x) \<and> inputOutput (wheap ?s' x)) \<and>
        realized (wheap ?s' x) = (mapped (wheap ?s' x) \<and> (\<forall>q. parent (wheap s x) = Some q \<longrightarrow> realized (wheap ?s' q)))"
      using no [OF x] by blast
  qed
  then have "windows_ok root t ?s'" by (rule flags_only_ok [OF s2 ok])
  moreover have "\<not> realized (wheap ?s' x)" if "v \<in> set (subs t)" "wroot v = w" "x \<in> set (wins v)" for v x
  proof -
    have "v = u" by (rule subs_at_unique [OF k(3) that(1) u(1)]) (simp add: that(2) u(2))
    then show ?thesis using no that(3) by blast
  qed
  moreover have "freed ?s' = freed s"
    by (simp add: freed_def unmarked_def set_mapped_def trace_if_def trace_event_def upd_win_def comp_def)
  ultimately show ?thesis using that [OF m _ s2 sel] by blast
qed

section \<open>The requests to map and unmap\<close>

lemma windows_ok_trace [simp]: "windows_ok root t (trace_event e s) = windows_ok root t s"
  by (simp add: windows_ok_def)

lemma flags_only_trace [simp]: "flags_only s (trace_event e s)"
  by (simp add: flags_only_def)

lemma redirected_flags: "flags_only s s' \<Longrightarrow> redirected env p w s' = redirected env p w s"
  unfolding redirected_def flags_only_def using no_flags_sel by blast

lemma map_step_ok:
  assumes ok: "windows_ok root t s" and w: "w \<in> set (wins t)" "parent (wheap s w) = Some p"
  obtains s' where "(if mapped (wheap s w) then Some s
       else if redirected env p w s then Some (trace_event (MapRequest w p) s) else map_child env p w s) = Some s'"
    "windows_ok root t s'" "flags_only s s'"
    "\<And>x. mapped (wheap s' x) = (mapped (wheap s x) \<or> x = w \<and> \<not> redirected env p w s)"
proof (cases "mapped (wheap s w) \<or> redirected env p w s")
  case True
  then show ?thesis using ok that [of s] that [of "trace_event (MapRequest w p) s"] by (cases "mapped (wheap s w)") auto
next
  case False
  obtain s' where s': "map_child env p w s = Some s'" "windows_ok root t s'" "flags_only s s'"
    "\<And>x. mapped (wheap s' x) = (mapped (wheap s x) \<or> x = w)"
    by (rule map_child_ok [OF ok w, of env]) (use False in auto)
  show ?thesis by (rule that [OF _ s'(2,3)]) (use s' False in auto)
qed

lemma MapWindow_ok:
  assumes ok: "windows_ok root t s" and w: "w \<in> set (wins t)" and root: "mapped (wheap s root)"
  obtains s' where "MapWindow env w s = Some s'" "windows_ok root t s'" "flags_only s s'"
    "\<And>x. mapped (wheap s' x) = (mapped (wheap s x) \<or>
       x = w \<and> show_access env w \<and> (\<forall>p. parent (wheap s w) = Some p \<longrightarrow> \<not> redirected env p w s))"
proof (cases "mapped (wheap s w) \<or> \<not> show_access env w")
  case True
  have "MapWindow env w s = Some s" using True by (auto simp: MapWindow_def)
  then show ?thesis by (rule that [OF _ ok]) (use True in auto)
next
  case False
  then have "w \<noteq> root" using root by auto
  then obtain p where p: "parent (wheap s w) = Some p" by (rule not_root_parent [OF windows_okD(1) [OF ok] w])
  obtain s' where s': "(if mapped (wheap s w) then Some s
       else if redirected env p w s then Some (trace_event (MapRequest w p) s) else map_child env p w s) = Some s'"
    "windows_ok root t s'" "flags_only s s'"
    "\<And>x. mapped (wheap s' x) = (mapped (wheap s x) \<or> x = w \<and> \<not> redirected env p w s)"
    by (rule map_step_ok [OF ok w p, of env]) blast
  have "MapWindow env w s = Some s'" using s'(1) False p by (simp add: MapWindow_def)
  then show ?thesis by (rule that [OF _ s'(2,3)]) (use s'(4) False p in auto)
qed

text \<open>A root window alone on its screen is mapped and realized by the first request.\<close>

lemma MapWindow_root:
  assumes "window_tree (wheap s) root (Tree root [])" "\<not> mapped (wheap s root)" "show_access env root" "root \<in> wlive s"
  obtains s' where "MapWindow env root s = Some s'" "windows_ok root (Tree root []) s'" "mapped (wheap s' root)"
proof -
  have p: "parent (wheap s root) = None" using assms(1) by (simp add: window_tree_def)
  let ?s = "trace_event (RealizeCall root) (upd_win root (\<lambda>r. r\<lparr>mapped := True, realized := True, viewable := inputOutput r\<rparr>) s)"
  have "MapWindow env root s = Some ?s" using assms p by (simp add: MapWindow_def)
  moreover have "flags_only s ?s" by (simp add: flags_only_def upd_win_def no_flags_def)
  then have "window_tree (wheap ?s) root (Tree root [])"
    using same_links_tree [OF flags_only_links assms(1)] by blast
  then have "windows_ok root (Tree root []) ?s"
    using assms(4) p by (simp add: windows_ok_def flags_ok_def upd_win_def)
  ultimately show ?thesis using that by (simp add: upd_win_def)
qed

lemma map_siblings_ok:
  assumes "windows_ok root t s" "Tree p ts \<in> set (subs t)" "map wroot ts = xs @ ys"
  shows "\<exists>s'. map_siblings env p (first_of ys) s = Some s' \<and> windows_ok root t s' \<and> flags_only s s' \<and>
    (\<forall>x. mapped (wheap s' x) = (mapped (wheap s x) \<or> x \<in> set ys \<and> \<not> redirected env p x s))"
  using assms
proof (induction ys arbitrary: s xs)
  case Nil
  then show ?case by (subst map_siblings.simps) simp
next
  case (Cons w ys)
  note k = windows_okD [OF Cons.prems(1)]
  note wk = window_tree_kids [OF k(1) Cons.prems(2)]
  have "w \<in> set (map wroot ts)" using Cons.prems(3) by simp
  then have w: "parent (wheap s w) = Some p" "w \<in> set (wins t)"
    using wk(4) [of w] wins_subs [OF Cons.prems(2)] kid_root_below [of _ ts] by auto
  obtain s1 where s1: "(if mapped (wheap s w) then Some s
       else if redirected env p w s then Some (trace_event (MapRequest w p) s) else map_child env p w s) = Some s1"
    "windows_ok root t s1" "flags_only s s1"
    "\<And>x. mapped (wheap s1 x) = (mapped (wheap s x) \<or> x = w \<and> \<not> redirected env p w s)"
    by (rule map_step_ok [OF Cons.prems(1) w(2,1), of env]) blast
  have "nextSib (wheap s1 w) = nextSib (wheap s w)" using flags_only_links [OF s1(3)] by (simp add: same_links_def same_up_def)
  also have "\<dots> = first_of ys" using children_neighbours(1) [of "wheap s" p xs w ys] wk(1) Cons.prems(3) by simp
  finally have e: "map_siblings env p (first_of (w # ys)) s = map_siblings env p (first_of ys) s1"
    using s1(1) by (subst map_siblings.simps) simp
  obtain s' where s': "map_siblings env p (first_of ys) s1 = Some s'" "windows_ok root t s'" "flags_only s1 s'"
    "\<forall>x. mapped (wheap s' x) = (mapped (wheap s1 x) \<or> x \<in> set ys \<and> \<not> redirected env p x s1)"
    using Cons.IH [OF s1(2) Cons.prems(2), of "xs @ [w]"] Cons.prems(3) by auto
  have "mapped (wheap s' x) = (mapped (wheap s x) \<or> x \<in> set (w # ys) \<and> \<not> redirected env p x s)" for x
    using s'(4) s1(4) redirected_flags [OF s1(3), of env p x] by auto
  then show ?case using e s' flags_only_trans [OF s1(3) s'(3)] by auto
qed

lemma MapSubwindows_ok:
  assumes "windows_ok root t s" "Tree p ts \<in> set (subs t)"
  obtains s' where "MapSubwindows env p s = Some s'" "windows_ok root t s'" "flags_only s s'"
    "\<And>x. mapped (wheap s' x) = (mapped (wheap s x) \<or> x \<in> set (map wroot ts) \<and> \<not> redirected env p x s)"
proof -
  have "firstChild (wheap s p) = first_of (map wroot ts)"
    using window_tree_kids(1) [OF windows_okD(1) [OF assms(1)] assms(2)] by (simp add: children_ok_def)
  then show ?thesis using map_siblings_ok [OF assms, of "[]" "map wroot ts" env] that by (auto simp: MapSubwindows_def)
qed

lemma UnmapWindow_ok:
  assumes ok: "windows_ok root t s" and w: "w \<in> set (wins t)"
  obtains s' where "UnmapWindow env w c s = Some s'" "windows_ok root t s'" "flags_only s s'"
    "\<And>x. mapped (wheap s' x) = (mapped (wheap s x) \<and> (x = w \<longrightarrow> w = root))"
    "\<And>u x. w \<noteq> root \<Longrightarrow> u \<in> set (subs t) \<Longrightarrow> wroot u = w \<Longrightarrow> x \<in> set (wins u) \<Longrightarrow> \<not> realized (wheap s' x)"
    "freed s' = freed s"
proof (cases "mapped (wheap s w)")
  case False
  note k = windows_okD [OF ok]
  have "\<not> realized (wheap s x)" if "u \<in> set (subs t)" "wroot u = w" "x \<in> set (wins u)" for u x
  proof -
    have "\<not> realized (wheap s (wroot u))" using k(6) w False that(2) by (simp add: flags_ok_def)
    then show ?thesis using flags_unrealized [OF k(6) rep_subs [OF k(2) that(1)] wins_subs [OF that(1)] _ that(3)] by blast
  qed
  then show ?thesis using ok False that [of s] by (auto simp: UnmapWindow_def)
next
  case True
  note k = windows_okD [OF ok]
  show ?thesis
  proof (cases "w = root")
    case w': True
    then show ?thesis using ok k(5) True that [of s] by (auto simp: UnmapWindow_def)
  next
    case False
    obtain p where p: "parent (wheap s w) = Some p" by (rule not_root_parent [OF k(1) w False])
    obtain s' where s': "unmap_child env p w c s = Some s'" "windows_ok root t s'" "flags_only s s'"
      "\<And>x. mapped (wheap s' x) = (mapped (wheap s x) \<and> x \<noteq> w)"
      "\<And>u x. u \<in> set (subs t) \<Longrightarrow> wroot u = w \<Longrightarrow> x \<in> set (wins u) \<Longrightarrow> \<not> realized (wheap s' x)"
      "freed s' = freed s"
      by (rule unmap_child_ok [OF ok w p, of env c]) blast
    have "UnmapWindow env w c s = Some s'" using s'(1) p True by (simp add: UnmapWindow_def)
    then show ?thesis by (rule that [OF _ s'(2,3)]) (use s'(4,5,6) False in auto)
  qed
qed

lemma unmap_siblings_ok:
  assumes "windows_ok root t s" "Tree p ts \<in> set (subs t)" "map wroot ts = xs @ ys @ zs" "last_of xs = hd'"
  shows "\<exists>s'. unmap_siblings env p hd' (if ys = [] then hd' else last_of ys) s = Some s' \<and> windows_ok root t s' \<and> flags_only s s' \<and>
    (\<forall>x. mapped (wheap s' x) = (mapped (wheap s x) \<and> x \<notin> set ys))"
  using assms
proof (induction ys arbitrary: s zs rule: rev_induct)
  case Nil
  then show ?case by (subst unmap_siblings.simps) simp
next
  case (snoc w ys)
  note k = windows_okD [OF snoc.prems(1)]
  note wk = window_tree_kids [OF k(1) snoc.prems(2)]
  have "w \<in> set (map wroot ts)" using snoc.prems(3) by simp
  then have w: "parent (wheap s w) = Some p" "w \<in> set (wins t)"
    using wk(4) [of w] wins_subs [OF snoc.prems(2)] kid_root_below [of _ ts] by auto
  have "\<exists>s1. (if mapped (wheap s w) then unmap_child env p w False s else Some s) = Some s1 \<and> windows_ok root t s1 \<and>
    flags_only s s1 \<and> (\<forall>x. mapped (wheap s1 x) = (mapped (wheap s x) \<and> x \<noteq> w))"
  proof (cases "mapped (wheap s w)")
    case True
    obtain s' where "unmap_child env p w False s = Some s'" "windows_ok root t s'" "flags_only s s'"
      "\<And>x. mapped (wheap s' x) = (mapped (wheap s x) \<and> x \<noteq> w)"
      by (rule unmap_child_ok [OF snoc.prems(1) w(2,1), of env False]) blast
    then show ?thesis using True by simp
  next
    case False
    then show ?thesis using snoc.prems(1) by auto
  qed
  then obtain s1 where s1: "(if mapped (wheap s w) then unmap_child env p w False s else Some s) = Some s1"
    "windows_ok root t s1" "flags_only s s1" "\<forall>x. mapped (wheap s1 x) = (mapped (wheap s x) \<and> x \<noteq> w)" by blast
  have "Some w \<noteq> hd'"
  proof
    assume "Some w = hd'"
    then have "w \<in> set xs" using snoc.prems(4) last_of_Some [of xs w] by simp
    then show False using wk(2) snoc.prems(3) by auto
  qed
  moreover have "prevSib (wheap s1 w) = (if ys = [] then hd' else last_of ys)"
  proof -
    have "prevSib (wheap s1 w) = prevSib (wheap s w)" using flags_only_links [OF s1(3)] by (simp add: same_links_def same_up_def)
    also have "\<dots> = last_of (xs @ ys)" using children_neighbours(2) [of "wheap s" p "xs @ ys" w zs] wk(1) snoc.prems(3) by simp
    finally show ?thesis using snoc.prems(4) by simp
  qed
  ultimately have e: "unmap_siblings env p hd' (last_of (ys @ [w])) s = unmap_siblings env p hd' (if ys = [] then hd' else last_of ys) s1"
    using s1(1) by (subst unmap_siblings.simps) (auto split: if_splits)
  obtain s' where s': "unmap_siblings env p hd' (if ys = [] then hd' else last_of ys) s1 = Some s'" "windows_ok root t s'" "flags_only s1 s'"
    "\<forall>x. mapped (wheap s' x) = (mapped (wheap s1 x) \<and> x \<notin> set ys)"
    using snoc.IH [OF s1(2) snoc.prems(2), of "w # zs"] snoc.prems(3,4) by auto
  have "mapped (wheap s' x) = (mapped (wheap s x) \<and> x \<notin> set (ys @ [w]))" for x
    using s'(4) s1(4) by auto
  then show ?case using e s' flags_only_trans [OF s1(3) s'(3)] by auto
qed

text \<open>The head of the real children is one of the children, or none.\<close>

definition head_ok :: "win_env \<Rightarrow> wheap \<Rightarrow> wtree \<Rightarrow> bool" where
  "head_ok env h t \<longleftrightarrow> (\<forall>u \<in> set (subs t). RealChildHead env h (wroot u) = None \<or>
     RealChildHead env h (wroot u) \<in> Some ` set (map wroot (wkids u)))"

text \<open>With the hook or without, the head is one of the first two children.\<close>

lemma RealChildHead_cases:
  assumes c: "children_ok h p ws"
  obtains (none) "RealChildHead env h p = None"
  | (first) q ys where "RealChildHead env h p = Some q" "ws = q # ys"
  | (second) a q ys where "RealChildHead env h p = Some q" "ws = a # q # ys"
proof -
  have f: "firstChild (h p) = first_of ws" using c by (simp add: children_ok_def)
  have n: "nextSib (h a) = first_of ys" if "ws = a # ys" for a ys
    using children_neighbours(1) [of h p "[]" a ys] c that by simp
  have "RealChildHead env h p = None \<or> (\<exists>q ys. RealChildHead env h p = Some q \<and> ws = q # ys) \<or>
      (\<exists>a q ys. RealChildHead env h p = Some q \<and> ws = a # q # ys)"
  proof (cases ws)
    case Nil
    then show ?thesis using f by (auto simp: RealChildHead_def CompositeRealChildHead_def Let_def split: option.split)
  next
    case (Cons a ys)
    then show ?thesis using f n [OF Cons]
      by (cases ys) (auto simp: RealChildHead_def CompositeRealChildHead_def Let_def split: option.splits if_splits)
  qed
  then show ?thesis using that by blast
qed

lemma head_ok_rep:
  assumes "rep h t"
  shows "head_ok env h t"
  unfolding head_ok_def
proof
  fix u assume "u \<in> set (subs t)"
  then have c: "children_ok h (wroot u) (map wroot (wkids u))" using rep_kids [OF rep_subs [OF assms]] by blast
  show "RealChildHead env h (wroot u) = None \<or> RealChildHead env h (wroot u) \<in> Some ` set (map wroot (wkids u))"
    by (rule RealChildHead_cases [OF c, of env]) auto
qed

text \<open>The children below the head, which the request unmaps.\<close>

definition after_head :: "wptr option \<Rightarrow> wptr list \<Rightarrow> wptr list" where
  "after_head q ws = (case q of None \<Rightarrow> ws | Some b \<Rightarrow> drop 1 (dropWhile (\<lambda>x. x \<noteq> b) ws))"

lemma after_head_split:
  assumes "distinct ws" "q = None \<or> q \<in> Some ` set ws"
  obtains xs where "ws = xs @ after_head q ws" "last_of xs = q"
proof (cases q)
  case None
  then show ?thesis using that [of "[]"] by (simp add: after_head_def)
next
  case (Some b)
  then obtain as bs where ws: "ws = as @ b # bs" using assms(2) split_list by fastforce
  then have "b \<notin> set as" using assms(1) by simp
  then have "dropWhile (\<lambda>x. x \<noteq> b) (as @ b # bs) = b # bs" by (induction as) auto
  then show ?thesis using that [of "as @ [b]"] ws Some by (simp add: after_head_def)
qed

lemma UnmapSubwindows_ok:
  assumes ok: "windows_ok root t s" and s: "Tree p ts \<in> set (subs t)" and h: "head_ok env (wheap s) t"
  obtains s' where "UnmapSubwindows env p s = Some s'" "windows_ok root t s'" "flags_only s s'"
    "\<And>x. mapped (wheap s' x) =
       (mapped (wheap s x) \<and> x \<notin> set (after_head (RealChildHead env (wheap s) p) (map wroot ts)))"
proof -
  note wk = window_tree_kids [OF windows_okD(1) [OF ok] s]
  let ?q = "RealChildHead env (wheap s) p"
  have q: "?q = None \<or> ?q \<in> Some ` set (map wroot ts)" using bspec [OF h [unfolded head_ok_def] s] by simp
  obtain xs where xs: "map wroot ts = xs @ after_head ?q (map wroot ts)" "last_of xs = ?q"
    by (rule after_head_split [OF wk(2) q])
  let ?ys = "after_head ?q (map wroot ts)"
  have c: "firstChild (wheap s p) = first_of (map wroot ts)" "lastChild (wheap s p) = last_of (map wroot ts)"
    using wk(1) by (simp_all add: children_ok_def)
  have l: "last_of (map wroot ts) = (if ?ys = [] then ?q else last_of ?ys)" using xs by (metis last_of_simps(3))
  have ne: "firstChild (wheap s p) = None \<Longrightarrow> ts = []" using c(1) by (cases ts) simp_all
  obtain s' where s': "unmap_siblings env p ?q (if ?ys = [] then ?q else last_of ?ys) s = Some s'" "windows_ok root t s'" "flags_only s s'"
    "\<forall>x. mapped (wheap s' x) = (mapped (wheap s x) \<and> x \<notin> set ?ys)"
    using unmap_siblings_ok [OF ok s, of xs ?ys "[]" ?q env] xs by auto
  show ?thesis
  proof (cases "firstChild (wheap s p) = None")
    case True
    have "UnmapSubwindows env p s = Some s" using True by (simp add: UnmapSubwindows_def)
    moreover have "?ys = []" using xs(1) ne [OF True] by simp
    ultimately show ?thesis using that [of s] ok by simp
  next
    case False
    then have "UnmapSubwindows env p s = Some s'" by (simp only: UnmapSubwindows_def if_False c(2) l s'(1))
    then show ?thesis by (rule that [OF _ s'(2,3)]) (use s'(4) in blast)
  qed
qed

section \<open>Destroying the windows below a window\<close>

definition clear_kids :: "wptr \<Rightarrow> wstate \<Rightarrow> wstate" where
  "clear_kids p s = upd_win p (\<lambda>r. r\<lparr>firstChild := None, lastChild := None\<rparr>) s"

text \<open>The reference: the children of a window go before it, in stacking order.\<close>

fun crush_sub :: "win_env \<Rightarrow> wptr \<Rightarrow> wtree \<Rightarrow> wstate \<Rightarrow> wstate" where
  "crush_sub env p (Tree c ts) s =
     crush_child env p c (if ts = [] then s else clear_kids c (fold (crush_sub env c) ts s))"

definition crush_kids :: "win_env \<Rightarrow> wptr \<Rightarrow> wtree list \<Rightarrow> wstate \<Rightarrow> wstate" where
  "crush_kids env p ts s = (if ts = [] then s else clear_kids p (fold (crush_sub env p) ts s))"

fun post :: "wtree \<Rightarrow> wptr list" where
  "post (Tree w ts) = concat (map post ts) @ [w]"

lemma post_wins: "set (post u) = set (wins u)"
  by (induction u rule: wins.induct) auto

lemma crush_child_heap:
  "x \<noteq> c \<Longrightarrow> wheap (crush_child env p c s) x = wheap s x" "same_up (wheap s) (wheap (crush_child env p c s)) x"
  "wlive (crush_child env p c s) = wlive s - {c}" "freed (crush_child env p c s) = freed s @ [c]"
  by (simp_all add: crush_child_def free_window_def dixScreenRaiseUnrealizeWindow_def trace_event_def trace_if_def upd_win_def
      Let_def same_up_def freed_def)

lemma clear_kids_heap:
  "x \<noteq> p \<Longrightarrow> wheap (clear_kids p s) x = wheap s x" "same_up (wheap s) (wheap (clear_kids p s)) x"
  "wlive (clear_kids p s) = wlive s" "freed (clear_kids p s) = freed s"
  "wheap (clear_kids p s) p = (wheap s p)\<lparr>firstChild := None, lastChild := None\<rparr>"
  by (simp_all add: clear_kids_def upd_win_def same_up_def freed_def)

lemma same_up_clear [simp]: "same_up h (wheap (clear_kids p s)) x = same_up h (wheap s) x"
  by (simp add: same_up_def clear_kids_def upd_win_def)

lemma same_up_refl [simp]: "same_up h h x"
  by (simp add: same_up_def)

lemma same_up_trans: "same_up h h' x \<Longrightarrow> same_up h' h'' x \<Longrightarrow> same_up h h'' x"
  by (simp add: same_up_def)

lemma crush_sub_heap:
  "(\<forall>x. x \<notin> set (wins u) \<longrightarrow> wheap (crush_sub env p u s) x = wheap s x) \<and>
   (\<forall>x. same_up (wheap s) (wheap (crush_sub env p u s)) x) \<and>
   wlive (crush_sub env p u s) = wlive s - set (wins u) \<and> freed (crush_sub env p u s) = freed s @ post u"
proof (induction u arbitrary: p s rule: wins.induct)
  case (1 c ts)
  have many: "set us \<subseteq> set ts \<Longrightarrow>
     (\<forall>x. x \<notin> set (concat (map wins us)) \<longrightarrow> wheap (fold (crush_sub env c) us s) x = wheap s x) \<and>
     (\<forall>x. same_up (wheap s) (wheap (fold (crush_sub env c) us s)) x) \<and>
     wlive (fold (crush_sub env c) us s) = wlive s - set (concat (map wins us)) \<and>
     freed (fold (crush_sub env c) us s) = freed s @ concat (map post us)" for us s
  proof (induction us arbitrary: s)
    case Nil
    then show ?case by (simp add: same_up_def)
  next
    case (Cons u us)
    let ?s = "crush_sub env c u s"
    note a = "1.IH" [of u c s]
    note b = Cons.IH [of ?s]
    have "u \<in> set ts" "set us \<subseteq> set ts" using Cons.prems by simp_all
    note ab = a [OF this(1)] b [OF this(2)]
    have "same_up (wheap s) (wheap (fold (crush_sub env c) us ?s)) x" for x
      using ab same_up_trans by blast
    then show ?case using ab by (auto simp: Diff_eq)
  qed
  let ?s = "if ts = [] then s else clear_kids c (fold (crush_sub env c) ts s)"
  note m = many [of ts s, OF subset_refl]
  have "wheap ?s x = wheap s x" if "x \<notin> set (wins (Tree c ts))" for x
    using m that by (auto simp: clear_kids_heap(1))
  moreover have "same_up (wheap s) (wheap ?s) x" for x
    using m by simp
  moreover have "wlive ?s = wlive s - set (concat (map wins ts))" "freed ?s = freed s @ concat (map post ts)"
    using m by (simp_all add: clear_kids_heap)
  ultimately have s: "\<And>x. x \<notin> set (wins (Tree c ts)) \<Longrightarrow> wheap ?s x = wheap s x" "\<And>x. same_up (wheap s) (wheap ?s) x"
    "wlive ?s = wlive s - set (concat (map wins ts))" "freed ?s = freed s @ concat (map post ts)"
    by blast+
  have e: "crush_sub env p (Tree c ts) s = crush_child env p c ?s" by simp
  note ch = crush_child_heap [where c = c and p = p and s = ?s and env = env]
  show ?case unfolding e
  proof (intro conjI allI impI)
    fix x
    assume x: "x \<notin> set (wins (Tree c ts))"
    then have "x \<noteq> c" by auto
    from ch(1) [OF this] s(1) [OF x] show "wheap (crush_child env p c ?s) x = wheap s x" by (rule trans)
  next
    fix x
    show "same_up (wheap s) (wheap (crush_child env p c ?s)) x" by (rule same_up_trans [OF s(2) ch(2)])
  next
    show "wlive (crush_child env p c ?s) = wlive s - set (wins (Tree c ts))" by (auto simp only: ch(3) s(3) wins.simps list.set)
  next
    show "freed (crush_child env p c ?s) = freed s @ post (Tree c ts)" by (simp only: ch(4) s(4) post.simps append_assoc)
  qed
qed

lemma crush_fold_heap:
  "x \<notin> set (concat (map wins us)) \<Longrightarrow> wheap (fold (crush_sub env c) us s) x = wheap s x"
  "same_up (wheap s) (wheap (fold (crush_sub env c) us s)) x"
  "wlive (fold (crush_sub env c) us s) = wlive s - set (concat (map wins us))"
  "freed (fold (crush_sub env c) us s) = freed s @ concat (map post us)"
proof -
  have "(\<forall>x. x \<notin> set (concat (map wins us)) \<longrightarrow> wheap (fold (crush_sub env c) us s) x = wheap s x) \<and>
     (\<forall>x. same_up (wheap s) (wheap (fold (crush_sub env c) us s)) x) \<and>
     wlive (fold (crush_sub env c) us s) = wlive s - set (concat (map wins us)) \<and>
     freed (fold (crush_sub env c) us s) = freed s @ concat (map post us)"
  proof (induction us arbitrary: s)
    case Nil
    then show ?case by (simp add: same_up_def)
  next
    case (Cons u us)
    note a = crush_sub_heap [of u env c s] and b = Cons.IH [of "crush_sub env c u s"]
    have "same_up (wheap s) (wheap (fold (crush_sub env c) us (crush_sub env c u s))) x" for x
      using a b same_up_trans by blast
    then show ?case using a b by (auto simp: Diff_eq)
  qed
  then show "x \<notin> set (concat (map wins us)) \<Longrightarrow> wheap (fold (crush_sub env c) us s) x = wheap s x"
    "same_up (wheap s) (wheap (fold (crush_sub env c) us s)) x"
    "wlive (fold (crush_sub env c) us s) = wlive s - set (concat (map wins us))"
    "freed (fold (crush_sub env c) us s) = freed s @ concat (map post us)"
    by blast+
qed

text \<open>What the loop does with a window whose children are gone.\<close>

definition crush_on :: "win_env \<Rightarrow> wptr \<Rightarrow> wptr \<Rightarrow> wstate \<Rightarrow> wstate option" where
  "crush_on env root c s =
     (case crush_up env root c s of
        None \<Rightarrow> None
      | Some (None, s1) \<Rightarrow> Some s1
      | Some (Some b, s1) \<Rightarrow> crush_loop env root b s1)"

lemma crush_loop_leaf:
  "crush_loop env root c s = (case leaf (wheap s) c of None \<Rightarrow> None | Some l \<Rightarrow> crush_on env root l s)"
  by (subst crush_loop.simps) (simp add: crush_on_def split: option.split)

lemma crush_on_next:
  assumes "parent (wheap s c) = Some p" "nextSib (wheap s c) = Some b"
  shows "crush_on env root c s = crush_loop env root b (crush_child env p c s)"
  using assms unfolding crush_on_def by (subst crush_up.simps) (simp add: Let_def)

lemma crush_on_last:
  assumes "parent (wheap s c) = Some p" "nextSib (wheap s c) = None"
  shows "crush_on env root c s =
    (let s2 = clear_kids p (crush_child env p c s) in if p = root then Some s2 else crush_on env root p s2)"
  using assms unfolding crush_on_def by (subst crush_up.simps) (simp add: Let_def clear_kids_def)

lemma crush_loop_kids:
  assumes sub: "\<And>v s. v \<in> set us \<Longrightarrow> rep (wheap s) v \<Longrightarrow> distinct (wins v) \<Longrightarrow> root \<notin> set (wins v) \<Longrightarrow>
       crush_loop env root (wroot v) s = crush_on env root (wroot v) (crush_kids env (wroot v) (wkids v) s)"
    and "us \<noteq> []" "\<And>v. v \<in> set us \<Longrightarrow> rep (wheap s) v" "distinct (concat (map wins us))" "root \<notin> set (concat (map wins us))"
    and "\<And>as v bs. us = as @ v # bs \<Longrightarrow> parent (wheap s (wroot v)) = Some p \<and> nextSib (wheap s (wroot v)) = first_of (map wroot bs)"
  shows "crush_loop env root (wroot (us ! 0)) s =
     (let s2 = clear_kids p (fold (crush_sub env p) us s) in if p = root then Some s2 else crush_on env root p s2)"
  using assms
proof (induction us arbitrary: s)
  case (Cons v vs)
  note [simp del] = crush_sub.simps
  let ?s1 = "crush_kids env (wroot v) (wkids v) s"
  have d: "distinct (wins v)" "root \<notin> set (wins v)" using Cons.prems(4,5) by auto
  have e: "crush_loop env root (wroot v) s = crush_on env root (wroot v) ?s1"
    using Cons.prems(1) [of v s] Cons.prems(3) [of v] d by simp
  have c: "crush_sub env p v s = crush_child env p (wroot v) ?s1"
    by (cases v) (simp add: crush_sub.simps crush_kids_def)
  have "same_up (wheap s) (wheap ?s1) x" for x
    by (simp add: crush_kids_def crush_fold_heap(2))
  moreover have "parent (wheap s (wroot v)) = Some p \<and> nextSib (wheap s (wroot v)) = first_of (map wroot vs)"
    by (rule Cons.prems(6) [of "[]"]) simp
  ultimately have f: "parent (wheap ?s1 (wroot v)) = Some p" "nextSib (wheap ?s1 (wroot v)) = first_of (map wroot vs)"
    by (simp_all add: same_up_def)
  show ?case
  proof (cases vs)
    case Nil
    then show ?thesis using e crush_on_last [OF f(1)] f(2) c by simp
  next
    case (Cons v' vs')
    let ?s2 = "crush_sub env p v s"
    note ch = crush_sub_heap [of v env p s]
    have "crush_loop env root (wroot v) s = crush_loop env root (wroot v') ?s2"
      using e crush_on_next [OF f(1), of "wroot v'"] f(2) c Cons by simp
    also have "\<dots> = (let s2 = clear_kids p (fold (crush_sub env p) vs ?s2) in if p = root then Some s2 else crush_on env root p s2)"
    proof -
      have "crush_loop env root (wroot (vs ! 0)) ?s2 =
        (let s2 = clear_kids p (fold (crush_sub env p) vs ?s2) in if p = root then Some s2 else crush_on env root p s2)"
      proof (rule Cons.IH)
        show "vs \<noteq> []" using Cons by simp
        show "crush_loop env root (wroot w) s' = crush_on env root (wroot w) (crush_kids env (wroot w) (wkids w) s')"
          if "w \<in> set vs" "rep (wheap s') w" "distinct (wins w)" "root \<notin> set (wins w)" for w s'
          using Cons.prems(1) [of w s'] that by simp
        show "rep (wheap ?s2) w" if w: "w \<in> set vs" for w
        proof (rule rep_frame)
          show "rep (wheap s) w" using Cons.prems(3) w by simp
          have "set (wins w) \<inter> set (wins v) = {}" using Cons.prems(4) w by auto
          then show "same_down (wheap s) (wheap ?s2) x" if "x \<in> set (wins w)" for x
            using ch that by (auto simp: same_down_def)
          show "same_up (wheap s) (wheap ?s2) x" for x using ch by blast
        qed
        show "distinct (concat (map wins vs))" "root \<notin> set (concat (map wins vs))" using Cons.prems(4,5) by simp_all
        show "parent (wheap ?s2 (wroot w)) = Some p \<and> nextSib (wheap ?s2 (wroot w)) = first_of (map wroot bs)"
          if "vs = as @ w # bs" for as w bs
          using Cons.prems(6) [of "v # as" w bs] that ch by (simp add: same_up_def)
      qed
      then show ?thesis using Cons by simp
    qed
    finally show ?thesis by simp
  qed
qed simp

lemma sibling_links:
  assumes "children_ok h p (map wroot us)" "us = as @ v # bs"
  shows "parent (h (wroot v)) = Some p \<and> nextSib (h (wroot v)) = first_of (map wroot bs)"
  using children_neighbours [of h p "map wroot as" "wroot v" "map wroot bs"] assms by simp

lemma crush_loop_sub:
  "rep (wheap s) u \<Longrightarrow> distinct (wins u) \<Longrightarrow> root \<notin> set (wins u) \<Longrightarrow>
     crush_loop env root (wroot u) s = crush_on env root (wroot u) (crush_kids env (wroot u) (wkids u) s)"
proof (induction u arbitrary: s rule: wins.induct)
  case (1 c ts)
  have f: "firstChild (wheap s c) = first_of (map wroot ts)" using "1.prems"(1) by (simp add: children_ok_def)
  show ?case
  proof (cases ts)
    case Nil
    then have "leaf (wheap s) c = Some c" using f by (subst leaf.simps) simp
    then show ?thesis by (simp add: crush_loop_leaf [of env root c] crush_kids_def Nil)
  next
    case (Cons v vs)
    have "leaf (wheap s) c = leaf (wheap s) (wroot v)" using f Cons by (subst leaf.simps) simp
    then have "crush_loop env root c s = crush_loop env root (wroot (ts ! 0)) s"
      using crush_loop_leaf [of env root] Cons by simp
    also have "\<dots> = (let s2 = clear_kids c (fold (crush_sub env c) ts s) in if c = root then Some s2 else crush_on env root c s2)"
    proof (rule crush_loop_kids)
      show "crush_loop env root (wroot w) s' = crush_on env root (wroot w) (crush_kids env (wroot w) (wkids w) s')"
        if "w \<in> set ts" "rep (wheap s') w" "distinct (wins w)" "root \<notin> set (wins w)" for w s'
        using "1.IH" that by blast
      show "parent (wheap s (wroot w)) = Some c \<and> nextSib (wheap s (wroot w)) = first_of (map wroot bs)"
        if "ts = as @ w # bs" for as w bs
        by (rule sibling_links [OF _ that]) (use "1.prems"(1) in simp)
    qed (use "1.prems" Cons in auto)
    finally show ?thesis using "1.prems"(3) Cons by (simp add: crush_kids_def)
  qed
qed

lemma CrushTree_eq:
  assumes "rep (wheap s) (Tree w ts)" "distinct (wins (Tree w ts))"
  shows "CrushTree env w s = Some (crush_kids env w ts s)"
proof (cases ts)
  case Nil
  then show ?thesis using assms(1) by (simp add: CrushTree_def children_ok_def crush_kids_def)
next
  case (Cons v vs)
  have "crush_loop env w (wroot (ts ! 0)) s =
     (let s2 = clear_kids w (fold (crush_sub env w) ts s) in if w = w then Some s2 else crush_on env w w s2)"
  proof (rule crush_loop_kids)
    show "crush_loop env w (wroot u) s' = crush_on env w (wroot u) (crush_kids env (wroot u) (wkids u) s')"
      if "rep (wheap s') u" "distinct (wins u)" "w \<notin> set (wins u)" for u s'
      by (rule crush_loop_sub [OF that])
    show "parent (wheap s (wroot u)) = Some w \<and> nextSib (wheap s (wroot u)) = first_of (map wroot bs)"
      if "ts = as @ u # bs" for as u bs
      by (rule sibling_links [OF _ that]) (use assms(1) in simp)
  qed (use assms Cons in auto)
  then show ?thesis using assms(1) Cons by (simp add: CrushTree_def children_ok_def crush_kids_def)
qed

lemma crush_kids_heap:
  "x \<notin> set (wins (Tree w ts)) \<Longrightarrow> wheap (crush_kids env w ts s) x = wheap s x"
  "same_up (wheap s) (wheap (crush_kids env w ts s)) x"
  "wlive (crush_kids env w ts s) = wlive s - set (concat (map wins ts))"
  "freed (crush_kids env w ts s) = freed s @ concat (map post ts)"
  "ts \<noteq> [] \<Longrightarrow> w \<notin> set (concat (map wins ts)) \<Longrightarrow>
     wheap (crush_kids env w ts s) w = (wheap s w)\<lparr>firstChild := None, lastChild := None\<rparr>"
proof -
  show "same_up (wheap s) (wheap (crush_kids env w ts s)) x"
    by (simp add: crush_kids_def crush_fold_heap(2))
qed (use crush_fold_heap [where c = w and us = ts and s = s and env = env] in \<open>auto simp: crush_kids_def clear_kids_heap\<close>)

end
