(* ===== verification/Window_Place_Laws.thy ===== *)
theory Window_Place_Laws
  imports Window_Life_Laws
begin

text \<open>
  Every window below a root is where its parent is, displaced by its place in the parent. Moving or
  resizing a window puts all windows below it to their places and touches nothing else.
\<close>

section \<open>Placed windows\<close>

definition placed :: "wheap \<Rightarrow> wptr \<Rightarrow> bool" where
  "placed h x \<longleftrightarrow> (\<forall>p. parent (h x) = Some p \<longrightarrow>
     win_x (h x) = short (win_x (h p) + origin_x (h x)) \<and> win_y (h x) = short (win_y (h p) + origin_y (h x)))"

definition no_place :: "win \<Rightarrow> win" where
  "no_place r = r\<lparr>origin_x := 0, origin_y := 0, win_x := 0, win_y := 0\<rparr>"

definition place_only :: "wptr set \<Rightarrow> wstate \<Rightarrow> wstate \<Rightarrow> bool" where
  "place_only A s s' \<longleftrightarrow> wlive s' = wlive s \<and> freed s' = freed s \<and>
     (\<forall>x. no_place (wheap s' x) = no_place (wheap s x)) \<and> (\<forall>x. x \<notin> A \<longrightarrow> wheap s' x = wheap s x)"

lemma no_place_sel:
  "win_id (no_place r) = win_id r" "parent (no_place r) = parent r" "firstChild (no_place r) = firstChild r"
  "lastChild (no_place r) = lastChild r" "nextSib (no_place r) = nextSib r" "prevSib (no_place r) = prevSib r"
  "mapped (no_place r) = mapped r" "realized (no_place r) = realized r" "viewable (no_place r) = viewable r"
  "inputOutput (no_place r) = inputOutput r" "overrideRedirect (no_place r) = overrideRedirect r"
  "win_width (no_place r) = win_width r" "win_height (no_place r) = win_height r" "borderWidth (no_place r) = borderWidth r"
  "winGravity (no_place r) = winGravity r"
  by (simp_all add: no_place_def)

lemma no_place_fields:
  assumes "no_place r = no_place r'"
  shows "win_id r = win_id r'" "parent r = parent r'" "firstChild r = firstChild r'"
    "lastChild r = lastChild r'" "nextSib r = nextSib r'" "prevSib r = prevSib r'"
    "mapped r = mapped r'" "realized r = realized r'" "viewable r = viewable r'"
    "inputOutput r = inputOutput r'" "overrideRedirect r = overrideRedirect r'"
    "win_width r = win_width r'" "win_height r = win_height r'" "borderWidth r = borderWidth r'"
    "winGravity r = winGravity r'"
  using no_place_sel [of r] no_place_sel [of r'] assms by simp_all

lemma place_only_heap:
  assumes "place_only A s s'"
  shows "wlive s' = wlive s" "freed s' = freed s" "no_place (wheap s' x) = no_place (wheap s x)"
    "x \<notin> A \<Longrightarrow> wheap s' x = wheap s x"
  using assms by (simp_all add: place_only_def)

lemma place_only_refl [simp]: "place_only A s s"
  by (simp add: place_only_def)

lemma place_only_trans: "place_only A s s' \<Longrightarrow> place_only B s' s'' \<Longrightarrow> A \<subseteq> C \<Longrightarrow> B \<subseteq> C \<Longrightarrow> place_only C s s''"
  unfolding place_only_def by (metis subsetD)

lemma no_place_same:
  assumes "\<And>x. no_place (h' x) = no_place (h x)"
  shows "same_links h h'"
  using no_place_fields [OF assms] by (simp add: same_links_def same_up_def same_down_def)

lemma place_only_links: "place_only A s s' \<Longrightarrow> same_links (wheap s) (wheap s')"
  by (rule no_place_same) (simp add: place_only_def)

lemma no_place_ok:
  assumes ok: "windows_ok root t s" and h: "\<And>x. no_place (wheap s' x) = no_place (wheap s x)" and l: "wlive s' = wlive s"
  shows "windows_ok root t s'"
  using same_links_tree [OF no_place_same [of "wheap s'" "wheap s", OF h]] ok l no_place_fields [OF h]
  by (simp add: windows_ok_def flags_ok_def)

lemma place_only_ok: "place_only A s s' \<Longrightarrow> windows_ok root t s \<Longrightarrow> windows_ok root t s'"
  by (erule no_place_ok) (simp_all add: place_only_def)

lemma placed_frame:
  assumes "placed h x" "parent (h' x) = parent (h x)" "win_x (h' x) = win_x (h x)" "win_y (h' x) = win_y (h x)"
    "origin_x (h' x) = origin_x (h x)" "origin_y (h' x) = origin_y (h x)"
    and "\<And>p. parent (h x) = Some p \<Longrightarrow> win_x (h' p) = win_x (h p) \<and> win_y (h' p) = win_y (h p)"
  shows "placed h' x"
  using assms by (auto simp: placed_def)

lemma freed_trace: "freed (trace_event e s) = freed s @ (case e of FreedWindow w \<Rightarrow> [w] | _ \<Rightarrow> [])"
  by (simp add: freed_def trace_event_def)

lemma place_under_only: "place_only {c} s (place_under p c s)"
  by (simp add: place_only_def place_under_def upd_win_def no_place_def freed_def)

lemma place_under_placed:
  assumes "parent (wheap s c) = Some p" "p \<noteq> c"
  shows "placed (wheap (place_under p c s)) c"
  using assms by (auto simp: placed_def place_under_def upd_win_def)

lemma place_under_origin [simp]:
  "origin_x (wheap (place_under p c s) x) = origin_x (wheap s x)" "origin_y (wheap (place_under p c s) x) = origin_y (wheap s x)"
  by (simp_all add: place_under_def upd_win_def)

lemma place_visit_keeps: "keeps_links wheap place_visit"
proof -
  have "same_links (wheap s) (wheap (snd (place_visit c s)))" for c s
    using place_only_links [OF place_under_only] by (simp add: place_visit_def split: option.split)
  then show ?thesis by (simp add: keeps_links_def)
qed

section \<open>Placing a subtree\<close>

lemma placed_outside:
  assumes o: "place_only B s s'" and pl: "\<And>x. x \<in> set (wins u) \<Longrightarrow> placed (wheap s) x"
    and r: "rep (wheap s) u" "parent (wheap s (wroot u)) = Some w" and d: "set (wins u) \<inter> B = {}" "w \<notin> B"
    and x: "x \<in> set (wins u)"
  shows "placed (wheap s') x"
proof -
  have "q \<in> set (wins u) \<or> q = w" if "parent (wheap s x) = Some q" for q
    using parent_in_tree [OF r(1), of x] x r(2) that by (cases "x = wroot u") (auto simp: wins_root_below)
  moreover have "wheap s' y = wheap s y" if "y \<in> set (wins u) \<or> y = w" for y
    using place_only_heap(4) [OF o, of y] d that by auto
  ultimately show ?thesis using x by (intro placed_frame [OF pl [OF x]]) auto
qed

lemma walk_place:
  "rep (wheap s) u \<Longrightarrow> distinct (wins u) \<Longrightarrow> parent (wheap s (wroot u)) = Some p \<Longrightarrow> p \<notin> set (wins u) \<Longrightarrow>
     \<exists>s'. walk place_visit u s = (False, s') \<and> place_only (set (wins u)) s s' \<and> (\<forall>x \<in> set (wins u). placed (wheap s') x) \<and>
       (\<forall>x. origin_x (wheap s' x) = origin_x (wheap s x) \<and> origin_y (wheap s' x) = origin_y (wheap s x))"
proof (induction u arbitrary: s p rule: wins.induct)
  case (1 w ts)
  have many: "\<exists>s'. walks place_visit us s = (False, s') \<and> place_only (set (concat (map wins us))) s s' \<and>
      (\<forall>x \<in> set (concat (map wins us)). placed (wheap s') x) \<and>
      (\<forall>x. origin_x (wheap s' x) = origin_x (wheap s x) \<and> origin_y (wheap s' x) = origin_y (wheap s x))"
    if "set us \<subseteq> set ts" "distinct (concat (map wins us))"
      "\<And>u. u \<in> set us \<Longrightarrow> rep (wheap s) u \<and> parent (wheap s (wroot u)) = Some w \<and> w \<notin> set (wins u)" for us s
    using that
  proof (induction us arbitrary: s)
    case (Cons u us)
    have u: "u \<in> set ts" "distinct (wins u)" using Cons.prems by auto
    obtain s1 where s1: "walk place_visit u s = (False, s1)" "place_only (set (wins u)) s s1"
      "\<forall>x \<in> set (wins u). placed (wheap s1) x"
      "\<forall>x. origin_x (wheap s1 x) = origin_x (wheap s x) \<and> origin_y (wheap s1 x) = origin_y (wheap s x)"
      using "1.IH" [OF u(1), of s w] Cons.prems(3) [of u] u(2) by auto
    note l1 = place_only_links [OF s1(2)]
    have r1: "rep (wheap s1) v \<and> parent (wheap s1 (wroot v)) = Some w \<and> w \<notin> set (wins v)" if "v \<in> set (u # us)" for v
      using same_links_rep [OF l1, of v] Cons.prems(3) [OF that] l1 by (simp add: same_links_def same_up_def)
    obtain s' where s': "walks place_visit us s1 = (False, s')" "place_only (set (concat (map wins us))) s1 s'"
      "\<forall>x \<in> set (concat (map wins us)). placed (wheap s') x"
      "\<forall>x. origin_x (wheap s' x) = origin_x (wheap s1 x) \<and> origin_y (wheap s' x) = origin_y (wheap s1 x)"
      using Cons.IH [of s1] Cons.prems(1,2) r1 by auto
    have "placed (wheap s') x" if "x \<in> set (wins u)" for x
    proof (rule placed_outside [OF s'(2) _ _ _ _ _ that])
      show "set (wins u) \<inter> set (concat (map wins us)) = {}" using Cons.prems(2) by auto
      show "w \<notin> set (concat (map wins us))" using Cons.prems(3) by auto
    qed (use s1(3) r1 in auto)
    moreover have "place_only (set (concat (map wins (u # us)))) s s'"
      by (rule place_only_trans [OF s1(2) s'(2)]) auto
    ultimately show ?case using s1 s' by auto
  qed simp
  let ?s = "place_under p w s"
  have v: "place_visit w s = (WT_WALKCHILDREN, ?s)" using "1.prems"(3) by (simp add: place_visit_def)
  have o: "place_only {w} s ?s" by (rule place_under_only)
  note l = place_only_links [OF o]
  have "rep (wheap ?s) (Tree w ts)" by (rule same_links_rep [OF l "1.prems"(1)])
  then have r: "rep (wheap ?s) u \<and> parent (wheap ?s (wroot u)) = Some w \<and> w \<notin> set (wins u)" if "u \<in> set ts" for u
    using that "1.prems"(2) parent_of_kid [of "wheap ?s" "Tree w ts" u] by auto
  obtain s' where s': "walks place_visit ts ?s = (False, s')" "place_only (set (concat (map wins ts))) ?s s'"
      "\<forall>x \<in> set (concat (map wins ts)). placed (wheap s') x"
      "\<forall>x. origin_x (wheap s' x) = origin_x (wheap ?s x) \<and> origin_y (wheap s' x) = origin_y (wheap ?s x)"
    using many [of ts ?s] r "1.prems"(2) by auto
  have "p \<noteq> w" using "1.prems"(4) by auto
  have pw: "placed (wheap ?s) w" by (rule place_under_placed) (use "1.prems"(3) \<open>p \<noteq> w\<close> in simp_all)
  have same: "wheap s' x = wheap ?s x" if "x = w \<or> x = p" for x
    using place_only_heap(4) [OF s'(2), of x] that "1.prems"(2,4) by auto
  have "placed (wheap s') w"
    by (rule placed_frame [OF pw]) (use same l "1.prems"(3) in \<open>auto simp: same_links_def same_up_def\<close>)
  moreover have "place_only (set (wins (Tree w ts))) s s'" by (rule place_only_trans [OF o s'(2)]) auto
  ultimately show ?case using s' v by (auto simp: walk_Tree)
qed

section \<open>Children of a resized window\<close>

text \<open>The place of a child in a parent that was resized.\<close>

definition child_origin :: "win \<Rightarrow> int \<Rightarrow> int \<Rightarrow> int \<Rightarrow> int \<Rightarrow> int \<times> int" where
  "child_origin r dx dy dw dh =
     (let g = winGravity r; (x, y) = GravityTranslate (origin_x r) (origin_y r) (origin_x r - dx) (origin_y r - dy) dw dh g
      in if (dw \<noteq> 0 \<or> dh \<noteq> 0) \<and> g \<noteq> UnmapGravity \<and> g \<noteq> NorthWestGravity \<and> (x \<noteq> origin_x r \<or> y \<noteq> origin_y r)
         then (short x, short y) else (origin_x r, origin_y r))"

lemma child_origin_0 [simp]: "child_origin r dx dy 0 0 = (origin_x r, origin_y r)"
  by (simp add: child_origin_def split: prod.split)

lemma gravitate_only: "place_only {c} s (gravitate c dx dy dw dh s)"
  by (auto simp: gravitate_def Let_def place_only_def upd_win_def no_place_def freed_def trace_event_def split: prod.split)

lemma gravitate_origin:
  "(origin_x (wheap (gravitate c dx dy dw dh s) c), origin_y (wheap (gravitate c dx dy dw dh s) c)) =
     child_origin (wheap s c) dx dy dw dh"
  by (auto simp: gravitate_def child_origin_def Let_def upd_win_def trace_event_def split: prod.split)

lemma place_under_again:
  assumes "parent (wheap s c) = Some p" "p \<noteq> c"
  shows "place_visit c (place_under p c s) = (WT_WALKCHILDREN, place_under p c s)"
  using assms by (simp add: place_visit_def place_under_def upd_win_def)

lemma place_below:
  assumes "parent (wheap s c) = Some p" "p \<noteq> c"
  shows "(case firstChild (wheap (place_under p c s) c) of None \<Rightarrow> Some (place_under p c s)
          | Some d \<Rightarrow> map_option snd (tree_loop wheap place_visit c d (place_under p c s))) =
    map_option snd (TraverseTree wheap place_visit (Some c) (place_under p c s))"
proof -
  let ?s = "place_under p c s"
  have "after wheap place_visit c c s' = Some (WT_NOMATCH, s')" for s'
    unfolding after_def by (subst climb.simps) simp
  then show ?thesis
    unfolding TraverseTree_def option.case tree_loop_step [of wheap place_visit c c ?s] place_under_again [OF assms]
    by (simp split: option.split)
qed

lemma place_siblings_ok:
  "children_ok (wheap s) w (map wroot (vs @ us)) \<Longrightarrow> distinct (concat (map wins us)) \<Longrightarrow>
    (\<And>u. u \<in> set us \<Longrightarrow> rep (wheap s) u \<and> w \<notin> set (wins u)) \<Longrightarrow>
    \<exists>s'. place_siblings w dx dy dw dh (first_of (map wroot us)) s = Some s' \<and> place_only (set (concat (map wins us))) s s' \<and>
      (\<forall>x \<in> set (concat (map wins us)). placed (wheap s') x) \<and>
      (\<forall>x. (origin_x (wheap s' x), origin_y (wheap s' x)) =
         (if x \<in> wroot ` set us then child_origin (wheap s x) dx dy dw dh else (origin_x (wheap s x), origin_y (wheap s x))))"
proof (induction us arbitrary: s vs)
  case Nil
  then show ?case by (subst place_siblings.simps) simp
next
  case (Cons u us)
  let ?b = "wroot u"
  have c: "children_ok (wheap s) w (map wroot vs @ ?b # map wroot us)" using Cons.prems(1) by simp
  have pb: "parent (wheap s ?b) = Some w" "w \<noteq> ?b" using c by (auto simp: children_ok_def)
  define s0 where "s0 = gravitate ?b dx dy dw dh s"
  have o0: "place_only {?b} s s0" unfolding s0_def by (rule gravitate_only)
  define s1 where "s1 = place_under w ?b s0"
  have o1: "place_only {?b} s s1" unfolding s1_def by (rule place_only_trans [OF o0 place_under_only]) simp_all
  note l1 = place_only_links [OF o1]
  have pb0: "parent (wheap s0 ?b) = Some w" using no_place_fields(2) [OF place_only_heap(3) [OF o0]] pb(1) by simp
  have pb1: "parent (wheap s1 ?b) = Some w" using no_place_fields(2) [OF place_only_heap(3) [OF o1]] pb(1) by simp
  have ru: "rep (wheap s1) u" "distinct (wins u)" "w \<notin> set (wins u)"
    using same_links_rep [OF l1, of u] Cons.prems(2,3) by auto
  obtain s2 where s2: "walk place_visit u s1 = (False, s2)" "place_only (set (wins u)) s1 s2" "\<forall>x \<in> set (wins u). placed (wheap s2) x"
    "\<forall>x. origin_x (wheap s2 x) = origin_x (wheap s1 x) \<and> origin_y (wheap s2 x) = origin_y (wheap s1 x)"
    using walk_place [OF ru(1,2) pb1 ru(3)] by auto
  have "TraverseTree wheap place_visit (Some ?b) s1 = Some (WT_NOMATCH, s2)"
    using TraverseTree_walk [OF place_visit_keeps ru(1,2)] s2(1) by (simp add: finish_def)
  then have sub: "(case firstChild (wheap s1 ?b) of None \<Rightarrow> Some s1
      | Some d \<Rightarrow> map_option snd (tree_loop wheap place_visit ?b d s1)) = Some s2"
    using place_below [OF pb0 pb(2)] unfolding s1_def [symmetric] by simp
  have o2: "place_only (set (wins u)) s s2" by (rule place_only_trans [OF o1 s2(2)]) simp_all
  note l2 = place_only_links [OF o2]
  have c2: "children_ok (wheap s2) w (map wroot ((vs @ [u]) @ us))"
    using children_ok_same [OF Cons.prems(1), of "wheap s2"] l2 by (simp add: same_links_def)
  have r2: "rep (wheap s2) v \<and> w \<notin> set (wins v)" if "v \<in> set (u # us)" for v
    using same_links_rep [OF l2, of v] Cons.prems(3) [OF that] by simp
  have dd: "distinct (concat (map wins us))" "set (wins u) \<inter> set (concat (map wins us)) = {}" using Cons.prems(2) by auto
  obtain s' where s': "place_siblings w dx dy dw dh (first_of (map wroot us)) s2 = Some s'"
    "place_only (set (concat (map wins us))) s2 s'" "\<forall>x \<in> set (concat (map wins us)). placed (wheap s') x"
    "\<forall>x. (origin_x (wheap s' x), origin_y (wheap s' x)) =
       (if x \<in> wroot ` set us then child_origin (wheap s2 x) dx dy dw dh else (origin_x (wheap s2 x), origin_y (wheap s2 x)))"
    using Cons.IH [OF c2 dd(1)] r2 by auto
  have "nextSib (wheap s2 ?b) = first_of (map wroot us)"
    using children_neighbours(1) [of "wheap s2" w "map wroot vs" ?b "map wroot us"] c2 by simp
  then have e: "place_siblings w dx dy dw dh (Some ?b) s = Some s'"
    by (subst place_siblings.simps) (simp only: option.case Let_def s0_def [symmetric] s1_def [symmetric] sub s'(1))
  have "placed (wheap s') x" if "x \<in> set (wins u)" for x
    by (rule placed_outside [OF s'(2) _ _ _ dd(2) _ that])
      (use s2(3) r2 pb no_place_fields(2) [OF place_only_heap(3) [OF o2]] in auto)
  moreover have "place_only (set (concat (map wins (u # us)))) s s'" by (rule place_only_trans [OF o2 s'(2)]) auto
  moreover have "(origin_x (wheap s' x), origin_y (wheap s' x)) =
      (if x \<in> wroot ` set (u # us) then child_origin (wheap s x) dx dy dw dh else (origin_x (wheap s x), origin_y (wheap s x)))" for x
  proof -
    have o: "(origin_x (wheap s2 x), origin_y (wheap s2 x)) = (origin_x (wheap s0 x), origin_y (wheap s0 x))"
      using s2(4) by (simp add: s1_def)
    show ?thesis
    proof (cases "x \<in> wroot ` set us")
      case True
      then obtain v where v: "v \<in> set us" "x = wroot v" by auto
      then have "x \<in> set (concat (map wins us))" by (auto intro: bexI [of _ v])
      then have "x \<notin> set (wins u)" using dd(2) by auto
      then show ?thesis using place_only_heap(4) [OF o2, of x] s'(4) True by simp
    next
      case False
      have "(origin_x (wheap s0 x), origin_y (wheap s0 x)) =
          (if x = ?b then child_origin (wheap s x) dx dy dw dh else (origin_x (wheap s x), origin_y (wheap s x)))"
        using gravitate_origin [of ?b dx dy dw dh s] place_only_heap(4) [OF o0, of x] by (simp add: s0_def)
      then show ?thesis using s'(4) o False by simp
    qed
  qed
  ultimately show ?case using e s'(3) by auto
qed

lemma ResizeChildrenWinSize_ok:
  assumes r: "rep (wheap s) u" and d: "distinct (wins u)" and w: "wroot u = w"
  obtains s' where "ResizeChildrenWinSize w dx dy dw dh s = Some s'" "place_only (set (below u)) s s'"
    "\<And>x. x \<in> set (below u) \<Longrightarrow> placed (wheap s') x"
    "\<And>x. (origin_x (wheap s' x), origin_y (wheap s' x)) =
      (if x \<in> set (map wroot (wkids u)) then child_origin (wheap s x) dx dy dw dh else (origin_x (wheap s x), origin_y (wheap s x)))"
proof -
  obtain ts where u: "u = Tree w ts" using w by (cases u) simp
  have c: "children_ok (wheap s) w (map wroot ts)" using r u by simp
  have "\<exists>s'. place_siblings w dx dy dw dh (first_of (map wroot ts)) s = Some s' \<and> place_only (set (concat (map wins ts))) s s' \<and>
      (\<forall>x \<in> set (concat (map wins ts)). placed (wheap s') x) \<and>
      (\<forall>x. (origin_x (wheap s' x), origin_y (wheap s' x)) =
         (if x \<in> wroot ` set ts then child_origin (wheap s x) dx dy dw dh else (origin_x (wheap s x), origin_y (wheap s x))))"
    by (rule place_siblings_ok [of s w "[]"]) (use c d r u in auto)
  moreover have "firstChild (wheap s w) = first_of (map wroot ts)" using c by (simp add: children_ok_def)
  ultimately show ?thesis using that by (auto simp: ResizeChildrenWinSize_def u)
qed

section \<open>Places kept\<close>

text \<open>All of a window but its links and flags.\<close>

definition place_of :: "win \<Rightarrow> wptr option \<times> nat \<times> int \<times> int \<times> int \<times> int \<times> int \<times> int \<times> int \<times> gravity" where
  "place_of r = (parent r, win_id r, origin_x r, origin_y r, win_x r, win_y r, win_width r, win_height r, borderWidth r, winGravity r)"

lemma place_of_links: "no_links r = no_links r' \<Longrightarrow> place_of r = place_of r'"
proof -
  assume e: "no_links r = no_links r'"
  have "place_of (no_links q) = place_of q" for q by (simp add: place_of_def no_links_def)
  then show ?thesis using e by metis
qed

lemma place_of_flags: "no_flags r = no_flags r' \<Longrightarrow> place_of r = place_of r'"
proof -
  assume e: "no_flags r = no_flags r'"
  have "place_of (no_flags q) = place_of q" for q by (simp add: place_of_def no_flags_def)
  then show ?thesis using e by metis
qed

lemma flags_only_place: "flags_only s s' \<Longrightarrow> place_of (wheap s' x) = place_of (wheap s x)"
  by (rule place_of_flags) (simp add: flags_only_def)

lemma short_shift: "short (a + 65536 * k) = short a"
proof -
  have "a + 65536 * k + 32768 = (a + 32768) + 65536 * k" by simp
  then show ?thesis by (simp only: short_def mod_mult_self2)
qed

lemma short_eq: "short a = a + 65536 * (- ((a + 32768) div 65536))"
  using minus_mult_div_eq_mod [of "a + 32768" 65536] unfolding short_def by linarith

lemma short_add [simp]: "short (a + short b) = short (a + b)" "short (short a + b) = short (a + b)"
proof -
  have "short (a + b + 65536 * c) = short (a + b)" for c by (rule short_shift)
  then show "short (a + short b) = short (a + b)" "short (short a + b) = short (a + b)"
    by (simp_all only: short_eq [of b] short_eq [of a] add.assoc [symmetric]) (metis add.assoc add.commute)
qed

lemma short_short [simp]: "short (short a) = short a"
  using short_add(1) [of 0 a] by simp

lemma placed_same:
  assumes "placed h x" "place_of (h' x) = place_of (h x)" "\<And>p. parent (h x) = Some p \<Longrightarrow> place_of (h' p) = place_of (h p)"
  shows "placed h' x"
  by (rule placed_frame [OF assms(1)]) (use assms(2,3) in \<open>simp_all add: place_of_def\<close>)

lemma parent_inside:
  assumes "window_tree h root t" "x \<in> set (wins t)" "parent (h x) = Some p"
  shows "p \<in> set (wins t)"
proof -
  obtain ts u where "Tree p ts \<in> set (subs t)" "u \<in> set ts" "wroot u = x" by (rule kid_of [OF assms])
  then show ?thesis using wins_iff_subs by blast
qed

lemma placed_kept:
  assumes t: "window_tree h' root t'" and x: "x \<in> set (wins t')" "placed h x"
    and same: "\<And>y. y \<in> set (wins t') \<Longrightarrow> place_of (h' y) = place_of (h y)"
  shows "placed h' x"
proof (rule placed_same [where h = h])
  show "placed h x" by (rule x(2))
  show "place_of (h' x) = place_of (h x)" by (rule same [OF x(1)])
next
  fix p assume "parent (h x) = Some p"
  then have "parent (h' x) = Some p" using same [OF x(1)] by (simp add: place_of_def)
  then show "place_of (h' p) = place_of (h p)" by (rule same [OF parent_inside [OF t x(1)]])
qed

text \<open>All windows of a tree where their parents have them.\<close>

definition all_placed :: "wtree \<Rightarrow> wstate \<Rightarrow> bool" where
  "all_placed t s \<longleftrightarrow> (\<forall>x \<in> set (wins t). placed (wheap s) x)"

lemma all_placed_kept:
  assumes "all_placed t s" "windows_ok root t' s'" "set (wins t') \<subseteq> set (wins t)"
    "\<And>y. y \<in> set (wins t') \<Longrightarrow> place_of (wheap s' y) = place_of (wheap s y)"
  shows "all_placed t' s'"
  unfolding all_placed_def
proof
  fix x assume x: "x \<in> set (wins t')"
  then have "placed (wheap s) x" using assms(1,3) by (auto simp: all_placed_def)
  then show "placed (wheap s') x" by (rule placed_kept [OF windows_okD(1) [OF assms(2)] x]) (rule assms(4))
qed

end
