(* ===== verification/Window_Ops_Laws.thy ===== *)
theory Window_Ops_Laws
  imports Window_Place_Laws
begin

text \<open>
  Destroying, creating and reparenting windows keep the tree of windows, its flags and the places of
  the windows they do not touch, and return.
\<close>

section \<open>Deleting\<close>

text \<open>The tree without the window \<open>w\<close> and those below it.\<close>

fun prune :: "wptr \<Rightarrow> wtree \<Rightarrow> wtree" where
  "prune w (Tree q us) = Tree q (filter (\<lambda>u. wroot u \<noteq> w) (map (prune w) us))"

lemma wroot_prune [simp]: "wroot (prune w t) = wroot t"
  by (cases t) simp

lemma prune_outside: "w \<notin> set (wins t) \<Longrightarrow> prune w t = t"
proof (induction t rule: wins.induct)
  case (1 q us)
  have m: "map (prune w) us = us" using 1 by (intro map_idI) auto
  have "wroot u \<noteq> w" if "u \<in> set us" for u
  proof
    assume "wroot u = w"
    then have "w \<in> set (wins u)" using wroot_in_wins [of u] by simp
    then show False using "1.prems" that by auto
  qed
  then have "filter (\<lambda>u. wroot u \<noteq> w) us = us" by (simp add: filter_id_conv)
  then show ?case using m by simp
qed

lemma prune_edit: "prune w (edit w f t) = (if wroot t = w then prune w (Tree w (f (wkids t))) else prune w t)"
proof (induction t rule: wins.induct)
  case (1 q us)
  have "filter (\<lambda>u. wroot u \<noteq> w) (map (prune w \<circ> edit w f) us) = filter (\<lambda>u. wroot u \<noteq> w) (map (prune w) us)"
    using 1 by (induction us) auto
  then show ?case by simp
qed

lemma prune_take:
  assumes "distinct (wins t)" "Tree p ts \<in> set (subs t)" "w \<in> set (map wroot ts)"
  shows "edit p (take_kid w) t = prune w t"
  using assms
proof (induction t rule: wins.induct)
  case (1 q us)
  have no: "prune w u = u" "edit p (take_kid w) u = u" if "u \<in> set us" "w \<notin> set (wins u)" "p \<notin> set (wins u)" for u
    using that prune_outside edit_outside by blast+
  show ?case
  proof (cases "q = p")
    case True
    have us: "us = ts" using subs_unique [OF "1.prems"(1), of p us ts] "1.prems"(2) True by simp
    have "prune w u = u \<or> wroot u = w" if u: "u \<in> set us" for u
    proof (cases "w \<in> set (wins u)")
      case w: True
      obtain v where v: "v \<in> set us" "wroot v = w" using "1.prems"(3) us by auto
      have "u = v" by (rule kids_disjoint [OF "1.prems"(1) u v(1) w]) (use v(2) wroot_in_wins [of v] in simp)
      then show ?thesis using v(2) by simp
    qed (use prune_outside in blast)
    then have "filter (\<lambda>u. wroot u \<noteq> w) (map (prune w) us) = filter (\<lambda>u. wroot u \<noteq> w) us"
      by (induction us) auto
    then show ?thesis using True by (simp add: take_kid_def)
  next
    case False
    then obtain v where v: "v \<in> set us" "Tree p ts \<in> set (subs v)" using "1.prems"(2) by auto
    have wv: "w \<in> set (below (Tree p ts))" using "1.prems"(3) kid_root_below [of _ ts] by auto
    have inv: "w \<in> set (wins v)" "p \<in> set (wins v)" using wins_subs [OF v(2)] wv by (auto simp: wins_root_below)
    have dv: "distinct (wins v)" using distinct_kid [OF "1.prems"(1)] v(1) by simp
    have "wroot v \<noteq> w"
    proof
      assume e: "wroot v = w"
      show False
      proof (cases "v = Tree p ts")
        case True
        then show False using dv wv e by simp
      next
        case False
        then obtain c where "c \<in> set (wkids v)" "Tree p ts \<in> set (subs c)" using v(2) by (cases v) auto
        moreover have "w \<in> set (wins (Tree p ts))" unfolding wins_root_below [of "Tree p ts"] using wv by simp
        ultimately have "w \<in> set (below v)" unfolding below_root using wins_subs [of "Tree p ts" c] by blast
        then show False using dv e by (simp add: wins_root_below)
      qed
    qed
    have each: "edit p (take_kid w) u = prune w u \<and> wroot u \<noteq> w" if u: "u \<in> set us" for u
    proof (cases "u = v")
      case True
      then show ?thesis using "1.IH" [OF v(1) dv v(2) "1.prems"(3)] \<open>wroot v \<noteq> w\<close> by simp
    next
      case ne: False
      then have "w \<notin> set (wins u)" "p \<notin> set (wins u)" using kids_disjoint [OF "1.prems"(1) u v(1)] inv by blast+
      then show ?thesis using no [OF u] wroot_in_wins [of u] by (metis)
    qed
    have "map (edit p (take_kid w)) us = map (prune w) us" by (rule map_cong [OF refl]) (use each in blast)
    moreover have "\<forall>u \<in> set us. wroot u \<noteq> w" using each by blast
    then have "filter (\<lambda>u. wroot u \<noteq> w) (map (prune w) us) = map (prune w) us" by (simp add: filter_id_conv)
    ultimately show ?thesis using False by (simp only: edit.simps prune.simps if_False)
  qed
qed

text \<open>The children gone, the heap stands for the tree with a leaf at \<open>w\<close>.\<close>

lemma crush_tree_ok:
  fixes env :: win_env
  assumes t: "window_tree (wheap s) root t" and w: "Tree w ts \<in> set (subs t)"
  defines "s' \<equiv> crush_kids env w ts s" and "t' \<equiv> edit w (\<lambda>_. []) t"
  shows "window_tree (wheap s') root t'" "mset (wins t') + mset (concat (map wins ts)) = mset (wins t)"
    "\<And>x. x \<notin> set (wins (Tree w ts)) \<Longrightarrow> wheap s' x = wheap s x"
    "wlive s' = wlive s - set (concat (map wins ts))" "freed s' = freed s @ concat (map post ts)"
    "parent (wheap s' w) = parent (wheap s w)" "firstChild (wheap s' w) = None"
proof -
  have r: "rep (wheap s) t" "distinct (wins t)" using t by (simp_all add: window_tree_def)
  note k = window_tree_kids [OF t w]
  have wb: "w \<notin> set (concat (map wins ts))" using k(3) by simp
  show ms: "mset (wins t') + mset (concat (map wins ts)) = mset (wins t)"
    using edit_mset [OF r(2) w, of "\<lambda>_. []"] by (simp add: t'_def)
  note ck = crush_kids_heap [where w = w and ts = ts and s = s and env = env, folded s'_def]
  show "\<And>x. x \<notin> set (wins (Tree w ts)) \<Longrightarrow> wheap s' x = wheap s x" by (rule ck(1))
  show "wlive s' = wlive s - set (concat (map wins ts))" "freed s' = freed s @ concat (map post ts)" by (rule ck(3), rule ck(4))
  show "parent (wheap s' w) = parent (wheap s w)" using ck(2) [of w] by (simp add: same_up_def)
  have fl: "firstChild (wheap s' w) = None \<and> lastChild (wheap s' w) = None"
  proof (cases "ts = []")
    case True
    then show ?thesis using k(1) by (simp add: s'_def crush_kids_def children_ok_def)
  next
    case False
    then show ?thesis using ck(5) wb by simp
  qed
  then show "firstChild (wheap s' w) = None" by blast
  define hc where "hc = (\<lambda>x. if x \<in> set (concat (map wins ts)) then wheap s x else wheap s' x)"
  have "window_tree hc root t'"
    unfolding t'_def
  proof (rule window_tree_edit [where f = "\<lambda>_. []", OF t w])
    show "same_down (wheap s) hc x" if "x \<noteq> w" for x
      using ck(1) [of x] that by (simp add: hc_def same_down_def)
    show "same_up (wheap s) hc x" for x
      using ck(2) [of x] by (simp add: hc_def same_up_def)
    have "distinct (wins t)" "mset (wins (edit w (\<lambda>_. []) t)) + mset (concat (map wins ts)) = mset (wins t)"
      using r(2) ms by (simp_all add: t'_def)
    then show "distinct (wins (edit w (\<lambda>_. []) t))" by (metis distinct_append mset_append mset_eq_imp_distinct_iff)
    show "children_ok hc w (map wroot [])" using fl wb by (simp add: children_ok_def hc_def)
  qed simp
  moreover have "hc x = wheap s' x" if "x \<in> set (wins t')" for x
  proof -
    have "distinct (wins t' @ concat (map wins ts))" using ms r(2) by (metis mset_append mset_eq_imp_distinct_iff)
    then have "x \<notin> set (concat (map wins ts))" using that by auto
    then show ?thesis by (simp only: hc_def if_False)
  qed
  ultimately have hc: "window_tree hc root t'" "\<And>x. x \<in> set (wins t') \<Longrightarrow> hc x = wheap s' x" by blast+
  have "rep (wheap s') t'"
  proof (rule rep_frame)
    show "rep hc t'" using hc(1) by (simp add: window_tree_def)
    show "same_down hc (wheap s') x" if "x \<in> set (wins t')" for x using hc(2) [OF that] by (simp add: same_down_def)
    show "same_up hc (wheap s') x" if "x \<in> set (below t')" for x
    proof -
      have "hc x = wheap s' x" by (rule hc(2)) (use that in \<open>simp add: wins_root_below\<close>)
      then show ?thesis by (simp add: same_up_def)
    qed
  qed
  moreover have "hc root = wheap s' root" by (rule hc(2)) (use hc(1) in \<open>auto simp: window_tree_def wins_root_below\<close>)
  ultimately show "window_tree (wheap s') root t'" using hc(1) by (simp add: window_tree_def)
qed

text \<open>The flags of the windows outside a subtree.\<close>

lemma no_links_fields:
  "no_links r = no_links r' \<Longrightarrow> mapped r = mapped r' \<and> realized r = realized r' \<and> viewable r = viewable r' \<and>
     inputOutput r = inputOutput r' \<and> parent r = parent r' \<and> win_id r = win_id r'"
  by (cases r; cases r') (simp add: no_links_def)

lemma flags_ok_without:
  assumes t: "window_tree h root t" and f: "flags_ok h (set (wins t))" and u: "u \<in> set (subs t)"
    and A: "A \<subseteq> set (wins t)" "A \<inter> set (wins u) = {}" and same: "\<And>x. x \<notin> set (wins u) \<Longrightarrow> no_links (h' x) = no_links (h x)"
  shows "flags_ok h' A"
  unfolding flags_ok_def
proof
  fix x assume x: "x \<in> A"
  then have out: "x \<notin> set (wins u)" and xt: "x \<in> set (wins t)" using A by blast+
  note n = no_links_fields [OF same [OF out]]
  have "realized (h' q) = realized (h q)" if q: "parent (h x) = Some q" for q
  proof -
    have "q \<notin> set (wins u)" using parent_closed [OF t u _ xt q] out by blast
    then show ?thesis using no_links_fields [OF same] by blast
  qed
  then show "viewable (h' x) = (realized (h' x) \<and> inputOutput (h' x)) \<and>
     realized (h' x) = (mapped (h' x) \<and> (\<forall>q. parent (h' x) = Some q \<longrightarrow> realized (h' q)))"
    using f xt n by (auto simp: flags_ok_def)
qed

lemma DeleteWindow_ok:
  assumes ok: "windows_ok root t s" and u: "u \<in> set (subs t)" "wroot u = w" and w: "w \<noteq> root"
  obtains s' where "DeleteWindow env w wid s = Some s'" "windows_ok root (prune w t) s'"
    "mset (wins t) = mset (wins (prune w t)) + mset (wins u)" "wlive s' = wlive s - set (wins u)"
    "freed s' = freed s @ post u" "\<And>x. x \<notin> set (wins u) \<Longrightarrow> mapped (wheap s' x) = mapped (wheap s x)"
    "\<And>x. x \<notin> set (wins u) \<Longrightarrow> place_of (wheap s' x) = place_of (wheap s x)"
proof -
  obtain ts where ut: "u = Tree w ts" using u(2) by (cases u) simp
  have wt: "w \<in> set (wins t)" using u(1) wins_iff_subs [of w t] unfolding ut by blast
  obtain s1 where s1: "UnmapWindow env w False s = Some s1" "windows_ok root t s1" "flags_only s s1"
    "\<And>x. mapped (wheap s1 x) = (mapped (wheap s x) \<and> (x = w \<longrightarrow> w = root))" "freed s1 = freed s"
    by (rule UnmapWindow_ok [OF ok wt, of env False]) blast
  note k1 = windows_okD [OF s1(2)]
  have sub: "Tree w ts \<in> set (subs t)" using u(1) by (simp add: ut)
  define s2 where "s2 = crush_kids env w ts s1"
  define t2 where "t2 = edit w (\<lambda>_. []) t"
  note cr = crush_tree_ok [OF k1(1) sub]
  have c: "window_tree (wheap s2) root t2" "mset (wins t2) + mset (concat (map wins ts)) = mset (wins t)"
    "\<And>x. x \<notin> set (wins (Tree w ts)) \<Longrightarrow> wheap s2 x = wheap s1 x"
    "wlive s2 = wlive s1 - set (concat (map wins ts))" "freed s2 = freed s1 @ concat (map post ts)"
    "parent (wheap s2 w) = parent (wheap s1 w)" "firstChild (wheap s2 w) = None"
    unfolding s2_def t2_def by (rule cr, rule cr, erule cr, rule cr, rule cr, rule cr, rule cr)
  have c1: "CrushTree env w s1 = Some s2"
    unfolding s2_def by (rule CrushTree_eq [OF rep_subs [OF k1(2) sub] distinct_subs [OF k1(3) sub]])
  obtain p where p: "parent (wheap s1 w) = Some p" by (rule not_root_parent [OF k1(1) wt w])
  then have p2: "parent (wheap s2 w) = Some p" using c(6) by simp
  have d: "distinct (wins t2 @ concat (map wins ts))" using c(2) k1(3) by (metis mset_append mset_eq_imp_distinct_iff)
  have "w \<notin> set (concat (map wins ts))" using distinct_subs [OF k1(3) sub] by simp
  then have wt2: "w \<in> set (wins t2)" using c(2) wt by (metis UnE mset_append set_append set_mset_mset)
  obtain ts2 u2 where u2: "Tree p ts2 \<in> set (subs t2)" "u2 \<in> set ts2" "wroot u2 = w" by (rule kid_of [OF c(1) wt2 p2])
  have "rep (wheap s2) u2" using edit_kids_ok(2) [OF _ u2(1,2)] c(1) by (simp add: window_tree_def)
  then have "first_of (map wroot (wkids u2)) = firstChild (wheap s2 (wroot u2))"
    using rep_kids [of "wheap s2" u2] by (simp add: children_ok_def)
  then have "wkids u2 = []" using c(7) by (simp add: u2(3))
  then have wu2: "wins u2 = [w]" using u2(3) by (cases u2) simp
  note ul = unlink_tree [OF c(1) u2(1,2), unfolded u2(3)]
  have d2: "distinct (wins t2)" using d by simp
  have pr: "edit p (take_kid w) t2 = prune w t"
  proof -
    have "edit p (take_kid w) t2 = prune w t2" by (rule prune_take [OF d2 u2(1)]) (use u2 in auto)
    then show ?thesis using prune_edit [of w "\<lambda>_. []" t] k1(4) w by (simp add: t2_def)
  qed
  have ms: "mset (wins t) = mset (wins (prune w t)) + mset (wins u)"
    using edit_take_wins [OF d2 u2(1,2)] c(2) by (simp add: u2(3) pr wu2 ut)
  let ?s3 = "trace_if (wid \<and> SubStrSend env w p) (DestroyNotify w) s2"
  let ?s' = "free_window w (?s3\<lparr>wheap := unlink p w (wheap ?s3)\<rparr>)"
  have e: "DeleteWindow env w wid s = Some ?s'" using s1(1) c1 p2 by (simp add: DeleteWindow_def Let_def)
  have h: "wheap ?s' = unlink p w (wheap s2)" by (simp add: free_window_def trace_event_def trace_if_def)
  have l: "wlive ?s' = wlive s - set (wins u)"
    using c(4) s1(3) by (auto simp: free_window_def trace_event_def trace_if_def flags_only_def ut)
  have f: "freed ?s' = freed s @ post u"
    using c(5) s1(5) by (simp add: free_window_def trace_event_def trace_if_def freed_def ut)
  have out: "x \<notin> set (wins u)" if "x \<in> set (wins (prune w t))" for x
    using ms k1(3) that by (metis disjoint_iff distinct_append mset_append mset_eq_imp_distinct_iff)
  have fld: "no_links (wheap ?s' x) = no_links (wheap s1 x)" if "x \<notin> set (wins u)" for x
    unfolding h using ul(3) [of x] c(3) [of x] that by (simp add: ut)
  have sub_t: "set (wins (prune w t)) \<subseteq> set (wins t)" using ms by (metis Un_upper1 set_append mset_append set_mset_mset)
  have "flags_ok (wheap ?s') (set (wins (prune w t)))"
    by (rule flags_ok_without [OF k1(1,6) u(1) sub_t _ fld]) (use out in blast)+
  moreover have "set (wins (prune w t)) \<subseteq> wlive ?s'" using k1(7) s1(3) out sub_t unfolding l flags_only_def by blast
  ultimately have "windows_ok root (prune w t) ?s'" using ul(1) unfolding windows_ok_def h pr by blast
  moreover have "mapped (wheap ?s' x) = mapped (wheap s x)" if "x \<notin> set (wins u)" for x
  proof -
    have "x \<noteq> w" using that by (auto simp: ut)
    then show ?thesis using no_links_fields [OF fld [OF that]] s1(4) [of x] by blast
  qed
  moreover have "place_of (wheap ?s' x) = place_of (wheap s x)" if "x \<notin> set (wins u)" for x
    using place_of_links [OF fld [OF that]] flags_only_place [OF s1(3), of x] by simp
  ultimately show ?thesis using that [OF e _ ms l f] by blast
qed

lemma edit_edit: "edit p f (edit p g t) = edit p (\<lambda>ts. f (g ts)) t"
  by (induction t rule: wins.induct) simp

lemma subs_edit: "distinct (wins t) \<Longrightarrow> Tree p ts \<in> set (subs t) \<Longrightarrow> Tree p (f ts) \<in> set (subs (edit p f t))"
proof (induction t rule: wins.induct)
  case (1 q us)
  show ?case
  proof (cases "q = p")
    case True
    then show ?thesis using subs_unique [OF "1.prems"(1), of p us ts] "1.prems"(2) by simp
  next
    case False
    then obtain v where v: "v \<in> set us" "Tree p ts \<in> set (subs v)" using "1.prems"(2) by auto
    then have "Tree p (f ts) \<in> set (subs (edit p f v))" using "1.IH" distinct_kid [OF "1.prems"(1)] by simp
    then show ?thesis using False v(1) by auto
  qed
qed

lemma edit_same: "distinct (wins t) \<Longrightarrow> Tree p ts \<in> set (subs t) \<Longrightarrow> edit p (\<lambda>_. ts) t = t"
proof (induction t rule: wins.induct)
  case (1 q us)
  show ?case
  proof (cases "q = p")
    case True
    then show ?thesis using subs_unique [OF "1.prems"(1), of p us ts] "1.prems"(2) by simp
  next
    case False
    have "edit p (\<lambda>_. ts) v = v" if v: "v \<in> set us" for v
    proof (cases "p \<in> set (wins v)")
      case True
      then obtain ts' where ts': "Tree p ts' \<in> set (subs v)" by (auto simp: wins_iff_subs)
      then have "Tree p ts' \<in> set (subs (Tree q us))" using v by auto
      then have "ts' = ts" by (rule subs_unique [OF "1.prems"(1) _ "1.prems"(2)])
      then show ?thesis using "1.IH" [OF v] distinct_kid [OF "1.prems"(1)] v ts' by simp
    qed (rule edit_outside)
    then have "map (edit p (\<lambda>_. ts)) us = us" by (intro map_idI)
    then show ?thesis using False by simp
  qed
qed

text \<open>
  The children that stay when they are destroyed from the lowest on: those above the first that
  access control keeps, and it.
\<close>

definition kept_kids :: "(wptr \<Rightarrow> x_status) \<Rightarrow> wtree list \<Rightarrow> wtree list" where
  "kept_kids access ts = rev (dropWhile (\<lambda>u. access (wroot u) = Success) (rev ts))"

lemma destroy_children_ok:
  assumes "windows_ok root t s" "Tree p ts \<in> set (subs t)"
  shows "\<exists>s'. destroy_children env access p s =
      Some (case last_of (map wroot (kept_kids access ts)) of None \<Rightarrow> Success | Some c \<Rightarrow> access c, s') \<and>
    windows_ok root (edit p (\<lambda>_. kept_kids access ts) t) s' \<and> (\<forall>x. mapped (wheap s x) \<longrightarrow> x = root \<longrightarrow> mapped (wheap s' x)) \<and>
    set (wins (edit p (\<lambda>_. kept_kids access ts) t)) \<subseteq> set (wins t) \<and>
    (\<forall>x \<in> set (wins (edit p (\<lambda>_. kept_kids access ts) t)). place_of (wheap s' x) = place_of (wheap s x))"
  using assms
proof (induction ts arbitrary: t s rule: rev_induct)
  case Nil
  note k = windows_okD [OF Nil(1)]
  have "lastChild (wheap s p) = None" using window_tree_kids(1) [OF k(1) Nil(2)] by (simp add: children_ok_def)
  then show ?case using Nil edit_same [OF k(3) Nil(2)]
    by (subst destroy_children.simps) (simp add: kept_kids_def)
next
  case (snoc v ts)
  note k = windows_okD [OF snoc.prems(1)]
  note wk = window_tree_kids [OF k(1) snoc.prems(2)]
  let ?c = "wroot v"
  have l: "lastChild (wheap s p) = Some ?c" using wk(1) by (simp add: children_ok_def)
  show ?case
  proof (cases "access ?c = Success")
    case False
    then show ?thesis using l snoc.prems edit_same [OF k(3) snoc.prems(2)]
      by (subst destroy_children.simps) (simp add: kept_kids_def)
  next
    case True
    have vs: "v \<in> set (subs t)"
      by (rule subs_trans [OF snoc.prems(2)]) (use kid_subs [of v "Tree p (ts @ [v])"] in simp)
    have "parent (wheap s ?c) = Some p" using wk(4) by simp
    then have nr: "?c \<noteq> root" using k(5) by auto
    obtain s1 where s1: "DeleteWindow env ?c True s = Some s1" "windows_ok root (prune ?c t) s1"
      "\<And>x. x \<notin> set (wins v) \<Longrightarrow> mapped (wheap s1 x) = mapped (wheap s x)"
      "mset (wins t) = mset (wins (prune ?c t)) + mset (wins v)"
      "\<And>x. x \<notin> set (wins v) \<Longrightarrow> place_of (wheap s1 x) = place_of (wheap s x)"
      by (rule DeleteWindow_ok [OF snoc.prems(1) vs refl nr, of env True]) blast
    have "distinct (wins (prune ?c t) @ wins v)" using k(3) s1(4) by (metis mset_append mset_eq_imp_distinct_iff)
    moreover have "set (wins t) = set (wins (prune ?c t)) \<union> set (wins v)" using s1(4) by (metis set_mset_mset set_mset_union)
    ultimately have pv: "x \<notin> set (wins v)" "x \<in> set (wins t)" if "x \<in> set (wins (prune ?c t))" for x
      using that by auto
    have pr: "edit p (take_kid ?c) t = prune ?c t" by (rule prune_take [OF k(3) snoc.prems(2)]) simp
    have tk: "take_kid ?c (ts @ [v]) = ts"
      using filter_out(1) [of ts v "[]"] wk(2) by (simp add: take_kid_def)
    have "Tree p (take_kid ?c (ts @ [v])) \<in> set (subs (prune ?c t))"
      using subs_edit [OF k(3) snoc.prems(2), of "take_kid ?c"] by (simp only: pr)
    then have sub: "Tree p ts \<in> set (subs (prune ?c t))" by (simp only: tk)
    obtain s' where s': "destroy_children env access p s1 =
        Some (case last_of (map wroot (kept_kids access ts)) of None \<Rightarrow> Success | Some c \<Rightarrow> access c, s')"
      "windows_ok root (edit p (\<lambda>_. kept_kids access ts) (prune ?c t)) s'"
      "\<forall>x. mapped (wheap s1 x) \<longrightarrow> x = root \<longrightarrow> mapped (wheap s' x)"
      "set (wins (edit p (\<lambda>_. kept_kids access ts) (prune ?c t))) \<subseteq> set (wins (prune ?c t))"
      "\<forall>x \<in> set (wins (edit p (\<lambda>_. kept_kids access ts) (prune ?c t))). place_of (wheap s' x) = place_of (wheap s1 x)"
      using snoc.IH [OF s1(2) sub] by blast
    have kk: "kept_kids access (ts @ [v]) = kept_kids access ts" using True by (simp add: kept_kids_def)
    have e: "destroy_children env access p s = destroy_children env access p s1"
      using l True s1(1) by (subst destroy_children.simps) simp
    have "\<forall>x \<in> set (wins (edit p (\<lambda>_. kept_kids access ts) (prune ?c t))). x \<in> set (wins t) \<and> place_of (wheap s' x) = place_of (wheap s x)"
      using s'(4,5) s1(5) pv by (metis subsetD)
    moreover have "edit p (\<lambda>_. kept_kids access ts) (prune ?c t) = edit p (\<lambda>_. kept_kids access ts) t"
      by (simp only: edit_edit pr [symmetric])
    moreover have "root \<notin> set (wins v)"
    proof
      assume "root \<in> set (wins v)"
      then have "\<exists>us. Tree root us \<in> set (subs v)" by (simp add: wins_iff_subs)
      then obtain us where us: "Tree root us \<in> set (subs v)" by blast
      have "Tree root us = t" by (rule subs_at_unique [OF k(3) subs_trans [OF vs us]]) (simp_all add: k(4))
      then have "size t \<le> size v" using subs_size [OF us] by simp
      moreover have "size (Tree p (ts @ [v])) \<le> size t" by (rule subs_size [OF snoc.prems(2)])
      ultimately show False by simp
    qed
    ultimately show ?thesis using s' s1(3) by (simp only: e kk) blast
  qed
qed

lemma DestroySubwindows_ok:
  assumes ok: "windows_ok root t s" and p: "Tree p ts \<in> set (subs t)" and h: "head_ok env (wheap s) t"
    and m: "mapped (wheap s root)"
  obtains s' where "DestroySubwindows env access p s =
      Some (case last_of (map wroot (kept_kids access ts)) of None \<Rightarrow> Success | Some c \<Rightarrow> access c, s')"
    "windows_ok root (edit p (\<lambda>_. kept_kids access ts) t) s'" "mapped (wheap s' root)"
    "set (wins (edit p (\<lambda>_. kept_kids access ts) t)) \<subseteq> set (wins t)"
    "\<And>x. x \<in> set (wins (edit p (\<lambda>_. kept_kids access ts) t)) \<Longrightarrow> place_of (wheap s' x) = place_of (wheap s x)"
proof -
  obtain s1 where s1: "UnmapSubwindows env p s = Some s1" "windows_ok root t s1"
    "\<And>x. mapped (wheap s1 x) = (mapped (wheap s x) \<and> x \<notin> set (after_head (RealChildHead env (wheap s) p) (map wroot ts)))"
    "flags_only s s1"
    by (rule UnmapSubwindows_ok [OF ok p h]) blast
  obtain s' where s': "destroy_children env access p s1 =
      Some (case last_of (map wroot (kept_kids access ts)) of None \<Rightarrow> Success | Some c \<Rightarrow> access c, s')"
    "windows_ok root (edit p (\<lambda>_. kept_kids access ts) t) s'" "\<forall>x. mapped (wheap s1 x) \<longrightarrow> x = root \<longrightarrow> mapped (wheap s' x)"
    "set (wins (edit p (\<lambda>_. kept_kids access ts) t)) \<subseteq> set (wins t)"
    "\<forall>x \<in> set (wins (edit p (\<lambda>_. kept_kids access ts) t)). place_of (wheap s' x) = place_of (wheap s1 x)"
    using destroy_children_ok [OF s1(2) p] by blast
  have "root \<notin> set (map wroot ts)" using window_tree_kids(4) [OF windows_okD(1) [OF ok] p] windows_okD(5) [OF ok] by force
  moreover have "set (after_head q ws) \<subseteq> set ws" for q ws
    by (auto simp: after_head_def split: option.splits dest: in_set_dropD set_dropWhileD)
  ultimately have "mapped (wheap s1 root)" using m s1(3) by blast
  then show ?thesis using that [of s'] s' s1(1) flags_only_place [OF s1(4)] by (simp add: DestroySubwindows_def)
qed

section \<open>Creating\<close>

text \<open>An unmapped window with the windows below it becomes a child.\<close>

lemma insert_ok:
  assumes ok: "windows_ok root t s" and p: "Tree p ts \<in> set (subs t)"
    and u: "rep (wheap s) u" "distinct (wins u)" "set (wins u) \<inter> set (wins t) = {}" "parent (wheap s (wroot u)) = Some p"
    and q: "q = None \<or> q \<in> Some ` set (map wroot ts)"
    and off: "\<And>x. x \<in> set (wins u) \<Longrightarrow> \<not> realized (wheap s x) \<and> \<not> viewable (wheap s x)" "\<not> mapped (wheap s (wroot u))"
    and live: "set (wins u) \<subseteq> wlive s"
  shows "windows_ok root (edit p (put_kid q u) t) (s\<lparr>wheap := link_head q p (wroot u) (wheap s)\<rparr>)"
    "mset (wins (edit p (put_kid q u) t)) = mset (wins t) + mset (wins u)"
proof -
  note k = windows_okD [OF ok]
  note l = link_tree [OF k(1) p u q]
  let ?h = "link_head q p (wroot u) (wheap s)" and ?t = "edit p (put_kid q u) t"
  have "q = None \<or> (\<exists>v \<in> set ts. q = Some (wroot v))" using q by auto
  from edit_put_wins [OF k(3) p this]
  show ms: "mset (wins ?t) = mset (wins t) + mset (wins u)" .
  have w: "set (wins ?t) = set (wins t) \<union> set (wins u)" using ms by (metis set_mset_mset set_mset_union)
  note f = no_links_fields [OF l(2)]
  have "viewable (?h x) = (realized (?h x) \<and> inputOutput (?h x)) \<and>
      realized (?h x) = (mapped (?h x) \<and> (\<forall>q. parent (?h x) = Some q \<longrightarrow> realized (?h q)))"
    if x: "x \<in> set (wins ?t)" for x
  proof (cases "x \<in> set (wins t)")
    case True
    then show ?thesis using k(6) f by (simp add: flags_ok_def)
  next
    case False
    then have xu: "x \<in> set (wins u)" using x w by blast
    have "\<not> (mapped (?h x) \<and> (\<forall>q. parent (?h x) = Some q \<longrightarrow> realized (?h q)))"
    proof (cases "x = wroot u")
      case True
      then show ?thesis using off(2) f by simp
    next
      case False
      then have "x \<in> set (below u)" using xu by (simp add: wins_root_below)
      then obtain r where "r \<in> set (wins u)" "parent (wheap s x) = Some r" using parent_in_tree [OF u(1)] by blast
      then show ?thesis using off(1) f by auto
    qed
    then show ?thesis using off(1) [OF xu] f by blast
  qed
  then have "flags_ok ?h (set (wins ?t))" by (simp add: flags_ok_def)
  then show "windows_ok root ?t (s\<lparr>wheap := ?h\<rparr>)" using l(1) k(7) live w by (simp add: windows_ok_def)
qed

lemma prune_put:
  assumes "distinct (wins t)" "wroot u \<notin> set (wins t)"
  shows "prune (wroot u) (edit p (put_kid q u) t) = t"
  using assms(2)
proof (induction t rule: wins.induct)
  case (1 r us)
  let ?w = "wroot u"
  have no: "prune ?w v = v \<and> wroot v \<noteq> ?w" if v: "v \<in> set us" for v
  proof -
    have n: "?w \<notin> set (wins v)" using "1.prems" v by auto
    then show ?thesis using prune_outside [OF n] wroot_in_wins [of v] by metis
  qed
  show ?case
  proof (cases "r = p")
    case True
    have p1: "filter (\<lambda>v. wroot v \<noteq> ?w) (map (prune ?w) us) = us"
      using no by (induction us) auto
    have p2: "filter (\<lambda>v. wroot v \<noteq> ?w) (map (prune ?w) (concat (map (\<lambda>v. if wroot v = b then [v, u] else [v]) us))) = us" for b
      using no by (induction us) auto
    show ?thesis using True p1 p2 by (simp add: put_kid_def split: option.split)
  next
    case False
    have "filter (\<lambda>v. wroot v \<noteq> ?w) (map (prune ?w \<circ> edit p (put_kid q u)) us) = us"
      using "1.IH" no "1.prems" by (induction us) auto
    then show ?thesis using False by simp
  qed
qed

lemma put_kid_subs:
  assumes "distinct (wins t)" "Tree p ts \<in> set (subs t)" "q = None \<or> q \<in> Some ` set (map wroot ts)"
  shows "u \<in> set (subs (edit p (put_kid q u) t))"
proof -
  have "u \<in> set (wkids (Tree p (put_kid q u ts)))" using assms(3) by (auto simp: put_kid_def)
  then show ?thesis using subs_trans [OF subs_edit [OF assms(1,2), of "put_kid q u"] kid_subs] by simp
qed

lemma dixCreateWindow_ok:
  assumes ok: "windows_ok root t s" and p: "p \<in> set (wins t)" and w: "w \<notin> wlive s"
  obtains s' t' st where "dixCreateWindow env req mem access outcome p w new s = Some (st, s')" "windows_ok root t' s'"
    "st = (if check_create req \<noteq> Success then check_create req else if \<not> mem then BadAlloc
           else if access \<noteq> Success then access else outcome)"
    "st \<noteq> Success \<Longrightarrow> t' = t" "st = Success \<Longrightarrow> mset (wins t') = add_mset w (mset (wins t))"
    "st = Success \<Longrightarrow> parent (wheap s' w) = Some p" "\<And>x. x \<noteq> w \<Longrightarrow> mapped (wheap s' x) = mapped (wheap s x)"
    "\<And>x. x \<noteq> w \<Longrightarrow> place_of (wheap s' x) = place_of (wheap s x)" "st = Success \<Longrightarrow> placed (wheap s') w"
proof (cases "check_create req \<noteq> Success \<or> \<not> mem \<or> access \<noteq> Success")
  case True
  have "dixCreateWindow env req mem access outcome p w new s =
      Some (if check_create req \<noteq> Success then check_create req else if \<not> mem then BadAlloc
           else if access \<noteq> Success then access else outcome, s)"
    using True by (auto simp: dixCreateWindow_def)
  then show ?thesis by (rule that [OF _ ok refl]) (use True in \<open>auto split: if_splits\<close>)
next
  case False
  note k = windows_okD [OF ok]
  define r where "r = new\<lparr>parent := Some p, firstChild := None, lastChild := None, nextSib := None, prevSib := None,
                    mapped := False, realized := False, viewable := False,
                    inputOutput := (create_class req = InputOutput),
                    borderWidth := cr_border req,
                    origin_x := short (win_x new + cr_border req), origin_y := short (win_y new + cr_border req),
                    win_x := short (win_x (wheap s p) + win_x new + cr_border req),
                    win_y := short (win_y (wheap s p) + win_y new + cr_border req)\<rparr>"
  define s1 where "s1 = s\<lparr>wheap := (wheap s)(w := r), wlive := wlive s \<union> {w}\<rparr>"
  define q where "q = RealChildHead env (wheap s1) p"
  define s2 where "s2 = s1\<lparr>wheap := link_head q p w (wheap s1)\<rparr>"
  have wt: "w \<notin> set (wins t)" using k(7) w by blast
  have same: "wheap s1 x = wheap s x" if "x \<in> set (wins t)" for x using wt that by (auto simp: s1_def)
  have "rep (wheap s1) t"
    by (rule rep_frame [OF k(2)]) (use same in \<open>simp_all add: same_up_def same_down_def wins_root_below\<close>)
  moreover have "wheap s1 root = wheap s root" using same [of root] k(4) wroot_in_wins [of t] by simp
  ultimately have t1: "window_tree (wheap s1) root t" using k(1) by (simp add: window_tree_def)
  have "flags_ok (wheap s1) (set (wins t))" unfolding flags_ok_def
  proof
    fix x assume x: "x \<in> set (wins t)"
    have "wheap s1 y = wheap s y" if y: "parent (wheap s x) = Some y" for y
    proof -
      obtain ts u where "Tree y ts \<in> set (subs t)" "u \<in> set ts" "wroot u = x" by (rule kid_of [OF k(1) x y])
      then have "y \<in> set (wins t)" using wins_iff_subs by blast
      then show ?thesis by (rule same)
    qed
    then show "viewable (wheap s1 x) = (realized (wheap s1 x) \<and> inputOutput (wheap s1 x)) \<and>
       realized (wheap s1 x) = (mapped (wheap s1 x) \<and> (\<forall>q. parent (wheap s1 x) = Some q \<longrightarrow> realized (wheap s1 q)))"
      using k(6) x same [OF x] by (auto simp: flags_ok_def)
  qed
  then have ok1: "windows_ok root t s1" using t1 k(7) by (auto simp: windows_ok_def s1_def)
  obtain ts where ts: "Tree p ts \<in> set (subs t)" using p by (auto simp: wins_iff_subs)
  have "head_ok env (wheap s1) t" by (rule head_ok_rep [OF windows_okD(2) [OF ok1]])
  then have hq: "q = None \<or> q \<in> Some ` set (map wroot ts)" using ts by (fastforce simp: head_ok_def q_def)
  let ?u = "Tree w []"
  have wr: "wheap s1 w = r" by (simp add: s1_def)
  have ins: "windows_ok root (edit p (put_kid q ?u) t) (s1\<lparr>wheap := link_head q p (wroot ?u) (wheap s1)\<rparr>)"
    "mset (wins (edit p (put_kid q ?u) t)) = mset (wins t) + mset (wins ?u)"
    by (rule insert_ok [OF ok1 ts _ _ _ _ hq];
        use wt in \<open>simp add: wr r_def children_ok_def\<close>; use wt in \<open>simp add: s1_def\<close>)+
  have ok2: "windows_ok root (edit p (put_kid q ?u) t) s2" using ins(1) by (simp add: s2_def)
  have l2: "no_links (wheap s2 x) = no_links (wheap s1 x)" for x
    using link_tree(2) [OF t1 ts, of ?u q] hq wt by (simp add: s2_def wr r_def children_ok_def)
  have m2: "mapped (wheap s2 x) = mapped (wheap s x)" if "x \<noteq> w" for x
    using no_links_fields [OF l2 [of x]] that by (simp add: s1_def)
  have g2: "place_of (wheap s2 x) = place_of (if x = w then r else wheap s x)" for x
    using place_of_links [OF l2 [of x]] by (simp add: s1_def)
  have "p \<noteq> w" using p wt by auto
  then have p2: "placed (wheap s2) w"
    using g2 [of w] g2 [of p] by (auto simp: placed_def place_of_def r_def add.assoc)
  have e: "dixCreateWindow env req mem access outcome p w new s =
     (if outcome \<noteq> Success then map_option (\<lambda>s3. (outcome, s3)) (DeleteWindow env w False s2)
      else Some (Success, trace_if (SubSend env p) (CreateNotify w p) s2))"
    using False by (simp add: dixCreateWindow_def Let_def r_def s1_def q_def s2_def)
  show ?thesis
  proof (cases "outcome = Success")
    case True
    have "windows_ok root (edit p (put_kid q ?u) t) (trace_if (SubSend env p) (CreateNotify w p) s2)"
      using ok2 by (simp add: windows_ok_def)
    moreover have "parent (wheap s2 w) = Some p" using no_links_fields [OF l2 [of w]] by (simp add: wr r_def)
    moreover have e4: "dixCreateWindow env req mem access outcome p w new s =
        Some (outcome, trace_if (SubSend env p) (CreateNotify w p) s2)"
      using e True by simp
    ultimately show ?thesis using True False ins(2) m2 g2 p2 by (intro that [OF e4]) auto
  next
    case fail: False
    have d: "distinct (wins (edit p (put_kid q ?u) t))" by (rule windows_okD(3) [OF ok2])
    have us: "?u \<in> set (subs (edit p (put_kid q ?u) t))" by (rule put_kid_subs [OF k(3) ts hq])
    have "w \<noteq> root" using wt k(4) wroot_in_wins [of t] by auto
    then obtain s3 where s3: "DeleteWindow env w False s2 = Some s3" "windows_ok root (prune w (edit p (put_kid q ?u) t)) s3"
      "\<And>x. x \<notin> set (wins ?u) \<Longrightarrow> mapped (wheap s3 x) = mapped (wheap s2 x)"
      "\<And>x. x \<notin> set (wins ?u) \<Longrightarrow> place_of (wheap s3 x) = place_of (wheap s2 x)"
      using DeleteWindow_ok [OF ok2 us, of w env False] by (metis wtree.sel(1))
    have pr: "prune w (edit p (put_kid q ?u) t) = t" using prune_put [OF k(3), of ?u p q] wt by simp
    have m3: "mapped (wheap s3 x) = mapped (wheap s x)" if "x \<noteq> w" for x using s3(3) [of x] m2 [OF that] that by simp
    have e3: "dixCreateWindow env req mem access outcome p w new s = Some (outcome, s3)" using e fail s3(1) by simp
    have g3: "place_of (wheap s3 x) = place_of (wheap s x)" if "x \<noteq> w" for x using s3(4) [of x] g2 [of x] that by simp
    show ?thesis by (rule that [OF e3 s3(2) [unfolded pr]]) (use fail False m3 g3 in auto)
  qed
qed

section \<open>Reparenting\<close>

lemma walk_compare:
  "walk (\<lambda>c s'. (CompareWIDs (wheap s') wid c, s')) u s = ((\<exists>x \<in> set (wins u). win_id (wheap s x) = wid), s)"
  for s :: wstate
proof (induction u arbitrary: s rule: wins.induct)
  case (1 w ts)
  have "set us \<subseteq> set ts \<Longrightarrow> walks (\<lambda>c s'. (CompareWIDs (wheap s') wid c, s')) us s =
      ((\<exists>x \<in> set (concat (map wins us)). win_id (wheap s x) = wid), s)" for us and s :: wstate
  proof (induction us arbitrary: s)
    case (Cons u us)
    then show ?case using "1.IH" [of u s] by auto
  qed simp
  from this [OF subset_refl] show ?case by (auto simp: walk_Tree CompareWIDs_def)
qed

lemma set_place_no_place: "no_place (wheap (set_place w x y bw p s) z) = no_place (wheap s z)"
  by (simp add: set_place_def upd_win_def no_place_def)

lemma set_place_sel [simp]:
  "wlive (set_place w x y bw p s) = wlive s" "wtrace (set_place w x y bw p s) = wtrace s"
  "z \<noteq> w \<Longrightarrow> wheap (set_place w x y bw p s) z = wheap s z"
  by (simp_all add: set_place_def upd_win_def)

lemma set_place_placed:
  assumes "parent (wheap s w) = Some p" "p \<noteq> w"
  shows "placed (wheap (set_place w x y bw p s)) w"
  using assms by (auto simp: placed_def set_place_def upd_win_def add.assoc)

text \<open>A window put to a place, with all below it.\<close>

lemma place_subtree:
  assumes ok: "windows_ok root t s" and u: "u \<in> set (subs t)" "wroot u = w" and p: "parent (wheap s w) = Some p"
  obtains s' where "ResizeChildrenWinSize w 0 0 0 0 (set_place w x y bw p s) = Some s'" "windows_ok root t s'"
    "place_only (set (wins u)) s s'" "\<And>z. z \<in> set (wins u) \<Longrightarrow> placed (wheap s') z"
    "wheap s' w = wheap (set_place w x y bw p s) w"
proof -
  note k = windows_okD [OF ok]
  let ?s = "set_place w x y bw p s"
  have ok1: "windows_ok root t ?s" by (rule no_place_ok [OF ok]) (simp_all add: set_place_no_place)
  note k1 = windows_okD [OF ok1]
  have d: "distinct (wins u)" by (rule distinct_subs [OF k(3) u(1)])
  obtain s' where s': "ResizeChildrenWinSize w 0 0 0 0 ?s = Some s'" "place_only (set (below u)) ?s s'"
    "\<And>z. z \<in> set (below u) \<Longrightarrow> placed (wheap s') z"
    by (rule ResizeChildrenWinSize_ok [OF rep_subs [OF k1(2) u(1)] d u(2), of 0 0 0 0]) blast
  have wb: "w \<notin> set (below u)" using d u(2) by (simp add: wins_root_below)
  have "w \<in> set (wins t)" using wins_subs [OF u(1)] wroot_in_wins [of u] u(2) by blast
  then have pu: "p \<notin> set (wins u)" by (rule parent_not_below [OF k(1) _ p u])
  have "place_only (set (wins u)) s ?s"
    using u(2) by (auto simp: place_only_def set_place_no_place freed_def wins_root_below)
  then have o: "place_only (set (wins u)) s s'"
    by (rule place_only_trans [OF _ s'(2)]) (simp_all add: wins_root_below subset_insertI)
  have "placed (wheap s') w"
  proof (rule placed_frame [where h = "wheap ?s"])
    show "placed (wheap ?s) w" by (rule set_place_placed [OF p]) (use pu u(2) in auto)
    have "wheap s' z = wheap ?s z" if "z = w \<or> z = p" for z
      using place_only_heap(4) [OF s'(2), of z] that wb pu by (auto simp: wins_root_below)
    then show "win_x (wheap s' z) = win_x (wheap ?s z) \<and> win_y (wheap s' z) = win_y (wheap ?s z)"
      if "parent (wheap ?s w) = Some z" for z
      using that p no_place_fields(2) [OF set_place_no_place [of w x y bw p s w]] by simp
  qed (use place_only_heap(4) [OF s'(2) wb] in simp_all)
  then have "placed (wheap s') z" if "z \<in> set (wins u)" for z using s'(3) that u(2) by (auto simp: wins_root_below)
  then show ?thesis using that [of s'] s'(1) place_only_ok [OF s'(2) ok1] o place_only_heap(4) [OF s'(2) wb] by blast
qed

lemma ReparentWindow_ok:
  assumes ok: "windows_ok root t s" and u: "u \<in> set (subs t)" "wroot u = w" and p: "p \<in> set (wins t)" and w: "w \<noteq> root"
    and ids: "\<And>x. x \<in> set (wins t) \<Longrightarrow> win_id (wheap s x) = win_id (wheap s p) \<Longrightarrow> x = p"
    and mr: "mapped (wheap s root)"
  obtains (descendant) "p \<in> set (wins u)" "ReparentWindow env w p x y s = Some (BadMatch, s)"
  | (alloc) "p \<notin> set (wins u)" "\<not> optional_mem env" "ReparentWindow env w p x y s = Some (BadAlloc, s)"
  | (moved) q s' where "p \<notin> set (wins u)" "optional_mem env" "ReparentWindow env w p x y s = Some (Success, s')"
      "windows_ok root (edit p (put_kid q u) (prune w t)) s'"
      "mset (wins (edit p (put_kid q u) (prune w t))) = mset (wins t)" "mapped (wheap s' root)"
      "\<And>z. z \<in> set (wins u) \<Longrightarrow> placed (wheap s') z" "\<And>z. z \<notin> set (wins u) \<Longrightarrow> place_of (wheap s' z) = place_of (wheap s z)"
proof -
  note k = windows_okD [OF ok]
  have ut: "set (wins u) \<subseteq> set (wins t)" by (rule wins_subs [OF u(1)])
  have wt: "w \<in> set (wins t)" using ut u(2) wroot_in_wins [of u] by blast
  let ?v = "\<lambda>c s'. (CompareWIDs (wheap s') (win_id (wheap s p)) c, s')"
  have "TraverseTree wheap ?v (Some (wroot u)) s = finish (walk ?v u s) (\<lambda>s'. Some (WT_NOMATCH, s'))"
    by (rule TraverseTree_walk [where get = wheap and visit = ?v and t = u and s = s])
      (simp_all add: keeps_links_def rep_subs [OF k(2) u(1)] distinct_subs [OF k(3) u(1)])
  moreover have "(\<exists>x \<in> set (wins u). win_id (wheap s x) = win_id (wheap s p)) = (p \<in> set (wins u))"
    using ids ut by blast
  ultimately have tt: "TraverseTree wheap ?v (Some w) s = Some (if p \<in> set (wins u) then WT_STOPWALKING else WT_NOMATCH, s)"
    by (simp add: walk_compare finish_def u(2))
  show ?thesis
  proof (cases "p \<in> set (wins u) \<or> \<not> optional_mem env")
    case True
    then show ?thesis using descendant alloc tt by (auto simp: ReparentWindow_def)
  next
    case False
    have "\<exists>s1. (if mapped (wheap s w) then UnmapWindow env w False s else Some s) = Some s1 \<and> windows_ok root t s1 \<and>
      \<not> mapped (wheap s1 w) \<and> mapped (wheap s1 root) \<and> flags_only s s1"
    proof (cases "mapped (wheap s w)")
      case True
      obtain s1 where "UnmapWindow env w False s = Some s1" "windows_ok root t s1" "flags_only s s1"
        "\<And>x. mapped (wheap s1 x) = (mapped (wheap s x) \<and> (x = w \<longrightarrow> w = root))"
        by (rule UnmapWindow_ok [OF ok wt, of env False]) blast
      then show ?thesis using True w mr by (auto simp: flags_only_def)
    qed (use ok mr in auto)
    then obtain s1 where s1: "(if mapped (wheap s w) then UnmapWindow env w False s else Some s) = Some s1"
      "windows_ok root t s1" "\<not> mapped (wheap s1 w)" "mapped (wheap s1 root)" "flags_only s s1" by blast
    note k1 = windows_okD [OF s1(2)]
    obtain old where old: "parent (wheap s1 w) = Some old" by (rule not_root_parent [OF k1(1) wt w])
    obtain ts u' where n: "Tree old ts \<in> set (subs t)" "u' \<in> set ts" "wroot u' = w" by (rule kid_of [OF k1(1) wt old])
    have u't: "u' \<in> set (subs t)" using subs_trans [OF n(1)] kid_subs [of u' "Tree old ts"] n(2) by simp
    have "u' = u" by (rule subs_at_unique [OF k(3) u't u(1)]) (simp add: n(3) u(2))
    note ul = unlink_tree [OF k1(1) n(1,2), unfolded n(3), unfolded this]
    have pr: "edit old (take_kid w) t = prune w t" by (rule prune_take [OF k(3) n(1)]) (use n in auto)
    have ms: "mset (wins t) = mset (wins (prune w t)) + mset (wins u)"
      using edit_take_wins [OF k(3) n(1,2)] by (simp add: n(3) u(2) pr \<open>u' = u\<close>)
    have dd: "distinct (wins (prune w t) @ wins u)" using ms k(3) by (metis mset_append mset_eq_imp_distinct_iff)
    have sets: "set (wins t) = set (wins (prune w t)) \<union> set (wins u)" using ms by (metis set_mset_mset set_mset_union)
    have wu: "w \<in> set (wins u)" using u(2) wroot_in_wins [of u] by simp
    define h1 where "h1 = set_parent w (Some p) (unlink old w (wheap s1))"
    have h1: "h1 x = unlink old w (wheap s1) x" if "x \<noteq> w" for x using that by (simp add: h1_def set_parent_def)
    have hw: "parent (h1 w) = Some p" "mapped (h1 w) = mapped (unlink old w (wheap s1) w)"
      "realized (h1 w) = realized (unlink old w (wheap s1) w)" "viewable (h1 w) = viewable (unlink old w (wheap s1) w)"
      "same_down (unlink old w (wheap s1)) h1 w"
      by (simp_all add: h1_def set_parent_def same_down_def)
    have down1: "same_down (unlink old w (wheap s1)) h1 z" for z
      using hw(5) h1 [of z] by (cases "z = w") (simp_all add: same_down_def)
    have wn: "w \<notin> set (wins (prune w t))" using dd wu by auto
    have t1: "window_tree h1 root (prune w t)"
    proof -
      have "window_tree (unlink old w (wheap s1)) root (prune w t)" using ul(1) by (simp only: pr)
      moreover have "rep h1 (prune w t)"
      proof (rule rep_frame)
        show "rep (unlink old w (wheap s1)) (prune w t)" using calculation by (simp add: window_tree_def)
        show "same_up (unlink old w (wheap s1)) h1 z" if "z \<in> set (below (prune w t))" for z
          using h1 [of z] wn that by (cases "z = w") (simp_all add: same_up_def wins_root_below)
      qed (rule down1)
      ultimately show ?thesis using h1 [of root] w by (simp add: window_tree_def)
    qed
    have ru: "rep h1 u"
    proof (rule rep_frame [OF ul(2) down1])
      have "w \<notin> set (below u)" using dd u(2) by (simp add: wins_root_below)
      then show "same_up (unlink old w (wheap s1)) h1 z" if "z \<in> set (below u)" for z
        using h1 [of z] that by (cases "z = w") (simp_all add: same_up_def)
    qed
    have f1: "flags_ok h1 (set (wins (prune w t)))"
    proof (rule flags_ok_without [OF k1(1,6) u(1)])
      show "set (wins (prune w t)) \<subseteq> set (wins t)" using sets by blast
      show "set (wins (prune w t)) \<inter> set (wins u) = {}" using dd by simp
      show "no_links (h1 z) = no_links (wheap s1 z)" if "z \<notin> set (wins u)" for z
      proof -
        have "z \<noteq> w" using that wu by blast
        then show ?thesis using h1 ul(3) by metis
      qed
    qed
    let ?s2 = "trace_event (ReparentNotify w p) s1"
    let ?m = "?s2\<lparr>wheap := h1\<rparr>"
    have okm: "windows_ok root (prune w t) ?m"
      using t1 f1 k1(7) sets by (auto simp: windows_ok_def)
    have pn: "p \<in> set (wins (prune w t))" using p False sets by blast
    obtain ts' where ts': "Tree p ts' \<in> set (subs (prune w t))" using pn by (auto simp: wins_iff_subs)
    let ?q = "RealChildHead env h1 p"
    have "head_ok env h1 (prune w t)" by (rule head_ok_rep) (use t1 in \<open>simp add: window_tree_def\<close>)
    then have hq: "?q = None \<or> ?q \<in> Some ` set (map wroot ts')" using ts' by (fastforce simp: head_ok_def)
    have off: "\<not> realized (h1 z) \<and> \<not> viewable (h1 z)" if z: "z \<in> set (wins u)" for z
    proof -
      have "\<not> realized (wheap s1 (wroot u))" using k1(6) wt s1(3) u(2) by (simp add: flags_ok_def)
      then have "\<not> realized (wheap s1 z) \<and> \<not> viewable (wheap s1 z)"
        by (rule flags_unrealized [OF k1(6) rep_subs [OF k1(2) u(1)] ut _ z])
      then show ?thesis using no_links_fields [OF ul(3) [of z]] h1 [of z] hw by (cases "z = w") simp_all
    qed
    have mw: "\<not> mapped (h1 w)" using no_links_fields [OF ul(3) [of w]] hw(2) s1(3) by simp
    have dis: "set (wins u) \<inter> set (wins (prune w t)) = {}" using dd by (simp add: Int_commute)
    define s3 where "s3 = ?m\<lparr>wheap := link_head ?q p w h1\<rparr>"
    have ins: "windows_ok root (edit p (put_kid ?q u) (prune w t)) s3"
      "mset (wins (edit p (put_kid ?q u) (prune w t))) = mset (wins (prune w t)) + mset (wins u)"
      using insert_ok [OF okm ts' _ _ _ _ hq, of u] ru dd dis hw(1) off mw k1(7) sets
      unfolding u(2) s3_def by auto
    let ?t = "edit p (put_kid ?q u) (prune w t)"
    have l3: "no_links (wheap s3 z) = no_links (h1 z)" for z
      using link_tree(2) [OF t1 ts' ru _ _ _ hq, unfolded u(2), of z] dd dis hw(1) by (simp add: s3_def)
    have p3: "parent (wheap s3 w) = Some p" using no_links_fields [OF l3 [of w]] hw(1) by simp
    have "distinct (wins (prune w t))" using dd by simp
    then have u3: "u \<in> set (subs ?t)" by (rule put_kid_subs [OF _ ts' hq])
    obtain s4 where s4: "ResizeChildrenWinSize w 0 0 0 0 (set_place w x y (borderWidth (wheap s w)) p s3) = Some s4"
      "windows_ok root ?t s4" "place_only (set (wins u)) s3 s4" "\<And>z. z \<in> set (wins u) \<Longrightarrow> placed (wheap s4) z"
      by (rule place_subtree [OF ins(1) u3 u(2) p3, of x y "borderWidth (wheap s w)"]) blast
    note f4 = no_place_fields [OF place_only_heap(3) [OF s4(3)]]
    have m4: "mapped (wheap s4 root)"
      using s1(4) h1 [of root] w no_links_fields [OF ul(3) [of root]] no_links_fields [OF l3 [of root]] f4(7) [of root] by simp
    have g4: "place_of (wheap s4 z) = place_of (wheap s z)" if "z \<notin> set (wins u)" for z
    proof -
      have "z \<noteq> w" using that wu by blast
      then have "place_of (h1 z) = place_of (wheap s1 z)" using h1 [of z] place_of_links [OF ul(3) [of z]] by simp
      then show ?thesis
        using place_only_heap(4) [OF s4(3) that] place_of_links [OF l3 [of z]] flags_only_place [OF s1(5), of z] by simp
    qed
    have mst: "mset (wins ?t) = mset (wins t)" using ins(2) ms by simp
    have e: "ReparentWindow env w p x y s =
        map_option (\<lambda>s'. (Success, s')) (if mapped (wheap s w) then MapWindow env w s4 else Some s4)"
      using tt s1(1) old False s4(1)
      by (simp add: ReparentWindow_def Let_def h1_def s3_def trace_event_def)
    note nd = \<open>\<not> (p \<in> set (wins u) \<or> \<not> optional_mem env)\<close>
    show ?thesis
    proof (cases "mapped (wheap s w)")
      case False
      then show ?thesis using moved [of s4 ?q] e s4(2,4) m4 mst g4 nd by simp
    next
      case True
      have wn4: "w \<in> set (wins ?t)" using mset_eq_setD [OF mst] wt by simp
      obtain s' where s': "MapWindow env w s4 = Some s'" "windows_ok root ?t s'" "flags_only s4 s'"
        "\<And>x. mapped (wheap s' x) = (mapped (wheap s4 x) \<or>
           x = w \<and> show_access env w \<and> (\<forall>p. parent (wheap s4 w) = Some p \<longrightarrow> \<not> redirected env p w s4))"
        by (rule MapWindow_ok [OF s4(2) wn4 m4, of env]) blast
      note f' = flags_only_place [OF s'(3)]
      have "placed (wheap s') z" if "z \<in> set (wins u)" for z by (rule placed_same [where h = "wheap s4", OF s4(4) [OF that] f' f'])
      then show ?thesis using moved [of s' ?q] e True m4 mst s' g4 f' nd by simp
    qed
  qed
qed

end
