(* ===== verification/Window_Circulate.thy ===== *)
theory Window_Circulate
  imports Window_Ops_Laws
begin

text \<open>
  Which window is circulated, and what circulating and restacking do to the tree of windows and its
  flags.
\<close>

section \<open>Circulating\<close>

text \<open>Whether a window is covered by, or covers, one of other siblings.\<close>

definition meets_any :: "win_env \<Rightarrow> wheap \<Rightarrow> wptr \<Rightarrow> wptr list \<Rightarrow> bool" where
  "meets_any env h w xs \<longleftrightarrow> (\<exists>x \<in> set xs. overlaps env h w (WindowExtents h w) x)"

lemma AnyWindowOverlapsMe_eq:
  assumes "children_ok h p (xs @ ys @ w # zs)" "last_of xs = q"
  shows "AnyWindowOverlapsMe env h w q b = Some (\<exists>x \<in> set ys. overlaps env h w b x)"
proof -
  have c: "children_ok h p ((xs @ ys) @ w # zs)" using assms(1) by simp
  have d: "distinct (xs @ ys @ w # zs)" using assms(1) by (simp add: children_ok_def)
  let ?P = "\<lambda>x. \<not> (q = Some x \<or> overlaps env h w b x)"
  have pv: "prevSib (h w) = last_of (xs @ ys)" by (rule children_neighbours(2) [OF c])
  have q: "q = None \<and> xs = [] \<or> (\<exists>as a. xs = as @ [a] \<and> q = Some a)" using assms(2) by (cases xs rule: rev_cases) auto
  have "q = None \<or> (\<exists>x \<in> set (xs @ ys). q = Some x \<or> overlaps env h w b x)" using q by auto
  from for_sibs_prev [OF c refl this]
  have f: "for_sibs h prevSib q (overlaps env h w b) (prevSib (h w)) = Some (first_of (dropWhile ?P (rev (xs @ ys))))"
    by (simp only: pv)
  have "(first_of (dropWhile ?P (rev (xs @ ys))) \<noteq> q) = (\<exists>x \<in> set ys. overlaps env h w b x)"
  proof (cases "\<exists>x \<in> set ys. overlaps env h w b x")
    case True
    then have "dropWhile ?P (rev ys) \<noteq> []" by (auto simp: dropWhile_eq_Nil_conv)
    then obtain x us where x: "dropWhile ?P (rev ys) = x # us" by (cases "dropWhile ?P (rev ys)") auto
    then have xy: "x \<in> set ys" using set_dropWhileD [of x ?P "rev ys"] by simp
    obtain z where "z \<in> set (rev ys)" "\<not> ?P z" using True by auto
    from dropWhile_append1 [where P = ?P, OF this, of "rev xs"] x
    have "dropWhile ?P (rev (xs @ ys)) = x # us @ rev xs" by simp
    moreover have "q \<noteq> Some x" using q xy d by auto
    ultimately show ?thesis using True by auto
  next
    case False
    have "q \<noteq> Some x" if "x \<in> set ys" for x using q that d by auto
    then have "dropWhile ?P (rev ys) = []" using False by (auto simp: dropWhile_eq_Nil_conv)
    then have "dropWhile ?P (rev (xs @ ys)) = dropWhile ?P (rev xs)" by (simp add: dropWhile_append)
    moreover have "first_of (dropWhile ?P (rev xs)) = q" using q by auto
    ultimately show ?thesis using False by simp
  qed
  then show ?thesis using f by (simp add: AnyWindowOverlapsMe_def)
qed

lemma IOverlapAnyWindow_eq:
  assumes "children_ok h p (xs @ w # ys)"
  shows "IOverlapAnyWindow env h w b = Some (\<exists>x \<in> set ys. overlaps env h w b x)"
proof -
  have c: "xs @ w # ys = (xs @ [w]) @ ys" by simp
  let ?P = "\<lambda>x. \<not> (None = Some x \<or> overlaps env h w b x)"
  have "for_sibs h nextSib None (overlaps env h w b) (first_of ys) = Some (first_of (dropWhile ?P ys))"
    by (rule for_sibs_next [OF assms c]) simp
  moreover have "(first_of (dropWhile ?P ys) \<noteq> None) = (\<exists>x \<in> set ys. overlaps env h w b x)"
    by (auto simp: dropWhile_eq_Nil_conv)
  ultimately show ?thesis unfolding IOverlapAnyWindow_def children_neighbours(1) [OF assms] by (simp only: option.map)
qed

text \<open>
  The lowest mapped window covered by one above it, and the highest mapped one that covers one below
  it; the windows are those under the head.
\<close>

fun lowest_covered :: "win_env \<Rightarrow> wheap \<Rightarrow> wptr list \<Rightarrow> wptr option" where
  "lowest_covered env h [] = None"
| "lowest_covered env h (w # higher) =
     (if mapped (h w) \<and> meets_any env h w higher then Some w else lowest_covered env h higher)"

fun highest_covering :: "win_env \<Rightarrow> wheap \<Rightarrow> wptr list \<Rightarrow> wptr option" where
  "highest_covering env h [] = None"
| "highest_covering env h (w # lower) =
     (if mapped (h w) \<and> meets_any env h w lower then Some w else highest_covering env h lower)"

lemma lowest_covered_Some:
  "lowest_covered env h (rev ys) = Some w \<Longrightarrow> \<exists>as bs. ys = as @ w # bs \<and> as \<noteq> [] \<and> mapped (h w) \<and> meets_any env h w as"
proof (induction ys rule: rev_induct)
  case (snoc y ys)
  show ?case
  proof (cases "mapped (h y) \<and> meets_any env h y (rev ys)")
    case True
    then have "y = w" using snoc.prems by simp
    then show ?thesis using True by (intro exI [of _ ys] exI [of _ "[]"]) (auto simp: meets_any_def)
  next
    case False
    then show ?thesis using snoc by fastforce
  qed
qed simp

lemma highest_covering_Some:
  "highest_covering env h ys = Some w \<Longrightarrow> \<exists>as bs. ys = as @ w # bs \<and> bs \<noteq> [] \<and> mapped (h w) \<and> meets_any env h w bs"
proof (induction ys)
  case (Cons y ys)
  show ?case
  proof (cases "mapped (h y) \<and> meets_any env h y ys")
    case True
    then show ?thesis using Cons.prems by (intro exI [of _ "[]"] exI [of _ ys]) (auto simp: meets_any_def)
  next
    case False
    then obtain as bs where "ys = as @ w # bs" "bs \<noteq> []" "mapped (h w)" "meets_any env h w bs" using Cons by auto
    then show ?thesis by (intro exI [of _ "y # as"] exI [of _ bs]) simp
  qed
qed simp

lemma find_lowest_eq:
  "children_ok h p (xs @ ys @ zs) \<Longrightarrow> last_of xs = q \<Longrightarrow>
     find_lowest env h q (if ys = [] then q else last_of ys) =
       Some (case lowest_covered env h (rev ys) of None \<Rightarrow> q | Some w \<Rightarrow> Some w)"
proof (induction ys arbitrary: zs rule: rev_induct)
  case Nil
  then show ?case by (subst find_lowest.simps) simp
next
  case (snoc y ys)
  have c: "children_ok h p (xs @ ys @ y # zs)" using snoc.prems(1) by simp
  have d: "distinct (xs @ ys @ y # zs)" using c by (simp add: children_ok_def)
  have "Some y \<noteq> q" using snoc.prems(2) last_of_Some [of xs y] d by auto
  moreover have "prevSib (h y) = (if ys = [] then q else last_of ys)"
    using children_neighbours(2) [of h p "xs @ ys" y zs] c snoc.prems(2) by simp
  moreover have "find_lowest env h q (if ys = [] then q else last_of ys) =
      Some (case lowest_covered env h (rev ys) of None \<Rightarrow> q | Some w \<Rightarrow> Some w)"
    by (rule snoc.IH [OF c snoc.prems(2)])
  moreover note AnyWindowOverlapsMe_eq [OF c snoc.prems(2), of env "WindowExtents h y"]
  ultimately show ?case
    by (subst find_lowest.simps) (simp add: meets_any_def)
qed

lemma find_highest_eq:
  "children_ok h p (xs @ ys) \<Longrightarrow> find_highest env h (first_of ys) = Some (highest_covering env h ys)"
proof (induction ys arbitrary: xs)
  case Nil
  then show ?case by (subst find_highest.simps) simp
next
  case (Cons y ys)
  have "nextSib (h y) = first_of ys" by (rule children_neighbours(1) [OF Cons.prems])
  moreover have "find_highest env h (first_of ys) = Some (highest_covering env h ys)"
    by (rule Cons.IH [of "xs @ [y]"]) (use Cons.prems in simp)
  moreover note IOverlapAnyWindow_eq [OF Cons.prems, of env "WindowExtents h y"]
  ultimately show ?case by (subst find_highest.simps) (simp add: meets_any_def)
qed

text \<open>A restacked tree keeps its flags.\<close>

lemma restack_ok:
  assumes ok: "windows_ok root t s" and p: "Tree p ts \<in> set (subs t)" and w: "w \<in> set (map wroot ts)"
    and b: "sib = None \<or> (\<exists>b \<in> set (map wroot ts). b \<noteq> w \<and> sib = Some b)"
  obtains s' where "ReflectStackChange w sib s = Some s'" "windows_ok root (edit p (restack_kids w sib) t) s'"
    "mset (wins (edit p (restack_kids w sib) t)) = mset (wins t)" "\<And>x. no_links (wheap s' x) = no_links (wheap s x)"
proof -
  note k = windows_okD [OF ok]
  obtain fc h' where m: "MoveWindowInStack w sib (wheap s) = Some (fc, h')" "window_tree h' root (edit p (restack_kids w sib) t)"
    "\<And>x. no_links (h' x) = no_links (wheap s x)" "mset (wins (edit p (restack_kids w sib) t)) = mset (wins t)"
    by (rule MoveWindowInStack_tree [OF k(1) p w b]) blast
  have "parent (wheap s w) = Some p" by (rule window_tree_kids(4) [OF k(1) p w])
  then have e: "ReflectStackChange w sib s = Some (s\<lparr>wheap := h'\<rparr>)" using m(1) by (simp add: ReflectStackChange_def)
  have "windows_ok root (edit p (restack_kids w sib) t) (s\<lparr>wheap := h'\<rparr>)"
    using m(2) k(6,7) no_links_fields [OF m(3)] mset_eq_setD [OF m(4)] by (simp add: windows_ok_def flags_ok_def)
  then show ?thesis by (rule that [OF e _ m(4)]) (simp add: m(3))
qed

text \<open>What circulating does with the children of a window.\<close>

definition circulated :: "win_env \<Rightarrow> wheap \<Rightarrow> wptr \<Rightarrow> bool \<Rightarrow> wtree list \<Rightarrow> wtree list" where
  "circulated env h p up ts =
     (let ys = after_head (RealChildHead env h p) (map wroot ts)
      in case (if up then lowest_covered env h (rev ys) else highest_covering env h ys) of
           None \<Rightarrow> ts
         | Some w \<Rightarrow>
             if RedirectSend env p \<and> takes_request env (CirculateRequest w up) then ts
             else restack_kids w (if up then first_of ys else None) ts)"

lemma CirculateWindow_ok:
  assumes ok: "windows_ok root t s" and p: "Tree p ts \<in> set (subs t)" and h: "head_ok env (wheap s) t"
  obtains s' where "CirculateWindow env p up s = Some s'"
    "windows_ok root (edit p (\<lambda>_. circulated env (wheap s) p up ts) t) s'"
    "mset (circulated env (wheap s) p up ts) = mset ts" "\<And>x. no_links (wheap s' x) = no_links (wheap s x)"
proof -
  note k = windows_okD [OF ok]
  note wk = window_tree_kids [OF k(1) p]
  let ?h = "wheap s" let ?q = "RealChildHead env ?h p" let ?ys = "after_head ?q (map wroot ts)"
  have q: "?q = None \<or> ?q \<in> Some ` set (map wroot ts)" using bspec [OF h [unfolded head_ok_def] p] by simp
  obtain xs where xs: "map wroot ts = xs @ ?ys" "last_of xs = ?q" by (rule after_head_split [OF wk(2) q])
  have c: "children_ok ?h p (xs @ ?ys @ [])" using wk(1) xs(1) by simp
  have dxs: "distinct (xs @ ?ys)" using c by (simp add: children_ok_def)
  have lc: "lastChild (?h p) = (if ?ys = [] then ?q else last_of ?ys)"
    using wk(1) xs by (metis children_ok_def last_of_simps(3))
  have fc: "(case ?q of Some q \<Rightarrow> nextSib (?h q) | None \<Rightarrow> firstChild (?h p)) = first_of ?ys"
  proof (cases ?q)
    case None
    then have "xs = []" using xs(2) by simp
    then show ?thesis using None wk(1) xs(1) by (simp add: children_ok_def)
  next
    case (Some b)
    then obtain as where "xs = as @ [b]" using xs(2) by (cases xs rule: rev_cases) auto
    then have "children_ok ?h p (as @ b # ?ys)" using c by simp
    then show ?thesis using Some children_neighbours(1) by simp
  qed
  let ?w = "if up then lowest_covered env ?h (rev ?ys) else highest_covering env ?h ?ys"
  have find: "(if up then find_lowest env ?h ?q (lastChild (?h p))
      else find_highest env ?h (case ?q of Some q \<Rightarrow> nextSib (?h q) | None \<Rightarrow> firstChild (?h p))) =
      Some (case ?w of None \<Rightarrow> if up then ?q else None | Some w \<Rightarrow> Some w)"
    using find_lowest_eq [OF c xs(2), of env] find_highest_eq [of ?h p xs ?ys env] c
    by (simp add: lc fc split: option.split)
  have inq: "Some w \<noteq> ?q" if "w \<in> set ?ys" for w
  proof
    assume "Some w = ?q"
    then have "w \<in> set xs" using xs(2) last_of_Some [of xs w] by simp
    then show False using that dxs by (simp add: disjoint_iff)
  qed
  show ?thesis
  proof (cases ?w)
    case None
    then have "circulated env ?h p up ts = ts" by (simp add: circulated_def Let_def)
    moreover have "CirculateWindow env p up s = Some s" using find None by (simp add: CirculateWindow_def Let_def)
    ultimately show ?thesis using that [of s] ok edit_same [OF k(3) p] by simp
  next
    case (Some w)
    have w: "w \<in> set ?ys" "up \<Longrightarrow> \<exists>b. b \<noteq> w \<and> b \<in> set ?ys \<and> first_of ?ys = Some b"
    proof -
      have "\<exists>as bs. ?ys = as @ w # bs \<and> (up \<longrightarrow> as \<noteq> [])"
        using Some lowest_covered_Some [of env ?h ?ys w] highest_covering_Some [of env ?h ?ys w] by (cases up) fastforce+
      then obtain as bs where ab: "?ys = as @ w # bs" "up \<longrightarrow> as \<noteq> []" by blast
      then show "w \<in> set ?ys" by simp
      assume up
      then obtain b as' where "as = b # as'" using ab(2) by (cases as) auto
      moreover have "distinct ?ys" using dxs by simp
      ultimately show "\<exists>b. b \<noteq> w \<and> b \<in> set ?ys \<and> first_of ?ys = Some b" using ab(1) by auto
    qed
    have sub: "set ?ys \<subseteq> set (map wroot ts)" using xs(1) by (metis Un_upper2 set_append)
    let ?sib = "if up then first_of ?ys else None"
    have sib: "?sib = None \<or> (\<exists>b \<in> set (map wroot ts). b \<noteq> w \<and> ?sib = Some b)" using w(2) sub by (cases up) auto
    have e: "CirculateWindow env p up s =
        (if RedirectSend env p \<and> takes_request env (CirculateRequest w up) then Some (trace_event (CirculateRequest w up) s)
         else ReflectStackChange w ?sib (trace_event (CirculateNotify w up) s))"
      using find Some inq [OF w(1)] fc by (simp add: CirculateWindow_def Let_def)
    have cc: "circulated env ?h p up ts = (if RedirectSend env p \<and> takes_request env (CirculateRequest w up) then ts
        else restack_kids w ?sib ts)"
      using Some by (simp add: circulated_def Let_def)
    show ?thesis
    proof (cases "RedirectSend env p \<and> takes_request env (CirculateRequest w up)")
      case True
      then show ?thesis using that [of "trace_event (CirculateRequest w up) s"] e cc ok edit_same [OF k(3) p] by simp
    next
      case False
      have ok': "windows_ok root t (trace_event (CirculateNotify w up) s)" using ok by simp
      have w': "w \<in> set (map wroot ts)" using w(1) sub by blast
      obtain s' where s': "ReflectStackChange w ?sib (trace_event (CirculateNotify w up) s) = Some s'"
        "windows_ok root (edit p (restack_kids w ?sib) t) s'" "\<And>x. no_links (wheap s' x) = no_links (wheap s x)"
        by (rule restack_ok [OF ok' p w' sib]) (simp add: trace_event_def)
      have "edit p (restack_kids w ?sib) t = edit p (\<lambda>_. restack_kids w ?sib ts) t"
        using edit_edit [of p "restack_kids w ?sib" "\<lambda>_. ts" t] edit_same [OF k(3) p] by simp
      then show ?thesis using that [of s'] e cc False s' mset_restack_kids by simp
    qed
  qed
qed

text \<open>The tree of a heap is one.\<close>

lemma children_unique: "children_ok h p ws \<Longrightarrow> children_ok h p ws' \<Longrightarrow> ws = ws'"
proof -
  assume c: "children_ok h p ws" "children_ok h p ws'"
  have "first_of xs = first_of ys \<Longrightarrow> ws = as @ xs \<Longrightarrow> ws' = bs @ ys \<Longrightarrow> xs = ys" for xs ys as bs
  proof (induction xs arbitrary: ys as bs)
    case Nil
    then show ?case by (cases ys) auto
  next
    case (Cons x xs)
    then obtain ys' where ys: "ys = x # ys'" by (cases ys) auto
    have "nextSib (h x) = first_of xs" using children_neighbours(1) [of h p as x xs] c(1) Cons.prems(2) by simp
    moreover have "nextSib (h x) = first_of ys'" using children_neighbours(1) [of h p bs x ys'] c(2) Cons.prems(3) ys by simp
    ultimately show ?case using Cons.IH [of ys' "as @ [x]" "bs @ [x]"] Cons.prems ys by simp
  qed
  from this [of ws ws' "[]" "[]"] show ?thesis using c by (simp add: children_ok_def)
qed

lemma rep_unique: "rep h t \<Longrightarrow> rep h t' \<Longrightarrow> wroot t = wroot t' \<Longrightarrow> t = t'"
proof (induction t arbitrary: t' rule: wins.induct)
  case (1 w ts)
  obtain ts' where t': "t' = Tree w ts'" using "1.prems"(3) by (cases t') auto
  have e: "map wroot ts = map wroot ts'" by (rule children_unique) (use "1.prems" t' in auto)
  have "ts = ts'"
  proof (rule nth_equalityI)
    show l: "length ts = length ts'" using e by (metis length_map)
    fix i assume i: "i < length ts"
    then have "wroot (ts ! i) = wroot (ts' ! i)" using e l by (metis nth_map)
    then show "ts ! i = ts' ! i" using "1.IH" [of "ts ! i" "ts' ! i"] "1.prems" t' i l by simp
  qed
  then show ?case by (simp add: t')
qed

lemma window_tree_unique: "window_tree h root t \<Longrightarrow> window_tree h root t' \<Longrightarrow> t = t'"
  using rep_unique by (auto simp: window_tree_def)

lemma after_head_set: "set (after_head q ws) \<subseteq> set ws"
  by (auto simp: after_head_def split: option.splits dest: in_set_dropD set_dropWhileD)

end
