(* ===== verification/Window_Stacking.thy ===== *)
theory Window_Stacking
  imports Window_Circulate
begin

text \<open>
  The stacking modes of a configure request: where \<open>WhereDoIGoInTheStack\<close> puts a window is what the modes
  mean for the list of siblings.
\<close>

section \<open>The meaning of the modes\<close>

definition put_above :: "wptr \<Rightarrow> wptr \<Rightarrow> wptr list \<Rightarrow> wptr list" where
  "put_above w s r = takeWhile (\<lambda>x. x \<noteq> s) r @ w # dropWhile (\<lambda>x. x \<noteq> s) r"

definition put_below :: "wptr \<Rightarrow> wptr \<Rightarrow> wptr list \<Rightarrow> wptr list" where
  "put_below w s r = takeWhile (\<lambda>x. x \<noteq> s) r @ s # w # tl (dropWhile (\<lambda>x. x \<noteq> s) r)"

text \<open>
  The stack from the top: \<open>xs\<close> down to the head of the real children, the windows \<open>as\<close> above \<open>w\<close>, the
  window, and those below. A window \<open>occludes\<close> another when it is above and they meet.
\<close>

definition protocol_stack ::
    "win_env \<Rightarrow> wheap \<Rightarrow> box \<Rightarrow> wptr list \<Rightarrow> wptr list \<Rightarrow> wptr \<Rightarrow> wptr list \<Rightarrow> wptr option \<Rightarrow> stack_mode \<Rightarrow> wptr list" where
  "protocol_stack env h b xs as w bs sib mode =
     (let r = xs @ as @ bs; stay = xs @ as @ w # bs; top = xs @ w # as @ bs; bottom = xs @ as @ bs @ [w];
          active = (mapped (h w) \<and> (case sib of Some s \<Rightarrow> mapped (h s) | None \<Rightarrow> True));
          occluded = (case sib of Some s \<Rightarrow> s \<in> set as \<and> border_meets env s b | None \<Rightarrow> (\<exists>x \<in> set as. overlaps env h w b x));
          occludes = (case sib of Some s \<Rightarrow> s \<in> set bs \<and> border_meets env s b | None \<Rightarrow> (\<exists>x \<in> set bs. overlaps env h w b x))
      in case mode of
           Above \<Rightarrow> (case sib of Some s \<Rightarrow> put_above w s r | None \<Rightarrow> top)
         | Below \<Rightarrow> (case sib of Some s \<Rightarrow> put_below w s r | None \<Rightarrow> bottom)
         | TopIf \<Rightarrow> if active \<and> occluded then top else stay
         | BottomIf \<Rightarrow> if active \<and> occludes then bottom else stay
         | Opposite \<Rightarrow> if active \<and> occluded then top else if active \<and> occludes then bottom else stay)"

section \<open>Lists of siblings\<close>

lemma restack_None: "w \<notin> set us \<Longrightarrow> restack (us @ w # vs) w None = us @ vs @ [w]"
  by (simp add: restack_def remove1_append)

lemma restack_stay:
  assumes "distinct (us @ w # vs)"
  shows "restack (us @ w # vs) w (first_of vs) = us @ w # vs"
proof (cases vs)
  case Nil
  then show ?thesis using assms by (simp add: restack_None)
next
  case (Cons v vs')
  have "takeWhile (\<lambda>x. x \<noteq> v) us = us" "dropWhile (\<lambda>x. x \<noteq> v) us = []" using assms Cons by auto
  then show ?thesis using assms Cons by (simp add: restack_def remove1_append takeWhile_append dropWhile_append)
qed

text \<open>To a place above, in front of a window that is not the last before the window, or further down.\<close>

lemma restack_up:
  assumes "distinct (cs @ d # ds @ w # vs)"
  shows "restack (cs @ d # ds @ w # vs) w (Some d) = cs @ w # d # ds @ vs"
proof -
  have "takeWhile (\<lambda>x. x \<noteq> d) cs = cs" "dropWhile (\<lambda>x. x \<noteq> d) cs = []" using assms by auto
  then show ?thesis using assms by (simp add: restack_def remove1_append takeWhile_append dropWhile_append)
qed

lemma restack_down:
  assumes "distinct (us @ w # cs @ d # ds)"
  shows "restack (us @ w # cs @ d # ds) w (Some d) = us @ cs @ w # d # ds"
proof -
  have "takeWhile (\<lambda>x. x \<noteq> d) (us @ cs) = us @ cs" "dropWhile (\<lambda>x. x \<noteq> d) (us @ cs) = []" using assms by auto
  then have "takeWhile (\<lambda>x. x \<noteq> d) (us @ cs @ d # ds) = us @ cs" "dropWhile (\<lambda>x. x \<noteq> d) (us @ cs @ d # ds) = d # ds"
    by (simp_all add: takeWhile_append dropWhile_append append_assoc [symmetric] del: append_assoc)
  then show ?thesis using assms by (simp add: restack_def remove1_append)
qed

lemma put_at:
  assumes "s \<notin> set cs"
  shows "put_above w s (cs @ s # ds) = cs @ w # s # ds" "put_below w s (cs @ s # ds) = cs @ s # w # ds"
proof -
  have "takeWhile (\<lambda>x. x \<noteq> s) cs = cs" "dropWhile (\<lambda>x. x \<noteq> s) cs = []" using assms by auto
  then show "put_above w s (cs @ s # ds) = cs @ w # s # ds" "put_below w s (cs @ s # ds) = cs @ s # w # ds"
    by (simp_all add: put_above_def put_below_def takeWhile_append dropWhile_append)
qed

lemma restack_above:
  assumes d: "distinct (us @ w # vs)" and s: "s \<in> set (us @ vs)"
  shows "restack (us @ w # vs) w (Some s) = put_above w s (us @ vs)"
proof (cases "s \<in> set us")
  case True
  then obtain cs ds where u: "us = cs @ s # ds" using split_list by metis
  have "put_above w s (cs @ s # ds @ vs) = cs @ w # s # ds @ vs" by (rule put_at(1)) (use d u in auto)
  then show ?thesis using restack_up [of cs s ds w vs] d u by simp
next
  case False
  then obtain cs ds where v: "vs = cs @ s # ds" using s split_list [of s vs] by auto
  have "put_above w s ((us @ cs) @ s # ds) = (us @ cs) @ w # s # ds" by (rule put_at(1)) (use d v in auto)
  then show ?thesis using restack_down [of us w cs s ds] d v by simp
qed

lemma restack_below:
  assumes c: "children_ok h p (us @ w # vs)" and s: "s \<in> set (us @ vs)"
  shows "restack (us @ w # vs) w (if nextSib (h s) \<noteq> Some w then nextSib (h s) else nextSib (h w)) = put_below w s (us @ vs)"
proof (cases "s \<in> set us")
  case True
  then obtain cs ds where u: "us = cs @ s # ds" using split_list by metis
  have d: "distinct (cs @ s # ds @ w # vs)" using c u by (simp add: children_ok_def)
  have n: "nextSib (h s) = first_of (ds @ w # vs)" "nextSib (h w) = first_of vs"
    using children_neighbours(1) [of h p cs s "ds @ w # vs"] children_neighbours(1) [OF c] c u by simp_all
  have pb: "put_below w s (us @ vs) = cs @ s # w # ds @ vs" using put_at(2) [of s cs w "ds @ vs"] d u by simp
  show ?thesis
  proof (cases ds)
    case Nil
    have "restack (us @ w # vs) w (first_of vs) = us @ w # vs" by (rule restack_stay) (use d u in simp)
    then show ?thesis using n pb u Nil by simp
  next
    case (Cons e es)
    then have "e \<noteq> w" using d by auto
    moreover have "restack ((cs @ [s]) @ e # es @ w # vs) w (Some e) = (cs @ [s]) @ w # e # es @ vs"
      by (rule restack_up) (use d Cons in simp)
    ultimately show ?thesis using n(1) pb u Cons by simp
  qed
next
  case False
  then obtain cs ds where v: "vs = cs @ s # ds" using s split_list [of s vs] by auto
  have d: "distinct (us @ w # cs @ s # ds)" using c v by (simp add: children_ok_def)
  have n: "nextSib (h s) = first_of ds"
    using children_neighbours(1) [of h p "us @ w # cs" s ds] c v by simp
  have pb: "put_below w s (us @ vs) = us @ cs @ s # w # ds" using put_at(2) [of s "us @ cs" w ds] d v by simp
  show ?thesis
  proof (cases ds)
    case Nil
    then show ?thesis using n pb v d by (simp add: restack_None)
  next
    case (Cons e es)
    then have "e \<noteq> w" using d by auto
    moreover have "restack (us @ w # (cs @ [s]) @ e # es) w (Some e) = us @ (cs @ [s]) @ w # e # es"
      by (rule restack_down) (use d Cons in simp)
    ultimately show ?thesis using n pb v Cons by simp
  qed
qed

lemma IsSiblingAboveMe_eq:
  assumes c: "children_ok h p (us @ w # vs)" and s: "s \<in> set (us @ vs)"
  shows "IsSiblingAboveMe h w s = Some (if s \<in> set us then Above else Below)"
proof -
  have d: "distinct (us @ w # vs)" "firstChild (h p) = first_of (us @ w # vs)" using c by (simp_all add: children_ok_def)
  have par: "parent (h w) = Some p" by (rule children_neighbours(3) [OF c])
  let ?P = "\<lambda>x. \<not> (None = Some x \<or> x = s \<or> x = w)"
  have f: "for_sibs h nextSib None (\<lambda>x. x = s \<or> x = w) (first_of (us @ w # vs)) = Some (first_of (dropWhile ?P (us @ w # vs)))"
    by (rule for_sibs_next [OF c, of "[]"]) simp_all
  have "first_of (dropWhile ?P (us @ w # vs)) = (if s \<in> set us then Some s else Some w)"
  proof (cases "s \<in> set us")
    case True
    then obtain cs ds where u: "us = cs @ s # ds" using split_list by metis
    have "dropWhile ?P cs = []" using d(1) u by auto
    then show ?thesis using True u by (simp add: dropWhile_append)
  next
    case False
    then have "dropWhile ?P us = []" using d(1) by auto
    then show ?thesis using False by (simp add: dropWhile_append)
  qed
  moreover have "s \<noteq> w" using s d(1) by auto
  ultimately show ?thesis using f d(2) par by (simp add: IsSiblingAboveMe_def)
qed

section \<open>The place in the stack\<close>

lemma first_real_child:
  assumes c: "children_ok h p (xs @ ys)" and q: "last_of xs = q"
  shows "(case q of Some q \<Rightarrow> nextSib (h q) | None \<Rightarrow> firstChild (h p)) = first_of ys"
proof (cases q)
  case None
  then show ?thesis using q c by (simp add: children_ok_def)
next
  case (Some b)
  then obtain as where "xs = as @ [b]" using q by (cases xs rule: rev_cases) auto
  then have "children_ok h p (as @ b # ys)" using c by simp
  then show ?thesis using Some children_neighbours(1) by simp
qed

lemma WhereDoIGoInTheStack_ok:
  assumes c: "children_ok h p (xs @ as @ w # bs)" and q: "last_of xs = RealChildHead env h p"
    and s: "sib = None \<or> (\<exists>b \<in> set (xs @ as @ bs). sib = Some b)"
    and head: "mode = TopIf \<or> mode = Opposite \<Longrightarrow> sib \<notin> Some ` set xs"
  shows "\<exists>r. WhereDoIGoInTheStack env h w sib x y wd ht mode = Some r \<and> (r = None \<or> (\<exists>b \<in> set (xs @ as @ bs). r = Some b)) \<and>
    restack (xs @ as @ w # bs) w r =
      protocol_stack env h (Box (short x) (short y) (short (x + wd)) (short (y + ht))) xs as w bs sib mode"
proof -
  let ?b = "Box (short x) (short y) (short (x + wd)) (short (y + ht))" and ?us = "xs @ as"
  have c': "children_ok h p (?us @ w # bs)" using c by simp
  have d: "distinct (?us @ w # bs)" using c by (simp add: children_ok_def)
  note nb = children_neighbours [OF c']
  have pF: "(case RealChildHead env h p of Some q \<Rightarrow> nextSib (h q) | None \<Rightarrow> firstChild (h p)) = first_of (as @ w # bs)"
    by (rule first_real_child [OF c q])
  define unmapped where "unmapped \<longleftrightarrow> \<not> mapped (h w) \<or> (case sib of Some s \<Rightarrow> \<not> mapped (h s) | None \<Rightarrow> False)"
  have only: "(Some w = firstChild (h p) \<and> Some w = lastChild (h p)) = (xs = [] \<and> as = [] \<and> bs = [])"
    using nb(4,5) d first_of_Some [of ?us w] last_of_Some [of bs w] by auto
  have stay: "restack (?us @ w # bs) w (nextSib (h w)) = ?us @ w # bs" unfolding nb(1) by (rule restack_stay [OF d])
  have bot: "restack (?us @ w # bs) w None = ?us @ bs @ [w]" by (rule restack_None) (use d in simp)
  have top: "restack (?us @ w # bs) w (first_of (as @ w # bs)) = xs @ w # as @ bs" if ne: "as \<noteq> []"
  proof -
    obtain a as' where a: "as = a # as'" using ne by (cases as) auto
    have "restack (xs @ a # as' @ w # bs) w (Some a) = xs @ w # a # as' @ bs" by (rule restack_up) (use d a in simp)
    then show ?thesis by (simp add: a)
  qed
  have over: "AnyWindowOverlapsMe env h w (RealChildHead env h p) ?b = Some (\<exists>x \<in> set as. overlaps env h w ?b x)"
    by (rule AnyWindowOverlapsMe_eq [OF c q])
  have under: "IOverlapAnyWindow env h w ?b = Some (\<exists>x \<in> set bs. overlaps env h w ?b x)"
    by (rule IOverlapAnyWindow_eq [OF c'])
  have first: "first_of (as @ w # bs) = None \<or> (\<exists>b \<in> set (xs @ as @ bs). first_of (as @ w # bs) = Some b)" if "as \<noteq> []"
    using that by (cases as) auto
  have nxt: "nextSib (h w) = None \<or> (\<exists>b \<in> set (xs @ as @ bs). nextSib (h w) = Some b)"
    unfolding nb(1) by (cases bs) auto
  show ?thesis
  proof (cases "xs = [] \<and> as = [] \<and> bs = []")
    case True
    then have o: "(Some w = firstChild (h p) \<and> Some w = lastChild (h p)) = True" using only by blast
    have "WhereDoIGoInTheStack env h w sib x y wd ht mode = Some None"
      unfolding WhereDoIGoInTheStack_def nb(3) option.case o by simp
    moreover have "sib = None" using s True by simp
    ultimately show ?thesis using True by (cases mode) (simp_all add: protocol_stack_def restack_def)
  next
    case False
    note w = WhereDoIGoInTheStack_def [of env h w sib x y wd ht mode, unfolded nb(3) option.case Let_def pF unmapped_def [symmetric]]
    have act: "(\<not> unmapped) = (mapped (h w) \<and> (case sib of Some s \<Rightarrow> mapped (h s) | None \<Rightarrow> True))"
      by (auto simp: unmapped_def split: option.split)
    have only': "(Some w = firstChild (h p) \<and> Some w = lastChild (h p)) = False" using only False by simp
    note p = protocol_stack_def [of env h ?b xs as w bs sib mode, unfolded Let_def act [symmetric]]
    show ?thesis
    proof (cases sib)
      case None
      have fw: "(Some w = first_of (as @ w # bs)) = (as = [])" using d by (cases as) auto
      define pF where "pF = first_of (as @ w # bs)"
      note f = fw [folded pF_def] top [folded pF_def] first [folded pF_def]
      show ?thesis unfolding w p only' if_False pF_def [symmetric] over under
        using stay bot f nxt None by (cases mode) (auto split: if_splits)
    next
      case (Some s)
      then have sin: "s \<in> set (?us @ bs)" "s \<notin> set ?us \<longleftrightarrow> s \<in> set bs" using s d by auto
      note ia = IsSiblingAboveMe_eq [OF c' sin(1)]
      have a: "restack (?us @ w # bs) w (Some s) = put_above w s (?us @ bs)" by (rule restack_above [OF d sin(1)])
      have b: "restack (?us @ w # bs) w (if nextSib (h s) \<noteq> Some w then nextSib (h s) else nextSib (h w)) = put_below w s (?us @ bs)"
        by (rule restack_below [OF c' sin(1)])
      have "nextSib (h s) = next_in (?us @ w # bs) s" using c' sin(1) by (auto simp: children_ok_def)
      then have sn: "nextSib (h s) = None \<or> (\<exists>b \<in> set (?us @ w # bs). nextSib (h s) = Some b)"
        using next_in_Some [of "?us @ w # bs" s] by (cases "nextSib (h s)") auto
      have sx: "s \<notin> set xs" if "mode = TopIf \<or> mode = Opposite" using head [OF that] Some by auto
      have ne: "as \<noteq> []" if "s \<in> set ?us" "s \<notin> set xs" using that by auto
      show ?thesis
      proof (cases mode)
        case Above
        then show ?thesis unfolding w p only' if_False using Some sin(1) a by auto
      next
        case Below
        then show ?thesis unfolding w p only' if_False using Some sn nxt b by auto
      next
        case TopIf
        then have "s \<notin> set xs" by (simp add: sx)
        then show ?thesis unfolding w p only' if_False
          using TopIf Some ia stay top first nxt ne by (cases "s \<in> set as") auto
      next
        case BottomIf
        then show ?thesis unfolding w p only' if_False
          using Some ia stay bot nxt sin(2) by (cases "s \<in> set bs") auto
      next
        case Opposite
        then have x: "s \<notin> set xs" by (simp add: sx)
        then have "s \<in> set as \<longleftrightarrow> s \<notin> set bs" using sin by auto
        then show ?thesis unfolding w p only' if_False
          using Opposite Some ia stay top bot first nxt ne x by (cases "s \<in> set as") auto
      qed
    qed
  qed
qed

section \<open>Requests that find a place\<close>

text \<open>The windows down to the head of the real children: those of a screen saver and of the overlay.\<close>

definition above_head :: "win_env \<Rightarrow> wheap \<Rightarrow> wptr \<Rightarrow> bool" where
  "above_head env h b \<longleftrightarrow> (case parent (h b) of None \<Rightarrow> False
     | Some p \<Rightarrow> (case RealChildHead env h p of None \<Rightarrow> False | Some q \<Rightarrow> q = b \<or> prevSib (h q) = Some b))"

definition first_real :: "win_env \<Rightarrow> wheap \<Rightarrow> wptr \<Rightarrow> wptr option" where
  "first_real env h w =
     (case parent (h w) of None \<Rightarrow> None
      | Some p \<Rightarrow> (case RealChildHead env h p of Some q \<Rightarrow> nextSib (h q) | None \<Rightarrow> firstChild (h p)))"

text \<open>
  What the modes \<open>TopIf\<close> and \<open>Opposite\<close> need of a mapped window: without a sibling it is not one of these
  windows, and where the sibling is one of them, it is not the first below them.
\<close>

definition stack_safe :: "win_env \<Rightarrow> wheap \<Rightarrow> wptr \<Rightarrow> wptr option \<Rightarrow> stack_mode \<Rightarrow> bool" where
  "stack_safe env h w sib mode \<longleftrightarrow> (mapped (h w) \<and> (mode = TopIf \<or> mode = Opposite) \<longrightarrow>
     (case sib of None \<Rightarrow> \<not> above_head env h w
      | Some b \<Rightarrow> \<not> (above_head env h b \<and> first_real env h w = Some w)))"

lemma real_head_split:
  assumes c: "children_ok h p ws"
  obtains xs ys where "ws = xs @ ys" "last_of xs = RealChildHead env h p" "\<And>x. x \<in> set xs \<Longrightarrow> above_head env h x"
proof (rule RealChildHead_cases [OF c, of env])
  assume "RealChildHead env h p = None"
  then show ?thesis using that [of "[]" ws] by simp
next
  fix q ys assume first: "RealChildHead env h p = Some q" "ws = q # ys"
  then have "parent (h q) = Some p" using c by (simp add: children_ok_def)
  then show ?thesis using first that [of "[q]" ys] by (simp add: above_head_def)
next
  fix a q ys assume second: "RealChildHead env h p = Some q" "ws = a # q # ys"
  have c': "children_ok h p ([a] @ q # ys)" using c second by simp
  have "parent (h q) = Some p" "parent (h a) = Some p" using c second by (simp_all add: children_ok_def)
  moreover have "prevSib (h q) = Some a" using children_neighbours(2) [OF c'] by simp
  ultimately have a: "above_head env h x" if "x \<in> set [a, q]" for x using that second(1) by (auto simp: above_head_def)
  show ?thesis by (rule that [OF _ _ a, of "[a, q]" ys]) (use second in simp_all)
qed

lemma WhereDoIGoInTheStack_returns:
  assumes c: "children_ok h p ws" and w: "w \<in> set ws"
    and s: "sib = None \<or> (\<exists>b \<in> set ws. b \<noteq> w \<and> sib = Some b)" and safe: "stack_safe env h w sib mode"
  shows "\<exists>r. WhereDoIGoInTheStack env h w sib x y wd ht mode = Some r \<and> (r = None \<or> (\<exists>b \<in> set ws. b \<noteq> w \<and> r = Some b))"
proof -
  let ?b = "Box (short x) (short y) (short (x + wd)) (short (y + ht))"
  define ok where "ok r \<longleftrightarrow> r = None \<or> (\<exists>b \<in> set ws. b \<noteq> w \<and> r = Some b)" for r
  have none: "ok None" by (simp add: ok_def)
  obtain us bs where ws: "ws = us @ w # bs" using w split_list by metis
  obtain xs ys where xs: "ws = xs @ ys" "last_of xs = RealChildHead env h p" "\<And>x. x \<in> set xs \<Longrightarrow> above_head env h x"
    by (rule real_head_split [OF c, of env]) blast
  have c': "children_ok h p (us @ w # bs)" using c ws by simp
  have d: "distinct (us @ w # bs)" using c' by (simp add: children_ok_def)
  note nb = children_neighbours [OF c']
  define pF where "pF = (case RealChildHead env h p of Some q \<Rightarrow> nextSib (h q) | None \<Rightarrow> firstChild (h p))"
  have pF: "pF = first_of ys" "first_real env h w = pF"
    using first_real_child [of h p xs ys] c xs(1,2) nb(3) by (simp_all add: pF_def first_real_def)
  have inF: "pF \<noteq> Some w \<Longrightarrow> ok pF" using pF(1) xs(1) by (cases ys) (auto simp: ok_def)
  have stay: "ok (nextSib (h w))" unfolding nb(1) using d ws by (cases bs) (auto simp: ok_def)
  define unmapped where "unmapped \<longleftrightarrow> \<not> mapped (h w) \<or> (case sib of Some s \<Rightarrow> \<not> mapped (h s) | None \<Rightarrow> False)"
  note W = WhereDoIGoInTheStack_def [of env h w sib x y wd ht mode, unfolded nb(3) option.case Let_def
      pF_def [symmetric] unmapped_def [symmetric]]
  have under: "IOverlapAnyWindow env h w ?b = Some (\<exists>x \<in> set bs. overlaps env h w ?b x)" by (rule IOverlapAnyWindow_eq [OF c'])
  let ?e = "WhereDoIGoInTheStack env h w sib x y wd ht mode"
  have "\<exists>r. ?e = Some r \<and> ok r"
  proof (cases sib)
    case None
    have below: "\<exists>as. us = xs @ as" if "unmapped = False" "mode = TopIf \<or> mode = Opposite"
    proof -
      have "\<not> above_head env h w" using safe None that by (simp add: stack_safe_def unmapped_def)
      then have "w \<notin> set xs" using xs(3) by blast
      then show ?thesis using xs(1) ws by (auto simp: append_eq_append_conv2 Cons_eq_append_conv)
    qed
    have over: "\<exists>o1. AnyWindowOverlapsMe env h w (RealChildHead env h p) ?b = Some o1 \<and> (o1 \<longrightarrow> pF \<noteq> Some w)"
      if m: "unmapped = False" "mode = TopIf \<or> mode = Opposite"
    proof -
      obtain as where as: "us = xs @ as" using below [OF m] by blast
      have "children_ok h p (xs @ as @ w # bs)" using c' as by simp
      from AnyWindowOverlapsMe_eq [OF this xs(2)]
      have "AnyWindowOverlapsMe env h w (RealChildHead env h p) ?b = Some (\<exists>x \<in> set as. overlaps env h w ?b x)" .
      moreover have "pF \<noteq> Some w" if "as \<noteq> []"
        using that pF(1) xs(1) ws as d by (cases as) auto
      ultimately show ?thesis by (cases as) auto
    qed
    show ?thesis
    proof (cases unmapped)
      case True
      then show ?thesis unfolding W using None stay none inF by (cases mode) auto
    next
      case False
      note over' = over [OF False [THEN Eq_FalseI [THEN meta_eq_to_obj_eq]]]
      show ?thesis
      proof (cases "mode = TopIf \<or> mode = Opposite")
        case True
        obtain o1 where o1: "AnyWindowOverlapsMe env h w (RealChildHead env h p) ?b = Some o1" "o1 \<longrightarrow> pF \<noteq> Some w"
          using over' [OF True] by blast
        have "ok (if o1 then pF else nextSib (h w))" using inF o1(2) stay by simp
        then show ?thesis unfolding W o1(1) under using None stay none True False by (cases o1) auto
      next
        case other: False
        then show ?thesis unfolding W under using None stay none inF False by (cases mode) auto
      qed
    qed
  next
    case (Some s)
    then have sin: "s \<in> set (us @ bs)" "s \<in> set ws" "s \<noteq> w" using assms(3) ws by auto
    note ia = IsSiblingAboveMe_eq [OF c' sin(1)]
    have "nextSib (h s) = next_in ws s" using c sin(2) by (auto simp: children_ok_def)
    then have sn: "nextSib (h s) = None \<or> (\<exists>b \<in> set ws. nextSib (h s) = Some b)"
      using next_in_Some [of ws s] by (cases "nextSib (h s)") auto
    have top: "pF \<noteq> Some w" if "unmapped = False" "mode = TopIf \<or> mode = Opposite" "s \<in> set us"
    proof
      assume "pF = Some w"
      moreover have "\<not> (above_head env h s \<and> pF = Some w)"
        using safe that(1,2) Some pF(2) by (auto simp: stack_safe_def unmapped_def)
      ultimately have "s \<notin> set xs" using xs(3) by blast
      moreover obtain ys' where "ys = w # ys'" using \<open>pF = Some w\<close> pF(1) by (cases ys) auto
      then have e: "us @ w # bs = xs @ w # ys'" using xs(1) ws by simp
      have "w \<notin> set us" "w \<notin> set bs" using d by simp_all
      then have "us = xs" using append_Cons_eq_iff [of w us bs xs ys'] e by blast
      ultimately show False using that(3) by simp
    qed
    have s': "ok (Some s)" using sin by (simp add: ok_def)
    have n': "ok (if nextSib (h s) \<noteq> Some w then nextSib (h s) else nextSib (h w))"
      using sn stay by (auto simp: ok_def)
    show ?thesis
    proof (cases unmapped)
      case True
      then show ?thesis unfolding W using Some stay none s' n' by (cases mode) auto
    next
      case False
      show ?thesis
      proof (cases "s \<in> set us")
        case True
        have "ok pF" if "mode = TopIf \<or> mode = Opposite" by (rule inF [OF top]) (use False True that in simp_all)
        then show ?thesis unfolding W using Some stay none s' n' ia True False by (cases mode) auto
      next
        case below: False
        then show ?thesis unfolding W using Some stay none s' n' ia False by (cases mode) auto
      qed
    qed
  qed
  then show ?thesis by (simp add: ok_def)
qed

section \<open>The screen saver window\<close>

text \<open>
  The head of the real children, when a screen saver shows, is a window like others for a configure
  request. Its neighbours are then not what the code relies on.
\<close>

lemma endless_sibs_aux:
  "for_sibs h nx e st c = Some r \<Longrightarrow> nx (h w) = Some w \<longrightarrow> e = None \<longrightarrow> st = (\<lambda>_. False) \<longrightarrow> c \<noteq> Some w"
  by (erule for_sibs.raw_induct [rotated, where P = "\<lambda>h nx e st c r. nx (h w) = Some w \<longrightarrow> e = None \<longrightarrow> st = (\<lambda>_. False) \<longrightarrow> c \<noteq> Some w"])
    (clarsimp, blast)

lemma endless_sibs: "nextSib (h w) = Some w \<Longrightarrow> for_sibs h nextSib None (\<lambda>_. False) (Some w) = None"
  using endless_sibs_aux [of h nextSib None "\<lambda>_. False" "Some w"]
  by (cases "for_sibs h nextSib None (\<lambda>_. False) (Some w)") auto

lemma head_not_below_itself:
  assumes c: "children_ok h p (q # w # bs)" and q: "RealChildHead env h p = Some q" and m: "mapped (h q)"
  shows "WhereDoIGoInTheStack env h q None x y wd ht TopIf = None"
    "WhereDoIGoInTheStack env h q None x y wd ht Opposite = None"
proof -
  have c': "children_ok h p ([] @ q # w # bs)" using c by simp
  note nb = children_neighbours [OF c']
  have p: "prevSib (h q) = None" using nb(2) by simp
  have a: "AnyWindowOverlapsMe env h q (Some q) b = None" for b
    unfolding AnyWindowOverlapsMe_def p by (subst for_sibs.simps) simp
  have l: "(Some q = firstChild (h p) \<and> Some q = lastChild (h p)) = False"
    using nb(5,6) last_of_Some [of "w # bs" q] by auto
  show "WhereDoIGoInTheStack env h q None x y wd ht TopIf = None"
    "WhereDoIGoInTheStack env h q None x y wd ht Opposite = None"
    unfolding WhereDoIGoInTheStack_def nb(3) option.case l if_False Let_def stack_mode.case
    by (simp_all add: q m a)
qed

lemma first_below_head:
  assumes c: "children_ok h p (q # w # bs)" and q: "RealChildHead env h p = Some q" and m: "mapped (h q)" "mapped (h w)"
    and b: "border_meets env q (Box (short x) (short y) (short (x + wd)) (short (y + ht)))"
  shows "WhereDoIGoInTheStack env h w (Some q) x y wd ht TopIf = Some (Some w)"
    "WhereDoIGoInTheStack env h w (Some q) x y wd ht Opposite = Some (Some w)"
proof -
  have c': "children_ok h p ([q] @ w # bs)" using c by simp
  note nb = children_neighbours [OF c']
  have n: "nextSib (h q) = Some w" using children_neighbours(1) [of h p "[]" q "w # bs"] c by simp
  have l: "(Some w = firstChild (h p) \<and> Some w = lastChild (h p)) = False" using nb(4,6) by auto
  have s: "IsSiblingAboveMe h w q = Some Above" using IsSiblingAboveMe_eq [OF c', of q] by simp
  show "WhereDoIGoInTheStack env h w (Some q) x y wd ht TopIf = Some (Some w)"
    "WhereDoIGoInTheStack env h w (Some q) x y wd ht Opposite = Some (Some w)"
    unfolding WhereDoIGoInTheStack_def nb(3) option.case l if_False Let_def stack_mode.case
    by (simp_all add: q m b s n)
qed

text \<open>A window moved in front of itself becomes its own sibling.\<close>

lemma move_before_itself:
  assumes c: "children_ok h p (q # w # bs)"
  obtains fc h' where "MoveWindowInStack w (Some w) h = Some (fc, h')" "nextSib (h' w) = Some w"
    "for_sibs h' nextSib None (\<lambda>_. False) (firstChild (h' p)) = None"
proof -
  have c': "children_ok h p ([q] @ w # bs)" using c by simp
  note nb = children_neighbours [OF c']
  have d: "q \<noteq> w" "q \<noteq> p" "w \<noteq> p" "w \<notin> set bs" "q \<notin> set bs" "p \<notin> set bs" using nb(6,7) by auto
  have f: "nextSib (h w) = first_of bs" "prevSib (h w) = Some q" "firstChild (h p) = Some q"
    using nb(1,2,4) by simp_all
  have nw: "nextSib (h w) \<noteq> Some w" "nextSib (h w) \<noteq> Some q" using f(1) first_of_Some [of bs] d by fastforce+
  define h' where "h' = move_middle p w w h"
  have h': "nextSib (h' w) = Some w" "nextSib (h' q) = Some w" "firstChild (h' p) = Some q"
    using d f nw
    by (cases bs; simp add: h'_def move_middle_def Let_def if_ptr_def set_next_def set_prev_def set_last_def set_first_def)+
  have end1: "for_sibs h' nextSib None (\<lambda>_. False) (firstChild (h' p)) = None"
    unfolding h'(3) by (subst for_sibs.simps) (simp add: h'(2) endless_sibs [where h = h', OF h'(1)])
  have fc: "for_sibs h' nextSib (nextSib (h w)) (\<lambda>x. x = w) (firstChild (h' p)) = Some (Some w)"
    unfolding h'(3) using nw d(1) h'(2) by (subst for_sibs.simps, simp, subst for_sibs.simps) auto
  have e: "\<exists>fc. MoveWindowInStack w (Some w) h = Some (fc, h')"
    using nw d(1) f(3) nb(3) fc by (auto simp: MoveWindowInStack_def h'_def [symmetric] Let_def)
  then show ?thesis using that h'(1) end1 by blast
qed

end
