(* ===== verification/Window_Configure_Laws.thy ===== *)
theory Window_Configure_Laws
  imports Window_Configure Window_Stacking
begin

text \<open>
  A configure request that goes through gives the window the place, size, border and position in the
  stack it asks for, and moves every window below with it.
\<close>

section \<open>The arguments\<close>

abbreviation nbit :: "u32 \<Rightarrow> nat \<Rightarrow> nat" where
  "nbit msk m \<equiv> (if bit msk m then 1 else 0)"

lemma GET_ok:
  assumes "nbit msk m \<le> length vs"
  obtains x vs' where "GET msk m conv f vs = Some (x, vs')" "length vs' + nbit msk m = length vs" "\<not> bit msk m \<Longrightarrow> x = f"
  using assms by (cases vs) (auto simp: GET_def split: if_splits)

lemma GET_off: "\<not> bit msk m \<Longrightarrow> GET msk m conv f vs = Some (f, vs)"
  by (simp add: GET_def)

lemma get_place_ok:
  assumes "nbit msk CWX + nbit msk CWY + nbit msk CWWidth + nbit msk CWHeight \<le> length vs"
  shows "\<exists>r. get_place msk vs c = Some r \<and>
    (\<forall>act c' vs'. r = Inr (act, c', vs') \<longrightarrow>
      length vs' + nbit msk CWX + nbit msk CWY + nbit msk CWWidth + nbit msk CWHeight = length vs)"
proof (cases "\<not> bit msk CWX \<and> \<not> bit msk CWY \<and> \<not> bit msk CWWidth \<and> \<not> bit msk CWHeight")
  case True
  then show ?thesis by (simp add: get_place_def)
next
  case False
  have "nbit msk CWX \<le> length vs" using assms by linarith
  then obtain x vs1 where 1: "GET msk CWX INT16 (cf_x c) vs = Some (x, vs1)" "length vs1 + nbit msk CWX = length vs"
    by (rule GET_ok) blast
  have "nbit msk CWY \<le> length vs1" using assms 1(2) by linarith
  then obtain y vs2 where 2: "GET msk CWY INT16 (cf_y c) vs1 = Some (y, vs2)" "length vs2 + nbit msk CWY = length vs1"
    by (rule GET_ok) blast
  have "nbit msk CWWidth \<le> length vs2" using assms 1(2) 2(2) by linarith
  then obtain w vs3 where 3: "GET msk CWWidth CARD16 (cf_width c) vs2 = Some (w, vs3)" "length vs3 + nbit msk CWWidth = length vs2"
    by (rule GET_ok) blast
  have "nbit msk CWHeight \<le> length vs3" using assms 1(2) 2(2) 3(2) by linarith
  then obtain h vs4 where 4: "GET msk CWHeight CARD16 (cf_height c) vs3 = Some (h, vs4)" "length vs4 + nbit msk CWHeight = length vs3"
    by (rule GET_ok) blast
  show ?thesis
    unfolding get_place_def if_not_P [OF False] 1(1) 2(1) 3(1) 4(1) option.case prod.case
    using 1(2) 2(2) 3(2) 4(2) by (auto split: if_splits)
qed

lemma get_place_keeps:
  assumes "get_place msk vs c = Some (Inr (act, c', vs'))"
  shows "\<not> bit msk CWX \<Longrightarrow> cf_x c' = cf_x c" "\<not> bit msk CWY \<Longrightarrow> cf_y c' = cf_y c"
    "act \<noteq> RESIZE_WIN \<Longrightarrow> cf_width c' = cf_width c \<and> cf_height c' = cf_height c"
    "cf_border c' = cf_border c" "cf_sibling c' = cf_sibling c" "act \<noteq> REBORDER_WIN"
    "act = RESTACK_WIN \<Longrightarrow> \<not> bit msk CWX \<and> \<not> bit msk CWY"
    "act = MOVE_WIN \<Longrightarrow> bit msk CWX \<or> bit msk CWY"
  using assms by (auto simp: get_place_def GET_off split: if_splits option.splits)

lemma GET_16:
  assumes "GET msk m CARD16 f vs = Some (x, vs')" "f mod 65536 = f"
  shows "x mod 65536 = x"
  using assms by (auto simp: GET_def CARD16_def split: if_splits list.splits)

lemma get_place_16:
  assumes "get_place msk vs c = Some (Inr (act, c', vs'))" "cf_width c mod 65536 = cf_width c" "cf_height c mod 65536 = cf_height c"
  shows "cf_width c' mod 65536 = cf_width c' \<and> cf_height c' mod 65536 = cf_height c'"
  using assms by (auto simp: get_place_def GET_16 split: if_splits option.splits)

lemma get_others_some: "length (filter (\<lambda>b. b < 7) bs) \<le> length vs \<Longrightarrow> get_others lookup h w bs vs c \<noteq> None"
proof (induction bs arbitrary: vs c)
  case (Cons b bs)
  show ?case
  proof (cases "b \<noteq> CWBorderWidth \<and> b \<noteq> CWSibling \<and> b \<noteq> CWStackMode")
    case False
    then have "b < 7" by (auto simp: cw_defs)
    then obtain v vs1 where vs: "vs = v # vs1" "length (filter (\<lambda>b. b < 7) bs) \<le> length vs1" using Cons.prems by (cases vs) auto
    show ?thesis using Cons.IH [OF vs(2)] by (auto simp: vs(1) split: sum.split option.split)
  qed auto
qed simp

lemma get_others_keeps:
  "get_others lookup h w bs vs c = Some (Inr c') \<Longrightarrow>
     cf_x c' = cf_x c \<and> cf_y c' = cf_y c \<and> cf_width c' = cf_width c \<and> cf_height c' = cf_height c \<and>
     (CWBorderWidth \<notin> set bs \<longrightarrow> cf_border c' = cf_border c) \<and>
     (cf_sibling c' = cf_sibling c \<or>
      (\<exists>b v. cf_sibling c' = Some b \<and> lookup v = Inr b \<and> parent (h b) = parent (h w) \<and> b \<noteq> w))"
proof (induction bs arbitrary: vs c)
  case (Cons b bs)
  then show ?case
    by (fastforce split: if_splits list.splits sum.splits option.splits)
qed simp

lemma Ones_split:
  "Ones msk = nbit msk CWX + nbit msk CWY + nbit msk CWWidth + nbit msk CWHeight + length (other_bits msk)"
proof -
  have "[0..<32] = [0, 1, 2, 3] @ [4..<32::nat]" by (simp add: upt_conv_Cons numeral_eq_Suc)
  moreover have "length (filter (bit msk) [0, 1, 2, 3]) = nbit msk CWX + nbit msk CWY + nbit msk CWWidth + nbit msk CWHeight"
    by (simp add: cw_defs)
  ultimately show ?thesis by (simp only: Ones_def filter_append length_append other_bits_def)
qed

text \<open>A list as long as the mask demands is never read past its end.\<close>

lemma configure_args_some:
  assumes "Ones msk = length vlist"
  shows "configure_args lookup h w msk vlist \<noteq> None"
proof -
  obtain r where r: "get_place msk vlist (conf_of h w) = Some r"
    "\<And>act c' vs'. r = Inr (act, c', vs') \<Longrightarrow>
      length vs' + nbit msk CWX + nbit msk CWY + nbit msk CWWidth + nbit msk CWHeight = length vlist"
    using get_place_ok [of msk vlist "conf_of h w"] assms Ones_split [of msk] by auto
  show ?thesis
  proof (cases r)
    case (Inl e)
    then show ?thesis using r(1) by (simp add: configure_args_def)
  next
    case (Inr q)
    obtain act c vs where q: "q = (act, c, vs)" by (cases q)
    have "length (other_bits msk) = length vs" using r(2) Inr q assms Ones_split [of msk] by simp
    moreover have "length (filter (\<lambda>b. b < 7) (other_bits msk)) \<le> length (other_bits msk)"
      by (rule length_filter_le)
    ultimately have "get_others lookup h w (other_bits msk) vs c \<noteq> None" by (intro get_others_some) simp
    then show ?thesis using r(1) Inr q by (auto simp: configure_args_def split: sum.split option.split)
  qed
qed

lemma two_stages:
  assumes "(if a then Some (Inl x) else if b then Some (Inl y)
     else case g of None \<Rightarrow> None | Some (Inl e) \<Rightarrow> Some (Inl e)
          | Some (Inr (act, c, vs)) \<Rightarrow>
              (case f vs c of None \<Rightarrow> None | Some (Inl e) \<Rightarrow> Some (Inl e) | Some (Inr c1) \<Rightarrow> Some (Inr (act, c1)))) = Some (Inr (act, c))"
  obtains c1 vs where "g = Some (Inr (act, c1, vs))" "f vs c1 = Some (Inr c)"
  using assms by (auto split: if_split_asm option.split_asm sum.split_asm prod.split_asm)

lemma configure_args_facts:
  assumes "configure_args lookup h w msk vlist = Some (Inr (act, c))"
  shows "\<not> bit msk CWX \<Longrightarrow> cf_x c = cf_x (conf_of h w)" "\<not> bit msk CWY \<Longrightarrow> cf_y c = cf_y (conf_of h w)"
    "act \<noteq> RESIZE_WIN \<Longrightarrow> cf_width c = win_width (h w) \<and> cf_height c = win_height (h w)"
    "\<not> bit msk CWBorderWidth \<Longrightarrow> cf_border c = borderWidth (h w)" "act \<noteq> REBORDER_WIN"
    "act = RESTACK_WIN \<Longrightarrow> \<not> bit msk CWX \<and> \<not> bit msk CWY"
    "cf_sibling c = None \<or> (\<exists>b v. cf_sibling c = Some b \<and> lookup v = Inr b \<and> parent (h b) = parent (h w) \<and> b \<noteq> w)"
    "cf_width c mod 65536 = cf_width c" "cf_height c mod 65536 = cf_height c"
proof -
  obtain c1 vs where 1: "get_place msk vlist (conf_of h w) = Some (Inr (act, c1, vs))"
    and 2: "get_others lookup h w (other_bits msk) vs c1 = Some (Inr c)"
    by (rule two_stages [OF assms [unfolded configure_args_def]])
  note a = get_place_keeps [OF 1] and b = get_others_keeps [OF 2]
  have w: "cf_width (conf_of h w) = win_width (h w)" "cf_height (conf_of h w) = win_height (h w)"
    "cf_border (conf_of h w) = borderWidth (h w)" "cf_sibling (conf_of h w) = None"
    by (simp_all add: conf_of_def Let_def)
  have o: "\<not> bit msk CWBorderWidth \<Longrightarrow> CWBorderWidth \<notin> set (other_bits msk)"
    unfolding other_bits_def set_filter by blast
  have e: "cf_x c = cf_x c1" "cf_y c = cf_y c1" "cf_width c = cf_width c1" "cf_height c = cf_height c1" using b by blast+
  show "\<not> bit msk CWX \<Longrightarrow> cf_x c = cf_x (conf_of h w)" "\<not> bit msk CWY \<Longrightarrow> cf_y c = cf_y (conf_of h w)"
    "act \<noteq> RESIZE_WIN \<Longrightarrow> cf_width c = win_width (h w) \<and> cf_height c = win_height (h w)"
    unfolding e by (erule a(1), erule a(2)) (drule a(3), simp only: w)
  show "\<not> bit msk CWBorderWidth \<Longrightarrow> cf_border c = borderWidth (h w)"
    using b o a(4) w(3) by simp
  show "act \<noteq> REBORDER_WIN" "act = RESTACK_WIN \<Longrightarrow> \<not> bit msk CWX \<and> \<not> bit msk CWY" by (rule a(6), erule a(7))
  show "cf_sibling c = None \<or> (\<exists>b v. cf_sibling c = Some b \<and> lookup v = Inr b \<and> parent (h b) = parent (h w) \<and> b \<noteq> w)"
    using b unfolding a(5) w(4) by blast
  show "cf_width c mod 65536 = cf_width c" "cf_height c mod 65536 = cf_height c"
    using get_place_16 [OF 1] w(1,2) e(3,4) by simp_all
qed

section \<open>Moving and resizing\<close>

lemma windows_ok_frame:
  assumes ok: "windows_ok root t s" and l: "same_links (wheap s) (wheap s')" and live: "wlive s' = wlive s"
    and f: "\<And>x. mapped (wheap s' x) = mapped (wheap s x) \<and> realized (wheap s' x) = realized (wheap s x) \<and>
      viewable (wheap s' x) = viewable (wheap s x) \<and> inputOutput (wheap s' x) = inputOutput (wheap s x)"
  shows "windows_ok root t s'"
  using same_links_tree [OF l] ok live f l
  by (simp add: windows_ok_def flags_ok_def same_links_def same_up_def)

lemma set_size_ok: "windows_ok root t s \<Longrightarrow> windows_ok root t (set_size w wd ht s)"
  by (erule windows_ok_frame) (simp_all add: set_size_def upd_win_def same_links_def same_up_def same_down_def)

lemma set_border_ok: "windows_ok root t s \<Longrightarrow> windows_ok root t (set_border w bw s)"
  by (erule windows_ok_frame) (simp_all add: set_border_def upd_win_def same_links_def same_up_def same_down_def)

lemma move_in_stack_reflect:
  "parent (wheap s w) \<noteq> None \<Longrightarrow> ReflectStackChange w sib s = move_in_stack w sib s"
  by (auto simp: ReflectStackChange_def move_in_stack_def)

text \<open>A window moved to where it is leaves the tree as it is.\<close>

lemma restack_same:
  assumes t: "window_tree h root t" and p: "Tree p ts \<in> set (subs t)" and w: "w \<in> set (map wroot ts)"
    and s: "nextSib (h w) = None \<or> (\<exists>b \<in> set (map wroot ts). b \<noteq> w \<and> nextSib (h w) = Some b)"
  shows "edit p (restack_kids w (nextSib (h w))) t = t"
proof -
  obtain fc h' where m: "MoveWindowInStack w (nextSib (h w)) h = Some (fc, h')"
    "window_tree h' root (edit p (restack_kids w (nextSib (h w))) t)"
    by (rule MoveWindowInStack_tree [OF t p w s]) blast
  have "h' = h" using m(1) by (simp add: MoveWindowInStack_def)
  then show ?thesis using window_tree_unique [OF m(2)] t by simp
qed

lemma own_sibling:
  assumes t: "window_tree h root t" and p: "Tree p ts \<in> set (subs t)" and w: "w \<in> set (map wroot ts)"
  shows "nextSib (h w) = None \<or> (\<exists>b \<in> set (map wroot ts). b \<noteq> w \<and> nextSib (h w) = Some b)"
proof -
  note wk = window_tree_kids [OF t p]
  have "nextSib (h w) = next_in (map wroot ts) w" by (rule children_ok_child(2) [OF wk(1) w])
  then show ?thesis
    using next_in_Some [of "map wroot ts" w] next_in_neq [OF wk(2), of w] by (cases "next_in (map wroot ts) w") fastforce+
qed

lemma restacked_subs:
  assumes "distinct (wins t)" "Tree p ts \<in> set (subs t)" "u \<in> set ts"
  shows "u \<in> set (subs (edit p (restack_kids w sib) t))"
proof -
  have "u \<in> set (wkids (Tree p (restack_kids w sib ts)))" using mset_eq_setD [OF mset_restack_kids [of w sib ts]] assms(3) by simp
  then show ?thesis using subs_trans [OF subs_edit [OF assms(1,2), of "restack_kids w sib"] kid_subs] by simp
qed

text \<open>What a window looks like but for its links, flags and place on the screen.\<close>

definition sized :: "win \<Rightarrow> int \<Rightarrow> int \<Rightarrow> int \<Rightarrow> bool" where
  "sized r wd ht bw \<longleftrightarrow> win_width r = wd mod 65536 \<and> win_height r = ht mod 65536 \<and> borderWidth r = bw"

definition placed_at :: "wheap \<Rightarrow> wptr \<Rightarrow> int \<Rightarrow> int \<Rightarrow> bool" where
  "placed_at h w x y \<longleftrightarrow> (\<forall>p. parent (h w) = Some p \<longrightarrow>
     win_x (h w) = short (win_x (h p) + x + borderWidth (h w)) \<and> win_y (h w) = short (win_y (h p) + y + borderWidth (h w)))"

text \<open>
  The outcome of a change of the window \<open>w\<close>: the tree is right, the window has the place and the
  size, all windows below it are at their places, and those elsewhere are as they were.
\<close>

definition changed ::
    "wptr \<Rightarrow> wtree \<Rightarrow> wtree \<Rightarrow> wptr \<Rightarrow> wtree \<Rightarrow> int \<Rightarrow> int \<Rightarrow> int \<Rightarrow> int \<Rightarrow> int \<Rightarrow> wstate \<Rightarrow> wstate \<Rightarrow> bool" where
  "changed root t t' w u x y wd ht bw s s' \<longleftrightarrow>
     windows_ok root t' s' \<and> mset (wins t') = mset (wins t) \<and> placed_at (wheap s') w x y \<and> sized (wheap s' w) wd ht bw \<and>
     (\<forall>z \<in> set (wins u). placed (wheap s') z) \<and> (\<forall>z. z \<notin> set (wins u) \<longrightarrow> place_of (wheap s' z) = place_of (wheap s z)) \<and>
     mapped (wheap s' root) = mapped (wheap s root) \<and> freed s' = freed s"

lemma move_in_stack_ok:
  assumes ok: "windows_ok root t s" and p: "Tree p ts \<in> set (subs t)" and w: "w \<in> set (map wroot ts)"
    and b: "sib = None \<or> (\<exists>b \<in> set (map wroot ts). b \<noteq> w \<and> sib = Some b)"
  obtains s' where "move_in_stack w sib s = Some s'" "windows_ok root (edit p (restack_kids w sib) t) s'"
    "mset (wins (edit p (restack_kids w sib) t)) = mset (wins t)" "\<And>x. no_links (wheap s' x) = no_links (wheap s x)"
    "freed s' = freed s" "wlive s' = wlive s"
proof -
  have "parent (wheap s w) = Some p" by (rule window_tree_kids(4) [OF windows_okD(1) [OF ok] p w])
  then have r: "ReflectStackChange w sib s = move_in_stack w sib s" by (simp add: move_in_stack_reflect)
  obtain s' where s': "ReflectStackChange w sib s = Some s'" "windows_ok root (edit p (restack_kids w sib) t) s'"
    "mset (wins (edit p (restack_kids w sib) t)) = mset (wins t)" "\<And>x. no_links (wheap s' x) = no_links (wheap s x)"
    by (rule restack_ok [OF ok p w b]) blast
  moreover have "freed s' = freed s" "wlive s' = wlive s"
    using s'(1) unfolding r move_in_stack_def by (auto simp: freed_def)
  ultimately show ?thesis using that r by simp
qed

lemma no_root_below:
  assumes "window_tree h root t" "u \<in> set (subs t)" "wroot u \<noteq> root"
  shows "root \<notin> set (wins u)"
proof
  assume r: "root \<in> set (wins u)"
  have d: "distinct (wins t)" "wroot t = root" using assms(1) by (simp_all add: window_tree_def)
  have "u \<noteq> t" using assms(3) d(2) by auto
  then obtain c where c: "c \<in> set (wkids t)" "u \<in> set (subs c)" using assms(2) by (cases t) auto
  then have "root \<in> set (wins c)" using wins_subs [OF c(2)] r by blast
  then show False using distinct_kid [OF d(1) c(1)] d(2) by simp
qed

lemma parent_of_root_of_kid:
  assumes ok: "windows_ok root t s" and p: "Tree p ts \<in> set (subs t)" and u: "u \<in> set ts"
  shows "parent (wheap s (wroot u)) = Some p" "u \<in> set (subs t)" "wroot u \<in> set (map wroot ts)" "wroot u \<in> set (wins t)"
    "p \<notin> set (wins u)" "wroot u \<notin> set (below u)" "root \<notin> set (wins u)"
proof -
  note k = windows_okD [OF ok]
  show ut: "u \<in> set (subs t)" using subs_trans [OF p kid_subs] u by simp
  show w: "wroot u \<in> set (map wroot ts)" using u by simp
  show pw: "parent (wheap s (wroot u)) = Some p" by (rule window_tree_kids(4) [OF k(1) p w])
  show wt: "wroot u \<in> set (wins t)" using wins_subs [OF ut] wroot_in_wins [of u] by blast
  show "p \<notin> set (wins u)" by (rule parent_not_below [OF k(1) wt pw ut refl])
  show "wroot u \<notin> set (below u)" using distinct_subs [OF k(3) ut] by (simp add: wins_root_below)
  show "root \<notin> set (wins u)" by (rule no_root_below [OF k(1) ut]) (use pw k(5) in auto)
qed

lemma resize_below:
  assumes ok: "windows_ok root t s" and p: "Tree p ts \<in> set (subs t)" and u: "u \<in> set ts" "wroot u = w"
  obtains s' where "ResizeChildrenWinSize w dx dy dw dh s = Some s'" "windows_ok root t s'" "place_only (set (below u)) s s'"
    "\<And>z. z \<in> set (below u) \<Longrightarrow> placed (wheap s') z" "wheap s' w = wheap s w" "wheap s' p = wheap s p"
    "\<And>c. c \<in> set (wkids u) \<Longrightarrow>
       (origin_x (wheap s' (wroot c)), origin_y (wheap s' (wroot c))) = child_origin (wheap s (wroot c)) dx dy dw dh"
proof -
  note k = windows_okD [OF ok] and f = parent_of_root_of_kid [OF ok p u(1)]
  obtain s' where s': "ResizeChildrenWinSize w dx dy dw dh s = Some s'" "place_only (set (below u)) s s'"
    "\<And>x. x \<in> set (below u) \<Longrightarrow> placed (wheap s') x"
    "\<And>x. (origin_x (wheap s' x), origin_y (wheap s' x)) =
      (if x \<in> set (map wroot (wkids u)) then child_origin (wheap s x) dx dy dw dh else (origin_x (wheap s x), origin_y (wheap s x)))"
    by (rule ResizeChildrenWinSize_ok [OF rep_subs [OF k(2) f(2)] distinct_subs [OF k(3) f(2)] u(2), of dx dy dw dh]) blast
  have "wheap s' w = wheap s w" "wheap s' p = wheap s p"
    using place_only_heap(4) [OF s'(2)] f(5,6) u(2) by (auto simp: wins_root_below)
  then show ?thesis using that [OF s'(1) place_only_ok [OF s'(2) ok] s'(2,3)] s'(4) by simp
qed

lemma placed_atI:
  "parent (h w) = Some p \<Longrightarrow> win_x (h w) = short (win_x (h p) + x + borderWidth (h w)) \<Longrightarrow>
     win_y (h w) = short (win_y (h p) + y + borderWidth (h w)) \<Longrightarrow> placed_at h w x y"
  by (simp add: placed_at_def)

lemma set_place_here:
  assumes "p \<noteq> w"
  shows "win_x (wheap (set_place w x y bw p s) w) = short (win_x (wheap (set_place w x y bw p s) p) + x + bw)"
    "win_y (wheap (set_place w x y bw p s) w) = short (win_y (wheap (set_place w x y bw p s) p) + y + bw)"
    "origin_x (wheap (set_place w x y bw p s) w) = short (x + bw)" "origin_y (wheap (set_place w x y bw p s) w) = short (y + bw)"
  using assms by (simp_all add: set_place_def upd_win_def)

lemma set_place_ok: "windows_ok root t s \<Longrightarrow> windows_ok root t (set_place w x y bw p s)"
  by (erule no_place_ok) (simp_all add: set_place_no_place)

lemma placed_through:
  assumes "placed h w" "parent (h w) = Some p" "place_of (h' w) = place_of (h w)" "place_of (h' p) = place_of (h p)"
  shows "placed h' w"
  by (rule placed_same [where h = h]) (use assms in simp_all)

lemma short_mid: "short (a + short b + c) = short (a + b + c)"
proof -
  have "a + short b + c = (a + c) + short b" "a + b + c = (a + c) + b" by simp_all
  then show ?thesis by (simp only: short_add)
qed

lemma miMoveWindow_ok:
  assumes ok: "windows_ok root t s" and p: "Tree p ts \<in> set (subs t)" and u: "u \<in> set ts" "wroot u = w"
    and b: "sib = None \<or> (\<exists>b \<in> set (map wroot ts). b \<noteq> w \<and> sib = Some b)"
  shows "\<exists>s'. miMoveWindow w x y sib s = Some s' \<and>
    changed root t (edit p (restack_kids w sib) t) w u x y (win_width (wheap s w)) (win_height (wheap s w)) (borderWidth (wheap s w)) s s'"
proof -
  let ?t = "edit p (restack_kids w sib) t"
  note f = parent_of_root_of_kid [OF ok p u(1), unfolded u(2)]
  have pw: "p \<noteq> w" using f(5) u(2) wroot_in_wins [of u] by auto
  define s1 where "s1 = set_place w x y (short (borderWidth (wheap s w))) p s"
  have ok1: "windows_ok root t s1" unfolding s1_def by (rule set_place_ok [OF ok])
  note h1 = set_place_here [OF pw, of x y "short (borderWidth (wheap s w))" s, folded s1_def]
  note n1 = no_place_fields [OF set_place_no_place [of w x y "short (borderWidth (wheap s w))" p s], folded s1_def]
  obtain s2 where s2: "move_in_stack w sib s1 = Some s2" "windows_ok root ?t s2" "mset (wins ?t) = mset (wins t)"
    "\<And>z. no_links (wheap s2 z) = no_links (wheap s1 z)" "freed s2 = freed s1"
    by (rule move_in_stack_ok [OF ok1 p f(3) b]) blast
  note g2 = place_of_links [OF s2(4)]
  have d: "distinct (wins t)" by (rule windows_okD(3) [OF ok])
  have p2: "Tree p (restack_kids w sib ts) \<in> set (subs ?t)" by (rule subs_edit [OF d p])
  have u2: "u \<in> set (restack_kids w sib ts)" using mset_eq_setD [OF mset_restack_kids [of w sib ts]] u(1) by simp
  define dx where "dx = win_x (wheap s1 w) - win_x (wheap s w)"
  define dy where "dy = win_y (wheap s1 w) - win_y (wheap s w)"
  obtain s3 where s3: "ResizeChildrenWinSize w dx dy 0 0 s2 = Some s3" "windows_ok root ?t s3" "place_only (set (below u)) s2 s3"
    "\<And>z. z \<in> set (below u) \<Longrightarrow> placed (wheap s3) z" "wheap s3 w = wheap s2 w" "wheap s3 p = wheap s2 p"
    by (rule resize_below [OF s2(2) p2 u2 u(2), of dx dy 0 0]) blast
  have e: "miMoveWindow w x y sib s = Some s3"
    using s2(1) s3(1) f(1) by (simp add: miMoveWindow_def Let_def s1_def dx_def dy_def)
  have gw: "place_of (wheap s3 w) = place_of (wheap s1 w)" "place_of (wheap s3 p) = place_of (wheap s1 p)"
    using s3(5,6) g2 by simp_all
  have par: "parent (wheap s1 w) = Some p" using n1(2) f(1) by simp
  have at: "placed_at (wheap s3) w x y"
    by (rule placed_atI [where p = p]) (use gw h1 par n1(14) in \<open>simp_all add: place_of_def\<close>)
  moreover have "placed (wheap s1) w" using set_place_placed [of s w p] f(1) pw by (simp add: s1_def)
  then have "placed (wheap s3) w" by (rule placed_through [OF _ par gw])
  then have "placed (wheap s3) z" if "z \<in> set (wins u)" for z using s3(4) that u(2) by (auto simp: wins_root_below)
  moreover have "place_of (wheap s3 z) = place_of (wheap s z)" if "z \<notin> set (wins u)" for z
    using place_only_heap(4) [OF s3(3), of z] g2 [of z] that u(2) by (auto simp: wins_root_below s1_def)
  moreover have "sized (wheap s3 w) (win_width (wheap s w)) (win_height (wheap s w)) (borderWidth (wheap s w))"
    using gw(1) n1(12,13,14) by (simp add: sized_def place_of_def)
  moreover have "mapped (wheap s3 root) = mapped (wheap s root)"
    using no_place_fields(7) [OF place_only_heap(3) [OF s3(3)]] no_links_fields [OF s2(4)] n1(7) by simp
  moreover have "freed s3 = freed s" using place_only_heap(2) [OF s3(3)] s2(5) by (simp add: s1_def freed_def)
  ultimately show ?thesis using e s3(2) s2(3) by (auto simp: changed_def)
qed

text \<open>The loop over the children with the gravity to be unmapped.\<close>

lemma unmap_gravity_ok:
  assumes "windows_ok root t s" "Tree p ts \<in> set (subs t)" "map wroot ts = xs @ ys"
  shows "\<exists>s'. unmap_gravity env (first_of ys) s = Some s' \<and> windows_ok root t s' \<and> flags_only s s' \<and> freed s' = freed s \<and>
    (\<forall>x. mapped (wheap s' x) = (mapped (wheap s x) \<and> \<not> (x \<in> set ys \<and> winGravity (wheap s x) = UnmapGravity)))"
  using assms
proof (induction ys arbitrary: s xs)
  case Nil
  then show ?case by (subst unmap_gravity.simps) simp
next
  case (Cons w ys)
  note k = windows_okD [OF Cons.prems(1)]
  note wk = window_tree_kids [OF k(1) Cons.prems(2)]
  have "w \<in> set (map wroot ts)" using Cons.prems(3) by simp
  then have w: "parent (wheap s w) = Some p" "w \<in> set (wins t)"
    using wk(4) [of w] wins_subs [OF Cons.prems(2)] kid_root_below [of _ ts] by auto
  have "w \<noteq> root" using w(1) k(5) by auto
  then have "\<exists>s1. (if winGravity (wheap s w) = UnmapGravity then UnmapWindow env w True s else Some s) = Some s1 \<and>
    windows_ok root t s1 \<and> flags_only s s1 \<and> freed s1 = freed s \<and>
    (\<forall>x. mapped (wheap s1 x) = (mapped (wheap s x) \<and> \<not> (x = w \<and> winGravity (wheap s x) = UnmapGravity)))"
    using Cons.prems(1) UnmapWindow_ok [OF Cons.prems(1) w(2), of env True] by (cases "winGravity (wheap s w) = UnmapGravity") (simp_all, metis)
  then obtain s1 where s1: "(if winGravity (wheap s w) = UnmapGravity then UnmapWindow env w True s else Some s) = Some s1"
    "windows_ok root t s1" "flags_only s s1" "freed s1 = freed s"
    "\<And>x. mapped (wheap s1 x) = (mapped (wheap s x) \<and> \<not> (x = w \<and> winGravity (wheap s x) = UnmapGravity))" by blast
  have "nextSib (wheap s1 w) = nextSib (wheap s w)" using flags_only_links [OF s1(3)] by (simp add: same_links_def same_up_def)
  also have "\<dots> = first_of ys" using children_neighbours(1) [of "wheap s" p xs w ys] wk(1) Cons.prems(3) by simp
  finally have e: "unmap_gravity env (first_of (w # ys)) s = unmap_gravity env (first_of ys) s1"
    using s1(1) by (subst unmap_gravity.simps) simp
  obtain s' where s': "unmap_gravity env (first_of ys) s1 = Some s'" "windows_ok root t s'" "flags_only s1 s'" "freed s' = freed s1"
    "\<forall>x. mapped (wheap s' x) = (mapped (wheap s1 x) \<and> \<not> (x \<in> set ys \<and> winGravity (wheap s1 x) = UnmapGravity))"
    using Cons.IH [OF s1(2) Cons.prems(2), of "xs @ [w]"] Cons.prems(3) by auto
  have g: "winGravity (wheap s1 x) = winGravity (wheap s x)" for x
    using flags_only_place [OF s1(3), of x] by (simp add: place_of_def)
  show ?case using e s' s1(4,5) g flags_only_trans [OF s1(3) s'(3)] by auto
qed

lemma child_origin_same: "place_of r = place_of r' \<Longrightarrow> child_origin r dx dy dw dh = child_origin r' dx dy dw dh"
  by (clarsimp simp: child_origin_def place_of_def Let_def split: prod.split)

lemma set_size_sel:
  "wlive (set_size w wd ht s) = wlive s" "freed (set_size w wd ht s) = freed s"
  "z \<noteq> w \<Longrightarrow> wheap (set_size w wd ht s) z = wheap s z"
  "win_width (wheap (set_size w wd ht s) w) = wd mod 65536" "win_height (wheap (set_size w wd ht s) w) = ht mod 65536"
  "win_x (wheap (set_size w wd ht s) z) = win_x (wheap s z)" "win_y (wheap (set_size w wd ht s) z) = win_y (wheap s z)"
  "origin_x (wheap (set_size w wd ht s) z) = origin_x (wheap s z)" "origin_y (wheap (set_size w wd ht s) z) = origin_y (wheap s z)"
  "borderWidth (wheap (set_size w wd ht s) z) = borderWidth (wheap s z)" "parent (wheap (set_size w wd ht s) z) = parent (wheap s z)"
  "mapped (wheap (set_size w wd ht s) z) = mapped (wheap s z)"
  by (simp_all add: set_size_def upd_win_def freed_def uint_word_of_int)

text \<open>What becomes of a child of a resized window.\<close>

definition child_resized :: "wheap \<Rightarrow> wheap \<Rightarrow> wptr \<Rightarrow> int \<Rightarrow> int \<Rightarrow> wptr \<Rightarrow> bool" where
  "child_resized h h' w wd ht c \<longleftrightarrow>
     (origin_x (h' c), origin_y (h' c)) =
       child_origin (h c) (win_x (h' w) - win_x (h w)) (win_y (h' w) - win_y (h w))
         (short (wd - win_width (h w))) (short (ht - win_height (h w))) \<and>
     mapped (h' c) = (mapped (h c) \<and> \<not> (viewable (h w) \<and> winGravity (h c) = UnmapGravity))"

lemma miResizeWindow_ok:
  assumes ok: "windows_ok root t s" and p: "Tree p ts \<in> set (subs t)" and u: "u \<in> set ts" "wroot u = w"
    and b: "sib = None \<or> (\<exists>b \<in> set (map wroot ts). b \<noteq> w \<and> sib = Some b)"
  shows "\<exists>s'. miResizeWindow env w x y wd ht sib s = Some s' \<and>
    changed root t (edit p (restack_kids w sib) t) w u x y wd ht (borderWidth (wheap s w)) s s' \<and>
    (\<forall>c \<in> set (map wroot (wkids u)). child_resized (wheap s) (wheap s') w wd ht c)"
proof -
  let ?t = "edit p (restack_kids w sib) t" and ?bw = "borderWidth (wheap s w)"
  note f = parent_of_root_of_kid [OF ok p u(1), unfolded u(2)]
  have pw: "p \<noteq> w" using f(5) u(2) wroot_in_wins [of u] by auto
  obtain us where us: "u = Tree w us" using u(2) by (cases u) simp
  have "firstChild (wheap s w) = first_of (map wroot us)"
    using rep_kids [OF rep_subs [OF windows_okD(2) [OF ok] f(2)]] by (simp add: us children_ok_def)
  then have "\<exists>s1. (if viewable (wheap s w) then unmap_gravity env (firstChild (wheap s w)) s else Some s) = Some s1 \<and>
    windows_ok root t s1 \<and> flags_only s s1 \<and> freed s1 = freed s \<and>
    (\<forall>z. mapped (wheap s1 z) = (mapped (wheap s z) \<and>
      \<not> (z \<in> set (map wroot us) \<and> viewable (wheap s w) \<and> winGravity (wheap s z) = UnmapGravity)))"
    using unmap_gravity_ok [OF ok f(2) [unfolded us], of "[]" "map wroot us" env] ok by (cases "viewable (wheap s w)") auto
  then obtain s1 where s1: "(if viewable (wheap s w) then unmap_gravity env (firstChild (wheap s w)) s else Some s) = Some s1"
    "windows_ok root t s1" "flags_only s s1" "freed s1 = freed s"
    "\<And>z. mapped (wheap s1 z) = (mapped (wheap s z) \<and>
      \<not> (z \<in> set (map wroot us) \<and> viewable (wheap s w) \<and> winGravity (wheap s z) = UnmapGravity))" by blast
  note g1 = flags_only_place [OF s1(3)]
  define sp where "sp = set_place w x y ?bw p s1"
  define s2 where "s2 = set_size w wd ht sp"
  have ok2: "windows_ok root t s2" unfolding s2_def sp_def by (rule set_size_ok [OF set_place_ok [OF s1(2)]])
  note hp = set_place_here [OF pw, of x y ?bw s1, folded sp_def]
  note np = no_place_fields [OF set_place_no_place [of w x y ?bw p s1], folded sp_def]
  have par2: "parent (wheap s2 w) = Some p" using np(2) f(1) g1 [of w] by (simp add: s2_def set_size_sel place_of_def)
  have bw2: "borderWidth (wheap s2 w) = ?bw" using np(14) g1 [of w] by (simp add: s2_def set_size_sel place_of_def)
  have g2: "place_of (wheap s2 z) = place_of (wheap s z)" if "z \<noteq> w" for z
    using that g1 [of z] by (simp add: s2_def set_size_sel sp_def)
  define dx where "dx = win_x (wheap s2 w) - win_x (wheap s w)"
  define dy where "dy = win_y (wheap s2 w) - win_y (wheap s w)"
  define dw where "dw = short (wd - win_width (wheap s w))"
  define dh where "dh = short (ht - win_height (wheap s w))"
  obtain s3 where s3: "ResizeChildrenWinSize w dx dy dw dh s2 = Some s3" "windows_ok root t s3" "place_only (set (below u)) s2 s3"
    "\<And>z. z \<in> set (below u) \<Longrightarrow> placed (wheap s3) z" "wheap s3 w = wheap s2 w" "wheap s3 p = wheap s2 p"
    "\<And>c. c \<in> set (wkids u) \<Longrightarrow>
       (origin_x (wheap s3 (wroot c)), origin_y (wheap s3 (wroot c))) = child_origin (wheap s2 (wroot c)) dx dy dw dh"
    by (rule resize_below [OF ok2 p u, of dx dy dw dh]) blast
  obtain s4 where s4: "move_in_stack w sib s3 = Some s4" "windows_ok root ?t s4" "mset (wins ?t) = mset (wins t)"
    "\<And>z. no_links (wheap s4 z) = no_links (wheap s3 z)" "freed s4 = freed s3"
    by (rule move_in_stack_ok [OF s3(2) p f(3) b]) blast
  note g4 = place_of_links [OF s4(4)]
  have e: "miResizeWindow env w x y wd ht sib s = Some s4"
    using s1(1) s3(1) s4(1) f(1) by (simp add: miResizeWindow_def Let_def s2_def sp_def dx_def dy_def dw_def dh_def)
  have gw: "place_of (wheap s4 w) = place_of (wheap s2 w)" "place_of (wheap s4 p) = place_of (wheap s2 p)"
    using s3(5,6) g4 by simp_all
  have h2: "win_x (wheap s2 w) = short (win_x (wheap s2 p) + x + ?bw)" "win_y (wheap s2 w) = short (win_y (wheap s2 p) + y + ?bw)"
    using hp by (simp_all add: s2_def set_size_sel)
  have at: "placed_at (wheap s4) w x y"
    by (rule placed_atI [where p = p]) (use gw h2 par2 bw2 in \<open>simp_all add: place_of_def\<close>)
  moreover have "placed (wheap s2) w"
    using h2 hp(3,4) par2 by (simp add: placed_def s2_def set_size_sel add.assoc)
  then have "placed (wheap s4) w" by (rule placed_through [OF _ par2 gw])
  moreover have "placed (wheap s4) z" if "z \<in> set (below u)" for z by (rule placed_same [where h = "wheap s3", OF s3(4) [OF that] g4 g4])
  ultimately have pl: "placed (wheap s4) z" if "z \<in> set (wins u)" for z using that u(2) by (auto simp: wins_root_below)
  have out: "place_of (wheap s4 z) = place_of (wheap s z)" if "z \<notin> set (wins u)" for z
  proof -
    have "z \<noteq> w" "z \<notin> set (below u)" using that u(2) by (auto simp: wins_root_below)
    then show ?thesis using place_only_heap(4) [OF s3(3), of z] g4 [of z] g2 [of z] by simp
  qed
  have sz: "sized (wheap s4 w) wd ht ?bw"
    using gw(1) bw2 by (simp add: sized_def place_of_def s2_def set_size_sel)
  have m: "mapped (wheap s4 z) = mapped (wheap s1 z)" for z
    using no_place_fields(7) [OF place_only_heap(3) [OF s3(3)], of z] no_links_fields [OF s4(4), of z] np(7) [of z]
    by (simp add: s2_def set_size_sel)
  have "root \<notin> set (map wroot us)" using f(7) kid_root_below [of _ us] by (auto simp: us)
  then have mr: "mapped (wheap s4 root) = mapped (wheap s root)" using m s1(5) by simp
  have "freed sp = freed s1" by (simp add: sp_def freed_def)
  then have fr: "freed s4 = freed s"
    using s4(5) place_only_heap(2) [OF s3(3)] s1(4) by (simp add: s2_def set_size_sel(2))
  have kids: "child_resized (wheap s) (wheap s4) w wd ht c" if c: "c \<in> set (map wroot (wkids u))" for c
  proof -
    obtain v where v: "v \<in> set (wkids u)" "c = wroot v" using c by auto
    have "c \<in> set (below u)" using v by (auto simp: below_root intro: bexI [of _ v])
    then have "c \<noteq> w" using f(6) by auto
    moreover have "win_x (wheap s4 w) = win_x (wheap s2 w)" "win_y (wheap s4 w) = win_y (wheap s2 w)" "place_of (wheap s4 c) = place_of (wheap s3 c)"
      using gw(1) g4 [of c] by (simp_all add: place_of_def)
    ultimately show ?thesis
      using s3(7) [OF v(1)] child_origin_same [OF g2 [of c]] m [of c] s1(5) [of c] c
      unfolding child_resized_def dx_def dy_def dw_def dh_def v(2) by (simp add: place_of_def us)
  qed
  show ?thesis using e s4(2,3) at pl out sz mr fr kids by (auto simp: changed_def)
qed

section \<open>Restacking in place\<close>

lemma restack_changed:
  assumes ok: "windows_ok root t s" and p: "Tree p ts \<in> set (subs t)" and u: "u \<in> set ts" "wroot u = w"
    and b: "sib = None \<or> (\<exists>b \<in> set (map wroot ts). b \<noteq> w \<and> sib = Some b)"
    and no: "\<not> move \<Longrightarrow> sib = nextSib (wheap s w)"
    and at: "placed_at (wheap s) w x y" "sized (wheap s w) wd ht bw" "\<And>z. z \<in> set (wins u) \<Longrightarrow> placed (wheap s) z"
  shows "\<exists>s'. (if move then ReflectStackChange w sib s else Some s) = Some s' \<and>
    changed root t (edit p (restack_kids w sib) t) w u x y wd ht bw s s'"
proof -
  note f = parent_of_root_of_kid [OF ok p u(1), unfolded u(2)]
  show ?thesis
  proof (cases move)
    case True
    obtain s' where s': "ReflectStackChange w sib s = Some s'" "windows_ok root (edit p (restack_kids w sib) t) s'"
      "mset (wins (edit p (restack_kids w sib) t)) = mset (wins t)" "\<And>x. no_links (wheap s' x) = no_links (wheap s x)"
      by (rule restack_ok [OF ok p f(3) b]) blast
    note g = place_of_links [OF s'(4)]
    have "freed s' = freed s" using s'(1) f(1) by (auto simp: ReflectStackChange_def freed_def)
    moreover have "placed (wheap s') z" if "z \<in> set (wins u)" for z by (rule placed_same [where h = "wheap s", OF at(3) [OF that] g g])
    moreover have "placed_at (wheap s') w x y"
      using at(1) g [of w] g [of p] f(1) by (auto simp: placed_at_def place_of_def)
    moreover have "sized (wheap s' w) wd ht bw" using at(2) g [of w] by (simp add: sized_def place_of_def)
    ultimately show ?thesis using True s' g no_links_fields [OF s'(4)] by (auto simp: changed_def)
  next
    case False
    have "edit p (restack_kids w (nextSib (wheap s w))) t = t"
      by (rule restack_same [OF windows_okD(1) [OF ok] p f(3)]) (use b no [OF False] in auto)
    then show ?thesis using False no ok at by (simp add: changed_def)
  qed
qed

lemma changed_from:
  assumes "changed root t t' w u x y wd ht bw s1 s'" "\<And>z. z \<noteq> w \<Longrightarrow> place_of (wheap s1 z) = place_of (wheap s z)" "wroot u = w"
    "mapped (wheap s1 root) = mapped (wheap s root)" "freed s1 = freed s"
  shows "changed root t t' w u x y wd ht bw s s'"
proof -
  have "z \<noteq> w" if "z \<notin> set (wins u)" for z using that assms(3) wroot_in_wins [of u] by metis
  then show ?thesis using assms by (simp add: changed_def)
qed

lemma set_border_sel:
  "wlive (set_border w bw s) = wlive s" "freed (set_border w bw s) = freed s"
  "z \<noteq> w \<Longrightarrow> wheap (set_border w bw s) z = wheap s z"
  "win_width (wheap (set_border w bw s) z) = win_width (wheap s z)" "win_height (wheap (set_border w bw s) z) = win_height (wheap s z)"
  "win_x (wheap (set_border w bw s) z) = win_x (wheap s z)" "win_y (wheap (set_border w bw s) z) = win_y (wheap s z)"
  "origin_x (wheap (set_border w bw s) z) = origin_x (wheap s z)" "origin_y (wheap (set_border w bw s) z) = origin_y (wheap s z)"
  "borderWidth (wheap (set_border w bw s) w) = bw" "parent (wheap (set_border w bw s) z) = parent (wheap s z)"
  "nextSib (wheap (set_border w bw s) z) = nextSib (wheap s z)" "mapped (wheap (set_border w bw s) z) = mapped (wheap s z)"
  by (simp_all add: set_border_def upd_win_def freed_def)

section \<open>The whole request\<close>

text \<open>Where the window is now, in terms of the values of the request.\<close>

lemma conf_of_here:
  assumes "placed h w" "parent (h w) = Some p"
  shows "short (win_x (h p) + cf_x (conf_of h w) + borderWidth (h w)) = win_x (h w)"
    "short (win_y (h p) + cf_y (conf_of h w) + borderWidth (h w)) = win_y (h w)"
proof -
  have "short (win_x (h p) + short (win_x (h w) - win_x (h p) - borderWidth (h w)) + borderWidth (h w)) = short (win_x (h w))"
    "short (win_y (h p) + short (win_y (h w) - win_y (h p) - borderWidth (h w)) + borderWidth (h w)) = short (win_y (h w))"
    by (simp_all add: short_mid)
  moreover have "short (win_x (h w)) = win_x (h w)" "short (win_y (h w)) = win_y (h w)" using assms by (auto simp: placed_def)
  ultimately show "short (win_x (h p) + cf_x (conf_of h w) + borderWidth (h w)) = win_x (h w)"
    "short (win_y (h p) + cf_y (conf_of h w) + borderWidth (h w)) = win_y (h w)"
    using assms(2) by (simp_all add: conf_of_def Let_def)
qed

lemma placed_at_here:
  assumes "placed h w" "parent (h w) = Some p"
    "x + bw = cf_x (conf_of h w) + borderWidth (h w)" "y + bw = cf_y (conf_of h w) + borderWidth (h w)"
    "win_x (h' w) = win_x (h w)" "win_y (h' w) = win_y (h w)" "h' p = h p" "parent (h' w) = Some p" "borderWidth (h' w) = bw"
  shows "placed_at h' w x y"
proof (rule placed_atI [where p = p])
  show "parent (h' w) = Some p" by (rule assms(8))
  have e: "win_x (h p) + x + bw = win_x (h p) + cf_x (conf_of h w) + borderWidth (h w)"
    "win_y (h p) + y + bw = win_y (h p) + cf_y (conf_of h w) + borderWidth (h w)"
    using assms(3,4) by simp_all
  show "win_x (h' w) = short (win_x (h' p) + x + borderWidth (h' w))" "win_y (h' w) = short (win_y (h' p) + y + borderWidth (h' w))"
    unfolding assms(5,6,7,9) e by (rule conf_of_here [OF assms(1,2), symmetric])+
qed

lemma placed_border:
  assumes "placed (wheap s) z"
  shows "placed (wheap (set_border w bw s)) z"
  by (rule placed_frame [OF assms]) (simp_all add: set_border_sel)

lemma ActuallyDoSomething_ok:
  assumes ok: "windows_ok root t s" and p: "Tree p ts \<in> set (subs t)" and u: "u \<in> set ts" "wroot u = w"
    and b: "sib = None \<or> (\<exists>b \<in> set (map wroot ts). b \<noteq> w \<and> sib = Some b)"
    and pl: "\<And>z. z \<in> set (wins u) \<Longrightarrow> placed (wheap s) z"
    and act: "act \<noteq> REBORDER_WIN" "act = RESTACK_WIN \<Longrightarrow> cf_x c = cf_x (conf_of (wheap s) w) \<and> cf_y c = cf_y (conf_of (wheap s) w)"
      "act \<noteq> RESIZE_WIN \<Longrightarrow> cf_width c = win_width (wheap s w) \<and> cf_height c = win_height (wheap s w)"
    and bord: "\<not> bit msk CWBorderWidth \<Longrightarrow> cf_border c = borderWidth (wheap s w)"
    and stay: "\<not> bit msk CWStackMode \<Longrightarrow> sib = nextSib (wheap s w)"
  shows "\<exists>s'. ActuallyDoSomething env w msk act c sib s = Some s' \<and>
    changed root t (edit p (restack_kids w sib) t) w u (cf_x c) (cf_y c) (cf_width c) (cf_height c) (cf_border c) s s' \<and>
    (act = RESIZE_WIN \<longrightarrow> (\<forall>v \<in> set (map wroot (wkids u)). child_resized (wheap s) (wheap s') w (cf_width c) (cf_height c) v))"
proof -
  let ?t = "edit p (restack_kids w sib) t" and ?sb = "set_border w (cf_border c) s"
  note f = parent_of_root_of_kid [OF ok p u(1), unfolded u(2)]
  have wu: "w \<in> set (wins u)" using wroot_in_wins [of u] u(2) by simp
  then have pw: "p \<noteq> w" using f(5) by auto
  have okb: "windows_ok root t ?sb" by (rule set_border_ok [OF ok])
  have from_b: "changed root t ?t w u x y wd ht bw s s'" if "changed root t ?t w u x y wd ht bw ?sb s'" for x y wd ht bw s'
    by (rule changed_from [OF that _ u(2)]) (simp_all add: set_border_sel)
  define s1 where "s1 = (if bit msk CWBorderWidth then ?sb else s)"
  have ok1: "windows_ok root t s1" using ok okb by (simp add: s1_def)
  have sel1: "win_width (wheap s1 w) = win_width (wheap s w)" "win_height (wheap s1 w) = win_height (wheap s w)"
    "borderWidth (wheap s1 w) = cf_border c" "nextSib (wheap s1 w) = nextSib (wheap s w)"
    "win_x (wheap s1 w) = win_x (wheap s w)" "win_y (wheap s1 w) = win_y (wheap s w)" "wheap s1 p = wheap s p"
    "parent (wheap s1 w) = Some p"
    using bord pw f(1) by (simp_all add: s1_def set_border_sel)
  have pl1: "placed (wheap s1) z" if "z \<in> set (wins u)" for z using pl [OF that] by (simp add: s1_def placed_border)
  have to_s: "changed root t ?t w u x y wd ht bw s s'" if "changed root t ?t w u x y wd ht bw s1 s'" for x y wd ht bw s'
    using that from_b by (simp add: s1_def split: if_splits)
  have in_place: "\<exists>s'. (if bit msk CWStackMode then ReflectStackChange w sib s1 else Some s1) = Some s' \<and>
      changed root t ?t w u (cf_x c) (cf_y c) (win_width (wheap s w)) (win_height (wheap s w)) (cf_border c) s1 s'"
    if "cf_x c + cf_border c = cf_x (conf_of (wheap s) w) + borderWidth (wheap s w)"
      "cf_y c + cf_border c = cf_y (conf_of (wheap s) w) + borderWidth (wheap s w)"
  proof (rule restack_changed [OF ok1 p u b])
    show "\<not> bit msk CWStackMode \<Longrightarrow> sib = nextSib (wheap s1 w)" using stay by (simp add: sel1)
    show "placed_at (wheap s1) w (cf_x c) (cf_y c)"
      by (rule placed_at_here [OF pl [OF wu] f(1) that]) (simp_all add: sel1)
    show "sized (wheap s1 w) (win_width (wheap s w)) (win_height (wheap s w)) (cf_border c)" by (simp add: sized_def sel1)
  qed (rule pl1)
  have mv: "\<exists>s'. miMoveWindow w (cf_x c) (cf_y c) sib s1 = Some s' \<and>
      changed root t ?t w u (cf_x c) (cf_y c) (win_width (wheap s w)) (win_height (wheap s w)) (cf_border c) s1 s'"
    using miMoveWindow_ok [OF ok1 p u b, of "cf_x c" "cf_y c"] by (simp only: sel1)
  show ?thesis
  proof (cases act)
    case RESTACK_WIN
    note xy = act(2) [OF RESTACK_WIN] and wh = act(3) [unfolded RESTACK_WIN]
    show ?thesis
    proof (cases "bit msk CWBorderWidth")
      case True
      then have e: "ActuallyDoSomething env w msk act c sib s = miMoveWindow w (cf_x c) (cf_y c) sib s1"
        by (simp add: ActuallyDoSomething_def Let_def RESTACK_WIN s1_def)
      show ?thesis using mv to_s wh RESTACK_WIN unfolding e by auto
    next
      case False
      then have e: "ActuallyDoSomething env w msk act c sib s = (if bit msk CWStackMode then ReflectStackChange w sib s1 else Some s1)"
        by (simp add: ActuallyDoSomething_def Let_def RESTACK_WIN s1_def)
      have "cf_border c = borderWidth (wheap s w)" by (rule bord [OF False])
      then show ?thesis using in_place xy to_s wh RESTACK_WIN unfolding e by auto
    qed
  next
    case MOVE_WIN
    note wh = act(3) [unfolded MOVE_WIN]
    let ?here = "cf_x (conf_of (wheap s) w) + borderWidth (wheap s w) = cf_x c + cf_border c \<and>
      cf_y (conf_of (wheap s) w) + borderWidth (wheap s w) = cf_y c + cf_border c"
    show ?thesis
    proof (cases "bit msk CWBorderWidth \<and> ?here")
      case True
      have "miChangeBorderWidth w (cf_border c) s = s1"
      proof (cases "borderWidth (wheap s w) = cf_border c")
        case eq: True
        have "wheap ?sb = wheap s" by (rule ext) (simp add: set_border_def upd_win_def eq [symmetric])
        then show ?thesis using eq True by (simp add: miChangeBorderWidth_def s1_def set_border_def upd_win_def)
      qed (use True in \<open>simp add: miChangeBorderWidth_def s1_def\<close>)
      then have e: "ActuallyDoSomething env w msk act c sib s = (if bit msk CWStackMode then ReflectStackChange w sib s1 else Some s1)"
        using True by (simp add: ActuallyDoSomething_def Let_def MOVE_WIN)
      show ?thesis using in_place True to_s wh MOVE_WIN unfolding e by auto
    next
      case False
      then have e: "ActuallyDoSomething env w msk act c sib s = miMoveWindow w (cf_x c) (cf_y c) sib s1"
        by (auto simp: ActuallyDoSomething_def Let_def MOVE_WIN s1_def)
      show ?thesis using mv to_s wh MOVE_WIN unfolding e by auto
    qed
  next
    case RESIZE_WIN
    have e: "ActuallyDoSomething env w msk act c sib s = miResizeWindow env w (cf_x c) (cf_y c) (cf_width c) (cf_height c) sib s1"
      by (simp add: ActuallyDoSomething_def Let_def RESIZE_WIN s1_def)
    have "child_resized (wheap s1) h' w wd ht v = child_resized (wheap s) h' w wd ht v" if "v \<noteq> w" for h' wd ht v
    proof -
      have "wheap s1 v = wheap s v" using that by (simp add: s1_def set_border_sel)
      moreover have "viewable (wheap s1 w) = viewable (wheap s w)" by (simp add: s1_def set_border_def upd_win_def)
      ultimately show ?thesis by (simp add: child_resized_def sel1)
    qed
    moreover have "v \<noteq> w" if "v \<in> set (map wroot (wkids u))" for v
      using that f(6) by (auto simp: below_root intro: bexI)
    ultimately show ?thesis
      using miResizeWindow_ok [OF ok1 p u b, of env "cf_x c" "cf_y c" "cf_width c" "cf_height c"] to_s RESIZE_WIN
      unfolding e sel1 by auto
  qed (use act(1) in simp)
qed

lemma trace_if_sel:
  "wheap (trace_if b e s) = wheap s" "wlive (trace_if b e s) = wlive s"
  "(\<And>w. e \<noteq> FreedWindow w) \<Longrightarrow> freed (trace_if b e s) = freed s"
  "windows_ok root t (trace_if b e s) = windows_ok root t s"
  by (auto simp: trace_if_def trace_event_def freed_def windows_ok_def split: wevent.split)

text \<open>The values as they are used: a size that another client decides on stays.\<close>

definition conf_used :: "win_env \<Rightarrow> wheap \<Rightarrow> wptr \<Rightarrow> action \<Rightarrow> conf \<Rightarrow> conf" where
  "conf_used env h w act c = (if size_redirected env h w act c then own_size h w c else c)"

lemma conf_used_sel [simp]:
  "cf_x (conf_used env h w act c) = cf_x c" "cf_y (conf_used env h w act c) = cf_y c"
  "cf_border (conf_used env h w act c) = cf_border c"
  "act \<noteq> RESIZE_WIN \<Longrightarrow> conf_used env h w act c = c"
  by (simp_all add: conf_used_def own_size_def size_redirected_def)

definition conf_place :: "win_env \<Rightarrow> wheap \<Rightarrow> wptr \<Rightarrow> u32 \<Rightarrow> conf \<Rightarrow> wptr option option" where
  "conf_place env h w msk c =
     (case parent (h w) of None \<Rightarrow> None
      | Some p \<Rightarrow>
          if bit msk CWStackMode
          then WhereDoIGoInTheStack env h w (cf_sibling c) (win_x (h p) + cf_x c) (win_y (h p) + cf_y c)
                 ((cf_width c + 2 * cf_border c) mod 65536) ((cf_height c + 2 * cf_border c) mod 65536) (cf_mode c)
          else Some (nextSib (h w)))"

definition configure_redirected :: "win_env \<Rightarrow> wheap \<Rightarrow> wptr \<Rightarrow> conf \<Rightarrow> bool" where
  "configure_redirected env h w c \<longleftrightarrow> \<not> overrideRedirect (h w) \<and> takes_request env (ConfigureRequest w c) \<and>
     (case parent (h w) of None \<Rightarrow> False | Some p \<Rightarrow> RedirectSend env p)"

lemma action_facts:
  assumes args: "configure_args lookup h w msk vlist = Some (Inr (act, c))"
    and a: "configure_action h w msk act (conf_used env h w act c) = Some act1"
  shows "act1 \<noteq> REBORDER_WIN" "act1 = RESTACK_WIN \<Longrightarrow> \<not> bit msk CWX \<and> \<not> bit msk CWY"
    "act1 \<noteq> RESIZE_WIN \<Longrightarrow> cf_width (conf_used env h w act c) = win_width (h w) \<and> cf_height (conf_used env h w act c) = win_height (h w)"
proof -
  note f = configure_args_facts [OF args]
  show "act1 \<noteq> REBORDER_WIN" using a f(5) by (auto simp: configure_action_def split: if_splits)
  show "act1 = RESTACK_WIN \<Longrightarrow> \<not> bit msk CWX \<and> \<not> bit msk CWY" using a f(6) by (auto simp: configure_action_def split: if_splits)
  show "cf_width (conf_used env h w act c) = win_width (h w) \<and> cf_height (conf_used env h w act c) = win_height (h w)"
    if "act1 \<noteq> RESIZE_WIN"
    using a f(3) that by (cases "act = RESIZE_WIN") (auto simp: configure_action_def split: if_splits)
qed

lemma ConfigureWindow_ok:
  assumes ok: "windows_ok root t s" and p: "Tree p ts \<in> set (subs t)" and u: "u \<in> set ts" "wroot u = w"
    and pl: "\<And>z. z \<in> set (wins u) \<Longrightarrow> placed (wheap s) z"
    and args: "configure_args lookup (wheap s) w msk vlist = Some (Inr (act, c))"
    and place: "conf_place env (wheap s) w msk c = Some sib"
    and b: "sib = None \<or> (\<exists>b \<in> set (map wroot ts). b \<noteq> w \<and> sib = Some b)"
    and red: "\<not> configure_redirected env (wheap s) w c"
    and hook: "ConfigNotify env w ((conf_used env (wheap s) w act c)\<lparr>cf_sibling := sib\<rparr>) = Success"
  shows "\<exists>s'. ConfigureWindow env lookup w msk vlist s = Some (Success, s') \<and>
    changed root t (edit p (restack_kids w sib) t) w u (cf_x c) (cf_y c)
      (cf_width (conf_used env (wheap s) w act c)) (cf_height (conf_used env (wheap s) w act c)) (cf_border c) s s'"
proof -
  let ?h = "wheap s" and ?t = "edit p (restack_kids w sib) t"
  let ?c1 = "conf_used env ?h w act c"
  note f = parent_of_root_of_kid [OF ok p u(1), unfolded u(2)]
  note a = configure_args_facts [OF args]
  have wu: "w \<in> set (wins u)" using wroot_in_wins [of u] u(2) by simp
  define s1 where "s1 = trace_if (size_redirected env ?h w act c) (ResizeRequest w (cf_width c) (cf_height c)) s"
  have sel1: "wheap s1 = ?h" "wlive s1 = wlive s" "freed s1 = freed s" "windows_ok root t s1"
    using ok by (simp_all add: s1_def trace_if_sel)
  have from1: "changed root t ?t w u x y wd ht bw s s'" if "changed root t ?t w u x y wd ht bw s2 s'" "wheap s2 = ?h" "freed s2 = freed s"
    for x y wd ht bw s' s2
    by (rule changed_from [OF that(1) _ u(2)]) (simp_all add: that(2,3))
  have e: "ConfigureWindow env lookup w msk vlist s =
      (case configure_action ?h w msk act ?c1 of
         None \<Rightarrow> Some (Success, s1)
       | Some act1 \<Rightarrow>
           if \<not> changes_something ?h w msk act1 ?c1 sib then Some (Success, s1)
           else map_option (\<lambda>s2. (Success, s2))
                  (ActuallyDoSomething env w msk act1 ?c1 sib
                    (trace_if (SubStrSend env w p) (ConfigureNotify w (?c1\<lparr>cf_sibling := sib\<rparr>)) s1)))"
    using place red hook
    unfolding ConfigureWindow_def Let_def args conf_place_def configure_redirected_def f(1) option.case sum.case prod.case
      conf_used_def [symmetric] s1_def [symmetric]
    by (auto split: option.split)
  have still: "changed root t ?t w u (cf_x c) (cf_y c) (cf_width ?c1) (cf_height ?c1) (cf_border c) s s1"
    if x: "cf_x c = cf_x (conf_of ?h w)" "cf_y c = cf_y (conf_of ?h w)" "cf_border c = borderWidth (?h w)"
      "cf_width ?c1 = win_width (?h w)" "cf_height ?c1 = win_height (?h w)" and n: "sib = nextSib (?h w)"
  proof -
    have "\<exists>s'. (if False then ReflectStackChange w sib s1 else Some s1) = Some s' \<and>
        changed root t ?t w u (cf_x c) (cf_y c) (cf_width ?c1) (cf_height ?c1) (cf_border c) s1 s'"
    proof (rule restack_changed [OF sel1(4) p u b])
      show "sib = nextSib (wheap s1 w)" using n by (simp add: sel1)
      show "placed_at (wheap s1) w (cf_x c) (cf_y c)"
        by (rule placed_at_here [OF pl [OF wu] f(1), where bw = "cf_border c"]) (simp_all add: sel1 x f(1))
      show "sized (wheap s1 w) (cf_width ?c1) (cf_height ?c1) (cf_border c)" by (simp add: sized_def sel1 x)
    qed (simp add: sel1 pl)
    then show ?thesis using from1 [OF _ sel1(1,3)] by auto
  qed
  show ?thesis
  proof (cases "configure_action ?h w msk act ?c1")
    case None
    then have n: "act = RESIZE_WIN" "cf_width ?c1 = win_width (?h w)" "cf_height ?c1 = win_height (?h w)" "\<not> bit msk CWX" "\<not> bit msk CWY"
      "\<not> bit msk CWStackMode" "\<not> bit msk CWBorderWidth"
      by (auto simp: configure_action_def split: if_splits)
    have "sib = nextSib (?h w)" using place f(1) n(6) by (simp add: conf_place_def)
    then show ?thesis using still [OF a(1,2,4) n(2,3)] n(4,5,7) unfolding e None by simp
  next
    case (Some act1)
    note af = action_facts [OF args Some]
    show ?thesis
    proof (cases "changes_something ?h w msk act1 ?c1 sib")
      case False
      then have n: "act1 \<noteq> RESIZE_WIN" "bit msk CWX \<Longrightarrow> cf_x c = cf_x (conf_of ?h w)" "bit msk CWY \<Longrightarrow> cf_y c = cf_y (conf_of ?h w)"
        "bit msk CWBorderWidth \<Longrightarrow> cf_border c = borderWidth (?h w)" "bit msk CWStackMode \<Longrightarrow> sib = nextSib (?h w)"
        by (auto simp: changes_something_def)
      have "sib = nextSib (?h w)" using place f(1) n(5) by (cases "bit msk CWStackMode") (simp_all add: conf_place_def)
      moreover have "cf_x c = cf_x (conf_of ?h w)" "cf_y c = cf_y (conf_of ?h w)" "cf_border c = borderWidth (?h w)"
        using a(1,2,4) n(2,3,4) by blast+
      ultimately show ?thesis using still af(3) [OF n(1)] False unfolding e Some by simp
    next
      case True
      define s2 where "s2 = trace_if (SubStrSend env w p) (ConfigureNotify w (?c1\<lparr>cf_sibling := sib\<rparr>)) s1"
      have sel2: "wheap s2 = ?h" "freed s2 = freed s" "windows_ok root t s2"
        using sel1 by (simp_all add: s2_def trace_if_sel)
      have "\<exists>s'. ActuallyDoSomething env w msk act1 ?c1 sib s2 = Some s' \<and>
        changed root t ?t w u (cf_x ?c1) (cf_y ?c1) (cf_width ?c1) (cf_height ?c1) (cf_border ?c1) s2 s' \<and>
        (act1 = RESIZE_WIN \<longrightarrow> (\<forall>v \<in> set (map wroot (wkids u)). child_resized (wheap s2) (wheap s') w (cf_width ?c1) (cf_height ?c1) v))"
      proof (rule ActuallyDoSomething_ok [OF sel2(3) p u b])
        show "act1 \<noteq> REBORDER_WIN" by (rule af(1))
        show "act1 = RESTACK_WIN \<Longrightarrow> cf_x ?c1 = cf_x (conf_of (wheap s2) w) \<and> cf_y ?c1 = cf_y (conf_of (wheap s2) w)"
          using af(2) a(1,2) by (simp add: sel2)
        show "act1 \<noteq> RESIZE_WIN \<Longrightarrow> cf_width ?c1 = win_width (wheap s2 w) \<and> cf_height ?c1 = win_height (wheap s2 w)"
          using af(3) by (simp add: sel2)
        show "\<not> bit msk CWBorderWidth \<Longrightarrow> cf_border ?c1 = borderWidth (wheap s2 w)" using a(4) by (simp add: sel2)
        show "\<not> bit msk CWStackMode \<Longrightarrow> sib = nextSib (wheap s2 w)" using place f(1) by (simp add: conf_place_def sel2)
      qed (simp add: sel2 pl)
      then show ?thesis using from1 [OF _ sel2(1,2)] True unfolding e Some s2_def [symmetric] by auto
    qed
  qed
qed

text \<open>A changed tree has all its windows placed.\<close>

lemma placed_beside:
  assumes ok: "windows_ok root t s" and pl: "all_placed t s" and u: "u \<in> set (subs t)"
    and sub: "set (wins t') \<subseteq> set (wins t)" and new: "\<And>z. z \<in> set (wins u) \<Longrightarrow> placed (wheap s') z"
    and g: "\<And>z. z \<notin> set (wins u) \<Longrightarrow> place_of (wheap s' z) = place_of (wheap s z)"
  shows "all_placed t' s'"
  unfolding all_placed_def
proof
  fix z assume "z \<in> set (wins t')"
  then have z: "z \<in> set (wins t)" using sub by blast
  show "placed (wheap s') z"
  proof (cases "z \<in> set (wins u)")
    case False
    show ?thesis
    proof (rule placed_same [where h = "wheap s"])
      show "placed (wheap s) z" using pl z by (simp add: all_placed_def)
      show "place_of (wheap s' z) = place_of (wheap s z)" by (rule g [OF False])
      show "place_of (wheap s' q) = place_of (wheap s q)" if "parent (wheap s z) = Some q" for q
        by (rule g) (use parent_closed [OF windows_okD(1) [OF ok] u _ z that] False in blast)
    qed
  qed (rule new)
qed

lemma changed_placed:
  assumes "windows_ok root t s" "all_placed t s" "u \<in> set (subs t)" and c: "changed root t t' w u x y wd ht bw s s'"
  shows "all_placed t' s'"
  by (rule placed_beside [OF assms(1-3)]) (use c mset_eq_setD [of "wins t'" "wins t"] in \<open>simp_all add: changed_def\<close>)

text \<open>
  A sibling that was found is a window of the tree, or of another screen: its parent is then none of the
  tree. A request is safe when what it asks of the stack is.
\<close>

definition sibling_known :: "wtree \<Rightarrow> wheap \<Rightarrow> wptr \<Rightarrow> bool" where
  "sibling_known t h b \<longleftrightarrow> b \<in> set (wins t) \<or> (case parent (h b) of None \<Rightarrow> True | Some p \<Rightarrow> p \<notin> set (wins t))"

definition configure_safe :: "win_env \<Rightarrow> (u32 \<Rightarrow> x_status + wptr) \<Rightarrow> wheap \<Rightarrow> wptr \<Rightarrow> u32 \<Rightarrow> u32 list \<Rightarrow> bool" where
  "configure_safe env lookup h w msk vlist \<longleftrightarrow> (case configure_args lookup h w msk vlist of
     Some (Inr (act, c)) \<Rightarrow> bit msk CWStackMode \<longrightarrow> stack_safe env h w (cf_sibling c) (cf_mode c)
   | _ \<Rightarrow> True)"

lemma conf_place_ok:
  assumes ok: "windows_ok root t s" and p: "Tree p ts \<in> set (subs t)" and u: "u \<in> set ts" "wroot u = w"
    and args: "configure_args lookup (wheap s) w msk vlist = Some (Inr (act, c))"
    and look: "\<And>v b. lookup v = Inr b \<Longrightarrow> sibling_known t (wheap s) b" and safe: "configure_safe env lookup (wheap s) w msk vlist"
  obtains sib where "conf_place env (wheap s) w msk c = Some sib" "sib = None \<or> (\<exists>b \<in> set (map wroot ts). b \<noteq> w \<and> sib = Some b)"
proof -
  note k = windows_okD [OF ok] and f = parent_of_root_of_kid [OF ok p u(1), unfolded u(2)]
  note wk = window_tree_kids [OF k(1) p]
  have pw: "p \<in> set (wins t)" using p wins_iff_subs by blast
  show ?thesis
  proof (cases "bit msk CWStackMode")
    case False
    then show ?thesis using that own_sibling [OF k(1) p f(3)] f(1) by (simp add: conf_place_def)
  next
    case True
    have sib: "\<exists>b \<in> set (map wroot ts). b \<noteq> w \<and> cf_sibling c = Some b" if ne: "cf_sibling c \<noteq> None"
    proof -
      obtain b v where b: "cf_sibling c = Some b" "lookup v = Inr b" "parent (wheap s b) = parent (wheap s w)" "b \<noteq> w"
        using configure_args_facts(7) [OF args] ne by auto
      have pb: "parent (wheap s b) = Some p" using b(3) f(1) by simp
      then have "b \<in> set (wins t)" using look [OF b(2)] pw by (simp add: sibling_known_def)
      then obtain ts' v' where n: "Tree p ts' \<in> set (subs t)" "v' \<in> set ts'" "wroot v' = b"
        using kid_of [OF k(1) _ pb] by blast
      have "ts' = ts" by (rule subs_unique [OF k(3) n(1) p])
      then show ?thesis using b(1,4) n(2,3) by auto
    qed
    have s: "stack_safe env (wheap s) w (cf_sibling c) (cf_mode c)"
      using safe args True by (simp add: configure_safe_def)
    have "cf_sibling c = None \<or> (\<exists>b \<in> set (map wroot ts). b \<noteq> w \<and> cf_sibling c = Some b)" using sib by blast
    from WhereDoIGoInTheStack_returns [OF wk(1) f(3) this s]
    obtain r where r: "conf_place env (wheap s) w msk c = Some r" "r = None \<or> (\<exists>b \<in> set (map wroot ts). b \<noteq> w \<and> r = Some b)"
      unfolding conf_place_def f(1) option.case if_P [OF True] by blast
    then show ?thesis by (rule that)
  qed
qed

text \<open>
  Every request with a list of the right length returns; an error changes no window, and what is changed
  leaves a tree with right flags and places.
\<close>

lemma ConfigureWindow_total:
  assumes ok: "windows_ok root t s" and pl: "all_placed t s" and w: "w \<in> set (wins t)"
    and len: "Ones msk = length vlist"
    and look: "\<And>v b. lookup v = Inr b \<Longrightarrow> sibling_known t (wheap s) b" and safe: "configure_safe env lookup (wheap s) w msk vlist"
  shows "\<exists>st s' t'. ConfigureWindow env lookup w msk vlist s = Some (st, s') \<and> windows_ok root t' s' \<and> all_placed t' s' \<and>
    mset (wins t') = mset (wins t) \<and> mapped (wheap s' root) = mapped (wheap s root) \<and> freed s' = freed s \<and>
    (st \<noteq> Success \<longrightarrow> wheap s' = wheap s)" (is ?thesis)
proof -
  note k = windows_okD [OF ok]
  have same: ?thesis
    if "ConfigureWindow env lookup w msk vlist s = Some (st, s')" "s' = trace_if b e s" "\<And>w. e \<noteq> FreedWindow w" for st b e s'
    using that ok pl by (intro exI [of _ st] exI [of _ s'] exI [of _ t]) (simp add: trace_if_sel all_placed_def)
  obtain r where r: "configure_args lookup (wheap s) w msk vlist = Some r"
    using configure_args_some [OF len, of lookup "wheap s" w] by auto
  show ?thesis
  proof (cases r)
    case (Inl e)
    then have "ConfigureWindow env lookup w msk vlist s = Some (e, trace_if False (MapNotify 0) s)"
      using r by (simp add: ConfigureWindow_def Let_def trace_if_def)
    then show ?thesis by (rule same [OF _ refl]) simp
  next
    case (Inr q)
    obtain act c where q: "q = (act, c)" by (cases q)
    note args = r [unfolded Inr q]
    show ?thesis
    proof (cases "parent (wheap s w)")
      case None
      then have "ConfigureWindow env lookup w msk vlist s = Some (Success, trace_if False (MapNotify 0) s)"
        using args by (simp add: ConfigureWindow_def Let_def trace_if_def)
      then show ?thesis by (rule same [OF _ refl]) simp
    next
      case (Some p)
      obtain ts u where u: "Tree p ts \<in> set (subs t)" "u \<in> set ts" "wroot u = w" by (rule kid_of [OF k(1) w Some])
      obtain sib where sib: "conf_place env (wheap s) w msk c = Some sib" "sib = None \<or> (\<exists>b \<in> set (map wroot ts). b \<noteq> w \<and> sib = Some b)"
        by (rule conf_place_ok [OF ok u args look safe])
      let ?hook = "ConfigNotify env w ((conf_used env (wheap s) w act c)\<lparr>cf_sibling := sib\<rparr>)"
      let ?s1 = "trace_if (size_redirected env (wheap s) w act c) (ResizeRequest w (cf_width c) (cf_height c)) s"
      show ?thesis
      proof (cases "configure_redirected env (wheap s) w c")
        case True
        then have "ConfigureWindow env lookup w msk vlist s = Some (Success, trace_if True (ConfigureRequest w c) s)"
          using sib(1) Some unfolding ConfigureWindow_def Let_def args conf_place_def configure_redirected_def
          by (auto simp: trace_if_def)
        then show ?thesis by (rule same [OF _ refl]) simp
      next
        case red: False
        show ?thesis
        proof (cases "?hook = Success")
          case False
          have "\<exists>st. ConfigureWindow env lookup w msk vlist s = Some (st, ?s1)"
            using sib(1) Some red False
            unfolding ConfigureWindow_def Let_def args conf_place_def configure_redirected_def option.case sum.case prod.case
              conf_used_def [symmetric]
            by (auto split: option.split)
          then show ?thesis using same [OF _ refl] by blast
        next
          case True
          have ut: "u \<in> set (subs t)" by (rule parent_of_root_of_kid(2) [OF ok u(1,2)])
          have plu: "placed (wheap s) z" if "z \<in> set (wins u)" for z
            using pl wins_subs [OF ut] that by (auto simp: all_placed_def)
          obtain s' where s': "ConfigureWindow env lookup w msk vlist s = Some (Success, s')"
            "changed root t (edit p (restack_kids w sib) t) w u (cf_x c) (cf_y c)
              (cf_width (conf_used env (wheap s) w act c)) (cf_height (conf_used env (wheap s) w act c)) (cf_border c) s s'"
            using ConfigureWindow_ok [OF ok u plu args sib red True] by blast
          show ?thesis
            using s' changed_placed [OF ok pl ut s'(2)]
            by (intro exI [of _ Success] exI [of _ s'] exI [of _ "edit p (restack_kids w sib) t"]) (simp add: changed_def)
        qed
      qed
    qed
  qed
qed

end
