(* ===== verification/Window_Steps.thy ===== *)
theory Window_Steps
  imports Window_Configure_Laws
begin

text \<open>
  The machine of all window operations: from a mapped root window on, whatever the clients ask, the
  pointers stand for a tree, the flags agree with it, and all windows are at their places.
\<close>

section \<open>The machine of window operations\<close>

datatype window_op =
    MapOp wptr
  | MapSubsOp wptr
  | UnmapOp wptr
  | UnmapSubsOp wptr
  | CirculateOp wptr bool
  | RestackOp wptr "wptr option"
  | CreateOp wptr wptr win create_req bool x_status x_status
  | ReparentOp wptr wptr int int
  | ConfigureOp wptr u32 "u32 list" "x_status + wptr"
  | DestroyOp wptr
  | DestroySubsOp wptr "wptr \<Rightarrow> x_status"

fun window_step :: "win_env \<Rightarrow> window_op \<Rightarrow> wstate \<Rightarrow> wstate option" where
  "window_step env (MapOp w) s = MapWindow env w s"
| "window_step env (MapSubsOp w) s = MapSubwindows env w s"
| "window_step env (UnmapOp w) s = UnmapWindow env w False s"
| "window_step env (UnmapSubsOp w) s = UnmapSubwindows env w s"
| "window_step env (CirculateOp w up) s = CirculateWindow env w up s"
| "window_step env (RestackOp w sib) s = ReflectStackChange w sib s"
| "window_step env (CreateOp p w new req mem access outcome) s =
     map_option snd (dixCreateWindow env req mem access outcome p w new s)"
| "window_step env (ReparentOp w p x y) s = map_option snd (ReparentWindow env w p x y s)"
| "window_step env (ConfigureOp w msk vlist sib) s = map_option snd (ConfigureWindow env (\<lambda>_. sib) w msk vlist s)"
| "window_step env (DestroyOp w) s = DeleteWindow env w True s"
| "window_step env (DestroySubsOp w access) s = map_option snd (DestroySubwindows env access w s)"

text \<open>
  What the dispatcher has checked before: the windows named are in the tree, a sibling is one, a new
  window has an address of its own, no other window has the identifier of a new parent, a configure
  request has a value for each bit of its mask, and a root window is neither reparented nor destroyed.
  One condition is not checked by the dispatcher: \<open>configure_safe\<close> leaves out the configure requests with
  the modes \<open>TopIf\<close> and \<open>Opposite\<close> that name the window of a screen saver or the overlay window of
  Composite, as the window or, for the first window below it, as the sibling. What happens then is
  shown below.
\<close>

fun op_allowed :: "win_env \<Rightarrow> wptr \<Rightarrow> wtree \<Rightarrow> wstate \<Rightarrow> window_op \<Rightarrow> bool" where
  "op_allowed env root t s (MapOp w) \<longleftrightarrow> w \<in> set (wins t)"
| "op_allowed env root t s (MapSubsOp w) \<longleftrightarrow> w \<in> set (wins t)"
| "op_allowed env root t s (UnmapOp w) \<longleftrightarrow> w \<in> set (wins t)"
| "op_allowed env root t s (UnmapSubsOp w) \<longleftrightarrow> w \<in> set (wins t)"
| "op_allowed env root t s (CirculateOp w up) \<longleftrightarrow> w \<in> set (wins t)"
| "op_allowed env root t s (RestackOp w sib) \<longleftrightarrow> w \<in> set (wins t) \<and>
     (case sib of None \<Rightarrow> True
      | Some b \<Rightarrow> b \<noteq> w \<and> b \<in> set (wins t) \<and> parent (wheap s b) = parent (wheap s w))"
| "op_allowed env root t s (CreateOp p w new req mem access outcome) \<longleftrightarrow> p \<in> set (wins t) \<and> w \<notin> wlive s"
| "op_allowed env root t s (ReparentOp w p x y) \<longleftrightarrow> w \<in> set (wins t) \<and> w \<noteq> root \<and> p \<in> set (wins t) \<and>
     list_all (\<lambda>c. win_id (wheap s c) = win_id (wheap s p) \<longrightarrow> c = p) (wins t)"
| "op_allowed env root t s (ConfigureOp w msk vlist sib) \<longleftrightarrow> w \<in> set (wins t) \<and> Ones msk = length vlist \<and>
     (case sib of Inl _ \<Rightarrow> True | Inr b \<Rightarrow> sibling_known t (wheap s) b) \<and> configure_safe env (\<lambda>_. sib) (wheap s) w msk vlist"
| "op_allowed env root t s (DestroyOp w) \<longleftrightarrow> w \<in> set (wins t) \<and> w \<noteq> root"
| "op_allowed env root t s (DestroySubsOp w access) \<longleftrightarrow> w \<in> set (wins t)"

definition screen_ok :: "wptr \<Rightarrow> wstate \<Rightarrow> bool" where
  "screen_ok root s \<longleftrightarrow> (\<exists>t. windows_ok root t s \<and> all_placed t s) \<and> mapped (wheap s root)"

lemma screen_okI: "windows_ok root t s \<Longrightarrow> all_placed t s \<Longrightarrow> mapped (wheap s root) \<Longrightarrow> screen_ok root s"
  by (auto simp: screen_ok_def)

lemma window_step_ok:
  assumes ok: "windows_ok root t s" and pl: "all_placed t s" and m: "mapped (wheap s root)"
    and al: "op_allowed env root t s op"
  shows "\<exists>s'. window_step env op s = Some s' \<and> screen_ok root s'"
proof -
  note k = windows_okD [OF ok]
  have hd: "head_ok env (wheap s) t" by (rule head_ok_rep [OF k(2)])
  have flags: "all_placed t s'" if "flags_only s s'" "windows_ok root t s'" for s'
    by (rule all_placed_kept [OF pl that(2) subset_refl flags_only_place [OF that(1)]])
  have links: "all_placed t' s'" if "windows_ok root t' s'" "mset (wins t') = mset (wins t)" "\<And>x. no_links (wheap s' x) = no_links (wheap s x)" for t' s'
    by (rule all_placed_kept [OF pl that(1) _ place_of_links [OF that(3)]]) (use mset_eq_setD [OF that(2)] in simp)
  have node: "\<exists>ts. Tree w ts \<in> set (subs t)" if "w \<in> set (wins t)" for w using that by (simp add: wins_iff_subs)
  show ?thesis
  proof (cases op)
    case (MapOp w)
    then have w: "w \<in> set (wins t)" using al by simp
    show ?thesis by (rule MapWindow_ok [OF ok w m, of env]) (use MapOp m in \<open>auto intro: screen_okI flags\<close>)
  next
    case (MapSubsOp w)
    then obtain ts where ts: "Tree w ts \<in> set (subs t)" using al node by auto
    show ?thesis by (rule MapSubwindows_ok [OF ok ts, of env]) (use MapSubsOp m in \<open>auto intro: screen_okI flags\<close>)
  next
    case (UnmapOp w)
    then have w: "w \<in> set (wins t)" using al by simp
    show ?thesis by (rule UnmapWindow_ok [OF ok w, of env False]) (use UnmapOp m in \<open>auto intro: screen_okI flags\<close>)
  next
    case (UnmapSubsOp w)
    then obtain ts where ts: "Tree w ts \<in> set (subs t)" using al node by auto
    have "root \<notin> set (map wroot ts)" using window_tree_kids(4) [OF k(1) ts] k(5) by force
    then have r: "root \<notin> set (after_head (RealChildHead env (wheap s) w) (map wroot ts))"
      using after_head_set by blast
    obtain s' where s': "UnmapSubwindows env w s = Some s'" "windows_ok root t s'" "flags_only s s'"
      "\<And>x. mapped (wheap s' x) = (mapped (wheap s x) \<and> x \<notin> set (after_head (RealChildHead env (wheap s) w) (map wroot ts)))"
      by (rule UnmapSubwindows_ok [OF ok ts hd]) blast
    then show ?thesis using UnmapSubsOp m r screen_okI [OF s'(2) flags [OF s'(3,2)]] by simp
  next
    case (CirculateOp w up)
    then obtain ts where ts: "Tree w ts \<in> set (subs t)" using al node by auto
    obtain s' where s': "CirculateWindow env w up s = Some s'" "windows_ok root (edit w (\<lambda>_. circulated env (wheap s) w up ts) t) s'"
      "mset (circulated env (wheap s) w up ts) = mset ts" "\<And>x. no_links (wheap s' x) = no_links (wheap s x)"
      by (rule CirculateWindow_ok [OF ok ts hd]) blast
    have "mset (wins (edit w (\<lambda>_. circulated env (wheap s) w up ts) t)) = mset (wins t)"
      using edit_mset [OF k(3) ts, of "\<lambda>_. circulated env (wheap s) w up ts"] mset_concat_wins [OF s'(3)] by simp
    then show ?thesis using s'(1) screen_okI [OF s'(2) links [OF s'(2) _ s'(4)]] no_links_fields [OF s'(4)] m CirculateOp by simp
  next
    case (RestackOp w sib)
    show ?thesis
    proof (cases "w = root")
      case True
      then have "ReflectStackChange w sib s = Some s" using k(5) by (simp add: ReflectStackChange_def)
      then show ?thesis using RestackOp ok pl m by (auto intro: screen_okI)
    next
      case False
      have w: "w \<in> set (wins t)" using al RestackOp by simp
      obtain p where p: "parent (wheap s w) = Some p" by (rule not_root_parent [OF k(1) w False])
      obtain ts u where n: "Tree p ts \<in> set (subs t)" "u \<in> set ts" "wroot u = w" by (rule kid_of [OF k(1) w p])
      have sib: "sib = None \<or> (\<exists>b \<in> set (map wroot ts). b \<noteq> w \<and> sib = Some b)"
      proof (cases sib)
        case (Some b)
        then have b: "b \<noteq> w" "b \<in> set (wins t)" "parent (wheap s b) = Some p" using al RestackOp p by simp_all
        obtain ts' u' where n': "Tree p ts' \<in> set (subs t)" "u' \<in> set ts'" "wroot u' = b" by (rule kid_of [OF k(1) b(2,3)])
        have "ts' = ts" by (rule subs_unique [OF k(3) n'(1) n(1)])
        then show ?thesis using n' b(1) Some by auto
      qed simp
      have w': "w \<in> set (map wroot ts)" using n(2,3) by auto
      obtain s' where s': "ReflectStackChange w sib s = Some s'" "windows_ok root (edit p (restack_kids w sib) t) s'"
        "mset (wins (edit p (restack_kids w sib) t)) = mset (wins t)" "\<And>x. no_links (wheap s' x) = no_links (wheap s x)"
        by (rule restack_ok [OF ok n(1) w' sib]) blast
      show ?thesis using s'(1) screen_okI [OF s'(2) links [OF s'(2,3,4)]] no_links_fields [OF s'(4)] m RestackOp by simp
    qed
  next
    case (CreateOp p w new req mem access outcome)
    then have pw: "p \<in> set (wins t)" "w \<notin> wlive s" using al by simp_all
    obtain s' t' st where s': "dixCreateWindow env req mem access outcome p w new s = Some (st, s')" "windows_ok root t' s'"
      "st \<noteq> Success \<Longrightarrow> t' = t" "st = Success \<Longrightarrow> mset (wins t') = add_mset w (mset (wins t))"
      "\<And>x. x \<noteq> w \<Longrightarrow> mapped (wheap s' x) = mapped (wheap s x)"
      "\<And>x. x \<noteq> w \<Longrightarrow> place_of (wheap s' x) = place_of (wheap s x)" "st = Success \<Longrightarrow> placed (wheap s') w"
      by (rule dixCreateWindow_ok [OF ok pw]) blast
    have wt: "w \<notin> set (wins t)" using k(7) pw(2) by blast
    have old: "placed (wheap s') x" if x: "x \<in> set (wins t)" for x
    proof (rule placed_same [where h = "wheap s"])
      show "placed (wheap s) x" using pl x by (simp add: all_placed_def)
      show "place_of (wheap s' x) = place_of (wheap s x)" by (rule s'(6)) (use x wt in blast)
      show "place_of (wheap s' q) = place_of (wheap s q)" if "parent (wheap s x) = Some q" for q
        by (rule s'(6)) (use parent_inside [OF k(1) x that] wt in blast)
    qed
    have "all_placed t' s'"
    proof (cases "st = Success")
      case True
      have "set (wins t') = insert w (set (wins t))" using s'(4) [OF True] by (metis set_mset_mset set_mset_add_mset_insert)
      then show ?thesis using old s'(7) [OF True] by (simp add: all_placed_def)
    qed (use s'(3) old in \<open>simp add: all_placed_def\<close>)
    moreover have "root \<noteq> w" using k(4) wt wroot_in_wins [of t] by auto
    ultimately show ?thesis using s' CreateOp m by (auto intro: screen_okI)
  next
    case (ReparentOp w p x y)
    then have al': "w \<in> set (wins t)" "w \<noteq> root" "p \<in> set (wins t)"
      "\<And>c. c \<in> set (wins t) \<Longrightarrow> win_id (wheap s c) = win_id (wheap s p) \<Longrightarrow> c = p"
      using al by (auto simp: list_all_iff)
    obtain u where u: "u \<in> set (subs t)" "wroot u = w" by (rule subtree_at [OF al'(1)])
    have e: "window_step env op s = map_option snd (ReparentWindow env w p x y s)" by (simp add: ReparentOp)
    show ?thesis
    proof (rule ReparentWindow_ok [OF ok u al'(3,2,4) m, where x = x and y = y])
      fix q s'
      assume r: "ReparentWindow env w p x y s = Some (Success, s')" "windows_ok root (edit p (put_kid q u) (prune w t)) s'"
        "mset (wins (edit p (put_kid q u) (prune w t))) = mset (wins t)" "mapped (wheap s' root)"
        "\<And>z. z \<in> set (wins u) \<Longrightarrow> placed (wheap s') z" "\<And>z. z \<notin> set (wins u) \<Longrightarrow> place_of (wheap s' z) = place_of (wheap s z)"
      have "all_placed (edit p (put_kid q u) (prune w t)) s'"
        by (rule placed_beside [OF ok pl u(1) _ r(5,6)]) (use mset_eq_setD [OF r(3)] in simp)
      then show ?thesis using e r by (auto intro: screen_okI)
    qed (use e ok pl m in \<open>auto intro: screen_okI\<close>)
  next
    case (ConfigureOp w msk vlist sib)
    then have a: "w \<in> set (wins t)" "Ones msk = length vlist" "\<And>b. sib = Inr b \<Longrightarrow> sibling_known t (wheap s) b"
      "configure_safe env (\<lambda>_. sib) (wheap s) w msk vlist"
      using al by (auto split: sum.splits)
    have "\<exists>st s' t'. ConfigureWindow env (\<lambda>_. sib) w msk vlist s = Some (st, s') \<and> windows_ok root t' s' \<and> all_placed t' s' \<and>
      mset (wins t') = mset (wins t) \<and> mapped (wheap s' root) = mapped (wheap s root) \<and> freed s' = freed s \<and>
      (st \<noteq> Success \<longrightarrow> wheap s' = wheap s)"
      by (rule ConfigureWindow_total [OF ok pl a(1-4)])
    then show ?thesis using ConfigureOp m by (auto intro: screen_okI)
  next
    case (DestroyOp w)
    then have w: "w \<in> set (wins t)" "w \<noteq> root" using al by simp_all
    obtain u where u: "u \<in> set (subs t)" "wroot u = w" by (rule subtree_at [OF w(1)])
    obtain s' where s': "DeleteWindow env w True s = Some s'" "windows_ok root (prune w t) s'"
      "\<And>x. x \<notin> set (wins u) \<Longrightarrow> mapped (wheap s' x) = mapped (wheap s x)"
      "\<And>x. x \<notin> set (wins u) \<Longrightarrow> place_of (wheap s' x) = place_of (wheap s x)" "mset (wins t) = mset (wins (prune w t)) + mset (wins u)"
      by (rule DeleteWindow_ok [OF ok u w(2), of env True]) blast
    have "distinct (wins (prune w t) @ wins u)" using k(3) s'(5) by (metis mset_append mset_eq_imp_distinct_iff)
    moreover have "set (wins t) = set (wins (prune w t)) \<union> set (wins u)" using s'(5) by (metis set_mset_mset set_mset_union)
    ultimately have "all_placed (prune w t) s'"
      by (intro all_placed_kept [OF pl s'(2)] s'(4)) auto
    moreover have "root \<notin> set (wins u)" by (rule no_root_below [OF k(1) u(1)]) (use u(2) w(2) in simp)
    ultimately show ?thesis using s' DestroyOp m by (auto intro: screen_okI)
  next
    case (DestroySubsOp w access)
    then obtain ts where ts: "Tree w ts \<in> set (subs t)" using al node by auto
    show ?thesis by (rule DestroySubwindows_ok [OF ok ts hd m, of access]) (use DestroySubsOp in \<open>auto intro: screen_okI all_placed_kept [OF pl]\<close>)
  qed
qed

text \<open>
  What the rest of the server answers (the redirections, the screen saver, the overlay, access) may differ
  from each operation to the next.
\<close>

inductive reached :: "wptr \<Rightarrow> wstate \<Rightarrow> bool" for root where
  start: "window_tree (wheap s) root (Tree root []) \<Longrightarrow> root \<in> wlive s \<Longrightarrow> \<not> mapped (wheap s root) \<Longrightarrow>
    show_access env root \<Longrightarrow> MapWindow env root s = Some s' \<Longrightarrow> reached root s'"
| step: "reached root s \<Longrightarrow> window_tree (wheap s) root t \<Longrightarrow> op_allowed env root t s op \<Longrightarrow>
    window_step env op s = Some s' \<Longrightarrow> reached root s'"

inductive_cases reached_cases: "reached root s"

text \<open>In a tree whose flags are right the realized windows are those mapped all the way up.\<close>

lemma realized_reach:
  assumes "rep h u" "distinct (wins u)" "\<And>x q. x \<in> set (below u) \<Longrightarrow> parent (h x) = Some q \<Longrightarrow> realized (h x) = (mapped (h x) \<and> realized (h q))"
    and "realized (h (wroot u)) = mapped (h (wroot u))" "x \<in> set (wins u)"
  shows "realized (h x) \<longleftrightarrow> x \<in> set (reach h u)"
proof -
  have "v \<in> set (subs u) \<Longrightarrow> realized (h (wroot v)) = (wroot v \<in> set (reach h u)) \<Longrightarrow> y \<in> set (wins v) \<Longrightarrow>
      realized (h y) \<longleftrightarrow> y \<in> set (reach h u)" for v y
  proof (induction v arbitrary: y rule: wins.induct)
    case (1 w ts)
    show ?case
    proof (cases "y = w")
      case False
      then obtain c where c: "c \<in> set ts" "y \<in> set (wins c)" using "1.prems"(3) by auto
      have sub: "c \<in> set (subs u)" using subs_trans [OF "1.prems"(1)] kid_subs [of c "Tree w ts"] c(1) by simp
      have p: "parent (h (wroot c)) = Some w" using parent_of_kid [OF rep_subs [OF assms(1) "1.prems"(1)]] c(1) by simp
      have "wroot c \<noteq> wroot u"
      proof
        assume e: "wroot c = wroot u"
        have "c = u" by (rule subs_at_unique [OF assms(2) sub subs_self e])
        then have "size u \<le> size_list size ts" using c(1) by (metis le_SucI size_list_estimation' order_refl)
        then show False using subs_size [OF "1.prems"(1)] by simp
      qed
      then have b: "wroot c \<in> set (below u)" using wins_subs [OF sub] wroot_in_wins [of c] by (auto simp: wins_root_below)
      have "realized (h (wroot c)) = (wroot c \<in> set (reach h u))"
        using assms(3) [OF b p] reach_step [OF assms(1,2) b p] "1.prems"(2) by simp
      then show ?thesis using "1.IH" [OF c(1) sub _ c(2)] by blast
    qed (use "1.prems"(2) in simp)
  qed
  from this [OF subs_self _ assms(5)] show ?thesis using assms(4) reach_root [of u h] by blast
qed

lemma windows_ok_reach:
  assumes ok: "windows_ok root t s" and x: "x \<in> set (wins t)"
  shows "realized (wheap s x) \<longleftrightarrow> x \<in> set (reach (wheap s) t)"
    "viewable (wheap s x) \<longleftrightarrow> x \<in> set (reach (wheap s) t) \<and> inputOutput (wheap s x)"
proof -
  note k = windows_okD [OF ok]
  show r: "realized (wheap s x) \<longleftrightarrow> x \<in> set (reach (wheap s) t)"
  proof (rule realized_reach [OF k(2,3) _ _ x])
    have "root \<in> set (wins t)" using k(4) wroot_in_wins [of t] by simp
    then show "realized (wheap s (wroot t)) = mapped (wheap s (wroot t))" using k(4,5,6) by (simp add: flags_ok_def)
    show "realized (wheap s y) = (mapped (wheap s y) \<and> realized (wheap s q))"
      if "y \<in> set (below t)" "parent (wheap s y) = Some q" for y q
      using k(6) that by (simp add: flags_ok_def wins_root_below)
  qed
  show "viewable (wheap s x) \<longleftrightarrow> x \<in> set (reach (wheap s) t) \<and> inputOutput (wheap s x)"
    using k(6) x r by (simp add: flags_ok_def)
qed

section \<open>What the tree of windows promises\<close>

lemma reached_ok: "reached root s \<Longrightarrow> screen_ok root s"
proof (induction rule: reached.induct)
  case (start s env s')
  obtain s'' where "MapWindow env root s = Some s''" "windows_ok root (Tree root []) s''" "mapped (wheap s'' root)"
    by (rule MapWindow_root [OF start(1,3,4,2)])
  moreover have "all_placed (Tree root []) s''" using windows_okD(5) [OF calculation(2)] by (simp add: all_placed_def placed_def)
  ultimately show ?case using start(5) by (auto intro: screen_okI)
next
  case (step s t env op s')
  then obtain t' where ok: "windows_ok root t' s" "mapped (wheap s root)" "all_placed t' s" by (auto simp: screen_ok_def)
  have "t' = t" by (rule window_tree_unique [OF windows_okD(1) [OF ok(1)] step(2)])
  then show ?case using window_step_ok [OF _ _ ok(2) step(3)] ok(1,3) step(4) by auto
qed

lemma mset_post: "mset (post u) = mset (wins u)"
proof (induction u rule: wins.induct)
  case (1 w ts)
  have "mset (concat (map post us)) = mset (concat (map wins us))" if "set us \<subseteq> set ts" for us
    using that by (induction us) (auto simp: 1)
  from this [OF subset_refl] show ?case by simp
qed

lemma walk_record:
  "walk (\<lambda>c (h, vs). (WT_WALKCHILDREN, (h, vs @ [c]))) t (h, vs) = (False, (h, vs @ wins t))"
proof (induction t arbitrary: vs rule: wins.induct)
  case (1 w ts)
  have "set us \<subseteq> set ts \<Longrightarrow> walks (\<lambda>c (h, vs). (WT_WALKCHILDREN, (h, vs @ [c]))) us (h, vs) = (False, (h, vs @ concat (map wins us)))" for us vs
  proof (induction us arbitrary: vs)
    case (Cons u us)
    then show ?case using "1.IH" [of u vs] by simp
  qed simp
  from this [OF subset_refl, of "vs @ [w]"] show ?case by (simp add: walk_Tree)
qed

definition blank_win :: win where
  "blank_win = \<lparr>win_id = 0, parent = None, firstChild = None, lastChild = None, nextSib = None, prevSib = None,
     mapped = True, realized = True, viewable = True, inputOutput = True, overrideRedirect = False, shaped = False,
     origin_x = 0, origin_y = 0, win_x = 0, win_y = 0, drawable_width = 1, drawable_height = 1, borderWidth = 0,
     winGravity = NorthWestGravity\<rparr>"

text \<open>A root window 0 with the children 1, 2 and 3, the first of which has the child 4.\<close>

definition demo_heap :: wheap where
  "demo_heap = (\<lambda>x.
     if x = 0 then blank_win\<lparr>firstChild := Some 1, lastChild := Some 3\<rparr>
     else if x = 1 then blank_win\<lparr>win_id := 1, parent := Some 0, nextSib := Some 2, firstChild := Some 4, lastChild := Some 4\<rparr>
     else if x = 2 then blank_win\<lparr>win_id := 2, parent := Some 0, nextSib := Some 3, prevSib := Some 1\<rparr>
     else if x = 3 then blank_win\<lparr>win_id := 3, parent := Some 0, prevSib := Some 2\<rparr>
     else blank_win\<lparr>win_id := x, parent := Some 1\<rparr>)"

definition demo_tree :: wtree where
  "demo_tree = Tree 0 [Tree 1 [Tree 4 []], Tree 2 [], Tree 3 []]"

definition demo_wstate :: wstate where
  "demo_wstate = \<lparr>wheap = demo_heap, wlive = {0, 1, 2, 3, 4}, wtrace = []\<rparr>"

definition demo_env :: win_env where
  "demo_env = \<lparr>realChildHeadProc = None, saver_window = False, show_access = (\<lambda>_. True), RedirectSend = (\<lambda>_. False),
     SubStrSend = (\<lambda>_ _. True), SubSend = (\<lambda>_. True), takes_request = (\<lambda>_. False), optional_mem = True, shapes_meet = (\<lambda>_ _ _ _. True),
     border_meets = (\<lambda>_ _. True), ResizeSend = (\<lambda>_. False), ConfigNotify = (\<lambda>_ _. Success)\<rparr>"

lemma demo_window_tree: "window_tree demo_heap 0 demo_tree"
  by (simp add: window_tree_def demo_tree_def demo_heap_def blank_win_def children_ok_def prev_in_def)

lemma demo_windows_ok: "windows_ok 0 demo_tree demo_wstate"
  using demo_window_tree
  by (simp add: windows_ok_def demo_wstate_def flags_ok_def demo_tree_def demo_heap_def blank_win_def)

lemma demo_subs: "Tree 0 [Tree 1 [Tree 4 []], Tree 2 [], Tree 3 []] \<in> set (subs demo_tree)" "Tree 1 [Tree 4 []] \<in> set (subs demo_tree)"
  by (simp_all add: demo_tree_def)

text \<open>C8: Moving a window in the stack of its siblings, below all, to the top or above any sibling,
  takes the pointers of the tree of windows to those of the tree in which the children of its parent
  are reordered and nothing else differs; it always returns, and names as the first change the
  window itself when it stays or rises, and else the sibling that takes its place.\<close>

theorem MoveWindowInStack_refines_restack:
  assumes t: "window_tree h root t" and p: "Tree p ts \<in> set (subs t)" and w: "w \<in> set (map wroot ts)"
    and s: "s = None \<or> (\<exists>b \<in> set (map wroot ts). b \<noteq> w \<and> s = Some b)"
  shows "\<exists>fc h'. MoveWindowInStack w s h = Some (fc, h') \<and> window_tree h' root (edit p (restack_kids w s) t) \<and>
    map wroot (restack_kids w s ts) = restack (map wroot ts) w s \<and> (\<forall>x. no_links (h' x) = no_links (h x)) \<and>
    fc = (if restack (map wroot ts) w s = map wroot ts then Some w else first_change (map wroot ts) (restack (map wroot ts) w s))"
proof -
  note k = window_tree_kids [OF t p]
  obtain fc h' where m: "MoveWindowInStack w s h = Some (fc, h')" "window_tree h' root (edit p (restack_kids w s) t)"
    "\<And>x. no_links (h' x) = no_links (h x)"
    by (rule MoveWindowInStack_tree [OF t p w s]) blast
  then show ?thesis
    using MoveWindowInStack_restacks [OF k(1) w s] restack_kids_roots [OF k(2) w, of s] by (auto simp: restacked_def)
qed

theorem MoveWindowInStack_refines_restack_witness:
  "\<exists>fc h'. MoveWindowInStack 3 (Some 2) demo_heap = Some (fc, h') \<and>
     window_tree h' 0 (Tree 0 [Tree 1 [Tree 4 []], Tree 3 [], Tree 2 []]) \<and> fc = Some 3"
  using MoveWindowInStack_refines_restack [OF demo_window_tree demo_subs(1), of 3 "Some 2"]
  by (simp add: restack_kids_def restack_def demo_tree_def Let_def) blast

text \<open>C17: The walk through the tree of windows with explicit pointers, which goes up by parents and on
  by siblings, is the recursion that visits a window before its children, honours every answer of
  the visit (go on, leave out the children, stop) and returns; a visit that always goes on sees
  every window of the tree once, in preorder.\<close>

theorem TraverseTree_walks_preorder:
  assumes "keeps_links get visit" "rep (get s) t" "distinct (wins t)"
  shows "TraverseTree get visit (Some (wroot t)) s =
      Some (if fst (walk visit t s) then WT_STOPWALKING else WT_NOMATCH, snd (walk visit t s)) \<and>
    TraverseTree fst (\<lambda>c (h, vs). (WT_WALKCHILDREN, (h, vs @ [c]))) (Some (wroot t)) (get s, []) =
      Some (WT_NOMATCH, (get s, wins t))"
proof -
  have "keeps_links fst (\<lambda>c (h, vs). (WT_WALKCHILDREN, (h, vs @ [c])))"
    by (auto simp: keeps_links_def)
  from TraverseTree_walk [OF this, of "(get s, [])" t] TraverseTree_walk [OF assms] assms(2,3)
  show ?thesis by (simp add: walk_record finish_def)
qed

theorem TraverseTree_walks_preorder_witness:
  "TraverseTree fst (\<lambda>c (h, vs). (WT_WALKCHILDREN, (h, vs @ [c]))) (Some 0) (demo_heap, []) =
     Some (WT_NOMATCH, (demo_heap, [0, 1, 4, 2, 3]))"
proof -
  have "rep demo_heap demo_tree" "distinct (wins demo_tree)"
    using demo_window_tree by (simp_all add: window_tree_def)
  then show ?thesis
    using TraverseTree_walks_preorder [of "\<lambda>h. h" "\<lambda>c h. (WT_WALKCHILDREN, h)" demo_heap demo_tree]
    by (simp add: keeps_links_def demo_tree_def)
qed

text \<open>C1: Whatever sequence of mapping, unmapping, circulating, restacking, configuring, creating,
  reparenting and destroying the dispatcher lets through, with the redirections, the screen saver and
  the overlay window changing between the requests, the pointers of a screen's windows stand for one
  finite tree, all its windows are allocated, the windows marked realized are those mapped with all
  their ancestors, the viewable ones those of them that are not for input only, and every window is on
  the screen where its parent is, displaced by its place in the parent. Left out are the configure
  requests that break the tree (the error property of the saver's window shows how): those with the
  modes TopIf or Opposite for a mapped window that is, at the top of the siblings, the window of a
  screen saver or the overlay of Composite, or that names such a window as the sibling of the first
  one below.\<close>

theorem reached_screens_are_trees:
  assumes "reached root s"
  shows "\<exists>t. window_tree (wheap s) root t \<and> set (wins t) \<subseteq> wlive s \<and>
    (\<forall>x \<in> set (wins t). (realized (wheap s x) \<longleftrightarrow> x \<in> set (reach (wheap s) t)) \<and>
       (viewable (wheap s x) \<longleftrightarrow> x \<in> set (reach (wheap s) t) \<and> inputOutput (wheap s x)) \<and>
       (\<forall>p. parent (wheap s x) = Some p \<longrightarrow>
          win_x (wheap s x) = short (win_x (wheap s p) + origin_x (wheap s x)) \<and>
          win_y (wheap s x) = short (win_y (wheap s p) + origin_y (wheap s x))))"
proof -
  obtain t where ok: "windows_ok root t s" "all_placed t s" using reached_ok [OF assms] by (auto simp: screen_ok_def)
  note pl = bspec [OF ok(2) [unfolded all_placed_def], unfolded placed_def]
  show ?thesis using windows_ok_reach [OF ok(1)] windows_okD(1,7) [OF ok(1)] pl by blast
qed

definition fresh_root :: wstate where
  "fresh_root = \<lparr>wheap = (\<lambda>_. blank_win\<lparr>mapped := False, realized := False, viewable := False\<rparr>), wlive = {0}, wtrace = []\<rparr>"

definition mapped_root :: wstate where
  "mapped_root = trace_event (RealizeCall 0) (upd_win 0 (\<lambda>r. r\<lparr>mapped := True, realized := True, viewable := inputOutput r\<rparr>) fresh_root)"

lemma reached_mapped_root: "reached 0 mapped_root"
proof (rule reached.start [where s = fresh_root and env = demo_env])
  show "window_tree (wheap fresh_root) 0 (Tree 0 [])"
    by (simp add: window_tree_def fresh_root_def blank_win_def children_ok_def)
  show "MapWindow demo_env 0 fresh_root = Some mapped_root"
    by (simp add: MapWindow_def mapped_root_def fresh_root_def demo_env_def blank_win_def)
qed (simp_all add: fresh_root_def demo_env_def blank_win_def)

theorem reached_screens_are_trees_witness:
  "\<exists>t. window_tree (wheap mapped_root) 0 t \<and> set (wins t) \<subseteq> {0}"
proof -
  have "wlive mapped_root = {0}" by (simp add: mapped_root_def fresh_root_def upd_win_def)
  then show ?thesis using reached_screens_are_trees [OF reached_mapped_root] by auto
qed

text \<open>C4: Every operation that the dispatcher lets through on a screen that was reached returns: no
  walk through the tree, no loop along siblings and no destruction of a subtree follows a NULL
  pointer or runs in a circle, and the screen it leaves is one that was reached. Left out are the
  configure requests with the modes TopIf or Opposite for a mapped window that is itself the window of
  a showing screen saver or the overlay of Composite, or that is the first one below such a window and
  names it as the sibling: the dispatcher lets them through, and they do not return or break the tree
  (the error property of the saver's window).\<close>

theorem window_operations_return:
  assumes "reached root s" "window_tree (wheap s) root t" "op_allowed env root t s op"
  shows "\<exists>s'. window_step env op s = Some s' \<and> reached root s'"
proof -
  obtain t' where ok: "windows_ok root t' s" "mapped (wheap s root)" "all_placed t' s"
    using reached_ok [OF assms(1)] by (auto simp: screen_ok_def)
  have "t' = t" by (rule window_tree_unique [OF windows_okD(1) [OF ok(1)] assms(2)])
  then obtain s' where "window_step env op s = Some s'" using window_step_ok [OF _ _ ok(2) assms(3)] ok(1,3) by blast
  then show ?thesis using reached.step [OF assms] by blast
qed

theorem window_operations_return_witness:
  "\<exists>s'. window_step demo_env (DestroySubsOp 0 (\<lambda>_. Success)) mapped_root = Some s' \<and> reached 0 s'"
proof (rule window_operations_return [OF reached_mapped_root])
  show "window_tree (wheap mapped_root) 0 (Tree 0 [])"
    by (simp add: window_tree_def mapped_root_def fresh_root_def upd_win_def blank_win_def children_ok_def)
  show "op_allowed demo_env 0 (Tree 0 []) mapped_root (DestroySubsOp 0 (\<lambda>_. Success))" by simp
qed

text \<open>C18: Destroying a window frees it and the windows below it, each once and no window before the
  windows below it, and leaves the tree of the others as it was, with right flags.\<close>

theorem DeleteWindow_frees_subtree:
  assumes ok: "windows_ok root t s" and u: "u \<in> set (subs t)" and w: "wroot u \<noteq> root"
  shows "\<exists>s'. DeleteWindow env (wroot u) wid s = Some s' \<and> windows_ok root (prune (wroot u) t) s' \<and>
    freed s' = freed s @ post u \<and> distinct (post u) \<and> set (post u) = set (wins u) \<and>
    wlive s' = wlive s - set (wins u) \<and> set (wins (prune (wroot u) t)) = set (wins t) - set (wins u)"
proof -
  obtain s' where s': "DeleteWindow env (wroot u) wid s = Some s'" "windows_ok root (prune (wroot u) t) s'"
    "mset (wins t) = mset (wins (prune (wroot u) t)) + mset (wins u)" "wlive s' = wlive s - set (wins u)"
    "freed s' = freed s @ post u"
    by (rule DeleteWindow_ok [OF ok u refl w, of env wid]) blast
  have "distinct (wins (prune (wroot u) t) @ wins u)" "set (wins t) = set (wins (prune (wroot u) t)) \<union> set (wins u)"
    using windows_okD(3) [OF ok] s'(3)
    by (metis mset_append mset_eq_imp_distinct_iff, metis mset_append mset_eq_setD set_append)
  then have "set (wins (prune (wroot u) t)) = set (wins t) - set (wins u)" by auto
  moreover have "mset (post u) = mset (wins u)" by (rule mset_post)
  then have "distinct (post u)" using windows_okD(3) [OF ok] distinct_subs [OF _ u] by (metis mset_eq_imp_distinct_iff)
  ultimately show ?thesis using s'(1,2,4,5) post_wins by blast
qed

theorem DeleteWindow_frees_subtree_witness:
  "\<exists>s'. DeleteWindow demo_env 1 True demo_wstate = Some s' \<and> windows_ok 0 (Tree 0 [Tree 2 [], Tree 3 []]) s' \<and> freed s' = [4, 1]"
  using DeleteWindow_frees_subtree [OF demo_windows_ok demo_subs(2), of demo_env True]
  by (auto simp: demo_tree_def demo_wstate_def freed_def)

section \<open>Configure requests\<close>

lemma demo_placed: "all_placed demo_tree demo_wstate"
  by (simp add: all_placed_def placed_def demo_tree_def demo_wstate_def demo_heap_def blank_win_def short_def)

text \<open>C9: A configure request whose values were read without an error finds its place among the siblings,
  and when it is neither redirected nor refused by the screen it puts the window to the place in its
  parent it asks for, with that size (or the old one, where another client decides on sizes), that
  border and that position among its siblings; every window below moves with it, and all windows
  elsewhere keep place, size and parent. Left out are the requests with the modes TopIf or Opposite for
  a mapped window that is the window of a showing screen saver or the overlay of Composite, or that is
  the first one below such a window and names it as the sibling.\<close>

theorem ConfigureWindow_moves_subtree:
  assumes ok: "windows_ok root t s" and p: "Tree p ts \<in> set (subs t)" and u: "u \<in> set ts" "wroot u = w"
    and pl: "all_placed t s" and args: "configure_args lookup (wheap s) w msk vlist = Some (Inr (act, c))"
    and look: "\<And>v b. lookup v = Inr b \<Longrightarrow> sibling_known t (wheap s) b"
    and safe: "configure_safe env lookup (wheap s) w msk vlist"
  shows "\<exists>sib. conf_place env (wheap s) w msk c = Some sib \<and>
    (\<not> configure_redirected env (wheap s) w c \<and>
     ConfigNotify env w ((conf_used env (wheap s) w act c)\<lparr>cf_sibling := sib\<rparr>) = Success \<longrightarrow>
      (\<exists>s'. ConfigureWindow env lookup w msk vlist s = Some (Success, s') \<and>
    windows_ok root (edit p (restack_kids w sib) t) s' \<and> map wroot (restack_kids w sib ts) = restack (map wroot ts) w sib \<and>
    win_x (wheap s' w) = short (win_x (wheap s p) + cf_x c + cf_border c) \<and>
    win_y (wheap s' w) = short (win_y (wheap s p) + cf_y c + cf_border c) \<and>
    (win_width (wheap s' w), win_height (wheap s' w)) =
      (if size_redirected env (wheap s) w act c then (win_width (wheap s w), win_height (wheap s w)) else (cf_width c, cf_height c)) \<and>
    borderWidth (wheap s' w) = cf_border c \<and> (\<forall>z \<in> set (wins u). placed (wheap s') z) \<and>
    (\<forall>z. z \<notin> set (wins u) \<longrightarrow> place_of (wheap s' z) = place_of (wheap s z))))"
proof -
  note f = parent_of_root_of_kid [OF ok p u(1), unfolded u(2)]
  note a = configure_args_facts [OF args]
  have plu: "placed (wheap s) z" if "z \<in> set (wins u)" for z
    using pl wins_subs [OF f(2)] that by (auto simp: all_placed_def)
  obtain sib where place: "conf_place env (wheap s) w msk c = Some sib"
    and b: "sib = None \<or> (\<exists>b \<in> set (map wroot ts). b \<noteq> w \<and> sib = Some b)"
    by (rule conf_place_ok [OF ok p u args look safe])
  show ?thesis
  proof (intro exI [of _ sib] conjI place impI, elim conjE)
    assume red: "\<not> configure_redirected env (wheap s) w c"
      and hook: "ConfigNotify env w ((conf_used env (wheap s) w act c)\<lparr>cf_sibling := sib\<rparr>) = Success"
    obtain s' where s': "ConfigureWindow env lookup w msk vlist s = Some (Success, s')"
      "changed root t (edit p (restack_kids w sib) t) w u (cf_x c) (cf_y c)
        (cf_width (conf_used env (wheap s) w act c)) (cf_height (conf_used env (wheap s) w act c)) (cf_border c) s s'"
      using ConfigureWindow_ok [OF ok p u plu args place b red hook] by blast
    have ok': "windows_ok root (edit p (restack_kids w sib) t) s'" using s'(2) by (simp add: changed_def)
    have "u \<in> set (restack_kids w sib ts)" using mset_eq_setD [OF mset_restack_kids [of w sib ts]] u(1) by simp
    from parent_of_root_of_kid(1) [OF ok' subs_edit [OF windows_okD(3) [OF ok] p] this]
    have par: "parent (wheap s' w) = Some p" by (simp add: u(2))
    have "place_of (wheap s' p) = place_of (wheap s p)" using s'(2) f(5) by (simp add: changed_def)
    moreover have "(win_width (wheap s' w), win_height (wheap s' w)) =
        (if size_redirected env (wheap s) w act c then (win_width (wheap s w), win_height (wheap s w)) else (cf_width c, cf_height c))"
      using s'(2) a(8,9) by (auto simp: changed_def sized_def conf_used_def own_size_def)
    ultimately show "\<exists>s'. ConfigureWindow env lookup w msk vlist s = Some (Success, s') \<and>
      windows_ok root (edit p (restack_kids w sib) t) s' \<and> map wroot (restack_kids w sib ts) = restack (map wroot ts) w sib \<and>
      win_x (wheap s' w) = short (win_x (wheap s p) + cf_x c + cf_border c) \<and>
      win_y (wheap s' w) = short (win_y (wheap s p) + cf_y c + cf_border c) \<and>
      (win_width (wheap s' w), win_height (wheap s' w)) =
        (if size_redirected env (wheap s) w act c then (win_width (wheap s w), win_height (wheap s w)) else (cf_width c, cf_height c)) \<and>
      borderWidth (wheap s' w) = cf_border c \<and> (\<forall>z \<in> set (wins u). placed (wheap s') z) \<and>
      (\<forall>z. z \<notin> set (wins u) \<longrightarrow> place_of (wheap s' z) = place_of (wheap s z))"
      using s' par restack_kids_roots [OF window_tree_kids(2) [OF windows_okD(1) [OF ok] p] f(3), of sib]
      by (intro exI [of _ s']) (simp add: changed_def placed_at_def sized_def place_of_def)
  qed
qed

lemma demo_args:
  "configure_args (\<lambda>_. Inl BadWindow) demo_heap 1 3 [5, 7] =
     Some (Inr (MOVE_WIN, \<lparr>cf_x = 5, cf_y = 7, cf_width = 1, cf_height = 1, cf_border = 0, cf_sibling = None, cf_mode = Above\<rparr>))"
  by code_simp

theorem ConfigureWindow_moves_subtree_witness:
  "\<exists>s'. ConfigureWindow demo_env (\<lambda>_. Inl BadWindow) 1 3 [5, 7] demo_wstate = Some (Success, s') \<and>
     win_x (wheap s' 1) = 5 \<and> win_y (wheap s' 1) = 7 \<and> placed (wheap s') 4"
proof -
  let ?c = "\<lparr>cf_x = 5, cf_y = 7, cf_width = 1, cf_height = 1, cf_border = 0, cf_sibling = None, cf_mode = Above\<rparr>"
  have h: "wheap demo_wstate = demo_heap" by (simp add: demo_wstate_def)
  have args: "configure_args (\<lambda>_. Inl BadWindow) (wheap demo_wstate) 1 3 [5, 7] = Some (Inr (MOVE_WIN, ?c))"
    by (simp only: h demo_args)
  have nb: "bit (3 :: u32) CWStackMode = False" by code_simp
  have place: "conf_place demo_env (wheap demo_wstate) 1 3 ?c = Some (Some 2)"
    unfolding conf_place_def nb h by (simp add: demo_heap_def blank_win_def)
  have u: "Tree 1 [Tree 4 []] \<in> set [Tree 1 [Tree 4 []], Tree 2 [], Tree 3 []]" "wroot (Tree 1 [Tree 4 []]) = 1" by simp_all
  have safe: "configure_safe demo_env (\<lambda>_. Inl BadWindow) (wheap demo_wstate) 1 3 [5, 7]"
    unfolding configure_safe_def args by (simp add: stack_safe_def)
  have look: "sibling_known demo_tree (wheap demo_wstate) b" if "(\<lambda>_. Inl BadWindow) v = (Inr b :: x_status + nat)" for v :: u32 and b
    using that by simp
  have red: "\<not> configure_redirected demo_env (wheap demo_wstate) 1 ?c"
    and hook: "ConfigNotify demo_env 1 ((conf_used demo_env (wheap demo_wstate) 1 MOVE_WIN ?c)\<lparr>cf_sibling := Some 2\<rparr>) = Success"
    by (simp_all add: configure_redirected_def demo_env_def)
  have "win_x (wheap demo_wstate 0) = 0" "win_y (wheap demo_wstate 0) = 0" by (simp_all add: h demo_heap_def blank_win_def)
  then show ?thesis
    using ConfigureWindow_moves_subtree [OF demo_windows_ok demo_subs(1) u demo_placed args look safe] place red hook
    by (auto simp: short_def)
qed

text \<open>C10: For a window below the head of the real children (every window of a parent that has no head, and on
  a root with the window of a showing screen saver or the overlay of Composite at the top, every window
  below these) the stacking modes of a configure request mean what the protocol says, with a sibling
  named or not: Above and Below put the window next to the sibling or to the top and bottom of the real
  children, TopIf raises it when it is occluded, BottomIf lowers it when it occludes, Opposite does the
  first that applies; the heap then holds the siblings in that order and nothing else changes. A
  sibling named with TopIf or Opposite must be below the head as well; with the saver's window as the
  window or the sibling these two modes fail, as the error property of the saver's window shows.\<close>

theorem WhereDoIGoInTheStack_meets_protocol:
  assumes c: "children_ok h p (xs @ as @ w # bs)" and q: "last_of xs = RealChildHead env h p"
    and s: "sib = None \<or> (\<exists>b \<in> set (xs @ as @ bs). sib = Some b)"
    and head: "mode = TopIf \<or> mode = Opposite \<Longrightarrow> sib \<notin> Some ` set xs"
  shows "\<exists>r fc h'. WhereDoIGoInTheStack env h w sib x y wd ht mode = Some r \<and> MoveWindowInStack w r h = Some (fc, h') \<and>
    children_ok h' p (protocol_stack env h (Box (short x) (short y) (short (x + wd)) (short (y + ht))) xs as w bs sib mode) \<and>
    relinked p (set (xs @ as @ w # bs)) h h'"
proof -
  obtain r where r: "WhereDoIGoInTheStack env h w sib x y wd ht mode = Some r" "r = None \<or> (\<exists>b \<in> set (xs @ as @ bs). r = Some b)"
    "restack (xs @ as @ w # bs) w r =
      protocol_stack env h (Box (short x) (short y) (short (x + wd)) (short (y + ht))) xs as w bs sib mode"
    using WhereDoIGoInTheStack_ok [OF c q s head, where x = x and y = y and wd = wd and ht = ht] by blast
  have "distinct (xs @ as @ w # bs)" using c by (simp add: children_ok_def)
  then have "r = None \<or> (\<exists>b \<in> set (xs @ as @ w # bs). b \<noteq> w \<and> r = Some b)" using r(2) by auto
  from MoveWindowInStack_restacks [OF c _ this] r(1,3) show ?thesis by (auto simp: restacked_def)
qed

lemma demo_children: "children_ok demo_heap 0 [1, 2, 3]"
  using demo_window_tree by (simp add: window_tree_def demo_tree_def)

theorem WhereDoIGoInTheStack_meets_protocol_witness:
  "\<exists>r fc h'. WhereDoIGoInTheStack demo_env demo_heap 3 None 0 0 1 1 Opposite = Some r \<and>
     MoveWindowInStack 3 r demo_heap = Some (fc, h') \<and> children_ok h' 0 [3, 1, 2]"
proof -
  have c: "children_ok demo_heap 0 ([] @ [1, 2] @ 3 # [])" using demo_children by simp
  have q: "last_of ([] :: wptr list) = RealChildHead demo_env demo_heap 0" by (simp add: RealChildHead_def demo_env_def)
  have "protocol_stack demo_env demo_heap (Box (short 0) (short 0) (short (0 + 1)) (short (0 + 1))) [] [1, 2] 3 [] None Opposite = [3, 1, 2]"
    by (simp add: protocol_stack_def overlaps_def demo_heap_def blank_win_def BOXES_OVERLAP_def WindowExtents_def ShapeOverlap_def short_def Box_def)
  then show ?thesis
    using WhereDoIGoInTheStack_meets_protocol [OF c q, where sib = None and mode = Opposite and x = 0 and y = 0 and wd = 1 and ht = 1] by auto
qed

text \<open>C21: The window of a screen saver is not safe from configure requests. While it is the head of the real
  children, the modes TopIf and Opposite make the search for windows above it follow a NULL pointer;
  and with it as the sibling of the first real child, that child is put in front of itself, which makes
  it its own next sibling, so that no walk along the children ends any more.\<close>

theorem saver_window_breaks_stacking:
  assumes c: "children_ok h p (q # w # bs)" and q: "RealChildHead env h p = Some q" and m: "mapped (h q)" "mapped (h w)"
    and b: "border_meets env q (Box (short x) (short y) (short (x + wd)) (short (y + ht)))"
  shows "WhereDoIGoInTheStack env h q None x y wd ht TopIf = None \<and>
    WhereDoIGoInTheStack env h q None x y wd ht Opposite = None \<and>
    (\<exists>r fc h'. WhereDoIGoInTheStack env h w (Some q) x y wd ht TopIf = Some r \<and>
       WhereDoIGoInTheStack env h w (Some q) x y wd ht Opposite = Some r \<and>
       MoveWindowInStack w r h = Some (fc, h') \<and> nextSib (h' w) = Some w \<and>
       for_sibs h' nextSib None (\<lambda>_. False) (firstChild (h' p)) = None)"
proof -
  obtain fc h' where "MoveWindowInStack w (Some w) h = Some (fc, h')" "nextSib (h' w) = Some w"
    "for_sibs h' nextSib None (\<lambda>_. False) (firstChild (h' p)) = None"
    by (rule move_before_itself [OF c])
  then show ?thesis
    using head_not_below_itself [OF c q m(1)] first_below_head [OF c q m b] by blast
qed

theorem saver_window_breaks_stacking_witness:
  "WhereDoIGoInTheStack (demo_env\<lparr>saver_window := True\<rparr>) demo_heap 1 None 0 0 1 1 TopIf = None \<and>
   (\<exists>r fc h'. WhereDoIGoInTheStack (demo_env\<lparr>saver_window := True\<rparr>) demo_heap 2 (Some 1) 0 0 1 1 TopIf = Some r \<and>
      MoveWindowInStack 2 r demo_heap = Some (fc, h') \<and> nextSib (h' 2) = Some 2)"
proof -
  let ?env = "demo_env\<lparr>saver_window := True\<rparr>"
  have q: "RealChildHead ?env demo_heap 0 = Some 1"
    by (simp add: RealChildHead_def demo_env_def demo_heap_def blank_win_def)
  have m: "mapped (demo_heap 1)" "mapped (demo_heap 2)" by (simp_all add: demo_heap_def blank_win_def)
  have "border_meets ?env 1 (Box (short 0) (short 0) (short (0 + 1)) (short (0 + 1)))" by (simp add: demo_env_def)
  from saver_window_breaks_stacking [OF demo_children q m this] show ?thesis by auto
qed

text \<open>The growth a child takes part in, by its gravity.\<close>

definition gravity_shift :: "gravity \<Rightarrow> int \<Rightarrow> int \<Rightarrow> int \<times> int" where
  "gravity_shift g dw dh =
     ((if g \<in> {NorthGravity, CenterGravity, SouthGravity} then half dw
       else if g \<in> {NorthEastGravity, EastGravity, SouthEastGravity} then dw else 0),
      (if g \<in> {WestGravity, CenterGravity, EastGravity} then half dh
       else if g \<in> {SouthWestGravity, SouthGravity, SouthEastGravity} then dh else 0))"

lemma child_origin_shift:
  assumes "winGravity r \<noteq> StaticGravity \<or> dw = 0 \<and> dh = 0"
  shows "short (fst (child_origin r dx dy dw dh)) = short (origin_x r + fst (gravity_shift (winGravity r) dw dh))"
    "short (snd (child_origin r dx dy dw dh)) = short (origin_y r + snd (gravity_shift (winGravity r) dw dh))"
proof -
  have h0: "half 0 = 0" by (simp add: half_def)
  show "short (fst (child_origin r dx dy dw dh)) = short (origin_x r + fst (gravity_shift (winGravity r) dw dh))"
    "short (snd (child_origin r dx dy dw dh)) = short (origin_y r + snd (gravity_shift (winGravity r) dw dh))"
    using assms
    by (cases "winGravity r"; auto simp: child_origin_def GravityTranslate_def gravity_shift_def Let_def h0)+
qed

lemma static_child:
  assumes "winGravity r = StaticGravity" "dw \<noteq> 0 \<or> dh \<noteq> 0"
  shows "short (x + dx + fst (child_origin r dx dy dw dh)) = short (x + origin_x r)"
    "short (y + dy + snd (child_origin r dx dy dw dh)) = short (y + origin_y r)"
  using assms by (auto simp: child_origin_def GravityTranslate_def)

lemma kid_placed:
  assumes ok: "windows_ok root t s" and w: "Tree w us \<in> set (subs t)" and c: "c \<in> set (map wroot us)"
    and pl: "\<And>z. z \<in> set (wins (Tree w us)) \<Longrightarrow> placed (wheap s) z"
  shows "win_x (wheap s c) = short (win_x (wheap s w) + origin_x (wheap s c))"
    "win_y (wheap s c) = short (win_y (wheap s w) + origin_y (wheap s c))"
proof -
  obtain v where v: "v \<in> set us" "wroot v = c" using c by auto
  have "c \<in> set (wins (Tree w us))" using v wroot_in_wins [of v] by auto
  then have "placed (wheap s) c" by (rule pl)
  then show "win_x (wheap s c) = short (win_x (wheap s w) + origin_x (wheap s c))"
    "win_y (wheap s c) = short (win_y (wheap s w) + origin_y (wheap s c))"
    using parent_of_root_of_kid(1) [OF ok w v(1)] v(2) by (simp_all add: placed_def)
qed

text \<open>C19: When a window is resized, each child keeps its distance to the edge or corner its gravity names: with
  the gravity Static it stays where it is on the screen, with another it is moved by none, half or all
  of the growth as the code keeps it, a signed 16-bit number; the children of a viewable window with the
  gravity Unmap are unmapped, and no others. A window that grows by more than 32767 has, in this
  number, shrunk by 65536 less the growth, and half of it moves the centred children the wrong way.\<close>

theorem miResizeWindow_gravitates_children:
  assumes ok: "windows_ok root t s" and pl: "all_placed t s" and p: "Tree p ts \<in> set (subs t)" and u: "Tree w us \<in> set ts"
    and b: "sib = None \<or> (\<exists>b \<in> set (map wroot ts). b \<noteq> w \<and> sib = Some b)"
    and d: "dw = short (wd - win_width (wheap s w))" "dh = short (ht - win_height (wheap s w))"
  shows "\<exists>s'. miResizeWindow env w x y wd ht sib s = Some s' \<and> (\<forall>c \<in> set (map wroot us).
    (if winGravity (wheap s c) = StaticGravity \<and> (dw \<noteq> 0 \<or> dh \<noteq> 0)
     then win_x (wheap s' c) = win_x (wheap s c) \<and> win_y (wheap s' c) = win_y (wheap s c)
     else short (origin_x (wheap s' c)) = short (origin_x (wheap s c) + fst (gravity_shift (winGravity (wheap s c)) dw dh)) \<and>
          short (origin_y (wheap s' c)) = short (origin_y (wheap s c) + snd (gravity_shift (winGravity (wheap s c)) dw dh)) \<and>
          win_x (wheap s' c) = short (win_x (wheap s' w) + origin_x (wheap s' c)) \<and>
          win_y (wheap s' c) = short (win_y (wheap s' w) + origin_y (wheap s' c))) \<and>
    mapped (wheap s' c) = (mapped (wheap s c) \<and> \<not> (viewable (wheap s w) \<and> winGravity (wheap s c) = UnmapGravity)))"
proof -
  obtain s' where s': "miResizeWindow env w x y wd ht sib s = Some s'"
    "changed root t (edit p (restack_kids w sib) t) w (Tree w us) x y wd ht (borderWidth (wheap s w)) s s'"
    "\<And>c. c \<in> set (map wroot us) \<Longrightarrow> child_resized (wheap s) (wheap s') w wd ht c"
    using miResizeWindow_ok [OF ok p u wtree.sel(1) b, of env x y wd ht] by auto
  have ok': "windows_ok root (edit p (restack_kids w sib) t) s'" using s'(2) by (simp add: changed_def)
  have u': "Tree w us \<in> set (restack_kids w sib ts)" using mset_eq_setD [OF mset_restack_kids [of w sib ts]] u by simp
  note sub = parent_of_root_of_kid(2) [OF ok p u]
    parent_of_root_of_kid(2) [OF ok' subs_edit [OF windows_okD(3) [OF ok] p] u']
  have pl0: "placed (wheap s) z" if "z \<in> set (wins (Tree w us))" for z
    using pl wins_subs [OF sub(1)] that by (auto simp: all_placed_def)
  have pl': "placed (wheap s') z" if "z \<in> set (wins (Tree w us))" for z using s'(2) that unfolding changed_def by blast
  note c = kid_placed [OF ok sub(1) _ pl0] kid_placed [OF ok' sub(2) _ pl']
  have o: "(origin_x (wheap s' c), origin_y (wheap s' c)) = child_origin (wheap s c)
      (win_x (wheap s' w) - win_x (wheap s w)) (win_y (wheap s' w) - win_y (wheap s w)) dw dh"
    "mapped (wheap s' c) = (mapped (wheap s c) \<and> \<not> (viewable (wheap s w) \<and> winGravity (wheap s c) = UnmapGravity))"
    if "c \<in> set (map wroot us)" for c
    using s'(3) [OF that] by (simp_all add: child_resized_def d)
  show ?thesis
  proof (intro exI [of _ s'] conjI s'(1) ballI)
    fix c assume c': "c \<in> set (map wroot us)"
    let ?r = "wheap s c"
    note g = arg_cong [OF o(1) [OF c'], of fst, unfolded fst_conv] arg_cong [OF o(1) [OF c'], of snd, unfolded snd_conv]
    show "mapped (wheap s' c) = (mapped ?r \<and> \<not> (viewable (wheap s w) \<and> winGravity ?r = UnmapGravity))" by (rule o(2) [OF c'])
    show "if winGravity ?r = StaticGravity \<and> (dw \<noteq> 0 \<or> dh \<noteq> 0)
      then win_x (wheap s' c) = win_x ?r \<and> win_y (wheap s' c) = win_y ?r
      else short (origin_x (wheap s' c)) = short (origin_x ?r + fst (gravity_shift (winGravity ?r) dw dh)) \<and>
        short (origin_y (wheap s' c)) = short (origin_y ?r + snd (gravity_shift (winGravity ?r) dw dh)) \<and>
        win_x (wheap s' c) = short (win_x (wheap s' w) + origin_x (wheap s' c)) \<and>
        win_y (wheap s' c) = short (win_y (wheap s' w) + origin_y (wheap s' c))"
    proof (cases "winGravity ?r = StaticGravity \<and> (dw \<noteq> 0 \<or> dh \<noteq> 0)")
      case True
      let ?dx = "win_x (wheap s' w) - win_x (wheap s w)" and ?dy = "win_y (wheap s' w) - win_y (wheap s w)"
      note st = static_child(1) [of ?r dw dh "win_x (wheap s w)" ?dx ?dy] static_child(2) [of ?r dw dh "win_y (wheap s w)" ?dy ?dx]
      have "win_x (wheap s' c) = win_x ?r \<and> win_y (wheap s' c) = win_y ?r"
        using st True g c [OF c'] by simp
      then show ?thesis using True by (simp only: if_True simp_thms)
    next
      case False
      then have "winGravity ?r \<noteq> StaticGravity \<or> dw = 0 \<and> dh = 0" by blast
      note sh = child_origin_shift [OF this]
      show ?thesis unfolding if_not_P [OF False] using sh g c(3,4) [OF c'] by simp
    qed
  qed
qed

theorem miResizeWindow_gravitates_children_witness:
  "\<exists>s'. miResizeWindow demo_env 1 5 5 9 9 None demo_wstate = Some s' \<and> mapped (wheap s' 4) \<and>
     short (origin_x (wheap s' 4)) = 0 \<and> win_x (wheap s' 4) = short (win_x (wheap s' 1) + origin_x (wheap s' 4))"
proof -
  have u: "Tree 1 [Tree 4 []] \<in> set [Tree 1 [Tree 4 []], Tree 2 [], Tree 3 []]" by simp
  show ?thesis
    using miResizeWindow_gravitates_children [OF demo_windows_ok demo_placed demo_subs(1) u disjI1 [OF refl] refl refl,
        of demo_env 5 5 9 9]
    by (auto simp: demo_wstate_def demo_heap_def blank_win_def gravity_shift_def short_def)
qed

text \<open>C20: Every request to configure a window of a screen, of any length and with any values, returns,
  whatever windows of this or another screen the sibling is: it reads no value behind the end of the
  list it was sent, an error leaves all windows as they are, and otherwise the windows of the screen are
  still those of one tree with right flags and places. Left out are the requests with the modes TopIf or
  Opposite for a mapped window that is the window of a showing screen saver or the overlay of
  Composite, or that is the first one below such a window and names it as the sibling.\<close>

theorem ProcConfigureWindow_returns:
  assumes ok: "windows_ok root t s" and pl: "all_placed t s"
    and mem: "req_len - 3 \<le> length mem"
    and man: "\<And>w. manage wid = Inr w \<Longrightarrow> w \<in> set (wins t) \<and>
      configure_safe env lookup (wheap s) w (ucast msk) (take (req_len - 3) mem)"
    and look: "\<And>v b. lookup v = Inr b \<Longrightarrow> sibling_known t (wheap s) b"
  shows "\<exists>st s' t'. ProcConfigureWindow env manage lookup req_len wid msk mem s = Some (st, s') \<and>
    windows_ok root t' s' \<and> all_placed t' s' \<and> mset (wins t') = mset (wins t) \<and> freed s' = freed s \<and>
    (st \<noteq> Success \<longrightarrow> wheap s' = wheap s)"
proof -
  have err: ?thesis if "ProcConfigureWindow env manage lookup req_len wid msk mem s = Some (e, s)" for e
    using that ok pl by blast
  show ?thesis
  proof (cases "REQUEST_AT_LEAST_SIZE 12 req_len")
    case False
    then show ?thesis by (intro err) (simp add: ProcConfigureWindow_def)
  next
    case len: True
    show ?thesis
    proof (cases "manage wid")
      case (Inl rc)
      then show ?thesis using len by (intro err) (simp add: ProcConfigureWindow_def)
    next
      case (Inr w)
      show ?thesis
      proof (cases "Ones (ucast msk) = req_len - 3")
        case False
        then show ?thesis using len Inr by (intro err) (simp add: ProcConfigureWindow_def Let_def)
      next
        case True
        have n: "Ones (ucast msk) = length (take (req_len - 3) mem)" using True mem by simp
        have e: "ProcConfigureWindow env manage lookup req_len wid msk mem s =
            ConfigureWindow env lookup w (ucast msk) (take (req_len - 3) mem) s"
          using len Inr True by (simp add: ProcConfigureWindow_def Let_def)
        have w: "w \<in> set (wins t)" "configure_safe env lookup (wheap s) w (ucast msk) (take (req_len - 3) mem)"
          using man [OF Inr] by blast+
        have "\<exists>st s' t'. ConfigureWindow env lookup w (ucast msk) (take (req_len - 3) mem) s = Some (st, s') \<and>
            windows_ok root t' s' \<and> all_placed t' s' \<and> mset (wins t') = mset (wins t) \<and>
            mapped (wheap s' root) = mapped (wheap s root) \<and> freed s' = freed s \<and> (st \<noteq> Success \<longrightarrow> wheap s' = wheap s)"
          by (rule ConfigureWindow_total [OF ok pl w(1) n _ w(2)]) (rule look)
        then show ?thesis unfolding e by blast
      qed
    qed
  qed
qed

lemma demo_safe: "configure_safe demo_env lookup h w msk vlist"
proof -
  have "\<not> above_head demo_env h b" for b
    by (simp add: above_head_def RealChildHead_def demo_env_def split: option.split)
  then show ?thesis by (simp add: configure_safe_def stack_safe_def split: option.split sum.split)
qed

theorem ProcConfigureWindow_returns_witness:
  "\<exists>st s' t'. ProcConfigureWindow demo_env (\<lambda>i. Inr (unat i)) (\<lambda>_. Inr 3) 4 2 32 [3] demo_wstate = Some (st, s') \<and> windows_ok 0 t' s'"
proof -
  have man: "w \<in> set (wins demo_tree) \<and> configure_safe demo_env (\<lambda>_. Inr 3) (wheap demo_wstate) w (ucast (32 :: u16)) (take (4 - 3) [3])"
    if "(\<lambda>i. Inr (unat i)) (2 :: u32) = (Inr w :: x_status + nat)" for w
    using that demo_safe by (simp add: demo_tree_def)
  have look: "sibling_known demo_tree (wheap demo_wstate) b" if "(\<lambda>_. Inr 3) v = (Inr b :: x_status + nat)" for v :: u32 and b
    using that by (simp add: sibling_known_def demo_tree_def)
  have mem: "4 - 3 \<le> length [3 :: u32]" by simp
  show ?thesis
    using ProcConfigureWindow_returns [where manage = "\<lambda>i. Inr (unat i)" and lookup = "\<lambda>_. Inr 3" and wid = 2 and msk = 32,
        OF demo_windows_ok demo_placed mem man look] by blast
qed

end
