(* ===== verification/Spec2Isabelle.thy ===== *)
theory Spec2Isabelle
  imports X_Prelude Wire_Words Rpc_Buf Atoms Resources Resource_Laws Properties Property_Laws Server_Time Selections Selection_Laws Passive_Grabs Grab_Laws Record_Sets Hash_Tables Regions Region_Laws Region_Validate Region_Validate_Laws Event_Queue Event_Queue_Laws Window_Steps
begin

text \<open>
  A model of the core of the X server: the device independent part under \<open>dix/\<close>, which
  holds the state that clients share and answers their requests, and the data structures that the
  extensions under \<open>Xext/\<close> build on it.

  The program. A request arrives in \<open>dix/dispatch.c\<close>; its handler looks up the objects it
  names, checks access, changes the state and sends a reply or events. The state is spread over
  tables: atoms (\<open>dix/atom.c\<close>) name things, resources (\<open>dix/resource.c\<close>) map the
  ids of clients to objects, windows carry properties (\<open>dix/property.c\<close>) and passive grabs
  (\<open>dix/grabs.c\<close>), selections (\<open>dix/selection.c\<close>) have an owner each. Every table
  is a linked structure that is changed in place, allocations fail with \<open>BadAlloc\<close>, and
  security and filter callbacks run in between.

  How the theories model it. The state of a part is a record whose fields are the variables and
  structs of the C code; each function of the code is a definition of the same name on that state;
  a loop is a recursive function with a termination proof. What is not in these files (callbacks,
  other parts, allocations) is a field of an environment record, so a theorem holds for all of
  them. A linked list is the list of its nodes, a pointer into it an address stored in the node.
  Status codes are values; memory errors, where the code has them, are a value of their own.

  \<^item> \<open>X_Prelude\<close>: machine words, status codes, byte lists, lemmas on lists and words.
  \<^item> \<open>Requests\<close>: access masks and the length checks of requests (\<open>include/dix.h\<close>).
  \<^item> \<open>Wire_Words\<close>: padding and byte swapping (\<open>include/misc.h\<close>,
    \<open>dix/swapreq.c\<close>). Rounding agrees with its arithmetic meaning; swapping an array
    reverses the bytes of each element and is its own inverse.
  \<^item> \<open>Rpc_Buf\<close>: the growing buffer in which replies are assembled (\<open>dix/rpcbuf.c\<close>).
    Sums of type \<open>size_t\<close> wrap at 2 to the 64, and the count passed on is cast to \<open>int\<close>. Within
    the sizes that requests have, a reply is its header and the encodings of its fields and reserved
    memory lies in the buffer; near the wrap it does not.
  \<^item> \<open>Atoms\<close>: the search tree of names. It implements a bijection between names and the
    numbers given out so far, for names without a NUL byte (a stored name ends at the first one) and
    as long as the 32-bit counter has not run out; freeing the table frees every copy once.
  \<^item> \<open>Resources\<close>, \<open>Resource_Laws\<close>: the hash tables of the clients' resources, with
    the types and classes, id ranges and the freeing of one resource, of a type, of a client. A
    delete function may change the tables while a chain is walked: the walks restart as the code
    does, with the number of entries as the bound. The freeing of a client is an equation between what
    was due at the start, what the delete functions added and removed, and what was disposed of.
  \<^item> \<open>Properties\<close>, \<open>Property_Laws\<close>: the properties of windows and their five
    requests, against a map from names to values. Byte counts are kept in 32 bits as in the code; a copy
    that would run past its array is the value \<open>None\<close>. The theorems are about an
    environment that allows every access and every allocation.
  \<^item> \<open>Server_Time\<close>: time stamps as the linear order the code compares them by.
  \<^item> \<open>Selections\<close>, \<open>Selection_Laws\<close>: the three requests and the two clean-up
    operations, as a transition system whose reachable states keep window, client and time of an
    owner together.
  \<^item> \<open>Passive_Grabs\<close>, \<open>Grab_Laws\<close>: adding and cutting out grabs, against the
    set of keys and modifiers that the grabs of a client claim.
  \<^item> \<open>Record_Sets\<close>: the bit vectors and interval lists of the RECORD extension
    (\<open>Xext/record/set.c\<close>), with one interface for both as a locale.
  \<^item> \<open>Hash_Tables\<close>: the growing hash table of \<open>Xext/hashtable.c\<close>, with the
    contract of its hash and comparison functions as a locale, against a map.
  \<^item> \<open>Regions\<close>, \<open>Region_Laws\<close>, \<open>Region_Validate\<close>,
    \<open>Region_Validate_Laws\<close>: the regions of \<open>dix/region.c\<close>, banded lists of
    rectangles. The sweep unites two of them; validation sorts any rectangles, scatters them over
    regions and unites these. A region stands for the set of its points, which all of this keeps.
    In the validation each region under construction carries the identity of its array, so the error
    exit computes which arrays it frees.
  \<^item> \<open>Event_Queue\<close>, \<open>Event_Queue_Laws\<close>: the ring buffer between the input
    drivers and the server (\<open>mi/mieq.c\<close>): appending, merging of motion events, growth,
    dropping, processing with handlers and the drained events. The ring stands for a list; events
    come out in the order in which they went in, unless a growth of the queue fails halfway, which
    frees blocks still in use.
  \<^item> \<open>Window_Tree\<close>, \<open>Window_Place\<close>, \<open>Window_Life\<close>: the tree of
    windows of \<open>dix/window.c\<close> as the code links it: a heap of window records with the five
    pointers \<open>parent\<close>, \<open>prevSib\<close>, \<open>nextSib\<close>,
    \<open>firstChild\<close> and \<open>lastChild\<close>; walking, restacking, mapping, unmapping,
    deleting, creating, reparenting, circulating, and the places of windows on the screen, which
    moving, resizing and gravity change. The head of the real children is the window of the screen
    saver or, by the hook that the Composite extension registers, its overlay window
    (\<open>Xext/composite/compwindow.c\<close>). Sizes are 16-bit numbers. A \<open>None\<close> of these functions is a NULL
    or freed pointer that the code would follow, or a loop that does not end.
  \<^item> \<open>Window_Configure\<close>: the configure request of \<open>dix/window.c\<close> and
    \<open>dix/dispatch.c\<close>, its list of values included, and the moving, resizing and changing of
    borders of \<open>mi/miwindow.c\<close>.
  \<^item> \<open>Window_Tree_Laws\<close>: chains of siblings as lists, and restacking as an operation on
    lists. \<open>Window_Walk\<close>: a window with all below it as a rose tree, and the loop of the
    walk against its preorder. \<open>Window_Life_Laws\<close>: the flags \<open>mapped\<close>,
    \<open>realized\<close> and \<open>viewable\<close>, kept by mapping and unmapping, and the removal
    of all windows below one. \<open>Window_Place_Laws\<close>: a window is where its parent is,
    displaced by its place in it. \<open>Window_Ops_Laws\<close>: deletion, creation and reparenting.
    \<open>Window_Circulate\<close>: circulation. \<open>Window_Stacking\<close>: the five stacking modes
    against their meaning in the protocol, and what happens when the window of a screen saver or the
    overlay window is named, which no check of the code prevents. \<open>Window_Configure_Laws\<close>: a configure request moves a window with all below it
    and nothing else, and reads only the values it was sent. \<open>Window_Steps\<close>: the
    operations as a transition system whose reachable heaps are trees with consistent flags and
    places, on which no operation meets a NULL pointer, and the properties of the parts above. The
    answers of the rest of the server are chosen anew for each operation; the configure requests that
    break the tree, those with the modes \<open>TopIf\<close> and \<open>Opposite\<close> that name the saver or
    overlay window, are no operations of this system (\<open>configure_safe\<close>).

  Bounds. Searching a client's id range tries at most as many ids as the range has; collecting
  freed ids and faked client ids use the bounds 65537 and 2 ^ 18, the sizes of the id spaces. The
  loops over windows have no bound in the code: they are partial functions with option values,
  \<open>None\<close> for a NULL pointer and for a loop that never ends, and the theorems on
  well formed trees show that they return \<open>Some\<close>.

  Not modelled. Event delivery and the devices (\<open>dix/events.c\<close>,
  \<open>dix/getevents.c\<close>); of windows, what is drawn or clipped, the attribute requests and the
  confinement of the pointer; fonts, colormaps, the drawing code under \<open>mi\<close>, \<open>fb\<close> and
  \<open>glamor\<close>, the keyboard extension, and the hardware layers under \<open>hw\<close>: they
  rest on devices, screens and rendering whose effects are outside the code modelled here.
\<close>

end
